(* ===== verification/Prelude.thy ===== *)
theory Prelude
  imports Main "HOL-Library.Word"
begin

text \<open>
  What every other theory of the library shares: the machine integer types, the errors of
  the kernel, fallible results with their sequencing operator, and the recursion guard of
  \<open>crates/leanr_kernel/src/guard.rs\<close>.

  A Rust \<open>Result<T, KernelError>\<close> is a value of \<open>kernel_error + 'a\<close>. A Rust panic
  (\<open>expect\<close>, an index out of range, \<open>unreachable!\<close>) is the error value \<open>Panic\<close>, which
  no code path returns as an \<open>Err\<close>; theorems that exclude it say that the code cannot
  panic there.
\<close>

unbundle bit_operations_syntax

type_synonym u8 = "8 word"
type_synonym u32 = "32 word"
type_synonym u64 = "64 word"

named_theorems leanr_defs \<open>definitions that are unfolded together when a component is evaluated\<close>
named_theorems ext_intros \<open>what an append-only extension of a bank or a store preserves\<close>

section \<open>Errors and results\<close>

text \<open>Hierarchical names (\<open>name.rs\<close>): a string is its UTF-8 byte string, a number is unbounded.\<close>

datatype name =
    Anonymous
  | Str name string
  | Num name nat

text \<open>
  The errors of \<open>error.rs\<close>, \<open>Panic\<close>, and \<open>Diverges\<close>: the value of a \<open>loop\<close> or \<open>while\<close> that does not
  end. No code returns the last two; the theorems that exclude them say that the code neither
  panics nor hangs.
\<close>

datatype kernel_error =
    BankExhausted
  | DeepRecursion
  | UnknownConstant name
  | AlreadyDeclared name
  | DuplicateUnivParam name
  | HasMetavars name
  | HasFVars name
  | UnivParamArityMismatch name
  | UnsafeConstInSafeDecl name
  | TypeExpected
  | FunctionExpected
  | AppTypeMismatch
  | LetTypeMismatch
  | InvalidProj
  | LooseBVar
  | MetavarEncountered
  | DefTypeMismatch name
  | TheoremTypeNotProp name
  | InvalidInductive name string
  | InvalidQuot string
  | ConstructorMismatch name
  | RecursorMismatch name
  | MissingConstant name
  | DependencyCycle name
  | Panic
  | Diverges

type_synonym 'a result = "kernel_error + 'a"

text \<open>The \<open>?\<close> operator of Rust: stop at the first error.\<close>

definition andthen :: "'e + 'a \<Rightarrow> ('a \<Rightarrow> 'e + 'b) \<Rightarrow> 'e + 'b" where
  "andthen m f = (case m of Inl e \<Rightarrow> Inl e | Inr x \<Rightarrow> f x)"

text \<open>\<open>Option::expect\<close> and indexing: \<open>None\<close> is a panic.\<close>

definition expect :: "'a option \<Rightarrow> 'a result" where
  "expect x = (case x of None \<Rightarrow> Inl Panic | Some y \<Rightarrow> Inr y)"

definition get_index :: "'a list \<Rightarrow> nat \<Rightarrow> 'a option" where
  "get_index xs i = (if i < length xs then Some (xs ! i) else None)"

text \<open>The outcome of a loop written as a partial function.\<close>

definition loop_result :: "'a result option \<Rightarrow> 'a result" where
  "loop_result x = (case x of None \<Rightarrow> Inl Diverges | Some r \<Rightarrow> r)"

lemma loop_result_simps [simp]:
  "loop_result None = Inl Diverges"
  "loop_result (Some r) = r"
  by (simp_all add: loop_result_def)

lemma andthen_Inl [simp]: "andthen (Inl e) f = Inl e"
  by (simp add: andthen_def)

lemma andthen_Inr [simp]: "andthen (Inr x) f = f x"
  by (simp add: andthen_def)

lemma andthen_assoc: "andthen (andthen m f) g = andthen m (\<lambda>x. andthen (f x) g)"
  by (cases m) simp_all

lemma andthen_eq_Inr_iff: "andthen m f = Inr y \<longleftrightarrow> (\<exists>x. m = Inr x \<and> f x = Inr y)"
  by (cases m) simp_all

lemma andthen_eq_Inl_iff:
  "andthen m f = Inl e \<longleftrightarrow> m = Inl e \<or> (\<exists>x. m = Inr x \<and> f x = Inl e)"
  by (cases m) simp_all

lemma andthen_InrE:
  assumes "andthen m f = Inr y"
  obtains x where "m = Inr x" and "f x = Inr y"
  using assms by (auto simp: andthen_eq_Inr_iff)

lemma andthen_cong [fundef_cong]:
  "m = m' \<Longrightarrow> (\<And>x. m' = Inr x \<Longrightarrow> f x = f' x) \<Longrightarrow> andthen m f = andthen m' f'"
  by (cases m') simp_all

lemma expect_simps [simp]:
  "expect None = Inl Panic"
  "expect (Some x) = Inr x"
  by (simp_all add: expect_def)

lemma expect_eq_Inr_iff [simp]: "expect x = Inr y \<longleftrightarrow> x = Some y"
  by (cases x) simp_all

lemma get_index_eq_Some_iff: "get_index xs i = Some x \<longleftrightarrow> i < length xs \<and> xs ! i = x"
  by (simp add: get_index_def)

lemma get_index_less [simp]: "i < length xs \<Longrightarrow> get_index xs i = Some (xs ! i)"
  by (simp add: get_index_def)

lemma get_index_append: "get_index xs i = Some x \<Longrightarrow> get_index (xs @ ys) i = Some x"
  by (auto simp: get_index_def nth_append split: if_splits)

text \<open>\<open>Option::ok_or\<close>.\<close>

definition ok_or :: "kernel_error \<Rightarrow> 'a option \<Rightarrow> 'a result" where
  "ok_or e x = (case x of None \<Rightarrow> Inl e | Some y \<Rightarrow> Inr y)"

lemma ok_or_simps [simp]: "ok_or e None = Inl e" "ok_or e (Some x) = Inr x"
  by (simp_all add: ok_or_def)

section \<open>Contracts\<close>

text \<open>
  \<open>run E m Q\<close>: the computation \<open>m\<close> either returns a value that satisfies \<open>Q\<close> or fails with an
  error of \<open>E\<close>. With \<open>Panic\<close> and \<open>Diverges\<close> outside \<open>E\<close> it is a total correctness statement.
\<close>

definition run :: "kernel_error set \<Rightarrow> 'a result \<Rightarrow> ('a \<Rightarrow> bool) \<Rightarrow> bool" where
  "run E m Q \<longleftrightarrow> (case m of Inl e \<Rightarrow> e \<in> E | Inr x \<Rightarrow> Q x)"

lemma run_simps [simp]:
  "run E (Inr x) Q \<longleftrightarrow> Q x"
  "run E (Inl e) Q \<longleftrightarrow> e \<in> E"
  by (simp_all add: run_def)

text \<open>Evaluation runs a computation only when it is reached.\<close>

declare andthen_def [code_unfold] loop_result_def [code_unfold] expect_def [code_unfold]

lemma run_andthen: "run E (andthen m f) Q \<longleftrightarrow> run E m (\<lambda>x. run E (f x) Q)"
  by (cases m) simp_all

lemma run_bind: "run E m P \<Longrightarrow> (\<And>x. m = Inr x \<Longrightarrow> P x \<Longrightarrow> run E (f x) Q) \<Longrightarrow> run E (andthen m f) Q"
  by (cases m) simp_all

lemma run_mono: "run E m P \<Longrightarrow> (\<And>x. m = Inr x \<Longrightarrow> P x \<Longrightarrow> Q x) \<Longrightarrow> E \<subseteq> E' \<Longrightarrow> run E' m Q"
  by (cases m) auto

text \<open>The same for a result that is paired with the new state.\<close>

lemma run_bind2:
  "run E m (\<lambda>(i, st). P i st) \<Longrightarrow> (\<And>i st. m = Inr (i, st) \<Longrightarrow> P i st \<Longrightarrow> run E (f (i, st)) Q) \<Longrightarrow>
     run E (andthen m f) Q"
  by (cases m) auto

lemma run_mono2:
  "run E m (\<lambda>(i, st). P i st) \<Longrightarrow> (\<And>i st. m = Inr (i, st) \<Longrightarrow> P i st \<Longrightarrow> Q i st) \<Longrightarrow>
     run E m (\<lambda>(i, st). Q i st)"
  by (cases m) auto

lemma run_conj: "run E m P \<Longrightarrow> run E m Q \<Longrightarrow> run E m (\<lambda>x. P x \<and> Q x)"
  by (cases m) simp_all

lemma runD: "run E m Q \<Longrightarrow> m = Inr x \<Longrightarrow> Q x"
  by simp

section \<open>The recursion guard (\<open>guard.rs\<close>)\<close>

text \<open>
  \<open>RecGuard\<close> holds the current depth. \<open>enter\<close> refuses at \<open>MAX_REC_DEPTH\<close> and otherwise
  runs its argument one level deeper; the depth is restored on the way out, so a guard is
  an argument that is passed down and never back. Growing the native stack
  (\<open>stacker::maybe_grow\<close>) has no effect on values.
\<close>

definition MAX_REC_DEPTH :: nat where
  "MAX_REC_DEPTH = 1000000"

definition rec_guard_new :: nat where
  "rec_guard_new = 0"

definition enter :: "nat \<Rightarrow> (nat \<Rightarrow> 'a result) \<Rightarrow> 'a result" where
  "enter d f = (if d \<ge> MAX_REC_DEPTH then Inl DeepRecursion else f (Suc d))"

lemma enter_cong [fundef_cong]:
  "d = d' \<Longrightarrow> (d' < MAX_REC_DEPTH \<Longrightarrow> f (Suc d') = f' (Suc d')) \<Longrightarrow> enter d f = enter d' f'"
  by (simp add: enter_def)

lemma enter_eq_Inr_iff: "enter d f = Inr x \<longleftrightarrow> d < MAX_REC_DEPTH \<and> f (Suc d) = Inr x"
  by (simp add: enter_def)

lemma enter_less [simp]: "d < MAX_REC_DEPTH \<Longrightarrow> enter d f = f (Suc d)"
  by (simp add: enter_def)

lemma enter_exhausted [simp]: "MAX_REC_DEPTH \<le> d \<Longrightarrow> enter d f = Inl DeepRecursion"
  by (simp add: enter_def)

declare enter_def [code_unfold]

lemma run_enter:
  "DeepRecursion \<in> E \<Longrightarrow> (d < MAX_REC_DEPTH \<Longrightarrow> run E (f (Suc d)) Q) \<Longrightarrow> run E (enter d f) Q"
  by (simp add: enter_def)

lemma find_append: "find P (xs @ ys) = (case find P xs of None \<Rightarrow> find P ys | Some x \<Rightarrow> Some x)"
  by (induction xs) simp_all

end
