(* ===== verification/Names.thy ===== *)
theory Names
  imports Prelude "HOL-Library.List_Lexorder" "HOL-Library.Char_ord"
begin

text \<open>
  Hierarchical names (\<open>crates/leanr_kernel/src/name.rs\<close>) and their total order
  (\<open>name_cmp\<close> of \<open>level.rs\<close>). A Rust \<open>String\<close> is its UTF-8 byte string, a \<open>Nat\<close>
  (an arbitrary precision natural, \<open>num.rs\<close>) is a \<open>nat\<close>, an \<open>Arc\<close> is the value it
  points to. \<open>PartialEq\<close>, written as a loop in the source, is structural equality.
\<close>

text \<open>The datatype \<open>name\<close> itself stands in \<open>Prelude\<close>, because the errors carry names.\<close>

fun name_eq :: "name \<Rightarrow> name \<Rightarrow> bool" where
  "name_eq Anonymous Anonymous = True"
| "name_eq (Str pa sa) (Str pb sb) = (if sa \<noteq> sb then False else name_eq pa pb)"
| "name_eq (Num pa na) (Num pb nb) = (if na \<noteq> nb then False else name_eq pa pb)"
| "name_eq _ _ = False"

lemma name_eq_iff [simp]: "name_eq a b \<longleftrightarrow> a = b"
  by (induction a b rule: name_eq.induct) auto

section \<open>Comparison (\<open>name_cmp\<close>)\<close>

datatype ordering = Less | Equal | Greater

text \<open>
  One component of a name, root first. The source collects references to the name nodes;
  only their kind and their part are read.
\<close>

datatype component = CStr string | CNum nat

fun components :: "name \<Rightarrow> component list" where
  "components Anonymous = []"
| "components (Str p s) = components p @ [CStr s]"
| "components (Num p n) = components p @ [CNum n]"

definition cmp :: "'a::linorder \<Rightarrow> 'a \<Rightarrow> ordering" where
  "cmp x y = (if x < y then Less else if x = y then Equal else Greater)"

fun component_cmp :: "component \<Rightarrow> component \<Rightarrow> ordering" where
  "component_cmp (CStr pa) (CStr pb) = cmp pa pb"
| "component_cmp (CNum pa) (CNum pb) = cmp pa pb"
| "component_cmp (CStr _) (CNum _) = Greater"
| "component_cmp (CNum _) (CStr _) = Less"

fun components_cmp :: "component list \<Rightarrow> component list \<Rightarrow> ordering" where
  "components_cmp (x # xs) (y # ys) =
     (let ord = component_cmp x y in if ord \<noteq> Equal then ord else components_cmp xs ys)"
| "components_cmp xs ys = cmp (length xs) (length ys)"

definition name_cmp :: "name \<Rightarrow> name \<Rightarrow> ordering" where
  "name_cmp a b = components_cmp (components a) (components b)"

lemma components_inject [simp]: "components a = components b \<longleftrightarrow> a = b"
proof (induction a arbitrary: b)
  case Anonymous
  then show ?case by (cases b) auto
next
  case (Str p s)
  then show ?case by (cases b) auto
next
  case (Num p n)
  then show ?case by (cases b) auto
qed

lemma cmp_simps [simp]:
  "cmp x y = Equal \<longleftrightarrow> x = y"
  "cmp x y = Less \<longleftrightarrow> x < y"
  "cmp x y = Greater \<longleftrightarrow> y < x"
  by (auto simp: cmp_def)

lemma component_cmp_Equal [simp]: "component_cmp x y = Equal \<longleftrightarrow> x = y"
  by (cases x; cases y) auto

lemma component_cmp_refl [simp]: "component_cmp x x = Equal"
  by simp

lemma component_cmp_flip: "component_cmp x y = Less \<longleftrightarrow> component_cmp y x = Greater"
  by (cases x; cases y) auto

lemma component_cmp_trans:
  "component_cmp x y = Less \<Longrightarrow> component_cmp y z = Less \<Longrightarrow> component_cmp x z = Less"
  by (cases x; cases y; cases z) auto

lemma components_cmp_Equal: "components_cmp xs ys = Equal \<longleftrightarrow> xs = ys"
  by (induction xs ys rule: components_cmp.induct) (auto simp: Let_def)

lemma components_cmp_flip: "components_cmp xs ys = Less \<longleftrightarrow> components_cmp ys xs = Greater"
proof (induction xs ys rule: components_cmp.induct)
  case (1 x xs y ys)
  then show ?case
    using component_cmp_flip [of x y] component_cmp_flip [of y x]
    by (cases "component_cmp x y"; cases "component_cmp y x") (auto simp: Let_def)
qed auto

lemma components_cmp_trans:
  "components_cmp xs ys = Less \<Longrightarrow> components_cmp ys zs = Less \<Longrightarrow> components_cmp xs zs = Less"
proof (induction xs ys arbitrary: zs rule: components_cmp.induct [case_names both left right])
  case (both x xs y ys)
  show ?case
  proof (cases zs)
    case Nil
    with both show ?thesis by simp
  next
    case (Cons z zs')
    with both show ?thesis
      using component_cmp_trans [of x y z] component_cmp_trans [of x y x] component_cmp_flip [of x y]
      by (auto simp: Let_def split: if_splits)
  qed
next
  case (left ys)
  then show ?case by (cases ys; cases zs) (auto simp: Let_def split: if_splits)
next
  case (right xs)
  then show ?case by (cases xs; cases zs) (auto simp: Let_def split: if_splits)
qed

lemma name_cmp_Equal [simp]: "name_cmp a b = Equal \<longleftrightarrow> a = b"
  by (simp add: name_cmp_def components_cmp_Equal)

lemma name_cmp_refl [simp]: "name_cmp a a = Equal"
  by simp

lemma name_cmp_flip: "name_cmp a b = Less \<longleftrightarrow> name_cmp b a = Greater"
  by (simp add: name_cmp_def components_cmp_flip)

lemma name_cmp_trans: "name_cmp a b = Less \<Longrightarrow> name_cmp b c = Less \<Longrightarrow> name_cmp a c = Less"
  unfolding name_cmp_def by (rule components_cmp_trans)

text \<open>The order makes names an instance of the library's linear orders.\<close>

instantiation name :: linorder
begin

definition less_name :: "name \<Rightarrow> name \<Rightarrow> bool" where
  "less_name a b \<longleftrightarrow> name_cmp a b = Less"

definition less_eq_name :: "name \<Rightarrow> name \<Rightarrow> bool" where
  "less_eq_name a b \<longleftrightarrow> name_cmp a b \<noteq> Greater"

instance
proof
  fix x y z :: name
  have not_flip: "name_cmp x y \<noteq> Less \<or> name_cmp y x \<noteq> Less"
    using name_cmp_trans [of x y x] name_cmp_Equal [of x x] by auto
  have le: "a \<le> b \<longleftrightarrow> a = b \<or> name_cmp a b = Less" for a b :: name
    unfolding less_eq_name_def using name_cmp_Equal [of a b] by (cases "name_cmp a b") auto
  show "(x < y) = (x \<le> y \<and> \<not> y \<le> x)"
    unfolding le less_name_def using not_flip by auto
  show "x \<le> x" by (simp add: le)
  show "x \<le> y \<Longrightarrow> y \<le> z \<Longrightarrow> x \<le> z" by (auto simp: le intro: name_cmp_trans)
  show "x \<le> y \<Longrightarrow> y \<le> x \<Longrightarrow> x = y" using not_flip by (auto simp: le)
  show "x \<le> y \<or> y \<le> x"
    unfolding le using name_cmp_flip [of y x] by (cases "name_cmp x y") auto
qed

end

end
