(* ===== verification/Levels.thy ===== *)
theory Levels
  imports Names
begin

text \<open>
  Universe levels: \<open>crates/leanr_kernel/src/level.rs\<close>. The data, the offset and flag
  walks, the normalising constructors \<open>mk_max_pair\<close> and \<open>mk_imax_pair\<close>, the substitution
  of parameters, the order \<open>is_norm_lt\<close>, \<open>normalize\<close> and \<open>is_equivalent\<close>, each with its
  recursion guard.

  An \<open>Arc<Level>\<close> is the tree it points to. Where the code only short-cuts a walk by
  \<open>Arc::ptr_eq\<close> (\<open>structural_eq\<close>, \<open>is_norm_lt\<close>) the model always walks: the value is the
  same, and the model can only run out of depth where the code may not. Where pointer
  identity decides what is built (\<open>instantiate_params\<close>), the model returns it as a flag.
\<close>

section \<open>The data, offsets\<close>

datatype level =
    Zero
  | Succ level
  | Max level level
  | IMax level level
  | Param name
  | MVar name

definition mk_succ :: "level \<Rightarrow> level" where
  "mk_succ l = Succ l"

text \<open>\<open>u64::saturating_add\<close>, with the cap written out.\<close>

definition u64_max :: nat where
  "u64_max = 18446744073709551615"

definition saturating_add :: "nat \<Rightarrow> nat \<Rightarrow> nat" where
  "saturating_add a b = min (a + b) u64_max"

fun to_offset_loop :: "level \<Rightarrow> nat \<Rightarrow> level \<times> nat" where
  "to_offset_loop (Succ inner) k = to_offset_loop inner (saturating_add k 1)"
| "to_offset_loop cur k = (cur, k)"

definition to_offset :: "level \<Rightarrow> level \<times> nat" where
  "to_offset l = to_offset_loop l 0"

definition is_zero :: "level \<Rightarrow> bool" where
  "is_zero l = (case l of Zero \<Rightarrow> True | _ \<Rightarrow> False)"

definition is_explicit :: "level \<Rightarrow> bool" where
  "is_explicit l = (case fst (to_offset l) of Zero \<Rightarrow> True | _ \<Rightarrow> False)"

definition is_one :: "level \<Rightarrow> bool" where
  "is_one l = (let (base, k) = to_offset l in k = 1 \<and> (case base of Zero \<Rightarrow> True | _ \<Rightarrow> False))"

fun mk_succ_n :: "level \<Rightarrow> nat \<Rightarrow> level" where
  "mk_succ_n l 0 = l"
| "mk_succ_n l (Suc k) = mk_succ_n (mk_succ l) k"

section \<open>Guarded walks\<close>

text \<open>The short-circuit disjunction and conjunction of two fallible tests.\<close>

definition or_else :: "bool result \<Rightarrow> bool result \<Rightarrow> bool result" where
  "or_else m m' = andthen m (\<lambda>x. if x then Inr True else m')"

definition and_also :: "bool result \<Rightarrow> bool result \<Rightarrow> bool result" where
  "and_also m m' = andthen m (\<lambda>x. if x then m' else Inr False)"

lemma or_else_cong [fundef_cong]:
  "m = m2 \<Longrightarrow> (m2 = Inr False \<Longrightarrow> n = n2) \<Longrightarrow> or_else m n = or_else m2 n2"
  by (cases m2) (auto simp: or_else_def)

lemma and_also_cong [fundef_cong]:
  "m = m2 \<Longrightarrow> (m2 = Inr True \<Longrightarrow> n = n2) \<Longrightarrow> and_also m n = and_also m2 n2"
  by (cases m2) (auto simp: and_also_def)

fun is_never_zero :: "level \<Rightarrow> nat \<Rightarrow> bool result" where
  "is_never_zero (Succ _) d = Inr True"
| "is_never_zero (Max a b) d =
     enter d (\<lambda>d. or_else (is_never_zero a d) (is_never_zero b d))"
| "is_never_zero (IMax _ rhs) d = enter d (\<lambda>d. is_never_zero rhs d)"
| "is_never_zero _ d = Inr False"

fun structural_eq :: "level \<Rightarrow> level \<Rightarrow> nat \<Rightarrow> bool result" where
  "structural_eq Zero Zero d = Inr True"
| "structural_eq (Param na) (Param nb) d = Inr (name_eq na nb)"
| "structural_eq (MVar na) (MVar nb) d = Inr (name_eq na nb)"
| "structural_eq (Succ la) (Succ lb) d = enter d (\<lambda>d. structural_eq la lb d)"
| "structural_eq (Max la ra) (Max lb rb) d =
     enter d (\<lambda>d. and_also (structural_eq la lb d) (structural_eq ra rb d))"
| "structural_eq (IMax la ra) (IMax lb rb) d =
     enter d (\<lambda>d. and_also (structural_eq la lb d) (structural_eq ra rb d))"
| "structural_eq _ _ d = Inr False"

fun has_mvar :: "level \<Rightarrow> nat \<Rightarrow> bool result" where
  "has_mvar (MVar _) d = Inr True"
| "has_mvar (Succ a) d = enter d (\<lambda>d. has_mvar a d)"
| "has_mvar (Max a b) d = enter d (\<lambda>d. or_else (has_mvar a d) (has_mvar b d))"
| "has_mvar (IMax a b) d = enter d (\<lambda>d. or_else (has_mvar a d) (has_mvar b d))"
| "has_mvar _ d = Inr False"

fun has_param :: "level \<Rightarrow> nat \<Rightarrow> bool result" where
  "has_param (Param _) d = Inr True"
| "has_param (Succ a) d = enter d (\<lambda>d. has_param a d)"
| "has_param (Max a b) d = enter d (\<lambda>d. or_else (has_param a d) (has_param b d))"
| "has_param (IMax a b) d = enter d (\<lambda>d. or_else (has_param a d) (has_param b d))"
| "has_param _ d = Inr False"

section \<open>The normalising constructors\<close>

text \<open>The test \<open>if let Max(a, b) = m\<close> whether one of its two arguments is \<open>l\<close>.\<close>

definition max_has_arg :: "level \<Rightarrow> level \<Rightarrow> nat \<Rightarrow> bool result" where
  "max_has_arg m l d =
     (case m of
        Max a b \<Rightarrow> or_else (structural_eq a l d) (structural_eq b l d)
      | _ \<Rightarrow> Inr False)"

definition mk_max_pair :: "level \<Rightarrow> level \<Rightarrow> nat \<Rightarrow> level result" where
  "mk_max_pair l1 l2 d =
     (if is_explicit l1 \<and> is_explicit l2
      then Inr (if snd (to_offset l1) \<ge> snd (to_offset l2) then l1 else l2)
      else andthen (structural_eq l1 l2 d) (\<lambda>same.
        if same then Inr l1
        else if is_zero l1 then Inr l2
        else if is_zero l2 then Inr l1
        else andthen (max_has_arg l2 l1 d) (\<lambda>in2.
          if in2 then Inr l2
          else andthen (max_has_arg l1 l2 d) (\<lambda>in1.
            if in1 then Inr l1
            else andthen (structural_eq (fst (to_offset l1)) (fst (to_offset l2)) d) (\<lambda>same_base.
              if same_base
              then Inr (if snd (to_offset l1) > snd (to_offset l2) then l1 else l2)
              else Inr (Max l1 l2))))))"

definition mk_imax_pair :: "level \<Rightarrow> level \<Rightarrow> nat \<Rightarrow> level result" where
  "mk_imax_pair l1 l2 d =
     andthen (is_never_zero l2 d) (\<lambda>nz.
       if nz then mk_max_pair l1 l2 d
       else if is_zero l2 then Inr l2
       else if is_zero l1 \<or> is_one l1 then Inr l2
       else andthen (structural_eq l1 l2 d) (\<lambda>same.
         if same then Inr l1 else Inr (IMax l1 l2)))"

section \<open>Substituting parameters\<close>

text \<open>
  The first pair of \<open>params.iter().zip(args.iter())\<close> whose name matches. The result of
  \<open>instantiate_params\<close> carries whether it is the very \<open>Arc\<close> that came in
  (\<open>Arc::ptr_eq(result, l)\<close>): the argument itself is returned when nothing changed, and an
  element of \<open>args\<close> is a different allocation.
\<close>

fun lookup_param :: "name list \<Rightarrow> level list \<Rightarrow> name \<Rightarrow> level option" where
  "lookup_param (p # ps) (a # as) n = (if name_eq p n then Some a else lookup_param ps as n)"
| "lookup_param _ _ n = None"

fun instantiate_params ::
    "level \<Rightarrow> name list \<Rightarrow> level list \<Rightarrow> nat \<Rightarrow> (level \<times> bool) result" where
  "instantiate_params l params args d =
     andthen (has_param l d) (\<lambda>hp.
       if \<not> hp then Inr (l, True)
       else (case l of
          Zero \<Rightarrow> Inr (l, True)
        | MVar _ \<Rightarrow> Inr (l, True)
        | Param n \<Rightarrow>
            (case lookup_param params args n of Some a \<Rightarrow> Inr (a, False) | None \<Rightarrow> Inr (l, True))
        | Succ a \<Rightarrow>
            andthen (enter d (\<lambda>d. instantiate_params a params args d)) (\<lambda>(a2, same).
              if same then Inr (l, True) else Inr (mk_succ a2, False))
        | Max a b \<Rightarrow>
            andthen
              (enter d (\<lambda>d. andthen (instantiate_params a params args d) (\<lambda>ra.
                 andthen (instantiate_params b params args d) (\<lambda>rb. Inr (ra, rb)))))
              (\<lambda>((a2, same_a), (b2, same_b)).
                if same_a \<and> same_b then Inr (l, True)
                else andthen (mk_max_pair a2 b2 d) (\<lambda>r. Inr (r, False)))
        | IMax a b \<Rightarrow>
            andthen
              (enter d (\<lambda>d. andthen (instantiate_params a params args d) (\<lambda>ra.
                 andthen (instantiate_params b params args d) (\<lambda>rb. Inr (ra, rb)))))
              (\<lambda>((a2, same_a), (b2, same_b)).
                if same_a \<and> same_b then Inr (l, True)
                else andthen (mk_imax_pair a2 b2 d) (\<lambda>r. Inr (r, False)))))"

declare instantiate_params.simps [simp del]

section \<open>The order on normalised arguments\<close>

definition kind_rank :: "level \<Rightarrow> nat" where
  "kind_rank l =
     (case l of Zero \<Rightarrow> 0 | Succ _ \<Rightarrow> 1 | Max _ _ \<Rightarrow> 2 | IMax _ _ \<Rightarrow> 3 | Param _ \<Rightarrow> 4 | MVar _ \<Rightarrow> 5)"

function is_norm_lt :: "level \<Rightarrow> level \<Rightarrow> nat \<Rightarrow> bool result" where
  "is_norm_lt a b d =
     (let (l1, k1) = to_offset a; (l2, k2) = to_offset b in
      andthen (structural_eq l1 l2 d) (\<lambda>same.
        if same then Inr (k1 < k2)
        else if kind_rank l1 \<noteq> kind_rank l2 then Inr (kind_rank l1 < kind_rank l2)
        else (case (l1, l2) of
            (Param na, Param nb) \<Rightarrow> Inr (name_cmp na nb = Less)
          | (MVar na, MVar nb) \<Rightarrow> Inr (name_cmp na nb = Less)
          | (Max la ra, Max lb rb) \<Rightarrow>
              enter d (\<lambda>d. andthen (structural_eq la lb d) (\<lambda>eq.
                if \<not> eq then is_norm_lt la lb d else is_norm_lt ra rb d))
          | (IMax la ra, IMax lb rb) \<Rightarrow>
              enter d (\<lambda>d. andthen (structural_eq la lb d) (\<lambda>eq.
                if \<not> eq then is_norm_lt la lb d else is_norm_lt ra rb d))
          | _ \<Rightarrow> Inr False)))"
  by pat_completeness auto
termination
  by (relation "measure (\<lambda>(a, b, d). MAX_REC_DEPTH - d)") auto

declare is_norm_lt.simps [simp del]

text \<open>The comparator handed to \<open>sort_by\<close>.\<close>

definition norm_cmp :: "level \<Rightarrow> level \<Rightarrow> nat \<Rightarrow> ordering result" where
  "norm_cmp x y d =
     andthen (is_norm_lt x y d) (\<lambda>lt.
       if lt then Inr Less
       else andthen (is_norm_lt y x d) (\<lambda>gt. Inr (if gt then Greater else Equal)))"

text \<open>
  \<open>[T]::sort_by\<close> is the standard library's stable sort. Its result is determined by the
  comparator (a total order) and stability, so a stable insertion sort stands for it; the
  first comparison that fails makes the whole call fail, as the stashed \<open>err\<close> does.
\<close>

fun insert_by ::
    "(level \<Rightarrow> level \<Rightarrow> ordering result) \<Rightarrow> level \<Rightarrow> level list \<Rightarrow> level list result" where
  "insert_by c x [] = Inr [x]"
| "insert_by c x (y # ys) =
     andthen (c x y) (\<lambda>ord.
       if ord = Greater then andthen (insert_by c x ys) (\<lambda>zs. Inr (y # zs))
       else Inr (x # y # ys))"

fun sort_by ::
    "(level \<Rightarrow> level \<Rightarrow> ordering result) \<Rightarrow> level list \<Rightarrow> level list result" where
  "sort_by c [] = Inr []"
| "sort_by c (x # xs) = andthen (sort_by c xs) (\<lambda>ys. insert_by c x ys)"

section \<open>Normalisation\<close>

fun push_max_args :: "level \<Rightarrow> nat \<Rightarrow> level list result" where
  "push_max_args (Max a b) d =
     enter d (\<lambda>d. andthen (push_max_args a d) (\<lambda>left.
       andthen (push_max_args b d) (\<lambda>right. Inr (left @ right))))"
| "push_max_args l d = Inr [l]"

text \<open>
  \<open>mk_max_list\<close>: the loop runs from the last two arguments to the first; the model walks
  the list, so the pairs are formed in the same order.
\<close>

fun mk_max_list :: "level list \<Rightarrow> nat \<Rightarrow> level result" where
  "mk_max_list [] d = Inr Zero"
| "mk_max_list [a] d = Inr a"
| "mk_max_list [a, b] d = mk_max_pair a b d"
| "mk_max_list (a # b # c # as) d =
     andthen (mk_max_list (b # c # as) d) (\<lambda>r. mk_max_pair a r d)"

text \<open>The two index loops that find the largest explicit level and whether it is subsumed.\<close>

function last_explicit :: "level list \<Rightarrow> nat \<Rightarrow> nat" where
  "last_explicit args i =
     (if i + 1 < length args \<and> is_explicit (args ! (i + 1)) then last_explicit args (i + 1) else i)"
  by pat_completeness auto
termination
  by (relation "measure (\<lambda>(args, i). length args - i)") auto

function first_subsumer :: "level list \<Rightarrow> nat \<Rightarrow> nat \<Rightarrow> nat" where
  "first_subsumer args k_max j =
     (if j < length args
      then if snd (to_offset (args ! j)) \<ge> k_max then j else first_subsumer args k_max (j + 1)
      else j)"
  by pat_completeness auto
termination
  by (relation "measure (\<lambda>(args, k_max, j). length args - j)") auto

declare last_explicit.simps [simp del] first_subsumer.simps [simp del]

definition start_index :: "level list \<Rightarrow> nat" where
  "start_index args =
     (if is_explicit (args ! 0)
      then let i = last_explicit args 0;
               k_max = snd (to_offset (args ! i));
               j = first_subsumer args k_max (i + 1)
           in if j < length args then i + 1 else i
      else 0)"

text \<open>
  The loop that keeps, of adjacent arguments with one base, the largest offset. \<open>rargs\<close> is
  the output so far, \<open>prev_base\<close> and \<open>prev_k\<close> belong to its last element.
\<close>

fun merge_runs ::
    "level \<Rightarrow> nat \<Rightarrow> level list \<Rightarrow> level list \<Rightarrow> nat \<Rightarrow> level list result" where
  "merge_runs prev_base prev_k rargs [] d = Inr rargs"
| "merge_runs prev_base prev_k rargs (a # rest) d =
     (let (curr_base, curr_k) = to_offset a in
      andthen (structural_eq prev_base curr_base d) (\<lambda>same.
        if same
        then if prev_k < curr_k then merge_runs curr_base curr_k (butlast rargs @ [a]) rest d
             else merge_runs prev_base prev_k rargs rest d
        else merge_runs curr_base curr_k (rargs @ [a]) rest d))"

text \<open>The part of \<open>normalize_max\<close> after the arguments have been normalised and sorted.\<close>

definition rebuild_max :: "level list \<Rightarrow> nat \<Rightarrow> nat \<Rightarrow> level result" where
  "rebuild_max args k d =
     andthen (expect (get_index args 0)) (\<lambda>_.
       let i = start_index args in
       andthen (expect (get_index args i)) (\<lambda>first.
         let (prev_base, prev_k) = to_offset first in
         andthen (merge_runs prev_base prev_k [first] (drop (i + 1) args) d) (\<lambda>rargs.
           mk_max_list (map (\<lambda>a. mk_succ_n a k) rargs) d)))"

text \<open>The loop \<open>for a in &todo\<close> with its body as a parameter: run it and append the results.\<close>

fun flat_traverse :: "('a \<Rightarrow> 'b list result) \<Rightarrow> 'a list \<Rightarrow> 'b list result" where
  "flat_traverse f [] = Inr []"
| "flat_traverse f (x # xs) =
     andthen (f x) (\<lambda>ys. andthen (flat_traverse f xs) (\<lambda>zs. Inr (ys @ zs)))"

lemma flat_traverse_cong [fundef_cong]:
  "xs = ys \<Longrightarrow> (\<And>x. x \<in> set ys \<Longrightarrow> f x = g x) \<Longrightarrow> flat_traverse f xs = flat_traverse g ys"
proof (induction ys arbitrary: xs)
  case (Cons y ys)
  then have "flat_traverse f ys = flat_traverse g ys" by simp
  with Cons show ?case by simp
qed simp

function (sequential) normalize :: "level \<Rightarrow> nat \<Rightarrow> level result"
  and normalize_max :: "level \<Rightarrow> nat \<Rightarrow> nat \<Rightarrow> level result" where
  "normalize l d =
     (let (base, k) = to_offset l in
      case base of
        Zero \<Rightarrow> Inr l
      | Param _ \<Rightarrow> Inr l
      | MVar _ \<Rightarrow> Inr l
      | IMax lhs rhs \<Rightarrow>
          enter d (\<lambda>d. andthen (normalize lhs d) (\<lambda>l1. andthen (normalize rhs d) (\<lambda>l2.
            andthen (mk_imax_pair l1 l2 d) (\<lambda>im. Inr (mk_succ_n im k)))))
      | Max _ _ \<Rightarrow> enter d (\<lambda>d. normalize_max base k d)
      | Succ _ \<Rightarrow> Inl Panic)"
| "normalize_max base k d =
     andthen (push_max_args base d) (\<lambda>todo.
       andthen (flat_traverse (\<lambda>a. andthen (normalize a d) (\<lambda>na. push_max_args na d)) todo) (\<lambda>args.
         andthen (sort_by (\<lambda>x y. norm_cmp x y d) args) (\<lambda>args. rebuild_max args k d)))"
  by pat_completeness auto
termination
  by (relation "measure (\<lambda>x. case x of Inl (l, d) \<Rightarrow> 2 * (MAX_REC_DEPTH - d)
        | Inr (b, k, d) \<Rightarrow> 2 * (MAX_REC_DEPTH - d) + 1)") auto

declare normalize.simps [simp del] normalize_max.simps [simp del]

definition is_equivalent :: "level \<Rightarrow> level \<Rightarrow> nat \<Rightarrow> bool result" where
  "is_equivalent a b d =
     andthen (structural_eq a b d) (\<lambda>same.
       if same then Inr True
       else andthen (normalize a d) (\<lambda>na. andthen (normalize b d) (\<lambda>nb. structural_eq na nb d)))"

end
