(* ===== verification/Level_Semantics.thy ===== *)
theory Level_Semantics
  imports Levels
begin

text \<open>
  What universe levels mean, and that the operations of \<open>level.rs\<close> respect it. \<open>eval\<close>
  gives a level its value under an assignment of the parameters and metavariables;
  \<open>sdepth\<close> is the largest number of successors on a path, which must not exceed the
  \<open>u64\<close> counter of \<open>to_offset\<close>; \<open>hgt\<close> is the number of guard frames a structural walk
  needs.
\<close>

section \<open>Meaning and measures\<close>

fun eval :: "(name \<Rightarrow> nat) \<Rightarrow> (name \<Rightarrow> nat) \<Rightarrow> level \<Rightarrow> nat" where
  "eval \<rho> \<mu> Zero = 0"
| "eval \<rho> \<mu> (Succ a) = eval \<rho> \<mu> a + 1"
| "eval \<rho> \<mu> (Max a b) = max (eval \<rho> \<mu> a) (eval \<rho> \<mu> b)"
| "eval \<rho> \<mu> (IMax a b) = (if eval \<rho> \<mu> b = 0 then 0 else max (eval \<rho> \<mu> a) (eval \<rho> \<mu> b))"
| "eval \<rho> \<mu> (Param n) = \<rho> n"
| "eval \<rho> \<mu> (MVar n) = \<mu> n"

fun sdepth :: "level \<Rightarrow> nat" where
  "sdepth (Succ a) = Suc (sdepth a)"
| "sdepth (Max a b) = max (sdepth a) (sdepth b)"
| "sdepth (IMax a b) = max (sdepth a) (sdepth b)"
| "sdepth _ = 0"

fun hgt :: "level \<Rightarrow> nat" where
  "hgt (Succ a) = Suc (hgt a)"
| "hgt (Max a b) = Suc (max (hgt a) (hgt b))"
| "hgt (IMax a b) = Suc (max (hgt a) (hgt b))"
| "hgt _ = 0"

definition small :: "level \<Rightarrow> bool" where
  "small l \<longleftrightarrow> sdepth l \<le> u64_max"

lemma small_simps [simp]:
  "small (Max a b) \<longleftrightarrow> small a \<and> small b"
  "small (IMax a b) \<longleftrightarrow> small a \<and> small b"
  "small Zero" "small (Param n)" "small (MVar n)"
  by (auto simp: small_def)

lemma small_Succ: "small (Succ a) \<Longrightarrow> small a"
  by (simp add: small_def)

section \<open>Offsets\<close>

fun strip :: "level \<Rightarrow> level" where
  "strip (Succ a) = strip a"
| "strip l = l"

fun succs :: "level \<Rightarrow> nat" where
  "succs (Succ a) = Suc (succs a)"
| "succs _ = 0"

lemma to_offset_loop_eq:
  "k \<le> u64_max \<Longrightarrow> to_offset_loop l k = (strip l, min (succs l + k) u64_max)"
  by (induction l arbitrary: k) (auto simp: saturating_add_def)

lemma to_offset_eq: "to_offset l = (strip l, min (succs l) u64_max)"
  by (simp add: to_offset_def to_offset_loop_eq)

lemma succs_le_sdepth: "succs l \<le> sdepth l"
  by (induction l) auto

lemma to_offset_small [simp]: "small l \<Longrightarrow> to_offset l = (strip l, succs l)"
  using succs_le_sdepth [of l] by (simp add: to_offset_eq small_def)

lemma fst_to_offset [simp]: "fst (to_offset l) = strip l"
  by (simp add: to_offset_eq)

lemma strip_not_Succ [simp]: "strip l \<noteq> Succ a"
  by (induction l) auto

lemma strip_strip [simp]: "strip (strip l) = strip l"
  by (induction l) auto

lemma succs_strip [simp]: "succs (strip l) = 0"
  by (induction l) auto

lemma mk_succ_n_commute: "mk_succ_n (Succ l) k = Succ (mk_succ_n l k)"
  by (induction k arbitrary: l) (auto simp: mk_succ_def)

lemma mk_succ_n_Suc [simp]: "mk_succ_n l (Suc k) = Succ (mk_succ_n l k)"
  by (simp add: mk_succ_def mk_succ_n_commute)

declare mk_succ_n.simps(2) [simp del]

lemma mk_succ_n_strip: "mk_succ_n (strip l) (succs l) = l"
  by (induction l) auto

lemma eval_mk_succ_n [simp]: "eval \<rho> \<mu> (mk_succ_n l k) = eval \<rho> \<mu> l + k"
  by (induction k) auto

lemma sdepth_mk_succ_n [simp]: "sdepth (mk_succ_n l k) = sdepth l + k"
  by (induction k) auto

lemma hgt_mk_succ_n [simp]: "hgt (mk_succ_n l k) = hgt l + k"
  by (induction k) auto

lemma eval_strip: "eval \<rho> \<mu> l = eval \<rho> \<mu> (strip l) + succs l"
  by (induction l) auto

lemma sdepth_strip: "sdepth l = sdepth (strip l) + succs l"
  by (induction l) auto

lemma hgt_strip: "hgt l = hgt (strip l) + succs l"
  by (induction l) auto

lemma small_strip: "small l \<Longrightarrow> small (strip l)"
  by (simp add: small_def sdepth_strip [of l])

lemma strip_succs_eq_iff: "strip a = strip b \<and> succs a = succs b \<longleftrightarrow> a = b"
  using mk_succ_n_strip [of a] mk_succ_n_strip [of b] by metis

lemma is_explicit_iff: "is_explicit l \<longleftrightarrow> strip l = Zero"
  by (simp add: is_explicit_def split: level.splits)

lemma eval_explicit: "is_explicit l \<Longrightarrow> eval \<rho> \<mu> l = succs l"
  by (simp add: is_explicit_iff eval_strip [of _ _ l])

lemma is_one_iff: "is_one l \<longleftrightarrow> l = Succ Zero"
proof -
  have "min (succs l) u64_max = 1 \<longleftrightarrow> succs l = 1"
    by (auto simp: u64_max_def)
  moreover have "strip l = Zero \<and> succs l = 1 \<longleftrightarrow> l = Succ Zero"
    using strip_succs_eq_iff [of l "Succ Zero"] by simp
  ultimately show ?thesis
    by (auto simp: is_one_def to_offset_eq split: level.splits)
qed

lemma is_zero_iff [simp]: "is_zero l \<longleftrightarrow> l = Zero"
  by (simp add: is_zero_def split: level.splits)

section \<open>The guarded walks return what they should\<close>

lemma or_else_Inr: "or_else m m' = Inr r \<Longrightarrow> m = Inr True \<and> r \<or> m = Inr False \<and> m' = Inr r"
  by (auto simp: or_else_def andthen_eq_Inr_iff split: if_splits)

lemma and_also_Inr: "and_also m m' = Inr r \<Longrightarrow> m = Inr False \<and> \<not> r \<or> m = Inr True \<and> m' = Inr r"
  by (auto simp: and_also_def andthen_eq_Inr_iff split: if_splits)

lemma or_else_simps [simp]:
  "or_else (Inr x) m = (if x then Inr True else m)" "or_else (Inl e) m = Inl e"
  by (auto simp: or_else_def)

lemma and_also_simps [simp]:
  "and_also (Inr x) m = (if x then m else Inr False)" "and_also (Inl e) m = Inl e"
  by (auto simp: and_also_def)

lemma structural_eq_sound: "structural_eq a b d = Inr r \<Longrightarrow> r \<longleftrightarrow> a = b"
  by (induction a b d arbitrary: r rule: structural_eq.induct)
    (auto simp: enter_eq_Inr_iff dest!: and_also_Inr)

lemma room_max: "d + Suc (max a b) \<le> m \<longleftrightarrow> d < m \<and> Suc d + a \<le> m \<and> Suc d + b \<le> m"
  by auto

lemma room_Suc: "d + Suc a \<le> m \<longleftrightarrow> d < m \<and> Suc d + a \<le> m"
  by auto

lemma structural_eq_total:
  "d + hgt a \<le> MAX_REC_DEPTH \<Longrightarrow> structural_eq a b d = Inr (a = b)"
proof (induction a b d rule: structural_eq.induct)
  case (4 la lb d)
  then show ?case by (simp add: room_Suc del: add_Suc_right)
next
  case (5 la ra lb rb d)
  then show ?case by (simp add: room_max del: add_Suc_right)
next
  case (6 la ra lb rb d)
  then show ?case by (simp add: room_max del: add_Suc_right)
qed simp_all

lemma structural_eq_error: "structural_eq a b d = Inl e \<Longrightarrow> e = DeepRecursion"
  by (induction a b d rule: structural_eq.induct)
    (auto simp: and_also_def enter_def andthen_eq_Inl_iff split: if_splits)

lemma is_never_zero_sound: "is_never_zero l d = Inr True \<Longrightarrow> 0 < eval \<rho> \<mu> l"
  by (induction l d rule: is_never_zero.induct)
    (auto simp: enter_eq_Inr_iff dest!: or_else_Inr)

fun never_zero :: "level \<Rightarrow> bool" where
  "never_zero (Succ _) = True"
| "never_zero (Max a b) = (never_zero a \<or> never_zero b)"
| "never_zero (IMax _ b) = never_zero b"
| "never_zero _ = False"

lemma is_never_zero_total: "d + hgt l \<le> MAX_REC_DEPTH \<Longrightarrow> is_never_zero l d = Inr (never_zero l)"
proof (induction l d rule: is_never_zero.induct)
  case (2 a b d)
  then show ?case by (simp add: room_max del: add_Suc_right)
next
  case (3 a b d)
  then show ?case by (simp add: room_max del: add_Suc_right)
qed simp_all

fun params_of :: "level \<Rightarrow> name set" where
  "params_of (Param n) = {n}"
| "params_of (Succ a) = params_of a"
| "params_of (Max a b) = params_of a \<union> params_of b"
| "params_of (IMax a b) = params_of a \<union> params_of b"
| "params_of _ = {}"

fun mvars_of :: "level \<Rightarrow> name set" where
  "mvars_of (MVar n) = {n}"
| "mvars_of (Succ a) = mvars_of a"
| "mvars_of (Max a b) = mvars_of a \<union> mvars_of b"
| "mvars_of (IMax a b) = mvars_of a \<union> mvars_of b"
| "mvars_of _ = {}"

lemma has_param_sound: "has_param l d = Inr r \<Longrightarrow> r \<longleftrightarrow> params_of l \<noteq> {}"
  by (induction l d arbitrary: r rule: has_param.induct)
    (auto simp: enter_eq_Inr_iff dest!: or_else_Inr)

lemma has_mvar_sound: "has_mvar l d = Inr r \<Longrightarrow> r \<longleftrightarrow> mvars_of l \<noteq> {}"
  by (induction l d arbitrary: r rule: has_mvar.induct)
    (auto simp: enter_eq_Inr_iff dest!: or_else_Inr)

lemma has_param_total: "d + hgt l \<le> MAX_REC_DEPTH \<Longrightarrow> has_param l d = Inr (params_of l \<noteq> {})"
  by (induction l d rule: has_param.induct) (auto simp: room_max room_Suc simp del: add_Suc_right)

lemma has_mvar_total: "d + hgt l \<le> MAX_REC_DEPTH \<Longrightarrow> has_mvar l d = Inr (mvars_of l \<noteq> {})"
  by (induction l d rule: has_mvar.induct) (auto simp: room_max room_Suc simp del: add_Suc_right)

lemma eval_params_cong:
  "(\<And>n. n \<in> params_of l \<Longrightarrow> \<rho> n = \<rho>' n) \<Longrightarrow> eval \<rho> \<mu> l = eval \<rho>' \<mu> l"
  by (induction l) auto

section \<open>The normalising constructors\<close>

lemma max_has_arg_sound:
  "max_has_arg m l d = Inr True \<Longrightarrow> max (eval \<rho> \<mu> l) (eval \<rho> \<mu> m) = eval \<rho> \<mu> m"
  by (auto simp: max_has_arg_def split: level.splits dest!: or_else_Inr structural_eq_sound)

lemma mk_max_pair_cases: "mk_max_pair a b d = Inr r \<Longrightarrow> r = a \<or> r = b \<or> r = Max a b"
  by (auto simp: mk_max_pair_def andthen_eq_Inr_iff split: if_splits)

lemma mk_max_pair_eval:
  assumes "mk_max_pair a b d = Inr r" and "small a" and "small b"
  shows "eval \<rho> \<mu> r = max (eval \<rho> \<mu> a) (eval \<rho> \<mu> b)"
proof -
  note off = eval_strip [of \<rho> \<mu> a] eval_strip [of \<rho> \<mu> b]
  show ?thesis
  proof (cases "is_explicit a \<and> is_explicit b")
    case True
    with assms show ?thesis by (auto simp: mk_max_pair_def eval_explicit split: if_splits)
  next
    case False
    with assms(1) obtain e1 where e1: "structural_eq a b d = Inr e1" "e1 \<longleftrightarrow> a = b"
      by (auto simp: mk_max_pair_def andthen_eq_Inr_iff dest: structural_eq_sound)
    show ?thesis
    proof (cases "a = b \<or> a = Zero \<or> b = Zero")
      case True
      with assms(1) False e1 show ?thesis by (auto simp: mk_max_pair_def split: if_splits)
    next
      case nontriv: False
      from assms(1) False e1 nontriv obtain i2 where i2: "max_has_arg b a d = Inr i2"
        by (auto simp: mk_max_pair_def andthen_eq_Inr_iff)
      show ?thesis
      proof (cases i2)
        case True
        with assms(1) False e1 nontriv i2 show ?thesis
          using max_has_arg_sound [of b a d \<rho> \<mu>] by (simp add: mk_max_pair_def)
      next
        case no2: False
        from assms(1) False e1 nontriv i2 no2 obtain i1 where i1: "max_has_arg a b d = Inr i1"
          by (auto simp: mk_max_pair_def andthen_eq_Inr_iff)
        from assms(1) False e1 nontriv i2 no2 i1 show ?thesis
          using max_has_arg_sound [of a b d \<rho> \<mu>] off assms(2,3)
          by (auto simp: mk_max_pair_def andthen_eq_Inr_iff max.commute
              split: if_splits dest!: structural_eq_sound)
      qed
    qed
  qed
qed

lemma mk_imax_pair_cases:
  "mk_imax_pair a b d = Inr r \<Longrightarrow> r = a \<or> r = b \<or> r = Max a b \<or> r = IMax a b"
  by (auto simp: mk_imax_pair_def andthen_eq_Inr_iff split: if_splits dest: mk_max_pair_cases)

lemma mk_imax_pair_eval:
  assumes "mk_imax_pair a b d = Inr r" and "small a" and "small b"
  shows "eval \<rho> \<mu> r = eval \<rho> \<mu> (IMax a b)"
proof -
  from assms(1) obtain nz where nz: "is_never_zero b d = Inr nz"
    by (auto simp: mk_imax_pair_def andthen_eq_Inr_iff)
  show ?thesis
  proof (cases nz)
    case True
    with assms(1) nz have "mk_max_pair a b d = Inr r" by (simp add: mk_imax_pair_def)
    then have "eval \<rho> \<mu> r = max (eval \<rho> \<mu> a) (eval \<rho> \<mu> b)"
      using assms(2,3) by (rule mk_max_pair_eval)
    with nz True is_never_zero_sound [of b d \<rho> \<mu>] show ?thesis by simp
  next
    case False
    with assms(1) nz show ?thesis
      by (auto simp: mk_imax_pair_def andthen_eq_Inr_iff is_one_iff
          split: if_splits dest!: structural_eq_sound)
  qed
qed

lemma small_mk_max_pair: "mk_max_pair a b d = Inr r \<Longrightarrow> small a \<Longrightarrow> small b \<Longrightarrow> small r"
  using mk_max_pair_cases by fastforce

lemma sdepth_mk_max_pair: "mk_max_pair a b d = Inr r \<Longrightarrow> sdepth r \<le> max (sdepth a) (sdepth b)"
  using mk_max_pair_cases by fastforce

lemma sdepth_mk_imax_pair: "mk_imax_pair a b d = Inr r \<Longrightarrow> sdepth r \<le> max (sdepth a) (sdepth b)"
  using mk_imax_pair_cases by fastforce

lemma max_has_arg_total:
  "d + hgt m \<le> MAX_REC_DEPTH \<Longrightarrow> \<exists>r. max_has_arg m l d = Inr r"
  by (cases m) (auto simp: max_has_arg_def structural_eq_total room_max simp del: add_Suc_right)

lemma mk_max_pair_total:
  assumes "d + hgt a \<le> MAX_REC_DEPTH" and "d + hgt b \<le> MAX_REC_DEPTH"
  shows "\<exists>r. mk_max_pair a b d = Inr r"
proof -
  from assms obtain x y where "max_has_arg b a d = Inr x" "max_has_arg a b d = Inr y"
    using max_has_arg_total by blast
  moreover have "d + hgt (strip a) \<le> MAX_REC_DEPTH"
    using assms(1) hgt_strip [of a] by simp
  ultimately show ?thesis
    using assms by (simp add: mk_max_pair_def structural_eq_total)
qed

lemma mk_imax_pair_total:
  assumes "d + hgt a \<le> MAX_REC_DEPTH" and "d + hgt b \<le> MAX_REC_DEPTH"
  shows "\<exists>r. mk_imax_pair a b d = Inr r"
  using is_never_zero_total [OF assms(2)] mk_max_pair_total [OF assms] structural_eq_total [OF assms(1), of b]
  by (auto simp: mk_imax_pair_def)

section \<open>Substitution\<close>

definition assign :: "name list \<Rightarrow> level list \<Rightarrow> (name \<Rightarrow> nat) \<Rightarrow> (name \<Rightarrow> nat) \<Rightarrow> name \<Rightarrow> nat" where
  "assign params args \<rho> \<mu> n =
     (case lookup_param params args n of Some a \<Rightarrow> eval \<rho> \<mu> a | None \<Rightarrow> \<rho> n)"

lemma lookup_param_in: "lookup_param ps as n = Some a \<Longrightarrow> a \<in> set as"
  by (induction ps as n rule: lookup_param.induct) (auto split: if_splits)

lemma instantiate_params_unchanged:
  "instantiate_params l ps as d = Inr (r, True) \<Longrightarrow> r = l"
  by (subst (asm) instantiate_params.simps)
    (auto simp: andthen_eq_Inr_iff split: if_splits level.splits option.splits)

text \<open>
  The inversion rule of \<open>instantiate_params\<close>: either nothing changes, or the root is a
  parameter of the list, or it is rebuilt from changed children.
\<close>

lemma instantiate_params_cases:
  assumes "instantiate_params l ps as d = Inr (r, same)"
  obtains
    (unchanged) "same" "r = l" "params_of l = {} \<or> (\<exists>n. l = Param n \<and> lookup_param ps as n = None)"
  | (param) n where "l = Param n" "lookup_param ps as n = Some r"
  | (succ) a a2 sa where "l = Succ a" "instantiate_params a ps as (Suc d) = Inr (a2, sa)" "r = Succ a2"
  | (max) a b a2 b2 sa sb where "l = Max a b" "instantiate_params a ps as (Suc d) = Inr (a2, sa)"
      "instantiate_params b ps as (Suc d) = Inr (b2, sb)" "r = Max a2 b2 \<or> mk_max_pair a2 b2 d = Inr r"
  | (imax) a b a2 b2 sa sb where "l = IMax a b" "instantiate_params a ps as (Suc d) = Inr (a2, sa)"
      "instantiate_params b ps as (Suc d) = Inr (b2, sb)" "r = IMax a2 b2 \<or> mk_imax_pair a2 b2 d = Inr r"
proof -
  from assms obtain hp where hp: "has_param l d = Inr hp" "hp \<longleftrightarrow> params_of l \<noteq> {}"
    by (subst (asm) instantiate_params.simps) (auto simp: andthen_eq_Inr_iff dest: has_param_sound)
  show thesis
  proof (cases hp)
    case False
    with assms hp show ?thesis
      by (intro unchanged) (simp_all add: instantiate_params.simps [of l])
  next
    case True
    show ?thesis
    proof (cases l)
      case (Succ a)
      with True hp assms obtain a2 sa where i: "instantiate_params a ps as (Suc d) = Inr (a2, sa)"
        and r: "r = (if sa then l else Succ a2)"
        by (auto simp: instantiate_params.simps [of "Succ a"] andthen_eq_Inr_iff enter_eq_Inr_iff mk_succ_def
            split: if_splits)
      have "sa \<Longrightarrow> a2 = a" using i by (cases sa) (auto dest: instantiate_params_unchanged)
      with Succ i r show ?thesis by (intro succ [of a a2 sa]) auto
    next
      case (Max a b)
      with True hp assms obtain ra rb where ab: "instantiate_params a ps as (Suc d) = Inr ra"
        "instantiate_params b ps as (Suc d) = Inr rb" and "d < MAX_REC_DEPTH"
        by (auto simp: instantiate_params.simps [of "Max a b"] andthen_eq_Inr_iff enter_eq_Inr_iff)
      moreover obtain a2 sa b2 sb where "ra = (a2, sa)" "rb = (b2, sb)" by fastforce
      ultimately have i: "instantiate_params a ps as (Suc d) = Inr (a2, sa)"
        "instantiate_params b ps as (Suc d) = Inr (b2, sb)"
        and r: "if sa \<and> sb then r = l else mk_max_pair a2 b2 d = Inr r"
        using True hp assms Max
        by (auto simp: instantiate_params.simps [of "Max a b"] andthen_eq_Inr_iff split: if_splits)
      have "sa \<and> sb \<Longrightarrow> a2 = a \<and> b2 = b" using i by (auto dest: instantiate_params_unchanged)
      with Max i r show ?thesis by (intro max [of a b a2 sa b2 sb]) (auto split: if_splits)
    next
      case (IMax a b)
      with True hp assms obtain ra rb where ab: "instantiate_params a ps as (Suc d) = Inr ra"
        "instantiate_params b ps as (Suc d) = Inr rb" and "d < MAX_REC_DEPTH"
        by (auto simp: instantiate_params.simps [of "IMax a b"] andthen_eq_Inr_iff enter_eq_Inr_iff)
      moreover obtain a2 sa b2 sb where "ra = (a2, sa)" "rb = (b2, sb)" by fastforce
      ultimately have i: "instantiate_params a ps as (Suc d) = Inr (a2, sa)"
        "instantiate_params b ps as (Suc d) = Inr (b2, sb)"
        and r: "if sa \<and> sb then r = l else mk_imax_pair a2 b2 d = Inr r"
        using True hp assms IMax
        by (auto simp: instantiate_params.simps [of "IMax a b"] andthen_eq_Inr_iff split: if_splits)
      have "sa \<and> sb \<Longrightarrow> a2 = a \<and> b2 = b" using i by (auto dest: instantiate_params_unchanged)
      with IMax i r show ?thesis by (intro imax [of a b a2 sa b2 sb]) (auto split: if_splits)
    next
      case (Param n)
      with True hp assms show ?thesis
        by (auto simp: instantiate_params.simps [of "Param n"] split: option.splits
            intro: param unchanged)
    qed (use True hp in auto)
  qed
qed

lemma instantiate_params_eval_sdepth:
  assumes "instantiate_params l ps as d = Inr (r, same)"
    and "\<forall>a \<in> set as. sdepth a \<le> m" and "sdepth l + m \<le> u64_max"
  shows "eval \<rho> \<mu> r = eval (assign ps as \<rho> \<mu>) \<mu> l \<and> sdepth r \<le> sdepth l + m"
  using assms
proof (induction l arbitrary: d r same)
  case (Succ a)
  from Succ.prems(1) show ?case
  proof (cases rule: instantiate_params_cases)
    case unchanged
    then have "eval \<rho> \<mu> (Succ a) = eval (assign ps as \<rho> \<mu>) \<mu> (Succ a)"
      by (intro eval_params_cong) auto
    with unchanged show ?thesis by simp
  next
    case (succ a' a2 sa)
    with Succ.IH [of "Suc d" a2 sa] Succ.prems show ?thesis by auto
  qed auto
next
  case (Max a b)
  from Max.prems(1) show ?case
  proof (cases rule: instantiate_params_cases)
    case unchanged
    then have "eval \<rho> \<mu> (Max a b) = eval (assign ps as \<rho> \<mu>) \<mu> (Max a b)"
      by (intro eval_params_cong) auto
    with unchanged show ?thesis by simp
  next
    case (max a' b' a2 b2 sa sb)
    with Max.IH(1) [of "Suc d" a2 sa] Max.IH(2) [of "Suc d" b2 sb] Max.prems(2,3)
    have a: "eval \<rho> \<mu> a2 = eval (assign ps as \<rho> \<mu>) \<mu> a" "sdepth a2 \<le> sdepth a + m"
      and b: "eval \<rho> \<mu> b2 = eval (assign ps as \<rho> \<mu>) \<mu> b" "sdepth b2 \<le> sdepth b + m" by auto
    then have "small a2" "small b2" using Max.prems(3) by (auto simp: small_def)
    with max(4) a b show ?thesis
      by (auto dest: mk_max_pair_eval [where \<rho> = \<rho> and \<mu> = \<mu>] sdepth_mk_max_pair)
  qed auto
next
  case (IMax a b)
  from IMax.prems(1) show ?case
  proof (cases rule: instantiate_params_cases)
    case unchanged
    then have "eval \<rho> \<mu> (IMax a b) = eval (assign ps as \<rho> \<mu>) \<mu> (IMax a b)"
      by (intro eval_params_cong) auto
    with unchanged show ?thesis by simp
  next
    case (imax a' b' a2 b2 sa sb)
    with IMax.IH(1) [of "Suc d" a2 sa] IMax.IH(2) [of "Suc d" b2 sb] IMax.prems(2,3)
    have a: "eval \<rho> \<mu> a2 = eval (assign ps as \<rho> \<mu>) \<mu> a" "sdepth a2 \<le> sdepth a + m"
      and b: "eval \<rho> \<mu> b2 = eval (assign ps as \<rho> \<mu>) \<mu> b" "sdepth b2 \<le> sdepth b + m" by auto
    then have "small a2" "small b2" using IMax.prems(3) by (auto simp: small_def)
    with imax(4) a b show ?thesis
      by (auto dest: mk_imax_pair_eval [where \<rho> = \<rho> and \<mu> = \<mu>] sdepth_mk_imax_pair)
  qed auto
next
  case (Param n)
  from Param.prems(1) show ?case
    by (cases rule: instantiate_params_cases) (use Param.prems(2) in \<open>auto simp: assign_def dest: lookup_param_in\<close>)
qed (auto elim!: instantiate_params_cases)

end
