(* ===== verification/Level_Normalize.thy ===== *)
theory Level_Normalize
  imports Level_Semantics "HOL-Library.Multiset"
begin

text \<open>
  The order \<open>is_norm_lt\<close> is a strict total order, so the comparator handed to \<open>sort_by\<close>
  meets that function's contract, and \<open>normalize\<close> and \<open>is_equivalent\<close> respect the meaning
  of levels. \<open>norm_lt\<close> is the order without its guard.
\<close>

section \<open>The order\<close>

lemma size_strip_Max: "strip a = Max l r \<Longrightarrow> size l < size a \<and> size r < size a"
  by (induction a) auto

lemma size_strip_IMax: "strip a = IMax l r \<Longrightarrow> size l < size a \<and> size r < size a"
  by (induction a) auto

function norm_lt :: "level \<Rightarrow> level \<Rightarrow> bool" where
  "norm_lt a b =
     (if strip a = strip b then succs a < succs b
      else if kind_rank (strip a) \<noteq> kind_rank (strip b)
      then kind_rank (strip a) < kind_rank (strip b)
      else (case (strip a, strip b) of
          (Param na, Param nb) \<Rightarrow> na < nb
        | (MVar na, MVar nb) \<Rightarrow> na < nb
        | (Max la ra, Max lb rb) \<Rightarrow> if la \<noteq> lb then norm_lt la lb else norm_lt ra rb
        | (IMax la ra, IMax lb rb) \<Rightarrow> if la \<noteq> lb then norm_lt la lb else norm_lt ra rb
        | _ \<Rightarrow> False))"
  by pat_completeness auto
termination
  by (relation "measure (\<lambda>(a, b). size a)") (auto dest!: size_strip_Max [OF sym] size_strip_IMax [OF sym])

declare norm_lt.simps [simp del]

lemma norm_lt_irrefl [simp]: "\<not> norm_lt a a"
  by (simp add: norm_lt.simps)

text \<open>The order on the bases, as rules instead of a nested case distinction.\<close>

definition base_lt :: "level \<Rightarrow> level \<Rightarrow> bool" where
  "base_lt x y \<longleftrightarrow> kind_rank x < kind_rank y
     \<or> (\<exists>m n. x = Param m \<and> y = Param n \<and> m < n) \<or> (\<exists>m n. x = MVar m \<and> y = MVar n \<and> m < n)
     \<or> (\<exists>a b c d. (x = Max a b \<and> y = Max c d \<or> x = IMax a b \<and> y = IMax c d)
          \<and> (norm_lt a c \<or> a = c \<and> norm_lt b d))"

lemma norm_lt_unfold:
  "norm_lt a b \<longleftrightarrow> (if strip a = strip b then succs a < succs b else base_lt (strip a) (strip b))"
  by (subst norm_lt.simps) (auto simp: base_lt_def kind_rank_def split: level.splits)

fun max_args :: "level \<Rightarrow> level set" where
  "max_args (Max a b) = {a, b}"
| "max_args (IMax a b) = {a, b}"
| "max_args _ = {}"

lemma size_args: "x \<in> max_args (strip a) \<Longrightarrow> size x < size a"
  by (cases "strip a") (auto dest: size_strip_Max size_strip_IMax)

lemma base_ltE:
  assumes "base_lt x y"
  obtains (rank) "kind_rank x < kind_rank y"
  | (name) m n where "m < n" "x = Param m \<and> y = Param n \<or> x = MVar m \<and> y = MVar n"
  | (fst) a b c d where "x = Max a b \<and> y = Max c d \<or> x = IMax a b \<and> y = IMax c d" "norm_lt a c"
      "a \<in> max_args x"
  | (snd) a b d where "x = Max a b \<and> y = Max a d \<or> x = IMax a b \<and> y = IMax a d" "norm_lt b d"
      "b \<in> max_args x"
  using assms unfolding base_lt_def by fastforce

lemma is_norm_lt_sound:
  "is_norm_lt a b d = Inr r \<Longrightarrow> small a \<Longrightarrow> small b \<Longrightarrow> r = norm_lt a b"
proof (induction a arbitrary: b d r rule: measure_induct_rule [of size])
  case (less a)
  have sm: "small (strip a)" "small (strip b)" using less by (auto intro: small_strip)
  from less.prems obtain same where same: "structural_eq (strip a) (strip b) d = Inr same"
      "same \<longleftrightarrow> strip a = strip b"
    by (subst (asm) is_norm_lt.simps) (auto simp: andthen_eq_Inr_iff dest: structural_eq_sound)
  note step = less.prems(1) [unfolded is_norm_lt.simps [of a b d] Let_def prod.case
      to_offset_small [OF less.prems(2)] to_offset_small [OF less.prems(3)] same(1) andthen_Inr]
  show ?case
  proof (cases "same \<or> kind_rank (strip a) \<noteq> kind_rank (strip b)")
    case True
    with step same less.prems show ?thesis by (subst norm_lt.simps) auto
  next
    case False
    then have ne: "strip a \<noteq> strip b" "kind_rank (strip a) = kind_rank (strip b)"
      using same by auto
    have two: "r = (norm_lt la lb \<or> la = lb \<and> norm_lt ra rb)"
      if "strip a \<in> {Max la ra, IMax la ra}" "strip b \<in> {Max lb rb, IMax lb rb}" for la ra lb rb
    proof -
      have small: "small la" "small ra" "small lb" "small rb" using that sm by auto
      have "enter d (\<lambda>d. andthen (structural_eq la lb d) (\<lambda>eq.
          if \<not> eq then is_norm_lt la lb d else is_norm_lt ra rb d)) = Inr r"
        using that step False by (elim insertE emptyE) (simp_all add: kind_rank_def)
      then obtain eq where eq: "structural_eq la lb (Suc d) = Inr eq"
        and rest: "(if \<not> eq then is_norm_lt la lb (Suc d) else is_norm_lt ra rb (Suc d)) = Inr r"
        unfolding enter_eq_Inr_iff andthen_eq_Inr_iff by blast
      note eq = eq structural_eq_sound [OF eq]
      show ?thesis
        using less.IH [of la lb "Suc d" r] less.IH [of ra rb "Suc d" r] that(1) rest eq(2) small
          size_args [of la a] size_args [of ra a]
        by (cases eq) auto
    qed
    show ?thesis
    proof (cases "\<exists>la ra. strip a \<in> {Max la ra, IMax la ra}")
      case True
      then obtain la ra where l: "strip a \<in> {Max la ra, IMax la ra}" by blast
      with ne obtain lb rb where r: "strip b \<in> {Max lb rb, IMax lb rb}"
        by (cases "strip b") (auto simp: kind_rank_def)
      from two [OF l r] show ?thesis
        using ne l r by (auto simp: norm_lt_unfold [of a b] base_lt_def kind_rank_def)
    next
      case no_args: False
      then show ?thesis
        unfolding norm_lt_unfold [of a b] base_lt_def using ne
        by (cases "strip a"; cases "strip b")
          (use step same False less.prems in \<open>simp_all add: kind_rank_def less_name_def\<close>)
    qed
  qed
qed

lemma base_lt_asym:
  assumes "base_lt x y" and "\<And>a c. a \<in> max_args x \<Longrightarrow> norm_lt a c \<Longrightarrow> \<not> norm_lt c a"
  shows "\<not> base_lt y x"
  using assms(1)
proof (cases rule: base_ltE)
  case rank
  then show ?thesis by (auto simp: base_lt_def kind_rank_def)
next
  case (name m n)
  then show ?thesis by (auto simp: base_lt_def kind_rank_def)
next
  case (fst a b c d)
  with assms(2) [of a c] show ?thesis by (auto simp: base_lt_def kind_rank_def)
next
  case (snd a b d)
  with assms(2) [of b d] show ?thesis by (auto simp: base_lt_def kind_rank_def)
qed

lemma norm_lt_asym: "norm_lt a b \<Longrightarrow> \<not> norm_lt b a"
proof (induction a arbitrary: b rule: measure_induct_rule [of size])
  case (less a)
  show ?case
  proof (cases "strip a = strip b")
    case True
    with less.prems show ?thesis by (simp add: norm_lt_unfold)
  next
    case False
    then have "base_lt (strip a) (strip b)" using less.prems by (simp add: norm_lt_unfold)
    then have "\<not> base_lt (strip b) (strip a)"
      by (rule base_lt_asym) (use less.IH size_args in blast)
    with False show ?thesis by (simp add: norm_lt_unfold)
  qed
qed

lemma base_lt_total:
  assumes "x \<noteq> y" and "\<And>a. x \<noteq> Succ a" and "\<And>a. y \<noteq> Succ a"
    and "\<And>a c. a \<in> max_args x \<Longrightarrow> a \<noteq> c \<Longrightarrow> norm_lt a c \<or> norm_lt c a"
  shows "base_lt x y \<or> base_lt y x"
proof (cases "kind_rank x = kind_rank y")
  case False
  then show ?thesis by (auto simp: base_lt_def)
next
  case True
  show ?thesis
  proof (cases x)
    case (Max a b)
    with True obtain c d where "y = Max c d" by (cases y) (auto simp: kind_rank_def)
    with Max assms(1) assms(4) [of a c] assms(4) [of b d] show ?thesis
      by (auto simp: base_lt_def)
  next
    case (IMax a b)
    with True obtain c d where "y = IMax c d" by (cases y) (auto simp: kind_rank_def)
    with IMax assms(1) assms(4) [of a c] assms(4) [of b d] show ?thesis
      by (auto simp: base_lt_def)
  qed (use True assms(1-3) in \<open>cases y; auto simp: base_lt_def kind_rank_def\<close>)+
qed

lemma norm_lt_total: "a \<noteq> b \<Longrightarrow> norm_lt a b \<or> norm_lt b a"
proof (induction a arbitrary: b rule: measure_induct_rule [of size])
  case (less a)
  show ?case
  proof (cases "strip a = strip b")
    case True
    with less.prems strip_succs_eq_iff [of a b] show ?thesis by (auto simp: norm_lt_unfold)
  next
    case False
    then have "base_lt (strip a) (strip b) \<or> base_lt (strip b) (strip a)"
      by (rule base_lt_total) (use less.IH size_args in simp_all)
    with False show ?thesis by (auto simp: norm_lt_unfold)
  qed
qed

lemma base_lt_trans:
  assumes xy: "base_lt x y" and yz: "base_lt y z"
    and trans: "\<And>a c e. a \<in> max_args x \<Longrightarrow> norm_lt a c \<Longrightarrow> norm_lt c e \<Longrightarrow> norm_lt a e"
  shows "base_lt x z"
  using xy
proof (cases rule: base_ltE)
  case rank
  from yz show ?thesis
    by (cases rule: base_ltE) (use rank in \<open>auto simp: base_lt_def kind_rank_def\<close>)
next
  case (name m n)
  from yz show ?thesis
    by (cases rule: base_ltE) (use name in \<open>auto simp: base_lt_def kind_rank_def\<close>)
next
  case (fst a b c d)
  from yz show ?thesis
    by (cases rule: base_ltE) (use fst trans [of a c] in \<open>auto simp: base_lt_def kind_rank_def\<close>)
next
  case (snd a b d)
  from yz show ?thesis
    by (cases rule: base_ltE) (use snd trans [of b d] in \<open>auto simp: base_lt_def kind_rank_def\<close>)
qed

lemma norm_lt_trans: "norm_lt a b \<Longrightarrow> norm_lt b c \<Longrightarrow> norm_lt a c"
proof (induction a arbitrary: b c rule: measure_induct_rule [of size])
  case (less a)
  consider (ab) "strip a = strip b" | (bc) "strip a \<noteq> strip b" "strip b = strip c"
    | (diff) "strip a \<noteq> strip b" "strip b \<noteq> strip c" by blast
  then show ?case
  proof cases
    case diff
    then have lt: "base_lt (strip a) (strip b)" "base_lt (strip b) (strip c)"
      using less.prems by (simp_all add: norm_lt_unfold)
    then have "base_lt (strip a) (strip c)"
      by (rule base_lt_trans) (use less.IH size_args in blast)
    moreover have "strip a \<noteq> strip c"
      using lt base_lt_asym [OF lt(1)] norm_lt_asym by fastforce
    ultimately show ?thesis by (simp add: norm_lt_unfold)
  qed (use less.prems in \<open>auto simp: norm_lt_unfold split: if_splits\<close>)
qed

section \<open>Sorting\<close>

lemma norm_cmp_sound:
  assumes "norm_cmp x y d = Inr ord" and "small x" and "small y"
  shows "ord = (if norm_lt x y then Less else if norm_lt y x then Greater else Equal)"
  using assms is_norm_lt_sound [of x y d] is_norm_lt_sound [of y x d]
  by (auto simp: norm_cmp_def andthen_eq_Inr_iff split: if_splits)

definition ascending :: "level list \<Rightarrow> bool" where
  "ascending xs \<longleftrightarrow> sorted_wrt (\<lambda>x y. \<not> norm_lt y x) xs"

lemma ascending_simps [simp]:
  "ascending []"
  "ascending (x # xs) \<longleftrightarrow> (\<forall>y \<in> set xs. \<not> norm_lt y x) \<and> ascending xs"
  by (simp_all add: ascending_def)

lemma insert_by_sorted:
  assumes "insert_by (\<lambda>x y. norm_cmp x y d) x xs = Inr ys"
    and "small x" and "\<forall>y \<in> set xs. small y" and "ascending xs"
  shows "mset ys = add_mset x (mset xs) \<and> ascending ys"
  using assms
proof (induction xs arbitrary: ys)
  case (Cons y xs)
  then obtain ord where ord: "norm_cmp x y d = Inr ord" by (auto simp: andthen_eq_Inr_iff)
  then have ord_eq: "ord = (if norm_lt x y then Less else if norm_lt y x then Greater else Equal)"
    using Cons.prems by (intro norm_cmp_sound) auto
  show ?case
  proof (cases "norm_lt y x")
    case True
    then have "ord = Greater" using ord_eq norm_lt_asym by auto
    with Cons.prems ord obtain zs where zs: "insert_by (\<lambda>x y. norm_cmp x y d) x xs = Inr zs"
      "ys = y # zs" by (auto simp: andthen_eq_Inr_iff)
    with Cons have IH: "mset zs = add_mset x (mset xs)" "ascending zs" by auto
    then have "set zs = insert x (set xs)" by (metis set_mset_add_mset_insert set_mset_mset)
    with IH zs Cons.prems True norm_lt_asym show ?thesis by auto
  next
    case False
    then have "ys = x # y # xs" using Cons.prems ord ord_eq by (auto split: if_splits)
    moreover have "\<not> norm_lt z x" if "z \<in> set xs" for z
      using that False Cons.prems(4) norm_lt_trans norm_lt_total by (metis ascending_simps(2))
    ultimately show ?thesis using False Cons.prems by auto
  qed
qed auto

lemma sort_by_sorted:
  assumes "sort_by (\<lambda>x y. norm_cmp x y d) xs = Inr ys" and "\<forall>x \<in> set xs. small x"
  shows "mset ys = mset xs \<and> ascending ys"
  using assms
proof (induction xs arbitrary: ys)
  case (Cons x xs)
  then obtain zs where zs: "sort_by (\<lambda>x y. norm_cmp x y d) xs = Inr zs"
    "insert_by (\<lambda>x y. norm_cmp x y d) x zs = Inr ys" by (auto simp: andthen_eq_Inr_iff)
  with Cons have IH: "mset zs = mset xs" "ascending zs" by auto
  then have "set zs = set xs" by (metis set_mset_mset)
  with insert_by_sorted [OF zs(2)] IH Cons.prems(2) show ?case by auto
qed auto

text \<open>A list has one ascending arrangement: the outcome of sorting does not depend on the input's order.\<close>

lemma ascending_unique: "mset xs = mset ys \<Longrightarrow> ascending xs \<Longrightarrow> ascending ys \<Longrightarrow> xs = ys"
proof (induction xs arbitrary: ys)
  case (Cons x xs)
  then obtain y ys' where ys: "ys = y # ys'" by (cases ys) auto
  have "set (x # xs) = set ys" using Cons.prems(1) by (metis set_mset_mset)
  then have "x = y \<or> x \<in> set ys' \<and> y \<in> set xs" using ys by auto
  then have "x = y" using Cons.prems(2,3) ys norm_lt_total [of x y] by auto
  with Cons ys show ?case by auto
qed simp

section \<open>The value of a list of arguments\<close>

definition lmax :: "(name \<Rightarrow> nat) \<Rightarrow> (name \<Rightarrow> nat) \<Rightarrow> level list \<Rightarrow> nat" where
  "lmax \<rho> \<mu> xs = foldr (\<lambda>a m. max (eval \<rho> \<mu> a) m) xs 0"

lemma lmax_simps [simp]:
  "lmax \<rho> \<mu> [] = 0"
  "lmax \<rho> \<mu> (a # xs) = max (eval \<rho> \<mu> a) (lmax \<rho> \<mu> xs)"
  "lmax \<rho> \<mu> (xs @ ys) = max (lmax \<rho> \<mu> xs) (lmax \<rho> \<mu> ys)"
  by (simp_all add: lmax_def) (induction xs, auto)

lemma lmax_le_iff: "lmax \<rho> \<mu> xs \<le> v \<longleftrightarrow> (\<forall>a \<in> set xs. eval \<rho> \<mu> a \<le> v)"
  by (induction xs) auto

lemma lmax_set_eq: "set xs = set ys \<Longrightarrow> lmax \<rho> \<mu> xs = lmax \<rho> \<mu> ys"
  by (metis antisym lmax_le_iff order_refl)

lemma lmax_map_mk_succ_n:
  "xs \<noteq> [] \<Longrightarrow> lmax \<rho> \<mu> (map (\<lambda>a. mk_succ_n a k) xs) = lmax \<rho> \<mu> xs + k"
proof (induction xs)
  case (Cons a xs)
  then show ?case by (cases xs) auto
qed simp

lemma push_max_args_lmax:
  "push_max_args l d = Inr xs \<Longrightarrow>
     xs \<noteq> [] \<and> lmax \<rho> \<mu> xs = eval \<rho> \<mu> l \<and> (\<forall>a \<in> set xs. sdepth a \<le> sdepth l)"
proof (induction l d arbitrary: xs rule: push_max_args.induct)
  case (1 a b d)
  then obtain ys zs where "push_max_args a (Suc d) = Inr ys" "push_max_args b (Suc d) = Inr zs"
    "xs = ys @ zs" by (auto simp: enter_eq_Inr_iff andthen_eq_Inr_iff)
  with "1.IH"(1) [of ys] "1.IH"(2) [of ys zs] 1 show ?case
    by (fastforce simp: enter_eq_Inr_iff)
qed auto

lemma mk_max_list_lmax:
  "mk_max_list xs d = Inr r \<Longrightarrow> xs \<noteq> [] \<Longrightarrow> \<forall>a \<in> set xs. sdepth a \<le> m \<Longrightarrow> m \<le> u64_max \<Longrightarrow>
     eval \<rho> \<mu> r = lmax \<rho> \<mu> xs \<and> sdepth r \<le> m"
proof (induction xs d arbitrary: r rule: mk_max_list.induct)
  case (3 a b d)
  then have "small a" "small b" by (auto simp: small_def)
  with 3 mk_max_pair_eval [of a b d r \<rho> \<mu>] sdepth_mk_max_pair [of a b d r] show ?case by auto
next
  case (4 a b c as d)
  then obtain s where s: "mk_max_list (b # c # as) d = Inr s" "mk_max_pair a s d = Inr r"
    by (auto simp: andthen_eq_Inr_iff)
  with 4 have IH: "eval \<rho> \<mu> s = lmax \<rho> \<mu> (b # c # as)" "sdepth s \<le> m" by auto
  with 4 have "small a" "small s" by (auto simp: small_def)
  with s mk_max_pair_eval [of a s d r \<rho> \<mu>] sdepth_mk_max_pair [of a s d r] IH 4 show ?case by auto
qed auto

section \<open>Dropping subsumed arguments\<close>

lemma merge_runs_lmax:
  assumes "merge_runs pb pk rargs rest d = Inr out" and "rargs \<noteq> []"
    and "strip (last rargs) = pb" and "succs (last rargs) = pk" and "\<forall>a \<in> set rest. small a"
  shows "lmax \<rho> \<mu> out = lmax \<rho> \<mu> (rargs @ rest) \<and> out \<noteq> [] \<and> set out \<subseteq> set (rargs @ rest)"
  using assms
proof (induction pb pk rargs rest d arbitrary: out rule: merge_runs.induct)
  case (2 pb pk rargs a rest d)
  from "2.prems"(1,5) obtain same where same: "structural_eq pb (strip a) d = Inr same"
    "same \<longleftrightarrow> pb = strip a" by (auto simp: andthen_eq_Inr_iff dest: structural_eq_sound)
  let ?b = "butlast rargs" and ?l = "last rargs"
  have rargs: "rargs = ?b @ [?l]" using "2.prems"(2) by simp
  have lm: "lmax \<rho> \<mu> rargs = max (lmax \<rho> \<mu> ?b) (eval \<rho> \<mu> ?l)" by (subst rargs) simp
  have set: "set rargs = insert ?l (set ?b)" by (subst rargs) auto
  show ?case
  proof (cases same)
    case False
    with 2 same show ?thesis by auto
  next
    case True
    then have ev: "eval \<rho> \<mu> a + pk = eval \<rho> \<mu> ?l + succs a"
      using same(2) "2.prems"(3,4) eval_strip [of \<rho> \<mu> a] eval_strip [of \<rho> \<mu> ?l] by simp
    show ?thesis
    proof (cases "pk < succs a")
      case lt: True
      with True same "2.prems" have step: "merge_runs (strip a) (succs a) (?b @ [a]) rest d = Inr out"
        by simp
      with "2.IH"(1) [of _ "strip a" "succs a" same out] True lt same "2.prems"
      have IH: "lmax \<rho> \<mu> out = lmax \<rho> \<mu> ((?b @ [a]) @ rest) \<and> out \<noteq> [] \<and> set out \<subseteq> set ((?b @ [a]) @ rest)"
        by simp
      with lm ev lt set show ?thesis by auto
    next
      case ge: False
      with True same "2.prems" have "merge_runs pb pk rargs rest d = Inr out" by simp
      with "2.IH"(2) [of _ "strip a" "succs a" same out] True ge same "2.prems"
      have IH: "lmax \<rho> \<mu> out = lmax \<rho> \<mu> (rargs @ rest) \<and> out \<noteq> [] \<and> set out \<subseteq> set (rargs @ rest)"
        by simp
      with lm ev ge show ?thesis by auto
    qed
  qed
qed auto

lemma last_explicit_spec:
  assumes "i < length args" and "is_explicit (args ! i)"
  shows "i \<le> last_explicit args i \<and> last_explicit args i < length args \<and>
    (\<forall>j. i \<le> j \<longrightarrow> j \<le> last_explicit args i \<longrightarrow> is_explicit (args ! j))"
  using assms
proof (induction args i rule: last_explicit.induct)
  case (1 args i)
  then show ?case
    by (subst (1 2 3) last_explicit.simps) (auto simp: Suc_le_eq not_less_eq_eq elim!: le_SucE
        intro: le_neq_implies_less dest!: le_imp_less_or_eq)
qed

lemma first_subsumer_spec:
  "first_subsumer args k j < length args \<Longrightarrow> j \<le> length args \<Longrightarrow>
     j \<le> first_subsumer args k j \<and> k \<le> snd (to_offset (args ! first_subsumer args k j))"
proof (induction args k j rule: first_subsumer.induct)
  case (1 args k j)
  then show ?case
    by (subst (1 2) first_subsumer.simps, subst (asm) (2) first_subsumer.simps) (auto split: if_splits)
qed

lemma explicit_prefix_le:
  assumes "ascending args" and "j \<le> i" and "i < length args"
    and "is_explicit (args ! j)" and "is_explicit (args ! i)"
  shows "eval \<rho> \<mu> (args ! j) \<le> succs (args ! i)"
proof (cases "j = i")
  case False
  then have "\<not> norm_lt (args ! i) (args ! j)"
    using assms(1-3) by (auto simp: ascending_def sorted_wrt_iff_nth_less)
  with assms(4,5) show ?thesis by (auto simp: norm_lt_unfold is_explicit_iff eval_strip [of _ _ "args ! j"])
qed (use assms in \<open>simp add: eval_explicit\<close>)

lemma lmax_drop_le: "lmax \<rho> \<mu> (drop i xs) \<le> lmax \<rho> \<mu> xs"
  by (metis lmax_le_iff in_set_dropD order_refl)

lemma start_index_spec:
  assumes "args \<noteq> []" and "ascending args" and "\<forall>a \<in> set args. small a"
  shows "start_index args < length args \<and> lmax \<rho> \<mu> (drop (start_index args) args) = lmax \<rho> \<mu> args"
proof (cases "is_explicit (args ! 0)")
  case False
  with assms(1) show ?thesis by (simp add: start_index_def)
next
  case True
  define i where "i = last_explicit args 0"
  define j where "j = first_subsumer args (snd (to_offset (args ! i))) (i + 1)"
  have i: "i < length args" "\<And>j. j \<le> i \<Longrightarrow> is_explicit (args ! j)"
    using last_explicit_spec [of 0 args] True assms(1) by (auto simp: i_def)
  have off: "to_offset (args ! n) = (strip (args ! n), succs (args ! n))" if "n < length args" for n
    using assms(3) that by simp
  have split: "lmax \<rho> \<mu> args = max (lmax \<rho> \<mu> (take i args)) (lmax \<rho> \<mu> (drop i args))"
    by (metis append_take_drop_id lmax_simps(3))
  have "lmax \<rho> \<mu> (take i args) \<le> succs (args ! i)"
    unfolding lmax_le_iff using i explicit_prefix_le [OF assms(2)] by (auto simp: in_set_conv_nth)
  moreover have di: "drop i args = args ! i # drop (i + 1) args"
    using i(1) by (simp add: Cons_nth_drop_Suc)
  moreover have evi: "eval \<rho> \<mu> (args ! i) = succs (args ! i)" using i by (simp add: eval_explicit)
  ultimately have eq: "lmax \<rho> \<mu> (drop i args) = lmax \<rho> \<mu> args" using split by simp
  have start: "start_index args = (if j < length args then i + 1 else i)"
    using True by (simp add: start_index_def Let_def i_def j_def)
  show ?thesis
  proof (cases "j < length args")
    case False
    with start i(1) eq show ?thesis by simp
  next
    case less: True
    with first_subsumer_spec [of args "snd (to_offset (args ! i))" "i + 1"] i(1)
    have j: "i + 1 \<le> j" "succs (args ! i) \<le> succs (args ! j)" using off less by (auto simp: j_def)
    have "drop (i + 1) args ! (j - (i + 1)) = args ! j" using j less by simp
    then have "args ! j \<in> set (drop (i + 1) args)"
      using j less by (metis diff_less_mono length_drop nth_mem)
    then have "eval \<rho> \<mu> (args ! j) \<le> lmax \<rho> \<mu> (drop (i + 1) args)"
      using lmax_le_iff order_refl by blast
    then have "lmax \<rho> \<mu> (drop (i + 1) args) = lmax \<rho> \<mu> args"
      using eq di evi j(2) eval_strip [of \<rho> \<mu> "args ! j"] by simp
    with start less j show ?thesis by simp
  qed
qed

lemma rebuild_max_eval:
  assumes "rebuild_max args k d = Inr r" and "ascending args"
    and "\<forall>a \<in> set args. sdepth a \<le> m" and "m + k \<le> u64_max"
  shows "eval \<rho> \<mu> r = lmax \<rho> \<mu> args + k \<and> sdepth r \<le> m + k"
proof -
  let ?i = "start_index args"
  have small: "\<forall>a \<in> set args. small a" using assms(3,4) by (auto simp: small_def)
  from assms(1) have ne: "args \<noteq> []" by (auto simp: rebuild_max_def get_index_def andthen_eq_Inr_iff split: if_splits)
  from start_index_spec [OF ne assms(2) small]
  have i: "?i < length args" "lmax \<rho> \<mu> (drop ?i args) = lmax \<rho> \<mu> args" by auto
  have drop: "drop ?i args = args ! ?i # drop (?i + 1) args" using i(1) by (simp add: Cons_nth_drop_Suc)
  from assms(1) ne i(1) small obtain rargs where
    rargs: "merge_runs (strip (args ! ?i)) (succs (args ! ?i)) [args ! ?i] (drop (?i + 1) args) d = Inr rargs"
    and r: "mk_max_list (map (\<lambda>a. mk_succ_n a k) rargs) d = Inr r"
    by (auto simp: rebuild_max_def andthen_eq_Inr_iff Let_def)
  from merge_runs_lmax [OF rargs, of \<rho> \<mu>] small
  have out: "lmax \<rho> \<mu> rargs = lmax \<rho> \<mu> (drop ?i args)" "rargs \<noteq> []" "set rargs \<subseteq> set (drop ?i args)"
    by (auto simp: drop dest: in_set_dropD)
  have "\<forall>a \<in> set (map (\<lambda>a. mk_succ_n a k) rargs). sdepth a \<le> m + k"
    using assms(3) out(3) by (auto dest!: subsetD in_set_dropD)
  from mk_max_list_lmax [OF r _ this assms(4), of \<rho> \<mu>] out i(2) show ?thesis
    by (simp add: lmax_map_mk_succ_n)
qed

section \<open>Normalisation\<close>

lemma flat_traverse_Inr:
  assumes "flat_traverse f xs = Inr ys"
  obtains yss where "list_all2 (\<lambda>x zs. f x = Inr zs) xs yss" and "ys = concat yss"
  using assms
proof (induction xs arbitrary: ys thesis)
  case (Cons x xs)
  then obtain a b where "f x = Inr a" "flat_traverse f xs = Inr b" "ys = a @ b"
    by (auto simp: andthen_eq_Inr_iff)
  moreover from Cons.IH [OF _ this(2)] obtain yss
    where "list_all2 (\<lambda>x zs. f x = Inr zs) xs yss" "b = concat yss" by blast
  ultimately show ?case by (intro Cons.prems(1) [of "a # yss"]) auto
qed auto

lemma lmax_concat:
  "list_all2 (\<lambda>x zs. lmax \<rho> \<mu> zs = eval \<rho> \<mu> x) xs yss \<Longrightarrow> lmax \<rho> \<mu> (concat yss) = lmax \<rho> \<mu> xs"
  by (induction rule: list_all2_induct) auto

lemma normalize_sound:
  "normalize l d = Inr r \<Longrightarrow> small l \<Longrightarrow> eval \<rho> \<mu> r = eval \<rho> \<mu> l \<and> sdepth r \<le> sdepth l"
  and normalize_max_sound:
  "normalize_max base k d = Inr r \<Longrightarrow> sdepth base + k \<le> u64_max \<Longrightarrow>
     eval \<rho> \<mu> r = eval \<rho> \<mu> base + k \<and> sdepth r \<le> sdepth base + k"
proof (induction l d and base k d arbitrary: r and r rule: normalize_normalize_max.induct)
  case (1 l d)
  note off = eval_strip [of \<rho> \<mu> l] sdepth_strip [of l]
  show ?case
  proof (cases "strip l")
    case (IMax lhs rhs)
    with "1.prems" obtain l1 l2 im where parts: "d < MAX_REC_DEPTH"
      "normalize lhs (Suc d) = Inr l1" "normalize rhs (Suc d) = Inr l2"
      "mk_imax_pair l1 l2 (Suc d) = Inr im" "r = mk_succ_n im (succs l)"
      by (auto simp: normalize.simps [of l d] andthen_eq_Inr_iff enter_eq_Inr_iff)
    have sm: "small lhs" "small rhs" using IMax "1.prems"(2) off by (auto simp: small_def)
    have IH: "eval \<rho> \<mu> l1 = eval \<rho> \<mu> lhs \<and> sdepth l1 \<le> sdepth lhs"
      "eval \<rho> \<mu> l2 = eval \<rho> \<mu> rhs \<and> sdepth l2 \<le> sdepth rhs"
      using "1.IH"(2) [of _ "strip l" "succs l"] "1.IH"(3) [of _ "strip l" "succs l"] "1.prems"(2) IMax parts sm
      by auto
    then have "small l1" "small l2" using sm by (auto simp: small_def)
    with parts IH have "eval \<rho> \<mu> im = eval \<rho> \<mu> (strip l)" "sdepth im \<le> sdepth (strip l)"
      using mk_imax_pair_eval [of l1 l2 "Suc d" im \<rho> \<mu>] sdepth_mk_imax_pair [of l1 l2 "Suc d" im] IMax
      by auto
    with parts off show ?thesis by simp
  next
    case (Max lhs rhs)
    with "1.prems" have "d < MAX_REC_DEPTH" "normalize_max (strip l) (succs l) (Suc d) = Inr r"
      by (auto simp: normalize.simps [of l d] enter_eq_Inr_iff)
    moreover have "sdepth (strip l) + succs l \<le> u64_max" using "1.prems"(2) off by (simp add: small_def)
    ultimately have "eval \<rho> \<mu> r = eval \<rho> \<mu> (strip l) + succs l \<and> sdepth r \<le> sdepth (strip l) + succs l"
      using "1.IH"(1) [of _ "strip l" "succs l"] "1.prems"(2) Max by auto
    with off show ?thesis by simp
  qed (use "1.prems" in \<open>auto simp: normalize.simps [of l d]\<close>)
next
  case (2 base k d)
  from "2.prems" obtain todo args sorted where
    todo: "push_max_args base d = Inr todo"
    and args: "flat_traverse (\<lambda>a. andthen (normalize a d) (\<lambda>na. push_max_args na d)) todo = Inr args"
    and sorted: "sort_by (\<lambda>x y. norm_cmp x y d) args = Inr sorted"
    and r: "rebuild_max sorted k d = Inr r"
    by (auto simp: normalize_max.simps andthen_eq_Inr_iff)
  from push_max_args_lmax [OF todo, of \<rho> \<mu>]
  have t: "lmax \<rho> \<mu> todo = eval \<rho> \<mu> base" "\<forall>a \<in> set todo. sdepth a \<le> sdepth base" by auto
  from args obtain yss where
    yss: "list_all2 (\<lambda>a zs. andthen (normalize a d) (\<lambda>na. push_max_args na d) = Inr zs) todo yss"
    and args_eq: "args = concat yss" by (rule flat_traverse_Inr)
  have step: "lmax \<rho> \<mu> zs = eval \<rho> \<mu> a \<and> (\<forall>b \<in> set zs. sdepth b \<le> sdepth base)"
    if "a \<in> set todo" "andthen (normalize a d) (\<lambda>na. push_max_args na d) = Inr zs" for a zs
  proof -
    from that(2) obtain na where na: "normalize a d = Inr na" "push_max_args na d = Inr zs"
      by (auto simp: andthen_eq_Inr_iff)
    have "small a" using that(1) t(2) "2.prems"(2) by (auto simp: small_def)
    with "2.IH" [OF todo that(1) na(1)]
    have "eval \<rho> \<mu> na = eval \<rho> \<mu> a" "sdepth na \<le> sdepth a" by auto
    with push_max_args_lmax [OF na(2), of \<rho> \<mu>] t(2) that(1) show ?thesis by fastforce
  qed
  have "list_all2 (\<lambda>a zs. lmax \<rho> \<mu> zs = eval \<rho> \<mu> a) todo yss"
    using yss step by (auto simp: list_all2_conv_all_nth)
  then have lm: "lmax \<rho> \<mu> args = eval \<rho> \<mu> base" using t(1) args_eq lmax_concat by simp
  have sd: "\<forall>a \<in> set args. sdepth a \<le> sdepth base"
  proof
    fix b assume "b \<in> set args"
    then obtain zs where zs: "zs \<in> set yss" "b \<in> set zs" using args_eq by auto
    then obtain i where i: "i < length yss" "yss ! i = zs" by (auto simp: in_set_conv_nth)
    with yss have "andthen (normalize (todo ! i) d) (\<lambda>na. push_max_args na d) = Inr zs"
      and "todo ! i \<in> set todo" by (auto simp: list_all2_conv_all_nth)
    with step zs(2) show "sdepth b \<le> sdepth base" by blast
  qed
  then have "\<forall>a \<in> set args. small a" using "2.prems"(2) by (auto simp: small_def)
  from sort_by_sorted [OF sorted this] have s: "mset sorted = mset args" "ascending sorted" by auto
  then have set: "set sorted = set args" by (metis set_mset_mset)
  from rebuild_max_eval [OF r s(2) _ "2.prems"(2), of \<rho> \<mu>] sd set lmax_set_eq [OF set, of \<rho> \<mu>] lm
  show ?case by simp
qed

end
