(* ===== verification/Level_Total.thy ===== *)
theory Level_Total
  imports Level_Normalize
begin

text \<open>
  The recursion guard never fires on a level that leaves it enough room: \<open>normalize\<close> and
  \<open>is_equivalent\<close> return whenever the depth already used plus the \<open>cost\<close> of the level is
  at most \<open>MAX_REC_DEPTH\<close>. Normalisation flattens balanced maxima into a chain, so the
  height of a level does not bound the height of its normal form; \<open>width\<close> (the number of
  arguments a flattened maximum can have) and \<open>arg_hgt\<close> (the height of one such argument)
  do, and both never grow.
\<close>

fun width :: "level \<Rightarrow> nat" where
  "width (Succ a) = width a"
| "width (Max a b) = width a + width b"
| "width (IMax a b) = width a + width b"
| "width _ = 1"

fun arg_hgt :: "level \<Rightarrow> nat" where
  "arg_hgt (Succ a) = Suc (arg_hgt a)"
| "arg_hgt (Max a b) = max (arg_hgt a) (arg_hgt b)"
| "arg_hgt (IMax a b) = Suc (max (width a + arg_hgt a) (width b + arg_hgt b))"
| "arg_hgt _ = 0"

definition cost :: "level \<Rightarrow> nat" where
  "cost l = width l + arg_hgt l"

definition widths :: "level list \<Rightarrow> nat" where
  "widths xs = sum_list (map width xs)"

lemma widths_simps [simp]:
  "widths [] = 0"
  "widths (x # xs) = width x + widths xs"
  "widths (xs @ ys) = widths xs + widths ys"
  by (simp_all add: widths_def)

lemma width_pos [simp]: "0 < width l"
  by (induction l) auto

lemma width_mk_succ_n [simp]: "width (mk_succ_n l k) = width l"
  by (induction k arbitrary: l) auto

lemma arg_hgt_mk_succ_n [simp]: "arg_hgt (mk_succ_n l k) = arg_hgt l + k"
  by (induction k arbitrary: l) auto

lemma width_strip [simp]: "width (strip l) = width l"
  by (induction l) auto

lemma arg_hgt_strip: "arg_hgt l = arg_hgt (strip l) + succs l"
  by (induction l) auto

lemma hgt_less_cost: "hgt l < cost l"
proof (induction l)
  case (Max a b)
  then show ?case using width_pos [of a] width_pos [of b] by (auto simp: cost_def simp del: width_pos)
next
  case (IMax a b)
  then show ?case using width_pos [of a] width_pos [of b] by (auto simp: cost_def simp del: width_pos)
qed (auto simp: cost_def)

lemma widths_drop: "widths (drop i xs) \<le> widths xs"
  by (metis append_take_drop_id le_add2 widths_simps(3))

lemma width_le_widths: "a \<in> set xs \<Longrightarrow> width a \<le> widths xs"
  by (induction xs) auto

lemma length_le_widths: "length xs \<le> widths xs"
proof (induction xs)
  case (Cons x xs)
  then show ?case using width_pos [of x] by (simp del: width_pos)
qed simp

section \<open>The pieces\<close>

lemma push_max_args_total:
  "d + hgt l \<le> MAX_REC_DEPTH \<Longrightarrow>
     \<exists>xs. push_max_args l d = Inr xs \<and> xs \<noteq> [] \<and> widths xs = width l \<and> (\<forall>a \<in> set xs. arg_hgt a \<le> arg_hgt l)
       \<and> (\<forall>a \<in> set xs. \<forall>b c. a \<noteq> Max b c)"
proof (induction l arbitrary: d)
  case (Max a b)
  then have room: "d < MAX_REC_DEPTH" "Suc d + hgt a \<le> MAX_REC_DEPTH" "Suc d + hgt b \<le> MAX_REC_DEPTH"
    by (auto simp: room_max simp del: add_Suc_right)
  from Max.IH(1) [OF room(2)] Max.IH(2) [OF room(3)] room(1) show ?case by fastforce
qed auto

lemma is_norm_lt_total: "d + hgt a \<le> MAX_REC_DEPTH \<Longrightarrow> \<exists>r. is_norm_lt a b d = Inr r"
proof (induction a arbitrary: b d rule: measure_induct_rule [of size])
  case (less a)
  have room: "d + hgt (strip a) \<le> MAX_REC_DEPTH" using less.prems hgt_strip [of a] by simp
  obtain k1 k2 where off: "to_offset a = (strip a, k1)" "to_offset b = (strip b, k2)"
    by (simp add: to_offset_eq)
  have sub: "\<exists>r. enter d (\<lambda>d. andthen (structural_eq la lb d)
      (\<lambda>eq. if \<not> eq then is_norm_lt la lb d else is_norm_lt ra rb d)) = Inr r"
    if "strip a = Max la ra \<or> strip a = IMax la ra" for la ra lb rb
  proof -
    have "d < MAX_REC_DEPTH" and a: "Suc d + hgt la \<le> MAX_REC_DEPTH" and b: "Suc d + hgt ra \<le> MAX_REC_DEPTH"
      using room that by (auto simp: room_max simp del: add_Suc_right)
    moreover have "size la < size a" "size ra < size a"
      using that by (auto dest: size_strip_Max size_strip_IMax)
    ultimately show ?thesis
      using less.IH [OF _ a, of lb] less.IH [OF _ b, of rb] by (auto simp: structural_eq_total)
  qed
  show ?case
    unfolding is_norm_lt.simps [of a b d] off
    using structural_eq_total [OF room, of "strip b"] sub
    by (cases "strip a"; cases "strip b") auto
qed

lemma norm_cmp_total:
  "d + hgt x \<le> MAX_REC_DEPTH \<Longrightarrow> d + hgt y \<le> MAX_REC_DEPTH \<Longrightarrow> \<exists>r. norm_cmp x y d = Inr r"
  using is_norm_lt_total [of d x y] is_norm_lt_total [of d y x] by (auto simp: norm_cmp_def)

lemma insert_by_total:
  "\<forall>y \<in> insert x (set xs). d + hgt y \<le> MAX_REC_DEPTH \<Longrightarrow>
     \<exists>ys. insert_by (\<lambda>x y. norm_cmp x y d) x xs = Inr ys \<and> mset ys = add_mset x (mset xs)"
proof (induction xs)
  case (Cons y xs)
  then obtain r where "norm_cmp x y d = Inr r" using norm_cmp_total by fastforce
  with Cons show ?case by auto
qed simp

lemma sort_by_total:
  "\<forall>x \<in> set xs. d + hgt x \<le> MAX_REC_DEPTH \<Longrightarrow>
     \<exists>ys. sort_by (\<lambda>x y. norm_cmp x y d) xs = Inr ys \<and> mset ys = mset xs"
proof (induction xs)
  case (Cons x xs)
  then obtain ys where ys: "sort_by (\<lambda>x y. norm_cmp x y d) xs = Inr ys" "mset ys = mset xs" by auto
  then have "set ys = set xs" by (metis set_mset_mset)
  with insert_by_total [of x ys d] Cons.prems ys show ?case by auto
qed simp

lemma mk_max_list_total:
  "xs \<noteq> [] \<Longrightarrow> \<forall>a \<in> set xs. arg_hgt a \<le> h \<Longrightarrow> d + widths xs + h \<le> MAX_REC_DEPTH \<Longrightarrow>
     \<exists>r. mk_max_list xs d = Inr r \<and> width r \<le> widths xs \<and> arg_hgt r \<le> h"
proof (induction xs d rule: mk_max_list.induct)
  case (3 a b d)
  then have "d + hgt a \<le> MAX_REC_DEPTH" "d + hgt b \<le> MAX_REC_DEPTH"
    using hgt_less_cost [of a] hgt_less_cost [of b] by (auto simp: cost_def)
  then obtain r where "mk_max_pair a b d = Inr r" using mk_max_pair_total by blast
  with mk_max_pair_cases [OF this] 3 show ?case by auto
next
  case (4 a b c as d)
  then obtain s where s: "mk_max_list (b # c # as) d = Inr s" "width s \<le> widths (b # c # as)" "arg_hgt s \<le> h"
    by auto
  then have "d + hgt a \<le> MAX_REC_DEPTH" "d + hgt s \<le> MAX_REC_DEPTH"
    using hgt_less_cost [of a] hgt_less_cost [of s] "4.prems"(2,3) by (auto simp: cost_def)
  then obtain r where "mk_max_pair a s d = Inr r" using mk_max_pair_total by blast
  with mk_max_pair_cases [OF this] s "4.prems" show ?case by auto
qed auto

lemma merge_runs_total:
  "d + hgt pb \<le> MAX_REC_DEPTH \<Longrightarrow> rargs \<noteq> [] \<Longrightarrow> \<forall>a \<in> set rest. d + hgt a \<le> MAX_REC_DEPTH \<Longrightarrow>
     \<exists>out. merge_runs pb pk rargs rest d = Inr out \<and> out \<noteq> [] \<and> widths out \<le> widths (rargs @ rest)
       \<and> set out \<subseteq> set (rargs @ rest)"
proof (induction pb pk rargs rest d rule: merge_runs.induct)
  case (2 pb pk rargs a rest d)
  obtain k where off: "to_offset a = (strip a, k)" by (simp add: to_offset_eq)
  have st: "d + hgt (strip a) \<le> MAX_REC_DEPTH" using "2.prems"(3) hgt_strip [of a] by simp
  have w: "widths (butlast rargs) \<le> widths rargs" "set (butlast rargs) \<subseteq> set rargs"
    using "2.prems"(2) by (metis append_butlast_last_id le_add1 widths_simps(3)) (auto dest: in_set_butlastD)
  have eq: "structural_eq pb (strip a) d = Inr (pb = strip a)" using "2.prems"(1) by (rule structural_eq_total)
  consider "pb = strip a" "pk < k" | "pb = strip a" "\<not> pk < k" | "pb \<noteq> strip a" by blast
  then show ?case
  proof cases
    case 1
    with "2.IH"(1) [OF off [symmetric] refl eq] st "2.prems"(3) obtain out where
      "merge_runs (strip a) k (butlast rargs @ [a]) rest d = Inr out" "out \<noteq> []"
      "widths out \<le> widths ((butlast rargs @ [a]) @ rest)" "set out \<subseteq> set ((butlast rargs @ [a]) @ rest)"
      by auto
    moreover from this(3,4) w have "widths out \<le> widths (rargs @ a # rest)" "set out \<subseteq> set (rargs @ a # rest)"
      by auto
    ultimately show ?thesis using 1 off eq by simp
  next
    case 2
    with "2.IH"(2) [OF off [symmetric] refl eq] "2.prems" off eq show ?thesis by auto
  next
    case 3
    with "2.IH"(3) [OF off [symmetric] refl eq] st "2.prems"(3) off eq show ?thesis by auto
  qed
qed auto

lemma last_explicit_less: "i < length args \<Longrightarrow> last_explicit args i < length args"
proof (induction args i rule: last_explicit.induct)
  case (1 args i)
  then show ?case by (subst last_explicit.simps) auto
qed

lemma first_subsumer_ge: "j \<le> first_subsumer args k j"
proof (induction args k j rule: first_subsumer.induct)
  case (1 args k j)
  then show ?case by (subst first_subsumer.simps) auto
qed

lemma start_index_less: "args \<noteq> [] \<Longrightarrow> start_index args < length args"
  using last_explicit_less [of 0 args] first_subsumer_ge [of "last_explicit args 0 + 1" args]
  by (auto simp: start_index_def Let_def intro: le_less_trans)

lemma rebuild_max_total:
  assumes "args \<noteq> []" and "\<forall>a \<in> set args. arg_hgt a \<le> h" and "d + widths args + h + k \<le> MAX_REC_DEPTH"
  shows "\<exists>r. rebuild_max args k d = Inr r \<and> width r \<le> widths args \<and> arg_hgt r \<le> h + k"
proof -
  let ?i = "start_index args"
  have i: "?i < length args" using assms(1) by (rule start_index_less)
  have room: "d + hgt a \<le> MAX_REC_DEPTH" if "a \<in> set args" for a
  proof -
    have "arg_hgt a \<le> h" "width a \<le> widths args" using that assms(2) width_le_widths by auto
    with assms(3) hgt_less_cost [of a] show ?thesis unfolding cost_def by linarith
  qed
  have drop: "drop ?i args = args ! ?i # drop (?i + 1) args" using i by (simp add: Cons_nth_drop_Suc)
  obtain pk where off: "to_offset (args ! ?i) = (strip (args ! ?i), pk)" by (simp add: to_offset_eq)
  have "d + hgt (strip (args ! ?i)) \<le> MAX_REC_DEPTH"
    using room [OF nth_mem [OF i]] hgt_strip [of "args ! ?i"] by simp
  moreover have "\<forall>a \<in> set (drop (?i + 1) args). d + hgt a \<le> MAX_REC_DEPTH"
    using room by (auto dest: in_set_dropD)
  ultimately obtain out where out:
    "merge_runs (strip (args ! ?i)) pk [args ! ?i] (drop (?i + 1) args) d = Inr out" "out \<noteq> []"
    "widths out \<le> widths (drop ?i args)" "set out \<subseteq> set (drop ?i args)"
    using merge_runs_total [of d _ "[args ! ?i]"] drop by (metis append_Cons append_Nil list.distinct(1))
  have sub: "set out \<subseteq> set args" using out(4) by (auto dest: in_set_dropD)
  have w: "widths out \<le> widths args" using out(3) widths_drop order_trans by blast
  have wm: "widths (map (\<lambda>a. mk_succ_n a k) out) = widths out" by (simp add: widths_def comp_def)
  have "\<forall>a \<in> set (map (\<lambda>a. mk_succ_n a k) out). arg_hgt a \<le> h + k" using sub assms(2) by auto
  moreover have "d + widths (map (\<lambda>a. mk_succ_n a k) out) + (h + k) \<le> MAX_REC_DEPTH"
    using w wm assms(3) by simp
  ultimately obtain r where "mk_max_list (map (\<lambda>a. mk_succ_n a k) out) d = Inr r" "width r \<le> widths out"
    "arg_hgt r \<le> h + k" using mk_max_list_total out(2) wm by (metis map_is_Nil_conv)
  with out(1) off i assms(1) w show ?thesis by (auto simp: rebuild_max_def Let_def)
qed

lemma flat_traverse_total:
  assumes "\<And>a. a \<in> set xs \<Longrightarrow> \<exists>zs. f a = Inr zs \<and> zs \<noteq> [] \<and> widths zs \<le> width a \<and> (\<forall>z \<in> set zs. arg_hgt z \<le> arg_hgt a)"
    and "\<forall>a \<in> set xs. arg_hgt a \<le> h"
  shows "\<exists>ys. flat_traverse f xs = Inr ys \<and> (xs \<noteq> [] \<longrightarrow> ys \<noteq> []) \<and> widths ys \<le> widths xs \<and> (\<forall>z \<in> set ys. arg_hgt z \<le> h)"
  using assms
proof (induction xs)
  case (Cons x xs)
  from Cons.prems(1) [of x] obtain zs where zs: "f x = Inr zs" "zs \<noteq> []" "widths zs \<le> width x"
    "\<forall>z \<in> set zs. arg_hgt z \<le> arg_hgt x" by auto
  from Cons.IH Cons.prems obtain ys where "flat_traverse f xs = Inr ys" "widths ys \<le> widths xs"
    "\<forall>z \<in> set ys. arg_hgt z \<le> h" by auto
  with zs Cons.prems(2) show ?case by fastforce
qed simp

lemma push_max_args_parts:
  "push_max_args l d = Inr xs \<Longrightarrow> a \<in> set xs \<Longrightarrow>
     size a \<le> size l \<and> width a \<le> width l \<and> ((\<exists>b c. l = Max b c) \<longrightarrow> size a < size l \<and> width a < width l)"
proof (induction l arbitrary: d xs)
  case (Max b c)
  then obtain ys zs where "push_max_args b (Suc d) = Inr ys" "push_max_args c (Suc d) = Inr zs" "xs = ys @ zs"
    by (auto simp: enter_eq_Inr_iff andthen_eq_Inr_iff)
  with Max.IH(1) [of "Suc d" ys] Max.IH(2) [of "Suc d" zs] Max.prems(2) width_pos [of b] width_pos [of c]
  show ?case by (auto simp del: width_pos)
qed auto

lemma size_strip: "size (strip l) \<le> size l"
  by (induction l) auto

section \<open>Normalisation\<close>

lemma normalize_total_aux:
  "d + cost l < MAX_REC_DEPTH \<Longrightarrow>
     \<exists>r. normalize l d = Inr r \<and> width r \<le> width l \<and> arg_hgt r \<le> arg_hgt l"
proof (induction l arbitrary: d rule: measure_induct_rule [of size])
  case (less l)
  show ?case
  proof (cases "strip l")
    case (IMax a b)
    have c: "cost l = width a + width b + Suc (max (cost a) (cost b)) + min (succs l) (succs l)"
      using IMax width_strip [of l] arg_hgt_strip [of l] by (auto simp: cost_def)
    then have room: "d < MAX_REC_DEPTH" "Suc d + cost a < MAX_REC_DEPTH" "Suc d + cost b < MAX_REC_DEPTH"
      using less.prems by auto
    obtain k where off: "to_offset l = (strip l, k)" "k \<le> succs l" by (simp add: to_offset_eq)
    from less.IH [OF _ room(2)] less.IH [OF _ room(3)] size_strip_IMax [OF IMax] obtain l1 l2 where
      l12: "normalize a (Suc d) = Inr l1" "width l1 \<le> width a" "arg_hgt l1 \<le> arg_hgt a"
        "normalize b (Suc d) = Inr l2" "width l2 \<le> width b" "arg_hgt l2 \<le> arg_hgt b" by auto
    then have "Suc d + hgt l1 \<le> MAX_REC_DEPTH" "Suc d + hgt l2 \<le> MAX_REC_DEPTH"
      using room hgt_less_cost [of l1] hgt_less_cost [of l2] by (auto simp: cost_def)
    then obtain im where im: "mk_imax_pair l1 l2 (Suc d) = Inr im" using mk_imax_pair_total by blast
    have "width im \<le> width (strip l)" "arg_hgt im \<le> arg_hgt (strip l)"
      using mk_imax_pair_cases [OF im] l12 IMax by auto
    moreover have "width l = width a + width b" using IMax width_strip [of l] by simp
    ultimately show ?thesis using l12 im room(1) IMax off arg_hgt_strip [of l]
      by (auto simp: normalize.simps [of l d])
  next
    case (Max a b)
    obtain k where off: "to_offset l = (strip l, k)" "k \<le> succs l" by (simp add: to_offset_eq)
    have d: "d < MAX_REC_DEPTH" using less.prems hgt_less_cost [of l] by simp
    have cl: "cost l = cost (strip l) + succs l" using arg_hgt_strip [of l] by (simp add: cost_def)
    have "Suc d + hgt (strip l) \<le> MAX_REC_DEPTH" using less.prems cl hgt_less_cost [of "strip l"] by simp
    from push_max_args_total [OF this] obtain todo where todo: "push_max_args (strip l) (Suc d) = Inr todo"
      "todo \<noteq> []" "widths todo = width l" "\<forall>a \<in> set todo. arg_hgt a \<le> arg_hgt (strip l)" by auto
    have sub: "size x < size l \<and> width x < width l" if "x \<in> set todo" for x
      using push_max_args_parts [OF todo(1) that] Max width_strip [of l] size_strip_Max [OF Max]
        size_strip [of l] by auto
    have "\<exists>zs. andthen (normalize x (Suc d)) (\<lambda>na. push_max_args na (Suc d)) = Inr zs \<and> zs \<noteq> []
        \<and> widths zs \<le> width x \<and> (\<forall>z \<in> set zs. arg_hgt z \<le> arg_hgt x)" if x: "x \<in> set todo" for x
    proof -
      have room: "Suc d + cost x < MAX_REC_DEPTH"
        using sub [OF x] todo(4) x less.prems cl width_strip [of l] by (auto simp: cost_def)
      from less.IH [OF _ this] sub [OF x] obtain na where na: "normalize x (Suc d) = Inr na"
        "width na \<le> width x" "arg_hgt na \<le> arg_hgt x" by auto
      then have "Suc d + hgt na \<le> MAX_REC_DEPTH"
        using room hgt_less_cost [of na] by (auto simp: cost_def)
      from push_max_args_total [OF this] na show ?thesis by fastforce
    qed
    from flat_traverse_total [OF this todo(4)] todo(2,3) obtain args where args:
      "flat_traverse (\<lambda>x. andthen (normalize x (Suc d)) (\<lambda>na. push_max_args na (Suc d))) todo = Inr args"
      "args \<noteq> []" "widths args \<le> width l" "\<forall>x \<in> set args. arg_hgt x \<le> arg_hgt (strip l)" by auto
    have "Suc d + hgt x \<le> MAX_REC_DEPTH" if "x \<in> set args" for x
    proof -
      have "width x \<le> width l" "arg_hgt x \<le> arg_hgt (strip l)"
        using that args(3,4) width_le_widths order_trans by blast+
      with hgt_less_cost [of x] less.prems cl show ?thesis by (simp add: cost_def)
    qed
    then obtain sorted where sorted: "sort_by (\<lambda>x y. norm_cmp x y (Suc d)) args = Inr sorted"
      "mset sorted = mset args" using sort_by_total by blast
    then have "set sorted = set args" "widths sorted = widths args"
      by (metis set_mset_mset, metis mset_map sum_mset_sum_list widths_def)
    moreover from this have "sorted \<noteq> []" using args(2) by auto
    moreover have "Suc d + widths args + arg_hgt (strip l) + k \<le> MAX_REC_DEPTH"
      using args(3) off(2) less.prems cl by (auto simp: cost_def)
    ultimately obtain r where "rebuild_max sorted k (Suc d) = Inr r" "width r \<le> widths args"
      "arg_hgt r \<le> arg_hgt (strip l) + k"
      using rebuild_max_total [of sorted "arg_hgt (strip l)" "Suc d" k] args(4) by auto
    with args sorted(1) todo(1) off d Max arg_hgt_strip [of l] show ?thesis
      by (auto simp: normalize.simps [of l d] normalize_max.simps)
  qed (use less in \<open>auto simp: normalize.simps [of l d] to_offset_eq\<close>)
qed

lemma is_equivalent_total_aux:
  assumes "d + cost a < MAX_REC_DEPTH" and "d + cost b < MAX_REC_DEPTH"
  shows "\<exists>r. is_equivalent a b d = Inr r"
proof -
  from normalize_total_aux [OF assms(1)] obtain na where na: "normalize a d = Inr na"
    "width na \<le> width a" "arg_hgt na \<le> arg_hgt a" by auto
  from normalize_total_aux [OF assms(2)] obtain nb where nb: "normalize b d = Inr nb" by auto
  have "d + hgt a \<le> MAX_REC_DEPTH" "d + hgt na \<le> MAX_REC_DEPTH"
    using na(2,3) assms(1) hgt_less_cost [of a] hgt_less_cost [of na] by (auto simp: cost_def)
  with na(1) nb show ?thesis
    by (auto simp: is_equivalent_def structural_eq_total intro: exI [of _ True])
qed

section \<open>Normal forms of maxima do not depend on the order of the arguments\<close>

lemma flat_traverse_append:
  "flat_traverse f (xs @ ys) = andthen (flat_traverse f xs) (\<lambda>a. andthen (flat_traverse f ys) (\<lambda>b. Inr (a @ b)))"
proof (induction xs)
  case Nil
  then show ?case by (cases "flat_traverse f ys") auto
next
  case (Cons x xs)
  then show ?case by (cases "f x"; cases "flat_traverse f xs"; cases "flat_traverse f ys") auto
qed

lemma normalize_max_swap:
  assumes "normalize_max (Max a b) k d = Inr r" and "normalize_max (Max b a) k d = Inr r'"
    and "small (Max a b)"
  shows "r = r'"
proof -
  let ?f = "\<lambda>a. andthen (normalize a d) (\<lambda>na. push_max_args na d)"
  from assms(1) obtain ta tb xa xb s where
    t: "push_max_args a (Suc d) = Inr ta" "push_max_args b (Suc d) = Inr tb"
    and x: "flat_traverse ?f ta = Inr xa" "flat_traverse ?f tb = Inr xb"
    and s: "sort_by (\<lambda>x y. norm_cmp x y d) (xa @ xb) = Inr s" "rebuild_max s k d = Inr r"
    by (auto simp: normalize_max.simps [of "Max a b"] andthen_eq_Inr_iff enter_eq_Inr_iff flat_traverse_append)
  from assms(2) obtain tb' ta' xb' xa' s' where
    s': "sort_by (\<lambda>x y. norm_cmp x y d) (xb' @ xa') = Inr s'" "rebuild_max s' k d = Inr r'"
    and t': "push_max_args b (Suc d) = Inr tb'" "push_max_args a (Suc d) = Inr ta'"
    and x': "flat_traverse ?f tb' = Inr xb'" "flat_traverse ?f ta' = Inr xa'"
    by (auto simp: normalize_max.simps [of "Max b a"] andthen_eq_Inr_iff enter_eq_Inr_iff flat_traverse_append)
  have same: "ta' = ta" "tb' = tb" using t t' by simp_all
  have "xa' = xa" "xb' = xb" using x x' unfolding same by simp_all
  with s' have s': "sort_by (\<lambda>x y. norm_cmp x y d) (xb @ xa) = Inr s'" "rebuild_max s' k d = Inr r'" by simp_all
  have parts: "\<forall>z \<in> set zs. small z"
    if "push_max_args c (Suc d) = Inr todo" "small c" "flat_traverse ?f todo = Inr zs" for c todo zs
  proof
    fix z assume z: "z \<in> set zs"
    from flat_traverse_Inr [OF that(3)] obtain yss where
      yss: "list_all2 (\<lambda>x ys. ?f x = Inr ys) todo yss" "zs = concat yss" by blast
    with z obtain ys where ys: "ys \<in> set yss" "z \<in> set ys" by auto
    then obtain i where i: "i < length yss" "yss ! i = ys" by (auto simp: in_set_conv_nth)
    with yss(1) have fx: "?f (todo ! i) = Inr ys" "todo ! i \<in> set todo" by (auto simp: list_all2_conv_all_nth)
    then obtain na where na: "normalize (todo ! i) d = Inr na" "push_max_args na d = Inr ys"
      by (auto simp: andthen_eq_Inr_iff)
    have "sdepth (todo ! i) \<le> sdepth c" using push_max_args_lmax [OF that(1)] fx(2) by blast
    moreover from this have "sdepth na \<le> sdepth (todo ! i)"
      using normalize_sound [OF na(1)] that(2) by (auto simp: small_def)
    moreover have "sdepth z \<le> sdepth na" using push_max_args_lmax [OF na(2)] ys(2) by blast
    ultimately show "small z" using that(2) by (simp add: small_def)
  qed
  have "small a" "small b" using assms(3) by simp_all
  then have "\<forall>z \<in> set xa. small z" "\<forall>z \<in> set xb. small z"
    using parts t x by blast+
  then have sm: "\<forall>z \<in> set (xa @ xb). small z" "\<forall>z \<in> set (xb @ xa). small z" by auto
  have "mset s = mset s'" "ascending s" "ascending s'"
    using sort_by_sorted [OF s(1) sm(1)] sort_by_sorted [OF s'(1) sm(2)] by simp_all
  then have "s = s'" by (rule ascending_unique)
  with s(2) s'(2) show ?thesis by simp
qed

end
