(* ===== verification/Level_Properties.thy ===== *)
theory Level_Properties
  imports Level_Total "HOL-Library.Code_Target_Nat"
begin

text \<open>
  The properties of names and universe levels, each with a run of the model at concrete
  levels. The runs are evaluated by the simplifier with the code equations of the model.
\<close>

definition u :: level where "u = Param (Str Anonymous ''u'')"
definition v :: level where "v = Param (Str Anonymous ''v'')"

text \<open>C13: \<open>normalize\<close> returns a level that has the same value as its argument under every
  assignment of the parameters and metavariables (for a level whose offsets fit the \<open>u64\<close>
  counter of \<open>to_offset\<close>).\<close>

theorem normalize_preserves_meaning:
  "normalize l d = Inr r \<Longrightarrow> small l \<Longrightarrow> eval \<rho> \<mu> r = eval \<rho> \<mu> l"
  using normalize_sound by blast

lemma normalize_run: "normalize (Succ (Max u (Succ Zero))) 0 = Inr (Max (Succ (Succ Zero)) (Succ u))"
  by code_simp

theorem normalize_preserves_meaning_witness:
  "\<forall>\<rho> \<mu>. eval \<rho> \<mu> (Max (Succ (Succ Zero)) (Succ u)) = eval \<rho> \<mu> (Succ (Max u (Succ Zero)))"
  by (intro allI, rule normalize_preserves_meaning [OF normalize_run]) code_simp

text \<open>C24: \<open>normalize\<close> returns: the recursion guard does not fire on a level whose \<open>cost\<close> (its
  flattened width plus the height of one argument) fits in the depth that is left, and the
  normal form then needs no more room than the level itself.\<close>

theorem normalize_returns:
  "d + cost l < MAX_REC_DEPTH \<Longrightarrow> \<exists>r. normalize l d = Inr r \<and> cost r \<le> cost l"
  using normalize_total_aux [of d l] by (auto simp: cost_def)

theorem normalize_returns_witness:
  "\<exists>r. normalize (IMax (Max u v) (Succ u)) 7 = Inr r \<and> cost r \<le> cost (IMax (Max u v) (Succ u))"
  by (rule normalize_returns) code_simp

text \<open>\<open>is_equivalent\<close> is sound: when it answers true, the two levels have the same value
  under every assignment.\<close>

theorem is_equivalent_sound:
  "is_equivalent a b d = Inr True \<Longrightarrow> small a \<Longrightarrow> small b \<Longrightarrow> eval \<rho> \<mu> a = eval \<rho> \<mu> b"
  using normalize_sound [of a d _ \<rho> \<mu>] normalize_sound [of b d _ \<rho> \<mu>]
  by (auto simp: is_equivalent_def andthen_eq_Inr_iff split: if_splits dest!: structural_eq_sound)

theorem is_equivalent_sound_witness:
  "\<forall>\<rho> \<mu>. eval \<rho> \<mu> (Max (Max u v) (Succ u)) = eval \<rho> \<mu> (Max v (Succ u))"
  by (intro allI, rule is_equivalent_sound [of _ _ 0]; code_simp)

text \<open>On levels that leave enough depth \<open>is_equivalent\<close> always answers, and it answers true
  for two levels that differ by the order of a maximum's arguments.\<close>

theorem is_equivalent_commutes:
  assumes "d + cost (Max a b) < MAX_REC_DEPTH" and "small a" and "small b"
  shows "is_equivalent (Max a b) (Max b a) d = Inr True"
proof -
  have cost: "cost (Max b a) = cost (Max a b)" by (simp add: cost_def max.commute add.commute)
  from is_equivalent_total_aux [of d "Max a b" "Max b a"] assms(1) cost
  obtain r where r: "is_equivalent (Max a b) (Max b a) d = Inr r" by auto
  have d: "d < MAX_REC_DEPTH" using assms(1) by simp
  from r have "r" if "normalize (Max a b) d = Inr x" "normalize (Max b a) d = Inr y" for x y
    using that normalize_max_swap [of a b 0 "Suc d" x y] assms(2,3) d
    by (auto simp: is_equivalent_def andthen_eq_Inr_iff normalize.simps [of "Max _ _"] to_offset_def
        split: if_splits dest!: structural_eq_sound)
  moreover obtain x y where "normalize (Max a b) d = Inr x" "normalize (Max b a) d = Inr y"
    using normalize_total_aux [OF assms(1)] normalize_total_aux [of d "Max b a"] assms(1) cost by metis
  ultimately show ?thesis using r by auto
qed

text \<open>\<open>mk_max_pair\<close> means \<open>max\<close>: what it returns has the value of the plain \<open>Max\<close>,
  whichever of its shortcuts it takes, and it is one of the arguments or the plain \<open>Max\<close>.\<close>

theorem mk_max_pair_meaning:
  "mk_max_pair a b d = Inr r \<Longrightarrow> small a \<Longrightarrow> small b \<Longrightarrow>
     eval \<rho> \<mu> r = max (eval \<rho> \<mu> a) (eval \<rho> \<mu> b) \<and> r \<in> {a, b, Max a b}"
  using mk_max_pair_eval [of a b d r \<rho> \<mu>] mk_max_pair_cases [of a b d r] by auto

text \<open>\<open>mk_imax_pair\<close> means \<open>imax\<close>: what it returns is 0 where the second argument is 0 and
  the maximum elsewhere, also where it decides by \<open>is_never_zero\<close> to build a maximum.\<close>

theorem mk_imax_pair_meaning:
  "mk_imax_pair a b d = Inr r \<Longrightarrow> small a \<Longrightarrow> small b \<Longrightarrow>
     eval \<rho> \<mu> r = (if eval \<rho> \<mu> b = 0 then 0 else max (eval \<rho> \<mu> a) (eval \<rho> \<mu> b))"
  using mk_imax_pair_eval [of a b d r \<rho> \<mu>] by simp

text \<open>C26: \<open>instantiate_params\<close> is substitution: the value of its result is the value of the
  level under the assignment that gives each listed parameter the value of the argument
  \<open>zip\<close> pairs it with and leaves the others alone; the flag \<open>same\<close> is only set on an
  unchanged result.\<close>

theorem instantiate_params_meaning:
  assumes "instantiate_params l ps as d = Inr (r, same)"
    and "\<forall>a \<in> set as. sdepth a \<le> m" and "sdepth l + m \<le> u64_max"
  shows "eval \<rho> \<mu> r = eval (assign ps as \<rho> \<mu>) \<mu> l \<and> (same \<longrightarrow> r = l)"
  using instantiate_params_eval_sdepth [OF assms, of \<rho> \<mu>] instantiate_params_unchanged [of l ps as d r] assms(1)
  by auto

lemma instantiate_params_run:
  "instantiate_params (IMax u (Succ v)) [Str Anonymous ''v'', Str Anonymous ''u''] [Succ Zero, v] 0
     = Inr (Max v (Succ (Succ Zero)), False)"
  by code_simp

theorem instantiate_params_meaning_witness:
  "\<forall>\<rho> \<mu>. eval \<rho> \<mu> (Max v (Succ (Succ Zero))) =
     eval (assign [Str Anonymous ''v'', Str Anonymous ''u''] [Succ Zero, v] \<rho> \<mu>) \<mu> (IMax u (Succ v))"
  by (intro allI, rule instantiate_params_meaning [OF instantiate_params_run, of 1, THEN conjunct1]) code_simp+

lemma norm_cmp_eq:
  assumes "hgt a \<le> MAX_REC_DEPTH" and "hgt b \<le> MAX_REC_DEPTH" and "small a" and "small b"
  shows "norm_cmp a b 0 = Inr (if norm_lt a b then Less else if norm_lt b a then Greater else Equal)"
  using norm_cmp_total [of 0 a b] norm_cmp_sound [of a b 0] assms by auto

text \<open>The comparator that \<open>normalize_max\<close> hands to \<open>sort_by\<close> never fails where there is
  depth, and meets the contract of that function: it answers \<open>Equal\<close> for equal levels only,
  is antisymmetric and transitive.\<close>

theorem norm_cmp_total_order:
  assumes "\<forall>l \<in> {a, b, c}. hgt l \<le> MAX_REC_DEPTH \<and> small l"
  shows "(norm_cmp a b 0 = Inr Equal \<longleftrightarrow> a = b)
    \<and> (norm_cmp a b 0 = Inr Less \<longleftrightarrow> norm_cmp b a 0 = Inr Greater)
    \<and> (norm_cmp a b 0 = Inr Less \<longrightarrow> norm_cmp b c 0 = Inr Less \<longrightarrow> norm_cmp a c 0 = Inr Less)"
  using assms norm_lt_asym [of a b] norm_lt_total [of a b] norm_lt_trans [of a b c]
  by (auto simp: norm_cmp_eq split: if_splits)

theorem norm_cmp_total_order_witness:
  "(norm_cmp u v 0 = Inr Equal \<longleftrightarrow> u = v) \<and> (norm_cmp u v 0 = Inr Less \<longleftrightarrow> norm_cmp v u 0 = Inr Greater)
    \<and> norm_cmp u (Succ v) 0 = Inr Less"
proof -
  have "\<forall>l \<in> {u, v, Succ v}. hgt l \<le> MAX_REC_DEPTH \<and> small l" by code_simp
  moreover have "norm_cmp u v 0 = Inr Less" "norm_cmp v (Succ v) 0 = Inr Less" by code_simp+
  ultimately show ?thesis using norm_cmp_total_order [of u v "Succ v"] by blast
qed

text \<open>\<open>structural_eq\<close> decides equality of levels: it errs with \<open>DeepRecursion\<close> only, never
  answers wrongly, and answers whenever the first level's height fits in the depth left.\<close>

theorem structural_eq_decides:
  "case structural_eq a b d of Inr r \<Rightarrow> r = (a = b)
     | Inl e \<Rightarrow> e = DeepRecursion \<and> MAX_REC_DEPTH < d + hgt a"
proof (cases "structural_eq a b d")
  case (Inl e)
  with structural_eq_error [OF this] structural_eq_total [of d a b] show ?thesis
    by (cases "d + hgt a \<le> MAX_REC_DEPTH") auto
next
  case (Inr r)
  with structural_eq_sound [OF this] show ?thesis by simp
qed

text \<open>\<open>name_cmp\<close> is a total order on names whose \<open>Equal\<close> is equality.\<close>

theorem name_cmp_total_order:
  "(name_cmp a b = Equal \<longleftrightarrow> a = b) \<and> (name_cmp a b = Less \<longleftrightarrow> name_cmp b a = Greater)
   \<and> (name_cmp a b = Less \<and> name_cmp b c = Less \<longrightarrow> name_cmp a c = Less)"
  using name_cmp_flip [of a b] name_cmp_trans [of a b c] by auto

end
