(* ===== verification/Probe.thy ===== *)
theory Probe
  imports Prelude "HOL-Library.Multiset"
begin

text \<open>
  The open-addressing id table of \<open>crates/leanr_kernel/src/bank/probe.rs\<close>: a power-of-two
  array of id bits (0 marks an empty slot), probed at triangular distances. \<open>len\<close> and the
  slot positions are naturals: a table holds at most \<open>2 ^ 32\<close> ids, far below \<open>usize\<close>.
  The probing loop of \<open>place\<close> has no bound in the source and is a partial function here.
\<close>

record id_table =
  slots :: "u32 list"
  len :: nat

definition id_table_new :: id_table where
  "id_table_new = \<lparr>slots = replicate 16 0, len = 0\<rparr>"

definition probe_start :: "u32 list \<Rightarrow> u64 \<Rightarrow> nat" where
  "probe_start sl hash = unat (hash XOR drop_bit 32 hash) AND (length sl - 1)"

function lookup_loop :: "u32 list \<Rightarrow> (u32 \<Rightarrow> bool result) \<Rightarrow> nat \<Rightarrow> nat \<Rightarrow> u32 option result" where
  "lookup_loop sl eq i step =
     andthen (expect (get_index sl i)) (\<lambda>bits.
       if bits = 0 then Inr None
       else andthen (eq bits) (\<lambda>hit.
         if hit then Inr (Some bits)
         else if step + 1 > length sl then Inr None
         else lookup_loop sl eq ((i + (step + 1)) AND (length sl - 1)) (step + 1)))"
  by pat_completeness auto
termination
  by (relation "measure (\<lambda>(sl, eq, i, step). length sl - step)") auto

declare lookup_loop.simps [simp del]

definition lookup :: "id_table \<Rightarrow> u64 \<Rightarrow> (u32 \<Rightarrow> bool result) \<Rightarrow> u32 option result" where
  "lookup t hash eq = lookup_loop (slots t) eq (probe_start (slots t) hash) 0"

partial_function (option) free_slot :: "u32 list \<Rightarrow> nat \<Rightarrow> nat \<Rightarrow> nat result option" where
  "free_slot sl i step =
     (case get_index sl i of
        None \<Rightarrow> Some (Inl Panic)
      | Some b \<Rightarrow>
          if b \<noteq> 0 then free_slot sl ((i + (step + 1)) AND (length sl - 1)) (step + 1)
          else Some (Inr i))"

declare free_slot.simps [code]

definition place :: "u32 list \<Rightarrow> u64 \<Rightarrow> u32 \<Rightarrow> u32 list result" where
  "place sl hash bits =
     andthen (loop_result (free_slot sl (probe_start sl hash) 0)) (\<lambda>i. Inr (sl[i := bits]))"

text \<open>The loop of \<open>insert\<close> that moves the old entries into the grown array.\<close>

fun replace_all :: "u32 list \<Rightarrow> (u32 \<Rightarrow> u64 result) \<Rightarrow> u32 list \<Rightarrow> u32 list result" where
  "replace_all [] rehash sl = Inr sl"
| "replace_all (b # old) rehash sl =
     (if b \<noteq> 0
      then andthen (rehash b) (\<lambda>h. andthen (place sl h b) (\<lambda>sl. replace_all old rehash sl))
      else replace_all old rehash sl)"

definition insert_bits :: "id_table \<Rightarrow> u64 \<Rightarrow> u32 \<Rightarrow> (u32 \<Rightarrow> u64 result) \<Rightarrow> id_table result" where
  "insert_bits t hash bits rehash =
     andthen
       (if (len t + 1) * 2 > length (slots t)
        then replace_all (slots t) rehash (replicate (length (slots t) * 2) 0)
        else Inr (slots t))
       (\<lambda>sl. andthen (place sl hash bits) (\<lambda>sl. Inr \<lparr>slots = sl, len = len t + 1\<rparr>))"

section \<open>Triangular probing visits every slot\<close>

definition probe :: "nat \<Rightarrow> nat \<Rightarrow> nat \<Rightarrow> nat" where
  "probe n start step = (start + step * (step + 1) div 2) mod n"

lemma probe_less [simp]: "0 < n \<Longrightarrow> probe n start step < n"
  by (simp add: probe_def)

lemma and_mask: "(i::nat) AND (2 ^ k - 1) = i mod 2 ^ k"
  by (metis mask_eq_exp_minus_1 take_bit_eq_mask take_bit_eq_mod)

lemma probe_step:
  "n = 2 ^ k \<Longrightarrow> (probe n start step + (step + 1)) AND (n - 1) = probe n start (step + 1)"
proof -
  have "(step + 1) * (step + 1 + 1) = step * (step + 1) + 2 * (step + 1)" by (simp add: algebra_simps)
  then have "(step + 1) * (step + 1 + 1) div 2 = step * (step + 1) div 2 + (step + 1)"
    by (metis add.commute div_mult_self2 zero_neq_numeral)
  moreover assume "n = 2 ^ k"
  ultimately show ?thesis
    unfolding probe_def by (simp only: and_mask mod_simps add.assoc)
qed

lemma probe_start_eq: "length sl = 2 ^ k \<Longrightarrow> probe_start sl h = probe (length sl) (probe_start sl h) 0"
  by (simp add: probe_start_def probe_def and_mask del: One_nat_def)

lemma triangle_inj:
  fixes s t k :: nat
  assumes "s < t" and "t < 2 ^ k"
  shows "s * (s + 1) div 2 mod 2 ^ k \<noteq> t * (t + 1) div 2 mod 2 ^ k"
proof
  let ?S = "s * (s + 1) div 2" and ?T = "t * (t + 1) div 2"
  have dbl: "2 * ?S = s * (s + 1)" "2 * ?T = t * (t + 1)" by simp_all
  have le: "?S \<le> ?T" using assms(1) by (intro div_le_mono mult_le_mono) auto
  assume "?S mod 2 ^ k = ?T mod 2 ^ k"
  then have "2 ^ k dvd ?T - ?S" using le by (metis mod_eq_dvd_iff_nat)
  then have "2 ^ Suc k dvd 2 * (?T - ?S)" by simp
  also have "2 * (?T - ?S) = (t - s) * (t + s + 1)"
  proof -
    obtain r where "t = s + r" using assms(1) less_imp_add_positive by blast
    then show ?thesis unfolding diff_mult_distrib2 dbl by (simp add: algebra_simps)
  qed
  finally have dvd: "2 ^ Suc k dvd (t - s) * (t + s + 1)" .
  show False
  proof (cases "even (t - s)")
    case True
    then have "odd (t + s + 1)" using assms(1) by auto
    then have "coprime (2 ^ Suc k) (t + s + 1)" by simp
    with dvd have "2 ^ Suc k dvd t - s" using coprime_dvd_mult_left_iff by blast
    then show False using assms by (auto dest!: dvd_imp_le)
  next
    case False
    then have "coprime (2 ^ Suc k) (t - s)" by simp
    with dvd have "2 ^ Suc k dvd t + s + 1" using coprime_dvd_mult_right_iff by blast
    then show False using assms by (auto dest!: dvd_imp_le)
  qed
qed

lemma mod_add_left_cancel:
  fixes a x y n :: nat
  assumes "x \<le> y" and "(a + x) mod n = (a + y) mod n"
  shows "x mod n = y mod n"
  using assms mod_eq_dvd_iff_nat [of "a + x" "a + y" n] mod_eq_dvd_iff_nat [of x y n] by simp

lemma probe_inj: "inj_on (probe (2 ^ k) start) {..<2 ^ k}"
proof (rule linorder_inj_onI')
  fix s t :: nat
  assume "s \<in> {..<2 ^ k}" "t \<in> {..<2 ^ k}" "s < t"
  then have "s * (s + 1) div 2 mod 2 ^ k \<noteq> t * (t + 1) div 2 mod 2 ^ k" by (intro triangle_inj) auto
  then show "probe (2 ^ k) start s \<noteq> probe (2 ^ k) start t"
    unfolding probe_def using mod_add_left_cancel
    by (metis less_imp_le div_le_mono mult_le_mono add_le_mono1 \<open>s < t\<close>)
qed

lemma probe_visits_all:
  assumes "i < 2 ^ k" shows "\<exists>step < 2 ^ k. probe (2 ^ k) start step = i"
proof -
  have "probe (2 ^ k) start ` {..<2 ^ k} = {..<2 ^ k}"
    using probe_inj by (intro card_subset_eq) (auto simp: card_image)
  with assms have "i \<in> probe (2 ^ k) start ` {..<2 ^ k}" by simp
  then show ?thesis by auto
qed

section \<open>The table as a set of entries\<close>

text \<open>
  \<open>slots_ok sl h K\<close>: the array holds each id of \<open>K\<close> once and nothing else, and the probing
  chain of each id's hash reaches it before an empty slot.
\<close>

definition chained :: "u32 list \<Rightarrow> u64 \<Rightarrow> nat \<Rightarrow> bool" where
  "chained sl hash n \<longleftrightarrow> n < length sl \<and>
     (\<forall>j < n. sl ! probe (length sl) (probe_start sl hash) j \<noteq> 0)"

definition chain_slot :: "u32 list \<Rightarrow> u64 \<Rightarrow> nat \<Rightarrow> nat" where
  "chain_slot sl hash n = probe (length sl) (probe_start sl hash) n"

definition slots_ok :: "u32 list \<Rightarrow> (u32 \<Rightarrow> u64) \<Rightarrow> u32 set \<Rightarrow> bool" where
  "slots_ok sl h K \<longleftrightarrow> (\<exists>k. length sl = 2 ^ k) \<and> 0 \<notin> K \<and> set sl - {0} = K
     \<and> distinct (filter (\<lambda>b. b \<noteq> 0) sl)
     \<and> (\<forall>b \<in> K. \<exists>n. chained sl (h b) n \<and> sl ! chain_slot sl (h b) n = b)"

definition table_ok :: "id_table \<Rightarrow> (u32 \<Rightarrow> u64) \<Rightarrow> u32 set \<Rightarrow> bool" where
  "table_ok t h K \<longleftrightarrow> slots_ok (slots t) h K \<and> 16 \<le> length (slots t)
     \<and> len t = card K \<and> 2 * len t \<le> length (slots t)"

lemma slots_ok_cong: "(\<And>b. b \<in> K \<Longrightarrow> h b = h' b) \<Longrightarrow> slots_ok sl h K = slots_ok sl h' K"
  by (simp add: slots_ok_def)

lemma table_ok_cong: "(\<And>b. b \<in> K \<Longrightarrow> h b = h' b) \<Longrightarrow> table_ok t h K = table_ok t h' K"
  using slots_ok_cong [of K h h' "slots t"] by (simp add: table_ok_def)

lemma slots_ok_replicate: "slots_ok (replicate (2 ^ k) 0) h {}"
  by (auto simp: slots_ok_def)

lemma table_ok_new [simp]: "table_ok id_table_new h {}"
  using slots_ok_replicate [of 4 h] by (simp add: table_ok_def id_table_new_def)

lemma slots_ok_card: "slots_ok sl h K \<Longrightarrow> card K = length (filter (\<lambda>b. b \<noteq> 0) sl)"
  using distinct_card [of "filter (\<lambda>b. b \<noteq> 0) sl"] by (auto simp: slots_ok_def set_diff_eq)

lemma chain_slot_less: "sl \<noteq> [] \<Longrightarrow> chain_slot sl hash n < length sl"
  by (simp add: chain_slot_def)

text \<open>A table that is not full has an empty slot on every chain.\<close>

lemma free_chain:
  assumes "slots_ok sl h K" and "card K < length sl"
  obtains n where "chained sl hash n" and "sl ! chain_slot sl hash n = 0"
proof -
  from assms(1) obtain k where k: "length sl = 2 ^ k" by (auto simp: slots_ok_def)
  have "0 \<in> set sl"
  proof (rule ccontr)
    assume "0 \<notin> set sl"
    then have "filter (\<lambda>b. b \<noteq> 0) sl = sl" by (auto intro!: filter_True)
    with assms slots_ok_card show False by fastforce
  qed
  then obtain i where "i < length sl" "sl ! i = 0" by (auto simp: in_set_conv_nth)
  with probe_visits_all [of i k "probe_start sl hash"] k
  have ex: "\<exists>n. n < length sl \<and> sl ! chain_slot sl hash n = 0"
    by (auto simp: chain_slot_def)
  then obtain n where n: "n < length sl" "sl ! chain_slot sl hash n = 0"
    and least: "\<forall>j < n. \<not> (j < length sl \<and> sl ! chain_slot sl hash j = 0)"
    unfolding exists_least_iff [of "\<lambda>n. n < length sl \<and> sl ! chain_slot sl hash n = 0"] by blast
  have "chained sl hash n"
    unfolding chained_def chain_slot_def [symmetric] using n(1) least by (metis order.strict_trans)
  with n(2) show thesis using that by blast
qed

section \<open>Lookup\<close>

lemma lookup_loop_step:
  assumes "length sl = 2 ^ k" and "n < length sl"
  shows "lookup_loop sl eq (chain_slot sl hash n) n =
    (let bits = sl ! chain_slot sl hash n in
      if bits = 0 then Inr None
      else andthen (eq bits) (\<lambda>hit.
        if hit then Inr (Some bits)
        else if n + 1 > length sl then Inr None
        else lookup_loop sl eq (chain_slot sl hash (n + 1)) (n + 1)))"
proof -
  have ne: "sl \<noteq> []" using assms(2) by auto
  have next_slot: "(chain_slot sl hash n + (n + 1)) AND (length sl - 1) = chain_slot sl hash (n + 1)"
    unfolding chain_slot_def using assms(1) by (rule probe_step)
  show ?thesis
    by (subst lookup_loop.simps) (simp only: Let_def get_index_less [OF chain_slot_less [OF ne]] expect_simps
        andthen_Inr next_slot)
qed

lemma lookup_unfold:
  "length (slots t) = 2 ^ k \<Longrightarrow> lookup t hash eq = lookup_loop (slots t) eq (chain_slot (slots t) hash 0) 0"
  using probe_start_eq [of "slots t" k hash] by (simp add: lookup_def chain_slot_def)

lemma lookup_loop_found:
  assumes "length sl = 2 ^ k" and "m \<le> n" and "chained sl hash n"
    and "sl ! chain_slot sl hash n = b" and "b \<noteq> 0"
    and "\<And>c. c \<in> set sl \<Longrightarrow> c \<noteq> 0 \<Longrightarrow> eq c = Inr (c = b)"
  shows "lookup_loop sl eq (chain_slot sl hash m) m = Inr (Some b)"
  using assms(2)
proof (induction m rule: inc_induct)
  case base
  have "n < length sl" using assms(3) by (simp add: chained_def)
  moreover from this have "b \<in> set sl" using assms(4) chain_slot_less by (metis length_pos_if_in_set list.size(3) not_less_zero nth_mem)
  ultimately show ?case using assms by (simp add: lookup_loop_step)
next
  case (step m)
  let ?c = "sl ! chain_slot sl hash m"
  have m: "m < length sl" "?c \<noteq> 0" using step assms(3) by (auto simp: chained_def chain_slot_def)
  then have "?c \<in> set sl" using chain_slot_less by (metis list.size(3) not_less_zero nth_mem)
  then have "eq ?c = Inr (?c = b)" using assms(6) m(2) by blast
  with m step.IH show ?case
    by (subst lookup_loop_step [OF assms(1) m(1)]) (simp add: Let_def)
qed

lemma lookup_loop_absent:
  assumes "length sl = 2 ^ k" and "n \<le> length sl"
    and "\<And>c. c \<in> set sl \<Longrightarrow> c \<noteq> 0 \<Longrightarrow> eq c = Inr False"
  shows "lookup_loop sl eq (chain_slot sl hash n) n = Inr None"
  using assms(2)
proof (induction n rule: inc_induct)
  case base
  have ne: "sl \<noteq> []" using assms(1) by auto
  let ?c = "sl ! chain_slot sl hash (length sl)"
  have "?c \<in> set sl" using chain_slot_less [OF ne] nth_mem by blast
  then have "?c \<noteq> 0 \<Longrightarrow> eq ?c = Inr False" using assms(3) by blast
  then show ?case
    using get_index_less [OF chain_slot_less [OF ne, of hash "length sl"]] by (subst lookup_loop.simps) simp
next
  case (step n)
  have ne: "sl \<noteq> []" using assms(1) by auto
  let ?c = "sl ! chain_slot sl hash n"
  have "?c \<in> set sl" using chain_slot_less [OF ne] nth_mem by blast
  then have "?c \<noteq> 0 \<Longrightarrow> eq ?c = Inr False" using assms(3) by blast
  with step show ?case by (subst lookup_loop_step [OF assms(1) step.hyps(2)]) (simp add: Let_def)
qed

lemma set_slots: "slots_ok sl h K \<Longrightarrow> c \<noteq> 0 \<Longrightarrow> c \<in> set sl \<longleftrightarrow> c \<in> K"
  by (auto simp: slots_ok_def)

lemma table_lookup_found:
  assumes "table_ok t h K" and "b \<in> K" and "\<And>c. c \<in> K \<Longrightarrow> eq c = Inr (c = b)"
  shows "lookup t (h b) eq = Inr (Some b)"
proof -
  from assms(1) have ok: "slots_ok (slots t) h K" by (simp add: table_ok_def)
  then obtain k where k: "length (slots t) = 2 ^ k" by (auto simp: slots_ok_def)
  from ok assms(2) obtain n where n: "chained (slots t) (h b) n" "slots t ! chain_slot (slots t) (h b) n = b"
    by (auto simp: slots_ok_def)
  have "b \<noteq> 0" using ok assms(2) by (auto simp: slots_ok_def)
  from lookup_loop_found [OF k _ n this, of 0] assms(3) set_slots [OF ok] show ?thesis
    by (simp add: lookup_unfold [OF k])
qed

lemma table_lookup_absent:
  assumes "table_ok t h K" and "\<And>c. c \<in> K \<Longrightarrow> eq c = Inr False"
  shows "lookup t hash eq = Inr None"
proof -
  from assms(1) have ok: "slots_ok (slots t) h K" by (simp add: table_ok_def)
  then obtain k where k: "length (slots t) = 2 ^ k" by (auto simp: slots_ok_def)
  from lookup_loop_absent [OF k, of 0] assms(2) set_slots [OF ok] show ?thesis
    by (simp add: lookup_unfold [OF k])
qed

section \<open>Insertion\<close>

lemma free_slot_found:
  assumes "length sl = 2 ^ k" and "m \<le> n" and "chained sl hash n" and "sl ! chain_slot sl hash n = 0"
  shows "free_slot sl (chain_slot sl hash m) m = Some (Inr (chain_slot sl hash n))"
  using assms(2)
proof (induction m rule: inc_induct)
  case base
  have "sl \<noteq> []" using assms(3) by (auto simp: chained_def)
  then show ?case using assms(4) by (subst free_slot.simps) (simp add: chain_slot_less)
next
  case (step m)
  have ne: "sl \<noteq> []" using assms(3) by (auto simp: chained_def)
  have "sl ! chain_slot sl hash m \<noteq> 0" using step(2) assms(3) by (auto simp: chained_def chain_slot_def)
  moreover have "(chain_slot sl hash m + (m + 1)) AND (length sl - 1) = chain_slot sl hash (m + 1)"
    unfolding chain_slot_def using assms(1) by (rule probe_step)
  ultimately show ?case
    using step.IH get_index_less [OF chain_slot_less [OF ne, of hash m]] by (subst free_slot.simps) simp
qed

lemma filter_list_update:
  "i < length xs \<Longrightarrow> xs ! i = 0 \<Longrightarrow> b \<noteq> 0 \<Longrightarrow>
     mset (filter (\<lambda>b. b \<noteq> 0) (xs[i := b])) = add_mset b (mset (filter (\<lambda>b. b \<noteq> (0::u32)) xs))"
proof (induction xs arbitrary: i)
  case (Cons x xs)
  then show ?case by (cases i) auto
qed simp

lemma place_ok:
  assumes ok: "slots_ok sl h K" and room: "card K < length sl" and b: "b \<notin> K" "b \<noteq> 0"
  shows "\<exists>sl'. place sl (h b) b = Inr sl' \<and> slots_ok sl' h (insert b K) \<and> length sl' = length sl"
proof -
  from ok obtain k where k: "length sl = 2 ^ k" by (auto simp: slots_ok_def)
  from free_chain [OF ok room] obtain n where n: "chained sl (h b) n" "sl ! chain_slot sl (h b) n = 0" .
  let ?i = "chain_slot sl (h b) n" and ?sl = "sl[chain_slot sl (h b) n := b]"
  have i: "?i < length sl" using n(1) by (intro chain_slot_less) (auto simp: chained_def)
  have "place sl (h b) b = Inr ?sl"
    using free_slot_found [OF k _ n, of 0] probe_start_eq [OF k, of "h b"]
    by (simp add: place_def chain_slot_def)
  moreover have "slots_ok ?sl h (insert b K)"
    unfolding slots_ok_def
  proof (intro conjI ballI)
    show "\<exists>k. length ?sl = 2 ^ k" using k by auto
    show "0 \<notin> insert b K" using ok b by (auto simp: slots_ok_def)
    have m: "mset (filter (\<lambda>b. b \<noteq> 0) ?sl) = add_mset b (mset (filter (\<lambda>b. b \<noteq> 0) sl))"
      using i n(2) b(2) by (rule filter_list_update)
    then have "set (filter (\<lambda>b. b \<noteq> 0) ?sl) = insert b (set (filter (\<lambda>b. b \<noteq> 0) sl))"
      by (metis set_mset_add_mset_insert set_mset_mset)
    then show "set ?sl - {0} = insert b K"
      using ok by (auto simp: slots_ok_def set_eq_iff)
    have "distinct (b # filter (\<lambda>b. b \<noteq> 0) sl)" using ok b(1) by (auto simp: slots_ok_def)
    then show "distinct (filter (\<lambda>b. b \<noteq> 0) ?sl)"
      using mset_eq_imp_distinct_iff [of "filter (\<lambda>b. b \<noteq> 0) ?sl" "b # filter (\<lambda>b. b \<noteq> 0) sl"] m
      by simp
  next
    fix c assume "c \<in> insert b K"
    have keep: "chained ?sl hash j" if "chained sl hash j" for hash j
      using that b(2) i nth_list_update_eq [OF i, of b] nth_list_update_neq [of ?i _ sl b]
      unfolding chained_def probe_start_def by (metis length_list_update)
    have same: "chain_slot ?sl hash j = chain_slot sl hash j" for hash j
      by (simp add: chain_slot_def probe_start_def)
    show "\<exists>n. chained ?sl (h c) n \<and> ?sl ! chain_slot ?sl (h c) n = c"
    proof (cases "c = b")
      case True
      with keep [OF n(1)] same i show ?thesis by auto
    next
      case False
      with \<open>c \<in> insert b K\<close> ok obtain j where j: "chained sl (h c) j" "sl ! chain_slot sl (h c) j = c"
        by (auto simp: slots_ok_def)
      have "c \<noteq> 0" using False \<open>c \<in> insert b K\<close> ok by (auto simp: slots_ok_def)
      then have "chain_slot sl (h c) j \<noteq> ?i" using j(2) n(2) by auto
      with keep [OF j(1)] j(2) same show ?thesis by (metis nth_list_update_neq)
    qed
  qed
  ultimately show ?thesis by simp
qed

lemma replace_all_ok:
  assumes "slots_ok sl h K" and "distinct (filter (\<lambda>b. b \<noteq> 0) old)"
    and "K \<inter> set old = {}" and "card K + length old \<le> length sl"
    and "\<And>b. b \<in> set old \<Longrightarrow> b \<noteq> 0 \<Longrightarrow> rehash b = Inr (h b)"
  shows "\<exists>sl'. replace_all old rehash sl = Inr sl' \<and> slots_ok sl' h (K \<union> (set old - {0}))
    \<and> length sl' = length sl"
  using assms
proof (induction old arbitrary: sl K)
  case (Cons b old)
  show ?case
  proof (cases "b = 0")
    case True
    then have "K \<union> (set (b # old) - {0}) = K \<union> (set old - {0})" by auto
    with Cons.IH [of sl K] Cons.prems True show ?thesis by simp
  next
    case False
    with Cons.prems have b: "b \<notin> K" "card K < length sl" "b \<notin> set old" by auto
    from place_ok [OF Cons.prems(1) b(2,1) False] obtain sl' where
      sl': "place sl (h b) b = Inr sl'" "slots_ok sl' h (insert b K)" "length sl' = length sl" by auto
    have "K = set sl - {0}" using Cons.prems(1) by (simp add: slots_ok_def)
    then have "card (insert b K) + length old \<le> length sl'"
      using Cons.prems(4) sl'(3) b(1) by simp
    with Cons.IH [OF sl'(2)] Cons.prems b False obtain sl'' where
      "replace_all old rehash sl' = Inr sl''" "slots_ok sl'' h (insert b K \<union> (set old - {0}))"
      "length sl'' = length sl'" by auto
    moreover have "insert b K \<union> (set old - {0}) = K \<union> (set (b # old) - {0})" using False by auto
    ultimately show ?thesis using sl' False Cons.prems(5) by simp
  qed
qed simp

text \<open>Inserting an absent id succeeds, keeps the table's invariant and adds just that id.\<close>

lemma insert_bits_ok:
  assumes ok: "table_ok t h K" and b: "b \<notin> K" "b \<noteq> 0" and rehash: "\<And>c. c \<in> K \<Longrightarrow> rehash c = Inr (h c)"
  shows "\<exists>t'. insert_bits t (h b) b rehash = Inr t' \<and> table_ok t' h (insert b K)"
proof -
  let ?sl = "slots t" and ?n = "length (slots t)"
  from ok have sl: "slots_ok ?sl h K" "16 \<le> ?n" "len t = card K" "2 * card K \<le> ?n"
    by (auto simp: table_ok_def)
  then have fin: "finite K" and K: "K = set ?sl - {0}" by (auto simp: slots_ok_def)
  have grown: "\<exists>sl. (if (len t + 1) * 2 > ?n then replace_all ?sl rehash (replicate (?n * 2) 0) else Inr ?sl) = Inr sl
      \<and> slots_ok sl h K \<and> 2 * (card K + 1) \<le> length sl \<and> 16 \<le> length sl"
  proof (cases "(len t + 1) * 2 > ?n")
    case True
    from sl(1) obtain k where "?n = 2 ^ k" by (auto simp: slots_ok_def)
    then have "slots_ok (replicate (?n * 2) 0) h {}" using slots_ok_replicate [of "Suc k" h] by (simp add: mult.commute)
    moreover have "distinct (filter (\<lambda>b. b \<noteq> 0) ?sl)" using sl(1) by (simp add: slots_ok_def)
    moreover have "rehash c = Inr (h c)" if "c \<in> set ?sl" "c \<noteq> 0" for c using that rehash K by simp
    ultimately obtain sl' where "replace_all ?sl rehash (replicate (?n * 2) 0) = Inr sl'"
      "slots_ok sl' h ({} \<union> (set ?sl - {0}))" "length sl' = ?n * 2"
      using replace_all_ok [of "replicate (?n * 2) 0" h "{}" ?sl rehash] by auto
    moreover have "2 * (card K + 1) \<le> ?n * 2" using sl(2,4) by auto
    ultimately show ?thesis using True sl(2) K by auto
  next
    case False
    with sl show ?thesis by auto
  qed
  then obtain sl' where sl': "(if (len t + 1) * 2 > ?n then replace_all ?sl rehash (replicate (?n * 2) 0) else Inr ?sl) = Inr sl'"
    "slots_ok sl' h K" "2 * (card K + 1) \<le> length sl'" "16 \<le> length sl'" by auto
  have "card K < length sl'" using sl'(3) by auto
  from place_ok [OF sl'(2) this b] obtain sl'' where
    "place sl' (h b) b = Inr sl''" "slots_ok sl'' h (insert b K)" "length sl'' = length sl'" by auto
  with sl' sl(3) b(1) fin show ?thesis by (simp add: insert_bits_def table_ok_def)
qed

end
