(* ===== verification/ExprData.thy ===== *)
theory ExprData
  imports Prelude
begin

text \<open>
  The word that is cached with every expression (\<open>ExprData\<close>, \<open>crates/leanr_kernel/src/expr.rs\<close>)
  and the packed tag byte of a bank row (\<open>bank/terms.rs\<close>): their bit layouts, accessors, and
  how a parent's word is computed from its children's. A \<open>Nat\<close> (a \<open>num_bigint::BigUint\<close>) is
  a natural number; \<open>to_u64_digits\<close> is its documented little-endian digit list.
\<close>

section \<open>Hash mixing and big naturals\<close>

text \<open>\<open>h ^= h >> 33\<close>, a function of its own so that evaluation shares \<open>h\<close>.\<close>

definition xor_shift :: "u64 \<Rightarrow> u64" where
  "xor_shift h = h XOR drop_bit 33 h"

definition mix :: "u64 \<Rightarrow> u64 \<Rightarrow> u64" where
  "mix a b =
     xor_shift (xor_shift (xor_shift (a XOR (b * 0x9E3779B97F4A7C15)) * 0xFF51AFD7ED558CCD)
       * 0xC4CEB9FE1A85EC53)"

definition TAG_CONST :: u64 where "TAG_CONST = 5"
definition TAG_BVAR :: u64 where "TAG_BVAR = 7"
definition TAG_SORT :: u64 where "TAG_SORT = 11"
definition TAG_FVAR :: u64 where "TAG_FVAR = 13"
definition TAG_MVAR :: u64 where "TAG_MVAR = 17"
definition TAG_LIT :: u64 where "TAG_LIT = 3"

fun to_u64_digits :: "nat \<Rightarrow> u64 list" where
  "to_u64_digits n = (if n = 0 then [] else of_nat n # to_u64_digits (n div 2 ^ 64))"

declare to_u64_digits.simps [simp del]

definition first_or_0 :: "u64 list \<Rightarrow> u64" where
  "first_or_0 ds = (case ds of [] \<Rightarrow> 0 | d # _ \<Rightarrow> d)"

definition nat_lossy_u64 :: "nat \<Rightarrow> u64" where
  "nat_lossy_u64 n = first_or_0 (to_u64_digits n)"

text \<open>\<open>u64::checked_add\<close> and \<open>u32::try_from\<close>.\<close>

definition checked_add64 :: "u64 \<Rightarrow> u64 \<Rightarrow> u64 option" where
  "checked_add64 a b = (if unat a + unat b < 2 ^ 64 then Some (a + b) else None)"

definition u32_try_from :: "nat \<Rightarrow> u32 option" where
  "u32_try_from n = (if n < 2 ^ 32 then Some (of_nat n) else None)"

definition nat_as_u32 :: "nat \<Rightarrow> u32 option" where
  "nat_as_u32 n =
     (case to_u64_digits n of
        [] \<Rightarrow> Some 0
      | [d] \<Rightarrow> u32_try_from (unat d)
      | _ \<Rightarrow> None)"

section \<open>The data word\<close>

definition LOOSE_BVAR_SAT :: u32 where
  "LOOSE_BVAR_SAT = push_bit 20 1 - 1"

definition HASH_SHIFT :: nat where "HASH_SHIFT = 0"
definition DEPTH_SHIFT :: nat where "DEPTH_SHIFT = 32"
definition HAS_FVAR_BIT :: nat where "HAS_FVAR_BIT = 40"
definition HAS_EXPR_MVAR_BIT :: nat where "HAS_EXPR_MVAR_BIT = 41"
definition HAS_LEVEL_MVAR_BIT :: nat where "HAS_LEVEL_MVAR_BIT = 42"
definition HAS_LEVEL_PARAM_BIT :: nat where "HAS_LEVEL_PARAM_BIT = 43"
definition RANGE_SHIFT :: nat where "RANGE_SHIFT = 44"

lemmas shift_defs = HASH_SHIFT_def DEPTH_SHIFT_def HAS_FVAR_BIT_def HAS_EXPR_MVAR_BIT_def
  HAS_LEVEL_MVAR_BIT_def HAS_LEVEL_PARAM_BIT_def RANGE_SHIFT_def

text \<open>\<open>if b { word |= 1 << n }\<close>.\<close>

definition set_flag :: "bool \<Rightarrow> nat \<Rightarrow> u64 \<Rightarrow> u64" where
  "set_flag b n word = (if b then word OR push_bit n 1 else word)"

definition pack :: "u64 \<Rightarrow> u32 \<Rightarrow> u8 \<Rightarrow> bool \<Rightarrow> bool \<Rightarrow> bool \<Rightarrow> bool \<Rightarrow> u64" where
  "pack hash64 loose_bvar_range approx_depth has_fvar has_expr_mvar has_level_mvar has_level_param =
     (let rng = min loose_bvar_range LOOSE_BVAR_SAT;
          hash32 = (ucast (hash64 AND 0xFFFFFFFF) :: u32);
          word = push_bit HASH_SHIFT (ucast hash32);
          word = word OR push_bit DEPTH_SHIFT (ucast approx_depth);
          word = set_flag has_fvar HAS_FVAR_BIT word;
          word = set_flag has_expr_mvar HAS_EXPR_MVAR_BIT word;
          word = set_flag has_level_mvar HAS_LEVEL_MVAR_BIT word;
          word = set_flag has_level_param HAS_LEVEL_PARAM_BIT word
      in word OR push_bit RANGE_SHIFT (ucast rng))"

definition d_hash :: "u64 \<Rightarrow> u32" where
  "d_hash w = ucast (drop_bit HASH_SHIFT w)"

definition d_approx_depth :: "u64 \<Rightarrow> u8" where
  "d_approx_depth w = ucast (drop_bit DEPTH_SHIFT w AND 0xFF)"

definition d_loose_bvar_range :: "u64 \<Rightarrow> u32" where
  "d_loose_bvar_range w = ucast (drop_bit RANGE_SHIFT w)"

definition d_loose_bvar_range_exact :: "u64 \<Rightarrow> u32 option" where
  "d_loose_bvar_range_exact w =
     (let r = d_loose_bvar_range w in if r < LOOSE_BVAR_SAT then Some r else None)"

definition d_has_fvar :: "u64 \<Rightarrow> bool" where
  "d_has_fvar w \<longleftrightarrow> drop_bit HAS_FVAR_BIT w AND 1 = 1"

definition d_has_expr_mvar :: "u64 \<Rightarrow> bool" where
  "d_has_expr_mvar w \<longleftrightarrow> drop_bit HAS_EXPR_MVAR_BIT w AND 1 = 1"

definition d_has_level_mvar :: "u64 \<Rightarrow> bool" where
  "d_has_level_mvar w \<longleftrightarrow> drop_bit HAS_LEVEL_MVAR_BIT w AND 1 = 1"

definition d_has_level_param :: "u64 \<Rightarrow> bool" where
  "d_has_level_param w \<longleftrightarrow> drop_bit HAS_LEVEL_PARAM_BIT w AND 1 = 1"

section \<open>Words of leaves and of parents\<close>

definition bvar_loose_range :: "nat \<Rightarrow> u32" where
  "bvar_loose_range idx =
     (let digits = to_u64_digits idx in
      if length digits > 1 then LOOSE_BVAR_SAT
      else (case checked_add64 (first_or_0 digits) 1 of
          Some inc \<Rightarrow> if inc < ucast LOOSE_BVAR_SAT then ucast inc else LOOSE_BVAR_SAT
        | None \<Rightarrow> LOOSE_BVAR_SAT))"

definition close_one :: "u32 \<Rightarrow> u32" where
  "close_one rng =
     (if rng \<ge> LOOSE_BVAR_SAT then LOOSE_BVAR_SAT else if rng = 0 then 0 else rng - 1)"

definition depth_of :: "u8 \<Rightarrow> u8" where
  "depth_of children_max = (if children_max = 255 then 255 else children_max + 1)"

definition combine_app :: "u64 \<Rightarrow> u64 \<Rightarrow> u64" where
  "combine_app fd ad =
     (let depth = depth_of (max (d_approx_depth fd) (d_approx_depth ad));
          rng = max (d_loose_bvar_range fd) (d_loose_bvar_range ad);
          h = mix (ucast depth) (mix (ucast (d_hash fd)) (ucast (d_hash ad)))
      in pack h rng depth
          (d_has_fvar fd \<or> d_has_fvar ad)
          (d_has_expr_mvar fd \<or> d_has_expr_mvar ad)
          (d_has_level_mvar fd \<or> d_has_level_mvar ad)
          (d_has_level_param fd \<or> d_has_level_param ad))"

definition combine_binder :: "u64 \<Rightarrow> u64 \<Rightarrow> u64" where
  "combine_binder td bd =
     (let depth = depth_of (max (d_approx_depth td) (d_approx_depth bd));
          rng = max (d_loose_bvar_range td) (close_one (d_loose_bvar_range bd));
          h = mix (ucast depth) (mix (ucast (d_hash td)) (ucast (d_hash bd)))
      in pack h rng depth
          (d_has_fvar td \<or> d_has_fvar bd)
          (d_has_expr_mvar td \<or> d_has_expr_mvar bd)
          (d_has_level_mvar td \<or> d_has_level_mvar bd)
          (d_has_level_param td \<or> d_has_level_param bd))"

definition combine_let :: "u64 \<Rightarrow> u64 \<Rightarrow> u64 \<Rightarrow> u64" where
  "combine_let td vd bd =
     (let depth = depth_of (max (max (d_approx_depth td) (d_approx_depth vd)) (d_approx_depth bd));
          rng = max (max (d_loose_bvar_range td) (d_loose_bvar_range vd))
                    (close_one (d_loose_bvar_range bd));
          h = mix (ucast depth)
                (mix (ucast (d_hash td)) (mix (ucast (d_hash vd)) (ucast (d_hash bd))))
      in pack h rng depth
          (d_has_fvar td \<or> d_has_fvar vd \<or> d_has_fvar bd)
          (d_has_expr_mvar td \<or> d_has_expr_mvar vd \<or> d_has_expr_mvar bd)
          (d_has_level_mvar td \<or> d_has_level_mvar vd \<or> d_has_level_mvar bd)
          (d_has_level_param td \<or> d_has_level_param vd \<or> d_has_level_param bd))"

text \<open>The words of \<open>mdata\<close> and \<open>proj\<close>: everything but the hash and the depth passes through.\<close>

definition pass_through :: "u64 \<Rightarrow> u8 \<Rightarrow> u64 \<Rightarrow> u64" where
  "pass_through h depth cd =
     pack h (d_loose_bvar_range cd) depth (d_has_fvar cd) (d_has_expr_mvar cd)
       (d_has_level_mvar cd) (d_has_level_param cd)"

section \<open>Reading a packed word back\<close>

lemma bit_set_flag: "bit (set_flag b m w) n \<longleftrightarrow> bit w n \<or> b \<and> n = m \<and> m < 64"
  by (auto simp: set_flag_def bit_simps)

lemma and_1_eq_1_iff: "(x :: 'a::len word) AND 1 = 1 \<longleftrightarrow> bit x 0"
  by (metis and_one_eq bit_0 odd_iff_mod_2_eq_one)

lemma bit_less_of_unat:
  assumes "unat (w :: 'a::len word) < 2 ^ n" and "bit w m" shows "m < n"
proof -
  have "take_bit n (unat w) = unat w" using assms(1) by (simp add: take_bit_nat_eq_self_iff)
  moreover have "bit (unat w) m" using assms(2) bit_imp_le_length [OF assms(2)] by (simp add: bit_unsigned_iff)
  ultimately show ?thesis by (metis bit_take_bit_iff)
qed

lemma unat_SAT: "unat LOOSE_BVAR_SAT = 2 ^ 20 - 1"
  by (simp add: LOOSE_BVAR_SAT_def)

lemma min_sat: "bit (min r LOOSE_BVAR_SAT) n \<Longrightarrow> n < 20"
proof -
  have "unat (min r LOOSE_BVAR_SAT) \<le> unat LOOSE_BVAR_SAT" by (simp add: min_def word_le_nat_alt)
  then have "unat (min r LOOSE_BVAR_SAT) < 2 ^ 20" by (simp add: unat_SAT)
  then show "bit (min r LOOSE_BVAR_SAT) n \<Longrightarrow> n < 20" by (rule bit_less_of_unat)
qed

lemma unat_ucast_small: "unat (w :: 'a::len word) < 2 ^ LENGTH('b) \<Longrightarrow> unat (ucast w :: 'b::len word) = unat w"
  by (simp add: unsigned_ucast_eq take_bit_nat_eq_self_iff)

lemma mask_32: "(0xFFFFFFFF :: u64) = mask 32"
  by (simp add: mask_eq_exp_minus_1)

lemma mask_8: "(0xFF :: u64) = mask 8"
  by (simp add: mask_eq_exp_minus_1)

lemma bit_pack:
  "bit (pack h r dp f em lm lp) n \<longleftrightarrow>
     (if n < 32 then bit h n
      else if n < 40 then bit dp (n - 32)
      else if n = 40 then f else if n = 41 then em else if n = 42 then lm else if n = 43 then lp
      else n < 64 \<and> bit (min r LOOSE_BVAR_SAT) (n - 44))"
proof -
  have dp: "bit dp m \<Longrightarrow> m < 8" for m using bit_imp_le_length by fastforce
  show ?thesis
    unfolding pack_def Let_def shift_defs
    by (auto simp: bit_set_flag bit_or_iff bit_push_bit_iff bit_ucast_iff bit_and_iff mask_32 bit_mask_iff
        dest: dp min_sat)
qed

lemma d_hash_pack [simp]: "d_hash (pack h r dp f em lm lp) = ucast h"
  by (rule bit_word_eqI) (auto simp: d_hash_def shift_defs bit_ucast_iff bit_drop_bit_eq bit_pack)

lemma d_approx_depth_pack [simp]: "d_approx_depth (pack h r dp f em lm lp) = dp"
  by (rule bit_word_eqI)
    (auto simp: d_approx_depth_def shift_defs bit_ucast_iff bit_drop_bit_eq bit_and_iff mask_8 bit_mask_iff bit_pack)

lemma d_range_pack [simp]: "d_loose_bvar_range (pack h r dp f em lm lp) = min r LOOSE_BVAR_SAT"
  by (rule bit_word_eqI)
    (auto simp: d_loose_bvar_range_def shift_defs bit_ucast_iff bit_drop_bit_eq bit_pack dest: min_sat)

lemma d_flags_pack [simp]:
  "d_has_fvar (pack h r dp f em lm lp) = f"
  "d_has_expr_mvar (pack h r dp f em lm lp) = em"
  "d_has_level_mvar (pack h r dp f em lm lp) = lm"
  "d_has_level_param (pack h r dp f em lm lp) = lp"
  unfolding d_has_fvar_def d_has_expr_mvar_def d_has_level_mvar_def d_has_level_param_def
    and_1_eq_1_iff bit_drop_bit_eq shift_defs
  by (simp_all add: bit_pack)

section \<open>The word in the bank\<close>

definition word_of :: "u64 \<Rightarrow> u64" where
  "word_of d =
     (let w = ucast (d_hash d);
          w = w OR push_bit 32 (ucast (d_approx_depth d));
          w = set_flag (d_has_fvar d) 40 w;
          w = set_flag (d_has_expr_mvar d) 41 w;
          w = set_flag (d_has_level_mvar d) 42 w;
          w = set_flag (d_has_level_param d) 43 w
      in w OR push_bit 44 (ucast (d_loose_bvar_range d)))"

definition data_of_word :: "u64 \<Rightarrow> u64" where
  "data_of_word w =
     (let hash = w AND 0xFFFFFFFF;
          depth = (ucast (drop_bit 32 w AND 0xFF) :: u8);
          has_fvar = (drop_bit 40 w AND 1 = 1);
          has_expr_mvar = (drop_bit 41 w AND 1 = 1);
          has_level_mvar = (drop_bit 42 w AND 1 = 1);
          has_level_param = (drop_bit 43 w AND 1 = 1);
          rng = (ucast (drop_bit 44 w) :: u32)
      in pack hash rng depth has_fvar has_expr_mvar has_level_mvar has_level_param)"

text \<open>The words the code builds all come from \<open>pack\<close>; storing and reloading them is the identity.\<close>

definition packed :: "u64 \<Rightarrow> bool" where
  "packed w \<longleftrightarrow> (\<exists>h r dp f em lm lp. w = pack h r dp f em lm lp)"

lemma packed_pack [simp]: "packed (pack h r dp f em lm lp)"
  unfolding packed_def by blast

lemma packed_combine [simp]:
  "packed (combine_app a b)" "packed (combine_binder a b)" "packed (combine_let a b c)"
  "packed (pass_through h dp cd)"
  by (simp_all add: combine_app_def combine_binder_def combine_let_def pass_through_def Let_def)

lemma word_of_pack: "word_of (pack h r dp f em lm lp) = pack h r dp f em lm lp"
proof (rule bit_word_eqI)
  fix n
  have dp: "bit dp m \<Longrightarrow> m < 8" for m using bit_imp_le_length by fastforce
  show "bit (word_of (pack h r dp f em lm lp)) n = bit (pack h r dp f em lm lp) n" if "n < LENGTH(64)"
    using that unfolding word_of_def Let_def
    by (auto simp: bit_set_flag bit_or_iff bit_push_bit_iff bit_ucast_iff bit_pack dest: dp min_sat)
qed

lemma data_of_word_pack: "data_of_word (pack h r dp f em lm lp) = pack h r dp f em lm lp"
proof (rule bit_word_eqI)
  fix n
  let ?w = "pack h r dp f em lm lp"
  have "data_of_word ?w = pack (?w AND 0xFFFFFFFF) (d_loose_bvar_range ?w) (d_approx_depth ?w) (d_has_fvar ?w)
      (d_has_expr_mvar ?w) (d_has_level_mvar ?w) (d_has_level_param ?w)"
    by (simp only: data_of_word_def Let_def d_loose_bvar_range_def d_approx_depth_def d_has_fvar_def
        d_has_expr_mvar_def d_has_level_mvar_def d_has_level_param_def shift_defs)
  then show "bit (data_of_word ?w) n = bit ?w n"
    by (simp add: bit_pack bit_and_iff mask_32 bit_mask_iff)
qed

lemma data_of_word_word_of: "packed d \<Longrightarrow> data_of_word (word_of d) = d"
  by (auto simp: packed_def word_of_pack data_of_word_pack)

section \<open>Ranges and digits\<close>

lemma to_u64_digits_small: "n < 2 ^ 64 \<Longrightarrow> to_u64_digits n = (if n = 0 then [] else [of_nat n])"
  by (subst to_u64_digits.simps, subst to_u64_digits.simps) simp

lemma to_u64_digits_big: "2 ^ 64 \<le> n \<Longrightarrow> 1 < length (to_u64_digits n)"
proof -
  assume n: "2 ^ 64 \<le> n"
  then have "n div 2 ^ 64 \<noteq> 0" by (simp add: div_eq_0_iff)
  with n show ?thesis by (subst to_u64_digits.simps, subst to_u64_digits.simps) auto
qed

lemma unat_bvar_loose_range: "unat (bvar_loose_range n) = min (n + 1) (2 ^ 20 - 1)"
proof (cases "n < 2 ^ 64")
  case True
  then have u: "unat (of_nat n :: u64) = n" by (simp add: unat_of_nat)
  have f: "first_or_0 (to_u64_digits n) = of_nat n" "\<not> 1 < length (to_u64_digits n)"
    using to_u64_digits_small [OF True] by (auto simp: first_or_0_def)
  have sat: "unat (ucast LOOSE_BVAR_SAT :: u64) = 2 ^ 20 - 1"
    using unat_SAT by (subst unat_ucast_small) simp_all
  show ?thesis
  proof (cases "n + 1 < 2 ^ 64")
    case fits: True
    then have u1: "unat (of_nat n + 1 :: u64) = n + 1" using u by (simp add: unat_plus_if')
    show ?thesis
    proof (cases "n + 1 < 2 ^ 20 - 1")
      case small: True
      then have "unat (ucast (of_nat n + 1 :: u64) :: u32) = n + 1"
        using u1 by (subst unat_ucast_small) simp_all
      with small f u u1 sat show ?thesis
        by (simp add: bvar_loose_range_def checked_add64_def word_less_nat_alt)
    next
      case False
      with fits f u u1 sat unat_SAT show ?thesis
        by (simp add: bvar_loose_range_def checked_add64_def word_less_nat_alt)
    qed
  next
    case False
    with f u unat_SAT show ?thesis by (simp add: bvar_loose_range_def checked_add64_def)
  qed
next
  case False
  then show ?thesis using to_u64_digits_big [of n] unat_SAT by (simp add: bvar_loose_range_def)
qed

lemma nat_as_u32_eq: "nat_as_u32 n = (if n < 2 ^ 32 then Some (of_nat n) else None)"
proof (cases "n < 2 ^ 64")
  case True
  then have "unat (of_nat n :: u64) = n" by (simp add: unat_of_nat)
  then show ?thesis using to_u64_digits_small [OF True] by (simp add: nat_as_u32_def u32_try_from_def)
next
  case False
  then have "1 < length (to_u64_digits n)" by (intro to_u64_digits_big) simp
  with False show ?thesis by (auto simp: nat_as_u32_def split: list.split)
qed

lemma unat_close_one:
  assumes "unat r \<le> 2 ^ 20 - 1"
  shows "unat (close_one r) = (if unat r = 2 ^ 20 - 1 then 2 ^ 20 - 1 else unat r - 1)"
proof (cases "r = 0")
  case True
  then show ?thesis using unat_SAT by (simp add: close_one_def word_le_nat_alt)
next
  case False
  then have "1 \<le> unat r" by (metis One_nat_def Suc_leI neq0_conv unat_eq_zero)
  then have "unat (r - 1) = unat r - 1" by (simp add: unat_sub_if_size)
  with False assms show ?thesis using unat_SAT by (auto simp: close_one_def word_le_nat_alt)
qed

section \<open>The tag byte\<close>

datatype binder_info = Default | Implicit | StrictImplicit | InstImplicit

datatype tag =
    TBVar | TBVarBig | TFVar | TMVar | TSort | TConst | TApp | TLam | TForall | TLetE
  | TLitNat | TLitStr | TMData | TProj | TProjBig

text \<open>\<open>tag as u8\<close>: the discriminants of \<open>Tag\<close>.\<close>

definition tag_u8 :: "tag \<Rightarrow> u8" where
  "tag_u8 t =
     (case t of TBVar \<Rightarrow> 0 | TBVarBig \<Rightarrow> 1 | TFVar \<Rightarrow> 2 | TMVar \<Rightarrow> 3 | TSort \<Rightarrow> 4 | TConst \<Rightarrow> 5
      | TApp \<Rightarrow> 6 | TLam \<Rightarrow> 7 | TForall \<Rightarrow> 8 | TLetE \<Rightarrow> 9 | TLitNat \<Rightarrow> 10 | TLitStr \<Rightarrow> 11
      | TMData \<Rightarrow> 12 | TProj \<Rightarrow> 13 | TProjBig \<Rightarrow> 14)"

definition BINDER_INFO_SHIFT :: nat where "BINDER_INFO_SHIFT = 4"
definition NON_DEP_BIT :: nat where "NON_DEP_BIT = 6"

definition binder_info_bits :: "binder_info \<Rightarrow> u8" where
  "binder_info_bits bi =
     (case bi of Default \<Rightarrow> 0 | Implicit \<Rightarrow> 1 | StrictImplicit \<Rightarrow> 2 | InstImplicit \<Rightarrow> 3)"

definition binder_info_of_bits :: "u8 \<Rightarrow> binder_info" where
  "binder_info_of_bits byte =
     (let x = drop_bit BINDER_INFO_SHIFT byte AND 3 in
      if x = 0 then Default else if x = 1 then Implicit else if x = 2 then StrictImplicit
      else InstImplicit)"

definition non_dep_of_bits :: "u8 \<Rightarrow> bool" where
  "non_dep_of_bits byte \<longleftrightarrow> drop_bit NON_DEP_BIT byte AND 1 = 1"

definition pack_tag :: "tag \<Rightarrow> binder_info \<Rightarrow> bool \<Rightarrow> u8" where
  "pack_tag tag bi non_dep =
     tag_u8 tag OR push_bit BINDER_INFO_SHIFT (binder_info_bits bi)
       OR push_bit NON_DEP_BIT (if non_dep then 1 else 0)"

definition tag_of :: "u8 \<Rightarrow> tag result" where
  "tag_of byte =
     (let x = byte AND 0x0F in
      if x = 0 then Inr TBVar else if x = 1 then Inr TBVarBig else if x = 2 then Inr TFVar
      else if x = 3 then Inr TMVar else if x = 4 then Inr TSort else if x = 5 then Inr TConst
      else if x = 6 then Inr TApp else if x = 7 then Inr TLam else if x = 8 then Inr TForall
      else if x = 9 then Inr TLetE else if x = 10 then Inr TLitNat else if x = 11 then Inr TLitStr
      else if x = 12 then Inr TMData else if x = 13 then Inr TProj else if x = 14 then Inr TProjBig
      else Inl Panic)"

lemma tag_u8_bits: "bit (tag_u8 t) n \<Longrightarrow> n < 4"
proof (rule bit_less_of_unat)
  show "unat (tag_u8 t) < 2 ^ 4" by (cases t) (simp_all add: tag_u8_def)
qed

lemma binder_info_bits: "bit (binder_info_bits bi) n \<Longrightarrow> n < 2"
proof (rule bit_less_of_unat)
  show "unat (binder_info_bits bi) < 2 ^ 2" by (cases bi) (simp_all add: binder_info_bits_def)
qed

lemma bit_pack_tag:
  "bit (pack_tag t bi nd) n \<longleftrightarrow>
     (if n < 4 then bit (tag_u8 t) n else if n < 6 then bit (binder_info_bits bi) (n - 4) else n = 6 \<and> nd)"
  unfolding pack_tag_def BINDER_INFO_SHIFT_def NON_DEP_BIT_def
  by (auto simp: bit_or_iff bit_push_bit_iff bit_1_iff dest: tag_u8_bits binder_info_bits)

lemma pack_tag_low: "pack_tag t bi nd AND 0x0F = tag_u8 t"
proof -
  have m: "(0x0F :: u8) = mask 4" by (simp add: mask_eq_exp_minus_1)
  show ?thesis unfolding m
    by (intro bit_word_eqI) (auto simp: bit_and_iff bit_mask_iff bit_pack_tag dest: tag_u8_bits)
qed

lemma pack_tag_mid: "drop_bit 4 (pack_tag t bi nd) AND 3 = binder_info_bits bi"
proof -
  have m: "(3 :: u8) = mask 2" by (simp add: mask_eq_exp_minus_1)
  show ?thesis unfolding m
    by (intro bit_word_eqI)
      (auto simp: bit_and_iff bit_mask_iff bit_pack_tag bit_drop_bit_eq dest: binder_info_bits)
qed

lemma tag_of_pack_tag [simp]: "tag_of (pack_tag t bi nd) = Inr t"
  unfolding tag_of_def Let_def pack_tag_low by (cases t; simp only: tag_u8_def tag.case; simp)

lemma binder_info_of_pack_tag [simp]: "binder_info_of_bits (pack_tag t bi nd) = bi"
  unfolding binder_info_of_bits_def BINDER_INFO_SHIFT_def pack_tag_mid
  by (cases bi) (simp_all add: binder_info_bits_def)

lemma non_dep_of_pack_tag [simp]: "non_dep_of_bits (pack_tag t bi nd) = nd"
  unfolding non_dep_of_bits_def NON_DEP_BIT_def and_1_eq_1_iff by (simp add: bit_drop_bit_eq bit_pack_tag)

lemma pack_tag_inject [simp]: "pack_tag t bi nd = pack_tag t' bi' nd' \<longleftrightarrow> t = t' \<and> bi = bi' \<and> nd = nd'"
proof
  assume eq: "pack_tag t bi nd = pack_tag t' bi' nd'"
  have "tag_of (pack_tag t bi nd) = tag_of (pack_tag t' bi' nd')"
    "binder_info_of_bits (pack_tag t bi nd) = binder_info_of_bits (pack_tag t' bi' nd')"
    "non_dep_of_bits (pack_tag t bi nd) = non_dep_of_bits (pack_tag t' bi' nd')"
    by (simp_all only: eq)
  then show "t = t' \<and> bi = bi' \<and> nd = nd'" by simp
qed simp

end
