(* ===== verification/Banks.thy ===== *)
theory Banks
  imports Probe ExprData
begin

text \<open>
  Ids and the deduplicated row stores: the id encoding of \<open>bank/mod.rs\<close>, \<open>ValuePool\<close>
  (\<open>bank/pools.rs\<close>), \<open>NameBank\<close> (\<open>bank/names.rs\<close>), \<open>LevelBank\<close> (\<open>bank/levels.rs\<close>) and
  \<open>TermBank\<close> (\<open>bank/terms.rs\<close>). The locale \<open>id_bank\<close> states what they promise to \<open>Store\<close>; each of
  them is an interpretation of it.
\<close>

section \<open>Ids\<close>

text \<open>
  The nine id types share one macro; an id is its \<open>u32\<close>. The bits of an id are never 0 in the
  low 31 positions.
\<close>

definition REGION_BIT :: u32 where "REGION_BIT = push_bit 31 1"
definition MAX_INDEX :: u32 where "MAX_INDEX = REGION_BIT - 2"

definition from_index :: "u32 \<Rightarrow> bool \<Rightarrow> u32 option" where
  "from_index idx scratch =
     (if idx > MAX_INDEX then None
      else (let bits = (idx + 1) OR (if scratch then REGION_BIT else 0) in
            if bits = 0 then None else Some bits))"

definition from_bits :: "u32 \<Rightarrow> u32 option" where
  "from_bits bits =
     (if bits AND NOT REGION_BIT = 0 then None else if bits = 0 then None else Some bits)"

definition id_index :: "u32 \<Rightarrow> nat" where
  "id_index i = unat ((i AND NOT REGION_BIT) - 1)"

definition is_scratch :: "u32 \<Rightarrow> bool" where
  "is_scratch i \<longleftrightarrow> i AND REGION_BIT \<noteq> 0"

text \<open>The bits that a bank of region \<open>r\<close> gives to its row \<open>n\<close>.\<close>

definition id_bits :: "u32 \<Rightarrow> nat \<Rightarrow> u32" where
  "id_bits r n = (of_nat n + 1) OR r"

definition is_region :: "u32 \<Rightarrow> bool" where
  "is_region r \<longleftrightarrow> r = 0 \<or> r = REGION_BIT"

definition max_rows :: nat where
  "max_rows = 2 ^ 31 - 1"

lemma bit_REGION [simp]: "bit REGION_BIT n \<longleftrightarrow> n = 31"
  unfolding REGION_BIT_def push_bit_of_1 bit_exp_iff by auto

lemma REGION_neq_0 [simp]: "REGION_BIT \<noteq> 0" "0 \<noteq> REGION_BIT"
  by (simp_all add: REGION_BIT_def)

lemma unat_MAX_INDEX: "unat MAX_INDEX = 2 ^ 31 - 2"
  by (simp add: MAX_INDEX_def REGION_BIT_def)

lemma id_bits_parts:
  assumes "n < max_rows" and "is_region r"
  shows "id_bits r n AND NOT REGION_BIT = of_nat n + 1"
    and "id_bits r n AND REGION_BIT = r"
proof -
  have "unat (of_nat n :: u32) = n" using assms(1) by (simp add: unat_of_nat max_rows_def)
  then have u: "unat (of_nat n + 1 :: u32) < 2 ^ 31" using assms(1) by (simp add: unat_plus_if' max_rows_def)
  have low: "bit (of_nat n + 1 :: u32) m \<Longrightarrow> m < 31" for m using u by (rule bit_less_of_unat)
  show "id_bits r n AND NOT REGION_BIT = of_nat n + 1" "id_bits r n AND REGION_BIT = r"
    using assms(2) by (auto intro!: bit_word_eqI simp: id_bits_def is_region_def bit_and_iff bit_or_iff bit_not_iff
        dest: low)
qed

lemma id_index_bits [simp]:
  assumes "n < max_rows" and "is_region r" shows "id_index (id_bits r n) = n"
proof -
  have "unat (of_nat n :: u32) = n" using assms(1) by (simp add: unat_of_nat max_rows_def)
  then show ?thesis using assms by (simp add: id_index_def id_bits_parts)
qed

lemma is_scratch_bits [simp]:
  "n < max_rows \<Longrightarrow> is_region r \<Longrightarrow> is_scratch (id_bits r n) \<longleftrightarrow> r = REGION_BIT"
  by (auto simp: is_scratch_def id_bits_parts is_region_def)

lemma id_bits_low:
  assumes "n < max_rows" and "is_region r" shows "id_bits r n AND NOT REGION_BIT \<noteq> 0"
proof -
  have "unat (of_nat n :: u32) = n" using assms(1) by (simp add: unat_of_nat max_rows_def)
  then have "unat (of_nat n + 1 :: u32) = n + 1" using assms(1) by (simp add: unat_plus_if' max_rows_def)
  then have "(of_nat n + 1 :: u32) \<noteq> 0" by (metis Suc_eq_plus1 nat.distinct(1) unat_0)
  then show ?thesis using assms by (simp add: id_bits_parts)
qed

lemma id_bits_nonzero: "n < max_rows \<Longrightarrow> is_region r \<Longrightarrow> id_bits r n \<noteq> 0"
  using id_bits_low [of n r] by auto

lemma from_bits_id_bits [simp]: "n < max_rows \<Longrightarrow> is_region r \<Longrightarrow> from_bits (id_bits r n) = Some (id_bits r n)"
  using id_bits_low [of n r] id_bits_nonzero [of n r] by (simp add: from_bits_def)

lemma id_bits_inject:
  "n < max_rows \<Longrightarrow> m < max_rows \<Longrightarrow> is_region r \<Longrightarrow> is_region r' \<Longrightarrow>
     id_bits r n = id_bits r' m \<longleftrightarrow> r = r' \<and> n = m"
  by (metis id_bits_parts(2) id_index_bits)

lemma from_index_eq:
  assumes "unat i < max_rows" shows "from_index i s = Some (id_bits (if s then REGION_BIT else 0) (unat i))"
proof -
  have le: "\<not> MAX_INDEX < i" using assms unat_MAX_INDEX by (simp add: word_less_nat_alt max_rows_def)
  have "is_region (if s then REGION_BIT else 0)" by (simp add: is_region_def)
  from id_bits_nonzero [OF assms this] le show ?thesis
    by (cases s) (simp_all add: from_index_def id_bits_def Let_def)
qed

text \<open>The check that every bank makes before it pushes a row.\<close>

definition next_index :: "nat \<Rightarrow> u32 result" where
  "next_index n =
     (case u32_try_from n of
        None \<Rightarrow> Inl BankExhausted
      | Some idx \<Rightarrow> if idx > MAX_INDEX then Inl BankExhausted else Inr idx)"

lemma next_index_eq: "next_index n = (if n < max_rows then Inr (of_nat n) else Inl BankExhausted)"
proof (cases "n < 2 ^ 32")
  case True
  then have "unat (of_nat n :: u32) = n" by (simp add: unat_of_nat)
  with True show ?thesis
    by (auto simp: next_index_def u32_try_from_def word_less_nat_alt unat_MAX_INDEX max_rows_def)
qed (auto simp: next_index_def u32_try_from_def max_rows_def)

section \<open>What a bank promises\<close>

text \<open>
  A bank numbers distinct rows. Each row carries a payload that is stored beside it and a hash
  under which it was filed. \<open>lookup\<close> finds a row that is there under its hash and nothing
  else; \<open>insert\<close> appends an absent row, provided that its hash is \<open>admissible\<close>, and fails
  only when the id space of the region is used up.
\<close>

locale id_bank =
  fixes inv :: "'b \<Rightarrow> bool"
    and rows :: "'b \<Rightarrow> 'r list"
    and region :: "'b \<Rightarrow> u32"
    and payload :: "'b \<Rightarrow> 'r \<Rightarrow> 'p"
    and filed :: "'b \<Rightarrow> 'r \<Rightarrow> u64"
    and admissible :: "u64 \<Rightarrow> 'p \<Rightarrow> 'r \<Rightarrow> bool"
    and lookup :: "'b \<Rightarrow> u64 \<Rightarrow> 'r \<Rightarrow> u32 option result"
    and insert :: "'b \<Rightarrow> u64 \<Rightarrow> 'p \<Rightarrow> 'r \<Rightarrow> ('b \<times> u32) result"
  assumes region: "inv b \<Longrightarrow> is_region (region b)"
    and distinct: "inv b \<Longrightarrow> distinct (rows b)"
    and bounded: "inv b \<Longrightarrow> length (rows b) \<le> max_rows"
    and lookup_hit: "inv b \<Longrightarrow> i < length (rows b) \<Longrightarrow>
          lookup b (filed b (rows b ! i)) (rows b ! i) = Inr (Some (id_bits (region b) i))"
    and lookup_miss: "inv b \<Longrightarrow> r \<notin> set (rows b) \<Longrightarrow> lookup b h r = Inr None"
    and insert_new: "inv b \<Longrightarrow> r \<notin> set (rows b) \<Longrightarrow> admissible h p r \<Longrightarrow> length (rows b) < max_rows \<Longrightarrow>
          \<exists>b'. insert b h p r = Inr (b', id_bits (region b) (length (rows b))) \<and> inv b'
            \<and> rows b' = rows b @ [r] \<and> region b' = region b
            \<and> filed b' r = h \<and> payload b' r = p
            \<and> (\<forall>s \<in> set (rows b). filed b' s = filed b s \<and> payload b' s = payload b s)"
    and insert_full: "inv b \<Longrightarrow> r \<notin> set (rows b) \<Longrightarrow> length (rows b) = max_rows \<Longrightarrow>
          insert b h p r = Inl BankExhausted"

section \<open>Two regions\<close>

text \<open>
  A scratch bank is read together with the persistent bank under it (\<open>base\<close>); the persistent
  bank itself has no base. \<open>entry base own i\<close> is the row that an id denotes in the pair.
\<close>

context id_bank
begin

definition ids :: "'b \<Rightarrow> u32 set" where
  "ids b = id_bits (region b) ` {..<length (rows b)}"

definition pair_ok :: "'b option \<Rightarrow> 'b \<Rightarrow> bool" where
  "pair_ok base own \<longleftrightarrow> inv own \<and>
     (case base of None \<Rightarrow> True
      | Some b \<Rightarrow> inv b \<and> region b = 0 \<and> region own = REGION_BIT \<and> set (rows b) \<inter> set (rows own) = {})"

definition entry :: "'b option \<Rightarrow> 'b \<Rightarrow> u32 \<Rightarrow> 'r option" where
  "entry base own i =
     (if i \<in> ids own then Some (rows own ! id_index i)
      else (case base of None \<Rightarrow> None
         | Some b \<Rightarrow> if i \<in> ids b then Some (rows b ! id_index i) else None))"

definition pload :: "'b option \<Rightarrow> 'b \<Rightarrow> 'r \<Rightarrow> 'p" where
  "pload base own r = (if r \<in> set (rows own) then payload own r else payload (the base) r)"

definition hash_at :: "'b option \<Rightarrow> 'b \<Rightarrow> 'r \<Rightarrow> u64" where
  "hash_at base own r = (if r \<in> set (rows own) then filed own r else filed (the base) r)"

definition extends :: "'b \<Rightarrow> 'b \<Rightarrow> bool" where
  "extends b b' \<longleftrightarrow> region b' = region b \<and> (\<exists>new. rows b' = rows b @ new)
     \<and> (\<forall>r \<in> set (rows b). payload b' r = payload b r \<and> filed b' r = filed b r)"

definition owner :: "'b option \<Rightarrow> 'b \<Rightarrow> u32 \<Rightarrow> 'b" where
  "owner base own i = (if is_scratch i then own else (case base of None \<Rightarrow> own | Some b \<Rightarrow> b))"

lemma ids_cases:
  assumes "inv b" and "i \<in> ids b"
  obtains n where "i = id_bits (region b) n" and "n < length (rows b)" and "n < max_rows" and "is_region (region b)"
    and "id_index i = n"
proof -
  from assms(2) obtain n where n: "i = id_bits (region b) n" "n < length (rows b)" by (auto simp: ids_def)
  with bounded [OF assms(1)] region [OF assms(1)] that show thesis by auto
qed

lemma ids_disjoint:
  assumes "pair_ok (Some b) own" and "i \<in> ids b" shows "i \<notin> ids own"
proof
  assume "i \<in> ids own"
  with assms have "inv own" "inv b" "region b = 0" "region own = REGION_BIT" by (auto simp: pair_ok_def)
  then show False using assms(2) \<open>i \<in> ids own\<close>
    by (elim ids_cases [of own] ids_cases [of b]) (auto simp: id_bits_inject is_region_def)
qed

lemma entry_own: "pair_ok base own \<Longrightarrow> n < length (rows own) \<Longrightarrow> entry base own (id_bits (region own) n) = Some (rows own ! n)"
  using region [of own] bounded [of own] by (auto simp: entry_def ids_def pair_ok_def)

lemma entry_base:
  "pair_ok (Some b) own \<Longrightarrow> n < length (rows b) \<Longrightarrow> entry (Some b) own (id_bits (region b) n) = Some (rows b ! n)"
  using region [of b] bounded [of b] ids_disjoint [of b own "id_bits (region b) n"]
  by (auto simp: entry_def ids_def pair_ok_def)

lemma entry_cases:
  assumes "pair_ok base own" and "entry base own i = Some r"
  obtains (own) n where "i = id_bits (region own) n" "n < length (rows own)" "rows own ! n = r" "r \<in> set (rows own)"
  | (base) b n where "base = Some b" "i = id_bits (region b) n" "n < length (rows b)" "rows b ! n = r"
      "r \<in> set (rows b)" "r \<notin> set (rows own)" "inv b"
proof (cases "i \<in> ids own")
  case True
  have "inv own" using assms(1) by (simp add: pair_ok_def)
  then show thesis using True assms(2) by (elim ids_cases) (auto intro!: that(1) simp: entry_def)
next
  case False
  with assms(2) obtain b where b: "base = Some b" "i \<in> ids b" "rows b ! id_index i = r"
    by (auto simp: entry_def split: option.splits if_splits)
  with assms(1) have ok: "inv b" "set (rows b) \<inter> set (rows own) = {}" by (auto simp: pair_ok_def)
  from ok(1) b(2) show thesis
  proof (cases rule: ids_cases)
    case (1 n)
    then have "rows b ! n \<in> set (rows b)" by simp
    with 1 b ok show thesis by (intro that(2) [of b n]) auto
  qed
qed

text \<open>An id denotes at most one row, and a row has at most one id: hash consing is canonical.\<close>

lemma entry_inject:
  assumes "pair_ok base own" and "entry base own i = Some r" and "entry base own j = Some r"
  shows "i = j"
proof -
  have inv: "inv own" using assms(1) by (simp add: pair_ok_def)
  from assms(1,2) show ?thesis
  proof (cases rule: entry_cases)
    case (own n)
    from assms(1,3) show ?thesis
    proof (cases rule: entry_cases)
      case own': (own m)
      with own distinct [OF inv] show ?thesis by (auto simp: nth_eq_iff_index_eq)
    qed (use own in auto)
  next
    case (base b n)
    from assms(1,3) show ?thesis
    proof (cases rule: entry_cases)
      case base': (base b' m)
      with base distinct [of b] show ?thesis by (auto simp: nth_eq_iff_index_eq)
    qed (use base in auto)
  qed
qed

lemma entry_routed:
  assumes "pair_ok base own" and "entry base own i = Some r"
  shows "id_index i < length (rows (owner base own i))" and "rows (owner base own i) ! id_index i = r"
    and "payload (owner base own i) r = pload base own r" and "filed (owner base own i) r = hash_at base own r"
    and "from_bits i = Some i" and "i \<noteq> 0" and "inv (owner base own i)"
proof -
  from assms have "id_index i < length (rows (owner base own i)) \<and> rows (owner base own i) ! id_index i = r
    \<and> payload (owner base own i) r = pload base own r \<and> filed (owner base own i) r = hash_at base own r
    \<and> from_bits i = Some i \<and> i \<noteq> 0 \<and> inv (owner base own i)"
  proof (cases rule: entry_cases)
    case (own n)
    have inv: "inv own" using assms(1) by (simp add: pair_ok_def)
    have n: "n < max_rows" "is_region (region own)" using own inv bounded [of own] region [of own] by auto
    have "owner base own i = own"
    proof (cases base)
      case (Some b)
      with assms(1) have "region own = REGION_BIT" by (simp add: pair_ok_def)
      with n own show ?thesis by (simp add: owner_def)
    qed (simp add: owner_def)
    with own n inv show ?thesis by (simp add: pload_def hash_at_def id_bits_nonzero)
  next
    case (base b n)
    then have inv: "inv b" "region b = 0" using assms(1) by (auto simp: pair_ok_def)
    have n: "n < max_rows" "is_region (region b)" using base inv bounded [of b] region [of b] by auto
    then have "owner base own i = b" using base inv by (simp add: owner_def)
    with base n inv show ?thesis by (simp add: pload_def hash_at_def id_bits_nonzero)
  qed
  then show "id_index i < length (rows (owner base own i))" "rows (owner base own i) ! id_index i = r"
    "payload (owner base own i) r = pload base own r" "filed (owner base own i) r = hash_at base own r"
    "from_bits i = Some i" "i \<noteq> 0" "inv (owner base own i)" by auto
qed

lemma extends_refl [simp]: "extends b b"
  by (simp add: extends_def)

lemma extends_trans: "extends a b \<Longrightarrow> extends b c \<Longrightarrow> extends a c"
  by (auto simp: extends_def)

lemma entry_extends:
  assumes "pair_ok base own" and "pair_ok base own'" and "extends own own'" and "entry base own i = Some r"
  shows "entry base own' i = Some r" and "pload base own' r = pload base own r"
    and "hash_at base own' r = hash_at base own r"
proof -
  from assms(3) obtain new where new: "rows own' = rows own @ new" "region own' = region own"
    "\<And>r. r \<in> set (rows own) \<Longrightarrow> payload own' r = payload own r \<and> filed own' r = filed own r"
    by (auto simp: extends_def)
  from assms(1,4) have "entry base own' i = Some r \<and> pload base own' r = pload base own r
    \<and> hash_at base own' r = hash_at base own r"
  proof (cases rule: entry_cases)
    case (own n)
    with entry_own [OF assms(2), of n] new show ?thesis
      by (simp add: nth_append pload_def hash_at_def)
  next
    case (base b n)
    then have "r \<notin> set (rows own')" using assms(2) by (auto simp: pair_ok_def)
    with base entry_base [of b own' n] assms(2) show ?thesis by (simp add: pload_def hash_at_def)
  qed
  then show "entry base own' i = Some r" "pload base own' r = pload base own r"
    "hash_at base own' r = hash_at base own r" by auto
qed

end

text \<open>
  The shape every \<open>intern_\<close> function of \<open>Store\<close> has: look into the base bank, then into the
  store's own bank, then append; turn the bits into an id each time.
\<close>

definition found_id :: "u32 \<Rightarrow> u32 result" where
  "found_id bits = ok_or BankExhausted (from_bits bits)"

definition intern_row ::
    "u32 option result \<Rightarrow> u32 option result \<Rightarrow> ('b \<times> u32) result \<Rightarrow> ('b \<Rightarrow> 's) \<Rightarrow> 's \<Rightarrow> (u32 \<times> 's) result" where
  "intern_row base_hit own_hit fresh upd st =
     andthen base_hit (\<lambda>hit. case hit of
        Some bits \<Rightarrow> andthen (found_id bits) (\<lambda>i. Inr (i, st))
      | None \<Rightarrow> andthen own_hit (\<lambda>hit. case hit of
          Some bits \<Rightarrow> andthen (found_id bits) (\<lambda>i. Inr (i, st))
        | None \<Rightarrow> andthen fresh (\<lambda>(b, bits). andthen (found_id bits) (\<lambda>i. Inr (i, upd b)))))"

context id_bank
begin

lemma lookup_found: "inv b \<Longrightarrow> r \<in> set (rows b) \<Longrightarrow>
    \<exists>n < length (rows b). rows b ! n = r \<and> lookup b (filed b r) r = Inr (Some (id_bits (region b) n))"
  using lookup_hit [of b] by (auto simp: in_set_conv_nth)

lemma entry_snoc:
  assumes "pair_ok base own" and "pair_ok base own'" and "rows own' = rows own @ [r]" and "region own' = region own"
    and "entry base own' j = Some s"
  shows "entry base own j = Some s \<or> j = id_bits (region own) (length (rows own)) \<and> s = r"
  using assms(2,5)
proof (cases rule: entry_cases)
  case (own n)
  with assms entry_own [OF assms(1), of n] show ?thesis by (auto simp: nth_append less_Suc_eq)
next
  case (base b n)
  with assms(1) entry_base [of b own n] show ?thesis by simp
qed

text \<open>
  Interning a row returns an id of that row in a bank that extends the old one; the row's
  payload and hash are the ones given, provided an older copy of the row has them too.
\<close>

lemma intern_row_ok:
  assumes ok: "pair_ok base own" and adm: "admissible h p r" and upd: "upd own = st"
    and known: "\<And>i. entry base own i = Some r \<Longrightarrow> hash_at base own r = h \<and> pload base own r = p"
  shows "run (if length (rows own) < max_rows then {} else {BankExhausted})
    (intern_row (case base of None \<Rightarrow> Inr None | Some b \<Rightarrow> lookup b h r) (lookup own h r) (insert own h p r) upd st)
    (\<lambda>(i, st'). \<exists>own'. st' = upd own' \<and> pair_ok base own' \<and> extends own own' \<and> entry base own' i = Some r
      \<and> hash_at base own' r = h \<and> pload base own' r = p
      \<and> (if \<exists>i. entry base own i = Some r then st' = st \<and> own' = own else rows own' = rows own @ [r])
      \<and> (\<forall>j s. entry base own' j = Some s \<longrightarrow> entry base own j = Some s \<or> j = i \<and> s = r))"
proof -
  have inv: "inv own" using ok by (simp add: pair_ok_def)
  let ?base = "case base of None \<Rightarrow> Inr None | Some b \<Rightarrow> lookup b h r"
  have hit: ?thesis
    if e: "entry base own i = Some r"
      and look: "?base = Inr (Some i) \<or> ?base = Inr None \<and> lookup own h r = Inr (Some i)" for i
  proof -
    from entry_routed(5) [OF ok e] have "found_id i = Inr i" by (simp add: found_id_def)
    with look have "intern_row ?base (lookup own h r) (insert own h p r) upd st = Inr (i, st)"
      by (auto simp: intern_row_def)
    then show ?thesis using ok e known [OF e] upd by (auto intro!: exI [of _ own])
  qed
  consider (base) b n where "base = Some b" "n < length (rows b)" "rows b ! n = r"
    | (own) n where "\<forall>b. base = Some b \<longrightarrow> r \<notin> set (rows b)" "n < length (rows own)" "rows own ! n = r"
    | (new) "\<forall>b. base = Some b \<longrightarrow> r \<notin> set (rows b)" "r \<notin> set (rows own)"
    by (metis in_set_conv_nth)
  then show ?thesis
  proof cases
    case (base b n)
    then have "r \<in> set (rows b)" by auto
    with ok base(1) have b: "inv b" "r \<notin> set (rows own)" by (auto simp: pair_ok_def)
    have e: "entry base own (id_bits (region b) n) = Some r" using entry_base [of b own n] ok base by simp
    then have "filed b r = h" using known b(2) base(1) by (auto simp: hash_at_def)
    then have "lookup b h r = Inr (Some (id_bits (region b) n))" using lookup_hit [OF b(1) base(2)] base(3) by simp
    with e base(1) show ?thesis by (intro hit) auto
  next
    case (own n)
    have e: "entry base own (id_bits (region own) n) = Some r" using entry_own [OF ok own(2)] own(3) by simp
    have "r \<in> set (rows own)" using own by auto
    then have "filed own r = h" using known [OF e] by (simp add: hash_at_def)
    then have "lookup own h r = Inr (Some (id_bits (region own) n))" using lookup_hit [OF inv own(2)] own(3) by simp
    moreover have "?base = Inr None" using ok own(1) lookup_miss by (auto simp: pair_ok_def split: option.split)
    ultimately show ?thesis using e by (intro hit) auto
  next
    case new
    have none: "\<not> (\<exists>i. entry base own i = Some r)"
      using new by (auto elim!: entry_cases [OF ok])
    have look: "?base = Inr None" "lookup own h r = Inr None"
      using ok new lookup_miss inv by (auto simp: pair_ok_def split: option.split)
    show ?thesis
    proof (cases "length (rows own) < max_rows")
      case False
      then have "length (rows own) = max_rows" using bounded [OF inv] by simp
      with insert_full [OF inv new(2)] look show ?thesis by (simp add: intern_row_def)
    next
      case True
      from insert_new [OF inv new(2) adm True] obtain own' where own':
        "insert own h p r = Inr (own', id_bits (region own) (length (rows own)))" "inv own'"
        "rows own' = rows own @ [r]" "region own' = region own" "filed own' r = h" "payload own' r = p"
        "\<forall>s \<in> set (rows own). filed own' s = filed own s \<and> payload own' s = payload own s" by blast
      have ok': "pair_ok base own'" using ok own' new by (auto simp: pair_ok_def split: option.splits)
      let ?i = "id_bits (region own) (length (rows own))"
      have e: "entry base own' ?i = Some r"
        using entry_own [OF ok', of "length (rows own)"] own'(3,4) by simp
      have "from_bits ?i = Some ?i" using True region [OF inv] by simp
      then have "intern_row ?base (lookup own h r) (insert own h p r) upd st = Inr (?i, upd own')"
        using look own'(1) by (simp add: intern_row_def found_id_def)
      moreover have "extends own own'" using own' by (auto simp: extends_def)
      moreover have "hash_at base own' r = h" "pload base own' r = p"
        using own' by (simp_all add: hash_at_def pload_def)
      moreover have "\<forall>j s. entry base own' j = Some s \<longrightarrow> entry base own j = Some s \<or> j = ?i \<and> s = r"
        using entry_snoc [OF ok ok' own'(3,4)] by blast
      ultimately show ?thesis using ok' e none own'(3) by auto
    qed
  qed
qed

end

section \<open>The banks\<close>

text \<open>\<open>&self.rows[((bits & !REGION_BIT) - 1) as usize]\<close>.\<close>

definition row_of_bits :: "'a list \<Rightarrow> u32 \<Rightarrow> 'a result" where
  "row_of_bits xs bits = expect (get_index xs (id_index bits))"

subsection \<open>Value pools\<close>

record 'a value_pool =
  vp_items :: "'a list"
  vp_table :: id_table
  vp_region :: u32

definition vp_new :: "u32 \<Rightarrow> 'a value_pool" where
  "vp_new r = \<lparr>vp_items = [], vp_table = id_table_new, vp_region = r\<rparr>"

definition vp_get :: "'a value_pool \<Rightarrow> nat \<Rightarrow> 'a option" where
  "vp_get p i = get_index (vp_items p) i"

definition vp_lookup :: "'a value_pool \<Rightarrow> u64 \<Rightarrow> ('a \<Rightarrow> bool) \<Rightarrow> u32 option result" where
  "vp_lookup p hash eq = lookup (vp_table p) hash (\<lambda>bits. andthen (row_of_bits (vp_items p) bits) (\<lambda>t. Inr (eq t)))"

definition vp_push :: "'a value_pool \<Rightarrow> u64 \<Rightarrow> 'a \<Rightarrow> ('a \<Rightarrow> u64) \<Rightarrow> ('a value_pool \<times> u32) result" where
  "vp_push p hash x rehash =
     andthen (next_index (length (vp_items p))) (\<lambda>idx.
       let items = vp_items p @ [x];
           bits = (idx + 1) OR vp_region p
       in andthen
            (insert_bits (vp_table p) hash bits
              (\<lambda>b. andthen (row_of_bits items b) (\<lambda>t. Inr (rehash t))))
            (\<lambda>t. Inr (p\<lparr>vp_items := items, vp_table := t\<rparr>, bits)))"

definition vp_intern ::
    "'a value_pool \<Rightarrow> u64 \<Rightarrow> ('a \<Rightarrow> bool) \<Rightarrow> 'a \<Rightarrow> ('a \<Rightarrow> u64) \<Rightarrow> ('a value_pool \<times> u32) result" where
  "vp_intern p hash eq x rehash =
     andthen (vp_lookup p hash eq) (\<lambda>hit. case hit of
        Some bits \<Rightarrow> Inr (p, bits)
      | None \<Rightarrow> vp_push p hash x rehash)"

subsection \<open>Names\<close>

datatype name_row =
    NStr "u32 option" u32
  | NNum "u32 option" u32

record name_bank =
  nb_rows :: "name_row list"
  nb_hashes :: "u64 list"
  nb_table :: id_table
  nb_region :: u32

definition nb_new :: "u32 \<Rightarrow> name_bank" where
  "nb_new r = \<lparr>nb_rows = [], nb_hashes = [], nb_table = id_table_new, nb_region = r\<rparr>"

definition nb_row :: "name_bank \<Rightarrow> nat \<Rightarrow> name_row option" where
  "nb_row b i = get_index (nb_rows b) i"

definition nb_hash_of :: "name_bank \<Rightarrow> nat \<Rightarrow> u64 result" where
  "nb_hash_of b i = expect (get_index (nb_hashes b) i)"

definition nb_lookup :: "name_bank \<Rightarrow> u64 \<Rightarrow> name_row \<Rightarrow> u32 option result" where
  "nb_lookup b hash row = lookup (nb_table b) hash (\<lambda>bits. andthen (row_of_bits (nb_rows b) bits) (\<lambda>t. Inr (t = row)))"

definition nb_insert :: "name_bank \<Rightarrow> u64 \<Rightarrow> name_row \<Rightarrow> (name_bank \<times> u32) result" where
  "nb_insert b hash row =
     andthen (next_index (length (nb_rows b))) (\<lambda>idx.
       let rows = nb_rows b @ [row];
           hashes = nb_hashes b @ [hash];
           bits = (idx + 1) OR nb_region b
       in andthen (insert_bits (nb_table b) hash bits (row_of_bits hashes))
            (\<lambda>t. Inr (b\<lparr>nb_rows := rows, nb_hashes := hashes, nb_table := t\<rparr>, bits)))"

subsection \<open>Levels\<close>

datatype level_row =
    LZero
  | LSucc u32
  | LMax u32 u32
  | LIMax u32 u32
  | LParam "u32 option"
  | LMVar "u32 option"

record level_bank =
  lb_rows :: "level_row list"
  lb_hashes :: "u64 list"
  lb_flags :: "u8 list"
  lb_table :: id_table
  lb_region :: u32

definition lb_new :: "u32 \<Rightarrow> level_bank" where
  "lb_new r = \<lparr>lb_rows = [], lb_hashes = [], lb_flags = [], lb_table = id_table_new, lb_region = r\<rparr>"

definition lb_row :: "level_bank \<Rightarrow> nat \<Rightarrow> level_row option" where
  "lb_row b i = get_index (lb_rows b) i"

definition lb_hash_of :: "level_bank \<Rightarrow> nat \<Rightarrow> u64 result" where
  "lb_hash_of b i = expect (get_index (lb_hashes b) i)"

definition lb_flags_of :: "level_bank \<Rightarrow> nat \<Rightarrow> u8 result" where
  "lb_flags_of b i = expect (get_index (lb_flags b) i)"

definition lb_lookup :: "level_bank \<Rightarrow> u64 \<Rightarrow> level_row \<Rightarrow> u32 option result" where
  "lb_lookup b hash row = lookup (lb_table b) hash (\<lambda>bits. andthen (row_of_bits (lb_rows b) bits) (\<lambda>t. Inr (t = row)))"

definition lb_insert :: "level_bank \<Rightarrow> u64 \<Rightarrow> u8 \<Rightarrow> level_row \<Rightarrow> (level_bank \<times> u32) result" where
  "lb_insert b hash fl row =
     andthen (next_index (length (lb_rows b))) (\<lambda>idx.
       let rows = lb_rows b @ [row];
           hashes = lb_hashes b @ [hash];
           flags = lb_flags b @ [fl];
           bits = (idx + 1) OR lb_region b
       in andthen (insert_bits (lb_table b) hash bits (row_of_bits hashes))
            (\<lambda>t. Inr (b\<lparr>lb_rows := rows, lb_hashes := hashes, lb_flags := flags, lb_table := t\<rparr>, bits)))"

subsection \<open>Terms\<close>

text \<open>A row is its tag byte and three words in four parallel arrays; a fifth holds the data word.\<close>

type_synonym term_row = "u8 \<times> u32 \<times> u32 \<times> u32"

record term_bank =
  tb_tags :: "u8 list"
  tb_a :: "u32 list"
  tb_b :: "u32 list"
  tb_c :: "u32 list"
  tb_data :: "u64 list"
  tb_table :: id_table
  tb_region :: u32

definition tb_new :: "u32 \<Rightarrow> term_bank" where
  "tb_new r = \<lparr>tb_tags = [], tb_a = [], tb_b = [], tb_c = [], tb_data = [], tb_table = id_table_new, tb_region = r\<rparr>"

definition tb_tag_byte :: "term_bank \<Rightarrow> nat \<Rightarrow> u8 result" where
  "tb_tag_byte t i = expect (get_index (tb_tags t) i)"

definition tb_abc :: "term_bank \<Rightarrow> nat \<Rightarrow> (u32 \<times> u32 \<times> u32) result" where
  "tb_abc t i =
     andthen (expect (get_index (tb_a t) i)) (\<lambda>a.
     andthen (expect (get_index (tb_b t) i)) (\<lambda>b.
     andthen (expect (get_index (tb_c t) i)) (\<lambda>c. Inr (a, b, c))))"

definition tb_data_word :: "term_bank \<Rightarrow> nat \<Rightarrow> u64 result" where
  "tb_data_word t i = expect (get_index (tb_data t) i)"

definition row_hash :: "u8 \<Rightarrow> u32 \<Rightarrow> u32 \<Rightarrow> u32 \<Rightarrow> u64" where
  "row_hash tagbyte a b c = mix (ucast tagbyte) (mix (ucast a) (mix (ucast b) (ucast c)))"

definition tb_lookup :: "term_bank \<Rightarrow> u64 \<Rightarrow> u8 \<Rightarrow> u32 \<Rightarrow> u32 \<Rightarrow> u32 \<Rightarrow> u32 option result" where
  "tb_lookup t hash tagbyte a b c =
     lookup (tb_table t) hash (\<lambda>bits.
       let i = id_index bits in
       andthen (tb_tag_byte t i) (\<lambda>tag'.
       andthen (tb_abc t i) (\<lambda>(a', b', c').
         Inr (tag' = tagbyte \<and> a' = a \<and> b' = b \<and> c' = c))))"

definition tb_insert :: "term_bank \<Rightarrow> u64 \<Rightarrow> u8 \<Rightarrow> u32 \<Rightarrow> u32 \<Rightarrow> u32 \<Rightarrow> u64 \<Rightarrow> (term_bank \<times> u32) result" where
  "tb_insert t hash tagbyte a b c data =
     andthen (next_index (length (tb_tags t))) (\<lambda>idx.
       let t' = t\<lparr>tb_tags := tb_tags t @ [tagbyte], tb_a := tb_a t @ [a], tb_b := tb_b t @ [b],
                  tb_c := tb_c t @ [c], tb_data := tb_data t @ [data]\<rparr>;
           bits = (idx + 1) OR tb_region t
       in andthen
            (insert_bits (tb_table t) hash bits (\<lambda>bt.
              let i = id_index bt in
              andthen (tb_tag_byte t' i) (\<lambda>tag'.
              andthen (tb_abc t' i) (\<lambda>(a', b', c').
              andthen (tb_data_word t' i) (\<lambda>d'. Inr (mix (row_hash tag' a' b' c') d'))))))
            (\<lambda>tab. Inr (t'\<lparr>tb_table := tab\<rparr>, bits)))"

section \<open>Their invariant\<close>

definition bank_inv :: "u32 \<Rightarrow> 'r list \<Rightarrow> (nat \<Rightarrow> u64) \<Rightarrow> id_table \<Rightarrow> bool" where
  "bank_inv r rows hash t \<longleftrightarrow> is_region r \<and> distinct rows \<and> length rows \<le> max_rows
     \<and> table_ok t (\<lambda>b. hash (id_index b)) (id_bits r ` {..<length rows})"

lemma bank_inv_new: "is_region r \<Longrightarrow> bank_inv r [] hash id_table_new"
  by (simp add: bank_inv_def)

lemma bank_lookup_hit:
  assumes "bank_inv r rows hash t" and "n < length rows"
    and eq: "\<And>m. m < length rows \<Longrightarrow> id_index (id_bits r m) = m \<Longrightarrow> eq (id_bits r m) = Inr (rows ! m = rows ! n)"
  shows "lookup t (hash n) eq = Inr (Some (id_bits r n))"
proof -
  from assms(1) have ok: "table_ok t (\<lambda>b. hash (id_index b)) (id_bits r ` {..<length rows})"
    and r: "is_region r" "distinct rows" "length rows \<le> max_rows" by (auto simp: bank_inv_def)
  have "eq c = Inr (c = id_bits r n)" if c: "c \<in> id_bits r ` {..<length rows}" for c
  proof -
    from c obtain m where m: "c = id_bits r m" "m < length rows" by auto
    with r assms(2) have "rows ! m = rows ! n \<longleftrightarrow> c = id_bits r n"
      by (auto simp: nth_eq_iff_index_eq id_bits_inject)
    with m eq [of m] r show ?thesis by simp
  qed
  from table_lookup_found [OF ok _ this] assms(2) r show ?thesis by simp
qed

lemma bank_lookup_miss:
  assumes "bank_inv r rows hash t"
    and eq: "\<And>m. m < length rows \<Longrightarrow> id_index (id_bits r m) = m \<Longrightarrow> eq (id_bits r m) = Inr False"
  shows "lookup t h eq = Inr None"
  using assms by (intro table_lookup_absent [where K = "id_bits r ` {..<length rows}"]) (auto simp: bank_inv_def)

lemma bank_insert:
  assumes inv: "bank_inv r rows hash t" and new: "x \<notin> set rows" and room: "length rows < max_rows"
    and rehash: "\<And>m. m < length rows \<Longrightarrow> id_index (id_bits r m) = m \<Longrightarrow> rehash (id_bits r m) = Inr (hash m)"
    and hash': "hash' (length rows) = h" "\<And>m. m < length rows \<Longrightarrow> hash' m = hash m"
  shows "\<exists>t'. insert_bits t h (id_bits r (length rows)) rehash = Inr t' \<and> bank_inv r (rows @ [x]) hash' t'"
proof -
  let ?K = "id_bits r ` {..<length rows}" and ?b = "id_bits r (length rows)"
  from inv have ok: "table_ok t (\<lambda>b. hash (id_index b)) ?K"
    and r: "is_region r" "distinct rows" "length rows \<le> max_rows" by (auto simp: bank_inv_def)
  have ok': "table_ok t (\<lambda>b. hash' (id_index b)) ?K"
    using ok r hash'(2) by (subst table_ok_cong [where h' = "\<lambda>b. hash (id_index b)"]) auto
  have "?b \<notin> ?K" using r room by (auto simp: id_bits_inject)
  moreover have "?b \<noteq> 0" using r room by (simp add: id_bits_nonzero)
  moreover have "rehash c = Inr (hash' (id_index c))" if "c \<in> ?K" for c
    using that r rehash hash'(2) by auto
  ultimately obtain t' where "insert_bits t (hash' (id_index ?b)) ?b rehash = Inr t'"
    "table_ok t' (\<lambda>b. hash' (id_index b)) (insert ?b ?K)"
    using insert_bits_ok [OF ok'] by blast
  moreover have "insert ?b ?K = id_bits r ` {..<length (rows @ [x])}" by (auto simp: lessThan_Suc)
  ultimately show ?thesis using r room hash'(1) new by (auto simp: bank_inv_def)
qed

end
