(* ===== verification/Store.thy ===== *)
theory Store
  imports Banks Levels
begin

text \<open>
  \<open>Store\<close> (\<open>crates/leanr_kernel/src/bank/mod.rs\<close>): one region's complete storage, and the
  functions that intern and read strings, numbers, names, levels, level lists, metadata maps
  and spill rows. \<open>base\<close> is the persistent store under a scratch store. Each function that
  mutates the store takes it as its last argument and returns it; after an \<open>Err\<close> the callers
  drop the store, so an error carries none.

  The hasher of the standard library (\<open>sip\<close>) is a parameter: one function per type it is
  applied to. An \<open>Arc<Syntax>\<close> is compared by address only and is its address.
\<close>

record spill_row =
  sp_name :: "u32 option"
  sp_body_or_aux :: u32

datatype literal = NatVal nat | StrVal string

record hashers =
  sip_str :: "string \<Rightarrow> u64"
  sip_nat :: "nat \<Rightarrow> u64"
  sip_int :: "int \<Rightarrow> u64"
  sip_ids :: "u32 list \<Rightarrow> u64"
  sip_spill :: "spill_row \<Rightarrow> u64"
  sip_literal :: "literal \<Rightarrow> u64"

section \<open>Metadata rows (\<open>bank/pools.rs\<close>)\<close>

datatype data_value_row =
    RStr u32
  | RBool bool
  | RName "u32 option"
  | RNat u32
  | RInt u32
  | RSyntax u64

fun data_value_row_eq :: "data_value_row \<Rightarrow> data_value_row \<Rightarrow> bool" where
  "data_value_row_eq (RStr a) (RStr b) = (a = b)"
| "data_value_row_eq (RBool a) (RBool b) = (a = b)"
| "data_value_row_eq (RName a) (RName b) = (a = b)"
| "data_value_row_eq (RNat a) (RNat b) = (a = b)"
| "data_value_row_eq (RInt a) (RInt b) = (a = b)"
| "data_value_row_eq (RSyntax a) (RSyntax b) = (a = b)"
| "data_value_row_eq _ _ = False"

definition opt_bits :: "u32 option \<Rightarrow> u32" where
  "opt_bits x = (case x of None \<Rightarrow> 0 | Some i \<Rightarrow> i)"

definition data_value_row_hash :: "data_value_row \<Rightarrow> u64" where
  "data_value_row_hash v =
     (case v of
        RStr i \<Rightarrow> mix 0 (ucast i)
      | RBool b \<Rightarrow> mix 1 (if b then 1 else 0)
      | RName i \<Rightarrow> mix 2 (ucast (opt_bits i))
      | RNat i \<Rightarrow> mix 3 (ucast i)
      | RInt i \<Rightarrow> mix 4 (ucast i)
      | RSyntax a \<Rightarrow> mix 5 a)"

type_synonym kvmap_row = "(u32 option \<times> data_value_row) list"

fun kvmap_hash_loop :: "u64 \<Rightarrow> kvmap_row \<Rightarrow> u64" where
  "kvmap_hash_loop h [] = h"
| "kvmap_hash_loop h ((n, v) # row) =
     kvmap_hash_loop (mix h (mix (ucast (opt_bits n)) (data_value_row_hash v))) row"

definition kvmap_row_hash :: "kvmap_row \<Rightarrow> u64" where
  "kvmap_row_hash row = kvmap_hash_loop 17 row"

definition kvmap_row_eq :: "kvmap_row \<Rightarrow> kvmap_row \<Rightarrow> bool" where
  "kvmap_row_eq t row \<longleftrightarrow> list_all2 (\<lambda>(n, v) (m, w). n = m \<and> data_value_row_eq v w) t row"

datatype data_value =
    OfString string
  | OfBool bool
  | OfName name
  | OfNat nat
  | OfInt int
  | OfSyntax u64

type_synonym kvmap = "(name \<times> data_value) list"

section \<open>The store\<close>

record store =
  st_region :: u32
  strs :: "string value_pool"
  nats :: "nat value_pool"
  ints :: "int value_pool"
  names :: name_bank
  levels :: level_bank
  level_lists :: "u32 list value_pool"
  kvmaps :: "kvmap_row value_pool"
  spills :: "spill_row value_pool"
  terms :: term_bank

definition store_new :: "u32 \<Rightarrow> store" where
  "store_new r =
     \<lparr>st_region = r, strs = vp_new r, nats = vp_new r, ints = vp_new r, names = nb_new r,
      levels = lb_new r, level_lists = vp_new r, kvmaps = vp_new r, spills = vp_new r, terms = tb_new r\<rparr>"

definition persistent :: store where "persistent = store_new 0"
definition scratch :: store where "scratch = store_new REGION_BIT"

definition store_for :: "store option \<Rightarrow> store \<Rightarrow> bool \<Rightarrow> store" where
  "store_for base st scratch_bit =
     (if scratch_bit then st else (case base of None \<Rightarrow> st | Some b \<Rightarrow> b))"

section \<open>Value pools\<close>

text \<open>The common body of \<open>intern_str\<close>, \<open>intern_nat\<close> and their likes: the base's pool is read first.\<close>

definition pool_intern ::
    "(store \<Rightarrow> 'a value_pool) \<Rightarrow> ('a value_pool \<Rightarrow> store \<Rightarrow> store) \<Rightarrow> u64 \<Rightarrow> ('a \<Rightarrow> bool) \<Rightarrow> 'a
     \<Rightarrow> ('a \<Rightarrow> u64) \<Rightarrow> store option \<Rightarrow> store \<Rightarrow> (u32 \<times> store) result" where
  "pool_intern pool upd h eq x rehash base st =
     intern_row (case base of None \<Rightarrow> Inr None | Some b \<Rightarrow> vp_lookup (pool b) h eq) (Inr None)
       (vp_intern (pool st) h eq x rehash) (\<lambda>p. upd p st) st"

definition intern_str :: "hashers \<Rightarrow> store option \<Rightarrow> string \<Rightarrow> store \<Rightarrow> (u32 \<times> store) result" where
  "intern_str H base s =
     pool_intern strs (\<lambda>p st. st\<lparr>strs := p\<rparr>) (sip_str H s) (\<lambda>t. t = s) s (sip_str H) base"

definition str_at :: "store option \<Rightarrow> store \<Rightarrow> u32 \<Rightarrow> string result" where
  "str_at base st i = expect (vp_get (strs (store_for base st (is_scratch i))) (id_index i))"

definition intern_nat :: "hashers \<Rightarrow> store option \<Rightarrow> nat \<Rightarrow> store \<Rightarrow> (u32 \<times> store) result" where
  "intern_nat H base n =
     pool_intern nats (\<lambda>p st. st\<lparr>nats := p\<rparr>) (sip_nat H n) (\<lambda>t. t = n) n (sip_nat H) base"

definition nat_at :: "store option \<Rightarrow> store \<Rightarrow> u32 \<Rightarrow> nat result" where
  "nat_at base st i = expect (vp_get (nats (store_for base st (is_scratch i))) (id_index i))"

definition intern_int :: "hashers \<Rightarrow> store option \<Rightarrow> int \<Rightarrow> store \<Rightarrow> (u32 \<times> store) result" where
  "intern_int H base n =
     pool_intern ints (\<lambda>p st. st\<lparr>ints := p\<rparr>) (sip_int H n) (\<lambda>t. t = n) n (sip_int H) base"

definition int_at :: "store option \<Rightarrow> store \<Rightarrow> u32 \<Rightarrow> int result" where
  "int_at base st i = expect (vp_get (ints (store_for base st (is_scratch i))) (id_index i))"

section \<open>Names\<close>

definition name_hash_of :: "store option \<Rightarrow> store \<Rightarrow> u32 option \<Rightarrow> u64 result" where
  "name_hash_of base st x =
     (case x of
        None \<Rightarrow> Inr 0
      | Some i \<Rightarrow> nb_hash_of (names (store_for base st (is_scratch i))) (id_index i))"

definition name_intern_row :: "store option \<Rightarrow> u64 \<Rightarrow> name_row \<Rightarrow> store \<Rightarrow> (u32 \<times> store) result" where
  "name_intern_row base hash row st =
     intern_row (case base of None \<Rightarrow> Inr None | Some b \<Rightarrow> nb_lookup (names b) hash row)
       (nb_lookup (names st) hash row) (nb_insert (names st) hash row) (\<lambda>b. st\<lparr>names := b\<rparr>) st"

definition name_str :: "hashers \<Rightarrow> store option \<Rightarrow> u32 option \<Rightarrow> u32 \<Rightarrow> store \<Rightarrow> (u32 \<times> store) result" where
  "name_str H base p part st =
     andthen (name_hash_of base st p) (\<lambda>ph.
     andthen (str_at base st part) (\<lambda>s.
       name_intern_row base (mix 1 (mix ph (sip_str H s))) (NStr p part) st))"

definition name_num :: "hashers \<Rightarrow> store option \<Rightarrow> u32 option \<Rightarrow> u32 \<Rightarrow> store \<Rightarrow> (u32 \<times> store) result" where
  "name_num H base p part st =
     andthen (name_hash_of base st p) (\<lambda>ph.
     andthen (nat_at base st part) (\<lambda>n.
       name_intern_row base (mix 2 (mix ph (sip_nat H n))) (NNum p part) st))"

definition name_row :: "store option \<Rightarrow> store \<Rightarrow> u32 \<Rightarrow> name_row result" where
  "name_row base st i = expect (nb_row (names (store_for base st (is_scratch i))) (id_index i))"

text \<open>\<open>intern_name\<close> collects the components from the last to the root, then interns root first.\<close>

fun name_chain :: "name \<Rightarrow> name list \<Rightarrow> name list" where
  "name_chain Anonymous chain = chain"
| "name_chain (Str p s) chain = name_chain p (chain @ [Str p s])"
| "name_chain (Num p n) chain = name_chain p (chain @ [Num p n])"

fun intern_components ::
    "hashers \<Rightarrow> store option \<Rightarrow> name list \<Rightarrow> u32 option \<Rightarrow> store \<Rightarrow> (u32 option \<times> store) result" where
  "intern_components H base [] i st = Inr (i, st)"
| "intern_components H base (c # comps) i st =
     andthen
       (case c of
          Str _ part \<Rightarrow> andthen (intern_str H base part st) (\<lambda>(s, st). name_str H base i s st)
        | Num _ part \<Rightarrow> andthen (intern_nat H base part st) (\<lambda>(p, st). name_num H base i p st)
        | Anonymous \<Rightarrow> Inl Panic)
       (\<lambda>(j, st). intern_components H base comps (Some j) st)"

definition intern_name :: "hashers \<Rightarrow> store option \<Rightarrow> name \<Rightarrow> store \<Rightarrow> (u32 option \<times> store) result" where
  "intern_name H base n st = intern_components H base (rev (name_chain n [])) None st"

definition row_parent :: "name_row \<Rightarrow> u32 option" where
  "row_parent row = (case row of NStr p _ \<Rightarrow> p | NNum p _ \<Rightarrow> p)"

partial_function (option) parent_chain ::
    "store option \<Rightarrow> store \<Rightarrow> u32 option \<Rightarrow> u32 list \<Rightarrow> u32 list result option" where
  "parent_chain base st cur chain =
     (case cur of
        None \<Rightarrow> Some (Inr chain)
      | Some c \<Rightarrow>
          (case name_row base st c of
             Inl e \<Rightarrow> Some (Inl e)
           | Inr row \<Rightarrow> parent_chain base st (row_parent row) (chain @ [c])))"

declare parent_chain.simps [code]

fun build_name :: "store option \<Rightarrow> store \<Rightarrow> u32 list \<Rightarrow> name \<Rightarrow> name result" where
  "build_name base st [] n = Inr n"
| "build_name base st (c # cs) n =
     andthen (name_row base st c) (\<lambda>row. case row of
        NStr _ part \<Rightarrow> andthen (str_at base st part) (\<lambda>s. build_name base st cs (Str n s))
      | NNum _ part \<Rightarrow> andthen (nat_at base st part) (\<lambda>k. build_name base st cs (Num n k)))"

definition to_name :: "store option \<Rightarrow> store \<Rightarrow> u32 option \<Rightarrow> name result" where
  "to_name base st i =
     andthen (loop_result (parent_chain base st i [])) (\<lambda>chain. build_name base st (rev chain) Anonymous)"

section \<open>Levels\<close>

definition level_hash :: "store option \<Rightarrow> store \<Rightarrow> u32 \<Rightarrow> u64 result" where
  "level_hash base st i = lb_hash_of (levels (store_for base st (is_scratch i))) (id_index i)"

definition level_flags :: "store option \<Rightarrow> store \<Rightarrow> u32 \<Rightarrow> u8 result" where
  "level_flags base st i = lb_flags_of (levels (store_for base st (is_scratch i))) (id_index i)"

definition level_row :: "store option \<Rightarrow> store \<Rightarrow> u32 \<Rightarrow> level_row result" where
  "level_row base st i = expect (lb_row (levels (store_for base st (is_scratch i))) (id_index i))"

definition level_intern_row :: "store option \<Rightarrow> u64 \<Rightarrow> u8 \<Rightarrow> level_row \<Rightarrow> store \<Rightarrow> (u32 \<times> store) result" where
  "level_intern_row base hash flags row st =
     intern_row (case base of None \<Rightarrow> Inr None | Some b \<Rightarrow> lb_lookup (levels b) hash row)
       (lb_lookup (levels st) hash row) (lb_insert (levels st) hash flags row) (\<lambda>b. st\<lparr>levels := b\<rparr>) st"

definition level_zero :: "store option \<Rightarrow> store \<Rightarrow> (u32 \<times> store) result" where
  "level_zero base st = level_intern_row base 11 0 LZero st"

definition level_succ :: "store option \<Rightarrow> u32 \<Rightarrow> store \<Rightarrow> (u32 \<times> store) result" where
  "level_succ base a st =
     andthen (level_hash base st a) (\<lambda>h.
     andthen (level_flags base st a) (\<lambda>f. level_intern_row base (mix 12 h) f (LSucc a) st))"

definition level_max :: "store option \<Rightarrow> u32 \<Rightarrow> u32 \<Rightarrow> store \<Rightarrow> (u32 \<times> store) result" where
  "level_max base a b st =
     andthen (level_hash base st a) (\<lambda>ha. andthen (level_hash base st b) (\<lambda>hb.
     andthen (level_flags base st a) (\<lambda>fa. andthen (level_flags base st b) (\<lambda>fb.
       level_intern_row base (mix 13 (mix ha hb)) (fa OR fb) (LMax a b) st))))"

definition level_imax :: "store option \<Rightarrow> u32 \<Rightarrow> u32 \<Rightarrow> store \<Rightarrow> (u32 \<times> store) result" where
  "level_imax base a b st =
     andthen (level_hash base st a) (\<lambda>ha. andthen (level_hash base st b) (\<lambda>hb.
     andthen (level_flags base st a) (\<lambda>fa. andthen (level_flags base st b) (\<lambda>fb.
       level_intern_row base (mix 14 (mix ha hb)) (fa OR fb) (LIMax a b) st))))"

definition level_param :: "store option \<Rightarrow> u32 option \<Rightarrow> store \<Rightarrow> (u32 \<times> store) result" where
  "level_param base n st =
     andthen (name_hash_of base st n) (\<lambda>nh. level_intern_row base (mix 15 nh) 1 (LParam n) st)"

definition level_mvar :: "store option \<Rightarrow> u32 option \<Rightarrow> store \<Rightarrow> (u32 \<times> store) result" where
  "level_mvar base n st =
     andthen (name_hash_of base st n) (\<lambda>nh. level_intern_row base (mix 16 nh) 2 (LMVar n) st)"

text \<open>
  \<open>intern_level\<close> walks the tree in post-order with an explicit stack (its top first here). The
  memo of the call is keyed by the address of an \<open>Arc\<close>, which here is the tree itself: a hit
  gives the id that a second walk would give.
\<close>

datatype 'a frame = Enter 'a | Exit 'a

definition pop :: "'a list \<Rightarrow> ('a \<times> 'a list) result" where
  "pop xs = (case xs of [] \<Rightarrow> Inl Panic | x # xs \<Rightarrow> Inr (x, xs))"

fun level_weight :: "level \<Rightarrow> nat" where
  "level_weight (Succ a) = 2 + level_weight a"
| "level_weight (Max a b) = 2 + level_weight a + level_weight b"
| "level_weight (IMax a b) = 2 + level_weight a + level_weight b"
| "level_weight _ = 2"

lemma level_weight_pos [simp]: "0 < level_weight l"
  by (cases l) simp_all

fun frame_weight :: "level frame \<Rightarrow> nat" where
  "frame_weight (Enter l) = level_weight l"
| "frame_weight (Exit l) = 1"

text \<open>The children's frames that \<open>Enter\<close> pushes, the first to be walked on top.\<close>

definition level_children :: "level \<Rightarrow> level list" where
  "level_children l =
     (case l of Succ a \<Rightarrow> [a] | Max a b \<Rightarrow> [a, b] | IMax a b \<Rightarrow> [a, b] | _ \<Rightarrow> [])"

text \<open>The body of the \<open>Exit\<close> arm: the new id, and the ids that are left on \<open>out\<close>.\<close>

definition exit_level ::
    "hashers \<Rightarrow> store option \<Rightarrow> level \<Rightarrow> u32 list \<Rightarrow> store \<Rightarrow> ((u32 \<times> u32 list) \<times> store) result" where
  "exit_level H base l out st =
     (case l of
        Zero \<Rightarrow> andthen (level_zero base st) (\<lambda>(i, st). Inr ((i, out), st))
      | Succ _ \<Rightarrow>
          andthen (pop out) (\<lambda>(a, out).
          andthen (level_succ base a st) (\<lambda>(i, st). Inr ((i, out), st)))
      | Max _ _ \<Rightarrow>
          andthen (pop out) (\<lambda>(b, out). andthen (pop out) (\<lambda>(a, out).
          andthen (level_max base a b st) (\<lambda>(i, st). Inr ((i, out), st))))
      | IMax _ _ \<Rightarrow>
          andthen (pop out) (\<lambda>(b, out). andthen (pop out) (\<lambda>(a, out).
          andthen (level_imax base a b st) (\<lambda>(i, st). Inr ((i, out), st))))
      | Param n \<Rightarrow>
          andthen (intern_name H base n st) (\<lambda>(n, st).
          andthen (level_param base n st) (\<lambda>(i, st). Inr ((i, out), st)))
      | MVar n \<Rightarrow>
          andthen (intern_name H base n st) (\<lambda>(n, st).
          andthen (level_mvar base n st) (\<lambda>(i, st). Inr ((i, out), st))))"

function intern_level_loop ::
    "hashers \<Rightarrow> store option \<Rightarrow> level frame list \<Rightarrow> u32 list \<Rightarrow> (level \<rightharpoonup> u32) \<Rightarrow> store
     \<Rightarrow> (u32 list \<times> store) result" where
  "intern_level_loop H base [] out memo st = Inr (out, st)"
| "intern_level_loop H base (Enter l # stack) out memo st =
     (case memo l of
        Some i \<Rightarrow> intern_level_loop H base stack (i # out) memo st
      | None \<Rightarrow>
          intern_level_loop H base (map Enter (level_children l) @ Exit l # stack) out memo st)"
| "intern_level_loop H base (Exit l # stack) out memo st =
     andthen (exit_level H base l out st) (\<lambda>((i, out), st).
       intern_level_loop H base stack (i # out) (memo(l \<mapsto> i)) st)"
  by pat_completeness auto
termination
  by (relation "measure (\<lambda>(H, base, stack, out, memo, st). sum_list (map frame_weight stack))")
    (auto simp: level_children_def split: level.split)

definition intern_level :: "hashers \<Rightarrow> store option \<Rightarrow> level \<Rightarrow> store \<Rightarrow> (u32 \<times> store) result" where
  "intern_level H base l st =
     andthen (intern_level_loop H base [Enter l] [] (\<lambda>_. None) st) (\<lambda>(out, st).
       andthen (pop out) (\<lambda>(i, _). Inr (i, st)))"

text \<open>\<open>to_level\<close> is the same walk over ids, with a memo keyed by id.\<close>

definition row_children :: "level_row \<Rightarrow> u32 list" where
  "row_children row =
     (case row of LSucc a \<Rightarrow> [a] | LMax a b \<Rightarrow> [a, b] | LIMax a b \<Rightarrow> [a, b] | _ \<Rightarrow> [])"

definition exit_row ::
    "store option \<Rightarrow> store \<Rightarrow> level_row \<Rightarrow> level list \<Rightarrow> (level \<times> level list) result" where
  "exit_row base st row out =
     (case row of
        LZero \<Rightarrow> Inr (Zero, out)
      | LSucc _ \<Rightarrow> andthen (pop out) (\<lambda>(a, out). Inr (Succ a, out))
      | LMax _ _ \<Rightarrow> andthen (pop out) (\<lambda>(b, out). andthen (pop out) (\<lambda>(a, out). Inr (Max a b, out)))
      | LIMax _ _ \<Rightarrow> andthen (pop out) (\<lambda>(b, out). andthen (pop out) (\<lambda>(a, out). Inr (IMax a b, out)))
      | LParam n \<Rightarrow> andthen (to_name base st n) (\<lambda>n. Inr (Param n, out))
      | LMVar n \<Rightarrow> andthen (to_name base st n) (\<lambda>n. Inr (MVar n, out)))"

partial_function (option) to_level_loop ::
    "store option \<Rightarrow> store \<Rightarrow> u32 frame list \<Rightarrow> level list \<Rightarrow> (u32 \<rightharpoonup> level) \<Rightarrow> level list result option" where
  "to_level_loop base st stack out memo =
     (case stack of
        [] \<Rightarrow> Some (Inr out)
      | Enter i # stack \<Rightarrow>
          (case memo i of
             Some l \<Rightarrow> to_level_loop base st stack (l # out) memo
           | None \<Rightarrow>
               (case level_row base st i of
                  Inl e \<Rightarrow> Some (Inl e)
                | Inr row \<Rightarrow>
                    to_level_loop base st (map Enter (row_children row) @ Exit i # stack) out memo))
      | Exit i # stack \<Rightarrow>
          (case andthen (level_row base st i) (\<lambda>row. exit_row base st row out) of
             Inl e \<Rightarrow> Some (Inl e)
           | Inr (l, out) \<Rightarrow> to_level_loop base st stack (l # out) (memo(i \<mapsto> l))))"

declare to_level_loop.simps [code]

definition to_level :: "store option \<Rightarrow> store \<Rightarrow> u32 \<Rightarrow> level result" where
  "to_level base st i =
     andthen (loop_result (to_level_loop base st [Enter i] [] (\<lambda>_. None))) (\<lambda>out.
       andthen (pop out) (\<lambda>(l, _). Inr l))"

section \<open>Level lists, metadata, spill rows\<close>

definition same_ids :: "u32 list \<Rightarrow> u32 list \<Rightarrow> bool" where
  "same_ids t l \<longleftrightarrow> length t = length l \<and> list_all (\<lambda>(a, b). a = b) (zip t l)"

definition intern_level_list :: "hashers \<Rightarrow> store option \<Rightarrow> u32 list \<Rightarrow> store \<Rightarrow> (u32 \<times> store) result" where
  "intern_level_list H base l =
     pool_intern level_lists (\<lambda>p st. st\<lparr>level_lists := p\<rparr>) (sip_ids H l) (\<lambda>t. same_ids t l) l (sip_ids H) base"

definition level_list_at :: "store option \<Rightarrow> store \<Rightarrow> u32 \<Rightarrow> u32 list result" where
  "level_list_at base st i = expect (vp_get (level_lists (store_for base st (is_scratch i))) (id_index i))"

definition intern_data_value ::
    "hashers \<Rightarrow> store option \<Rightarrow> data_value \<Rightarrow> store \<Rightarrow> (data_value_row \<times> store) result" where
  "intern_data_value H base v st =
     (case v of
        OfString s \<Rightarrow> andthen (intern_str H base s st) (\<lambda>(i, st). Inr (RStr i, st))
      | OfBool b \<Rightarrow> Inr (RBool b, st)
      | OfName n \<Rightarrow> andthen (intern_name H base n st) (\<lambda>(i, st). Inr (RName i, st))
      | OfNat n \<Rightarrow> andthen (intern_nat H base n st) (\<lambda>(i, st). Inr (RNat i, st))
      | OfInt n \<Rightarrow> andthen (intern_int H base n st) (\<lambda>(i, st). Inr (RInt i, st))
      | OfSyntax a \<Rightarrow> Inr (RSyntax a, st))"

definition data_value_of :: "store option \<Rightarrow> store \<Rightarrow> data_value_row \<Rightarrow> data_value result" where
  "data_value_of base st v =
     (case v of
        RStr i \<Rightarrow> andthen (str_at base st i) (\<lambda>s. Inr (OfString s))
      | RBool b \<Rightarrow> Inr (OfBool b)
      | RName i \<Rightarrow> andthen (to_name base st i) (\<lambda>n. Inr (OfName n))
      | RNat i \<Rightarrow> andthen (nat_at base st i) (\<lambda>n. Inr (OfNat n))
      | RInt i \<Rightarrow> andthen (int_at base st i) (\<lambda>n. Inr (OfInt n))
      | RSyntax a \<Rightarrow> Inr (OfSyntax a))"

definition intern_kvmap_rows ::
    "store option \<Rightarrow> kvmap_row \<Rightarrow> store \<Rightarrow> (u32 \<times> store) result" where
  "intern_kvmap_rows base row =
     pool_intern kvmaps (\<lambda>p st. st\<lparr>kvmaps := p\<rparr>) (kvmap_row_hash row) (\<lambda>t. kvmap_row_eq t row) row
       kvmap_row_hash base"

fun intern_entries ::
    "hashers \<Rightarrow> store option \<Rightarrow> kvmap \<Rightarrow> kvmap_row \<Rightarrow> store \<Rightarrow> (kvmap_row \<times> store) result" where
  "intern_entries H base [] entries st = Inr (entries, st)"
| "intern_entries H base ((n, v) # m) entries st =
     andthen (intern_name H base n st) (\<lambda>(i, st).
     andthen (intern_data_value H base v st) (\<lambda>(r, st).
       intern_entries H base m (entries @ [(i, r)]) st))"

definition intern_kvmap :: "hashers \<Rightarrow> store option \<Rightarrow> kvmap \<Rightarrow> store \<Rightarrow> (u32 \<times> store) result" where
  "intern_kvmap H base m st =
     andthen (intern_entries H base m [] st) (\<lambda>(entries, st). intern_kvmap_rows base entries st)"

definition kvmap_at :: "store option \<Rightarrow> store \<Rightarrow> u32 \<Rightarrow> kvmap_row result" where
  "kvmap_at base st i = expect (vp_get (kvmaps (store_for base st (is_scratch i))) (id_index i))"

fun entries_of :: "store option \<Rightarrow> store \<Rightarrow> kvmap_row \<Rightarrow> kvmap result" where
  "entries_of base st [] = Inr []"
| "entries_of base st ((i, r) # row) =
     andthen (to_name base st i) (\<lambda>n. andthen (data_value_of base st r) (\<lambda>v.
     andthen (entries_of base st row) (\<lambda>m. Inr ((n, v) # m))))"

definition to_kvmap :: "store option \<Rightarrow> store \<Rightarrow> u32 \<Rightarrow> kvmap result" where
  "to_kvmap base st i = andthen (kvmap_at base st i) (entries_of base st)"

definition intern_spill :: "hashers \<Rightarrow> store option \<Rightarrow> u32 option \<Rightarrow> u32 \<Rightarrow> store \<Rightarrow> (u32 \<times> store) result" where
  "intern_spill H base n body_bits =
     (let row = \<lparr>sp_name = n, sp_body_or_aux = body_bits\<rparr> in
      pool_intern spills (\<lambda>p st. st\<lparr>spills := p\<rparr>) (sip_spill H row) (\<lambda>t. t = row) row (sip_spill H) base)"

definition spill_at :: "store option \<Rightarrow> store \<Rightarrow> u32 \<Rightarrow> spill_row result" where
  "spill_at base st i = expect (vp_get (spills (store_for base st (is_scratch i))) (id_index i))"

end
