(* ===== verification/Bank_Contracts.thy ===== *)
theory Bank_Contracts
  imports Banks
begin

text \<open>
  The four banks keep the promises of \<open>id_bank\<close>. Their invariants: the rows are distinct, the
  parallel arrays have the same length, and the id table holds the id of every row under the
  row's hash.
\<close>

definition assoc :: "'a list \<Rightarrow> 'b list \<Rightarrow> 'a \<Rightarrow> 'b" where
  "assoc xs ys x = the (map_of (zip xs ys) x)"

lemma assoc_nth: "distinct xs \<Longrightarrow> length xs = length ys \<Longrightarrow> i < length xs \<Longrightarrow> assoc xs ys (xs ! i) = ys ! i"
  by (simp add: assoc_def map_of_zip_nth)

lemma assoc_snoc:
  assumes "length xs = length ys" and "x \<notin> set xs"
  shows "assoc (xs @ [x]) (ys @ [y]) x = y"
    and "s \<in> set xs \<Longrightarrow> assoc (xs @ [x]) (ys @ [y]) s = assoc xs ys s"
  using assms by (auto simp: assoc_def map_add_def split: option.split dest: map_of_SomeD set_zip_leftD)

lemma next_id: "n < max_rows \<Longrightarrow> next_index n = Inr (of_nat n)"
  by (simp add: next_index_eq)

lemma row_of_bits_nth [simp]: "id_index b = m \<Longrightarrow> m < length xs \<Longrightarrow> row_of_bits xs b = Inr (xs ! m)"
  by (simp add: row_of_bits_def)

section \<open>Value pools\<close>

definition vp_inv :: "('a \<Rightarrow> u64) \<Rightarrow> 'a value_pool \<Rightarrow> bool" where
  "vp_inv rehash p \<longleftrightarrow> bank_inv (vp_region p) (vp_items p) (\<lambda>i. rehash (vp_items p ! i)) (vp_table p)"

lemma vp_inv_new: "is_region r \<Longrightarrow> vp_inv rehash (vp_new r)"
  by (simp add: vp_inv_def vp_new_def bank_inv_new)

interpretation pool: id_bank "vp_inv rehash" vp_items vp_region "\<lambda>_ _. ()" "\<lambda>_ x. rehash x" "\<lambda>h _ x. h = rehash x"
  "\<lambda>p h x. vp_lookup p h (\<lambda>t. t = x)" "\<lambda>p h _ x. vp_push p h x rehash"
  for rehash :: "'a \<Rightarrow> u64"
proof
  fix p :: "'a value_pool" and x h i
  assume inv: "vp_inv rehash p"
  then show "is_region (vp_region p)" "distinct (vp_items p)" "length (vp_items p) \<le> max_rows"
    by (simp_all add: vp_inv_def bank_inv_def)
  show "i < length (vp_items p) \<Longrightarrow> vp_lookup p (rehash (vp_items p ! i)) (\<lambda>t. t = vp_items p ! i)
      = Inr (Some (id_bits (vp_region p) i))"
    using inv unfolding vp_lookup_def vp_inv_def by (rule bank_lookup_hit) auto
  show "x \<notin> set (vp_items p) \<Longrightarrow> vp_lookup p h (\<lambda>t. t = x) = Inr None"
    using inv unfolding vp_lookup_def vp_inv_def by (rule bank_lookup_miss) auto
  show "x \<notin> set (vp_items p) \<Longrightarrow> length (vp_items p) = max_rows \<Longrightarrow> vp_push p h x rehash = Inl BankExhausted"
    by (simp add: vp_push_def next_index_eq)
  assume x: "x \<notin> set (vp_items p)" "h = rehash x" "length (vp_items p) < max_rows"
  from inv have inv: "bank_inv (vp_region p) (vp_items p) (\<lambda>i. rehash (vp_items p ! i)) (vp_table p)"
    by (simp add: vp_inv_def)
  have "\<exists>t. insert_bits (vp_table p) h (id_bits (vp_region p) (length (vp_items p)))
      (\<lambda>b. andthen (row_of_bits (vp_items p @ [x]) b) (\<lambda>t. Inr (rehash t))) = Inr t
    \<and> bank_inv (vp_region p) (vp_items p @ [x]) (\<lambda>i. rehash ((vp_items p @ [x]) ! i)) t"
    by (rule bank_insert [OF inv x(1,3)]) (simp_all add: nth_append x(2))
  then obtain t where "insert_bits (vp_table p) h (id_bits (vp_region p) (length (vp_items p)))
      (\<lambda>b. andthen (row_of_bits (vp_items p @ [x]) b) (\<lambda>t. Inr (rehash t))) = Inr t"
    "bank_inv (vp_region p) (vp_items p @ [x]) (\<lambda>i. rehash ((vp_items p @ [x]) ! i)) t" by blast
  with x show "\<exists>b'. vp_push p h x rehash = Inr (b', id_bits (vp_region p) (length (vp_items p))) \<and>
      vp_inv rehash b' \<and> vp_items b' = vp_items p @ [x] \<and> vp_region b' = vp_region p \<and> rehash x = h \<and> () = u \<and>
      (\<forall>s \<in> set (vp_items p). rehash s = rehash s \<and> () = ())" for u :: unit
    by (simp add: vp_push_def next_id id_bits_def vp_inv_def)
qed

section \<open>Names\<close>

definition nb_inv :: "name_bank \<Rightarrow> bool" where
  "nb_inv b \<longleftrightarrow> bank_inv (nb_region b) (nb_rows b) (\<lambda>i. nb_hashes b ! i) (nb_table b)
     \<and> length (nb_hashes b) = length (nb_rows b)"

lemma nb_inv_new: "is_region r \<Longrightarrow> nb_inv (nb_new r)"
  by (simp add: nb_inv_def nb_new_def bank_inv_new)

interpretation nb: id_bank nb_inv nb_rows nb_region "\<lambda>_ _. ()" "\<lambda>b. assoc (nb_rows b) (nb_hashes b)" "\<lambda>_ _ _. True"
  nb_lookup "\<lambda>b h _ row. nb_insert b h row"
proof
  fix b :: name_bank and row h i
  assume inv: "nb_inv b"
  then show "is_region (nb_region b)" "distinct (nb_rows b)" "length (nb_rows b) \<le> max_rows"
    by (simp_all add: nb_inv_def bank_inv_def)
  have len: "length (nb_rows b) = length (nb_hashes b)" and dist: "distinct (nb_rows b)"
    and bi: "bank_inv (nb_region b) (nb_rows b) (\<lambda>i. nb_hashes b ! i) (nb_table b)"
    using inv by (auto simp: nb_inv_def bank_inv_def)
  show "i < length (nb_rows b) \<Longrightarrow> nb_lookup b (assoc (nb_rows b) (nb_hashes b) (nb_rows b ! i)) (nb_rows b ! i)
      = Inr (Some (id_bits (nb_region b) i))"
    unfolding nb_lookup_def assoc_nth [OF dist len] using bi by (rule bank_lookup_hit) auto
  show "row \<notin> set (nb_rows b) \<Longrightarrow> nb_lookup b h row = Inr None"
    unfolding nb_lookup_def using bi by (rule bank_lookup_miss) auto
  show "row \<notin> set (nb_rows b) \<Longrightarrow> length (nb_rows b) = max_rows \<Longrightarrow> nb_insert b h row = Inl BankExhausted"
    by (simp add: nb_insert_def next_index_eq)
  assume x: "row \<notin> set (nb_rows b)" "length (nb_rows b) < max_rows"
  have "\<exists>t. insert_bits (nb_table b) h (id_bits (nb_region b) (length (nb_rows b)))
      (row_of_bits (nb_hashes b @ [h])) = Inr t
    \<and> bank_inv (nb_region b) (nb_rows b @ [row]) (\<lambda>i. (nb_hashes b @ [h]) ! i) t"
    by (rule bank_insert [OF bi x]) (simp_all add: nth_append len)
  then obtain t where "insert_bits (nb_table b) h (id_bits (nb_region b) (length (nb_rows b)))
      (row_of_bits (nb_hashes b @ [h])) = Inr t"
    "bank_inv (nb_region b) (nb_rows b @ [row]) (\<lambda>i. (nb_hashes b @ [h]) ! i) t" by blast
  with x len show "\<exists>b'. nb_insert b h row = Inr (b', id_bits (nb_region b) (length (nb_rows b))) \<and>
      nb_inv b' \<and> nb_rows b' = nb_rows b @ [row] \<and> nb_region b' = nb_region b \<and>
      assoc (nb_rows b') (nb_hashes b') row = h \<and> () = u \<and>
      (\<forall>s \<in> set (nb_rows b). assoc (nb_rows b') (nb_hashes b') s = assoc (nb_rows b) (nb_hashes b) s \<and> () = ())"
    for u :: unit
    by (simp add: nb_insert_def next_id id_bits_def nb_inv_def assoc_snoc)
qed

section \<open>Levels\<close>

definition lb_inv :: "level_bank \<Rightarrow> bool" where
  "lb_inv b \<longleftrightarrow> bank_inv (lb_region b) (lb_rows b) (\<lambda>i. lb_hashes b ! i) (lb_table b)
     \<and> length (lb_hashes b) = length (lb_rows b) \<and> length (lb_flags b) = length (lb_rows b)"

lemma lb_inv_new: "is_region r \<Longrightarrow> lb_inv (lb_new r)"
  by (simp add: lb_inv_def lb_new_def bank_inv_new)

interpretation lb: id_bank lb_inv lb_rows lb_region "\<lambda>b. assoc (lb_rows b) (lb_flags b)"
  "\<lambda>b. assoc (lb_rows b) (lb_hashes b)" "\<lambda>_ _ _. True" lb_lookup lb_insert
proof
  fix b :: level_bank and row h i p
  assume inv: "lb_inv b"
  then show "is_region (lb_region b)" "distinct (lb_rows b)" "length (lb_rows b) \<le> max_rows"
    by (simp_all add: lb_inv_def bank_inv_def)
  have len: "length (lb_rows b) = length (lb_hashes b)" "length (lb_rows b) = length (lb_flags b)"
    and dist: "distinct (lb_rows b)"
    and bi: "bank_inv (lb_region b) (lb_rows b) (\<lambda>i. lb_hashes b ! i) (lb_table b)"
    using inv by (auto simp: lb_inv_def bank_inv_def)
  show "i < length (lb_rows b) \<Longrightarrow> lb_lookup b (assoc (lb_rows b) (lb_hashes b) (lb_rows b ! i)) (lb_rows b ! i)
      = Inr (Some (id_bits (lb_region b) i))"
    unfolding lb_lookup_def assoc_nth [OF dist len(1)] using bi by (rule bank_lookup_hit) auto
  show "row \<notin> set (lb_rows b) \<Longrightarrow> lb_lookup b h row = Inr None"
    unfolding lb_lookup_def using bi by (rule bank_lookup_miss) auto
  show "row \<notin> set (lb_rows b) \<Longrightarrow> length (lb_rows b) = max_rows \<Longrightarrow> lb_insert b h p row = Inl BankExhausted"
    by (simp add: lb_insert_def next_index_eq)
  assume x: "row \<notin> set (lb_rows b)" "length (lb_rows b) < max_rows"
  have "\<exists>t. insert_bits (lb_table b) h (id_bits (lb_region b) (length (lb_rows b)))
      (row_of_bits (lb_hashes b @ [h])) = Inr t
    \<and> bank_inv (lb_region b) (lb_rows b @ [row]) (\<lambda>i. (lb_hashes b @ [h]) ! i) t"
    by (rule bank_insert [OF bi x]) (simp_all add: nth_append len)
  then obtain t where "insert_bits (lb_table b) h (id_bits (lb_region b) (length (lb_rows b)))
      (row_of_bits (lb_hashes b @ [h])) = Inr t"
    "bank_inv (lb_region b) (lb_rows b @ [row]) (\<lambda>i. (lb_hashes b @ [h]) ! i) t" by blast
  with x len show "\<exists>b'. lb_insert b h p row = Inr (b', id_bits (lb_region b) (length (lb_rows b))) \<and>
      lb_inv b' \<and> lb_rows b' = lb_rows b @ [row] \<and> lb_region b' = lb_region b \<and>
      assoc (lb_rows b') (lb_hashes b') row = h \<and> assoc (lb_rows b') (lb_flags b') row = p \<and>
      (\<forall>s \<in> set (lb_rows b). assoc (lb_rows b') (lb_hashes b') s = assoc (lb_rows b) (lb_hashes b) s \<and>
        assoc (lb_rows b') (lb_flags b') s = assoc (lb_rows b) (lb_flags b) s)"
    by (simp add: lb_insert_def next_id id_bits_def lb_inv_def assoc_snoc)
qed

section \<open>Terms\<close>

definition tb_rows :: "term_bank \<Rightarrow> term_row list" where
  "tb_rows t = zip (tb_tags t) (zip (tb_a t) (zip (tb_b t) (tb_c t)))"

fun term_hash :: "u64 \<Rightarrow> term_row \<Rightarrow> u64" where
  "term_hash d (tag, a, b, c) = mix (row_hash tag a b c) d"

definition tb_parallel :: "term_bank \<Rightarrow> bool" where
  "tb_parallel t \<longleftrightarrow> length (tb_tags t) = length (tb_data t) \<and> length (tb_a t) = length (tb_data t)
     \<and> length (tb_b t) = length (tb_data t) \<and> length (tb_c t) = length (tb_data t)"

definition tb_inv :: "term_bank \<Rightarrow> bool" where
  "tb_inv t \<longleftrightarrow> bank_inv (tb_region t) (tb_rows t) (\<lambda>i. term_hash (tb_data t ! i) (tb_rows t ! i)) (tb_table t)
     \<and> tb_parallel t"

lemma tb_inv_new: "is_region r \<Longrightarrow> tb_inv (tb_new r)"
  by (simp add: tb_inv_def tb_new_def tb_rows_def tb_parallel_def bank_inv_new)

lemma tb_reads:
  assumes "tb_parallel t" and "i < length (tb_rows t)" and "tb_rows t ! i = (tag, a, b, c)"
  shows "tb_tag_byte t i = Inr tag" and "tb_abc t i = Inr (a, b, c)"
    and "tb_data_word t i = Inr (tb_data t ! i)"
  using assms by (auto simp: tb_parallel_def tb_rows_def tb_tag_byte_def tb_abc_def tb_data_word_def)

lemma length_tb_rows: "tb_parallel t \<Longrightarrow> length (tb_rows t) = length (tb_data t)"
  by (simp add: tb_parallel_def tb_rows_def)

text \<open>The closures that \<open>lookup\<close> and \<open>insert\<close> hand to the id table read the rows they are asked for.\<close>

lemma tb_eq_closure:
  assumes "tb_parallel t" and "m < length (tb_rows t)" and "id_index bits = m"
  shows "(let i = id_index bits in andthen (tb_tag_byte t i) (\<lambda>tag'. andthen (tb_abc t i) (\<lambda>(a', b', c').
      Inr (tag' = tag \<and> a' = a \<and> b' = b \<and> c' = c)))) = Inr (tb_rows t ! m = (tag, a, b, c))"
proof -
  obtain tag' a' b' c' where "tb_rows t ! m = (tag', a', b', c')" by (cases "tb_rows t ! m")
  with tb_reads [OF assms(1,2) this] assms(3) show ?thesis by simp
qed

lemma tb_rehash_closure:
  assumes "tb_parallel t" and "m < length (tb_rows t)" and "id_index bits = m"
  shows "(let i = id_index bits in andthen (tb_tag_byte t i) (\<lambda>tag'. andthen (tb_abc t i) (\<lambda>(a', b', c').
      andthen (tb_data_word t i) (\<lambda>d'. Inr (mix (row_hash tag' a' b' c') d'))))) =
    Inr (term_hash (tb_data t ! m) (tb_rows t ! m))"
proof -
  obtain tag' a' b' c' where "tb_rows t ! m = (tag', a', b', c')" by (cases "tb_rows t ! m")
  with tb_reads [OF assms(1,2) this] assms(3) show ?thesis by simp
qed

definition tb_snoc :: "term_bank \<Rightarrow> term_row \<Rightarrow> u64 \<Rightarrow> term_bank" where
  "tb_snoc t row d = (case row of (tag, a, b, c) \<Rightarrow>
     t\<lparr>tb_tags := tb_tags t @ [tag], tb_a := tb_a t @ [a], tb_b := tb_b t @ [b], tb_c := tb_c t @ [c],
       tb_data := tb_data t @ [d]\<rparr>)"

lemma tb_snoc:
  assumes "tb_parallel t"
  shows "tb_parallel (tb_snoc t row d)" and "tb_rows (tb_snoc t row d) = tb_rows t @ [row]"
    and "tb_data (tb_snoc t row d) = tb_data t @ [d]" and "tb_region (tb_snoc t row d) = tb_region t"
    and "tb_rows (tb_snoc t row d\<lparr>tb_table := tab\<rparr>) = tb_rows t @ [row]"
    and "tb_parallel (tb_snoc t row d\<lparr>tb_table := tab\<rparr>)"
  using assms by (auto simp: tb_snoc_def tb_parallel_def tb_rows_def split: prod.split)

interpretation tb: id_bank tb_inv tb_rows tb_region "\<lambda>t. assoc (tb_rows t) (tb_data t)"
  "\<lambda>t r. term_hash (assoc (tb_rows t) (tb_data t) r) r" "\<lambda>h d r. h = term_hash d r"
  "\<lambda>t h (tag, a, b, c). tb_lookup t h tag a b c" "\<lambda>t h d (tag, a, b, c). tb_insert t h tag a b c d"
proof
  fix t :: term_bank and row :: term_row and h i d
  assume inv: "tb_inv t"
  obtain tag a b c where row: "row = (tag, a, b, c)" by (cases row)
  from inv show "is_region (tb_region t)" "distinct (tb_rows t)" "length (tb_rows t) \<le> max_rows"
    by (simp_all add: tb_inv_def bank_inv_def)
  have par: "tb_parallel t" and dist: "distinct (tb_rows t)"
    and bi: "bank_inv (tb_region t) (tb_rows t) (\<lambda>i. term_hash (tb_data t ! i) (tb_rows t ! i)) (tb_table t)"
    using inv by (auto simp: tb_inv_def bank_inv_def)
  note len = length_tb_rows [OF par]
  have tags: "length (tb_tags t) = length (tb_data t)" using par by (simp add: tb_parallel_def)
  show "(case tb_rows t ! i of (tag, a, b, c) \<Rightarrow>
        tb_lookup t (term_hash (assoc (tb_rows t) (tb_data t) (tb_rows t ! i)) (tb_rows t ! i)) tag a b c)
      = Inr (Some (id_bits (tb_region t) i))" if i: "i < length (tb_rows t)"
  proof -
    obtain tag a b c where r: "tb_rows t ! i = (tag, a, b, c)" by (cases "tb_rows t ! i")
    have "tb_lookup t (term_hash (tb_data t ! i) (tb_rows t ! i)) tag a b c = Inr (Some (id_bits (tb_region t) i))"
      unfolding tb_lookup_def by (rule bank_lookup_hit [OF bi i], unfold r, rule tb_eq_closure [OF par])
    then show ?thesis using assoc_nth [OF dist len i] r by simp
  qed
  show "(case row of (tag, a, b, c) \<Rightarrow> tb_lookup t h tag a b c) = Inr None" if new: "row \<notin> set (tb_rows t)"
    unfolding tb_lookup_def row prod.case
  proof (rule bank_lookup_miss [OF bi])
    fix m assume m: "m < length (tb_rows t)" "id_index (id_bits (tb_region t) m) = m"
    then have "tb_rows t ! m \<in> set (tb_rows t)" by (intro nth_mem)
    then have "(tb_rows t ! m = (tag, a, b, c)) = False" using new unfolding row by metis
    with tb_eq_closure [OF par m, of tag a b c]
    show "(let i = id_index (id_bits (tb_region t) m) in andthen (tb_tag_byte t i) (\<lambda>tag'. andthen (tb_abc t i)
        (\<lambda>(a', b', c'). Inr (tag' = tag \<and> a' = a \<and> b' = b \<and> c' = c)))) = Inr False" by (simp only:)
  qed
  show "row \<notin> set (tb_rows t) \<Longrightarrow> length (tb_rows t) = max_rows \<Longrightarrow>
      (case row of (tag, a, b, c) \<Rightarrow> tb_insert t h tag a b c d) = Inl BankExhausted"
    by (simp add: tb_insert_def next_index_eq row len tags)
  assume x: "row \<notin> set (tb_rows t)" "h = term_hash d row" "length (tb_rows t) < max_rows"
  let ?t = "tb_snoc t row d"
  note snoc = tb_snoc [OF par, where row = row and d = d]
  have "\<exists>tab. insert_bits (tb_table t) h (id_bits (tb_region t) (length (tb_rows t)))
      (\<lambda>bt. let i = id_index bt in andthen (tb_tag_byte ?t i) (\<lambda>tag'. andthen (tb_abc ?t i) (\<lambda>(a', b', c').
        andthen (tb_data_word ?t i) (\<lambda>d'. Inr (mix (row_hash tag' a' b' c') d'))))) = Inr tab
    \<and> bank_inv (tb_region t) (tb_rows t @ [row]) (\<lambda>i. term_hash (tb_data ?t ! i) (tb_rows ?t ! i)) tab"
  proof (rule bank_insert [OF bi x(1,3)])
    fix m assume m: "m < length (tb_rows t)" "id_index (id_bits (tb_region t) m) = m"
    with tb_rehash_closure [OF snoc(1), of m] snoc(2,3) len
    show "(let i = id_index (id_bits (tb_region t) m) in andthen (tb_tag_byte ?t i) (\<lambda>tag'. andthen (tb_abc ?t i)
        (\<lambda>(a', b', c'). andthen (tb_data_word ?t i) (\<lambda>d'. Inr (mix (row_hash tag' a' b' c') d'))))) =
      Inr (term_hash (tb_data t ! m) (tb_rows t ! m))" by (simp add: nth_append)
  qed (simp_all add: snoc nth_append len x(2))
  then obtain tab where tab: "insert_bits (tb_table t) h (id_bits (tb_region t) (length (tb_rows t)))
      (\<lambda>bt. let i = id_index bt in andthen (tb_tag_byte ?t i) (\<lambda>tag'. andthen (tb_abc ?t i) (\<lambda>(a', b', c').
        andthen (tb_data_word ?t i) (\<lambda>d'. Inr (mix (row_hash tag' a' b' c') d'))))) = Inr tab"
    "bank_inv (tb_region t) (tb_rows t @ [row]) (\<lambda>i. term_hash (tb_data ?t ! i) (tb_rows ?t ! i)) tab" by blast
  have "(case row of (tag, a, b, c) \<Rightarrow> tb_insert t h tag a b c d)
      = Inr (?t\<lparr>tb_table := tab\<rparr>, id_bits (tb_region t) (length (tb_rows t)))"
    using tab(1) x(3) unfolding row tb_insert_def prod.case tb_snoc_def len tags
    by (simp add: next_id id_bits_def Let_def)
  moreover have "tb_inv (?t\<lparr>tb_table := tab\<rparr>)"
    using tab(2) snoc by (simp add: tb_inv_def)
  ultimately show "\<exists>b'. (case row of (tag, a, b, c) \<Rightarrow> tb_insert t h tag a b c d) = Inr (b', id_bits (tb_region t) (length (tb_rows t))) \<and>
      tb_inv b' \<and> tb_rows b' = tb_rows t @ [row] \<and> tb_region b' = tb_region t \<and>
      term_hash (assoc (tb_rows b') (tb_data b') row) row = h \<and> assoc (tb_rows b') (tb_data b') row = d \<and>
      (\<forall>s \<in> set (tb_rows t). term_hash (assoc (tb_rows b') (tb_data b') s) s
          = term_hash (assoc (tb_rows t) (tb_data t) s) s \<and>
        assoc (tb_rows b') (tb_data b') s = assoc (tb_rows t) (tb_data t) s)"
    using snoc assoc_snoc [OF len x(1), where y = d] x(2) by (intro exI [of _ "?t\<lparr>tb_table := tab\<rparr>"]) simp
qed

end
