(* ===== verification/Store_Contracts.thy ===== *)
theory Store_Contracts
  imports Store Bank_Contracts Level_Semantics
begin

text \<open>
  What the ids of a store denote, the invariant of a store (\<open>wf\<close>), and the contracts of the
  interning functions: they fail only when an id space is used up, keep the invariant, keep
  what every id denotes, and return an id of what they were given. \<open>base\<close> is fixed while a
  scratch store grows.
\<close>

section \<open>Rows of a store\<close>

definition str_ent :: "store option \<Rightarrow> store \<Rightarrow> u32 \<Rightarrow> string option" where
  "str_ent base st = pool.entry (map_option strs base) (strs st)"
definition nat_ent :: "store option \<Rightarrow> store \<Rightarrow> u32 \<Rightarrow> nat option" where
  "nat_ent base st = pool.entry (map_option nats base) (nats st)"
definition int_ent :: "store option \<Rightarrow> store \<Rightarrow> u32 \<Rightarrow> int option" where
  "int_ent base st = pool.entry (map_option ints base) (ints st)"
definition name_ent :: "store option \<Rightarrow> store \<Rightarrow> u32 \<Rightarrow> name_row option" where
  "name_ent base st = nb.entry (map_option names base) (names st)"
definition level_ent :: "store option \<Rightarrow> store \<Rightarrow> u32 \<Rightarrow> level_row option" where
  "level_ent base st = lb.entry (map_option levels base) (levels st)"
definition list_ent :: "store option \<Rightarrow> store \<Rightarrow> u32 \<Rightarrow> u32 list option" where
  "list_ent base st = pool.entry (map_option level_lists base) (level_lists st)"
definition kv_ent :: "store option \<Rightarrow> store \<Rightarrow> u32 \<Rightarrow> kvmap_row option" where
  "kv_ent base st = pool.entry (map_option kvmaps base) (kvmaps st)"
definition spill_ent :: "store option \<Rightarrow> store \<Rightarrow> u32 \<Rightarrow> spill_row option" where
  "spill_ent base st = pool.entry (map_option spills base) (spills st)"
definition term_ent :: "store option \<Rightarrow> store \<Rightarrow> u32 \<Rightarrow> term_row option" where
  "term_ent base st = tb.entry (map_option terms base) (terms st)"

definition name_hash_at :: "store option \<Rightarrow> store \<Rightarrow> name_row \<Rightarrow> u64" where
  "name_hash_at base st = nb.hash_at (map_option names base) (names st)"
definition level_hash_at :: "store option \<Rightarrow> store \<Rightarrow> level_row \<Rightarrow> u64" where
  "level_hash_at base st = lb.hash_at (map_option levels base) (levels st)"
definition level_flags_at :: "store option \<Rightarrow> store \<Rightarrow> level_row \<Rightarrow> u8" where
  "level_flags_at base st = lb.pload (map_option levels base) (levels st)"
definition term_data_at :: "store option \<Rightarrow> store \<Rightarrow> term_row \<Rightarrow> u64" where
  "term_data_at base st = tb.pload (map_option terms base) (terms st)"

lemmas ent_defs = str_ent_def nat_ent_def int_ent_def name_ent_def level_ent_def list_ent_def kv_ent_def
  spill_ent_def term_ent_def name_hash_at_def level_hash_at_def level_flags_at_def term_data_at_def

definition banks_ok :: "hashers \<Rightarrow> store option \<Rightarrow> store \<Rightarrow> bool" where
  "banks_ok H base st \<longleftrightarrow>
     pool.pair_ok (sip_str H) (map_option strs base) (strs st)
   \<and> pool.pair_ok (sip_nat H) (map_option nats base) (nats st)
   \<and> pool.pair_ok (sip_int H) (map_option ints base) (ints st)
   \<and> nb.pair_ok (map_option names base) (names st)
   \<and> lb.pair_ok (map_option levels base) (levels st)
   \<and> pool.pair_ok (sip_ids H) (map_option level_lists base) (level_lists st)
   \<and> pool.pair_ok kvmap_row_hash (map_option kvmaps base) (kvmaps st)
   \<and> pool.pair_ok (sip_spill H) (map_option spills base) (spills st)
   \<and> tb.pair_ok (map_option terms base) (terms st)"

definition regions :: "store \<Rightarrow> u32 list" where
  "regions st =
     [vp_region (strs st), vp_region (nats st), vp_region (ints st), nb_region (names st), lb_region (levels st),
      vp_region (level_lists st), vp_region (kvmaps st), vp_region (spills st), tb_region (terms st)]"

text \<open>Growing: every bank keeps its region, every id its row, and every row its hash, flags and data word.\<close>

definition grows :: "store option \<Rightarrow> store \<Rightarrow> store \<Rightarrow> bool" where
  "grows base st st' \<longleftrightarrow> regions st' = regions st
   \<and> (\<forall>i r. str_ent base st i = Some r \<longrightarrow> str_ent base st' i = Some r)
   \<and> (\<forall>i r. nat_ent base st i = Some r \<longrightarrow> nat_ent base st' i = Some r)
   \<and> (\<forall>i r. int_ent base st i = Some r \<longrightarrow> int_ent base st' i = Some r)
   \<and> (\<forall>i r. name_ent base st i = Some r \<longrightarrow>
        name_ent base st' i = Some r \<and> name_hash_at base st' r = name_hash_at base st r)
   \<and> (\<forall>i r. level_ent base st i = Some r \<longrightarrow>
        level_ent base st' i = Some r \<and> level_hash_at base st' r = level_hash_at base st r
        \<and> level_flags_at base st' r = level_flags_at base st r)
   \<and> (\<forall>i r. list_ent base st i = Some r \<longrightarrow> list_ent base st' i = Some r)
   \<and> (\<forall>i r. kv_ent base st i = Some r \<longrightarrow> kv_ent base st' i = Some r)
   \<and> (\<forall>i r. spill_ent base st i = Some r \<longrightarrow> spill_ent base st' i = Some r)
   \<and> (\<forall>i r. term_ent base st i = Some r \<longrightarrow>
        term_ent base st' i = Some r \<and> term_data_at base st' r = term_data_at base st r)"

lemma grows_refl [simp]: "grows base st st"
  by (simp add: grows_def)

lemma growsD:
  assumes "grows base st st'"
  shows "str_ent base st i = Some s \<Longrightarrow> str_ent base st' i = Some s"
    and "nat_ent base st i = Some n \<Longrightarrow> nat_ent base st' i = Some n"
    and "int_ent base st i = Some z \<Longrightarrow> int_ent base st' i = Some z"
    and "name_ent base st i = Some nr \<Longrightarrow> name_ent base st' i = Some nr"
    and "level_ent base st i = Some lr \<Longrightarrow> level_ent base st' i = Some lr"
    and "list_ent base st i = Some l \<Longrightarrow> list_ent base st' i = Some l"
    and "kv_ent base st i = Some k \<Longrightarrow> kv_ent base st' i = Some k"
    and "spill_ent base st i = Some sp \<Longrightarrow> spill_ent base st' i = Some sp"
    and "term_ent base st i = Some t \<Longrightarrow> term_ent base st' i = Some t"
    and "name_ent base st i = Some nr \<Longrightarrow> name_hash_at base st' nr = name_hash_at base st nr"
    and "level_ent base st i = Some lr \<Longrightarrow> level_hash_at base st' lr = level_hash_at base st lr"
    and "level_ent base st i = Some lr \<Longrightarrow> level_flags_at base st' lr = level_flags_at base st lr"
    and "term_ent base st i = Some t \<Longrightarrow> term_data_at base st' t = term_data_at base st t"
  using assms unfolding grows_def by blast+

lemma grows_regions: "grows base st st' \<Longrightarrow> regions st' = regions st"
  by (simp add: grows_def)

lemma grows_trans:
  assumes ab: "grows base a b" and bc: "grows base b c" shows "grows base a c"
proof -
  show ?thesis
    unfolding grows_def [of base a c]
    by (intro conjI allI impI)
      (simp_all add: grows_regions [OF ab] grows_regions [OF bc] growsD [OF ab] growsD [OF bc] growsD(10) [OF bc growsD(4) [OF ab]]
        growsD(11,12) [OF bc growsD(5) [OF ab]] growsD(13) [OF bc growsD(9) [OF ab]])
qed

text \<open>A store that differs in one bank only, and there by an extension, has grown.\<close>

lemma grows_if_extends:
  assumes ok: "banks_ok H base st" and ok': "banks_ok H base st'"
    and ext: "pool.extends (sip_str H) (strs st) (strs st')" "pool.extends (sip_nat H) (nats st) (nats st')"
      "pool.extends (sip_int H) (ints st) (ints st')" "nb.extends (names st) (names st')"
      "lb.extends (levels st) (levels st')" "pool.extends (sip_ids H) (level_lists st) (level_lists st')"
      "pool.extends kvmap_row_hash (kvmaps st) (kvmaps st')"
      "pool.extends (sip_spill H) (spills st) (spills st')" "tb.extends (terms st) (terms st')"
  shows "grows base st st'"
proof -
  note ok = ok [unfolded banks_ok_def] and ok' = ok' [unfolded banks_ok_def]
  have "str_ent base st i = Some s \<Longrightarrow> str_ent base st' i = Some s" for i s
    unfolding ent_defs using ok ok' by (intro pool.entry_extends(1) [OF _ _ ext(1)]) blast+
  moreover have "nat_ent base st i = Some n \<Longrightarrow> nat_ent base st' i = Some n" for i n
    unfolding ent_defs using ok ok' by (intro pool.entry_extends(1) [OF _ _ ext(2)]) blast+
  moreover have "int_ent base st i = Some n \<Longrightarrow> int_ent base st' i = Some n" for i n
    unfolding ent_defs using ok ok' by (intro pool.entry_extends(1) [OF _ _ ext(3)]) blast+
  moreover have "name_ent base st i = Some r \<Longrightarrow>
      name_ent base st' i = Some r \<and> name_hash_at base st' r = name_hash_at base st r" for i r
    unfolding ent_defs using nb.entry_extends(1,3) [OF _ _ ext(4), of "map_option names base"] ok ok' by blast
  moreover have "level_ent base st i = Some r \<Longrightarrow> level_ent base st' i = Some r
      \<and> level_hash_at base st' r = level_hash_at base st r \<and> level_flags_at base st' r = level_flags_at base st r" for i r
    unfolding ent_defs using lb.entry_extends [OF _ _ ext(5), of "map_option levels base"] ok ok' by blast
  moreover have "list_ent base st i = Some l \<Longrightarrow> list_ent base st' i = Some l" for i l
    unfolding ent_defs using ok ok' by (intro pool.entry_extends(1) [OF _ _ ext(6)]) blast+
  moreover have "kv_ent base st i = Some k \<Longrightarrow> kv_ent base st' i = Some k" for i k
    unfolding ent_defs using ok ok' by (intro pool.entry_extends(1) [OF _ _ ext(7)]) blast+
  moreover have "spill_ent base st i = Some r \<Longrightarrow> spill_ent base st' i = Some r" for i r
    unfolding ent_defs using ok ok' by (intro pool.entry_extends(1) [OF _ _ ext(8)]) blast+
  moreover have "term_ent base st i = Some r \<Longrightarrow>
      term_ent base st' i = Some r \<and> term_data_at base st' r = term_data_at base st r" for i r
    unfolding ent_defs using tb.entry_extends(1,2) [OF _ _ ext(9), of "map_option terms base"] ok ok' by blast
  moreover have "regions st' = regions st"
    using ext by (simp add: regions_def pool.extends_def nb.extends_def lb.extends_def tb.extends_def)
  ultimately show ?thesis unfolding grows_def by blast
qed

section \<open>Reading a row through its id\<close>

lemma store_for_owner:
  "strs (store_for base st (is_scratch i)) = pool.owner (map_option strs base) (strs st) i"
  "nats (store_for base st (is_scratch i)) = pool.owner (map_option nats base) (nats st) i"
  "ints (store_for base st (is_scratch i)) = pool.owner (map_option ints base) (ints st) i"
  "names (store_for base st (is_scratch i)) = nb.owner (map_option names base) (names st) i"
  "levels (store_for base st (is_scratch i)) = lb.owner (map_option levels base) (levels st) i"
  "level_lists (store_for base st (is_scratch i)) = pool.owner (map_option level_lists base) (level_lists st) i"
  "kvmaps (store_for base st (is_scratch i)) = pool.owner (map_option kvmaps base) (kvmaps st) i"
  "spills (store_for base st (is_scratch i)) = pool.owner (map_option spills base) (spills st) i"
  "terms (store_for base st (is_scratch i)) = tb.owner (map_option terms base) (terms st) i"
  by (simp_all add: store_for_def pool.owner_def nb.owner_def lb.owner_def tb.owner_def split: option.split)

lemma pool_read:
  "pool.pair_ok rehash base own \<Longrightarrow> pool.entry base own i = Some x \<Longrightarrow>
     expect (vp_get (pool.owner base own i) (id_index i)) = Inr x"
  using pool.entry_routed(1,2) [of rehash base own i x] by (simp add: vp_get_def)

lemma pool_reads:
  assumes "banks_ok H base st"
  shows "str_ent base st i = Some s \<Longrightarrow> str_at base st i = Inr s"
    and "nat_ent base st i = Some n \<Longrightarrow> nat_at base st i = Inr n"
    and "int_ent base st i = Some z \<Longrightarrow> int_at base st i = Inr z"
    and "list_ent base st i = Some l \<Longrightarrow> level_list_at base st i = Inr l"
    and "kv_ent base st i = Some k \<Longrightarrow> kvmap_at base st i = Inr k"
    and "spill_ent base st i = Some r \<Longrightarrow> spill_at base st i = Inr r"
  using assms [unfolded banks_ok_def]
    pool_read [of "sip_str H" "map_option strs base" "strs st" i s]
    pool_read [of "sip_nat H" "map_option nats base" "nats st" i n]
    pool_read [of "sip_int H" "map_option ints base" "ints st" i z]
    pool_read [of "sip_ids H" "map_option level_lists base" "level_lists st" i l]
    pool_read [of kvmap_row_hash "map_option kvmaps base" "kvmaps st" i k]
    pool_read [of "sip_spill H" "map_option spills base" "spills st" i r]
  by (simp_all add: str_at_def nat_at_def int_at_def level_list_at_def kvmap_at_def spill_at_def ent_defs
      store_for_owner)

lemma name_reads:
  assumes "banks_ok H base st" and "name_ent base st i = Some r"
  shows "name_row base st i = Inr r" and "name_hash_of base st (Some i) = Inr (name_hash_at base st r)"
proof -
  from assms(1) have ok: "nb.pair_ok (map_option names base) (names st)" by (simp add: banks_ok_def)
  from assms(2) have e: "nb.entry (map_option names base) (names st) i = Some r" by (simp add: name_ent_def)
  note r = nb.entry_routed [OF ok e]
  show "name_row base st i = Inr r"
    unfolding name_row_def store_for_owner nb_row_def using r(1,2) by simp
  have "length (nb_hashes (nb.owner (map_option names base) (names st) i)) = length (nb_rows (nb.owner (map_option names base) (names st) i))"
    "distinct (nb_rows (nb.owner (map_option names base) (names st) i))"
    using r(7) by (auto simp: nb_inv_def bank_inv_def)
  then show "name_hash_of base st (Some i) = Inr (name_hash_at base st r)"
    using r(1,2,4) assoc_nth [of "nb_rows (nb.owner (map_option names base) (names st) i)"
        "nb_hashes (nb.owner (map_option names base) (names st) i)" "id_index i"]
    by (simp add: name_hash_of_def store_for_owner nb_hash_of_def name_hash_at_def)
qed

lemma level_reads:
  assumes "banks_ok H base st" and "level_ent base st i = Some r"
  shows "level_row base st i = Inr r" and "level_hash base st i = Inr (level_hash_at base st r)"
    and "level_flags base st i = Inr (level_flags_at base st r)"
proof -
  from assms(1) have ok: "lb.pair_ok (map_option levels base) (levels st)" by (simp add: banks_ok_def)
  from assms(2) have e: "lb.entry (map_option levels base) (levels st) i = Some r" by (simp add: level_ent_def)
  note r = lb.entry_routed [OF ok e]
  show "level_row base st i = Inr r"
    unfolding level_row_def store_for_owner lb_row_def using r(1,2) by simp
  let ?b = "lb.owner (map_option levels base) (levels st) i"
  have len: "length (lb_hashes ?b) = length (lb_rows ?b)" "length (lb_flags ?b) = length (lb_rows ?b)" "distinct (lb_rows ?b)"
    using r(7) by (auto simp: lb_inv_def bank_inv_def)
  show "level_hash base st i = Inr (level_hash_at base st r)"
    using r(1,2,4) assoc_nth [OF len(3) len(1) [symmetric] r(1)] len unfolding level_hash_def store_for_owner lb_hash_of_def level_hash_at_def
    by simp
  show "level_flags base st i = Inr (level_flags_at base st r)"
    using r(1,2,3) assoc_nth [OF len(3) len(2) [symmetric] r(1)] len unfolding level_flags_def store_for_owner lb_flags_of_def level_flags_at_def
    by simp
qed

end
