(* ===== verification/Denotation.thy ===== *)
theory Denotation
  imports Store_Contracts
begin

text \<open>
  What the name, level and metadata ids of a store denote, as relations between ids and trees,
  and the invariant \<open>wf\<close>: every id denotes a tree, and the cached hash and flags of a row are
  those of its tree. Denotation is a bijection between the ids in use and the trees they
  denote: this is hash consing's canonical-id property.
\<close>

section \<open>Trees, their hashes and flags\<close>

fun name_hash :: "hashers \<Rightarrow> name \<Rightarrow> u64" where
  "name_hash H Anonymous = 0"
| "name_hash H (Str p s) = mix 1 (mix (name_hash H p) (sip_str H s))"
| "name_hash H (Num p n) = mix 2 (mix (name_hash H p) (sip_nat H n))"

fun lvl_hash :: "hashers \<Rightarrow> level \<Rightarrow> u64" where
  "lvl_hash H Zero = 11"
| "lvl_hash H (Succ a) = mix 12 (lvl_hash H a)"
| "lvl_hash H (Max a b) = mix 13 (mix (lvl_hash H a) (lvl_hash H b))"
| "lvl_hash H (IMax a b) = mix 14 (mix (lvl_hash H a) (lvl_hash H b))"
| "lvl_hash H (Param n) = mix 15 (name_hash H n)"
| "lvl_hash H (MVar n) = mix 16 (name_hash H n)"

fun lvl_flags :: "level \<Rightarrow> u8" where
  "lvl_flags Zero = 0"
| "lvl_flags (Succ a) = lvl_flags a"
| "lvl_flags (Max a b) = lvl_flags a OR lvl_flags b"
| "lvl_flags (IMax a b) = lvl_flags a OR lvl_flags b"
| "lvl_flags (Param n) = 1"
| "lvl_flags (MVar n) = 2"

inductive name_at :: "store option \<Rightarrow> store \<Rightarrow> u32 option \<Rightarrow> name \<Rightarrow> bool" for base st where
  name_at_None: "name_at base st None Anonymous"
| name_at_Str: "name_ent base st i = Some (NStr p q) \<Longrightarrow> name_at base st p n \<Longrightarrow> str_ent base st q = Some s \<Longrightarrow>
    name_at base st (Some i) (Str n s)"
| name_at_Num: "name_ent base st i = Some (NNum p q) \<Longrightarrow> name_at base st p n \<Longrightarrow> nat_ent base st q = Some k \<Longrightarrow>
    name_at base st (Some i) (Num n k)"

inductive_cases name_at_NoneE: "name_at base st None n"
inductive_cases name_at_SomeE: "name_at base st (Some i) n"
inductive_cases name_at_AnonymousE: "name_at base st x Anonymous"
inductive_cases name_at_StrE: "name_at base st x (Str n s)"
inductive_cases name_at_NumE: "name_at base st x (Num n k)"
inductive_simps name_at_None_iff [simp]: "name_at base st None n"

inductive level_at :: "store option \<Rightarrow> store \<Rightarrow> u32 \<Rightarrow> level \<Rightarrow> bool" for base st where
  level_at_Zero: "level_ent base st i = Some LZero \<Longrightarrow> level_at base st i Zero"
| level_at_Succ: "level_ent base st i = Some (LSucc a) \<Longrightarrow> level_at base st a la \<Longrightarrow> level_at base st i (Succ la)"
| level_at_Max: "level_ent base st i = Some (LMax a b) \<Longrightarrow> level_at base st a la \<Longrightarrow> level_at base st b lb \<Longrightarrow>
    level_at base st i (Max la lb)"
| level_at_IMax: "level_ent base st i = Some (LIMax a b) \<Longrightarrow> level_at base st a la \<Longrightarrow> level_at base st b lb \<Longrightarrow>
    level_at base st i (IMax la lb)"
| level_at_Param: "level_ent base st i = Some (LParam x) \<Longrightarrow> name_at base st x n \<Longrightarrow> level_at base st i (Param n)"
| level_at_MVar: "level_ent base st i = Some (LMVar x) \<Longrightarrow> name_at base st x n \<Longrightarrow> level_at base st i (MVar n)"

inductive_cases level_at_ZeroE: "level_at base st i Zero"
inductive_cases level_at_SuccE: "level_at base st i (Succ l)"
inductive_cases level_at_MaxE: "level_at base st i (Max a b)"
inductive_cases level_at_IMaxE: "level_at base st i (IMax a b)"
inductive_cases level_at_ParamE: "level_at base st i (Param n)"
inductive_cases level_at_MVarE: "level_at base st i (MVar n)"
inductive_cases level_atE: "level_at base st i l"

inductive data_at :: "store option \<Rightarrow> store \<Rightarrow> data_value_row \<Rightarrow> data_value \<Rightarrow> bool" for base st where
  data_at_str: "str_ent base st i = Some s \<Longrightarrow> data_at base st (RStr i) (OfString s)"
| data_at_bool: "data_at base st (RBool b) (OfBool b)"
| data_at_name: "name_at base st x n \<Longrightarrow> data_at base st (RName x) (OfName n)"
| data_at_nat: "nat_ent base st i = Some n \<Longrightarrow> data_at base st (RNat i) (OfNat n)"
| data_at_int: "int_ent base st i = Some z \<Longrightarrow> data_at base st (RInt i) (OfInt z)"
| data_at_syntax: "data_at base st (RSyntax a) (OfSyntax a)"

definition entries_at :: "store option \<Rightarrow> store \<Rightarrow> kvmap_row \<Rightarrow> kvmap \<Rightarrow> bool" where
  "entries_at base st row m \<longleftrightarrow> list_all2 (\<lambda>(x, r) (n, v). name_at base st x n \<and> data_at base st r v) row m"

definition kvmap_denotes :: "store option \<Rightarrow> store \<Rightarrow> u32 \<Rightarrow> kvmap \<Rightarrow> bool" where
  "kvmap_denotes base st i m \<longleftrightarrow> (\<exists>row. kv_ent base st i = Some row \<and> entries_at base st row m)"

definition levels_at :: "store option \<Rightarrow> store \<Rightarrow> u32 \<Rightarrow> level list \<Rightarrow> bool" where
  "levels_at base st i ls \<longleftrightarrow> (\<exists>l. list_ent base st i = Some l \<and> list_all2 (level_at base st) l ls)"

section \<open>Denotation survives growth\<close>

lemma name_at_grows: "name_at base st x n \<Longrightarrow> grows base st st' \<Longrightarrow> name_at base st' x n"
  by (induction rule: name_at.induct) (auto intro: name_at.intros dest: growsD)

lemma level_at_grows: "level_at base st i l \<Longrightarrow> grows base st st' \<Longrightarrow> level_at base st' i l"
  by (induction rule: level_at.induct) (auto intro: level_at.intros name_at_grows dest: growsD)

lemma data_at_grows: "data_at base st r v \<Longrightarrow> grows base st st' \<Longrightarrow> data_at base st' r v"
  by (cases rule: data_at.cases) (auto intro: data_at.intros name_at_grows dest: growsD)

lemma entries_at_grows: "entries_at base st row m \<Longrightarrow> grows base st st' \<Longrightarrow> entries_at base st' row m"
  unfolding entries_at_def by (erule list_all2_mono) (auto intro: name_at_grows data_at_grows)

lemma kvmap_denotes_grows: "kvmap_denotes base st i m \<Longrightarrow> grows base st st' \<Longrightarrow> kvmap_denotes base st' i m"
  unfolding kvmap_denotes_def by (auto intro: entries_at_grows dest: growsD)

lemma list_level_at_grows:
  "list_all2 (level_at base st) l ls \<Longrightarrow> grows base st st' \<Longrightarrow> list_all2 (level_at base st') l ls"
  by (erule list_all2_mono) (rule level_at_grows)

lemma levels_at_grows: "levels_at base st i ls \<Longrightarrow> grows base st st' \<Longrightarrow> levels_at base st' i ls"
  unfolding levels_at_def by (auto intro: list_level_at_grows dest: growsD)

lemmas denotes_grows = name_at_grows level_at_grows list_level_at_grows data_at_grows entries_at_grows kvmap_denotes_grows levels_at_grows

section \<open>One tree per id, one id per tree\<close>

lemma name_at_det: "name_at base st x n \<Longrightarrow> name_at base st x n' \<Longrightarrow> n = n'"
proof (induction arbitrary: n' rule: name_at.induct)
  case (name_at_Str i p q n s)
  from name_at_Str.prems show ?case
    by (cases rule: name_at_SomeE) (auto simp: name_at_Str.hyps(1,3) dest: name_at_Str.IH)
next
  case (name_at_Num i p q n k)
  from name_at_Num.prems show ?case
    by (cases rule: name_at_SomeE) (auto simp: name_at_Num.hyps(1,3) dest: name_at_Num.IH)
qed simp

lemma level_at_det: "level_at base st i l \<Longrightarrow> level_at base st i l' \<Longrightarrow> l = l'"
proof (induction arbitrary: l' rule: level_at.induct)
  case (level_at_Zero i)
  from level_at_Zero(2) show ?case by (cases rule: level_atE) (auto simp: level_at_Zero(1))
next
  case (level_at_Succ i a la)
  from level_at_Succ.prems show ?case
    by (cases rule: level_atE) (auto simp: level_at_Succ.hyps(1) dest: level_at_Succ.IH)
next
  case (level_at_Max i a b la lb)
  from level_at_Max.prems show ?case
    by (cases rule: level_atE) (auto simp: level_at_Max.hyps(1) dest: level_at_Max.IH)
next
  case (level_at_IMax i a b la lb)
  from level_at_IMax.prems show ?case
    by (cases rule: level_atE) (auto simp: level_at_IMax.hyps(1) dest: level_at_IMax.IH)
next
  case (level_at_Param i x n)
  from level_at_Param(3) show ?case
    by (cases rule: level_atE) (auto simp: level_at_Param(1) dest: name_at_det [OF level_at_Param(2)])
next
  case (level_at_MVar i x n)
  from level_at_MVar(3) show ?case
    by (cases rule: level_atE) (auto simp: level_at_MVar(1) dest: name_at_det [OF level_at_MVar(2)])
qed

lemma data_at_det: "data_at base st r v \<Longrightarrow> data_at base st r v' \<Longrightarrow> v = v'"
  by (auto elim!: data_at.cases dest: name_at_det)

lemma entries_at_det: "entries_at base st row m \<Longrightarrow> entries_at base st row m' \<Longrightarrow> m = m'"
  unfolding entries_at_def
  by (induction row arbitrary: m m')
    (auto simp: list_all2_Cons1 split: prod.splits dest: name_at_det data_at_det)

lemma kvmap_denotes_det: "kvmap_denotes base st i m \<Longrightarrow> kvmap_denotes base st i m' \<Longrightarrow> m = m'"
  unfolding kvmap_denotes_def by (auto dest: entries_at_det)

lemma list_level_at_det: "list_all2 (level_at base st) l ls \<Longrightarrow> list_all2 (level_at base st) l ls' \<Longrightarrow> ls = ls'"
  by (induction l arbitrary: ls ls') (auto simp: list_all2_Cons1 dest: level_at_det)

lemma levels_at_det: "levels_at base st i ls \<Longrightarrow> levels_at base st i ls' \<Longrightarrow> ls = ls'"
  unfolding levels_at_def by (auto dest: list_level_at_det)

lemma ent_inject:
  assumes "banks_ok H base st"
  shows "str_ent base st i = Some s \<Longrightarrow> str_ent base st j = Some s \<Longrightarrow> i = j"
    and "nat_ent base st i = Some n \<Longrightarrow> nat_ent base st j = Some n \<Longrightarrow> i = j"
    and "int_ent base st i = Some z \<Longrightarrow> int_ent base st j = Some z \<Longrightarrow> i = j"
    and "name_ent base st i = Some nr \<Longrightarrow> name_ent base st j = Some nr \<Longrightarrow> i = j"
    and "level_ent base st i = Some lr \<Longrightarrow> level_ent base st j = Some lr \<Longrightarrow> i = j"
    and "list_ent base st i = Some l \<Longrightarrow> list_ent base st j = Some l \<Longrightarrow> i = j"
    and "kv_ent base st i = Some k \<Longrightarrow> kv_ent base st j = Some k \<Longrightarrow> i = j"
    and "spill_ent base st i = Some sp \<Longrightarrow> spill_ent base st j = Some sp \<Longrightarrow> i = j"
    and "term_ent base st i = Some t \<Longrightarrow> term_ent base st j = Some t \<Longrightarrow> i = j"
proof -
  from assms have ok: "pool.pair_ok (sip_str H) (map_option strs base) (strs st)"
    "pool.pair_ok (sip_nat H) (map_option nats base) (nats st)"
    "pool.pair_ok (sip_int H) (map_option ints base) (ints st)"
    "nb.pair_ok (map_option names base) (names st)" "lb.pair_ok (map_option levels base) (levels st)"
    "pool.pair_ok (sip_ids H) (map_option level_lists base) (level_lists st)"
    "pool.pair_ok kvmap_row_hash (map_option kvmaps base) (kvmaps st)"
    "pool.pair_ok (sip_spill H) (map_option spills base) (spills st)"
    "tb.pair_ok (map_option terms base) (terms st)" by (simp_all add: banks_ok_def)
  show "str_ent base st i = Some s \<Longrightarrow> str_ent base st j = Some s \<Longrightarrow> i = j"
    unfolding ent_defs by (rule pool.entry_inject [OF ok(1)])
  show "nat_ent base st i = Some n \<Longrightarrow> nat_ent base st j = Some n \<Longrightarrow> i = j"
    unfolding ent_defs by (rule pool.entry_inject [OF ok(2)])
  show "int_ent base st i = Some z \<Longrightarrow> int_ent base st j = Some z \<Longrightarrow> i = j"
    unfolding ent_defs by (rule pool.entry_inject [OF ok(3)])
  show "name_ent base st i = Some nr \<Longrightarrow> name_ent base st j = Some nr \<Longrightarrow> i = j"
    unfolding ent_defs by (rule nb.entry_inject [OF ok(4)])
  show "level_ent base st i = Some lr \<Longrightarrow> level_ent base st j = Some lr \<Longrightarrow> i = j"
    unfolding ent_defs by (rule lb.entry_inject [OF ok(5)])
  show "list_ent base st i = Some l \<Longrightarrow> list_ent base st j = Some l \<Longrightarrow> i = j"
    unfolding ent_defs by (rule pool.entry_inject [OF ok(6)])
  show "kv_ent base st i = Some k \<Longrightarrow> kv_ent base st j = Some k \<Longrightarrow> i = j"
    unfolding ent_defs by (rule pool.entry_inject [OF ok(7)])
  show "spill_ent base st i = Some sp \<Longrightarrow> spill_ent base st j = Some sp \<Longrightarrow> i = j"
    unfolding ent_defs by (rule pool.entry_inject [OF ok(8)])
  show "term_ent base st i = Some t \<Longrightarrow> term_ent base st j = Some t \<Longrightarrow> i = j"
    unfolding ent_defs by (rule tb.entry_inject [OF ok(9)])
qed

lemma name_at_inject: "banks_ok H base st \<Longrightarrow> name_at base st x n \<Longrightarrow> name_at base st y n \<Longrightarrow> x = y"
proof (induction n arbitrary: x y)
  case Anonymous
  then show ?case by (blast elim: name_at_AnonymousE)
next
  case (Str n s)
  note inj = ent_inject [OF Str.prems(1)]
  from Str.prems(2,3) show ?case
    by (elim name_at_StrE) (metis Str.IH [OF Str.prems(1)] inj(1,4))
next
  case (Num n k)
  note inj = ent_inject [OF Num.prems(1)]
  from Num.prems(2,3) show ?case
    by (elim name_at_NumE) (metis Num.IH [OF Num.prems(1)] inj(2,4))
qed

lemma level_at_inject: "banks_ok H base st \<Longrightarrow> level_at base st i l \<Longrightarrow> level_at base st j l \<Longrightarrow> i = j"
proof (induction l arbitrary: i j)
  case Zero
  then show ?case by (metis level_at_ZeroE ent_inject(5))
next
  case (Succ l)
  from Succ.prems(2,3) show ?case
    by (elim level_at_SuccE) (metis Succ.IH [OF Succ.prems(1)] ent_inject(5) [OF Succ.prems(1)])
next
  case (Max a b)
  from Max.prems(2,3) show ?case
    by (elim level_at_MaxE) (metis Max.IH(1) [OF Max.prems(1)] Max.IH(2) [OF Max.prems(1)] ent_inject(5) [OF Max.prems(1)])
next
  case (IMax a b)
  from IMax.prems(2,3) show ?case
    by (elim level_at_IMaxE) (metis IMax.IH(1) [OF IMax.prems(1)] IMax.IH(2) [OF IMax.prems(1)] ent_inject(5) [OF IMax.prems(1)])
next
  case (Param n)
  from Param.prems(2,3) show ?case
    by (elim level_at_ParamE) (metis Param.prems(1) ent_inject(5) name_at_inject)
next
  case (MVar n)
  from MVar.prems(2,3) show ?case
    by (elim level_at_MVarE) (metis MVar.prems(1) ent_inject(5) name_at_inject)
qed

end
