(* ===== verification/Terms.thy ===== *)
theory Terms
  imports Store
begin

text \<open>
  Expressions and their rows (\<open>crates/leanr_kernel/src/expr.rs\<close>, \<open>bank/terms.rs\<close>): the tree type
  \<open>expr\<close> (an \<open>Arc<Expr>\<close>; the word it caches is a function of the tree), the row view \<open>node\<close>, the row
  constructors \<open>expr_bvar\<close> to \<open>expr_proj\<close>, and the two explicit-stack bridges \<open>intern_expr\<close> and
  \<open>to_expr\<close>.
\<close>

datatype expr =
    EBVar nat
  | EFVar name
  | EMVar name
  | ESort level
  | EConst name "level list"
  | EApp expr expr
  | ELam name expr expr binder_info
  | EForallE name expr expr binder_info
  | ELetE name expr expr expr bool
  | ELit literal
  | EMData kvmap expr
  | EProj name nat expr

text \<open>The fields of a node are in the order of the source's struct variants.\<close>

datatype node =
    NBVar u32
  | NBVarBig u32
  | NFVar "u32 option"
  | NMVar "u32 option"
  | NSort u32
  | NConst "u32 option" u32
  | NApp u32 u32
  | NLam "u32 option" u32 u32 binder_info
  | NForall "u32 option" u32 u32 binder_info
  | NLetE "u32 option" u32 u32 u32 bool
  | NLitNat u32
  | NLitStr u32
  | NMData u32 u32
  | NProj "u32 option" u32 u32
  | NProjBig "u32 option" u32 u32

section \<open>Rows\<close>

definition term_intern_row ::
    "store option \<Rightarrow> u8 \<Rightarrow> u32 \<Rightarrow> u32 \<Rightarrow> u32 \<Rightarrow> u64 \<Rightarrow> store \<Rightarrow> (u32 \<times> store) result" where
  "term_intern_row base tagbyte a b c word st =
     (let hash = mix (row_hash tagbyte a b c) word in
      intern_row (case base of None \<Rightarrow> Inr None | Some bs \<Rightarrow> tb_lookup (terms bs) hash tagbyte a b c)
        (tb_lookup (terms st) hash tagbyte a b c) (tb_insert (terms st) hash tagbyte a b c word)
        (\<lambda>t. st\<lparr>terms := t\<rparr>) st)"

definition expr_data :: "store option \<Rightarrow> store \<Rightarrow> u32 \<Rightarrow> u64 result" where
  "expr_data base st i =
     andthen (tb_data_word (terms (store_for base st (is_scratch i))) (id_index i)) (\<lambda>w. Inr (data_of_word w))"

definition expr_bvar :: "hashers \<Rightarrow> store option \<Rightarrow> nat \<Rightarrow> store \<Rightarrow> (u32 \<times> store) result" where
  "expr_bvar H base idx st =
     (let rng = bvar_loose_range idx;
          h = mix TAG_BVAR (nat_lossy_u64 idx);
          data = pack h rng 1 False False False False in
      case nat_as_u32 idx of
        Some v \<Rightarrow> term_intern_row base (pack_tag TBVar Default False) v 0 0 (word_of data) st
      | None \<Rightarrow> andthen (intern_nat H base idx st) (\<lambda>(i, st).
          term_intern_row base (pack_tag TBVarBig Default False) i 0 0 (word_of data) st))"

definition expr_fvar :: "store option \<Rightarrow> u32 option \<Rightarrow> store \<Rightarrow> (u32 \<times> store) result" where
  "expr_fvar base n st =
     andthen (name_hash_of base st n) (\<lambda>nh.
       let data = pack (mix TAG_FVAR nh) 0 1 True False False False in
       term_intern_row base (pack_tag TFVar Default False) (opt_bits n) 0 0 (word_of data) st)"

definition expr_mvar :: "store option \<Rightarrow> u32 option \<Rightarrow> store \<Rightarrow> (u32 \<times> store) result" where
  "expr_mvar base n st =
     andthen (name_hash_of base st n) (\<lambda>nh.
       let data = pack (mix TAG_MVAR nh) 0 1 False True False False in
       term_intern_row base (pack_tag TMVar Default False) (opt_bits n) 0 0 (word_of data) st)"

definition expr_sort :: "store option \<Rightarrow> u32 \<Rightarrow> store \<Rightarrow> (u32 \<times> store) result" where
  "expr_sort base l st =
     andthen (level_hash base st l) (\<lambda>lh. andthen (level_flags base st l) (\<lambda>flags.
       let data = pack (mix TAG_SORT lh) 0 1 False False (flags AND 2 \<noteq> 0) (flags AND 1 \<noteq> 0) in
       term_intern_row base (pack_tag TSort Default False) l 0 0 (word_of data) st))"

text \<open>The loop of \<open>expr_const\<close> over the level list.\<close>

fun fold_levels ::
    "store option \<Rightarrow> store \<Rightarrow> u32 list \<Rightarrow> bool \<Rightarrow> bool \<Rightarrow> u64 \<Rightarrow> (bool \<times> bool \<times> u64) result" where
  "fold_levels base st [] mv mp levels_hash = Inr (mv, mp, levels_hash)"
| "fold_levels base st (l # ls) mv mp levels_hash =
     andthen (level_flags base st l) (\<lambda>flags. andthen (level_hash base st l) (\<lambda>lh.
       fold_levels base st ls (mv \<or> flags AND 2 \<noteq> 0) (mp \<or> flags AND 1 \<noteq> 0)
         (mix levels_hash lh)))"

definition expr_const :: "store option \<Rightarrow> u32 option \<Rightarrow> u32 \<Rightarrow> store \<Rightarrow> (u32 \<times> store) result" where
  "expr_const base n ls st =
     andthen (level_list_at base st ls) (\<lambda>l.
     andthen (fold_levels base st l False False 0) (\<lambda>(mv, mp, levels_hash).
     andthen (name_hash_of base st n) (\<lambda>nh.
       let data = pack (mix TAG_CONST (mix nh levels_hash)) 0 1 False False mv mp in
       term_intern_row base (pack_tag TConst Default False) (opt_bits n) ls 0 (word_of data) st)))"

definition expr_app :: "store option \<Rightarrow> u32 \<Rightarrow> u32 \<Rightarrow> store \<Rightarrow> (u32 \<times> store) result" where
  "expr_app base f arg st =
     andthen (expr_data base st f) (\<lambda>fd. andthen (expr_data base st arg) (\<lambda>ad.
       term_intern_row base (pack_tag TApp Default False) f arg 0 (word_of (combine_app fd ad)) st))"

definition expr_lam ::
    "store option \<Rightarrow> u32 option \<Rightarrow> u32 \<Rightarrow> u32 \<Rightarrow> binder_info \<Rightarrow> store \<Rightarrow> (u32 \<times> store) result" where
  "expr_lam base n ty body bi st =
     andthen (expr_data base st ty) (\<lambda>td. andthen (expr_data base st body) (\<lambda>bd.
       term_intern_row base (pack_tag TLam bi False) ty body (opt_bits n) (word_of (combine_binder td bd)) st))"

definition expr_forall ::
    "store option \<Rightarrow> u32 option \<Rightarrow> u32 \<Rightarrow> u32 \<Rightarrow> binder_info \<Rightarrow> store \<Rightarrow> (u32 \<times> store) result" where
  "expr_forall base n ty body bi st =
     andthen (expr_data base st ty) (\<lambda>td. andthen (expr_data base st body) (\<lambda>bd.
       term_intern_row base (pack_tag TForall bi False) ty body (opt_bits n) (word_of (combine_binder td bd)) st))"

definition expr_let ::
    "hashers \<Rightarrow> store option \<Rightarrow> u32 option \<Rightarrow> u32 \<Rightarrow> u32 \<Rightarrow> u32 \<Rightarrow> bool \<Rightarrow> store \<Rightarrow> (u32 \<times> store) result" where
  "expr_let H base n ty val body non_dep st =
     andthen (expr_data base st ty) (\<lambda>td. andthen (expr_data base st val) (\<lambda>vd.
     andthen (expr_data base st body) (\<lambda>bd. andthen (intern_spill H base n body st) (\<lambda>(spill, st).
       term_intern_row base (pack_tag TLetE Default non_dep) ty val spill (word_of (combine_let td vd bd)) st))))"

definition literal_hash :: "hashers \<Rightarrow> literal \<Rightarrow> u64" where
  "literal_hash H l = sip_literal H l"

definition expr_lit_nat :: "hashers \<Rightarrow> store option \<Rightarrow> nat \<Rightarrow> store \<Rightarrow> (u32 \<times> store) result" where
  "expr_lit_nat H base n st =
     andthen (intern_nat H base n st) (\<lambda>(i, st).
       let data = pack (mix TAG_LIT (literal_hash H (NatVal n))) 0 1 False False False False in
       term_intern_row base (pack_tag TLitNat Default False) i 0 0 (word_of data) st)"

definition expr_lit_str :: "hashers \<Rightarrow> store option \<Rightarrow> string \<Rightarrow> store \<Rightarrow> (u32 \<times> store) result" where
  "expr_lit_str H base s st =
     andthen (intern_str H base s st) (\<lambda>(i, st).
       let data = pack (mix TAG_LIT (literal_hash H (StrVal s))) 0 1 False False False False in
       term_intern_row base (pack_tag TLitStr Default False) i 0 0 (word_of data) st)"

definition expr_mdata :: "store option \<Rightarrow> u32 \<Rightarrow> u32 \<Rightarrow> store \<Rightarrow> (u32 \<times> store) result" where
  "expr_mdata base k child st =
     andthen (expr_data base st child) (\<lambda>cd.
       let depth = depth_of (d_approx_depth cd);
           h = mix (ucast depth) (ucast (d_hash cd)) in
       term_intern_row base (pack_tag TMData Default False) k child 0 (word_of (pass_through h depth cd)) st)"

definition expr_proj :: "hashers \<Rightarrow> store option \<Rightarrow> u32 option \<Rightarrow> nat \<Rightarrow> u32 \<Rightarrow> store \<Rightarrow> (u32 \<times> store) result" where
  "expr_proj H base n idx structure st =
     andthen (expr_data base st structure) (\<lambda>cd. andthen (name_hash_of base st n) (\<lambda>nh.
       let depth = depth_of (d_approx_depth cd);
           h = mix (ucast depth) (mix nh (mix (nat_lossy_u64 idx) (ucast (d_hash cd))));
           out = word_of (pass_through h depth cd) in
       case nat_as_u32 idx of
         Some v \<Rightarrow> term_intern_row base (pack_tag TProj Default False) (opt_bits n) v structure out st
       | None \<Rightarrow> andthen (intern_nat H base idx st) (\<lambda>(i, st).
           term_intern_row base (pack_tag TProjBig Default False) (opt_bits n) i structure out st)))"

section \<open>Decoding a row\<close>

text \<open>\<open>Id::from_bits(bits).expect(..)\<close>.\<close>

definition id_of :: "u32 \<Rightarrow> u32 result" where
  "id_of bits = expect (from_bits bits)"

definition expr_node :: "store option \<Rightarrow> store \<Rightarrow> u32 \<Rightarrow> node result" where
  "expr_node base st i =
     (let t = terms (store_for base st (is_scratch i)); ix = id_index i in
      andthen (tb_tag_byte t ix) (\<lambda>tagbyte. andthen (tb_abc t ix) (\<lambda>(a, b, c).
      andthen (tag_of tagbyte) (\<lambda>tag.
      case tag of
        TBVar \<Rightarrow> Inr (NBVar a)
      | TBVarBig \<Rightarrow> andthen (id_of a) (\<lambda>a. Inr (NBVarBig a))
      | TFVar \<Rightarrow> Inr (NFVar (from_bits a))
      | TMVar \<Rightarrow> Inr (NMVar (from_bits a))
      | TSort \<Rightarrow> andthen (id_of a) (\<lambda>a. Inr (NSort a))
      | TConst \<Rightarrow> andthen (id_of b) (\<lambda>b. Inr (NConst (from_bits a) b))
      | TApp \<Rightarrow> andthen (id_of a) (\<lambda>a. andthen (id_of b) (\<lambda>b. Inr (NApp a b)))
      | TLam \<Rightarrow> andthen (id_of a) (\<lambda>a. andthen (id_of b) (\<lambda>b.
          Inr (NLam (from_bits c) a b (binder_info_of_bits tagbyte))))
      | TForall \<Rightarrow> andthen (id_of a) (\<lambda>a. andthen (id_of b) (\<lambda>b.
          Inr (NForall (from_bits c) a b (binder_info_of_bits tagbyte))))
      | TLetE \<Rightarrow> andthen (id_of c) (\<lambda>c. andthen (spill_at base st c) (\<lambda>spill.
          andthen (id_of a) (\<lambda>a. andthen (id_of b) (\<lambda>b. andthen (id_of (sp_body_or_aux spill)) (\<lambda>body.
          Inr (NLetE (sp_name spill) a b body (non_dep_of_bits tagbyte)))))))
      | TLitNat \<Rightarrow> andthen (id_of a) (\<lambda>a. Inr (NLitNat a))
      | TLitStr \<Rightarrow> andthen (id_of a) (\<lambda>a. Inr (NLitStr a))
      | TMData \<Rightarrow> andthen (id_of a) (\<lambda>a. andthen (id_of b) (\<lambda>b. Inr (NMData a b)))
      | TProj \<Rightarrow> andthen (id_of c) (\<lambda>c. Inr (NProj (from_bits a) b c))
      | TProjBig \<Rightarrow> andthen (id_of b) (\<lambda>b. andthen (id_of c) (\<lambda>c. Inr (NProjBig (from_bits a) b c)))))))"

section \<open>The walk that interns a tree\<close>

definition expr_children :: "expr \<Rightarrow> expr list" where
  "expr_children e =
     (case e of
        EApp f a \<Rightarrow> [f, a] | ELam _ t b _ \<Rightarrow> [t, b] | EForallE _ t b _ \<Rightarrow> [t, b] | ELetE _ t v b _ \<Rightarrow> [t, v, b]
      | EMData _ c \<Rightarrow> [c] | EProj _ _ c \<Rightarrow> [c] | _ \<Rightarrow> [])"

text \<open>The loop over the levels of a constant.\<close>

fun intern_levels :: "hashers \<Rightarrow> store option \<Rightarrow> level list \<Rightarrow> u32 list \<Rightarrow> store \<Rightarrow> (u32 list \<times> store) result" where
  "intern_levels H base [] ids st = Inr (ids, st)"
| "intern_levels H base (l # ls) ids st =
     andthen (intern_level H base l st) (\<lambda>(i, st). intern_levels H base ls (ids @ [i]) st)"

text \<open>The body of the \<open>Exit\<close> arm, as for levels: the children's ids come off \<open>out\<close>.\<close>

definition exit_expr ::
    "hashers \<Rightarrow> store option \<Rightarrow> expr \<Rightarrow> u32 list \<Rightarrow> store \<Rightarrow> ((u32 \<times> u32 list) \<times> store) result" where
  "exit_expr H base e out st =
     (case e of
        EBVar idx \<Rightarrow> andthen (expr_bvar H base idx st) (\<lambda>(i, st). Inr ((i, out), st))
      | EFVar n \<Rightarrow>
          andthen (intern_name H base n st) (\<lambda>(n, st).
          andthen (expr_fvar base n st) (\<lambda>(i, st). Inr ((i, out), st)))
      | EMVar n \<Rightarrow>
          andthen (intern_name H base n st) (\<lambda>(n, st).
          andthen (expr_mvar base n st) (\<lambda>(i, st). Inr ((i, out), st)))
      | ESort l \<Rightarrow>
          andthen (intern_level H base l st) (\<lambda>(l, st).
          andthen (expr_sort base l st) (\<lambda>(i, st). Inr ((i, out), st)))
      | EConst n ls \<Rightarrow>
          andthen (intern_name H base n st) (\<lambda>(n, st).
          andthen (intern_levels H base ls [] st) (\<lambda>(ids, st).
          andthen (intern_level_list H base ids st) (\<lambda>(ls, st).
          andthen (expr_const base n ls st) (\<lambda>(i, st). Inr ((i, out), st)))))
      | EApp _ _ \<Rightarrow>
          andthen (pop out) (\<lambda>(arg, out). andthen (pop out) (\<lambda>(f, out).
          andthen (expr_app base f arg st) (\<lambda>(i, st). Inr ((i, out), st))))
      | ELam n _ _ bi \<Rightarrow>
          andthen (pop out) (\<lambda>(body, out). andthen (pop out) (\<lambda>(ty, out).
          andthen (intern_name H base n st) (\<lambda>(n, st).
          andthen (expr_lam base n ty body bi st) (\<lambda>(i, st). Inr ((i, out), st)))))
      | EForallE n _ _ bi \<Rightarrow>
          andthen (pop out) (\<lambda>(body, out). andthen (pop out) (\<lambda>(ty, out).
          andthen (intern_name H base n st) (\<lambda>(n, st).
          andthen (expr_forall base n ty body bi st) (\<lambda>(i, st). Inr ((i, out), st)))))
      | ELetE n _ _ _ non_dep \<Rightarrow>
          andthen (pop out) (\<lambda>(body, out). andthen (pop out) (\<lambda>(val, out). andthen (pop out) (\<lambda>(ty, out).
          andthen (intern_name H base n st) (\<lambda>(n, st).
          andthen (expr_let H base n ty val body non_dep st) (\<lambda>(i, st). Inr ((i, out), st))))))
      | ELit (NatVal n) \<Rightarrow> andthen (expr_lit_nat H base n st) (\<lambda>(i, st). Inr ((i, out), st))
      | ELit (StrVal s) \<Rightarrow> andthen (expr_lit_str H base s st) (\<lambda>(i, st). Inr ((i, out), st))
      | EMData m _ \<Rightarrow>
          andthen (pop out) (\<lambda>(child, out).
          andthen (intern_kvmap H base m st) (\<lambda>(d, st).
          andthen (expr_mdata base d child st) (\<lambda>(i, st). Inr ((i, out), st))))
      | EProj n idx _ \<Rightarrow>
          andthen (pop out) (\<lambda>(structure, out).
          andthen (intern_name H base n st) (\<lambda>(n, st).
          andthen (expr_proj H base n idx structure st) (\<lambda>(i, st). Inr ((i, out), st)))))"

fun expr_weight :: "expr \<Rightarrow> nat" where
  "expr_weight (EApp f a) = 2 + expr_weight f + expr_weight a"
| "expr_weight (ELam _ t b _) = 2 + expr_weight t + expr_weight b"
| "expr_weight (EForallE _ t b _) = 2 + expr_weight t + expr_weight b"
| "expr_weight (ELetE _ t v b _) = 2 + expr_weight t + expr_weight v + expr_weight b"
| "expr_weight (EMData _ c) = 2 + expr_weight c"
| "expr_weight (EProj _ _ c) = 2 + expr_weight c"
| "expr_weight _ = 2"

fun expr_frame_weight :: "expr frame \<Rightarrow> nat" where
  "expr_frame_weight (Enter e) = expr_weight e"
| "expr_frame_weight (Exit e) = 1"

lemma expr_weight_pos [simp]: "0 < expr_weight e"
  by (cases e) simp_all

function intern_expr_loop ::
    "hashers \<Rightarrow> store option \<Rightarrow> expr frame list \<Rightarrow> u32 list \<Rightarrow> (expr \<rightharpoonup> u32) \<Rightarrow> store
     \<Rightarrow> (u32 list \<times> store) result" where
  "intern_expr_loop H base [] out memo st = Inr (out, st)"
| "intern_expr_loop H base (Enter e # stack) out memo st =
     (case memo e of
        Some i \<Rightarrow> intern_expr_loop H base stack (i # out) memo st
      | None \<Rightarrow>
          intern_expr_loop H base (map Enter (expr_children e) @ Exit e # stack) out memo st)"
| "intern_expr_loop H base (Exit e # stack) out memo st =
     andthen (exit_expr H base e out st) (\<lambda>((i, out), st).
       intern_expr_loop H base stack (i # out) (memo(e \<mapsto> i)) st)"
  by pat_completeness auto
termination
  by (relation "measure (\<lambda>(H, base, stack, out, memo, st). sum_list (map expr_frame_weight stack))")
    (auto simp: expr_children_def split: expr.split)

definition intern_expr :: "hashers \<Rightarrow> store option \<Rightarrow> expr \<Rightarrow> store \<Rightarrow> (u32 \<times> store) result" where
  "intern_expr H base e st =
     andthen (intern_expr_loop H base [Enter e] [] (\<lambda>_. None) st) (\<lambda>(out, st).
       andthen (pop out) (\<lambda>(i, _). Inr (i, st)))"

section \<open>The walk that rebuilds a tree\<close>

text \<open>
  \<open>Expr::sort\<close> and \<open>Expr::const_\<close> walk their levels under the guard for the word they cache: they
  can fail where a level is too deep. \<open>hash_walk\<close> is the descent of \<open>Level::hash_val\<close>; the bytes it
  feeds to the hasher only reach the cached hash.
\<close>

fun hash_walk :: "level \<Rightarrow> nat \<Rightarrow> unit result" where
  "hash_walk (Succ a) d = enter d (\<lambda>d. hash_walk a d)"
| "hash_walk (Max a b) d = enter d (\<lambda>d. andthen (hash_walk a d) (\<lambda>_. hash_walk b d))"
| "hash_walk (IMax a b) d = enter d (\<lambda>d. andthen (hash_walk a d) (\<lambda>_. hash_walk b d))"
| "hash_walk _ d = Inr ()"

definition level_info_walks :: "level \<Rightarrow> nat \<Rightarrow> unit result" where
  "level_info_walks l d =
     andthen (has_mvar l d) (\<lambda>_. andthen (has_param l d) (\<lambda>_. hash_walk l d))"

definition arc_sort :: "level \<Rightarrow> nat \<Rightarrow> expr result" where
  "arc_sort l d = andthen (level_info_walks l d) (\<lambda>_. Inr (ESort l))"

fun levels_info_walks :: "level list \<Rightarrow> nat \<Rightarrow> unit result" where
  "levels_info_walks [] d = Inr ()"
| "levels_info_walks (l # ls) d = andthen (level_info_walks l d) (\<lambda>_. levels_info_walks ls d)"

definition arc_const :: "name \<Rightarrow> level list \<Rightarrow> nat \<Rightarrow> expr result" where
  "arc_const n ls d = andthen (levels_info_walks ls d) (\<lambda>_. Inr (EConst n ls))"

fun to_levels :: "store option \<Rightarrow> store \<Rightarrow> u32 list \<Rightarrow> level list result" where
  "to_levels base st [] = Inr []"
| "to_levels base st (i # is) =
     andthen (to_level base st i) (\<lambda>l. andthen (to_levels base st is) (\<lambda>ls. Inr (l # ls)))"

definition node_children :: "node \<Rightarrow> u32 list" where
  "node_children nd =
     (case nd of
        NApp f a \<Rightarrow> [f, a] | NLam _ t b _ \<Rightarrow> [t, b] | NForall _ t b _ \<Rightarrow> [t, b] | NLetE _ t v b _ \<Rightarrow> [t, v, b]
      | NMData _ c \<Rightarrow> [c] | NProj _ _ c \<Rightarrow> [c] | NProjBig _ _ c \<Rightarrow> [c] | _ \<Rightarrow> [])"

definition exit_node :: "store option \<Rightarrow> store \<Rightarrow> nat \<Rightarrow> node \<Rightarrow> expr list \<Rightarrow> (expr \<times> expr list) result" where
  "exit_node base st d nd out =
     (case nd of
        NBVar w \<Rightarrow> Inr (EBVar (unat w), out)
      | NBVarBig q \<Rightarrow> andthen (nat_at base st q) (\<lambda>n. Inr (EBVar n, out))
      | NFVar n \<Rightarrow> andthen (to_name base st n) (\<lambda>n. Inr (EFVar n, out))
      | NMVar n \<Rightarrow> andthen (to_name base st n) (\<lambda>n. Inr (EMVar n, out))
      | NSort l \<Rightarrow> andthen (to_level base st l) (\<lambda>l. andthen (arc_sort l d) (\<lambda>e. Inr (e, out)))
      | NConst n ls \<Rightarrow>
          andthen (to_name base st n) (\<lambda>n. andthen (level_list_at base st ls) (\<lambda>ids.
          andthen (to_levels base st ids) (\<lambda>ls. andthen (arc_const n ls d) (\<lambda>e. Inr (e, out)))))
      | NApp _ _ \<Rightarrow> andthen (pop out) (\<lambda>(arg, out). andthen (pop out) (\<lambda>(f, out). Inr (EApp f arg, out)))
      | NLam n _ _ bi \<Rightarrow>
          andthen (pop out) (\<lambda>(body, out). andthen (pop out) (\<lambda>(ty, out).
          andthen (to_name base st n) (\<lambda>n. Inr (ELam n ty body bi, out))))
      | NForall n _ _ bi \<Rightarrow>
          andthen (pop out) (\<lambda>(body, out). andthen (pop out) (\<lambda>(ty, out).
          andthen (to_name base st n) (\<lambda>n. Inr (EForallE n ty body bi, out))))
      | NLetE n _ _ _ non_dep \<Rightarrow>
          andthen (pop out) (\<lambda>(body, out). andthen (pop out) (\<lambda>(val, out). andthen (pop out) (\<lambda>(ty, out).
          andthen (to_name base st n) (\<lambda>n. Inr (ELetE n ty val body non_dep, out)))))
      | NLitNat q \<Rightarrow> andthen (nat_at base st q) (\<lambda>n. Inr (ELit (NatVal n), out))
      | NLitStr q \<Rightarrow> andthen (str_at base st q) (\<lambda>s. Inr (ELit (StrVal s), out))
      | NMData k _ \<Rightarrow>
          andthen (pop out) (\<lambda>(child, out). andthen (to_kvmap base st k) (\<lambda>m. Inr (EMData m child, out)))
      | NProj n w _ \<Rightarrow>
          andthen (pop out) (\<lambda>(structure, out).
          andthen (to_name base st n) (\<lambda>n. Inr (EProj n (unat w) structure, out)))
      | NProjBig n q _ \<Rightarrow>
          andthen (pop out) (\<lambda>(structure, out). andthen (to_name base st n) (\<lambda>n.
          andthen (nat_at base st q) (\<lambda>k. Inr (EProj n k structure, out)))))"

partial_function (option) to_expr_loop ::
    "store option \<Rightarrow> store \<Rightarrow> nat \<Rightarrow> u32 frame list \<Rightarrow> expr list \<Rightarrow> (u32 \<rightharpoonup> expr) \<Rightarrow> expr list result option" where
  "to_expr_loop base st d stack out memo =
     (case stack of
        [] \<Rightarrow> Some (Inr out)
      | Enter i # stack \<Rightarrow>
          (case memo i of
             Some e \<Rightarrow> to_expr_loop base st d stack (e # out) memo
           | None \<Rightarrow>
               (case expr_node base st i of
                  Inl err \<Rightarrow> Some (Inl err)
                | Inr nd \<Rightarrow>
                    to_expr_loop base st d (map Enter (node_children nd) @ Exit i # stack) out memo))
      | Exit i # stack \<Rightarrow>
          (case andthen (expr_node base st i) (\<lambda>nd. exit_node base st d nd out) of
             Inl err \<Rightarrow> Some (Inl err)
           | Inr (e, out) \<Rightarrow> to_expr_loop base st d stack (e # out) (memo(i \<mapsto> e))))"

declare to_expr_loop.simps [code]

definition to_expr :: "store option \<Rightarrow> store \<Rightarrow> u32 \<Rightarrow> nat \<Rightarrow> expr result" where
  "to_expr base st i d =
     andthen (loop_result (to_expr_loop base st d [Enter i] [] (\<lambda>_. None))) (\<lambda>out.
       andthen (pop out) (\<lambda>(e, _). Inr e))"

end
