(* ===== verification/Term_Denotation.thy ===== *)
theory Term_Denotation
  imports Denotation Terms
begin

text \<open>
  What the expression ids of a store denote. A row stands for a \<open>node\<close> when it is the row that the
  constructors write for that node (\<open>encodes\<close>); an id denotes the tree whose root its node is and
  whose subtrees its children denote (\<open>expr_at\<close>). \<open>data_of\<close> is the data word of a tree, computed
  from the tree alone; \<open>terms_ok\<close> says that every row denotes a tree and carries its word.
\<close>

section \<open>The word of a tree\<close>

fun data_of :: "hashers \<Rightarrow> expr \<Rightarrow> u64" where
  "data_of H (EBVar n) = pack (mix TAG_BVAR (nat_lossy_u64 n)) (bvar_loose_range n) 1 False False False False"
| "data_of H (EFVar n) = pack (mix TAG_FVAR (name_hash H n)) 0 1 True False False False"
| "data_of H (EMVar n) = pack (mix TAG_MVAR (name_hash H n)) 0 1 False True False False"
| "data_of H (ESort l) =
     pack (mix TAG_SORT (lvl_hash H l)) 0 1 False False (lvl_flags l AND 2 \<noteq> 0) (lvl_flags l AND 1 \<noteq> 0)"
| "data_of H (EConst n ls) =
     pack (mix TAG_CONST (mix (name_hash H n) (foldl (\<lambda>h l. mix h (lvl_hash H l)) 0 ls))) 0 1 False False
       (\<exists>l \<in> set ls. lvl_flags l AND 2 \<noteq> 0) (\<exists>l \<in> set ls. lvl_flags l AND 1 \<noteq> 0)"
| "data_of H (EApp f a) = combine_app (data_of H f) (data_of H a)"
| "data_of H (ELam n t b bi) = combine_binder (data_of H t) (data_of H b)"
| "data_of H (EForallE n t b bi) = combine_binder (data_of H t) (data_of H b)"
| "data_of H (ELetE n t v b nd) = combine_let (data_of H t) (data_of H v) (data_of H b)"
| "data_of H (ELit l) = pack (mix TAG_LIT (literal_hash H l)) 0 1 False False False False"
| "data_of H (EMData m c) =
     (let depth = depth_of (d_approx_depth (data_of H c)) in
      pass_through (mix (ucast depth) (ucast (d_hash (data_of H c)))) depth (data_of H c))"
| "data_of H (EProj n k c) =
     (let depth = depth_of (d_approx_depth (data_of H c)) in
      pass_through (mix (ucast depth) (mix (name_hash H n) (mix (nat_lossy_u64 k) (ucast (d_hash (data_of H c))))))
        depth (data_of H c))"

lemma packed_data_of [simp]: "packed (data_of H e)"
  by (cases e) (simp_all add: Let_def)

lemma word_data_of [simp]: "data_of_word (word_of (data_of H e)) = data_of H e"
  by (simp add: data_of_word_word_of)

section \<open>Rows and nodes\<close>

definition valid_id :: "u32 \<Rightarrow> bool" where
  "valid_id i \<longleftrightarrow> from_bits i = Some i"

definition valid_name :: "u32 option \<Rightarrow> bool" where
  "valid_name x \<longleftrightarrow> from_bits (opt_bits x) = x"

lemma id_of_valid [simp]: "valid_id i \<Longrightarrow> id_of i = Inr i"
  by (simp add: valid_id_def id_of_def)

lemma valid_name_inject: "valid_name x \<Longrightarrow> valid_name y \<Longrightarrow> opt_bits x = opt_bits y \<longleftrightarrow> x = y"
  unfolding valid_name_def by metis

lemma valid_name_None [simp]: "valid_name None"
  by (simp add: valid_name_def opt_bits_def from_bits_def)

lemma valid_name_Some [simp]: "valid_name (Some i) \<longleftrightarrow> valid_id i"
  by (simp add: valid_name_def valid_id_def opt_bits_def)

fun encodes :: "store option \<Rightarrow> store \<Rightarrow> term_row \<Rightarrow> node \<Rightarrow> bool" where
  "encodes base st r (NBVar w) \<longleftrightarrow> r = (pack_tag TBVar Default False, w, 0, 0)"
| "encodes base st r (NBVarBig q) \<longleftrightarrow> r = (pack_tag TBVarBig Default False, q, 0, 0) \<and> valid_id q"
| "encodes base st r (NFVar x) \<longleftrightarrow> r = (pack_tag TFVar Default False, opt_bits x, 0, 0) \<and> valid_name x"
| "encodes base st r (NMVar x) \<longleftrightarrow> r = (pack_tag TMVar Default False, opt_bits x, 0, 0) \<and> valid_name x"
| "encodes base st r (NSort l) \<longleftrightarrow> r = (pack_tag TSort Default False, l, 0, 0) \<and> valid_id l"
| "encodes base st r (NConst x ls) \<longleftrightarrow>
     r = (pack_tag TConst Default False, opt_bits x, ls, 0) \<and> valid_name x \<and> valid_id ls"
| "encodes base st r (NApp f a) \<longleftrightarrow> r = (pack_tag TApp Default False, f, a, 0) \<and> valid_id f \<and> valid_id a"
| "encodes base st r (NLam x t b bi) \<longleftrightarrow>
     r = (pack_tag TLam bi False, t, b, opt_bits x) \<and> valid_name x \<and> valid_id t \<and> valid_id b"
| "encodes base st r (NForall x t b bi) \<longleftrightarrow>
     r = (pack_tag TForall bi False, t, b, opt_bits x) \<and> valid_name x \<and> valid_id t \<and> valid_id b"
| "encodes base st r (NLetE x t v b nd) \<longleftrightarrow>
     (\<exists>s. r = (pack_tag TLetE Default nd, t, v, s) \<and> spill_ent base st s = Some \<lparr>sp_name = x, sp_body_or_aux = b\<rparr>
        \<and> valid_id s \<and> valid_name x \<and> valid_id t \<and> valid_id v \<and> valid_id b)"
| "encodes base st r (NLitNat q) \<longleftrightarrow> r = (pack_tag TLitNat Default False, q, 0, 0) \<and> valid_id q"
| "encodes base st r (NLitStr q) \<longleftrightarrow> r = (pack_tag TLitStr Default False, q, 0, 0) \<and> valid_id q"
| "encodes base st r (NMData k c) \<longleftrightarrow> r = (pack_tag TMData Default False, k, c, 0) \<and> valid_id k \<and> valid_id c"
| "encodes base st r (NProj x w c) \<longleftrightarrow>
     r = (pack_tag TProj Default False, opt_bits x, w, c) \<and> valid_name x \<and> valid_id c"
| "encodes base st r (NProjBig x q c) \<longleftrightarrow>
     r = (pack_tag TProjBig Default False, opt_bits x, q, c) \<and> valid_name x \<and> valid_id q \<and> valid_id c"

definition node_at :: "store option \<Rightarrow> store \<Rightarrow> u32 \<Rightarrow> node \<Rightarrow> bool" where
  "node_at base st i nd \<longleftrightarrow> (\<exists>r. term_ent base st i = Some r \<and> encodes base st r nd)"

lemma encodes_grows: "encodes base st r nd \<Longrightarrow> grows base st st' \<Longrightarrow> encodes base st' r nd"
  by (cases nd) (auto dest: growsD)

lemma node_at_grows: "node_at base st i nd \<Longrightarrow> grows base st st' \<Longrightarrow> node_at base st' i nd"
  unfolding node_at_def by (blast dest: growsD encodes_grows)

lemma encodes_det: "encodes base st r nd \<Longrightarrow> encodes base st r nd' \<Longrightarrow> nd = nd'"
  by (cases nd; cases nd') (auto simp: valid_name_inject)

lemma node_at_det: "node_at base st i nd \<Longrightarrow> node_at base st i nd' \<Longrightarrow> nd = nd'"
  unfolding node_at_def using encodes_det by fastforce

lemma encodes_inject:
  assumes "banks_ok H base st" and "encodes base st r nd" and "encodes base st r' nd" shows "r = r'"
  using assms(2,3) ent_inject(8) [OF assms(1)] by (cases nd) auto

lemma node_at_inject:
  "banks_ok H base st \<Longrightarrow> node_at base st i nd \<Longrightarrow> node_at base st j nd \<Longrightarrow> i = j"
  unfolding node_at_def by (metis encodes_inject ent_inject(9))

lemma term_reads:
  assumes "banks_ok H base st" and "term_ent base st i = Some (tagbyte, a, b, c)"
  shows "tb_tag_byte (terms (store_for base st (is_scratch i))) (id_index i) = Inr tagbyte"
    and "tb_abc (terms (store_for base st (is_scratch i))) (id_index i) = Inr (a, b, c)"
    and "tb_data_word (terms (store_for base st (is_scratch i))) (id_index i)
      = Inr (term_data_at base st (tagbyte, a, b, c))"
proof -
  from assms(1) have ok: "tb.pair_ok (map_option terms base) (terms st)" by (simp add: banks_ok_def)
  from assms(2) have e: "tb.entry (map_option terms base) (terms st) i = Some (tagbyte, a, b, c)"
    by (simp add: term_ent_def)
  note r = tb.entry_routed [OF ok e]
  let ?b = "tb.owner (map_option terms base) (terms st) i"
  have par: "tb_parallel ?b" and dist: "distinct (tb_rows ?b)"
    using r(7) by (auto simp: tb_inv_def bank_inv_def)
  note reads = tb_reads [OF par r(1) r(2)]
  show "tb_tag_byte (terms (store_for base st (is_scratch i))) (id_index i) = Inr tagbyte"
    "tb_abc (terms (store_for base st (is_scratch i))) (id_index i) = Inr (a, b, c)"
    using reads by (simp_all add: store_for_owner)
  show "tb_data_word (terms (store_for base st (is_scratch i))) (id_index i)
      = Inr (term_data_at base st (tagbyte, a, b, c))"
    using reads r(1,2,3) assoc_nth [OF dist length_tb_rows [OF par] r(1)]
    by (simp add: store_for_owner term_data_at_def)
qed

lemma expr_node_ok:
  assumes ok: "banks_ok H base st" and nd: "node_at base st i nd"
  shows "expr_node base st i = Inr nd"
proof -
  from nd obtain tagbyte a b c where
    e: "term_ent base st i = Some (tagbyte, a, b, c)" and enc: "encodes base st (tagbyte, a, b, c) nd"
    by (auto simp: node_at_def)
  show ?thesis using enc
    by (cases nd) (auto simp: expr_node_def Let_def term_reads [OF ok e] valid_name_def pool_reads(6) [OF ok])
qed

section \<open>Ids and trees\<close>

text \<open>A node whose children stand in the relation \<open>R\<close> to the subtrees.\<close>

fun node_expr :: "store option \<Rightarrow> store \<Rightarrow> (u32 \<Rightarrow> expr \<Rightarrow> bool) \<Rightarrow> node \<Rightarrow> expr \<Rightarrow> bool" where
  "node_expr base st R (NBVar w) e \<longleftrightarrow> e = EBVar (unat w)"
| "node_expr base st R (NBVarBig q) e \<longleftrightarrow> (\<exists>n. e = EBVar n \<and> nat_ent base st q = Some n \<and> 2 ^ 32 \<le> n)"
| "node_expr base st R (NFVar x) e \<longleftrightarrow> (\<exists>n. e = EFVar n \<and> name_at base st x n)"
| "node_expr base st R (NMVar x) e \<longleftrightarrow> (\<exists>n. e = EMVar n \<and> name_at base st x n)"
| "node_expr base st R (NSort i) e \<longleftrightarrow> (\<exists>l. e = ESort l \<and> level_at base st i l)"
| "node_expr base st R (NConst x i) e \<longleftrightarrow> (\<exists>n ls. e = EConst n ls \<and> name_at base st x n \<and> levels_at base st i ls)"
| "node_expr base st R (NApp f a) e \<longleftrightarrow> (\<exists>ef ea. e = EApp ef ea \<and> R f ef \<and> R a ea)"
| "node_expr base st R (NLam x t b bi) e \<longleftrightarrow>
     (\<exists>n et eb. e = ELam n et eb bi \<and> name_at base st x n \<and> R t et \<and> R b eb)"
| "node_expr base st R (NForall x t b bi) e \<longleftrightarrow>
     (\<exists>n et eb. e = EForallE n et eb bi \<and> name_at base st x n \<and> R t et \<and> R b eb)"
| "node_expr base st R (NLetE x t v b nd) e \<longleftrightarrow>
     (\<exists>n et ev eb. e = ELetE n et ev eb nd \<and> name_at base st x n \<and> R t et \<and> R v ev \<and> R b eb)"
| "node_expr base st R (NLitNat q) e \<longleftrightarrow> (\<exists>n. e = ELit (NatVal n) \<and> nat_ent base st q = Some n)"
| "node_expr base st R (NLitStr q) e \<longleftrightarrow> (\<exists>s. e = ELit (StrVal s) \<and> str_ent base st q = Some s)"
| "node_expr base st R (NMData k c) e \<longleftrightarrow> (\<exists>m ec. e = EMData m ec \<and> kvmap_denotes base st k m \<and> R c ec)"
| "node_expr base st R (NProj x w c) e \<longleftrightarrow> (\<exists>n ec. e = EProj n (unat w) ec \<and> name_at base st x n \<and> R c ec)"
| "node_expr base st R (NProjBig x q c) e \<longleftrightarrow>
     (\<exists>n k ec. e = EProj n k ec \<and> name_at base st x n \<and> nat_ent base st q = Some k \<and> 2 ^ 32 \<le> k \<and> R c ec)"

lemma node_expr_mono [mono]: "R \<le> R' \<Longrightarrow> node_expr base st R nd e \<longrightarrow> node_expr base st R' nd e"
  by (cases nd) (auto dest: predicate2D)

inductive expr_at :: "store option \<Rightarrow> store \<Rightarrow> u32 \<Rightarrow> expr \<Rightarrow> bool" for base st where
  expr_at: "node_at base st i nd \<Longrightarrow> node_expr base st (expr_at base st) nd e \<Longrightarrow> expr_at base st i e"

inductive_cases expr_atE: "expr_at base st i e"

lemma node_expr_grows:
  assumes "node_expr base st R nd e" and "grows base st st'" and "\<And>i e. R i e \<Longrightarrow> R' i e"
  shows "node_expr base st' R' nd e"
  using assms(1)
  by (cases nd) (auto intro: denotes_grows [OF _ assms(2)] assms(3) dest: growsD [OF assms(2)])

lemma expr_at_grows: "expr_at base st i e \<Longrightarrow> grows base st st' \<Longrightarrow> expr_at base st' i e"
proof (induction rule: expr_at.induct)
  case (expr_at i nd e)
  then have "node_expr base st' (expr_at base st') nd e" by (intro node_expr_grows [OF expr_at(2)]) auto
  then show ?case using node_at_grows [OF expr_at(1,3)] by (rule expr_at.expr_at [rotated])
qed

lemma node_expr_det:
  assumes "node_expr base st R nd e" and "node_expr base st S nd e'" and "\<And>i e e'. R i e \<Longrightarrow> S i e' \<Longrightarrow> e = e'"
  shows "e = e'"
  using assms(1,2)
  by (cases nd) (auto dest: assms(3) name_at_det level_at_det levels_at_det kvmap_denotes_det)

lemma expr_at_det: "expr_at base st i e \<Longrightarrow> expr_at base st i e' \<Longrightarrow> e = e'"
proof (induction arbitrary: e' rule: expr_at.induct)
  case (expr_at i nd e)
  from expr_at(3) obtain nd' where nd': "node_at base st i nd'" "node_expr base st (expr_at base st) nd' e'"
    by (rule expr_atE)
  with node_at_det [OF expr_at(1)] have "nd' = nd" by blast
  with nd'(2) have e': "node_expr base st (expr_at base st) nd e'" by simp
  from expr_at(2) e' show ?case by (rule node_expr_det) blast
qed

text \<open>An id's node determines the shape of its tree.\<close>

lemma expr_at_node: "node_at base st i nd \<Longrightarrow> expr_at base st i e \<longleftrightarrow> node_expr base st (expr_at base st) nd e"
  by (metis expr_at.expr_at expr_atE node_at_det)

lemma list_level_at_inject:
  assumes ok: "banks_ok H base st"
  shows "list_all2 (level_at base st) l ls \<Longrightarrow> list_all2 (level_at base st) l' ls \<Longrightarrow> l = l'"
proof (induction ls arbitrary: l l')
  case (Cons x ls)
  from Cons.prems(1) obtain i k where 1: "l = i # k" "level_at base st i x" "list_all2 (level_at base st) k ls"
    by (auto simp: list_all2_Cons2)
  from Cons.prems(2) obtain j js where 2: "l' = j # js" "level_at base st j x" "list_all2 (level_at base st) js ls"
    by (auto simp: list_all2_Cons2)
  from Cons.IH [OF 1(3) 2(3)] level_at_inject [OF ok 1(2) 2(2)] 1(1) 2(1) show ?case by simp
qed simp

lemma levels_at_inject:
  assumes ok: "banks_ok H base st" and "levels_at base st i ls" and "levels_at base st j ls" shows "i = j"
  using assms(2,3) list_level_at_inject [OF ok] ent_inject(6) [OF ok] unfolding levels_at_def by metis

lemma data_at_inject: "banks_ok H base st \<Longrightarrow> data_at base st r v \<Longrightarrow> data_at base st r' v \<Longrightarrow> r = r'"
  by (auto elim!: data_at.cases intro: ent_inject name_at_inject)

lemma entries_at_inject:
  assumes ok: "banks_ok H base st"
  shows "entries_at base st row m \<Longrightarrow> entries_at base st row' m \<Longrightarrow> row = row'"
proof (induction m arbitrary: row row')
  case (Cons nv m)
  obtain n v where nv: "nv = (n, v)" by (cases nv)
  from Cons.prems(1) obtain x r rs where 1: "row = (x, r) # rs" "name_at base st x n" "data_at base st r v"
    "entries_at base st rs m" by (auto simp: entries_at_def list_all2_Cons2 nv)
  from Cons.prems(2) obtain x' r' rs' where 2: "row' = (x', r') # rs'" "name_at base st x' n" "data_at base st r' v"
    "entries_at base st rs' m" by (auto simp: entries_at_def list_all2_Cons2 nv)
  from Cons.IH [OF 1(4) 2(4)] name_at_inject [OF ok 1(2) 2(2)] data_at_inject [OF ok 1(3) 2(3)] 1(1) 2(1)
  show ?case by simp
qed (simp add: entries_at_def)

lemma kvmap_denotes_inject:
  assumes ok: "banks_ok H base st" and "kvmap_denotes base st i m" and "kvmap_denotes base st j m" shows "i = j"
  using assms(2,3) entries_at_inject [OF ok] ent_inject(7) [OF ok] unfolding kvmap_denotes_def by metis

lemma node_expr_inject:
  assumes ok: "banks_ok H base st" and "node_expr base st R nd e" and "node_expr base st S nd' e"
    and R: "\<And>i j e. R i e \<Longrightarrow> S j e \<Longrightarrow> i = j"
  shows "nd = nd'"
proof -
  have big: "\<not> 4294967296 \<le> unat (w :: u32)" for w using unsigned_less [of w, where ?'a = nat] by simp
  have word_inj: "unat a = unat b \<Longrightarrow> a = b" for a b :: u32 by (rule unsigned_word_eqI)
  note inj = name_at_inject [OF ok] level_at_inject [OF ok] levels_at_inject [OF ok] kvmap_denotes_inject [OF ok]
    ent_inject(1,2) [OF ok] R word_inj
  show ?thesis using assms(2,3)
    by (cases nd; cases nd') (auto intro: inj simp: big)
qed

lemma expr_at_inject: "expr_at base st i e \<Longrightarrow> banks_ok H base st \<Longrightarrow> expr_at base st j e \<Longrightarrow> i = j"
proof (induction arbitrary: j rule: expr_at.induct)
  case (expr_at i nd e)
  from expr_at(4) obtain nd' where nd': "node_at base st j nd'" "node_expr base st (expr_at base st) nd' e"
    by (rule expr_atE)
  from expr_at(2) nd'(2) have "nd = nd'"
    by (rule node_expr_inject [OF expr_at(3)]) (use expr_at(3) in blast)
  with node_at_inject [OF expr_at(3,1)] nd'(1) show ?case by blast
qed

section \<open>Terms in order\<close>

definition term_good :: "hashers \<Rightarrow> store option \<Rightarrow> store \<Rightarrow> u32 \<Rightarrow> term_row \<Rightarrow> bool" where
  "term_good H base st i r \<longleftrightarrow>
     (\<exists>e. expr_at base st i e \<and> term_data_at base st r = word_of (data_of H e))"

definition terms_ok :: "hashers \<Rightarrow> store option \<Rightarrow> store \<Rightarrow> bool" where
  "terms_ok H base st \<longleftrightarrow> (\<forall>i r. term_ent base st i = Some r \<longrightarrow> term_good H base st i r)"

lemma terms_ok_step:
  assumes ok: "terms_ok H base st" and g: "grows base st st'"
    and new: "\<And>i r. term_ent base st' i = Some r \<Longrightarrow> term_ent base st i = None \<Longrightarrow> term_good H base st' i r"
  shows "terms_ok H base st'"
  unfolding terms_ok_def
proof (intro allI impI)
  fix i r assume r: "term_ent base st' i = Some r"
  show "term_good H base st' i r"
  proof (cases "term_ent base st i")
    case (Some s)
    with growsD(9) [OF g Some] r have e: "term_ent base st i = Some r" by simp
    with ok have "term_good H base st i r" unfolding terms_ok_def by blast
    with growsD(13) [OF g e] show ?thesis by (auto simp: term_good_def intro: expr_at_grows [OF _ g])
  qed (use new r in blast)
qed

lemma terms_ok_same:
  assumes "terms_ok H base st" and "grows base st st'" and "terms st' = terms st"
  shows "terms_ok H base st'"
  using assms(1,2) by (rule terms_ok_step) (simp add: term_ent_def assms(3))

lemma expr_data_ok:
  assumes ok: "banks_ok H base st" "terms_ok H base st" and e: "expr_at base st i e"
  shows "expr_data base st i = Inr (data_of H e)"
proof -
  from e obtain r where r: "term_ent base st i = Some r" unfolding node_at_def by (meson expr_atE node_at_def)
  with ok(2) obtain e' where e': "expr_at base st i e'" "term_data_at base st r = word_of (data_of H e')"
    unfolding terms_ok_def term_good_def by blast
  then have "e' = e" using e expr_at_det by blast
  with e'(2) r show ?thesis by (cases r) (simp add: expr_data_def term_reads [OF ok(1)])
qed

lemma ent_valid:
  assumes "banks_ok H base st"
  shows "str_ent base st i = Some s \<Longrightarrow> valid_id i" and "nat_ent base st i = Some n \<Longrightarrow> valid_id i"
    and "name_ent base st i = Some nr \<Longrightarrow> valid_id i" and "level_ent base st i = Some lr \<Longrightarrow> valid_id i"
    and "list_ent base st i = Some l \<Longrightarrow> valid_id i" and "kv_ent base st i = Some k \<Longrightarrow> valid_id i"
    and "spill_ent base st i = Some sp \<Longrightarrow> valid_id i" and "term_ent base st i = Some t \<Longrightarrow> valid_id i"
  using assms [unfolded banks_ok_def] unfolding valid_id_def ent_defs
  by (blast dest: pool.entry_routed(5) nb.entry_routed(5) lb.entry_routed(5) tb.entry_routed(5))+

lemma denotes_valid:
  assumes ok: "banks_ok H base st"
  shows "name_at base st x n \<Longrightarrow> valid_name x" and "level_at base st i l \<Longrightarrow> valid_id i"
    and "levels_at base st i ls \<Longrightarrow> valid_id i" and "kvmap_denotes base st i m \<Longrightarrow> valid_id i"
    and "expr_at base st i e \<Longrightarrow> valid_id i"
proof -
  show "name_at base st x n \<Longrightarrow> valid_name x"
    by (cases x) (auto elim!: name_at_SomeE dest: ent_valid(3) [OF ok])
  show "level_at base st i l \<Longrightarrow> valid_id i"
    by (erule level_atE) (auto dest: ent_valid(4) [OF ok])
  show "levels_at base st i ls \<Longrightarrow> valid_id i" by (auto simp: levels_at_def dest: ent_valid(5) [OF ok])
  show "kvmap_denotes base st i m \<Longrightarrow> valid_id i" by (auto simp: kvmap_denotes_def dest: ent_valid(6) [OF ok])
  show "expr_at base st i e \<Longrightarrow> valid_id i"
    by (auto simp: node_at_def elim!: expr_atE dest: ent_valid(8) [OF ok])
qed

end
