(* ===== verification/Store_Intern.thy ===== *)
theory Store_Intern
  imports Term_Denotation
begin

text \<open>
  The contracts of the interning functions of \<open>Store\<close>. \<open>good H base st st'\<close>: \<open>st'\<close> is a
  well-formed store in which every id of \<open>st\<close> still denotes what it did. Each \<open>intern_\<close> function
  returns in a \<open>good\<close> store an id of its argument, and leaves the store alone when the argument is
  already known. It fails only with \<open>BankExhausted\<close>, and not while the store has room: \<open>used st\<close> is
  the number of rows in all banks, and each function adds at most the stated number.
\<close>

section \<open>Well-formed stores\<close>

definition name_good :: "hashers \<Rightarrow> store option \<Rightarrow> store \<Rightarrow> u32 \<Rightarrow> name_row \<Rightarrow> bool" where
  "name_good H base st i r \<longleftrightarrow>
     (\<exists>n. name_at base st (Some i) n \<and> name_hash_at base st r = name_hash H n)"

definition level_good :: "hashers \<Rightarrow> store option \<Rightarrow> store \<Rightarrow> u32 \<Rightarrow> level_row \<Rightarrow> bool" where
  "level_good H base st i r \<longleftrightarrow>
     (\<exists>l. level_at base st i l \<and> level_hash_at base st r = lvl_hash H l \<and> level_flags_at base st r = lvl_flags l)"

definition wf :: "hashers \<Rightarrow> store option \<Rightarrow> store \<Rightarrow> bool" where
  "wf H base st \<longleftrightarrow> banks_ok H base st
   \<and> (\<forall>i r. name_ent base st i = Some r \<longrightarrow> name_good H base st i r)
   \<and> (\<forall>i r. level_ent base st i = Some r \<longrightarrow> level_good H base st i r)
   \<and> (\<forall>i l. list_ent base st i = Some l \<longrightarrow> (\<exists>ls. list_all2 (level_at base st) l ls))
   \<and> (\<forall>i k. kv_ent base st i = Some k \<longrightarrow> (\<exists>m. entries_at base st k m))"

definition good :: "hashers \<Rightarrow> store option \<Rightarrow> store \<Rightarrow> store \<Rightarrow> bool" where
  "good H base st st' \<longleftrightarrow> wf H base st' \<and> grows base st st' \<and> (terms_ok H base st \<longrightarrow> terms_ok H base st')"

lemma wf_banks: "wf H base st \<Longrightarrow> banks_ok H base st"
  by (simp add: wf_def)

lemma wf_nameD:
  "wf H base st \<Longrightarrow> name_ent base st i = Some r \<Longrightarrow>
     \<exists>n. name_at base st (Some i) n \<and> name_hash_at base st r = name_hash H n"
  unfolding wf_def name_good_def by blast

lemma wf_levelD:
  "wf H base st \<Longrightarrow> level_ent base st i = Some r \<Longrightarrow>
     \<exists>l. level_at base st i l \<and> level_hash_at base st r = lvl_hash H l \<and> level_flags_at base st r = lvl_flags l"
  unfolding wf_def level_good_def by blast

lemma wf_listD: "wf H base st \<Longrightarrow> list_ent base st i = Some l \<Longrightarrow> \<exists>ls. list_all2 (level_at base st) l ls"
  unfolding wf_def by blast

lemma wf_kvD: "wf H base st \<Longrightarrow> kv_ent base st i = Some k \<Longrightarrow> \<exists>m. entries_at base st k m"
  unfolding wf_def by blast

lemma goodI: "wf H base st' \<Longrightarrow> grows base st st' \<Longrightarrow> terms st' = terms st \<Longrightarrow> good H base st st'"
  by (auto simp: good_def intro: terms_ok_same)

lemma good_refl: "wf H base st \<Longrightarrow> good H base st st"
  by (simp add: good_def)

lemma good_trans: "good H base a b \<Longrightarrow> good H base b c \<Longrightarrow> good H base a c"
  by (auto simp: good_def intro: grows_trans)

lemma goodD: "good H base st st' \<Longrightarrow> wf H base st'" "good H base st st' \<Longrightarrow> grows base st st'"
  "good H base st st' \<Longrightarrow> terms_ok H base st \<Longrightarrow> terms_ok H base st'"
  by (simp_all add: good_def)

text \<open>What has to be shown after a step: the banks are in order and the new rows are.\<close>

lemma wf_step:
  assumes wf: "wf H base st" and ok: "banks_ok H base st'" and g: "grows base st st'"
    and new: "\<And>i r. name_ent base st' i = Some r \<Longrightarrow> name_ent base st i = None \<Longrightarrow> name_good H base st' i r"
      "\<And>i r. level_ent base st' i = Some r \<Longrightarrow> level_ent base st i = None \<Longrightarrow> level_good H base st' i r"
      "\<And>i l. list_ent base st' i = Some l \<Longrightarrow> list_ent base st i = None \<Longrightarrow> \<exists>ls. list_all2 (level_at base st') l ls"
      "\<And>i k. kv_ent base st' i = Some k \<Longrightarrow> kv_ent base st i = None \<Longrightarrow> \<exists>m. entries_at base st' k m"
  shows "wf H base st'"
  unfolding wf_def
proof (intro conjI allI impI)
  show "banks_ok H base st'" by (rule ok)
  fix i r assume r: "name_ent base st' i = Some r"
  show "name_good H base st' i r"
  proof (cases "name_ent base st i")
    case (Some s)
    with growsD(4) [OF g Some] r have "name_ent base st i = Some r" by simp
    with wf have "name_good H base st i r" by (simp add: wf_def)
    with growsD(10) [OF g \<open>name_ent base st i = Some r\<close>] show ?thesis
      by (auto simp: name_good_def intro: name_at_grows [OF _ g])
  qed (use new(1) r in blast)
next
  fix i r assume r: "level_ent base st' i = Some r"
  show "level_good H base st' i r"
  proof (cases "level_ent base st i")
    case (Some s)
    with growsD(5) [OF g Some] r have e: "level_ent base st i = Some r" by simp
    with wf have "level_good H base st i r" by (simp add: wf_def)
    with growsD(11,12) [OF g e] show ?thesis
      by (auto simp: level_good_def intro: level_at_grows [OF _ g])
  qed (use new(2) r in blast)
next
  fix i l assume l: "list_ent base st' i = Some l"
  show "\<exists>ls. list_all2 (level_at base st') l ls"
  proof (cases "list_ent base st i")
    case (Some s)
    with growsD(6) [OF g Some] l have "list_ent base st i = Some l" by simp
    with wf obtain ls where "list_all2 (level_at base st) l ls" unfolding wf_def by blast
    then have "list_all2 (level_at base st') l ls" by (rule list_all2_mono) (rule level_at_grows [OF _ g])
    then show ?thesis by blast
  qed (use new(3) l in blast)
next
  fix i k assume k: "kv_ent base st' i = Some k"
  show "\<exists>m. entries_at base st' k m"
  proof (cases "kv_ent base st i")
    case (Some s)
    with growsD(7) [OF g Some] k have "kv_ent base st i = Some k" by simp
    with wf obtain m where "entries_at base st k m" unfolding wf_def by blast
    then show ?thesis using entries_at_grows [OF _ g] by blast
  qed (use new(4) k in blast)
qed

lemma banks_ok_new:
  assumes "is_region r" shows "banks_ok H None (store_new r)"
  using assms
  by (simp add: vp_inv_new nb_inv_new lb_inv_new tb_inv_new banks_ok_def store_new_def pool.pair_ok_def nb.pair_ok_def lb.pair_ok_def tb.pair_ok_def)

lemma new_ents:
  "vp_items (vp_new r) = []" "nb_rows (nb_new r) = []" "lb_rows (lb_new r) = []" "tb_rows (tb_new r) = []"
  by (simp_all add: vp_new_def nb_new_def lb_new_def tb_new_def tb_rows_def)

lemma wf_new: "is_region r \<Longrightarrow> wf H None (store_new r)"
  unfolding wf_def ent_defs using banks_ok_new [of r H]
  by (simp add: store_new_def pool.entry_def nb.entry_def lb.entry_def pool.ids_def nb.ids_def lb.ids_def new_ents)

section \<open>Room\<close>

definition used :: "store \<Rightarrow> nat" where
  "used st = length (vp_items (strs st)) + length (vp_items (nats st)) + length (vp_items (ints st))
     + length (nb_rows (names st)) + length (lb_rows (levels st)) + length (vp_items (level_lists st))
     + length (vp_items (kvmaps st)) + length (vp_items (spills st)) + length (tb_rows (terms st))"

lemma used_new [simp]: "used (store_new r) = 0"
  by (simp add: used_def store_new_def new_ents)

definition full :: "nat \<Rightarrow> store \<Rightarrow> kernel_error set" where
  "full c st = (if used st + c \<le> max_rows then {} else {BankExhausted})"

lemma full_cases: "e \<in> full c st \<longleftrightarrow> e = BankExhausted \<and> max_rows < used st + c"
  by (auto simp: full_def)

lemma full_mono: "used st + c \<le> used st' + c' \<Longrightarrow> full c st \<subseteq> full c' st'"
  by (auto simp: full_def)

text \<open>
  \<open>runs H base E c K st m Q\<close>: the computation \<open>m\<close>, started in \<open>st\<close>, adds at most \<open>c\<close> rows, fails
  only with an error of \<open>E\<close> or where there is no room for the rows, changes nothing if \<open>K\<close>, and
  its result satisfies \<open>Q\<close>. \<open>interns\<close> is the case without other errors.
\<close>

definition runs ::
    "hashers \<Rightarrow> store option \<Rightarrow> kernel_error set \<Rightarrow> nat \<Rightarrow> bool \<Rightarrow> store \<Rightarrow> ('a \<times> store) result
     \<Rightarrow> ('a \<Rightarrow> store \<Rightarrow> bool) \<Rightarrow> bool" where
  "runs H base E c K st m Q \<longleftrightarrow> run (E \<union> full c st) m (\<lambda>(i, st').
     good H base st st' \<and> used st' \<le> used st + c \<and> (K \<longrightarrow> st' = st) \<and> Q i st')"

abbreviation interns ::
    "hashers \<Rightarrow> store option \<Rightarrow> nat \<Rightarrow> bool \<Rightarrow> store \<Rightarrow> ('a \<times> store) result \<Rightarrow> ('a \<Rightarrow> store \<Rightarrow> bool) \<Rightarrow> bool" where
  "interns H base \<equiv> runs H base {}"

lemma interns_def: "interns H base c K st m Q \<longleftrightarrow> run (full c st) m (\<lambda>(i, st').
     good H base st st' \<and> used st' \<le> used st + c \<and> (K \<longrightarrow> st' = st) \<and> Q i st')"
  by (simp add: runs_def)

lemma interns_return: "wf H base st \<Longrightarrow> Q x st \<Longrightarrow> runs H base E c K st (Inr (x, st)) Q"
  by (simp add: runs_def good_refl)

lemma runs_error: "e \<in> E \<Longrightarrow> runs H base E c K st (Inl e) Q"
  by (simp add: runs_def)

lemma runs_weaken:
  assumes "runs H base E c K st m P" and "\<And>i st'. good H base st st' \<Longrightarrow> P i st' \<Longrightarrow> Q i st'"
    and "E \<subseteq> E'" and "c \<le> c'" and "K' \<Longrightarrow> K"
  shows "runs H base E' c' K' st m Q"
  using assms(1) unfolding runs_def
  by (rule run_mono) (use assms(2-5) in \<open>auto simp: full_def\<close>)

lemma interns_weaken:
  assumes "runs H base E c K st m P" and "\<And>i st'. good H base st st' \<Longrightarrow> P i st' \<Longrightarrow> Q i st'"
    and "c \<le> c'" and "K' \<Longrightarrow> K"
  shows "runs H base E c' K' st m Q"
  using assms(1,2) subset_refl assms(3,4) by (rule runs_weaken)

lemma interns_bind:
  assumes m: "runs H base E c1 K1 st m P" and K: "K \<Longrightarrow> K1"
    and f: "\<And>i st1. good H base st st1 \<Longrightarrow> P i st1 \<Longrightarrow> (K \<Longrightarrow> st1 = st) \<Longrightarrow> runs H base E c2 K st1 (f i st1) Q"
    and c: "c1 + c2 \<le> c"
  shows "runs H base E c K st (andthen m (\<lambda>(i, st). f i st)) Q"
proof (cases m)
  case (Inl e)
  with m c full_mono [of st c1 st c] show ?thesis by (auto simp: runs_def)
next
  case (Inr r)
  obtain i st1 where r: "r = (i, st1)" by (cases r)
  with Inr m K have 1: "good H base st st1" "used st1 \<le> used st + c1" "P i st1" "K \<Longrightarrow> st1 = st"
    by (auto simp: runs_def)
  from f [OF 1(1,3,4)] have "runs H base E c2 K st1 (f i st1) Q" by blast
  then have "run (E \<union> full c2 st1) (f i st1) (\<lambda>(j, st2).
      good H base st1 st2 \<and> used st2 \<le> used st1 + c2 \<and> (K \<longrightarrow> st2 = st1) \<and> Q j st2)"
    by (simp add: runs_def)
  then have "run (E \<union> full c st) (f i st1) (\<lambda>(j, st2).
      good H base st st2 \<and> used st2 \<le> used st + c \<and> (K \<longrightarrow> st2 = st) \<and> Q j st2)"
    by (rule run_mono) (use 1 c good_trans [OF 1(1)] full_mono [of st1 c2 st c] in auto)
  with Inr r show ?thesis by (simp add: runs_def)
qed

lemma interns_map:
  assumes m: "runs H base E c K1 st m P" and "K \<Longrightarrow> K1"
    and Q: "\<And>i st1. good H base st st1 \<Longrightarrow> P i st1 \<Longrightarrow> Q (g i) st1"
  shows "runs H base E c K st (andthen m (\<lambda>(i, st). Inr (g i, st))) Q"
  by (rule interns_bind [OF m assms(2), where ?c2.0 = 0]) (auto intro: interns_return Q dest: goodD)

text \<open>The form in which the walks use a constructor: the new id, beside the rest of the stack.\<close>

lemma interns_out:
  assumes "runs H base E c K st m (\<lambda>i st'. Q i st')" and "c \<le> c'" and "K' \<Longrightarrow> K"
  shows "runs H base E c' K' st (andthen m (\<lambda>(i, st). Inr ((i, out), st))) (\<lambda>(i, out') st'. out' = out \<and> Q i st')"
proof (rule interns_map)
  show "runs H base E c' K' st m Q" using assms(1) by (rule interns_weaken) (use assms(2,3) in auto)
qed auto

text \<open>A computation that has room succeeds.\<close>

lemma interns_total:
  assumes "interns H base c K st m Q" and "used st + c \<le> max_rows"
  obtains i st' where "m = Inr (i, st')" and "good H base st st'" and "used st' \<le> used st + c" and "Q i st'"
  using assms by (cases m) (auto simp: interns_def full_def)

lemma internsD:
  assumes "runs H base E c K st m Q" and "m = Inr (i, st')"
  shows "good H base st st'" and "used st' \<le> used st + c" and "K \<longrightarrow> st' = st" and "Q i st'"
  using assms by (simp_all add: runs_def)

section \<open>Pools\<close>

lemma pool_intern_eq:
  assumes eq: "\<And>t. eq t \<longleftrightarrow> t = x" and upd: "upd (f st) st = st"
  shows "pool_intern f upd h eq x rehash base st =
    intern_row (case map_option f base of None \<Rightarrow> Inr None | Some b \<Rightarrow> vp_lookup b h (\<lambda>t. t = x))
      (vp_lookup (f st) h (\<lambda>t. t = x)) (vp_push (f st) h x rehash) (\<lambda>p. upd p st) st"
proof -
  have eq: "eq = (\<lambda>t. t = x)" using eq by auto
  show ?thesis
  proof (cases "vp_lookup (f st) h (\<lambda>t. t = x)")
    case (Inr hit)
    then show ?thesis unfolding pool_intern_def intern_row_def vp_intern_def eq
      by (cases base; cases hit) (auto simp: upd intro!: andthen_cong split: option.split)
  qed (auto simp: pool_intern_def intern_row_def vp_intern_def eq intro!: andthen_cong split: option.split)
qed

lemma pool_interns:
  assumes ok: "pool.pair_ok rehash (map_option f base) (f st)" and h: "h = rehash x"
    and eq: "\<And>t. eq t \<longleftrightarrow> t = x" and upd: "upd (f st) st = st" "\<And>p. f (upd p st) = p"
    and size: "\<And>p. used (upd p st) + length (vp_items (f st)) = used st + length (vp_items p)"
    and step: "\<And>p i. pool.pair_ok rehash (map_option f base) p \<Longrightarrow> pool.extends rehash (f st) p \<Longrightarrow>
      (\<forall>j y. pool.entry (map_option f base) p j = Some y \<longrightarrow>
         pool.entry (map_option f base) (f st) j = Some y \<or> j = i \<and> y = x) \<Longrightarrow> good H base st (upd p st)"
  shows "interns H base 1 (\<exists>j. pool.entry (map_option f base) (f st) j = Some x) st
    (pool_intern f upd h eq x rehash base st) (\<lambda>i st'. pool.entry (map_option f base) (f st') i = Some x)"
  unfolding interns_def pool_intern_eq [of eq x upd f st h rehash base, OF eq upd(1)]
proof (rule run_mono [OF pool.intern_row_ok [OF ok h]])
  show "upd (f st) st = st" by (rule upd)
  show "(if length (vp_items (f st)) < max_rows then {} else {BankExhausted}) \<subseteq> full 1 st"
    using size [of "vp_new 0"] by (auto simp: full_def new_ents)
  fix r
  assume "case r of (i, st') \<Rightarrow> \<exists>p. st' = upd p st \<and> pool.pair_ok rehash (map_option f base) p
      \<and> pool.extends rehash (f st) p \<and> pool.entry (map_option f base) p i = Some x
      \<and> pool.hash_at rehash (map_option f base) p x = h \<and> pool.pload (map_option f base) p x = ()
      \<and> (if \<exists>i. pool.entry (map_option f base) (f st) i = Some x then st' = st \<and> p = f st
         else vp_items p = vp_items (f st) @ [x])
      \<and> (\<forall>j s. pool.entry (map_option f base) p j = Some s \<longrightarrow>
            pool.entry (map_option f base) (f st) j = Some s \<or> j = i \<and> s = x)"
  then obtain i p where r: "r = (i, upd p st)" and p: "pool.pair_ok rehash (map_option f base) p"
      "pool.extends rehash (f st) p" "pool.entry (map_option f base) p i = Some x"
      "\<forall>j s. pool.entry (map_option f base) p j = Some s \<longrightarrow>
         pool.entry (map_option f base) (f st) j = Some s \<or> j = i \<and> s = x"
      "if \<exists>i. pool.entry (map_option f base) (f st) i = Some x then upd p st = st \<and> p = f st
         else vp_items p = vp_items (f st) @ [x]"
    by (cases r) auto
  have "length (vp_items p) \<le> length (vp_items (f st)) + 1" using p(5) by (auto split: if_splits)
  with step [OF p(1,2,4)] r p(3,5) upd(2) size [of p]
  show "case r of (i, st') \<Rightarrow> good H base st st' \<and> used st' \<le> used st + 1
      \<and> ((\<exists>j. pool.entry (map_option f base) (f st) j = Some x) \<longrightarrow> st' = st)
      \<and> pool.entry (map_option f base) (f st') i = Some x" by (auto split: if_splits)
qed (use h in \<open>auto simp: pool.hash_at_def\<close>)

text \<open>A new string, number or spill row refers to nothing.\<close>

lemma good_strs:
  assumes wf: "wf H base st" and p: "pool.pair_ok (sip_str H) (map_option strs base) p" "pool.extends (sip_str H) (strs st) p"
  shows "good H base st (st\<lparr>strs := p\<rparr>)"
proof -
  from wf_banks [OF wf] p(1) have ok: "banks_ok H base (st\<lparr>strs := p\<rparr>)" by (simp add: banks_ok_def)
  with wf_banks [OF wf] p(2) have g: "grows base st (st\<lparr>strs := p\<rparr>)" by (intro grows_if_extends) simp_all
  have "wf H base (st\<lparr>strs := p\<rparr>)"
    using wf ok g by (rule wf_step) (simp_all add: ent_defs)
  with g show ?thesis by (intro goodI) simp_all
qed

lemma good_nats:
  assumes wf: "wf H base st" and p: "pool.pair_ok (sip_nat H) (map_option nats base) p" "pool.extends (sip_nat H) (nats st) p"
  shows "good H base st (st\<lparr>nats := p\<rparr>)"
proof -
  from wf_banks [OF wf] p(1) have ok: "banks_ok H base (st\<lparr>nats := p\<rparr>)" by (simp add: banks_ok_def)
  with wf_banks [OF wf] p(2) have g: "grows base st (st\<lparr>nats := p\<rparr>)" by (intro grows_if_extends) simp_all
  have "wf H base (st\<lparr>nats := p\<rparr>)"
    using wf ok g by (rule wf_step) (simp_all add: ent_defs)
  with g show ?thesis by (intro goodI) simp_all
qed

lemma good_ints:
  assumes wf: "wf H base st" and p: "pool.pair_ok (sip_int H) (map_option ints base) p" "pool.extends (sip_int H) (ints st) p"
  shows "good H base st (st\<lparr>ints := p\<rparr>)"
proof -
  from wf_banks [OF wf] p(1) have ok: "banks_ok H base (st\<lparr>ints := p\<rparr>)" by (simp add: banks_ok_def)
  with wf_banks [OF wf] p(2) have g: "grows base st (st\<lparr>ints := p\<rparr>)" by (intro grows_if_extends) simp_all
  have "wf H base (st\<lparr>ints := p\<rparr>)"
    using wf ok g by (rule wf_step) (simp_all add: ent_defs)
  with g show ?thesis by (intro goodI) simp_all
qed

lemma good_spills:
  assumes wf: "wf H base st" and p: "pool.pair_ok (sip_spill H) (map_option spills base) p" "pool.extends (sip_spill H) (spills st) p"
  shows "good H base st (st\<lparr>spills := p\<rparr>)"
proof -
  from wf_banks [OF wf] p(1) have ok: "banks_ok H base (st\<lparr>spills := p\<rparr>)" by (simp add: banks_ok_def)
  with wf_banks [OF wf] p(2) have g: "grows base st (st\<lparr>spills := p\<rparr>)" by (intro grows_if_extends) simp_all
  have "wf H base (st\<lparr>spills := p\<rparr>)"
    using wf ok g by (rule wf_step) (simp_all add: ent_defs)
  with g show ?thesis by (intro goodI) simp_all
qed

lemma intern_str_ok:
  assumes wf: "wf H base st"
  shows "interns H base 1 (\<exists>j. str_ent base st j = Some s) st (intern_str H base s st) (\<lambda>i st'. str_ent base st' i = Some s)"
  unfolding intern_str_def str_ent_def
  by (rule pool_interns [where rehash = "sip_str H"])
    (use wf_banks [OF wf] in \<open>simp_all add: good_strs [OF wf] banks_ok_def used_def\<close>)

lemma intern_nat_ok:
  assumes wf: "wf H base st"
  shows "interns H base 1 (\<exists>j. nat_ent base st j = Some n) st (intern_nat H base n st) (\<lambda>i st'. nat_ent base st' i = Some n)"
  unfolding intern_nat_def nat_ent_def
  by (rule pool_interns [where rehash = "sip_nat H"])
    (use wf_banks [OF wf] in \<open>simp_all add: good_nats [OF wf] banks_ok_def used_def\<close>)

lemma intern_int_ok:
  assumes wf: "wf H base st"
  shows "interns H base 1 (\<exists>j. int_ent base st j = Some z) st (intern_int H base z st) (\<lambda>i st'. int_ent base st' i = Some z)"
  unfolding intern_int_def int_ent_def
  by (rule pool_interns [where rehash = "sip_int H"])
    (use wf_banks [OF wf] in \<open>simp_all add: good_ints [OF wf] banks_ok_def used_def\<close>)

lemma intern_spill_ok:
  assumes wf: "wf H base st"
  shows "interns H base 1 (\<exists>j. spill_ent base st j = Some \<lparr>sp_name = n, sp_body_or_aux = b\<rparr>) st
    (intern_spill H base n b st) (\<lambda>i st'. spill_ent base st' i = Some \<lparr>sp_name = n, sp_body_or_aux = b\<rparr>)"
  unfolding intern_spill_def spill_ent_def Let_def
  by (rule pool_interns [where rehash = "sip_spill H"])
    (use wf_banks [OF wf] in \<open>simp_all add: good_spills [OF wf] banks_ok_def used_def\<close>)

lemma same_ids_iff [simp]: "same_ids t l \<longleftrightarrow> t = l"
proof (induction t arbitrary: l)
  case (Cons a t)
  then show ?case by (cases l) (auto simp: same_ids_def)
qed (auto simp: same_ids_def)

lemma data_value_row_eq_iff [simp]: "data_value_row_eq a b \<longleftrightarrow> a = b"
  by (cases a; cases b) auto

lemma kvmap_row_eq_iff [simp]: "kvmap_row_eq t row \<longleftrightarrow> t = row"
proof -
  have "kvmap_row_eq t row \<longleftrightarrow> list_all2 (=) t row"
    unfolding kvmap_row_eq_def by (rule arg_cong [where f = "\<lambda>P. list_all2 P t row"]) (auto simp: fun_eq_iff)
  then show ?thesis by (simp add: list.rel_eq)
qed

text \<open>Lists of levels and metadata rows refer to ids, which must denote.\<close>

lemma intern_level_list_ok:
  assumes wf: "wf H base st" and l: "list_all2 (level_at base st) l ls"
  shows "interns H base 1 (\<exists>j. list_ent base st j = Some l) st (intern_level_list H base l st)
    (\<lambda>i st'. levels_at base st' i ls)"
proof -
  have "interns H base 1 (\<exists>j. list_ent base st j = Some l) st (intern_level_list H base l st)
      (\<lambda>i st'. list_ent base st' i = Some l)"
    unfolding intern_level_list_def list_ent_def
  proof (rule pool_interns [where rehash = "sip_ids H"])
    fix p i
    assume p: "pool.pair_ok (sip_ids H) (map_option level_lists base) p" "pool.extends (sip_ids H) (level_lists st) p"
      "\<forall>j y. pool.entry (map_option level_lists base) p j = Some y \<longrightarrow>
         pool.entry (map_option level_lists base) (level_lists st) j = Some y \<or> j = i \<and> y = l"
    let ?st = "st\<lparr>level_lists := p\<rparr>"
    from wf_banks [OF wf] p(1) have ok: "banks_ok H base ?st" by (simp add: banks_ok_def)
    with wf_banks [OF wf] p(2) have g: "grows base st ?st" by (intro grows_if_extends) simp_all
    have "list_all2 (level_at base ?st) l ls" using l g by (rule list_level_at_grows)
    have "wf H base ?st"
    proof (rule wf_step [OF wf ok g])
      fix j x assume "list_ent base ?st j = Some x" "list_ent base st j = None"
      then have "x = l" using p(3) [rule_format, of j x] by (auto simp: ent_defs)
      with \<open>list_all2 (level_at base ?st) l ls\<close> show "\<exists>ls. list_all2 (level_at base ?st) x ls" by blast
    qed (simp_all add: ent_defs)
    with g show "good H base st ?st" by (intro goodI) simp_all
  qed (use wf_banks [OF wf] in \<open>simp_all add: banks_ok_def used_def\<close>)
  then show ?thesis
    by (rule interns_weaken) (use l in \<open>auto simp: levels_at_def good_def intro: list_level_at_grows\<close>)
qed

lemma intern_kvmap_rows_ok:
  assumes wf: "wf H base st" and k: "entries_at base st k m"
  shows "interns H base 1 (\<exists>j. kv_ent base st j = Some k) st (intern_kvmap_rows base k st)
    (\<lambda>i st'. kvmap_denotes base st' i m)"
proof -
  have "interns H base 1 (\<exists>j. kv_ent base st j = Some k) st (intern_kvmap_rows base k st)
      (\<lambda>i st'. kv_ent base st' i = Some k)"
    unfolding intern_kvmap_rows_def kv_ent_def
  proof (rule pool_interns [where rehash = kvmap_row_hash])
    fix p i
    assume p: "pool.pair_ok kvmap_row_hash (map_option kvmaps base) p" "pool.extends kvmap_row_hash (kvmaps st) p"
      "\<forall>j y. pool.entry (map_option kvmaps base) p j = Some y \<longrightarrow>
         pool.entry (map_option kvmaps base) (kvmaps st) j = Some y \<or> j = i \<and> y = k"
    let ?st = "st\<lparr>kvmaps := p\<rparr>"
    from wf_banks [OF wf] p(1) have ok: "banks_ok H base ?st" by (simp add: banks_ok_def)
    with wf_banks [OF wf] p(2) have g: "grows base st ?st" by (intro grows_if_extends) simp_all
    have "entries_at base ?st k m" using k g by (rule entries_at_grows)
    have "wf H base ?st"
    proof (rule wf_step [OF wf ok g])
      fix j x assume "kv_ent base ?st j = Some x" "kv_ent base st j = None"
      then have "x = k" using p(3) [rule_format, of j x] by (auto simp: ent_defs)
      with \<open>entries_at base ?st k m\<close> show "\<exists>m. entries_at base ?st x m" by blast
    qed (simp_all add: ent_defs)
    with g show "good H base st ?st" by (intro goodI) simp_all
  qed (use wf_banks [OF wf] in \<open>simp_all add: banks_ok_def used_def\<close>)
  then show ?thesis
    by (rule interns_weaken) (use k in \<open>auto simp: kvmap_denotes_def good_def intro: entries_at_grows\<close>)
qed

section \<open>Names\<close>

lemma name_interns:
  assumes wf: "wf H base st" and h: "h = name_hash H t"
    and den: "\<And>i st'. grows base st st' \<Longrightarrow> name_ent base st' i = Some r \<Longrightarrow> name_at base st' (Some i) t"
    and old: "\<And>x. name_at base st x t \<Longrightarrow> \<exists>j. name_ent base st j = Some r"
  shows "interns H base 1 (\<exists>x. name_at base st x t) st (name_intern_row base h r st)
    (\<lambda>i st'. name_at base st' (Some i) t)"
proof -
  let ?E = "nb.entry (map_option names base)" and ?U = "\<lambda>b. st\<lparr>names := b\<rparr>"
  have okb: "nb.pair_ok (map_option names base) (names st)" using wf_banks [OF wf] by (simp add: banks_ok_def)
  have known: "nb.hash_at (map_option names base) (names st) r = h"
    if "?E (names st) i = Some r" for i
  proof -
    from that have e: "name_ent base st i = Some r" by (simp add: name_ent_def)
    from wf_nameD [OF wf e] obtain n where "name_at base st (Some i) n" "name_hash_at base st r = name_hash H n"
      by blast
    with den [OF grows_refl e] h show ?thesis by (auto simp: name_hash_at_def dest: name_at_det)
  qed
  have eqn: "name_intern_row base h r st = intern_row
      (case map_option names base of None \<Rightarrow> Inr None | Some b \<Rightarrow> nb_lookup b h r)
      (nb_lookup (names st) h r) (nb_insert (names st) h r) ?U st"
    by (cases base) (simp_all add: name_intern_row_def)
  have "run (if length (nb_rows (names st)) < max_rows then {} else {BankExhausted})
    (name_intern_row base h r st) (\<lambda>(i, st'). \<exists>b. st' = ?U b
      \<and> nb.pair_ok (map_option names base) b \<and> nb.extends (names st) b \<and> ?E b i = Some r
      \<and> nb.hash_at (map_option names base) b r = h \<and> nb.pload (map_option names base) b r = ()
      \<and> (if \<exists>i. ?E (names st) i = Some r then st' = st \<and> b = names st else nb_rows b = nb_rows (names st) @ [r])
      \<and> (\<forall>j s. ?E b j = Some s \<longrightarrow> ?E (names st) j = Some s \<or> j = i \<and> s = r))"
    unfolding eqn by (rule nb.intern_row_ok [OF okb]) (use known in simp_all)
  then have "run (full 1 st) (name_intern_row base h r st) (\<lambda>(i, st'). \<exists>b. st' = ?U b
      \<and> nb.pair_ok (map_option names base) b \<and> nb.extends (names st) b \<and> ?E b i = Some r
      \<and> nb.hash_at (map_option names base) b r = h \<and> nb.pload (map_option names base) b r = ()
      \<and> (if \<exists>i. ?E (names st) i = Some r then st' = st \<and> b = names st else nb_rows b = nb_rows (names st) @ [r])
      \<and> (\<forall>j s. ?E b j = Some s \<longrightarrow> ?E (names st) j = Some s \<or> j = i \<and> s = r))"
    by (rule run_mono) (auto simp: full_def used_def)
  then show ?thesis
    unfolding interns_def
  proof (rule run_mono2, elim exE conjE)
    fix i st' b
    assume st': "st' = ?U b"
    assume p: "nb.pair_ok (map_option names base) b" "nb.extends (names st) b" "?E b i = Some r"
      "nb.hash_at (map_option names base) b r = h"
      "if \<exists>i. ?E (names st) i = Some r then st' = st \<and> b = names st else nb_rows b = nb_rows (names st) @ [r]"
      "\<forall>j s. ?E b j = Some s \<longrightarrow> ?E (names st) j = Some s \<or> j = i \<and> s = r"
    from wf_banks [OF wf] p(1) have ok: "banks_ok H base (?U b)" by (simp add: banks_ok_def)
    with wf_banks [OF wf] p(2) have g: "grows base st (?U b)" by (intro grows_if_extends) simp_all
    have e: "name_ent base (?U b) i = Some r" using p(3) by (simp add: name_ent_def)
    have "wf H base (?U b)"
    proof (rule wf_step [OF wf ok g])
      fix j s assume "name_ent base (?U b) j = Some s" "name_ent base st j = None"
      then have "j = i" "s = r" using p(6) [rule_format, of j s] by (auto simp: name_ent_def)
      with den [OF g e] p(4) h show "name_good H base (?U b) j s" by (auto simp: name_good_def name_hash_at_def)
    qed (simp_all add: ent_defs)
    with g have "good H base st (?U b)" by (intro goodI) simp_all
    moreover have "(\<exists>x. name_at base st x t) \<longrightarrow> st' = st"
      using old p(5) by (auto simp: name_ent_def split: if_splits)
    moreover have "used (?U b) \<le> used st + 1" using p(5) by (auto simp: used_def split: if_splits)
    ultimately show "good H base st st' \<and> used st' \<le> used st + 1 \<and> ((\<exists>x. name_at base st x t) \<longrightarrow> st' = st)
        \<and> name_at base st' (Some i) t"
      using den [OF g e] st' by simp
  qed
qed

lemma name_hash_of_ok:
  assumes "wf H base st" and "name_at base st x n" shows "name_hash_of base st x = Inr (name_hash H n)"
proof (cases x)
  case None
  with assms(2) show ?thesis by (simp add: name_hash_of_def)
next
  case (Some i)
  with assms(2) obtain r where r: "name_ent base st i = Some r" by (auto elim: name_at_SomeE)
  from wf_nameD [OF assms(1) r] obtain n' where "name_at base st (Some i) n'" "name_hash_at base st r = name_hash H n'"
    by blast
  with assms(2) Some name_reads(2) [OF wf_banks [OF assms(1)] r] show ?thesis by (auto dest: name_at_det)
qed

lemma name_str_ok:
  assumes wf: "wf H base st" and p: "name_at base st p n" and q: "str_ent base st q = Some s"
  shows "interns H base 1 (\<exists>x. name_at base st x (Str n s)) st (name_str H base p q st)
    (\<lambda>i st'. name_at base st' (Some i) (Str n s))"
proof -
  have "\<exists>j. name_ent base st j = Some (NStr p q)" if "name_at base st x (Str n s)" for x
    by (rule name_at_StrE [OF that]) (metis name_at_inject [OF wf_banks [OF wf] p] ent_inject(1) [OF wf_banks [OF wf] q])
  then show ?thesis
    unfolding name_str_def name_hash_of_ok [OF wf p] pool_reads(1) [OF wf_banks [OF wf] q] andthen_Inr
    by (intro name_interns [OF wf])
      (use p q in \<open>auto intro: name_at_Str name_at_grows dest: growsD\<close>)
qed

lemma name_num_ok:
  assumes wf: "wf H base st" and p: "name_at base st p n" and q: "nat_ent base st q = Some k"
  shows "interns H base 1 (\<exists>x. name_at base st x (Num n k)) st (name_num H base p q st)
    (\<lambda>i st'. name_at base st' (Some i) (Num n k))"
proof -
  have "\<exists>j. name_ent base st j = Some (NNum p q)" if "name_at base st x (Num n k)" for x
    by (rule name_at_NumE [OF that]) (metis name_at_inject [OF wf_banks [OF wf] p] ent_inject(2) [OF wf_banks [OF wf] q])
  then show ?thesis
    unfolding name_num_def name_hash_of_ok [OF wf p] pool_reads(2) [OF wf_banks [OF wf] q] andthen_Inr
    by (intro name_interns [OF wf])
      (use p q in \<open>auto intro: name_at_Num name_at_grows dest: growsD\<close>)
qed

text \<open>The components of a name, root first.\<close>

fun prefixes :: "name \<Rightarrow> name list" where
  "prefixes Anonymous = []"
| "prefixes (Str p s) = prefixes p @ [Str p s]"
| "prefixes (Num p k) = prefixes p @ [Num p k]"

definition name_cost :: "name \<Rightarrow> nat" where
  "name_cost n = 2 * length (prefixes n)"

lemma name_cost_simps [simp]:
  "name_cost Anonymous = 0" "name_cost (Str p s) = name_cost p + 2" "name_cost (Num p k) = name_cost p + 2"
  by (simp_all add: name_cost_def)

lemma name_chain_eq: "name_chain n chain = chain @ rev (prefixes n)"
  by (induction n arbitrary: chain) auto

lemma intern_components_append:
  "intern_components H base (cs @ ds) i st =
     andthen (intern_components H base cs i st) (\<lambda>(j, st). intern_components H base ds j st)"
proof (induction cs arbitrary: i st)
  case (Cons c cs)
  show ?case by (cases c) (simp_all add: Cons andthen_def split: sum.splits prod.splits)
qed simp

lemma intern_component_ok:
  assumes wf: "wf H base st" and x: "name_at base st x p"
  shows "interns H base 2 (\<exists>y. name_at base st y (Str p s)) st (intern_components H base [Str p s] x st)
      (\<lambda>y st'. name_at base st' y (Str p s))"
    and "interns H base 2 (\<exists>y. name_at base st y (Num p k)) st (intern_components H base [Num p k] x st)
      (\<lambda>y st'. name_at base st' y (Num p k))"
proof -
  have "interns H base 2 (\<exists>y. name_at base st y (Str p s)) st
      (andthen (intern_str H base s st) (\<lambda>(q, st). name_str H base x q st)) (\<lambda>i st'. name_at base st' (Some i) (Str p s))"
  proof (rule interns_bind [OF intern_str_ok [OF wf]])
    fix q st1 assume q: "good H base st st1" "str_ent base st1 q = Some s"
      "\<exists>y. name_at base st y (Str p s) \<Longrightarrow> st1 = st"
    show "interns H base 1 (\<exists>y. name_at base st y (Str p s)) st1 (name_str H base x q st1)
        (\<lambda>i st'. name_at base st' (Some i) (Str p s))"
      by (rule interns_weaken [OF name_str_ok [OF goodD(1) [OF q(1)] name_at_grows [OF x goodD(2) [OF q(1)]] q(2)]])
        (use q(3) in auto)
  qed (auto elim: name_at_StrE)
  from interns_map [OF this, of "\<exists>y. name_at base st y (Str p s)" "\<lambda>y st'. name_at base st' y (Str p s)" Some]
  show "interns H base 2 (\<exists>y. name_at base st y (Str p s)) st (intern_components H base [Str p s] x st)
      (\<lambda>y st'. name_at base st' y (Str p s))" by (simp add: split_def)
  have "interns H base 2 (\<exists>y. name_at base st y (Num p k)) st
      (andthen (intern_nat H base k st) (\<lambda>(q, st). name_num H base x q st)) (\<lambda>i st'. name_at base st' (Some i) (Num p k))"
  proof (rule interns_bind [OF intern_nat_ok [OF wf]])
    fix q st1 assume q: "good H base st st1" "nat_ent base st1 q = Some k"
      "\<exists>y. name_at base st y (Num p k) \<Longrightarrow> st1 = st"
    show "interns H base 1 (\<exists>y. name_at base st y (Num p k)) st1 (name_num H base x q st1)
        (\<lambda>i st'. name_at base st' (Some i) (Num p k))"
      by (rule interns_weaken [OF name_num_ok [OF goodD(1) [OF q(1)] name_at_grows [OF x goodD(2) [OF q(1)]] q(2)]])
        (use q(3) in auto)
  qed (auto elim: name_at_NumE)
  from interns_map [OF this, of "\<exists>y. name_at base st y (Num p k)" "\<lambda>y st'. name_at base st' y (Num p k)" Some]
  show "interns H base 2 (\<exists>y. name_at base st y (Num p k)) st (intern_components H base [Num p k] x st)
      (\<lambda>y st'. name_at base st' y (Num p k))" by (simp add: split_def)
qed

lemma name_at_parent:
  "name_at base st y (Str p s) \<Longrightarrow> \<exists>x. name_at base st x p" "name_at base st y (Num p k) \<Longrightarrow> \<exists>x. name_at base st x p"
  by (auto elim: name_at_StrE name_at_NumE)

lemma intern_prefixes_ok:
  "wf H base st \<Longrightarrow> interns H base (name_cost n) (\<exists>y. name_at base st y n) st
    (intern_components H base (prefixes n) None st) (\<lambda>x st'. name_at base st' x n)"
proof (induction n)
  case Anonymous
  then show ?case by (simp add: interns_return)
next
  case (Str p s)
  show ?case
    unfolding prefixes.simps intern_components_append name_cost_simps
  proof (rule interns_bind [OF Str.IH [OF Str.prems]])
    fix x st1 assume p: "good H base st st1" "name_at base st1 x p" "\<exists>y. name_at base st y (Str p s) \<Longrightarrow> st1 = st"
    show "interns H base 2 (\<exists>y. name_at base st y (Str p s)) st1 (intern_components H base [Str p s] x st1)
        (\<lambda>x st'. name_at base st' x (Str p s))"
      by (rule interns_weaken [OF intern_component_ok(1) [OF goodD(1) [OF p(1)] p(2)]]) (use p(3) in auto)
  qed (auto dest: name_at_parent)
next
  case (Num p k)
  show ?case
    unfolding prefixes.simps intern_components_append name_cost_simps
  proof (rule interns_bind [OF Num.IH [OF Num.prems]])
    fix x st1 assume p: "good H base st st1" "name_at base st1 x p" "\<exists>y. name_at base st y (Num p k) \<Longrightarrow> st1 = st"
    show "interns H base 2 (\<exists>y. name_at base st y (Num p k)) st1 (intern_components H base [Num p k] x st1)
        (\<lambda>x st'. name_at base st' x (Num p k))"
      by (rule interns_weaken [OF intern_component_ok(2) [OF goodD(1) [OF p(1)] p(2)]]) (use p(3) in auto)
  qed (auto dest: name_at_parent)
qed

lemma intern_name_ok:
  "wf H base st \<Longrightarrow> interns H base (name_cost n) (\<exists>y. name_at base st y n) st (intern_name H base n st)
    (\<lambda>x st'. name_at base st' x n)"
  using intern_prefixes_ok by (simp add: intern_name_def name_chain_eq)

text \<open>A row that needs the id of a name first.\<close>

lemma interns_named:
  assumes wf: "wf H base st"
    and m: "\<And>x st1. good H base st st1 \<Longrightarrow> name_at base st1 x n \<Longrightarrow>
      interns H base c (\<exists>i. D st1 i) st1 (m x st1) (\<lambda>i st'. D st' i)"
    and old: "\<And>i. D st i \<Longrightarrow> \<exists>y. name_at base st y n"
  shows "interns H base (name_cost n + c) (\<exists>i. D st i) st
    (andthen (intern_name H base n st) (\<lambda>(x, st). andthen (m x st) (\<lambda>(i, st). Inr ((i, out), st))))
    (\<lambda>(i, out') st'. out' = out \<and> D st' i)"
proof (rule interns_bind [OF intern_name_ok [OF wf]])
  fix x st1 assume x: "good H base st st1" "name_at base st1 x n" "\<exists>i. D st i \<Longrightarrow> st1 = st"
  show "interns H base c (\<exists>i. D st i) st1 (andthen (m x st1) (\<lambda>(i, st). Inr ((i, out), st)))
      (\<lambda>(i, out') st'. out' = out \<and> D st' i)"
    by (rule interns_out [OF m [OF x(1,2)] order_refl]) (use x(3) in auto)
qed (use old in auto)

section \<open>Reading names back\<close>

lemma parent_chain_ok:
  assumes "banks_ok H base st"
  shows "name_at base st x n \<Longrightarrow> \<exists>cs. parent_chain base st x chain = Some (Inr (chain @ cs))
    \<and> (\<forall>ds. build_name base st (rev cs @ ds) Anonymous = build_name base st ds n)"
proof (induction arbitrary: chain rule: name_at.induct)
  case name_at_None
  then show ?case by (subst parent_chain.simps) (intro exI [of _ "[]"], simp)
next
  case (name_at_Str i p q n s)
  note row = name_reads(1) [OF assms name_at_Str.hyps(1)]
  from name_at_Str.IH [of "chain @ [i]"] obtain cs where
    "parent_chain base st p (chain @ [i]) = Some (Inr ((chain @ [i]) @ cs))"
    "\<And>ds. build_name base st (rev cs @ ds) Anonymous = build_name base st ds n" by blast
  then show ?case using row pool_reads(1) [OF assms name_at_Str.hyps(3)]
    by (subst parent_chain.simps) (intro exI [of _ "i # cs"], simp add: row_parent_def)
next
  case (name_at_Num i p q n k)
  note row = name_reads(1) [OF assms name_at_Num.hyps(1)]
  from name_at_Num.IH [of "chain @ [i]"] obtain cs where
    "parent_chain base st p (chain @ [i]) = Some (Inr ((chain @ [i]) @ cs))"
    "\<And>ds. build_name base st (rev cs @ ds) Anonymous = build_name base st ds n" by blast
  then show ?case using row pool_reads(2) [OF assms name_at_Num.hyps(3)]
    by (subst parent_chain.simps) (intro exI [of _ "i # cs"], simp add: row_parent_def)
qed

lemma to_name_ok:
  assumes "banks_ok H base st" and "name_at base st x n" shows "to_name base st x = Inr n"
proof -
  from parent_chain_ok [OF assms, of "[]"] obtain cs where
    "parent_chain base st x [] = Some (Inr cs)" "build_name base st (rev cs @ []) Anonymous = build_name base st [] n"
    by (metis append_Nil)
  then show ?thesis by (simp add: to_name_def)
qed

end
