(* ===== verification/Post_Order.thy ===== *)
theory Post_Order
  imports Store_Intern
begin

text \<open>
  The interface of the three walks that intern a tree with an explicit stack, \<open>intern_level\<close>,
  \<open>intern_expr\<close> and \<open>promote\<close>: the loop pushes a tree's children and then the tree's exit frame, whose
  arm takes the children's ids off \<open>out\<close> and interns the root. Under the contract of the exit arm the
  walk ends, never finds \<open>out\<close> empty, and interns the tree, whatever its memo holds. The walks over
  trees visit every tree; \<open>promote\<close> visits the ids that are in use (\<open>live\<close>), and passes some of them
  through as they are (\<open>direct\<close>).
\<close>

locale post_order =
  fixes H :: hashers and base :: "store option" and inv :: "store \<Rightarrow> bool"
    and den :: "store \<Rightarrow> u32 \<Rightarrow> 't \<Rightarrow> bool"
    and live :: "'t \<Rightarrow> bool" and direct :: "'t \<Rightarrow> u32 option"
    and children :: "'t \<Rightarrow> 't list" and own :: "'t \<Rightarrow> nat" and cost :: "'t \<Rightarrow> nat"
    and exit :: "'t \<Rightarrow> u32 list \<Rightarrow> store \<Rightarrow> ((u32 \<times> u32 list) \<times> store) result"
    and loop :: "'t frame list \<Rightarrow> u32 list \<Rightarrow> ('t \<rightharpoonup> u32) \<Rightarrow> store \<Rightarrow> (u32 list \<times> store) result"
  assumes inv_wf: "inv st \<Longrightarrow> wf H base st"
    and inv_good: "inv st \<Longrightarrow> good H base st st' \<Longrightarrow> inv st'"
    and den_grows: "den st i t \<Longrightarrow> grows base st st' \<Longrightarrow> den st' i t"
    and direct_den: "inv st \<Longrightarrow> live t \<Longrightarrow> direct t = Some i \<Longrightarrow> den st i t"
    and live_child: "live t \<Longrightarrow> direct t = None \<Longrightarrow> c \<in> set (children t) \<Longrightarrow> live c"
    and den_child: "inv st \<Longrightarrow> live t \<Longrightarrow> direct t = None \<Longrightarrow> den st i t \<Longrightarrow> c \<in> set (children t) \<Longrightarrow> \<exists>j. den st j c"
    and cost_eq: "live t \<Longrightarrow> direct t = None \<Longrightarrow> cost t = own t + sum_list (map cost (children t))"
    and own_pos: "0 < own t"
    and exit: "inv st \<Longrightarrow> live t \<Longrightarrow> direct t = None \<Longrightarrow> list_all2 (den st) ids (children t) \<Longrightarrow>
        runs H base {} (own t) (\<exists>i. den st i t) st (exit t (rev ids @ out) st)
          (\<lambda>(i, out') st'. out' = out \<and> den st' i t)"
    and loop_done: "loop [] out memo st = Inr (out, st)"
    and loop_enter: "inv st \<Longrightarrow> live t \<Longrightarrow> loop (Enter t # stack) out memo st =
        (case direct t of Some i \<Rightarrow> loop stack (i # out) memo st
         | None \<Rightarrow>
             (case memo t of Some i \<Rightarrow> loop stack (i # out) memo st
              | None \<Rightarrow> loop (map Enter (children t) @ Exit t # stack) out memo st))"
    and loop_exit: "loop (Exit t # stack) out memo st =
        andthen (exit t out st) (\<lambda>((i, out), st). loop stack (i # out) (memo(t \<mapsto> i)) st)"
begin

definition memo_ok :: "store \<Rightarrow> ('t \<rightharpoonup> u32) \<Rightarrow> bool" where
  "memo_ok st memo \<longleftrightarrow> (\<forall>t i. memo t = Some i \<longrightarrow> den st i t)"

lemma memo_ok_grows: "memo_ok st memo \<Longrightarrow> grows base st st' \<Longrightarrow> memo_ok st' memo"
  by (auto simp: memo_ok_def intro: den_grows)

definition no_room :: "nat \<Rightarrow> store \<Rightarrow> 'a result \<Rightarrow> bool" where
  "no_room c st m \<longleftrightarrow> m = Inl BankExhausted \<and> max_rows < used st + c"

text \<open>
  \<open>visits t\<close>: from any sound state, the frame \<open>Enter t\<close> runs to the point where it is gone and an
  id of \<open>t\<close> is on top of \<open>out\<close>, or there was no room for the rows of \<open>t\<close> and the call fails.
\<close>

definition visits :: "'t \<Rightarrow> bool" where
  "visits t \<longleftrightarrow> (\<forall>stack out memo st. inv st \<longrightarrow> memo_ok st memo \<longrightarrow>
     no_room (cost t) st (loop (Enter t # stack) out memo st)
   \<or> (\<exists>i memo' st'. loop (Enter t # stack) out memo st = loop stack (i # out) memo' st'
        \<and> good H base st st' \<and> used st' \<le> used st + cost t \<and> memo_ok st' memo' \<and> den st' i t
        \<and> ((\<exists>i. den st i t) \<longrightarrow> st' = st)))"

lemma visits_children:
  "\<forall>c \<in> set cs. visits c \<Longrightarrow> inv st \<Longrightarrow> memo_ok st memo \<Longrightarrow>
     no_room (sum_list (map cost cs)) st (loop (map Enter cs @ stack) out memo st)
   \<or> (\<exists>ids memo' st'. loop (map Enter cs @ stack) out memo st = loop stack (rev ids @ out) memo' st'
        \<and> good H base st st' \<and> used st' \<le> used st + sum_list (map cost cs)
        \<and> memo_ok st' memo' \<and> list_all2 (den st') ids cs \<and> ((\<forall>c \<in> set cs. \<exists>i. den st i c) \<longrightarrow> st' = st))"
proof (induction cs arbitrary: out memo st)
  case Nil
  then show ?case by (auto intro!: exI [of _ "[]"] good_refl inv_wf)
next
  case (Cons c cs)
  then have "visits c" by simp
  from this [unfolded visits_def, rule_format, OF Cons.prems(2,3), of "map Enter cs @ stack" out]
  show ?case
  proof (elim disjE exE conjE)
    fix i memo1 st1
    assume 1: "loop (Enter c # map Enter cs @ stack) out memo st = loop (map Enter cs @ stack) (i # out) memo1 st1"
      "good H base st st1" "used st1 \<le> used st + cost c" "memo_ok st1 memo1" "den st1 i c"
      "(\<exists>i. den st i c) \<longrightarrow> st1 = st"
    have "\<forall>c \<in> set cs. visits c" using Cons.prems(1) by simp
    from Cons.IH [OF this inv_good [OF Cons.prems(2) 1(2)] 1(4), of "i # out"] show ?thesis
    proof (elim disjE exE conjE)
      fix ids memo2 st2
      assume 2: "loop (map Enter cs @ stack) (i # out) memo1 st1 = loop stack (rev ids @ i # out) memo2 st2"
        "good H base st1 st2" "used st2 \<le> used st1 + sum_list (map cost cs)"
        "memo_ok st2 memo2" "list_all2 (den st2) ids cs" "(\<forall>c \<in> set cs. \<exists>i. den st1 i c) \<longrightarrow> st2 = st1"
      have "den st2 i c" using 1(5) goodD(2) [OF 2(2)] by (rule den_grows)
      with 1 2 good_trans [OF 1(2) 2(2)] show ?thesis
        by (intro disjI2 exI [of _ "i # ids"] exI [of _ memo2] exI [of _ st2]) auto
    qed (use 1 in \<open>auto simp: no_room_def\<close>)
  qed (auto simp: no_room_def)
qed

lemma visits_if_children:
  assumes live: "live t" and cs: "direct t = None \<Longrightarrow> \<forall>c \<in> set (children t). visits c"
  shows "visits t"
  unfolding visits_def
proof (intro allI impI)
  fix stack out memo st
  assume inv: "inv st" and memo: "memo_ok st memo"
  let ?goal = "\<lambda>m. no_room (cost t) st m \<or> (\<exists>i memo' st'. m = loop stack (i # out) memo' st'
        \<and> good H base st st' \<and> used st' \<le> used st + cost t \<and> memo_ok st' memo' \<and> den st' i t
        \<and> ((\<exists>i. den st i t) \<longrightarrow> st' = st))"
  note enter = loop_enter [OF inv live, of stack out memo] and refl = good_refl [OF inv_wf [OF inv]]
  show "?goal (loop (Enter t # stack) out memo st)"
  proof (cases "direct t = None \<and> memo t = None")
    case False
    then obtain i where "loop (Enter t # stack) out memo st = loop stack (i # out) memo st" "den st i t"
      using direct_den [OF inv live] memo enter by (auto simp: memo_ok_def split: option.splits)
    with memo refl show ?thesis
      by (intro disjI2 exI [of _ i] exI [of _ memo] exI [of _ st]) auto
  next
    case True
    then have d: "direct t = None" and step: "loop (Enter t # stack) out memo st = loop (map Enter (children t) @ Exit t # stack) out memo st"
      using enter by simp_all
    note cost = cost_eq [OF live d]
    from visits_children [OF cs [OF d] inv memo, of "Exit t # stack" out] show ?thesis
    proof (elim disjE exE conjE)
      fix ids memo1 st1
      assume 1: "loop (map Enter (children t) @ Exit t # stack) out memo st = loop (Exit t # stack) (rev ids @ out) memo1 st1"
        "good H base st st1" "used st1 \<le> used st + sum_list (map cost (children t))"
        "memo_ok st1 memo1" "list_all2 (den st1) ids (children t)"
        "(\<forall>c \<in> set (children t). \<exists>i. den st i c) \<longrightarrow> st1 = st"
      have same: "(\<exists>i. den st i t) \<longrightarrow> st1 = st" using 1(6) den_child [OF inv live d] by blast
      note ex = exit [OF inv_good [OF inv 1(2)] live d 1(5), of out]
      show ?thesis
      proof (cases "exit t (rev ids @ out) st1")
        case (Inl e)
        with ex step 1(1,3) show ?thesis
          by (simp add: no_room_def loop_exit full_cases interns_def cost)
      next
        case (Inr r)
        then obtain i out' st2 where r: "exit t (rev ids @ out) st1 = Inr ((i, out'), st2)" by (cases r) auto
        from internsD [OF ex r] have 2: "good H base st1 st2" "used st2 \<le> used st1 + own t" "out' = out" "den st2 i t"
          "(\<exists>i. den st1 i t) \<longrightarrow> st2 = st1" by auto
        have "memo_ok st2 (memo1(t \<mapsto> i))"
          using memo_ok_grows [OF 1(4) goodD(2) [OF 2(1)]] 2(4) by (simp add: memo_ok_def)
        moreover have "(\<exists>i. den st i t) \<longrightarrow> st2 = st" using same 2(5) by auto
        moreover have "used st2 \<le> used st + cost t" using 1(3) 2(2) by (simp add: cost)
        ultimately show ?thesis using step 1(1) r 2(3,4) good_trans [OF 1(2) 2(1)] by (auto simp: loop_exit)
      qed
    qed (use step in \<open>auto simp: no_room_def cost\<close>)
  qed
qed

lemma cost_child: "live t \<Longrightarrow> direct t = None \<Longrightarrow> c \<in> set (children t) \<Longrightarrow> cost c < cost t"
  using member_le_sum_list [of "cost c" "map cost (children t)"] own_pos [of t] by (auto simp: cost_eq [of t])

lemma visits_all: "live t \<Longrightarrow> visits t"
proof (induction t rule: measure_induct_rule [of cost])
  case (less t)
  then show ?case by (intro visits_if_children) (auto intro: cost_child live_child)
qed

lemma walk_ok:
  assumes "inv st" and "live t"
  shows "runs H base {} (cost t) (\<exists>i. den st i t) st
    (andthen (loop [Enter t] [] (\<lambda>_. None) st) (\<lambda>(out, st). andthen (pop out) (\<lambda>(i, _). Inr (i, st))))
    (\<lambda>i st'. den st' i t)"
proof -
  have "memo_ok st (\<lambda>_. None)" by (simp add: memo_ok_def)
  from visits_all [OF assms(2), unfolded visits_def, rule_format, OF assms(1) this, of "[]" "[]"]
  show ?thesis by (auto simp: interns_def pop_def no_room_def full_def loop_done)
qed

end

end
