(* ===== verification/Store_Levels.thy ===== *)
theory Store_Levels
  imports Post_Order
begin

text \<open>
  Levels in a store: the contracts of the row constructors \<open>level_zero\<close> to \<open>level_mvar\<close>, of the two
  explicit-stack walks \<open>intern_level\<close> and \<open>to_level\<close> (they end, never panic, and are inverse to each
  other), and of metadata maps.
\<close>

section \<open>Rows\<close>

lemma level_interns:
  assumes wf: "wf H base st" and h: "h = lvl_hash H t" "f = lvl_flags t"
    and den: "\<And>i st'. grows base st st' \<Longrightarrow> level_ent base st' i = Some r \<Longrightarrow> level_at base st' i t"
    and old: "\<And>i. level_at base st i t \<Longrightarrow> \<exists>j. level_ent base st j = Some r"
  shows "interns H base 1 (\<exists>i. level_at base st i t) st (level_intern_row base h f r st)
    (\<lambda>i st'. level_at base st' i t)"
proof -
  let ?E = "lb.entry (map_option levels base)" and ?U = "\<lambda>b. st\<lparr>levels := b\<rparr>"
  have okb: "lb.pair_ok (map_option levels base) (levels st)" using wf_banks [OF wf] by (simp add: banks_ok_def)
  have known: "lb.hash_at (map_option levels base) (levels st) r = h \<and> lb.pload (map_option levels base) (levels st) r = f"
    if "?E (levels st) i = Some r" for i
  proof -
    from that have e: "level_ent base st i = Some r" by (simp add: level_ent_def)
    from wf_levelD [OF wf e] obtain l where "level_at base st i l" "level_hash_at base st r = lvl_hash H l"
      "level_flags_at base st r = lvl_flags l" by blast
    with den [OF grows_refl e] h show ?thesis
      by (auto simp: level_hash_at_def level_flags_at_def dest: level_at_det)
  qed
  have eqn: "level_intern_row base h f r st = intern_row
      (case map_option levels base of None \<Rightarrow> Inr None | Some b \<Rightarrow> lb_lookup b h r)
      (lb_lookup (levels st) h r) (lb_insert (levels st) h f r) ?U st"
    by (cases base) (simp_all add: level_intern_row_def)
  have "run (if length (lb_rows (levels st)) < max_rows then {} else {BankExhausted})
    (level_intern_row base h f r st) (\<lambda>(i, st'). \<exists>b. st' = ?U b
      \<and> lb.pair_ok (map_option levels base) b \<and> lb.extends (levels st) b \<and> ?E b i = Some r
      \<and> lb.hash_at (map_option levels base) b r = h \<and> lb.pload (map_option levels base) b r = f
      \<and> (if \<exists>i. ?E (levels st) i = Some r then st' = st \<and> b = levels st else lb_rows b = lb_rows (levels st) @ [r])
      \<and> (\<forall>j s. ?E b j = Some s \<longrightarrow> ?E (levels st) j = Some s \<or> j = i \<and> s = r))"
    unfolding eqn by (rule lb.intern_row_ok [OF okb]) (use known in simp_all)
  then have "run (full 1 st) (level_intern_row base h f r st) (\<lambda>(i, st'). \<exists>b. st' = ?U b
      \<and> lb.pair_ok (map_option levels base) b \<and> lb.extends (levels st) b \<and> ?E b i = Some r
      \<and> lb.hash_at (map_option levels base) b r = h \<and> lb.pload (map_option levels base) b r = f
      \<and> (if \<exists>i. ?E (levels st) i = Some r then st' = st \<and> b = levels st else lb_rows b = lb_rows (levels st) @ [r])
      \<and> (\<forall>j s. ?E b j = Some s \<longrightarrow> ?E (levels st) j = Some s \<or> j = i \<and> s = r))"
    by (rule run_mono) (auto simp: full_def used_def)
  then show ?thesis
    unfolding interns_def
  proof (rule run_mono2, elim exE conjE)
    fix i st' b
    assume st': "st' = ?U b"
    assume p: "lb.pair_ok (map_option levels base) b" "lb.extends (levels st) b" "?E b i = Some r"
      "lb.hash_at (map_option levels base) b r = h" "lb.pload (map_option levels base) b r = f"
      "if \<exists>i. ?E (levels st) i = Some r then st' = st \<and> b = levels st else lb_rows b = lb_rows (levels st) @ [r]"
      "\<forall>j s. ?E b j = Some s \<longrightarrow> ?E (levels st) j = Some s \<or> j = i \<and> s = r"
    from wf_banks [OF wf] p(1) have ok: "banks_ok H base (?U b)" by (simp add: banks_ok_def)
    with wf_banks [OF wf] p(2) have g: "grows base st (?U b)" by (intro grows_if_extends) simp_all
    have e: "level_ent base (?U b) i = Some r" using p(3) by (simp add: level_ent_def)
    have "wf H base (?U b)"
    proof (rule wf_step [OF wf ok g])
      fix j s assume "level_ent base (?U b) j = Some s" "level_ent base st j = None"
      then have "j = i" "s = r" using p(7) [rule_format, of j s] by (auto simp: level_ent_def)
      with den [OF g e] p(4,5) h show "level_good H base (?U b) j s"
        by (auto simp: level_good_def level_hash_at_def level_flags_at_def)
    qed (simp_all add: ent_defs)
    with g have "good H base st (?U b)" by (intro goodI) simp_all
    moreover have "(\<exists>i. level_at base st i t) \<longrightarrow> st' = st"
      using old p(6) by (auto simp: level_ent_def split: if_splits)
    moreover have "used (?U b) \<le> used st + 1" using p(6) by (auto simp: used_def split: if_splits)
    ultimately show "good H base st st' \<and> used st' \<le> used st + 1 \<and> ((\<exists>i. level_at base st i t) \<longrightarrow> st' = st)
        \<and> level_at base st' i t"
      using den [OF g e] st' by simp
  qed
qed

lemma level_info:
  assumes "wf H base st" and "level_at base st i l"
  shows "level_hash base st i = Inr (lvl_hash H l)" and "level_flags base st i = Inr (lvl_flags l)"
proof -
  from assms(2) obtain r where r: "level_ent base st i = Some r" by (cases rule: level_atE) auto
  from wf_levelD [OF assms(1) r] obtain l' where "level_at base st i l'" "level_hash_at base st r = lvl_hash H l'"
    "level_flags_at base st r = lvl_flags l'" by blast
  with assms(2) level_reads(2,3) [OF wf_banks [OF assms(1)] r]
  show "level_hash base st i = Inr (lvl_hash H l)" "level_flags base st i = Inr (lvl_flags l)"
    by (auto dest: level_at_det)
qed

text \<open>\<open>makes H base c st t m\<close>: \<open>m\<close> interns the level \<open>t\<close>.\<close>

definition makes :: "hashers \<Rightarrow> store option \<Rightarrow> nat \<Rightarrow> store \<Rightarrow> level \<Rightarrow> (u32 \<times> store) result \<Rightarrow> bool" where
  "makes H base c st t m \<longleftrightarrow> interns H base c (\<exists>i. level_at base st i t) st m (\<lambda>i st'. level_at base st' i t)"

lemma level_zero_ok: "wf H base st \<Longrightarrow> makes H base 1 st Zero (level_zero base st)"
  unfolding makes_def level_zero_def
  by (rule level_interns) (auto intro: level_at_Zero elim: level_at_ZeroE)

lemma level_succ_ok:
  assumes wf: "wf H base st" and a: "level_at base st a la"
  shows "makes H base 1 st (Succ la) (level_succ base a st)"
  unfolding makes_def level_succ_def level_info [OF wf a] andthen_Inr
proof (rule level_interns [OF wf])
  fix i assume "level_at base st i (Succ la)"
  then show "\<exists>j. level_ent base st j = Some (LSucc a)"
    by (rule level_at_SuccE) (use level_at_inject [OF wf_banks [OF wf] a] in auto)
qed (use a in \<open>auto intro: level_at_Succ level_at_grows\<close>)

lemma level_max_ok:
  assumes wf: "wf H base st" and a: "level_at base st a la" and b: "level_at base st b lb"
  shows "makes H base 1 st (Max la lb) (level_max base a b st)"
  unfolding makes_def level_max_def level_info [OF wf a] level_info [OF wf b] andthen_Inr
proof (rule level_interns [OF wf])
  fix i assume "level_at base st i (Max la lb)"
  then show "\<exists>j. level_ent base st j = Some (LMax a b)"
    by (rule level_at_MaxE)
      (use level_at_inject [OF wf_banks [OF wf] a] level_at_inject [OF wf_banks [OF wf] b] in auto)
qed (use a b in \<open>auto intro: level_at_Max level_at_grows\<close>)

lemma level_imax_ok:
  assumes wf: "wf H base st" and a: "level_at base st a la" and b: "level_at base st b lb"
  shows "makes H base 1 st (IMax la lb) (level_imax base a b st)"
  unfolding makes_def level_imax_def level_info [OF wf a] level_info [OF wf b] andthen_Inr
proof (rule level_interns [OF wf])
  fix i assume "level_at base st i (IMax la lb)"
  then show "\<exists>j. level_ent base st j = Some (LIMax a b)"
    by (rule level_at_IMaxE)
      (use level_at_inject [OF wf_banks [OF wf] a] level_at_inject [OF wf_banks [OF wf] b] in auto)
qed (use a b in \<open>auto intro: level_at_IMax level_at_grows\<close>)

lemma level_param_ok:
  assumes wf: "wf H base st" and n: "name_at base st x n"
  shows "makes H base 1 st (Param n) (level_param base x st)"
  unfolding makes_def level_param_def name_hash_of_ok [OF wf n] andthen_Inr
proof (rule level_interns [OF wf])
  fix i assume "level_at base st i (Param n)"
  then show "\<exists>j. level_ent base st j = Some (LParam x)"
    by (rule level_at_ParamE) (use name_at_inject [OF wf_banks [OF wf] n] in auto)
qed (use n in \<open>auto intro: level_at_Param name_at_grows\<close>)

lemma level_mvar_ok:
  assumes wf: "wf H base st" and n: "name_at base st x n"
  shows "makes H base 1 st (MVar n) (level_mvar base x st)"
  unfolding makes_def level_mvar_def name_hash_of_ok [OF wf n] andthen_Inr
proof (rule level_interns [OF wf])
  fix i assume "level_at base st i (MVar n)"
  then show "\<exists>j. level_ent base st j = Some (LMVar x)"
    by (rule level_at_MVarE) (use name_at_inject [OF wf_banks [OF wf] n] in auto)
qed (use n in \<open>auto intro: level_at_MVar name_at_grows\<close>)

section \<open>The walk that interns a tree\<close>

definition own_cost :: "level \<Rightarrow> nat" where
  "own_cost l = (case l of Param n \<Rightarrow> name_cost n + 1 | MVar n \<Rightarrow> name_cost n + 1 | _ \<Rightarrow> 1)"

fun level_cost :: "level \<Rightarrow> nat" where
  "level_cost Zero = 1"
| "level_cost (Succ a) = level_cost a + 1"
| "level_cost (Max a b) = level_cost a + level_cost b + 1"
| "level_cost (IMax a b) = level_cost a + level_cost b + 1"
| "level_cost (Param n) = name_cost n + 1"
| "level_cost (MVar n) = name_cost n + 1"

lemma level_cost_eq: "level_cost l = own_cost l + sum_list (map level_cost (level_children l))"
  by (cases l) (simp_all add: own_cost_def level_children_def)

text \<open>The \<open>Exit\<close> arm of a level: the id it pushes, above what it leaves on \<open>out\<close>.\<close>

lemma exit_level_ok:
  assumes wf: "wf H base st" and ids: "list_all2 (level_at base st) ids (level_children l)"
  shows "interns H base (own_cost l) (\<exists>i. level_at base st i l) st (exit_level H base l (rev ids @ out) st)
    (\<lambda>(i, out') st'. out' = out \<and> level_at base st' i l)"
proof (cases l)
  case Zero
  with ids interns_out [OF level_zero_ok [OF wf, unfolded makes_def] order_refl] show ?thesis
    by (simp add: exit_level_def level_children_def own_cost_def)
next
  case (Succ a)
  with ids obtain i where i: "ids = [i]" "level_at base st i a"
    by (auto simp: level_children_def list_all2_Cons2)
  with Succ interns_out [OF level_succ_ok [OF wf i(2), unfolded makes_def] order_refl] show ?thesis
    by (simp add: exit_level_def pop_def own_cost_def)
next
  case (Max a b)
  with ids obtain i j where i: "ids = [i, j]" "level_at base st i a" "level_at base st j b"
    by (auto simp: level_children_def list_all2_Cons2)
  with Max interns_out [OF level_max_ok [OF wf i(2,3), unfolded makes_def] order_refl] show ?thesis
    by (simp add: exit_level_def pop_def own_cost_def)
next
  case (IMax a b)
  with ids obtain i j where i: "ids = [i, j]" "level_at base st i a" "level_at base st j b"
    by (auto simp: level_children_def list_all2_Cons2)
  with IMax interns_out [OF level_imax_ok [OF wf i(2,3), unfolded makes_def] order_refl] show ?thesis
    by (simp add: exit_level_def pop_def own_cost_def)
next
  case (Param n)
  have "interns H base (name_cost n + 1) (\<exists>i. level_at base st i (Param n)) st
      (andthen (intern_name H base n st) (\<lambda>(x, st). andthen (level_param base x st) (\<lambda>(i, st). Inr ((i, out), st))))
      (\<lambda>(i, out') st'. out' = out \<and> level_at base st' i (Param n))"
    by (rule interns_named [OF wf level_param_ok [unfolded makes_def, OF goodD(1)]]) (auto elim: level_at_ParamE)
  with ids Param show ?thesis by (simp add: exit_level_def level_children_def own_cost_def)
next
  case (MVar n)
  have "interns H base (name_cost n + 1) (\<exists>i. level_at base st i (MVar n)) st
      (andthen (intern_name H base n st) (\<lambda>(x, st). andthen (level_mvar base x st) (\<lambda>(i, st). Inr ((i, out), st))))
      (\<lambda>(i, out') st'. out' = out \<and> level_at base st' i (MVar n))"
    by (rule interns_named [OF wf level_mvar_ok [unfolded makes_def, OF goodD(1)]]) (auto elim: level_at_MVarE)
  with ids MVar show ?thesis by (simp add: exit_level_def level_children_def own_cost_def)
qed

lemma known_children:
  "level_at base st i l \<Longrightarrow> c \<in> set (level_children l) \<Longrightarrow> \<exists>j. level_at base st j c"
  by (cases rule: level_atE) (auto simp: level_children_def)

interpretation level_walk: post_order H base "wf H base" "level_at base" "\<lambda>_. True" "\<lambda>_. None" level_children own_cost level_cost
  "exit_level H base" "intern_level_loop H base" for H base
proof
  show "0 < own_cost t" for t by (cases t) (simp_all add: own_cost_def)
qed (auto intro: level_at_grows known_children exit_level_ok goodD(1) level_cost_eq simp del: level_cost.simps split del: option.split)

lemma intern_level_ok:
  assumes "wf H base st" shows "makes H base (level_cost l) st l (intern_level H base l st)"
  unfolding makes_def intern_level_def by (rule level_walk.walk_ok [OF assms]) simp

section \<open>The walk that rebuilds a tree\<close>

definition rebuilt :: "store option \<Rightarrow> store \<Rightarrow> (u32 \<rightharpoonup> level) \<Rightarrow> bool" where
  "rebuilt base st memo \<longleftrightarrow> (\<forall>i t. memo i = Some t \<longrightarrow> level_at base st i t)"

lemma rebuilt_upd: "rebuilt base st memo \<Longrightarrow> level_at base st i l \<Longrightarrow> rebuilt base st (memo(i \<mapsto> l))"
  by (simp add: rebuilt_def)

lemma to_level_node:
  assumes "banks_ok H base st" and "level_ent base st i = Some r" and "level_at base st i l" and "rebuilt base st memo"
    and "\<And>stack. \<exists>memo'. to_level_loop base st (map Enter (row_children r) @ stack) out memo =
        to_level_loop base st stack (rev ls @ out) memo' \<and> rebuilt base st memo'"
    and "exit_row base st r (rev ls @ out) = Inr (l, out)"
  shows "\<exists>memo'. to_level_loop base st (Enter i # stack) out memo = to_level_loop base st stack (l # out) memo'
      \<and> rebuilt base st memo'"
proof (cases "memo i")
  case None
  from assms(5) [of "Exit i # stack"] obtain memo' where
    m: "to_level_loop base st (map Enter (row_children r) @ Exit i # stack) out memo =
      to_level_loop base st (Exit i # stack) (rev ls @ out) memo'" "rebuilt base st memo'" by blast
  have "to_level_loop base st (Enter i # stack) out memo = to_level_loop base st (Exit i # stack) (rev ls @ out) memo'"
    using None level_reads(1) [OF assms(1,2)] m(1) by (subst to_level_loop.simps) simp
  also have "\<dots> = to_level_loop base st stack (l # out) (memo'(i \<mapsto> l))"
    using level_reads(1) [OF assms(1,2)] assms(6) by (subst to_level_loop.simps) simp
  finally show ?thesis using rebuilt_upd [OF m(2) assms(3)] by blast
next
  case (Some t)
  with assms(3,4) have "t = l" by (auto simp: rebuilt_def dest: level_at_det)
  with Some assms(4) show ?thesis by (subst to_level_loop.simps) auto
qed

lemma to_level_enter:
  assumes ok: "banks_ok H base st"
  shows "level_at base st i l \<Longrightarrow> rebuilt base st memo \<Longrightarrow>
    \<exists>memo'. to_level_loop base st (Enter i # stack) out memo = to_level_loop base st stack (l # out) memo'
      \<and> rebuilt base st memo'"
proof (induction arbitrary: stack out memo rule: level_at.induct)
  case (level_at_Zero i)
  then show ?case
    by (intro to_level_node [OF ok, where ls = "[]"])
      (auto simp: row_children_def exit_row_def intro: level_at.level_at_Zero)
next
  case (level_at_Succ i a la)
  show ?case
  proof (rule to_level_node [OF ok level_at_Succ.hyps(1) _ level_at_Succ.prems, where ls = "[la]"])
    show "level_at base st i (Succ la)" using level_at_Succ.hyps by (rule level_at.level_at_Succ)
  qed (use level_at_Succ.IH [OF level_at_Succ.prems] in \<open>simp_all add: row_children_def exit_row_def pop_def\<close>)
next
  case (level_at_Max i a b la lb)
  show ?case
  proof (rule to_level_node [OF ok level_at_Max.hyps(1) _ level_at_Max.prems, where ls = "[la, lb]"])
    show "level_at base st i (Max la lb)" using level_at_Max.hyps by (rule level_at.level_at_Max)
    fix stack
    from level_at_Max.IH(1) [OF level_at_Max.prems, of "Enter b # stack" out] obtain m1 where
      "to_level_loop base st (Enter a # Enter b # stack) out memo = to_level_loop base st (Enter b # stack) (la # out) m1"
      "rebuilt base st m1" by blast
    with level_at_Max.IH(2) [of m1 stack "la # out"]
    show "\<exists>memo'. to_level_loop base st (map Enter (row_children (LMax a b)) @ stack) out memo =
        to_level_loop base st stack (rev [la, lb] @ out) memo' \<and> rebuilt base st memo'"
      by (simp add: row_children_def)
  qed (simp add: exit_row_def pop_def)
next
  case (level_at_IMax i a b la lb)
  show ?case
  proof (rule to_level_node [OF ok level_at_IMax.hyps(1) _ level_at_IMax.prems, where ls = "[la, lb]"])
    show "level_at base st i (IMax la lb)" using level_at_IMax.hyps by (rule level_at.level_at_IMax)
    fix stack
    from level_at_IMax.IH(1) [OF level_at_IMax.prems, of "Enter b # stack" out] obtain m1 where
      "to_level_loop base st (Enter a # Enter b # stack) out memo = to_level_loop base st (Enter b # stack) (la # out) m1"
      "rebuilt base st m1" by blast
    with level_at_IMax.IH(2) [of m1 stack "la # out"]
    show "\<exists>memo'. to_level_loop base st (map Enter (row_children (LIMax a b)) @ stack) out memo =
        to_level_loop base st stack (rev [la, lb] @ out) memo' \<and> rebuilt base st memo'"
      by (simp add: row_children_def)
  qed (simp add: exit_row_def pop_def)
next
  case (level_at_Param i x n)
  then show ?case
    by (intro to_level_node [OF ok, where ls = "[]"])
      (auto simp: row_children_def exit_row_def to_name_ok [OF ok] intro: level_at.level_at_Param)
next
  case (level_at_MVar i x n)
  then show ?case
    by (intro to_level_node [OF ok, where ls = "[]"])
      (auto simp: row_children_def exit_row_def to_name_ok [OF ok] intro: level_at.level_at_MVar)
qed

lemma to_level_ok:
  assumes "banks_ok H base st" and "level_at base st i l" shows "to_level base st i = Inr l"
proof -
  have "rebuilt base st (\<lambda>_. None)" by (simp add: rebuilt_def)
  from to_level_enter [OF assms this, of "[]" "[]"] obtain memo where
    "to_level_loop base st [Enter i] [] (\<lambda>_. None) = to_level_loop base st [] [l] memo" by blast
  moreover have "to_level_loop base st [] [l] memo = Some (Inr [l])" by (subst to_level_loop.simps) simp
  ultimately show ?thesis by (simp add: to_level_def pop_def)
qed

section \<open>Metadata maps\<close>

inductive_simps data_at_simps:
  "data_at base st r (OfString s)" "data_at base st r (OfBool b)" "data_at base st r (OfName n)"
  "data_at base st r (OfNat k)" "data_at base st r (OfInt z)" "data_at base st r (OfSyntax a)"

definition data_cost :: "data_value \<Rightarrow> nat" where
  "data_cost v = (case v of OfName n \<Rightarrow> name_cost n | _ \<Rightarrow> 1)"

lemma intern_data_value_ok:
  assumes wf: "wf H base st"
  shows "interns H base (data_cost v) (\<exists>r. data_at base st r v) st (intern_data_value H base v st)
    (\<lambda>r st'. data_at base st' r v)"
proof (cases v)
  case (OfString s)
  then show ?thesis unfolding intern_data_value_def
    by (auto simp: data_cost_def data_at_simps intro!: interns_map [OF intern_str_ok [OF wf], simplified])
next
  case (OfName n)
  then show ?thesis unfolding intern_data_value_def
    by (auto simp: data_cost_def data_at_simps intro: interns_map [OF intern_name_ok [OF wf]])
next
  case (OfNat n)
  then show ?thesis unfolding intern_data_value_def
    by (auto simp: data_cost_def data_at_simps intro!: interns_map [OF intern_nat_ok [OF wf], simplified])
next
  case (OfInt z)
  then show ?thesis unfolding intern_data_value_def
    by (auto simp: data_cost_def data_at_simps intro!: interns_map [OF intern_int_ok [OF wf], simplified])
qed (simp_all add: intern_data_value_def data_at_simps interns_return [OF wf])

fun entries_cost :: "kvmap \<Rightarrow> nat" where
  "entries_cost [] = 0"
| "entries_cost ((n, v) # m) = name_cost n + data_cost v + entries_cost m"

definition known_entries :: "store option \<Rightarrow> store \<Rightarrow> kvmap \<Rightarrow> bool" where
  "known_entries base st m \<longleftrightarrow> (\<exists>row. entries_at base st row m)"

lemma known_entries_Cons:
  "known_entries base st ((n, v) # m) \<longleftrightarrow>
     (\<exists>x. name_at base st x n) \<and> (\<exists>r. data_at base st r v) \<and> known_entries base st m"
  unfolding known_entries_def entries_at_def by (fastforce simp: list_all2_Cons2)

lemma entries_at_snoc:
  "entries_at base st done_row ds \<Longrightarrow> name_at base st x n \<Longrightarrow> data_at base st r v \<Longrightarrow>
     entries_at base st (done_row @ [(x, r)]) (ds @ [(n, v)])"
  by (auto simp: entries_at_def intro: list_all2_appendI)

lemma intern_entries_ok:
  "wf H base st \<Longrightarrow> entries_at base st row ds \<Longrightarrow>
     interns H base (entries_cost m) (known_entries base st m) st (intern_entries H base m row st)
       (\<lambda>row' st'. entries_at base st' row' (ds @ m))"
proof (induction m arbitrary: st row ds)
  case Nil
  then show ?case by (simp add: interns_return)
next
  case (Cons nv m)
  obtain n v where nv [simp]: "nv = (n, v)" by (cases nv)
  let ?K = "known_entries base st ((n, v) # m)"
  show ?case unfolding nv intern_entries.simps
  proof (rule interns_bind [OF intern_name_ok [OF Cons.prems(1)]])
    fix x st1
    assume x: "good H base st st1" "name_at base st1 x n" "?K \<Longrightarrow> st1 = st"
    show "interns H base (data_cost v + entries_cost m) ?K st1
        (andthen (intern_data_value H base v st1) (\<lambda>(r, st). intern_entries H base m (row @ [(x, r)]) st))
        (\<lambda>row' st'. entries_at base st' row' (ds @ (n, v) # m))"
    proof (rule interns_bind [OF intern_data_value_ok [OF goodD(1) [OF x(1)]]])
      fix r st2
      assume r: "good H base st1 st2" "data_at base st2 r v" "?K \<Longrightarrow> st2 = st1"
      note g = good_trans [OF x(1) r(1)]
      have "entries_at base st2 (row @ [(x, r)]) (ds @ [(n, v)])"
        using entries_at_grows [OF Cons.prems(2) goodD(2) [OF g]] name_at_grows [OF x(2) goodD(2) [OF r(1)]] r(2)
        by (rule entries_at_snoc)
      from Cons.IH [OF goodD(1) [OF g] this]
      show "interns H base (entries_cost m) ?K st2 (intern_entries H base m (row @ [(x, r)]) st2)
          (\<lambda>row' st'. entries_at base st' row' (ds @ (n, v) # m))"
        by (rule interns_weaken) (use x(3) r(3) in \<open>auto simp: known_entries_Cons\<close>)
    qed (use x(3) in \<open>auto simp: known_entries_Cons\<close>)
  qed (auto simp: known_entries_Cons)
qed

lemma known_kvmap:
  "banks_ok H base st \<Longrightarrow> kvmap_denotes base st i m \<Longrightarrow> entries_at base st row m \<Longrightarrow> kv_ent base st i = Some row"
  unfolding kvmap_denotes_def using entries_at_inject by blast

lemma intern_kvmap_ok:
  assumes wf: "wf H base st"
  shows "interns H base (entries_cost m + 1) (\<exists>i. kvmap_denotes base st i m) st (intern_kvmap H base m st)
    (\<lambda>i st'. kvmap_denotes base st' i m)"
  unfolding intern_kvmap_def
proof (rule interns_bind [OF intern_entries_ok [OF wf, where ds = "[]"]])
  fix row st1
  assume 1: "good H base st st1" "entries_at base st1 row ([] @ m)" "\<exists>i. kvmap_denotes base st i m \<Longrightarrow> st1 = st"
  then have row: "entries_at base st1 row m" by simp
  have "\<exists>j. kv_ent base st1 j = Some row" if "\<exists>i. kvmap_denotes base st i m"
    using that 1(3) known_kvmap [OF wf_banks [OF wf] _ row [unfolded 1(3) [OF that]]] by blast
  then show "interns H base 1 (\<exists>i. kvmap_denotes base st i m) st1 (intern_kvmap_rows base row st1)
      (\<lambda>i st'. kvmap_denotes base st' i m)"
    by (intro interns_weaken [OF intern_kvmap_rows_ok [OF goodD(1) [OF 1(1)] row]]) auto
qed (auto simp: entries_at_def known_entries_def kvmap_denotes_def)

lemma data_value_of_ok: "banks_ok H base st \<Longrightarrow> data_at base st r v \<Longrightarrow> data_value_of base st r = Inr v"
  by (erule data_at.cases) (simp_all add: data_value_of_def pool_reads to_name_ok)

lemma entries_of_ok: "banks_ok H base st \<Longrightarrow> entries_at base st row m \<Longrightarrow> entries_of base st row = Inr m"
proof (induction row arbitrary: m)
  case Nil
  then show ?case by (simp add: entries_at_def)
next
  case (Cons e row)
  then show ?case
    by (cases e) (auto simp: entries_at_def list_all2_Cons1 to_name_ok data_value_of_ok)
qed

lemma to_kvmap_ok: "banks_ok H base st \<Longrightarrow> kvmap_denotes base st i m \<Longrightarrow> to_kvmap base st i = Inr m"
  by (auto simp: kvmap_denotes_def to_kvmap_def pool_reads entries_of_ok)

end
