(* ===== verification/Binding.thy ===== *)
theory Binding
  imports Term_Denotation Level_Semantics
begin

text \<open>
  Expression trees with de Bruijn indices: the reference definitions of the operations of
  \<open>subst.rs\<close>, free of ids, caches and errors, and their algebra. \<open>tmap L k e\<close> rewrites the leaves of
  \<open>e\<close> by \<open>L\<close>, which is told how many binders it is under. The last part shows that the cached word
  is exact about loose variables, free variables and parameters.
\<close>

section \<open>Rewriting leaves\<close>

fun tmap :: "(nat \<Rightarrow> expr \<Rightarrow> expr) \<Rightarrow> nat \<Rightarrow> expr \<Rightarrow> expr" where
  "tmap L k (EApp f a) = EApp (tmap L k f) (tmap L k a)"
| "tmap L k (ELam n t b bi) = ELam n (tmap L k t) (tmap L (Suc k) b) bi"
| "tmap L k (EForallE n t b bi) = EForallE n (tmap L k t) (tmap L (Suc k) b) bi"
| "tmap L k (ELetE n t v b nd) = ELetE n (tmap L k t) (tmap L k v) (tmap L (Suc k) b) nd"
| "tmap L k (EMData m c) = EMData m (tmap L k c)"
| "tmap L k (EProj n i c) = EProj n i (tmap L k c)"
| "tmap L k e = L k e"

text \<open>A tree as its children with the binder depth of each, and the tree rebuilt from new children.\<close>

definition tkids :: "expr \<Rightarrow> nat \<Rightarrow> (expr \<times> nat) list" where
  "tkids e k =
     (case e of
        EApp f a \<Rightarrow> [(f, k), (a, k)] | ELam _ t b _ \<Rightarrow> [(t, k), (b, Suc k)] | EForallE _ t b _ \<Rightarrow> [(t, k), (b, Suc k)]
      | ELetE _ t v b _ \<Rightarrow> [(t, k), (v, k), (b, Suc k)] | EMData _ c \<Rightarrow> [(c, k)] | EProj _ _ c \<Rightarrow> [(c, k)] | _ \<Rightarrow> [])"

definition with_children :: "expr \<Rightarrow> expr list \<Rightarrow> expr" where
  "with_children e es =
     (case e of
        EApp _ _ \<Rightarrow> EApp (es ! 0) (es ! 1) | ELam n _ _ bi \<Rightarrow> ELam n (es ! 0) (es ! 1) bi
      | EForallE n _ _ bi \<Rightarrow> EForallE n (es ! 0) (es ! 1) bi | ELetE n _ _ _ nd \<Rightarrow> ELetE n (es ! 0) (es ! 1) (es ! 2) nd
      | EMData m _ \<Rightarrow> EMData m (es ! 0) | EProj n i _ \<Rightarrow> EProj n i (es ! 0) | _ \<Rightarrow> e)"

lemma tkids_fst: "map fst (tkids e k) = expr_children e"
  by (cases e) (simp_all add: tkids_def expr_children_def)

lemma tkids_depth: "(c, j) \<in> set (tkids e k) \<Longrightarrow> j = k \<or> j = Suc k"
  by (cases e) (auto simp: tkids_def)

lemma tmap_node: "tkids e k \<noteq> [] \<Longrightarrow> tmap L k e = with_children e (map (\<lambda>(c, j). tmap L j c) (tkids e k))"
  by (cases e) (simp_all add: tkids_def with_children_def)

lemma tmap_leaf: "tkids e k = [] \<Longrightarrow> tmap L k e = L k e"
  by (cases e) (simp_all add: tkids_def)

lemma children_with_children: "length es = length (expr_children e) \<Longrightarrow> expr_children (with_children e es) = es"
  by (cases e) (auto simp: expr_children_def with_children_def length_Suc_conv numeral_2_eq_2)

lemma with_children_same: "with_children e (expr_children e) = e"
  by (cases e) (simp_all add: expr_children_def with_children_def numeral_2_eq_2)

lemma tmap_cong:
  "(\<And>j x. k \<le> j \<Longrightarrow> tkids x j = [] \<Longrightarrow> L j x = M j x) \<Longrightarrow> tmap L k e = tmap M k e"
  by (induction e arbitrary: k) (auto simp: tkids_def)

lemma tmap_id: "(\<And>k x. tkids x k = [] \<Longrightarrow> L k x = x) \<Longrightarrow> tmap L k e = e"
  by (induction e arbitrary: k) (auto simp: tkids_def)

section \<open>Loose variables, free variables, parameters\<close>

text \<open>The least bound above every loose variable, as the kernel's \<open>looseBVarRange\<close>.\<close>

fun loose_range :: "expr \<Rightarrow> nat" where
  "loose_range (EBVar n) = Suc n"
| "loose_range (EApp f a) = max (loose_range f) (loose_range a)"
| "loose_range (ELam n t b bi) = max (loose_range t) (loose_range b - 1)"
| "loose_range (EForallE n t b bi) = max (loose_range t) (loose_range b - 1)"
| "loose_range (ELetE n t v b nd) = max (max (loose_range t) (loose_range v)) (loose_range b - 1)"
| "loose_range (EMData m c) = loose_range c"
| "loose_range (EProj n i c) = loose_range c"
| "loose_range _ = 0"

fun fvars_of :: "expr \<Rightarrow> name set" where
  "fvars_of (EFVar n) = {n}"
| "fvars_of (EApp f a) = fvars_of f \<union> fvars_of a"
| "fvars_of (ELam n t b bi) = fvars_of t \<union> fvars_of b"
| "fvars_of (EForallE n t b bi) = fvars_of t \<union> fvars_of b"
| "fvars_of (ELetE n t v b nd) = fvars_of t \<union> fvars_of v \<union> fvars_of b"
| "fvars_of (EMData m c) = fvars_of c"
| "fvars_of (EProj n i c) = fvars_of c"
| "fvars_of _ = {}"

fun mvars_in :: "expr \<Rightarrow> name set" where
  "mvars_in (EMVar n) = {n}"
| "mvars_in (EApp f a) = mvars_in f \<union> mvars_in a"
| "mvars_in (ELam n t b bi) = mvars_in t \<union> mvars_in b"
| "mvars_in (EForallE n t b bi) = mvars_in t \<union> mvars_in b"
| "mvars_in (ELetE n t v b nd) = mvars_in t \<union> mvars_in v \<union> mvars_in b"
| "mvars_in (EMData m c) = mvars_in c"
| "mvars_in (EProj n i c) = mvars_in c"
| "mvars_in _ = {}"

fun expr_levels :: "expr \<Rightarrow> level list" where
  "expr_levels (ESort l) = [l]"
| "expr_levels (EConst n ls) = ls"
| "expr_levels (EApp f a) = expr_levels f @ expr_levels a"
| "expr_levels (ELam n t b bi) = expr_levels t @ expr_levels b"
| "expr_levels (EForallE n t b bi) = expr_levels t @ expr_levels b"
| "expr_levels (ELetE n t v b nd) = expr_levels t @ expr_levels v @ expr_levels b"
| "expr_levels (EMData m c) = expr_levels c"
| "expr_levels (EProj n k c) = expr_levels c"
| "expr_levels _ = []"

section \<open>The reference operations\<close>

definition lift_leaf :: "nat \<Rightarrow> nat \<Rightarrow> nat \<Rightarrow> expr \<Rightarrow> expr" where
  "lift_leaf s d k e = (case e of EBVar n \<Rightarrow> if s + k \<le> n then EBVar (n + d) else e | _ \<Rightarrow> e)"

definition lift :: "nat \<Rightarrow> nat \<Rightarrow> expr \<Rightarrow> expr" where
  "lift s d = tmap (lift_leaf s d) 0"

text \<open>Subtraction of naturals stops at 0, as the code's does.\<close>

definition lower_leaf :: "nat \<Rightarrow> nat \<Rightarrow> nat \<Rightarrow> expr \<Rightarrow> expr" where
  "lower_leaf s d k e = (case e of EBVar n \<Rightarrow> if s + k \<le> n then EBVar (n - d) else e | _ \<Rightarrow> e)"

definition lower :: "nat \<Rightarrow> nat \<Rightarrow> expr \<Rightarrow> expr" where
  "lower s d = tmap (lower_leaf s d) 0"

text \<open>The variables \<open>s\<close>, \<open>s + 1\<close>, ... are replaced by the elements of the list, in order.\<close>

definition inst_leaf :: "nat \<Rightarrow> expr list \<Rightarrow> nat \<Rightarrow> expr \<Rightarrow> expr" where
  "inst_leaf s xs k e =
     (case e of
        EBVar n \<Rightarrow>
          if n < s + k then e
          else if n < s + k + length xs then lift 0 k (xs ! (n - (s + k)))
          else EBVar (n - length xs)
      | _ \<Rightarrow> e)"

definition inst :: "nat \<Rightarrow> expr list \<Rightarrow> expr \<Rightarrow> expr" where
  "inst s xs = tmap (inst_leaf s xs) 0"

text \<open>The distance of the last occurrence of a name from the end of a list.\<close>

fun from_end :: "name \<Rightarrow> name list \<Rightarrow> nat option" where
  "from_end x [] = None"
| "from_end x (y # ys) =
     (case from_end x ys of Some i \<Rightarrow> Some i | None \<Rightarrow> if x = y then Some (length ys) else None)"

definition abs_leaf :: "name list \<Rightarrow> nat \<Rightarrow> expr \<Rightarrow> expr" where
  "abs_leaf xs k e =
     (case e of EFVar x \<Rightarrow> (case from_end x xs of Some i \<Rightarrow> EBVar (k + i) | None \<Rightarrow> e) | _ \<Rightarrow> e)"

definition abstr :: "name list \<Rightarrow> expr \<Rightarrow> expr" where
  "abstr xs = tmap (abs_leaf xs) 0"

text \<open>The level that \<open>Level::instantiate_params\<close> gives where the guard does not interfere.\<close>

definition inst_level :: "name list \<Rightarrow> level list \<Rightarrow> level \<Rightarrow> level" where
  "inst_level ps as l = (case instantiate_params l ps as 0 of Inr (r, _) \<Rightarrow> r | Inl _ \<Rightarrow> l)"

definition lparams_leaf :: "name list \<Rightarrow> level list \<Rightarrow> nat \<Rightarrow> expr \<Rightarrow> expr" where
  "lparams_leaf ps as k e =
     (case e of ESort l \<Rightarrow> ESort (inst_level ps as l) | EConst n ls \<Rightarrow> EConst n (map (inst_level ps as) ls) | _ \<Rightarrow> e)"

definition inst_lparams :: "name list \<Rightarrow> level list \<Rightarrow> expr \<Rightarrow> expr" where
  "inst_lparams ps as = tmap (lparams_leaf ps as) 0"

lemma lift_by_0 [simp]: "lift s 0 e = e"
  unfolding lift_def by (rule tmap_id) (auto simp: lift_leaf_def split: expr.split)

lemma lower_by_0 [simp]: "lower s 0 e = e"
  unfolding lower_def by (rule tmap_id) (auto simp: lower_leaf_def split: expr.split)

lemma inst_Nil [simp]: "inst s [] e = e"
  unfolding inst_def by (rule tmap_id) (auto simp: inst_leaf_def split: expr.split)

lemma abstr_Nil [simp]: "abstr [] e = e"
  unfolding abstr_def by (rule tmap_id) (auto simp: abs_leaf_def split: expr.split)

section \<open>What is skipped does not change\<close>

lemma tmap_below:
  assumes "\<And>k n. n < s + k \<Longrightarrow> L k (EBVar n) = EBVar n"
    and "\<And>k x. tkids x k = [] \<Longrightarrow> (\<forall>n. x \<noteq> EBVar n) \<Longrightarrow> L k x = x"
  shows "loose_range e \<le> s + k \<Longrightarrow> tmap L k e = e"
  by (induction e arbitrary: k) (auto simp: assms tkids_def)

lemma lift_below: "loose_range e \<le> s + k \<Longrightarrow> tmap (lift_leaf s d) k e = e"
  by (rule tmap_below) (auto simp: lift_leaf_def split: expr.split)

lemma lower_below: "loose_range e \<le> s + k \<Longrightarrow> tmap (lower_leaf s d) k e = e"
  by (rule tmap_below) (auto simp: lower_leaf_def split: expr.split)

lemma inst_below: "loose_range e \<le> s + k \<Longrightarrow> tmap (inst_leaf s xs) k e = e"
  by (rule tmap_below) (auto simp: inst_leaf_def split: expr.split)

lemma from_end_None: "from_end x xs = None \<longleftrightarrow> x \<notin> set xs"
  by (induction xs) (auto split: option.split)

lemma from_end_less: "from_end x xs = Some i \<Longrightarrow> i < length xs"
  by (induction xs) (auto split: option.splits if_splits)

lemma abs_closed: "set xs \<inter> fvars_of e = {} \<Longrightarrow> tmap (abs_leaf xs) k e = e"
  by (induction e arbitrary: k) (auto simp: abs_leaf_def from_end_None [THEN iffD2] Int_Un_distrib)

lemma inst_level_closed:
  assumes "params_of l = {}" shows "inst_level ps as l = l"
proof (cases "has_param l 0")
  case (Inl e)
  then show ?thesis by (simp add: inst_level_def instantiate_params.simps [of l])
next
  case (Inr hp)
  with assms have "\<not> hp" by (auto dest: has_param_sound)
  with Inr show ?thesis by (simp add: inst_level_def instantiate_params.simps [of l])
qed

lemma lparams_closed: "(\<forall>l \<in> set (expr_levels e). params_of l = {}) \<Longrightarrow> tmap (lparams_leaf ps as) k e = e"
  by (induction e arbitrary: k) (auto simp: lparams_leaf_def inst_level_closed intro: map_idI)

section \<open>The cached word is exact\<close>

lemma unat_min_max: "unat (min a b) = min (unat a) (unat b)" "unat (max a b) = max (unat a) (unat b)"
  for a b :: "'a::len word"
  by (auto simp: min_def max_def word_le_nat_alt)

lemma unat_d_range_pack [simp]:
  "unat (d_loose_bvar_range (pack h r dp f em lm lp)) = min (unat r) (2 ^ 20 - 1)"
  by (simp add: unat_min_max unat_SAT)

text \<open>A saturated field says nothing; a smaller one is the range.\<close>

definition range_ok :: "u64 \<Rightarrow> nat \<Rightarrow> bool" where
  "range_ok w n \<longleftrightarrow> unat (d_loose_bvar_range w) \<le> 2 ^ 20 - 1
     \<and> (unat (d_loose_bvar_range w) < 2 ^ 20 - 1 \<longrightarrow> unat (d_loose_bvar_range w) = n)"

lemma close_one_ok:
  "range_ok w n \<Longrightarrow> unat (close_one (d_loose_bvar_range w)) \<le> 2 ^ 20 - 1
     \<and> (unat (close_one (d_loose_bvar_range w)) < 2 ^ 20 - 1 \<longrightarrow> unat (close_one (d_loose_bvar_range w)) = n - 1)"
  by (auto simp: range_ok_def unat_close_one)

lemma range_ok_data_of: "range_ok (data_of H e) (loose_range e)"
proof (induction e)
  case (EApp f a)
  then show ?case by (auto simp: range_ok_def combine_app_def Let_def unat_min_max(1) max_def word_le_nat_alt simp del: d_range_pack)
next
  case (ELam n t b bi)
  then show ?case using close_one_ok [OF ELam.IH(2)]
    by (auto simp: range_ok_def combine_binder_def Let_def unat_min_max(1) max_def word_le_nat_alt simp del: d_range_pack)
next
  case (EForallE n t b bi)
  then show ?case using close_one_ok [OF EForallE.IH(2)]
    by (auto simp: range_ok_def combine_binder_def Let_def unat_min_max(1) max_def word_le_nat_alt simp del: d_range_pack)
next
  case (ELetE n t v b nd)
  then show ?case using close_one_ok [OF ELetE.IH(3)]
    by (auto simp: range_ok_def combine_let_def Let_def unat_min_max(1) max_def word_le_nat_alt simp del: d_range_pack)
qed (auto simp: range_ok_def pass_through_def Let_def unat_bvar_loose_range simp del: d_range_pack)

lemma range_exact_data_of: "d_loose_bvar_range_exact (data_of H e) = Some r \<Longrightarrow> unat r = loose_range e"
  using range_ok_data_of [of H e]
  by (auto simp: d_loose_bvar_range_exact_def Let_def range_ok_def word_less_nat_alt unat_SAT split: if_splits)

lemma has_fvar_data_of: "d_has_fvar (data_of H e) \<longleftrightarrow> fvars_of e \<noteq> {}"
  by (induction e) (simp_all add: combine_app_def combine_binder_def combine_let_def pass_through_def Let_def)

lemma has_expr_mvar_data_of: "d_has_expr_mvar (data_of H e) \<longleftrightarrow> mvars_in e \<noteq> {}"
  by (induction e) (simp_all add: combine_app_def combine_binder_def combine_let_def pass_through_def Let_def)

lemma lvl_flags_bits:
  "bit (lvl_flags l) 0 \<longleftrightarrow> params_of l \<noteq> {}" "bit (lvl_flags l) 1 \<longleftrightarrow> mvars_of l \<noteq> {}"
  by (induction l) (auto simp: bit_or_iff)

lemma lvl_flags_low: "lvl_flags l AND 1 \<noteq> 0 \<longleftrightarrow> params_of l \<noteq> {}" "lvl_flags l AND 2 \<noteq> 0 \<longleftrightarrow> mvars_of l \<noteq> {}"
proof -
  have "w AND 1 \<noteq> 0 \<longleftrightarrow> bit w 0" "w AND 2 \<noteq> 0 \<longleftrightarrow> bit w 1" for w :: u8
    using bit_iff_and_push_bit_not_eq_0 [of w 0] bit_iff_and_push_bit_not_eq_0 [of w 1] by simp_all
  then show "lvl_flags l AND 1 \<noteq> 0 \<longleftrightarrow> params_of l \<noteq> {}" "lvl_flags l AND 2 \<noteq> 0 \<longleftrightarrow> mvars_of l \<noteq> {}"
    by (simp_all add: lvl_flags_bits [simplified])
qed

lemma has_level_param_data_of: "d_has_level_param (data_of H e) \<longleftrightarrow> (\<exists>l \<in> set (expr_levels e). params_of l \<noteq> {})"
  by (induction e)
    (auto simp: lvl_flags_low combine_app_def combine_binder_def combine_let_def pass_through_def Let_def)

lemma has_level_mvar_data_of: "d_has_level_mvar (data_of H e) \<longleftrightarrow> (\<exists>l \<in> set (expr_levels e). mvars_of l \<noteq> {})"
  by (induction e)
    (auto simp: lvl_flags_low combine_app_def combine_binder_def combine_let_def pass_through_def Let_def)

end
