(* ===== verification/Store_Properties.thy ===== *)
theory Store_Properties
  imports Store_Levels Binding
begin

text \<open>
  The properties of names, levels and metadata in a store, with runs at concrete stores. The
  hashers of the runs send everything to 0, so that every table collides as much as it can.
\<close>

definition flat_hashers :: hashers where
  "flat_hashers = \<lparr>sip_str = \<lambda>_. 0, sip_nat = \<lambda>_. 0, sip_int = \<lambda>_. 0, sip_ids = \<lambda>_. 0,
     sip_spill = \<lambda>_. 0, sip_literal = \<lambda>_. 0\<rparr>"

lemma wf_persistent: "wf H None persistent"
  by (simp add: persistent_def wf_new is_region_def)

lemma used_persistent: "used persistent = 0"
  by (simp add: persistent_def)

text \<open>C23: interning a name returns, in a well-formed store, an id of that name. It neither panics
  nor hangs, and it fails only when the name's rows do not fit in the id space that is left;
  every id that was in use keeps its meaning; and a name that the store (or its base) already
  has is found again, without a change.\<close>

theorem intern_name_contract:
  assumes "wf H base st"
  shows "case intern_name H base n st of
      Inl e \<Rightarrow> e = BankExhausted \<and> max_rows < used st + name_cost n
    | Inr (x, st') \<Rightarrow> wf H base st' \<and> grows base st st' \<and> used st' \<le> used st + name_cost n
        \<and> name_at base st' x n \<and> ((\<exists>y. name_at base st y n) \<longrightarrow> st' = st)"
  using intern_name_ok [OF assms, of n]
  by (auto simp: interns_def run_def good_def full_cases split: sum.split)

theorem intern_name_contract_witness:
  "case intern_name flat_hashers None (Num (Str Anonymous ''a'') 7) persistent of
      Inl e \<Rightarrow> e = BankExhausted \<and> max_rows < used persistent + name_cost (Num (Str Anonymous ''a'') 7)
    | Inr (x, st') \<Rightarrow> wf flat_hashers None st' \<and> grows None persistent st'
        \<and> used st' \<le> used persistent + name_cost (Num (Str Anonymous ''a'') 7)
        \<and> name_at None st' x (Num (Str Anonymous ''a'') 7)
        \<and> ((\<exists>y. name_at None persistent y (Num (Str Anonymous ''a'') 7)) \<longrightarrow> st' = persistent)"
  by (rule intern_name_contract [OF wf_persistent])

text \<open>C11: interning a level, with the explicit stack and memo of the code, ends and gives an id of
  that level, unless its rows do not fit in the id space that is left; ids in use keep their
  meaning; a known level is found again, without a change.\<close>

theorem intern_level_contract:
  assumes "wf H base st"
  shows "case intern_level H base l st of
      Inl e \<Rightarrow> e = BankExhausted \<and> max_rows < used st + level_cost l
    | Inr (i, st') \<Rightarrow> wf H base st' \<and> grows base st st' \<and> used st' \<le> used st + level_cost l
        \<and> level_at base st' i l \<and> ((\<exists>j. level_at base st j l) \<longrightarrow> st' = st)"
  using intern_level_ok [OF assms, of l]
  by (auto simp: makes_def interns_def run_def good_def full_cases split: sum.split)

theorem intern_level_contract_witness:
  "case intern_level flat_hashers None (Max (Succ Zero) (Param (Str Anonymous ''u''))) persistent of
      Inl e \<Rightarrow> e = BankExhausted \<and> max_rows < used persistent + level_cost (Max (Succ Zero) (Param (Str Anonymous ''u'')))
    | Inr (i, st') \<Rightarrow> wf flat_hashers None st' \<and> grows None persistent st'
        \<and> used st' \<le> used persistent + level_cost (Max (Succ Zero) (Param (Str Anonymous ''u'')))
        \<and> level_at None st' i (Max (Succ Zero) (Param (Str Anonymous ''u'')))
        \<and> ((\<exists>j. level_at None persistent j (Max (Succ Zero) (Param (Str Anonymous ''u'')))) \<longrightarrow> st' = persistent)"
  by (rule intern_level_contract [OF wf_persistent])

text \<open>C25: \<open>to_level\<close> rebuilds the level that \<open>intern_level\<close> stored, also after any later growth of
  the store.\<close>

theorem intern_level_roundtrip:
  assumes "wf H base st" and "intern_level H base l st = Inr (i, st1)"
    and "wf H base st2" and "grows base st1 st2"
  shows "to_level base st2 i = Inr l"
proof -
  have "level_at base st1 i l"
    using intern_level_ok [OF assms(1), of l] assms(2) unfolding makes_def by (rule internsD(4))
  then show ?thesis using to_level_ok [OF wf_banks [OF assms(3)]] level_at_grows [OF _ assms(4)] by blast
qed

text \<open>A concrete level and the runs that intern it and its successor.\<close>

definition lvl :: level where
  "lvl = IMax (Succ (Param (Str Anonymous ''u''))) (Max Zero (Succ (MVar (Str Anonymous ''m''))))"

lemma intern_level_total:
  assumes "wf H base st" and "used st + level_cost l \<le> max_rows"
  obtains i st1 where "intern_level H base l st = Inr (i, st1)" and "wf H base st1"
    and "used st1 \<le> used st + level_cost l" and "level_at base st1 i l"
  using interns_total [OF intern_level_ok [OF assms(1), of l, unfolded makes_def] assms(2)] goodD(1) by metis

lemma cost_lvl: "level_cost lvl = 11"
  by (simp add: lvl_def)

lemma room_lvl: "used persistent + level_cost lvl \<le> max_rows"
  by (simp add: used_persistent cost_lvl max_rows_def)

theorem intern_level_roundtrip_witness:
  "\<exists>i st1. intern_level flat_hashers None lvl persistent = Inr (i, st1) \<and> to_level None st1 i = Inr lvl"
  using intern_level_roundtrip [OF wf_persistent _ _ grows_refl] intern_level_total [OF wf_persistent room_lvl]
  by metis

text \<open>C12: ids are canonical: interning two levels one after the other gives the same id exactly
  when the levels are equal, so that comparing ids compares levels.\<close>

theorem intern_level_canonical:
  assumes "wf H base st" and "intern_level H base l st = Inr (i, st1)" and "intern_level H base l' st1 = Inr (j, st2)"
  shows "i = j \<longleftrightarrow> l = l'"
proof -
  note 1 = internsD [OF intern_level_ok [OF assms(1), of l, unfolded makes_def] assms(2)]
  note 2 = internsD [OF intern_level_ok [OF goodD(1) [OF 1(1)], of l', unfolded makes_def] assms(3)]
  have "level_at base st2 i l" using level_at_grows [OF 1(4) goodD(2) [OF 2(1)]] .
  then show ?thesis
    using 2(4) level_at_det level_at_inject [OF wf_banks [OF goodD(1) [OF 2(1)]]] by blast
qed

theorem intern_level_canonical_witness:
  "\<exists>i st1 j st2. intern_level flat_hashers None lvl persistent = Inr (i, st1)
     \<and> intern_level flat_hashers None (Succ lvl) st1 = Inr (j, st2) \<and> (i = j \<longleftrightarrow> lvl = Succ lvl)"
proof -
  obtain i st1 where 1: "intern_level flat_hashers None lvl persistent = Inr (i, st1)" "wf flat_hashers None st1"
    "used st1 \<le> 11" by (rule intern_level_total [OF wf_persistent room_lvl]) (auto simp: used_persistent cost_lvl)
  then have "used st1 + level_cost (Succ lvl) \<le> max_rows" by (simp add: cost_lvl max_rows_def)
  from intern_level_total [OF 1(2) this] obtain j st2 where "intern_level flat_hashers None (Succ lvl) st1 = Inr (j, st2)"
    by metis
  with 1(1) intern_level_canonical [OF wf_persistent 1(1) this] show ?thesis by blast
qed

text \<open>The flag byte kept beside a level row is exact: bit 0 says that the level has a
  parameter, bit 1 that it has a metavariable.\<close>

theorem level_flags_exact:
  assumes "wf H base st" and "level_at base st i l"
  shows "\<exists>f. level_flags base st i = Inr f \<and> (bit f 0 \<longleftrightarrow> params_of l \<noteq> {}) \<and> (bit f 1 \<longleftrightarrow> mvars_of l \<noteq> {})"
  using level_info(2) [OF assms] lvl_flags_bits by blast

theorem level_flags_exact_witness:
  "\<exists>i st1 f. intern_level flat_hashers None lvl persistent = Inr (i, st1) \<and> level_flags None st1 i = Inr f
     \<and> (bit f 0 \<longleftrightarrow> params_of lvl \<noteq> {}) \<and> (bit f 1 \<longleftrightarrow> mvars_of lvl \<noteq> {})"
  using level_flags_exact intern_level_total [OF wf_persistent room_lvl] by metis

text \<open>A metadata map that has been interned is rebuilt as it was, entry by entry and in order.\<close>

theorem intern_kvmap_roundtrip:
  assumes "wf H base st" and "intern_kvmap H base kvs st = Inr (i, st1)"
  shows "wf H base st1 \<and> grows base st st1 \<and> to_kvmap base st1 i = Inr kvs"
  using internsD [OF intern_kvmap_ok [OF assms(1)] assms(2)] to_kvmap_ok [OF wf_banks]
  by (auto simp: good_def)

definition kvs :: kvmap where
  "kvs = [(Str Anonymous ''a'', OfNat 5), (Anonymous, OfString ''a''), (Str Anonymous ''a'', OfName (Num Anonymous 5))]"

theorem intern_kvmap_roundtrip_witness:
  "\<exists>i st1. intern_kvmap flat_hashers None kvs persistent = Inr (i, st1)
     \<and> wf flat_hashers None st1 \<and> grows None persistent st1 \<and> to_kvmap None st1 i = Inr kvs"
proof -
  have "used persistent + (entries_cost kvs + 1) \<le> max_rows"
    by (simp add: used_persistent kvs_def data_cost_def max_rows_def)
  from interns_total [OF intern_kvmap_ok [OF wf_persistent, of flat_hashers kvs] this] obtain i st1 where
    "intern_kvmap flat_hashers None kvs persistent = Inr (i, st1)" by metis
  with intern_kvmap_roundtrip [OF wf_persistent this] show ?thesis by blast
qed

end
