(* ===== verification/Term_Intern.thy ===== *)
theory Term_Intern
  imports Store_Levels
begin

text \<open>
  The contracts of the row constructors \<open>expr_bvar\<close> to \<open>expr_proj\<close>: each interns the tree whose
  root it is given, and the row it makes carries the data word of that tree (\<open>terms_ok\<close>).
\<close>

section \<open>Rows\<close>

definition twf :: "hashers \<Rightarrow> store option \<Rightarrow> store \<Rightarrow> bool" where
  "twf H base st \<longleftrightarrow> wf H base st \<and> terms_ok H base st"

lemma twfD: "twf H base st \<Longrightarrow> wf H base st" "twf H base st \<Longrightarrow> terms_ok H base st" "twf H base st \<Longrightarrow> banks_ok H base st"
  by (simp_all add: twf_def wf_banks)

lemma twf_good: "twf H base st \<Longrightarrow> good H base st st' \<Longrightarrow> twf H base st'"
  by (simp add: twf_def good_def)

lemma twf_new: "is_region r \<Longrightarrow> twf H None (store_new r)"
  using wf_new [of r H]
  by (simp add: twf_def terms_ok_def term_ent_def store_new_def tb.entry_def tb.ids_def new_ents)

lemma term_interns:
  assumes twf: "twf H base st" and enc: "encodes base st (tag, a, b, c) nd"
    and e: "node_expr base st (expr_at base st) nd e" and w: "w = word_of (data_of H e)"
  shows "interns H base 1 (\<exists>i. expr_at base st i e) st (term_intern_row base tag a b c w st)
    (\<lambda>i st'. expr_at base st' i e)"
proof -
  note wf = twfD(1) [OF twf]
  let ?r = "(tag, a, b, c)" and ?h = "mix (row_hash tag a b c) w"
  let ?E = "tb.entry (map_option terms base)" and ?U = "\<lambda>t. st\<lparr>terms := t\<rparr>"
  have okb: "tb.pair_ok (map_option terms base) (terms st)" using wf_banks [OF wf] by (simp add: banks_ok_def)
  have den: "expr_at base st' i e" if "grows base st st'" "term_ent base st' i = Some ?r" for i st'
    using encodes_grows [OF enc that(1)] that(2) node_expr_grows [OF e that(1) expr_at_grows [OF _ that(1)]]
    by (intro expr_at.intros) (auto simp: node_at_def)
  have data: "term_data_at base st ?r = w" if "term_ent base st i = Some ?r" for i
  proof -
    from twfD(2) [OF twf] that obtain e' where "expr_at base st i e'" "term_data_at base st ?r = word_of (data_of H e')"
      unfolding terms_ok_def term_good_def by blast
    with den [OF grows_refl that] w show ?thesis by (auto dest: expr_at_det)
  qed
  have known: "tb.hash_at (map_option terms base) (terms st) ?r = ?h \<and> tb.pload (map_option terms base) (terms st) ?r = w"
    if "?E (terms st) i = Some ?r" for i
    using data [of i] that tb.hash_at_def [of "map_option terms base" "terms st" ?r]
      tb.pload_def [of "map_option terms base" "terms st" ?r]
    by (auto simp: term_ent_def term_data_at_def split: option.splits)
  have eqn: "term_intern_row base tag a b c w st = intern_row
      (case map_option terms base of None \<Rightarrow> Inr None | Some bs \<Rightarrow> (case ?r of (tag, a, b, c) \<Rightarrow> tb_lookup bs ?h tag a b c))
      (case ?r of (tag, a, b, c) \<Rightarrow> tb_lookup (terms st) ?h tag a b c)
      (case ?r of (tag, a, b, c) \<Rightarrow> tb_insert (terms st) ?h tag a b c w) ?U st"
    by (cases base) (simp_all add: term_intern_row_def Let_def)
  have "run (if length (tb_rows (terms st)) < max_rows then {} else {BankExhausted})
    (term_intern_row base tag a b c w st) (\<lambda>(i, st'). \<exists>t. st' = ?U t
      \<and> tb.pair_ok (map_option terms base) t \<and> tb.extends (terms st) t \<and> ?E t i = Some ?r
      \<and> tb.hash_at (map_option terms base) t ?r = ?h \<and> tb.pload (map_option terms base) t ?r = w
      \<and> (if \<exists>i. ?E (terms st) i = Some ?r then st' = st \<and> t = terms st else tb_rows t = tb_rows (terms st) @ [?r])
      \<and> (\<forall>j s. ?E t j = Some s \<longrightarrow> ?E (terms st) j = Some s \<or> j = i \<and> s = ?r))"
    unfolding eqn by (rule tb.intern_row_ok [OF okb]) (use known in simp_all)
  then have "run (full 1 st)
    (term_intern_row base tag a b c w st) (\<lambda>(i, st'). \<exists>t. st' = ?U t
      \<and> tb.pair_ok (map_option terms base) t \<and> tb.extends (terms st) t \<and> ?E t i = Some ?r
      \<and> tb.hash_at (map_option terms base) t ?r = ?h \<and> tb.pload (map_option terms base) t ?r = w
      \<and> (if \<exists>i. ?E (terms st) i = Some ?r then st' = st \<and> t = terms st else tb_rows t = tb_rows (terms st) @ [?r])
      \<and> (\<forall>j s. ?E t j = Some s \<longrightarrow> ?E (terms st) j = Some s \<or> j = i \<and> s = ?r))"
    by (rule run_mono) (auto simp: full_def used_def)
  then show ?thesis
    unfolding interns_def
  proof (rule run_mono2, elim exE conjE)
    fix i st' t
    assume st': "st' = ?U t"
    assume p: "tb.pair_ok (map_option terms base) t" "tb.extends (terms st) t" "?E t i = Some ?r"
      "tb.hash_at (map_option terms base) t ?r = ?h" "tb.pload (map_option terms base) t ?r = w"
      "if \<exists>i. ?E (terms st) i = Some ?r then st' = st \<and> t = terms st else tb_rows t = tb_rows (terms st) @ [?r]"
      "\<forall>j s. ?E t j = Some s \<longrightarrow> ?E (terms st) j = Some s \<or> j = i \<and> s = ?r"
    from wf_banks [OF wf] p(1) have ok: "banks_ok H base (?U t)" by (simp add: banks_ok_def)
    with wf_banks [OF wf] p(2) have g: "grows base st (?U t)" by (intro grows_if_extends) simp_all
    have i: "term_ent base (?U t) i = Some ?r" using p(3) by (simp add: term_ent_def)
    have wf': "wf H base (?U t)" by (rule wf_step [OF wf ok g]) (simp_all add: ent_defs)
    have "terms_ok H base (?U t)"
    proof (rule terms_ok_step [OF twfD(2) [OF twf] g])
      fix j s assume "term_ent base (?U t) j = Some s" "term_ent base st j = None"
      then have "j = i" "s = ?r" using p(7) [rule_format, of j s] by (auto simp: term_ent_def)
      with den [OF g i] p(5) w show "term_good H base (?U t) j s"
        by (auto simp: term_good_def term_data_at_def)
    qed
    with wf' g have "good H base st (?U t)" by (simp add: good_def)
    moreover have "\<exists>j. term_ent base st j = Some ?r" if "expr_at base st j e" for j
    proof -
      from that obtain nd' where nd': "node_at base st j nd'" "node_expr base st (expr_at base st) nd' e"
        by (rule expr_atE)
      have "nd' = nd"
        using expr_at_inject wf_banks [OF wf] by (intro node_expr_inject [OF wf_banks [OF wf] nd'(2) e]) blast
      with nd'(1) encodes_inject [OF wf_banks [OF wf] enc] show ?thesis by (auto simp: node_at_def)
    qed
    then have "(\<exists>j. expr_at base st j e) \<longrightarrow> st' = st"
      using p(6) by (auto simp: term_ent_def split: if_splits)
    moreover have "used (?U t) \<le> used st + 1" using p(6) by (auto simp: used_def split: if_splits)
    ultimately show "good H base st st' \<and> used st' \<le> used st + 1 \<and> ((\<exists>i. expr_at base st i e) \<longrightarrow> st' = st)
        \<and> expr_at base st' i e"
      using den [OF g i] st' by simp
  qed
qed

section \<open>Leaves\<close>

lemma known_nat_ent:
  "banks_ok H base st \<Longrightarrow> expr_at base st i (EBVar n) \<Longrightarrow> 2 ^ 32 \<le> n \<Longrightarrow> \<exists>q. nat_ent base st q = Some n"
proof (erule expr_atE)
  fix nd assume "node_expr base st (expr_at base st) nd (EBVar n)" "2 ^ 32 \<le> n"
  then show ?thesis using unsigned_less [where ?'a = nat and ?'b = 32] by (cases nd) (auto simp: linorder_not_less [symmetric])
qed

lemma expr_bvar_ok:
  assumes twf: "twf H base st"
  shows "interns H base 2 (\<exists>i. expr_at base st i (EBVar n)) st (expr_bvar H base n st)
    (\<lambda>i st'. expr_at base st' i (EBVar n))"
proof (cases "n < 2 ^ 32")
  case True
  then have "nat_as_u32 n = Some (of_nat n)" "unat (of_nat n :: u32) = n" by (simp_all add: nat_as_u32_eq unat_of_nat)
  then show ?thesis unfolding expr_bvar_def Let_def
    by (auto intro!: interns_weaken [OF term_interns [OF twf, where nd = "NBVar (of_nat n)" and e = "EBVar n"]])
next
  case False
  then have big: "nat_as_u32 n = None" "2 ^ 32 \<le> n" by (simp_all add: nat_as_u32_eq)
  show ?thesis unfolding expr_bvar_def Let_def big(1) option.case
  proof (rule interns_bind [OF intern_nat_ok [OF twfD(1) [OF twf]]])
    fix q st1 assume q: "good H base st st1" "nat_ent base st1 q = Some n" "\<exists>i. expr_at base st i (EBVar n) \<Longrightarrow> st1 = st"
    note twf1 = twf_good [OF twf q(1)]
    show "interns H base 1 (\<exists>i. expr_at base st i (EBVar n)) st1
        (term_intern_row base (pack_tag TBVarBig Default False) q 0 0
          (word_of (pack (mix TAG_BVAR (nat_lossy_u64 n)) (bvar_loose_range n) 1 False False False False)) st1)
        (\<lambda>i st'. expr_at base st' i (EBVar n))"
      by (rule interns_weaken [OF term_interns [OF twf1, where nd = "NBVarBig q"]])
        (use q big(2) ent_valid(2) [OF twfD(3) [OF twf1]] in auto)
  qed (use known_nat_ent [OF twfD(3) [OF twf]] big in auto)
qed

lemma expr_fvar_ok:
  assumes twf: "twf H base st" and n: "name_at base st x n"
  shows "interns H base 1 (\<exists>i. expr_at base st i (EFVar n)) st (expr_fvar base x st)
    (\<lambda>i st'. expr_at base st' i (EFVar n))"
  unfolding expr_fvar_def name_hash_of_ok [OF twfD(1) [OF twf] n] andthen_Inr Let_def
  by (rule term_interns [OF twf, where nd = "NFVar x"])
    (use n denotes_valid(1) [OF twfD(3) [OF twf]] in auto)

lemma expr_mvar_ok:
  assumes twf: "twf H base st" and n: "name_at base st x n"
  shows "interns H base 1 (\<exists>i. expr_at base st i (EMVar n)) st (expr_mvar base x st)
    (\<lambda>i st'. expr_at base st' i (EMVar n))"
  unfolding expr_mvar_def name_hash_of_ok [OF twfD(1) [OF twf] n] andthen_Inr Let_def
  by (rule term_interns [OF twf, where nd = "NMVar x"])
    (use n denotes_valid(1) [OF twfD(3) [OF twf]] in auto)

lemma expr_sort_ok:
  assumes twf: "twf H base st" and l: "level_at base st x l"
  shows "interns H base 1 (\<exists>i. expr_at base st i (ESort l)) st (expr_sort base x st)
    (\<lambda>i st'. expr_at base st' i (ESort l))"
  unfolding expr_sort_def level_info [OF twfD(1) [OF twf] l] andthen_Inr Let_def
  by (rule term_interns [OF twf, where nd = "NSort x"])
    (use l denotes_valid(2) [OF twfD(3) [OF twf]] in auto)

lemma fold_levels_ok:
  assumes wf: "wf H base st" and "list_all2 (level_at base st) l ls"
  shows "fold_levels base st l mv mp h = Inr (mv \<or> (\<exists>l \<in> set ls. lvl_flags l AND 2 \<noteq> 0),
    mp \<or> (\<exists>l \<in> set ls. lvl_flags l AND 1 \<noteq> 0), foldl (\<lambda>h l. mix h (lvl_hash H l)) h ls)"
  using assms(2)
  by (induction arbitrary: mv mp h rule: list_all2_induct) (simp_all add: level_info [OF wf])

lemma expr_const_ok:
  assumes twf: "twf H base st" and n: "name_at base st x n" and ls: "levels_at base st i ls"
  shows "interns H base 1 (\<exists>i. expr_at base st i (EConst n ls)) st (expr_const base x i st)
    (\<lambda>i st'. expr_at base st' i (EConst n ls))"
proof -
  from ls obtain l where l: "list_ent base st i = Some l" "list_all2 (level_at base st) l ls" by (auto simp: levels_at_def)
  show ?thesis
    unfolding expr_const_def pool_reads(4) [OF twfD(3) [OF twf] l(1)] fold_levels_ok [OF twfD(1) [OF twf] l(2)]
      name_hash_of_ok [OF twfD(1) [OF twf] n] andthen_Inr prod.case Let_def
    by (rule term_interns [OF twf, where nd = "NConst x i"])
      (use n ls denotes_valid(1,3) [OF twfD(3) [OF twf]] in auto)
qed

lemma known_literal:
  "expr_at base st i (ELit (NatVal n)) \<Longrightarrow> \<exists>q. nat_ent base st q = Some n"
  "expr_at base st i (ELit (StrVal s)) \<Longrightarrow> \<exists>q. str_ent base st q = Some s"
proof -
  fix nd
  have "node_expr base st R nd (ELit (NatVal n)) \<Longrightarrow> \<exists>q. nat_ent base st q = Some n"
    "node_expr base st R nd (ELit (StrVal s)) \<Longrightarrow> \<exists>q. str_ent base st q = Some s" for R nd
    by (cases nd; auto)+
  then show "expr_at base st i (ELit (NatVal n)) \<Longrightarrow> \<exists>q. nat_ent base st q = Some n"
    "expr_at base st i (ELit (StrVal s)) \<Longrightarrow> \<exists>q. str_ent base st q = Some s"
    by (blast elim: expr_atE)+
qed

lemma expr_lit_nat_ok:
  assumes twf: "twf H base st"
  shows "interns H base 2 (\<exists>i. expr_at base st i (ELit (NatVal n))) st (expr_lit_nat H base n st)
    (\<lambda>i st'. expr_at base st' i (ELit (NatVal n)))"
  unfolding expr_lit_nat_def Let_def
proof (rule interns_bind [OF intern_nat_ok [OF twfD(1) [OF twf]]])
  fix q st1 assume q: "good H base st st1" "nat_ent base st1 q = Some n" "\<exists>i. expr_at base st i (ELit (NatVal n)) \<Longrightarrow> st1 = st"
  note twf1 = twf_good [OF twf q(1)]
  show "interns H base 1 (\<exists>i. expr_at base st i (ELit (NatVal n))) st1
      (term_intern_row base (pack_tag TLitNat Default False) q 0 0
        (word_of (pack (mix TAG_LIT (literal_hash H (NatVal n))) 0 1 False False False False)) st1)
      (\<lambda>i st'. expr_at base st' i (ELit (NatVal n)))"
    by (rule interns_weaken [OF term_interns [OF twf1, where nd = "NLitNat q"]])
      (use q ent_valid(2) [OF twfD(3) [OF twf1]] in auto)
qed (auto dest: known_literal)

lemma expr_lit_str_ok:
  assumes twf: "twf H base st"
  shows "interns H base 2 (\<exists>i. expr_at base st i (ELit (StrVal s))) st (expr_lit_str H base s st)
    (\<lambda>i st'. expr_at base st' i (ELit (StrVal s)))"
  unfolding expr_lit_str_def Let_def
proof (rule interns_bind [OF intern_str_ok [OF twfD(1) [OF twf]]])
  fix q st1 assume q: "good H base st st1" "str_ent base st1 q = Some s" "\<exists>i. expr_at base st i (ELit (StrVal s)) \<Longrightarrow> st1 = st"
  note twf1 = twf_good [OF twf q(1)]
  show "interns H base 1 (\<exists>i. expr_at base st i (ELit (StrVal s))) st1
      (term_intern_row base (pack_tag TLitStr Default False) q 0 0
        (word_of (pack (mix TAG_LIT (literal_hash H (StrVal s))) 0 1 False False False False)) st1)
      (\<lambda>i st'. expr_at base st' i (ELit (StrVal s)))"
    by (rule interns_weaken [OF term_interns [OF twf1, where nd = "NLitStr q"]])
      (use q ent_valid(1) [OF twfD(3) [OF twf1]] in auto)
qed (auto dest: known_literal)

section \<open>Nodes with subterms\<close>

lemma expr_app_ok:
  assumes twf: "twf H base st" and f: "expr_at base st f ef" and a: "expr_at base st a ea"
  shows "interns H base 1 (\<exists>i. expr_at base st i (EApp ef ea)) st (expr_app base f a st)
    (\<lambda>i st'. expr_at base st' i (EApp ef ea))"
proof -
  note ok = twfD(3) [OF twf] twfD(2) [OF twf]
  show ?thesis
    unfolding expr_app_def expr_data_ok [OF ok f] expr_data_ok [OF ok a] andthen_Inr
    by (rule term_interns [OF twf, where nd = "NApp f a"]) (use f a denotes_valid(5) [OF ok(1)] in auto)
qed

lemma expr_lam_ok:
  assumes twf: "twf H base st" and n: "name_at base st x n" and t: "expr_at base st t et" and b: "expr_at base st b eb"
  shows "interns H base 1 (\<exists>i. expr_at base st i (ELam n et eb bi)) st (expr_lam base x t b bi st)
    (\<lambda>i st'. expr_at base st' i (ELam n et eb bi))"
proof -
  note ok = twfD(3) [OF twf] twfD(2) [OF twf]
  show ?thesis
    unfolding expr_lam_def expr_data_ok [OF ok t] expr_data_ok [OF ok b] andthen_Inr
    by (rule term_interns [OF twf, where nd = "NLam x t b bi"]) (use n t b denotes_valid(1,5) [OF ok(1)] in auto)
qed

lemma expr_forall_ok:
  assumes twf: "twf H base st" and n: "name_at base st x n" and t: "expr_at base st t et" and b: "expr_at base st b eb"
  shows "interns H base 1 (\<exists>i. expr_at base st i (EForallE n et eb bi)) st (expr_forall base x t b bi st)
    (\<lambda>i st'. expr_at base st' i (EForallE n et eb bi))"
proof -
  note ok = twfD(3) [OF twf] twfD(2) [OF twf]
  show ?thesis
    unfolding expr_forall_def expr_data_ok [OF ok t] expr_data_ok [OF ok b] andthen_Inr
    by (rule term_interns [OF twf, where nd = "NForall x t b bi"]) (use n t b denotes_valid(1,5) [OF ok(1)] in auto)
qed

lemma expr_let_ok:
  assumes twf: "twf H base st" and n: "name_at base st x n" and t: "expr_at base st t et"
    and v: "expr_at base st v ev" and b: "expr_at base st b eb"
  shows "interns H base 2 (\<exists>i. expr_at base st i (ELetE n et ev eb nd)) st (expr_let H base x t v b nd st)
    (\<lambda>i st'. expr_at base st' i (ELetE n et ev eb nd))"
proof -
  note ok = twfD(3) [OF twf] twfD(2) [OF twf]
  let ?e = "ELetE n et ev eb nd"
  show ?thesis
    unfolding expr_let_def expr_data_ok [OF ok t] expr_data_ok [OF ok v] expr_data_ok [OF ok b] andthen_Inr
  proof (rule interns_bind [OF intern_spill_ok [OF twfD(1) [OF twf]]])
    fix q st1 assume q: "good H base st st1" "spill_ent base st1 q = Some \<lparr>sp_name = x, sp_body_or_aux = b\<rparr>"
      "\<exists>i. expr_at base st i ?e \<Longrightarrow> st1 = st"
    note twf1 = twf_good [OF twf q(1)] and g = goodD(2) [OF q(1)]
    show "interns H base 1 (\<exists>i. expr_at base st i ?e) st1
        (term_intern_row base (pack_tag TLetE Default nd) t v q
          (word_of (combine_let (data_of H et) (data_of H ev) (data_of H eb))) st1)
        (\<lambda>i st'. expr_at base st' i ?e)"
      by (rule interns_weaken [OF term_interns [OF twf1, where nd = "NLetE x t v b nd"]])
        (use q n t v b denotes_valid(1,5) [OF ok(1)] ent_valid(7) [OF twfD(3) [OF twf1]] in
          \<open>auto intro: expr_at_grows [OF _ g] name_at_grows [OF _ g]\<close>)
  next
    assume "\<exists>i. expr_at base st i ?e"
    then obtain i nd' where "node_at base st i nd'" "node_expr base st (expr_at base st) nd' ?e" by (blast elim: expr_atE)
    moreover from this(2) obtain x' t' v' b' where "nd' = NLetE x' t' v' b' nd" "name_at base st x' n" "expr_at base st b' eb"
      by (cases nd') auto
    ultimately show "\<exists>j. spill_ent base st j = Some \<lparr>sp_name = x, sp_body_or_aux = b\<rparr>"
      using name_at_inject [OF ok(1) n] expr_at_inject [OF b ok(1)] by (auto simp: node_at_def)
  qed simp
qed

lemma expr_mdata_ok:
  assumes twf: "twf H base st" and k: "kvmap_denotes base st k m" and c: "expr_at base st c ec"
  shows "interns H base 1 (\<exists>i. expr_at base st i (EMData m ec)) st (expr_mdata base k c st)
    (\<lambda>i st'. expr_at base st' i (EMData m ec))"
proof -
  note ok = twfD(3) [OF twf] twfD(2) [OF twf]
  show ?thesis
    unfolding expr_mdata_def expr_data_ok [OF ok c] andthen_Inr Let_def
    by (rule term_interns [OF twf, where nd = "NMData k c"])
      (use k c denotes_valid(4,5) [OF ok(1)] in \<open>auto simp: Let_def\<close>)
qed

lemma expr_proj_ok:
  assumes twf: "twf H base st" and n: "name_at base st x n" and c: "expr_at base st c ec"
  shows "interns H base 2 (\<exists>i. expr_at base st i (EProj n k ec)) st (expr_proj H base x k c st)
    (\<lambda>i st'. expr_at base st' i (EProj n k ec))"
proof -
  note ok = twfD(3) [OF twf] twfD(2) [OF twf]
  let ?e = "EProj n k ec"
  show ?thesis
  proof (cases "k < 2 ^ 32")
    case True
    then have "nat_as_u32 k = Some (of_nat k)" "unat (of_nat k :: u32) = k"
      by (simp_all add: nat_as_u32_eq unat_of_nat)
    then show ?thesis
      unfolding expr_proj_def expr_data_ok [OF ok c] name_hash_of_ok [OF twfD(1) [OF twf] n] andthen_Inr Let_def
      by (auto intro!: interns_weaken [OF term_interns [OF twf, where nd = "NProj x (of_nat k) c" and e = ?e]]
          simp: Let_def n c denotes_valid(1) [OF ok(1) n] denotes_valid(5) [OF ok(1) c])
  next
    case False
    then have big: "nat_as_u32 k = None" "2 ^ 32 \<le> k" by (simp_all add: nat_as_u32_eq)
    show ?thesis
      unfolding expr_proj_def expr_data_ok [OF ok c] name_hash_of_ok [OF twfD(1) [OF twf] n] andthen_Inr Let_def
        big(1) option.case
    proof (rule interns_bind [OF intern_nat_ok [OF twfD(1) [OF twf]]])
      fix q st1 assume q: "good H base st st1" "nat_ent base st1 q = Some k" "\<exists>i. expr_at base st i ?e \<Longrightarrow> st1 = st"
      note twf1 = twf_good [OF twf q(1)] and g = goodD(2) [OF q(1)]
      show "interns H base 1 (\<exists>i. expr_at base st i ?e) st1
          (term_intern_row base (pack_tag TProjBig Default False) (opt_bits x) q c
            (word_of (pass_through (mix (ucast (depth_of (d_approx_depth (data_of H ec))))
                (mix (name_hash H n) (mix (nat_lossy_u64 k) (ucast (d_hash (data_of H ec))))))
              (depth_of (d_approx_depth (data_of H ec))) (data_of H ec))) st1)
          (\<lambda>i st'. expr_at base st' i ?e)"
        by (rule interns_weaken [OF term_interns [OF twf1, where nd = "NProjBig x q c"]])
          (use q n c big(2) denotes_valid(1,5) [OF ok(1)] ent_valid(2) [OF twfD(3) [OF twf1]] in
            \<open>auto simp: Let_def intro: expr_at_grows [OF _ g] name_at_grows [OF _ g]\<close>)
    next
      assume "\<exists>i. expr_at base st i ?e"
      then obtain nd' where "node_expr base st (expr_at base st) nd' ?e" by (blast elim: expr_atE)
      then show "\<exists>j. nat_ent base st j = Some k"
        using big(2) unsigned_less [where ?'a = nat and ?'b = 32]
        by (cases nd') (auto simp: linorder_not_less [symmetric])
    qed simp
  qed
qed

end
