(* ===== verification/Term_Bridge.thy ===== *)
theory Term_Bridge
  imports Term_Intern Binding
begin

text \<open>
  The two bridges between expression trees and ids: \<open>intern_expr\<close> interns a tree (its walk is an
  instance of \<open>post_order\<close>), and \<open>to_expr\<close> rebuilds it. \<open>rebuild\<close> contracts for a node with new children
  are shared with the substitution walkers.
\<close>

section \<open>The subtrees of a known tree are known\<close>

lemma known_subterm: "expr_at base st i e \<Longrightarrow> c \<in> set (expr_children e) \<Longrightarrow> \<exists>j. expr_at base st j c"
proof (erule expr_atE)
  fix nd assume "node_expr base st (expr_at base st) nd e" "c \<in> set (expr_children e)"
  then show ?thesis by (cases nd) (auto simp: expr_children_def)
qed

lemma known_parts:
  shows "expr_at base st i (EFVar n) \<Longrightarrow> \<exists>x. name_at base st x n"
    and "expr_at base st i (EMVar n) \<Longrightarrow> \<exists>x. name_at base st x n"
    and "expr_at base st i (ESort l) \<Longrightarrow> \<exists>j. level_at base st j l"
    and "expr_at base st i (EConst n ls) \<Longrightarrow> \<exists>x. name_at base st x n"
    and "expr_at base st i (EConst n ls) \<Longrightarrow> \<exists>j. levels_at base st j ls"
    and "expr_at base st i (ELam n t b bi) \<Longrightarrow> \<exists>x. name_at base st x n"
    and "expr_at base st i (EForallE n t b bi) \<Longrightarrow> \<exists>x. name_at base st x n"
    and "expr_at base st i (ELetE n t v b nd) \<Longrightarrow> \<exists>x. name_at base st x n"
    and "expr_at base st i (EMData m c) \<Longrightarrow> \<exists>j. kvmap_denotes base st j m"
    and "expr_at base st i (EProj n k c) \<Longrightarrow> \<exists>x. name_at base st x n"
proof -
  have "node_expr base st R nd (EFVar n) \<Longrightarrow> \<exists>x. name_at base st x n"
    "node_expr base st R nd (EMVar n) \<Longrightarrow> \<exists>x. name_at base st x n"
    "node_expr base st R nd (ESort l) \<Longrightarrow> \<exists>j. level_at base st j l"
    "node_expr base st R nd (EConst n ls) \<Longrightarrow> (\<exists>x. name_at base st x n) \<and> (\<exists>j. levels_at base st j ls)"
    "node_expr base st R nd (ELam n t b bi) \<Longrightarrow> \<exists>x. name_at base st x n"
    "node_expr base st R nd (EForallE n t b bi) \<Longrightarrow> \<exists>x. name_at base st x n"
    "node_expr base st R nd (ELetE n t v b d) \<Longrightarrow> \<exists>x. name_at base st x n"
    "node_expr base st R nd (EMData m c) \<Longrightarrow> \<exists>j. kvmap_denotes base st j m"
    "node_expr base st R nd (EProj n k c) \<Longrightarrow> \<exists>x. name_at base st x n" for nd R n l ls t b bi v d m c k
    by (cases nd; auto)+
  note parts = this
  show "expr_at base st i (EFVar n) \<Longrightarrow> \<exists>x. name_at base st x n"
    "expr_at base st i (EMVar n) \<Longrightarrow> \<exists>x. name_at base st x n"
    "expr_at base st i (ESort l) \<Longrightarrow> \<exists>j. level_at base st j l"
    "expr_at base st i (EConst n ls) \<Longrightarrow> \<exists>x. name_at base st x n"
    "expr_at base st i (EConst n ls) \<Longrightarrow> \<exists>j. levels_at base st j ls"
    "expr_at base st i (ELam n t b bi) \<Longrightarrow> \<exists>x. name_at base st x n"
    "expr_at base st i (EForallE n t b bi) \<Longrightarrow> \<exists>x. name_at base st x n"
    "expr_at base st i (ELetE n t v b nd) \<Longrightarrow> \<exists>x. name_at base st x n"
    "expr_at base st i (EMData m c) \<Longrightarrow> \<exists>j. kvmap_denotes base st j m"
    "expr_at base st i (EProj n k c) \<Longrightarrow> \<exists>x. name_at base st x n"
    by (erule expr_atE, drule parts, blast)+
qed

section \<open>Lists of levels\<close>

fun levels_cost :: "level list \<Rightarrow> nat" where
  "levels_cost [] = 0"
| "levels_cost (l # ls) = level_cost l + levels_cost ls"

lemma intern_levels_ok:
  "wf H base st \<Longrightarrow> list_all2 (level_at base st) ids done_ls \<Longrightarrow>
     interns H base (levels_cost ls) (\<forall>l \<in> set ls. \<exists>i. level_at base st i l) st (intern_levels H base ls ids st)
       (\<lambda>ids' st'. list_all2 (level_at base st') ids' (done_ls @ ls))"
proof (induction ls arbitrary: st ids done_ls)
  case Nil
  then show ?case by (simp add: interns_return)
next
  case (Cons l ls)
  let ?K = "\<forall>k \<in> set (l # ls). \<exists>i. level_at base st i k"
  show ?case unfolding intern_levels.simps levels_cost.simps
  proof (rule interns_bind [OF intern_level_ok [OF Cons.prems(1), unfolded makes_def]])
    fix i st1 assume i: "good H base st st1" "level_at base st1 i l" "?K \<Longrightarrow> st1 = st"
    have "list_all2 (level_at base st1) (ids @ [i]) (done_ls @ [l])"
      using list_level_at_grows [OF Cons.prems(2) goodD(2) [OF i(1)]] i(2) by (simp add: list_all2_appendI)
    from Cons.IH [OF goodD(1) [OF i(1)] this]
    show "interns H base (levels_cost ls) ?K st1 (intern_levels H base ls (ids @ [i]) st1)
        (\<lambda>ids' st'. list_all2 (level_at base st') ids' (done_ls @ l # ls))"
      by (rule interns_weaken) (use i(3) in auto)
  qed auto
qed

lemma levels_at_known: "levels_at base st j ls \<Longrightarrow> l \<in> set ls \<Longrightarrow> \<exists>i. level_at base st i l"
  by (auto simp: levels_at_def list_all2_conv_all_nth in_set_conv_nth)

text \<open>The id of a list of levels: the walk of the levels, then the pool.\<close>

lemma intern_level_lists_ok:
  assumes wf: "wf H base st"
  shows "interns H base (levels_cost ls + 1) (\<exists>j. levels_at base st j ls) st
    (andthen (intern_levels H base ls [] st) (\<lambda>(ids, st). intern_level_list H base ids st))
    (\<lambda>j st'. levels_at base st' j ls)"
proof (rule interns_bind [OF intern_levels_ok [OF wf, where done_ls = "[]"]])
  let ?K = "\<exists>j. levels_at base st j ls"
  fix ids st1 assume 1: "good H base st st1" "list_all2 (level_at base st1) ids ([] @ ls)" "?K \<Longrightarrow> st1 = st"
  then have ids: "list_all2 (level_at base st1) ids ls" by simp
  have "\<exists>j. list_ent base st1 j = Some ids" if ?K
    using that 1(3) [OF that] list_level_at_inject [OF wf_banks [OF wf] ids [unfolded 1(3) [OF that]]]
    by (auto simp: levels_at_def)
  then show "interns H base 1 ?K st1 (intern_level_list H base ids st1) (\<lambda>j st'. levels_at base st' j ls)"
    by (intro interns_weaken [OF intern_level_list_ok [OF goodD(1) [OF 1(1)] ids]]) auto
qed (auto dest: levels_at_known)

section \<open>The walk that interns a tree\<close>

definition own_expr_cost :: "expr \<Rightarrow> nat" where
  "own_expr_cost e =
     (case e of
        EBVar _ \<Rightarrow> 2 | EFVar n \<Rightarrow> name_cost n + 1 | EMVar n \<Rightarrow> name_cost n + 1 | ESort l \<Rightarrow> level_cost l + 1
      | EConst n ls \<Rightarrow> name_cost n + (levels_cost ls + 2) | EApp _ _ \<Rightarrow> 1 | ELam n _ _ _ \<Rightarrow> name_cost n + 1
      | EForallE n _ _ _ \<Rightarrow> name_cost n + 1 | ELetE n _ _ _ _ \<Rightarrow> name_cost n + 2 | ELit _ \<Rightarrow> 2
      | EMData m _ \<Rightarrow> entries_cost m + 2 | EProj n _ _ \<Rightarrow> name_cost n + 2)"

fun expr_cost :: "expr \<Rightarrow> nat" where
  "expr_cost (EApp f a) = 1 + expr_cost f + expr_cost a"
| "expr_cost (ELam n t b bi) = name_cost n + 1 + expr_cost t + expr_cost b"
| "expr_cost (EForallE n t b bi) = name_cost n + 1 + expr_cost t + expr_cost b"
| "expr_cost (ELetE n t v b nd) = name_cost n + 2 + expr_cost t + expr_cost v + expr_cost b"
| "expr_cost (EMData m c) = entries_cost m + 2 + expr_cost c"
| "expr_cost (EProj n k c) = name_cost n + 2 + expr_cost c"
| "expr_cost (EConst n ls) = name_cost n + (levels_cost ls + 2)"
| "expr_cost (ESort l) = level_cost l + 1"
| "expr_cost (EFVar n) = name_cost n + 1"
| "expr_cost (EMVar n) = name_cost n + 1"
| "expr_cost _ = 2"

lemma expr_cost_eq: "expr_cost e = own_expr_cost e + sum_list (map expr_cost (expr_children e))"
  by (cases e) (simp_all add: own_expr_cost_def expr_children_def)

definition interns_expr ::
    "hashers \<Rightarrow> store option \<Rightarrow> nat \<Rightarrow> store \<Rightarrow> expr \<Rightarrow> u32 list \<Rightarrow> ((u32 \<times> u32 list) \<times> store) result \<Rightarrow> bool" where
  "interns_expr H base c st e out m \<longleftrightarrow> interns H base c (\<exists>i. expr_at base st i e) st m
     (\<lambda>(i, out') st'. out' = out \<and> expr_at base st' i e)"

lemma interns_expr_out:
  assumes "interns H base c (\<exists>i. expr_at base st i e) st m (\<lambda>i st'. expr_at base st' i e)"
  shows "interns_expr H base c st e out (andthen m (\<lambda>(i, st). Inr ((i, out), st)))"
  unfolding interns_expr_def by (rule interns_out [OF assms order_refl])

lemma interns_expr_named:
  assumes twf: "twf H base st"
    and m: "\<And>x st1. twf H base st1 \<Longrightarrow> grows base st st1 \<Longrightarrow> name_at base st1 x n \<Longrightarrow>
      interns H base c (\<exists>i. expr_at base st1 i e) st1 (m x st1) (\<lambda>i st'. expr_at base st' i e)"
    and old: "\<And>i. expr_at base st i e \<Longrightarrow> \<exists>y. name_at base st y n"
  shows "interns_expr H base (name_cost n + c) st e out
    (andthen (intern_name H base n st) (\<lambda>(x, st). andthen (m x st) (\<lambda>(i, st). Inr ((i, out), st))))"
  unfolding interns_expr_def
  by (rule interns_named [OF twfD(1) [OF twf] m [OF twf_good [OF twf] goodD(2)]]) (use old in auto)

lemma exit_sort:
  assumes twf: "twf H base st"
  shows "interns_expr H base (level_cost l + 1) st (ESort l) out
    (andthen (intern_level H base l st) (\<lambda>(l, st). andthen (expr_sort base l st) (\<lambda>(i, st). Inr ((i, out), st))))"
  unfolding interns_expr_def
proof (rule interns_bind [OF intern_level_ok [OF twfD(1) [OF twf], unfolded makes_def]])
  let ?K = "\<exists>i. expr_at base st i (ESort l)"
  fix j st1 assume 1: "good H base st st1" "level_at base st1 j l" "?K \<Longrightarrow> st1 = st"
  show "interns H base 1 ?K st1 (andthen (expr_sort base j st1) (\<lambda>(i, st). Inr ((i, out), st)))
      (\<lambda>(i, out') st'. out' = out \<and> expr_at base st' i (ESort l))"
    by (rule interns_out [OF expr_sort_ok [OF twf_good [OF twf 1(1)] 1(2)]]) (use 1(3) in auto)
qed (auto dest: known_parts)

lemma exit_const:
  assumes twf: "twf H base st"
  shows "interns_expr H base (name_cost n + (levels_cost ls + 2)) st (EConst n ls) out
    (andthen (intern_name H base n st) (\<lambda>(n, st).
     andthen (intern_levels H base ls [] st) (\<lambda>(ids, st).
     andthen (intern_level_list H base ids st) (\<lambda>(ls, st).
     andthen (expr_const base n ls st) (\<lambda>(i, st). Inr ((i, out), st))))))"
  unfolding interns_expr_def
proof (rule interns_bind [OF intern_name_ok [OF twfD(1) [OF twf]]])
  let ?K = "\<exists>i. expr_at base st i (EConst n ls)"
  let ?Q = "\<lambda>(i, out') st'. out' = out \<and> expr_at base st' i (EConst n ls)"
  fix x st1 assume 1: "good H base st st1" "name_at base st1 x n" "?K \<Longrightarrow> st1 = st"
  note twf1 = twf_good [OF twf 1(1)]
  have "interns H base (levels_cost ls + 2) ?K st1
      (andthen (andthen (intern_levels H base ls [] st1) (\<lambda>(ids, st). intern_level_list H base ids st))
        (\<lambda>(j, st). andthen (expr_const base x j st) (\<lambda>(i, st). Inr ((i, out), st)))) ?Q"
  proof (rule interns_bind [OF intern_level_lists_ok [OF twfD(1) [OF twf1]]])
    fix j st2 assume 2: "good H base st1 st2" "levels_at base st2 j ls" "?K \<Longrightarrow> st2 = st1"
    show "interns H base 1 ?K st2 (andthen (expr_const base x j st2) (\<lambda>(i, st). Inr ((i, out), st))) ?Q"
      by (rule interns_out [OF expr_const_ok [OF twf_good [OF twf1 2(1)] name_at_grows [OF 1(2) goodD(2) [OF 2(1)]] 2(2)]])
        (use 1(3) 2(3) in auto)
  qed (use 1(3) in \<open>auto dest: known_parts\<close>)
  then show "interns H base (levels_cost ls + 2) ?K st1
      (andthen (intern_levels H base ls [] st1) (\<lambda>(ids, st). andthen (intern_level_list H base ids st)
        (\<lambda>(j, st). andthen (expr_const base x j st) (\<lambda>(i, st). Inr ((i, out), st))))) ?Q"
    by (simp add: andthen_assoc split_def)
qed (auto dest: known_parts)

lemma exit_mdata:
  assumes twf: "twf H base st" and c: "expr_at base st c ec"
  shows "interns_expr H base (entries_cost m + 2) st (EMData m ec) out
    (andthen (intern_kvmap H base m st) (\<lambda>(d, st). andthen (expr_mdata base d c st) (\<lambda>(i, st). Inr ((i, out), st))))"
  unfolding interns_expr_def
proof (rule interns_bind [OF intern_kvmap_ok [OF twfD(1) [OF twf]]])
  let ?K = "\<exists>i. expr_at base st i (EMData m ec)"
  fix j st1 assume 1: "good H base st st1" "kvmap_denotes base st1 j m" "?K \<Longrightarrow> st1 = st"
  show "interns H base 1 ?K st1 (andthen (expr_mdata base j c st1) (\<lambda>(i, st). Inr ((i, out), st)))
      (\<lambda>(i, out') st'. out' = out \<and> expr_at base st' i (EMData m ec))"
    by (rule interns_out [OF expr_mdata_ok [OF twf_good [OF twf 1(1)] 1(2) expr_at_grows [OF c goodD(2) [OF 1(1)]]]])
      (use 1(3) in auto)
qed (auto dest: known_parts)

lemma grown_children:
  "list_all2 (expr_at base st) ids es \<Longrightarrow> grows base st st' \<Longrightarrow> list_all2 (expr_at base st') ids es"
  by (erule list_all2_mono) (rule expr_at_grows)

lemma exit_expr_ok:
  assumes twf: "twf H base st" and ids: "list_all2 (expr_at base st) ids (expr_children e)"
  shows "interns_expr H base (own_expr_cost e) st e out (exit_expr H base e (rev ids @ out) st)"
proof (cases e)
  case (EBVar n)
  with ids interns_expr_out [OF expr_bvar_ok [OF twf]] show ?thesis
    by (simp add: exit_expr_def expr_children_def own_expr_cost_def)
next
  case (EFVar n)
  have "interns_expr H base (name_cost n + 1) st (EFVar n) out
      (andthen (intern_name H base n st) (\<lambda>(n, st). andthen (expr_fvar base n st) (\<lambda>(i, st). Inr ((i, out), st))))"
    by (rule interns_expr_named [OF twf expr_fvar_ok]) (auto dest: known_parts)
  with ids EFVar show ?thesis by (simp add: exit_expr_def expr_children_def own_expr_cost_def)
next
  case (EMVar n)
  have "interns_expr H base (name_cost n + 1) st (EMVar n) out
      (andthen (intern_name H base n st) (\<lambda>(n, st). andthen (expr_mvar base n st) (\<lambda>(i, st). Inr ((i, out), st))))"
    by (rule interns_expr_named [OF twf expr_mvar_ok]) (auto dest: known_parts)
  with ids EMVar show ?thesis by (simp add: exit_expr_def expr_children_def own_expr_cost_def)
next
  case (ESort l)
  with ids exit_sort [OF twf] show ?thesis
    by (simp add: exit_expr_def expr_children_def own_expr_cost_def)
next
  case (EConst n ls)
  with ids exit_const [OF twf] show ?thesis
    by (simp add: exit_expr_def expr_children_def own_expr_cost_def)
next
  case (EApp f a)
  with ids obtain i j where i: "ids = [i, j]" "expr_at base st i f" "expr_at base st j a"
    by (auto simp: expr_children_def list_all2_Cons2)
  with EApp interns_expr_out [OF expr_app_ok [OF twf i(2,3)]] show ?thesis
    by (simp add: exit_expr_def pop_def own_expr_cost_def)
next
  case (ELam n t b bi)
  with ids obtain i j where i: "ids = [i, j]" "expr_at base st i t" "expr_at base st j b"
    by (auto simp: expr_children_def list_all2_Cons2)
  have "interns_expr H base (name_cost n + 1) st (ELam n t b bi) out
      (andthen (intern_name H base n st) (\<lambda>(n, st). andthen (expr_lam base n i j bi st) (\<lambda>(i, st). Inr ((i, out), st))))"
    by (rule interns_expr_named [OF twf expr_lam_ok])
      (use i in \<open>auto dest: known_parts intro: expr_at_grows\<close>)
  with ELam i(1) show ?thesis by (simp add: exit_expr_def pop_def own_expr_cost_def)
next
  case (EForallE n t b bi)
  with ids obtain i j where i: "ids = [i, j]" "expr_at base st i t" "expr_at base st j b"
    by (auto simp: expr_children_def list_all2_Cons2)
  have "interns_expr H base (name_cost n + 1) st (EForallE n t b bi) out
      (andthen (intern_name H base n st) (\<lambda>(n, st). andthen (expr_forall base n i j bi st) (\<lambda>(i, st). Inr ((i, out), st))))"
    by (rule interns_expr_named [OF twf expr_forall_ok])
      (use i in \<open>auto dest: known_parts intro: expr_at_grows\<close>)
  with EForallE i(1) show ?thesis by (simp add: exit_expr_def pop_def own_expr_cost_def)
next
  case (ELetE n t v b nd)
  with ids obtain i j k where i: "ids = [i, j, k]" "expr_at base st i t" "expr_at base st j v" "expr_at base st k b"
    by (auto simp: expr_children_def list_all2_Cons2)
  have "interns_expr H base (name_cost n + 2) st (ELetE n t v b nd) out
      (andthen (intern_name H base n st) (\<lambda>(n, st). andthen (expr_let H base n i j k nd st) (\<lambda>(i, st). Inr ((i, out), st))))"
    by (rule interns_expr_named [OF twf expr_let_ok])
      (use i in \<open>auto dest: known_parts intro: expr_at_grows\<close>)
  with ELetE i(1) show ?thesis by (simp add: exit_expr_def pop_def own_expr_cost_def)
next
  case (ELit l)
  with ids interns_expr_out [OF expr_lit_nat_ok [OF twf]] interns_expr_out [OF expr_lit_str_ok [OF twf]] show ?thesis
    by (cases l) (simp_all add: exit_expr_def expr_children_def own_expr_cost_def)
next
  case (EMData m c)
  with ids obtain i where i: "ids = [i]" "expr_at base st i c"
    by (auto simp: expr_children_def list_all2_Cons2)
  with EMData exit_mdata [OF twf i(2)] show ?thesis
    by (simp add: exit_expr_def pop_def own_expr_cost_def)
next
  case (EProj n k c)
  with ids obtain i where i: "ids = [i]" "expr_at base st i c"
    by (auto simp: expr_children_def list_all2_Cons2)
  have "interns_expr H base (name_cost n + 2) st (EProj n k c) out
      (andthen (intern_name H base n st) (\<lambda>(n, st). andthen (expr_proj H base n k i st) (\<lambda>(i, st). Inr ((i, out), st))))"
    by (rule interns_expr_named [OF twf expr_proj_ok])
      (use i in \<open>auto dest: known_parts intro: expr_at_grows\<close>)
  with EProj i(1) show ?thesis by (simp add: exit_expr_def pop_def own_expr_cost_def)
qed

interpretation expr_walk: post_order H base "twf H base" "expr_at base" "\<lambda>_. True" "\<lambda>_. None" expr_children own_expr_cost expr_cost
  "exit_expr H base" "intern_expr_loop H base" for H base
proof
  show "0 < own_expr_cost t" for t by (cases t) (simp_all add: own_expr_cost_def)
  show "expr_cost t = own_expr_cost t + sum_list (map expr_cost (expr_children t))" for t by (rule expr_cost_eq)
qed (auto intro: expr_at_grows known_subterm exit_expr_ok [unfolded interns_expr_def] twfD(1) twf_good split del: option.split)

lemma intern_expr_ok:
  assumes "twf H base st"
  shows "interns H base (expr_cost e) (\<exists>i. expr_at base st i e) st (intern_expr H base e st)
    (\<lambda>i st'. expr_at base st' i e)"
  unfolding intern_expr_def by (rule expr_walk.walk_ok [OF assms]) simp

section \<open>The walk that rebuilds a tree\<close>

lemma node_children_at:
  "node_expr base st (expr_at base st) nd e \<Longrightarrow> list_all2 (expr_at base st) (node_children nd) (expr_children e)"
  by (cases nd) (auto simp: node_children_def expr_children_def)

text \<open>
  The levels of a tree are the only part on which \<open>to_expr\<close> can fail: \<open>too_deep d e\<close> holds when one
  of them does not fit under the guard.
\<close>

definition too_deep :: "nat \<Rightarrow> expr \<Rightarrow> bool" where
  "too_deep d e \<longleftrightarrow> (\<exists>l \<in> set (expr_levels e). MAX_REC_DEPTH < d + hgt l)"

lemma too_deep_child: "c \<in> set (expr_children e) \<Longrightarrow> too_deep d c \<Longrightarrow> too_deep d e"
  by (cases e) (auto simp: expr_children_def too_deep_def)

lemma has_param_error: "has_param l d = Inl e \<Longrightarrow> e = DeepRecursion"
  by (induction l d rule: has_param.induct) (auto simp: enter_def or_else_def andthen_eq_Inl_iff split: if_splits)

lemma has_mvar_error: "has_mvar l d = Inl e \<Longrightarrow> e = DeepRecursion"
  by (induction l d rule: has_mvar.induct) (auto simp: enter_def or_else_def andthen_eq_Inl_iff split: if_splits)

lemma hash_walk_error: "hash_walk l d = Inl e \<Longrightarrow> e = DeepRecursion"
  by (induction l d rule: hash_walk.induct) (auto simp: enter_def andthen_eq_Inl_iff split: if_splits)

lemma hash_walk_total: "d + hgt l \<le> MAX_REC_DEPTH \<Longrightarrow> hash_walk l d = Inr ()"
  by (induction l d rule: hash_walk.induct) (auto simp: enter_def)

lemma level_info_walks_ok:
  "run (if MAX_REC_DEPTH < d + hgt l then {DeepRecursion} else {}) (level_info_walks l d) (\<lambda>_. True)"
proof (cases "MAX_REC_DEPTH < d + hgt l")
  case True
  then show ?thesis unfolding level_info_walks_def run_andthen
    by (cases "has_mvar l d"; cases "has_param l d"; cases "hash_walk l d")
      (auto dest: has_mvar_error has_param_error hash_walk_error)
next
  case False
  then show ?thesis
    by (simp add: level_info_walks_def has_mvar_total has_param_total hash_walk_total)
qed

lemma levels_info_walks_ok:
  "run (if \<exists>l \<in> set ls. MAX_REC_DEPTH < d + hgt l then {DeepRecursion} else {}) (levels_info_walks ls d) (\<lambda>_. True)"
proof (induction ls)
  case (Cons l ls)
  show ?case unfolding levels_info_walks.simps run_andthen
    by (rule run_mono [OF level_info_walks_ok]) (use Cons in \<open>auto intro: run_mono split: if_splits\<close>)
qed simp

lemma to_levels_ok: "banks_ok H base st \<Longrightarrow> list_all2 (level_at base st) ids ls \<Longrightarrow> to_levels base st ids = Inr ls"
  by (induction ids arbitrary: ls) (auto simp: list_all2_Cons1 to_level_ok)

lemma exit_node_ok:
  assumes ok: "banks_ok H base st" and nd: "node_expr base st (expr_at base st) nd e"
  shows "run (if too_deep d e then {DeepRecursion} else {}) (exit_node base st d nd (rev (expr_children e) @ out))
    (\<lambda>r. r = (e, out))"
proof (cases nd)
  case (NSort i)
  with nd obtain l where l: "e = ESort l" "level_at base st i l" by auto
  with NSort level_info_walks_ok [of d l] show ?thesis
    by (simp add: exit_node_def expr_children_def to_level_ok [OF ok] arc_sort_def run_andthen too_deep_def)
next
  case (NConst x i)
  with nd obtain n ls ids where l: "e = EConst n ls" "name_at base st x n" "list_ent base st i = Some ids"
    "list_all2 (level_at base st) ids ls" by (auto simp: levels_at_def)
  with NConst levels_info_walks_ok [of ls d] show ?thesis
    by (simp add: exit_node_def expr_children_def to_name_ok [OF ok] pool_reads(4) [OF ok] to_levels_ok [OF ok]
        arc_const_def run_andthen too_deep_def)
qed (use nd in \<open>auto simp: exit_node_def expr_children_def pop_def to_name_ok [OF ok] pool_reads [OF ok]
      to_kvmap_ok [OF ok]\<close>)

definition rebuilt_expr :: "store option \<Rightarrow> store \<Rightarrow> (u32 \<rightharpoonup> expr) \<Rightarrow> bool" where
  "rebuilt_expr base st memo \<longleftrightarrow> (\<forall>i e. memo i = Some e \<longrightarrow> expr_at base st i e)"

definition reads :: "store option \<Rightarrow> store \<Rightarrow> nat \<Rightarrow> expr \<Rightarrow> bool" where
  "reads base st d e \<longleftrightarrow> (\<forall>i stack out memo. expr_at base st i e \<longrightarrow> rebuilt_expr base st memo \<longrightarrow>
     to_expr_loop base st d (Enter i # stack) out memo = Some (Inl DeepRecursion) \<and> too_deep d e
   \<or> (\<exists>memo'. to_expr_loop base st d (Enter i # stack) out memo = to_expr_loop base st d stack (e # out) memo'
        \<and> rebuilt_expr base st memo'))"

lemma reads_children:
  "\<forall>e \<in> set es. reads base st d e \<Longrightarrow> list_all2 (expr_at base st) ids es \<Longrightarrow> rebuilt_expr base st memo \<Longrightarrow>
     to_expr_loop base st d (map Enter ids @ stack) out memo = Some (Inl DeepRecursion) \<and> (\<exists>e \<in> set es. too_deep d e)
   \<or> (\<exists>memo'. to_expr_loop base st d (map Enter ids @ stack) out memo = to_expr_loop base st d stack (rev es @ out) memo'
        \<and> rebuilt_expr base st memo')"
proof (induction es arbitrary: ids out memo)
  case (Cons e es)
  from Cons.prems(2) obtain i js where ids: "ids = i # js" "expr_at base st i e" "list_all2 (expr_at base st) js es"
    by (auto simp: list_all2_Cons2)
  from Cons.prems(1) have "reads base st d e" by simp
  with ids(2) Cons.prems(3) have
    "to_expr_loop base st d (Enter i # map Enter js @ stack) out memo = Some (Inl DeepRecursion) \<and> too_deep d e
   \<or> (\<exists>memo'. to_expr_loop base st d (Enter i # map Enter js @ stack) out memo =
        to_expr_loop base st d (map Enter js @ stack) (e # out) memo' \<and> rebuilt_expr base st memo')"
    unfolding reads_def by blast
  moreover have "\<forall>e \<in> set es. reads base st d e" using Cons.prems(1) by simp
  note Cons.IH [OF this ids(3)]
  ultimately show ?case unfolding ids(1) by fastforce
qed auto

lemma reads_all: "reads base st d e" if ok: "banks_ok H base st"
proof (induction e rule: measure_induct_rule [of expr_weight])
  case (less e)
  have smaller: "c \<in> set (expr_children e) \<Longrightarrow> expr_weight c < expr_weight e" for c
    by (cases e) (auto simp: expr_children_def)
  show ?case unfolding reads_def
  proof (intro allI impI)
    fix i stack out memo
    assume i: "expr_at base st i e" and memo: "rebuilt_expr base st memo"
    let ?loop = "to_expr_loop base st d"
    let ?goal = "\<lambda>m. m = Some (Inl DeepRecursion) \<and> too_deep d e
      \<or> (\<exists>memo'. m = ?loop stack (e # out) memo' \<and> rebuilt_expr base st memo')"
    from i obtain nd where nd: "node_at base st i nd" "node_expr base st (expr_at base st) nd e" by (rule expr_atE)
    note node = expr_node_ok [OF ok nd(1)]
    show "?goal (?loop (Enter i # stack) out memo)"
    proof (cases "memo i")
      case (Some e')
      with memo i have "e' = e" by (auto simp: rebuilt_expr_def dest: expr_at_det)
      with Some memo show ?thesis by (subst to_expr_loop.simps) auto
    next
      case None
      then have step: "?loop (Enter i # stack) out memo = ?loop (map Enter (node_children nd) @ Exit i # stack) out memo"
        by (subst to_expr_loop.simps) (simp add: node)
      have "\<forall>c \<in> set (expr_children e). reads base st d c" using less smaller by blast
      from reads_children [OF this node_children_at [OF nd(2)] memo, of "Exit i # stack" out] show ?thesis
      proof (elim disjE exE conjE)
        fix memo1
        assume 1: "?loop (map Enter (node_children nd) @ Exit i # stack) out memo =
          ?loop (Exit i # stack) (rev (expr_children e) @ out) memo1" "rebuilt_expr base st memo1"
        have "?loop (Exit i # stack) (rev (expr_children e) @ out) memo1 =
            (case exit_node base st d nd (rev (expr_children e) @ out) of Inl err \<Rightarrow> Some (Inl err)
             | Inr (e, out) \<Rightarrow> ?loop stack (e # out) (memo1(i \<mapsto> e)))"
          by (subst to_expr_loop.simps) (simp add: node)
        moreover have "rebuilt_expr base st (memo1(i \<mapsto> e))" using 1(2) i by (simp add: rebuilt_expr_def)
        ultimately show ?thesis
          using exit_node_ok [OF ok nd(2), of d out] step 1(1)
          by (cases "exit_node base st d nd (rev (expr_children e) @ out)") (auto split: if_splits)
      qed (use step too_deep_child in auto)
    qed
  qed
qed

lemma to_expr_ok:
  assumes "banks_ok H base st" and "expr_at base st i e"
  shows "run (if too_deep d e then {DeepRecursion} else {}) (to_expr base st i d) (\<lambda>e'. e' = e)"
proof -
  have "rebuilt_expr base st (\<lambda>_. None)" by (simp add: rebuilt_expr_def)
  with reads_all [OF assms(1), of d e] assms(2) have
    "to_expr_loop base st d [Enter i] [] (\<lambda>_. None) = Some (Inl DeepRecursion) \<and> too_deep d e
   \<or> (\<exists>memo'. to_expr_loop base st d [Enter i] [] (\<lambda>_. None) = to_expr_loop base st d [] [e] memo')"
    unfolding reads_def by blast
  moreover have "to_expr_loop base st d [] [e] memo' = Some (Inr [e])" for memo' by (subst to_expr_loop.simps) simp
  ultimately show ?thesis by (auto simp: to_expr_def pop_def)
qed

end
