(* ===== verification/Term_Properties.thy ===== *)
theory Term_Properties
  imports Term_Bridge Store_Properties
begin

text \<open>
  The properties of term rows: the bridges between trees and ids, the decoding of a row, the cached
  data word, the tag byte and the id table, with runs at concrete stores.
\<close>

section \<open>A concrete tree\<close>

definition tree :: expr where
  "tree = ELam (Str Anonymous ''x'') (ESort (Succ (Param (Str Anonymous ''u''))))
     (EApp (EFVar (Num Anonymous 3)) (EApp (EBVar 0) (EBVar 5000000000))) Implicit"

lemma twf_persistent: "twf H None persistent"
  by (simp add: persistent_def twf_new is_region_def)

lemma cost_tree: "expr_cost tree = 17"
  by (simp add: tree_def)

lemma room_tree: "used persistent + expr_cost tree \<le> max_rows"
  by (simp add: used_persistent cost_tree max_rows_def)

lemma intern_expr_total:
  assumes "twf H base st" and "used st + expr_cost e \<le> max_rows"
  obtains i st1 where "intern_expr H base e st = Inr (i, st1)" and "twf H base st1"
    and "used st1 \<le> used st + expr_cost e" and "expr_at base st1 i e"
  using interns_total [OF intern_expr_ok [OF assms(1), of e] assms(2)] twf_good [OF assms(1)] by metis

section \<open>The bridges\<close>

text \<open>C8: interning a tree, with the explicit stack and memo of the code, ends and gives an id of
  that tree in a well-formed store, unless its rows do not fit in the id space that is left; ids in
  use keep their meaning; a known tree is found again, without a change.\<close>

theorem intern_expr_contract:
  assumes "twf H base st"
  shows "case intern_expr H base e st of
      Inl err \<Rightarrow> err = BankExhausted \<and> max_rows < used st + expr_cost e
    | Inr (i, st') \<Rightarrow> twf H base st' \<and> grows base st st' \<and> used st' \<le> used st + expr_cost e
        \<and> expr_at base st' i e \<and> ((\<exists>j. expr_at base st j e) \<longrightarrow> st' = st)"
  using intern_expr_ok [OF assms, of e] twf_good [OF assms]
  by (auto simp: interns_def run_def good_def full_cases split: sum.split)

theorem intern_expr_contract_witness:
  "case intern_expr flat_hashers None tree persistent of
      Inl err \<Rightarrow> err = BankExhausted \<and> max_rows < used persistent + expr_cost tree
    | Inr (i, st') \<Rightarrow> twf flat_hashers None st' \<and> grows None persistent st'
        \<and> used st' \<le> used persistent + expr_cost tree
        \<and> expr_at None st' i tree \<and> ((\<exists>j. expr_at None persistent j tree) \<longrightarrow> st' = persistent)"
  by (rule intern_expr_contract [OF twf_persistent])

text \<open>C9: ids of terms are canonical: interning two trees one after the other gives the same id
  exactly when the trees are equal (names, binder annotations and metadata included).\<close>

theorem intern_expr_canonical:
  assumes "twf H base st" and "intern_expr H base e st = Inr (i, st1)" and "intern_expr H base e' st1 = Inr (j, st2)"
  shows "i = j \<longleftrightarrow> e = e'"
proof -
  note 1 = internsD [OF intern_expr_ok [OF assms(1), of e] assms(2)]
  note twf1 = twf_good [OF assms(1) 1(1)]
  note 2 = internsD [OF intern_expr_ok [OF twf1, of e'] assms(3)]
  have "expr_at base st2 i e" using expr_at_grows [OF 1(4) goodD(2) [OF 2(1)]] .
  then show ?thesis
    using 2(4) expr_at_det expr_at_inject [OF _ twfD(3) [OF twf_good [OF twf1 2(1)]]] by blast
qed

theorem intern_expr_canonical_witness:
  "\<exists>i st1 j st2. intern_expr flat_hashers None tree persistent = Inr (i, st1)
     \<and> intern_expr flat_hashers None (EApp tree tree) st1 = Inr (j, st2) \<and> (i = j \<longleftrightarrow> tree = EApp tree tree)"
proof -
  obtain i st1 where 1: "intern_expr flat_hashers None tree persistent = Inr (i, st1)" "twf flat_hashers None st1"
    "used st1 \<le> 17" by (rule intern_expr_total [OF twf_persistent room_tree]) (auto simp: used_persistent cost_tree)
  then have "used st1 + expr_cost (EApp tree tree) \<le> max_rows" by (simp add: cost_tree max_rows_def)
  from intern_expr_total [OF 1(2) this] obtain j st2 where
    "intern_expr flat_hashers None (EApp tree tree) st1 = Inr (j, st2)" by metis
  with 1(1) intern_expr_canonical [OF twf_persistent 1(1) this] show ?thesis by blast
qed

text \<open>C14: \<open>to_expr\<close> rebuilds the tree of an id in use. It never panics and never runs for ever; its
  only error is \<open>DeepRecursion\<close>, and only when a universe level of the tree is higher than the depth
  that is left to the guard. The depth of the tree itself does not matter.\<close>

theorem to_expr_errors:
  assumes "twf H base st" and "expr_at base st i e"
  shows "case to_expr base st i d of
      Inl err \<Rightarrow> err = DeepRecursion \<and> (\<exists>l \<in> set (expr_levels e). MAX_REC_DEPTH < d + hgt l)
    | Inr e' \<Rightarrow> e' = e"
  using to_expr_ok [OF twfD(3) [OF assms(1)] assms(2), of d]
  by (auto simp: run_def too_deep_def split: sum.splits if_splits)

theorem to_expr_errors_witness:
  "\<exists>i st1. intern_expr flat_hashers None tree persistent = Inr (i, st1)
     \<and> (case to_expr None st1 i 4999 of
          Inl err \<Rightarrow> err = DeepRecursion \<and> (\<exists>l \<in> set (expr_levels tree). MAX_REC_DEPTH < 4999 + hgt l)
        | Inr e' \<Rightarrow> e' = tree)"
proof -
  obtain i st1 where "intern_expr flat_hashers None tree persistent = Inr (i, st1)" "twf flat_hashers None st1"
    "expr_at None st1 i tree" by (rule intern_expr_total [OF twf_persistent room_tree])
  with to_expr_errors [OF this(2,3), of 4999] show ?thesis by blast
qed

text \<open>C18: an id in use decodes to a node of the shape of its tree, whose children are ids in use:
  neither the tag byte nor an index ever makes \<open>expr_node\<close> panic.\<close>

theorem expr_node_decodes:
  assumes "twf H base st" and "expr_at base st i e"
  shows "\<exists>nd. expr_node base st i = Inr nd \<and> node_expr base st (expr_at base st) nd e
     \<and> list_all2 (expr_at base st) (node_children nd) (expr_children e)"
proof -
  from assms(2) obtain nd where nd: "node_at base st i nd" "node_expr base st (expr_at base st) nd e" by (rule expr_atE)
  with expr_node_ok [OF twfD(3) [OF assms(1)] nd(1)] node_children_at [OF nd(2)] show ?thesis by blast
qed

theorem expr_node_decodes_witness:
  "\<exists>i st1 nd. intern_expr flat_hashers None tree persistent = Inr (i, st1) \<and> expr_node None st1 i = Inr nd
     \<and> list_all2 (expr_at None st1) (node_children nd) (expr_children tree)"
proof -
  obtain i st1 where 1: "intern_expr flat_hashers None tree persistent = Inr (i, st1)" "twf flat_hashers None st1"
    "expr_at None st1 i tree" by (rule intern_expr_total [OF twf_persistent room_tree])
  from expr_node_decodes [OF 1(2,3)] obtain nd where "expr_node None st1 i = Inr nd"
    "list_all2 (expr_at None st1) (node_children nd) (expr_children tree)" by blast
  with 1(1) show ?thesis by blast
qed

text \<open>C15: the cached word of an id in use is exact about free variables, metavariables and level
  parameters of its tree, and its range of loose variables is exact unless it is saturated.\<close>

theorem expr_data_exact:
  assumes "twf H base st" and "expr_at base st i e"
  shows "\<exists>w. expr_data base st i = Inr w
     \<and> (d_has_fvar w \<longleftrightarrow> fvars_of e \<noteq> {}) \<and> (d_has_expr_mvar w \<longleftrightarrow> mvars_in e \<noteq> {})
     \<and> (d_has_level_param w \<longleftrightarrow> (\<exists>l \<in> set (expr_levels e). params_of l \<noteq> {}))
     \<and> (d_has_level_mvar w \<longleftrightarrow> (\<exists>l \<in> set (expr_levels e). mvars_of l \<noteq> {}))
     \<and> (case d_loose_bvar_range_exact w of Some r \<Rightarrow> unat r = loose_range e | None \<Rightarrow> d_loose_bvar_range w = LOOSE_BVAR_SAT)"
proof -
  let ?w = "data_of H e"
  have "d_loose_bvar_range ?w = LOOSE_BVAR_SAT" if "d_loose_bvar_range_exact ?w = None"
  proof -
    have "unat LOOSE_BVAR_SAT \<le> unat (d_loose_bvar_range ?w)"
      using that by (auto simp: d_loose_bvar_range_exact_def Let_def word_less_nat_alt split: if_splits)
    moreover have "unat (d_loose_bvar_range ?w) \<le> unat LOOSE_BVAR_SAT"
      using range_ok_data_of [of H e] by (simp add: range_ok_def unat_SAT)
    ultimately show ?thesis by (metis le_antisym unsigned_word_eqI)
  qed
  then show ?thesis
    using expr_data_ok [OF twfD(3,2) [OF assms(1)] assms(2)] range_exact_data_of [of H e]
    by (auto simp: has_fvar_data_of has_expr_mvar_data_of has_level_param_data_of has_level_mvar_data_of split: option.split)
qed

theorem expr_data_exact_witness:
  "\<exists>i st1 w. intern_expr flat_hashers None tree persistent = Inr (i, st1) \<and> expr_data None st1 i = Inr w
     \<and> d_has_fvar w \<and> \<not> d_has_expr_mvar w \<and> d_has_level_param w"
proof -
  obtain i st1 where "intern_expr flat_hashers None tree persistent = Inr (i, st1)" "twf flat_hashers None st1"
    "expr_at None st1 i tree" by (rule intern_expr_total [OF twf_persistent room_tree])
  with expr_data_exact [OF this(2,3)] show ?thesis by (auto simp: tree_def)
qed

section \<open>Words, bytes and the id table\<close>

text \<open>Every field of the packed data word reads back what was packed: the low 32 bits of the
  hash, the depth, the four flags, and the range up to its saturation; and storing the word in a bank
  row and reading it back changes nothing.\<close>

theorem pack_fields:
  "d_hash (pack h r dp f em lm lp) = ucast h \<and> d_approx_depth (pack h r dp f em lm lp) = dp
   \<and> unat (d_loose_bvar_range (pack h r dp f em lm lp)) = min (unat r) (2 ^ 20 - 1)
   \<and> d_has_fvar (pack h r dp f em lm lp) = f \<and> d_has_expr_mvar (pack h r dp f em lm lp) = em
   \<and> d_has_level_mvar (pack h r dp f em lm lp) = lm \<and> d_has_level_param (pack h r dp f em lm lp) = lp
   \<and> data_of_word (word_of (pack h r dp f em lm lp)) = pack h r dp f em lm lp"
  by (simp add: data_of_word_word_of del: d_range_pack)

text \<open>The tag byte of a row holds the tag, the binder annotation and the flag of a \<open>let\<close> without
  interference, so that rows with different headers have different bytes.\<close>

theorem tag_byte_roundtrip:
  "tag_of (pack_tag t bi nd) = Inr t \<and> binder_info_of_bits (pack_tag t bi nd) = bi
   \<and> non_dep_of_bits (pack_tag t bi nd) = nd"
  by simp

text \<open>C19: an id that is put into a table is found by the next lookup of its hash: the probing
  loop of the insertion, which has no bound in the code, finds a free slot in an array of any load
  below one half, grown or not, and every id that was in the table is still found.\<close>

theorem table_insert_found:
  assumes "table_ok t h K" and "b \<notin> K" and "b \<noteq> 0" and "\<And>c. c \<in> K \<Longrightarrow> rehash c = Inr (h c)"
  shows "\<exists>t'. insert_bits t (h b) b rehash = Inr t' \<and> table_ok t' h (insert b K)
     \<and> (\<forall>c \<in> insert b K. lookup t' (h c) (\<lambda>x. Inr (x = c)) = Inr (Some c))
     \<and> (\<forall>hash c. c \<notin> insert b K \<longrightarrow> lookup t' hash (\<lambda>x. Inr (x = c)) = Inr None)"
proof -
  from insert_bits_ok [OF assms] obtain t' where t': "insert_bits t (h b) b rehash = Inr t'" "table_ok t' h (insert b K)"
    by blast
  moreover have "lookup t' (h c) (\<lambda>x. Inr (x = c)) = Inr (Some c)" if "c \<in> insert b K" for c
    using table_lookup_found [OF t'(2) that] by simp
  moreover have "lookup t' hash (\<lambda>x. Inr (x = c)) = Inr None" if "c \<notin> insert b K" for hash c
    using that by (intro table_lookup_absent [OF t'(2)]) auto
  ultimately show ?thesis by blast
qed

theorem table_insert_found_witness:
  "\<exists>t'. insert_bits id_table_new 0 7 (\<lambda>_. Inr 0) = Inr t' \<and> lookup t' 0 (\<lambda>x. Inr (x = 7)) = Inr (Some 7)"
proof -
  have "table_ok id_table_new (\<lambda>_. 0) {}" by simp
  from table_insert_found [OF this, of 7 "\<lambda>_. Inr 0"] show ?thesis by auto
qed

end
