(* ===== verification/Subst.thy ===== *)
theory Subst
  imports Terms
begin

text \<open>
  The substitution walkers over ids (\<open>crates/leanr_kernel/src/subst.rs\<close>): \<open>instantiate_core\<close>,
  \<open>instantiate\<close>, \<open>instantiate_rev\<close>, \<open>lift_loose_bvars\<close>, \<open>lower_loose_bvars\<close>, \<open>abstract_fvars\<close>,
  \<open>instantiate_level_params\<close>. The source writes the same traversal five times (\<open>instantiate_go\<close>,
  \<open>lift_go\<close>, \<open>lower_go\<close>, \<open>abstract_go\<close>, \<open>lparams_go\<close>); the copies differ in the test that skips a
  subtree, in the offset of a body and in the arm of the leaves, which are the fields of a
  \<open>walker\<close>. The rest is \<open>walk_go\<close>: the cache, the guard around the children, which are visited in
  the order of the source, and the row that is rebuilt only when a child has changed. The guard
  is the depth \<open>d\<close>.
\<close>

type_synonym visit_cache = "u32 \<times> u32 \<rightharpoonup> u32"

record walker =
  w_skip :: "store \<Rightarrow> u32 \<Rightarrow> u32 \<Rightarrow> bool result"
  w_under :: "u32 \<Rightarrow> u32"
  w_leaf :: "u32 \<Rightarrow> node \<Rightarrow> u32 \<Rightarrow> nat \<Rightarrow> store \<Rightarrow> ((u32 \<times> bool) \<times> store) result"

text \<open>The children with their offsets; \<open>body_off\<close> gives the offset of a body.\<close>

definition node_kids :: "(u32 \<Rightarrow> u32) \<Rightarrow> node \<Rightarrow> u32 \<Rightarrow> (u32 \<times> u32) list" where
  "node_kids body_off nd off =
     (case nd of
        NApp f a \<Rightarrow> [(f, off), (a, off)]
      | NLam _ t b _ \<Rightarrow> [(t, off), (b, body_off off)]
      | NForall _ t b _ \<Rightarrow> [(t, off), (b, body_off off)]
      | NLetE _ t v b _ \<Rightarrow> [(t, off), (v, off), (b, body_off off)]
      | NMData _ c \<Rightarrow> [(c, off)]
      | NProj _ _ c \<Rightarrow> [(c, off)]
      | NProjBig _ _ c \<Rightarrow> [(c, off)]
      | _ \<Rightarrow> [])"

definition rebuild :: "hashers \<Rightarrow> store option \<Rightarrow> node \<Rightarrow> u32 list \<Rightarrow> store \<Rightarrow> (u32 \<times> store) result" where
  "rebuild H base nd ids st =
     (case (nd, ids) of
        (NApp _ _, [f2, arg2]) \<Rightarrow> expr_app base f2 arg2 st
      | (NLam n _ _ bi, [bt2, bd2]) \<Rightarrow> expr_lam base n bt2 bd2 bi st
      | (NForall n _ _ bi, [bt2, bd2]) \<Rightarrow> expr_forall base n bt2 bd2 bi st
      | (NLetE n _ _ _ non_dep, [t2, v2, b2]) \<Rightarrow> expr_let H base n t2 v2 b2 non_dep st
      | (NMData data _, [expr2]) \<Rightarrow> expr_mdata base data expr2 st
      | (NProj n idx _, [structure2]) \<Rightarrow> expr_proj H base n (unat idx) structure2 st
      | (NProjBig n idx _, [structure2]) \<Rightarrow>
          andthen (nat_at base st idx) (\<lambda>k. expr_proj H base n k structure2 st)
      | _ \<Rightarrow> Inl Panic)"

function (sequential)
    walk_go :: "hashers \<Rightarrow> store option \<Rightarrow> walker \<Rightarrow> nat \<Rightarrow> u32 \<Rightarrow> u32 \<Rightarrow> visit_cache \<Rightarrow> store
      \<Rightarrow> ((u32 \<times> visit_cache) \<times> store) result"
  and walk_kids :: "hashers \<Rightarrow> store option \<Rightarrow> walker \<Rightarrow> nat \<Rightarrow> (u32 \<times> u32) list \<Rightarrow> visit_cache \<Rightarrow> store
      \<Rightarrow> ((u32 list \<times> visit_cache) \<times> store) result" where
  "walk_go H base W d e off cache st =
     andthen (w_skip W st e off) (\<lambda>skip.
       if skip then Inr ((e, cache), st)
       else (case cache (e, off) of
          Some r \<Rightarrow> Inr ((r, cache), st)
        | None \<Rightarrow>
            andthen (expr_node base st e) (\<lambda>nd.
              if node_children nd = []
              then andthen (w_leaf W e nd off d st) (\<lambda>((r, save), st).
                     Inr ((r, if save then cache((e, off) \<mapsto> r) else cache), st))
              else andthen (enter d (\<lambda>d. walk_kids H base W d (node_kids (w_under W) nd off) cache st))
                     (\<lambda>((ids, cache), st).
                       andthen (if ids = node_children nd then Inr (e, st) else rebuild H base nd ids st)
                         (\<lambda>(r, st). Inr ((r, cache((e, off) \<mapsto> r)), st))))))"
| "walk_kids H base W d [] cache st = Inr (([], cache), st)"
| "walk_kids H base W d ((c, off) # cs) cache st =
     andthen (walk_go H base W d c off cache st) (\<lambda>((i, cache), st).
     andthen (walk_kids H base W d cs cache st) (\<lambda>((ids, cache), st). Inr ((i # ids, cache), st)))"
  by pat_completeness auto
termination
  by (relation "measures [\<lambda>x. case x of Inl (H, base, W, d, _) \<Rightarrow> MAX_REC_DEPTH - d
        | Inr (H, base, W, d, _) \<Rightarrow> MAX_REC_DEPTH - d,
      \<lambda>x. case x of Inl _ \<Rightarrow> 0 | Inr (_, _, _, _, cs, _) \<Rightarrow> Suc (length cs)]") auto

declare walk_go.simps [simp del]

section \<open>Skips by the range of loose variables\<close>

definition checked_add32 :: "u32 \<Rightarrow> u32 \<Rightarrow> u32 option" where
  "checked_add32 a b = (if unat a + unat b < 2 ^ 32 then Some (a + b) else None)"

definition range_skip :: "store option \<Rightarrow> u32 \<Rightarrow> store \<Rightarrow> u32 \<Rightarrow> u32 \<Rightarrow> bool result" where
  "range_skip base s st e off =
     (case checked_add32 s off of
        None \<Rightarrow> Inr True
      | Some s1 \<Rightarrow> andthen (expr_data base st e) (\<lambda>data.
          case d_loose_bvar_range_exact data of Some r \<Rightarrow> Inr (r \<le> s1) | None \<Rightarrow> Inr False))"

text \<open>\<open>bvar_index_nat\<close>, for the two forms of a variable.\<close>

definition bvar_index_nat :: "store option \<Rightarrow> store \<Rightarrow> node \<Rightarrow> nat result" where
  "bvar_index_nat base st nd =
     (case nd of NBVar idx \<Rightarrow> Inr (unat idx) | NBVarBig idx \<Rightarrow> nat_at base st idx | _ \<Rightarrow> Inl Panic)"

definition is_bvar_node :: "node \<Rightarrow> bool" where
  "is_bvar_node nd = (case nd of NBVar _ \<Rightarrow> True | NBVarBig _ \<Rightarrow> True | _ \<Rightarrow> False)"

section \<open>lift and lower\<close>

text \<open>The leaf arms know that \<open>s + off\<close> did not overflow: the walk has returned before.\<close>

definition lift_walker :: "hashers \<Rightarrow> store option \<Rightarrow> u32 \<Rightarrow> u32 \<Rightarrow> walker" where
  "lift_walker H base s d =
     \<lparr>w_skip = range_skip base s, w_under = (\<lambda>off. off + 1),
      w_leaf = (\<lambda>e nd off _ st.
        if is_bvar_node nd
        then andthen (bvar_index_nat base st nd) (\<lambda>idx.
               andthen (if idx \<ge> unat (s + off) then expr_bvar H base (idx + unat d) st else Inr (e, st))
                 (\<lambda>(r, st). Inr ((r, True), st)))
        else Inr ((e, True), st))\<rparr>"

definition lift_go ::
    "hashers \<Rightarrow> store option \<Rightarrow> u32 \<Rightarrow> u32 \<Rightarrow> u32 \<Rightarrow> u32 \<Rightarrow> nat \<Rightarrow> visit_cache \<Rightarrow> store
      \<Rightarrow> ((u32 \<times> visit_cache) \<times> store) result" where
  "lift_go H base e s off d g cache st = walk_go H base (lift_walker H base s d) g e off cache st"

definition lift_loose_bvars ::
    "hashers \<Rightarrow> store option \<Rightarrow> u32 \<Rightarrow> u32 \<Rightarrow> u32 \<Rightarrow> nat \<Rightarrow> store \<Rightarrow> (u32 \<times> store) result" where
  "lift_loose_bvars H base e s d g st =
     (if d = 0 then Inr (e, st)
      else andthen (lift_go H base e s 0 d g (\<lambda>_. None) st) (\<lambda>((r, _), st). Inr (r, st)))"

definition lower_walker :: "hashers \<Rightarrow> store option \<Rightarrow> u32 \<Rightarrow> u32 \<Rightarrow> walker" where
  "lower_walker H base s d =
     \<lparr>w_skip = range_skip base s, w_under = (\<lambda>off. off + 1),
      w_leaf = (\<lambda>e nd off _ st.
        if is_bvar_node nd
        then andthen (bvar_index_nat base st nd) (\<lambda>idx.
               andthen
                 (if idx \<ge> unat (s + off)
                  then expr_bvar H base (if idx \<ge> unat d then idx - unat d else 0) st else Inr (e, st))
                 (\<lambda>(r, st). Inr ((r, True), st)))
        else Inr ((e, True), st))\<rparr>"

definition lower_go ::
    "hashers \<Rightarrow> store option \<Rightarrow> u32 \<Rightarrow> u32 \<Rightarrow> u32 \<Rightarrow> u32 \<Rightarrow> nat \<Rightarrow> visit_cache \<Rightarrow> store
      \<Rightarrow> ((u32 \<times> visit_cache) \<times> store) result" where
  "lower_go H base e s off d g cache st = walk_go H base (lower_walker H base s d) g e off cache st"

definition lower_loose_bvars ::
    "hashers \<Rightarrow> store option \<Rightarrow> u32 \<Rightarrow> u32 \<Rightarrow> u32 \<Rightarrow> nat \<Rightarrow> store \<Rightarrow> (u32 \<times> store) result" where
  "lower_loose_bvars H base e s d g st =
     (if d = 0 then Inr (e, st)
      else andthen (lower_go H base e s 0 d g (\<lambda>_. None) st) (\<lambda>((r, _), st). Inr (r, st)))"

section \<open>instantiate\<close>

definition biguint_to_usize :: "nat \<Rightarrow> nat result" where
  "biguint_to_usize v =
     (let digits = to_u64_digits v in
      if length digits > 1 then Inl LooseBVar else Inr (unat (first_or_0 digits)))"

definition instantiate_bvar ::
    "hashers \<Rightarrow> store option \<Rightarrow> u32 \<Rightarrow> nat \<Rightarrow> u32 \<Rightarrow> u32 \<Rightarrow> u32 list \<Rightarrow> bool \<Rightarrow> nat \<Rightarrow> store \<Rightarrow> (u32 \<times> store) result" where
  "instantiate_bvar H base e idx s1 off subst backwards g st =
     (if idx < unat s1 then Inr (e, st)
      else
        let n = length subst; h = unat s1 + n in
        if idx < h
        then andthen (biguint_to_usize (idx - unat s1)) (\<lambda>rel.
               let sub_idx = if backwards then n - 1 - rel else rel in
               andthen (ok_or LooseBVar (get_index subst sub_idx)) (\<lambda>chosen.
                 lift_loose_bvars H base chosen 0 off g st))
        else expr_bvar H base (idx - n) st)"

definition inst_walker :: "hashers \<Rightarrow> store option \<Rightarrow> u32 \<Rightarrow> u32 list \<Rightarrow> bool \<Rightarrow> walker" where
  "inst_walker H base s subst backwards =
     \<lparr>w_skip = range_skip base s, w_under = (\<lambda>off. off + 1),
      w_leaf = (\<lambda>e nd off g st.
        if is_bvar_node nd
        then andthen (bvar_index_nat base st nd) (\<lambda>idx.
               andthen (instantiate_bvar H base e idx (s + off) off subst backwards g st)
                 (\<lambda>(r, st). Inr ((r, True), st)))
        else Inr ((e, True), st))\<rparr>"

definition instantiate_go ::
    "hashers \<Rightarrow> store option \<Rightarrow> u32 \<Rightarrow> u32 \<Rightarrow> u32 \<Rightarrow> u32 list \<Rightarrow> bool \<Rightarrow> nat \<Rightarrow> visit_cache \<Rightarrow> store
      \<Rightarrow> ((u32 \<times> visit_cache) \<times> store) result" where
  "instantiate_go H base e s off subst backwards g cache st =
     walk_go H base (inst_walker H base s subst backwards) g e off cache st"

definition instantiate_core ::
    "hashers \<Rightarrow> store option \<Rightarrow> u32 \<Rightarrow> u32 \<Rightarrow> u32 list \<Rightarrow> nat \<Rightarrow> store \<Rightarrow> (u32 \<times> store) result" where
  "instantiate_core H base e s subst g st =
     (if subst = [] then Inr (e, st)
      else andthen (instantiate_go H base e s 0 subst False g (\<lambda>_. None) st) (\<lambda>((r, _), st). Inr (r, st)))"

definition instantiate :: "hashers \<Rightarrow> store option \<Rightarrow> u32 \<Rightarrow> u32 \<Rightarrow> nat \<Rightarrow> store \<Rightarrow> (u32 \<times> store) result" where
  "instantiate H base e sub g st = instantiate_core H base e 0 [sub] g st"

definition instantiate_rev ::
    "hashers \<Rightarrow> store option \<Rightarrow> u32 \<Rightarrow> u32 list \<Rightarrow> nat \<Rightarrow> store \<Rightarrow> (u32 \<times> store) result" where
  "instantiate_rev H base e subst g st =
     (if subst = [] then Inr (e, st)
      else andthen (instantiate_go H base e 0 0 subst True g (\<lambda>_. None) st) (\<lambda>((r, _), st). Inr (r, st)))"

section \<open>abstract\<close>

text \<open>The scan of \<open>fvars\<close> from its end: \<open>rel\<close> counts the entries that have been passed.\<close>

fun find_fvar :: "store option \<Rightarrow> store \<Rightarrow> u32 option \<Rightarrow> u32 list \<Rightarrow> nat \<Rightarrow> nat option result" where
  "find_fvar base st x [] rel = Inr None"
| "find_fvar base st x (f # fs) rel =
     andthen (expr_node base st f) (\<lambda>nd.
       if nd = NFVar x then Inr (Some rel) else find_fvar base st x fs (rel + 1))"

definition abstract_leaf ::
    "hashers \<Rightarrow> store option \<Rightarrow> u32 list \<Rightarrow> u32 \<Rightarrow> node \<Rightarrow> u32 \<Rightarrow> store \<Rightarrow> ((u32 \<times> bool) \<times> store) result" where
  "abstract_leaf H base fvars e nd off st =
     (case nd of
        NFVar x \<Rightarrow>
          andthen (find_fvar base st x (rev fvars) 0) (\<lambda>hit.
            case hit of
              Some rel \<Rightarrow>
                if unat off + rel < 2 ^ 64
                then andthen (expr_bvar H base (unat off + rel) st) (\<lambda>(r, st). Inr ((r, False), st))
                else Inl LooseBVar
            | None \<Rightarrow> Inr ((e, True), st))
      | _ \<Rightarrow> Inr ((e, True), st))"

definition abstract_walker :: "hashers \<Rightarrow> store option \<Rightarrow> u32 list \<Rightarrow> walker" where
  "abstract_walker H base fvars =
     \<lparr>w_skip = (\<lambda>st e _. andthen (expr_data base st e) (\<lambda>data. Inr (\<not> d_has_fvar data))),
      w_under = (\<lambda>off. off + 1),
      w_leaf = (\<lambda>e nd off _ st. abstract_leaf H base fvars e nd off st)\<rparr>"

definition abstract_go ::
    "hashers \<Rightarrow> store option \<Rightarrow> u32 \<Rightarrow> u32 \<Rightarrow> u32 list \<Rightarrow> nat \<Rightarrow> visit_cache \<Rightarrow> store
      \<Rightarrow> ((u32 \<times> visit_cache) \<times> store) result" where
  "abstract_go H base e off fvars g cache st = walk_go H base (abstract_walker H base fvars) g e off cache st"

definition abstract_fvars ::
    "hashers \<Rightarrow> store option \<Rightarrow> u32 \<Rightarrow> u32 list \<Rightarrow> nat \<Rightarrow> store \<Rightarrow> (u32 \<times> store) result" where
  "abstract_fvars H base e fvars g st =
     (if fvars = [] then Inr (e, st)
      else andthen (expr_data base st e) (\<lambda>data.
        if \<not> d_has_fvar data then Inr (e, st)
        else andthen (abstract_go H base e 0 fvars g (\<lambda>_. None) st) (\<lambda>((r, _), st). Inr (r, st))))"

section \<open>instantiate_level_params\<close>

fun lparams_levels ::
    "hashers \<Rightarrow> store option \<Rightarrow> name list \<Rightarrow> level list \<Rightarrow> nat \<Rightarrow> u32 list \<Rightarrow> bool \<Rightarrow> u32 list \<Rightarrow> store
      \<Rightarrow> ((bool \<times> u32 list) \<times> store) result" where
  "lparams_levels H base params args g [] changed out st = Inr ((changed, out), st)"
| "lparams_levels H base params args g (lid # lids) changed out st =
     andthen (to_level base st lid) (\<lambda>al.
     andthen (instantiate_params al params args g) (\<lambda>(al2, same).
       if same then lparams_levels H base params args g lids changed (out @ [lid]) st
       else andthen (intern_level H base al2 st) (\<lambda>(lid2, st).
         lparams_levels H base params args g lids True (out @ [lid2]) st)))"

definition lparams_leaf_ids ::
    "hashers \<Rightarrow> store option \<Rightarrow> name list \<Rightarrow> level list \<Rightarrow> u32 \<Rightarrow> node \<Rightarrow> nat \<Rightarrow> store \<Rightarrow> (u32 \<times> store) result" where
  "lparams_leaf_ids H base params args e nd g st =
     (case nd of
        NSort level \<Rightarrow>
          andthen (to_level base st level) (\<lambda>al.
          andthen (instantiate_params al params args g) (\<lambda>(al2, same).
            if same then Inr (e, st)
            else andthen (intern_level H base al2 st) (\<lambda>(level2, st). expr_sort base level2 st)))
      | NConst n lvls \<Rightarrow>
          andthen (level_list_at base st lvls) (\<lambda>level_ids.
          andthen (lparams_levels H base params args g level_ids False [] st) (\<lambda>((changed, out), st).
            if changed
            then andthen (intern_level_list H base out st) (\<lambda>(ls, st). expr_const base n ls st)
            else Inr (e, st)))
      | _ \<Rightarrow> Inr (e, st))"

definition lparams_walker :: "hashers \<Rightarrow> store option \<Rightarrow> name list \<Rightarrow> level list \<Rightarrow> walker" where
  "lparams_walker H base params args =
     \<lparr>w_skip = (\<lambda>st e _. andthen (expr_data base st e) (\<lambda>data. Inr (\<not> d_has_level_param data))),
      w_under = (\<lambda>off. off),
      w_leaf = (\<lambda>e nd _ g st.
        andthen (lparams_leaf_ids H base params args e nd g st) (\<lambda>(r, st). Inr ((r, True), st)))\<rparr>"

text \<open>The key's offset component is always 0.\<close>

definition lparams_go ::
    "hashers \<Rightarrow> store option \<Rightarrow> u32 \<Rightarrow> name list \<Rightarrow> level list \<Rightarrow> nat \<Rightarrow> visit_cache \<Rightarrow> store
      \<Rightarrow> ((u32 \<times> visit_cache) \<times> store) result" where
  "lparams_go H base e params args g cache st = walk_go H base (lparams_walker H base params args) g e 0 cache st"

fun to_names :: "store option \<Rightarrow> store \<Rightarrow> u32 list \<Rightarrow> name list result" where
  "to_names base st [] = Inr []"
| "to_names base st (i # ids) =
     andthen (to_name base st (Some i)) (\<lambda>n. andthen (to_names base st ids) (\<lambda>ns. Inr (n # ns)))"

definition instantiate_level_params ::
    "hashers \<Rightarrow> store option \<Rightarrow> u32 \<Rightarrow> u32 list \<Rightarrow> u32 list \<Rightarrow> nat \<Rightarrow> store \<Rightarrow> (u32 \<times> store) result" where
  "instantiate_level_params H base e params args g st =
     andthen (expr_data base st e) (\<lambda>data.
       if \<not> d_has_level_param data then Inr (e, st)
       else andthen (to_names base st params) (\<lambda>params.
         andthen (to_levels base st args) (\<lambda>args.
         andthen (lparams_go H base e params args g (\<lambda>_. None) st) (\<lambda>((r, _), st). Inr (r, st)))))"

end
