(* ===== verification/Walk.thy ===== *)
theory Walk
  imports Term_Bridge Subst
begin

text \<open>
  The interface of the substitution walkers. \<open>walk\<close> says what the three fields of a \<open>walker\<close> promise
  about a rewriting \<open>L\<close> of leaves; the traversal then computes \<open>tmap L\<close>, fails only with the errors
  of the leaves, with \<open>DeepRecursion\<close> where the tree is too deep, or with \<open>BankExhausted\<close> where there
  is no room for the rewritten tree, and adds nothing to a store that knows the result. Cache
  entries are results for every depth that has the entry's offset.
\<close>

section \<open>Nodes with new children\<close>

lemma node_kids_fst: "map fst (node_kids f nd off) = node_children nd"
  by (cases nd) (simp_all add: node_kids_def node_children_def)

lemma node_children_Nil: "node_expr base st R nd t \<Longrightarrow> node_children nd = [] \<longleftrightarrow> tkids t k = []"
  by (cases nd) (auto simp: node_children_def tkids_def)

lemma list_expr_at_det:
  "list_all2 (expr_at base st) ids es \<Longrightarrow> list_all2 (expr_at base st) ids es' \<Longrightarrow> es = es'"
  by (induction ids arbitrary: es es') (auto simp: list_all2_Cons1 dest: expr_at_det)

lemma tkids_independent: "(c, j) \<in> set (tkids e k) \<Longrightarrow> \<exists>j. (c, j) \<in> set (tkids e k')"
  by (cases e) (auto simp: tkids_def)

lemma rebuild_ok:
  assumes twf: "twf H base st" and nd: "node_expr base st (expr_at base st) nd t"
    and ids: "list_all2 (expr_at base st) ids ts" "length ts = length (expr_children t)" and "ts \<noteq> []"
  shows "interns H base 2 (\<exists>i. expr_at base st i (with_children t ts)) st (rebuild H base nd ids st)
    (\<lambda>i st'. expr_at base st' i (with_children t ts))"
proof (cases nd)
  case (NApp f a)
  with nd ids obtain i j ti tj where "ids = [i, j]" "ts = [ti, tj]" "expr_at base st i ti" "expr_at base st j tj"
    by (auto simp: expr_children_def length_Suc_conv list_all2_Cons2)
  with NApp nd show ?thesis
    by (auto simp: rebuild_def with_children_def intro!: interns_weaken [OF expr_app_ok [OF twf]])
next
  case (NLam n t b bi)
  with nd ids obtain i j ti tj where "ids = [i, j]" "ts = [ti, tj]" "expr_at base st i ti" "expr_at base st j tj"
    by (auto simp: expr_children_def length_Suc_conv list_all2_Cons2)
  with NLam nd show ?thesis
    by (auto simp: rebuild_def with_children_def intro!: interns_weaken [OF expr_lam_ok [OF twf]])
next
  case (NForall n t b bi)
  with nd ids obtain i j ti tj where "ids = [i, j]" "ts = [ti, tj]" "expr_at base st i ti" "expr_at base st j tj"
    by (auto simp: expr_children_def length_Suc_conv list_all2_Cons2)
  with NForall nd show ?thesis
    by (auto simp: rebuild_def with_children_def intro!: interns_weaken [OF expr_forall_ok [OF twf]])
next
  case (NLetE n t v b d)
  with nd ids obtain i j k ti tj tk where "ids = [i, j, k]" "ts = [ti, tj, tk]" "expr_at base st i ti"
    "expr_at base st j tj" "expr_at base st k tk"
    by (auto simp: expr_children_def length_Suc_conv list_all2_Cons2)
  with NLetE nd show ?thesis
    by (auto simp: rebuild_def with_children_def intro!: interns_weaken [OF expr_let_ok [OF twf]])
next
  case (NMData k c)
  with nd ids obtain i ti where "ids = [i]" "ts = [ti]" "expr_at base st i ti"
    by (auto simp: expr_children_def length_Suc_conv list_all2_Cons2)
  with NMData nd show ?thesis
    by (auto simp: rebuild_def with_children_def intro!: interns_weaken [OF expr_mdata_ok [OF twf]])
next
  case (NProj n w c)
  with nd ids obtain i ti where "ids = [i]" "ts = [ti]" "expr_at base st i ti"
    by (auto simp: expr_children_def length_Suc_conv list_all2_Cons2)
  with NProj nd show ?thesis
    by (auto simp: rebuild_def with_children_def intro!: interns_weaken [OF expr_proj_ok [OF twf]])
next
  case (NProjBig n q c)
  with nd ids obtain i ti where "ids = [i]" "ts = [ti]" "expr_at base st i ti"
    by (auto simp: expr_children_def length_Suc_conv list_all2_Cons2)
  with NProjBig nd show ?thesis
    by (auto simp: rebuild_def with_children_def pool_reads(2) [OF twfD(3) [OF twf]]
        intro!: interns_weaken [OF expr_proj_ok [OF twf]])
qed (use nd ids assms(5) in \<open>auto simp: expr_children_def\<close>)

section \<open>Depth and room of a tree\<close>

fun ht :: "(expr \<Rightarrow> nat) \<Rightarrow> expr \<Rightarrow> nat" where
  "ht h (EApp f a) = Suc (max (ht h f) (ht h a))"
| "ht h (ELam n t b bi) = Suc (max (ht h t) (ht h b))"
| "ht h (EForallE n t b bi) = Suc (max (ht h t) (ht h b))"
| "ht h (ELetE n t v b nd) = Suc (max (ht h t) (max (ht h v) (ht h b)))"
| "ht h (EMData m c) = Suc (ht h c)"
| "ht h (EProj n i c) = Suc (ht h c)"
| "ht h e = h e"

fun rewrite_cost :: "(nat \<Rightarrow> expr \<Rightarrow> nat) \<Rightarrow> nat \<Rightarrow> expr \<Rightarrow> nat" where
  "rewrite_cost lc k (EApp f a) = 2 + rewrite_cost lc k f + rewrite_cost lc k a"
| "rewrite_cost lc k (ELam n t b bi) = 2 + rewrite_cost lc k t + rewrite_cost lc (Suc k) b"
| "rewrite_cost lc k (EForallE n t b bi) = 2 + rewrite_cost lc k t + rewrite_cost lc (Suc k) b"
| "rewrite_cost lc k (ELetE n t v b nd) = 2 + rewrite_cost lc k t + rewrite_cost lc k v + rewrite_cost lc (Suc k) b"
| "rewrite_cost lc k (EMData m c) = 2 + rewrite_cost lc k c"
| "rewrite_cost lc k (EProj n i c) = 2 + rewrite_cost lc k c"
| "rewrite_cost lc k e = lc k e"

lemma ht_child: "(c, j) \<in> set (tkids t k) \<Longrightarrow> Suc (ht h c) \<le> ht h t"
  by (cases t) (auto simp: tkids_def)

lemma rewrite_cost_node:
  "tkids t k \<noteq> [] \<Longrightarrow> rewrite_cost lc k t = 2 + sum_list (map (\<lambda>(c, j). rewrite_cost lc j c) (tkids t k))"
  by (cases t) (simp_all add: tkids_def)

lemma leaf_measures: "tkids t k = [] \<Longrightarrow> ht h t = h t" "tkids t k = [] \<Longrightarrow> rewrite_cost lc k t = lc k t"
  by (cases t; simp add: tkids_def)+

section \<open>The interface\<close>

locale walk =
  fixes H :: hashers and base :: "store option" and W :: walker and L :: "nat \<Rightarrow> expr \<Rightarrow> expr"
    and enc :: "nat \<Rightarrow> u32" and inv :: "store \<Rightarrow> bool" and E :: "nat \<Rightarrow> kernel_error set"
    and lh :: "expr \<Rightarrow> nat" and lc :: "nat \<Rightarrow> expr \<Rightarrow> nat"
  assumes inv_twf: "inv st \<Longrightarrow> twf H base st"
    and inv_good: "inv st \<Longrightarrow> good H base st st' \<Longrightarrow> inv st'"
    and under_enc: "k < MAX_REC_DEPTH \<Longrightarrow> w_under W (enc k) = enc (Suc k)"
    and same_key: "enc k = enc k' \<Longrightarrow> k \<le> MAX_REC_DEPTH \<Longrightarrow> k' \<le> MAX_REC_DEPTH \<Longrightarrow> tmap L k t = tmap L k' t"
    and E_mono: "m \<le> n \<Longrightarrow> E m \<subseteq> E n"
    and too_deep: "MAX_REC_DEPTH < n \<Longrightarrow> DeepRecursion \<in> E n"
    and skip: "inv st \<Longrightarrow> expr_at base st e t \<Longrightarrow> k \<le> MAX_REC_DEPTH \<Longrightarrow>
      \<exists>b. w_skip W st e (enc k) = Inr b \<and> (b \<longrightarrow> tmap L k t = t)"
    and leaf: "inv st \<Longrightarrow> node_at base st e nd \<Longrightarrow> expr_at base st e t \<Longrightarrow> tkids t k = [] \<Longrightarrow>
      k \<le> d \<Longrightarrow> k \<le> MAX_REC_DEPTH \<Longrightarrow>
      runs H base (E (d + lh t)) (lc k t) (\<exists>i. expr_at base st i (L k t)) st (w_leaf W e nd (enc k) d st)
        (\<lambda>(r, _) st'. expr_at base st' r (L k t))"
begin

definition cache_ok :: "store \<Rightarrow> visit_cache \<Rightarrow> bool" where
  "cache_ok st cache \<longleftrightarrow> (\<forall>e off r. cache (e, off) = Some r \<longrightarrow>
     (\<exists>t. expr_at base st e t \<and> (\<forall>k \<le> MAX_REC_DEPTH. enc k = off \<longrightarrow> expr_at base st r (tmap L k t))))"

lemma cache_ok_empty: "cache_ok st (\<lambda>_. None)"
  by (simp add: cache_ok_def)

lemma cache_ok_grows: "cache_ok st cache \<Longrightarrow> grows base st st' \<Longrightarrow> cache_ok st' cache"
  unfolding cache_ok_def by (meson expr_at_grows)

lemma cache_ok_hit:
  assumes "cache_ok st cache" and "cache (e, enc k) = Some r" and "expr_at base st e t" and "k \<le> MAX_REC_DEPTH"
  shows "expr_at base st r (tmap L k t)"
  using assms unfolding cache_ok_def by (metis expr_at_det)

lemma cache_ok_insert:
  assumes "cache_ok st cache" and "expr_at base st e t" and "expr_at base st r (tmap L k t)" and "k \<le> MAX_REC_DEPTH"
  shows "cache_ok st (cache((e, enc k) \<mapsto> r))"
  unfolding cache_ok_def
proof (intro allI impI)
  fix e' off' r' assume r': "(cache((e, enc k) \<mapsto> r)) (e', off') = Some r'"
  show "\<exists>t. expr_at base st e' t \<and> (\<forall>k \<le> MAX_REC_DEPTH. enc k = off' \<longrightarrow> expr_at base st r' (tmap L k t))"
  proof (cases "(e', off') = (e, enc k)")
    case True
    with r' have eq: "e' = e" "off' = enc k" "r' = r" by auto
    have "expr_at base st r (tmap L j t)" if "j \<le> MAX_REC_DEPTH" "enc j = enc k" for j
      using assms(3) same_key [OF that(2,1) assms(4)] by simp
    with eq assms(2) show ?thesis by blast
  next
    case False
    with r' assms(1) show ?thesis by (simp add: cache_ok_def split: if_splits)
  qed
qed

definition result_at :: "nat \<Rightarrow> expr \<Rightarrow> u32 \<times> visit_cache \<Rightarrow> store \<Rightarrow> bool" where
  "result_at k t = (\<lambda>(r, cache) st. expr_at base st r (tmap L k t) \<and> cache_ok st cache)"

definition walks :: "expr \<Rightarrow> bool" where
  "walks t \<longleftrightarrow> (\<forall>d k e cache st. inv st \<longrightarrow> expr_at base st e t \<longrightarrow> cache_ok st cache \<longrightarrow> k \<le> d \<longrightarrow> k \<le> MAX_REC_DEPTH \<longrightarrow>
     runs H base (E (d + ht lh t)) (rewrite_cost lc k t) (\<exists>i. expr_at base st i (tmap L k t)) st
       (walk_go H base W d e (enc k) cache st) (result_at k t))"

definition kid_at :: "store \<Rightarrow> u32 \<times> u32 \<Rightarrow> expr \<times> nat \<Rightarrow> bool" where
  "kid_at st = (\<lambda>(i, off) (c, j). expr_at base st i c \<and> off = enc j)"

definition rewritten :: "store \<Rightarrow> u32 \<Rightarrow> expr \<times> nat \<Rightarrow> bool" where
  "rewritten st i = (\<lambda>(c, j). expr_at base st i (tmap L j c))"

lemma rewritten_iff [simp]: "rewritten st i (c, j) \<longleftrightarrow> expr_at base st i (tmap L j c)"
  by (simp add: rewritten_def)

lemma kid_at_grows: "list_all2 (kid_at st) ks tks \<Longrightarrow> grows base st st' \<Longrightarrow> list_all2 (kid_at st') ks tks"
  by (erule list_all2_mono) (auto simp: kid_at_def intro: expr_at_grows)

lemma walk_kids_ok:
  "\<forall>(c, j) \<in> set tks. walks c \<and> j \<le> d \<and> j \<le> MAX_REC_DEPTH \<and> d + ht lh c \<le> n \<Longrightarrow> inv st \<Longrightarrow>
     list_all2 (kid_at st) ks tks \<Longrightarrow> cache_ok st cache \<Longrightarrow>
     runs H base (E n) (sum_list (map (\<lambda>(c, j). rewrite_cost lc j c) tks))
       (\<forall>x \<in> set tks. \<exists>i. rewritten st i x) st (walk_kids H base W d ks cache st)
       (\<lambda>(ids, cache) st'. list_all2 (rewritten st') ids tks \<and> cache_ok st' cache)"
proof (induction tks arbitrary: ks cache st)
  case Nil
  then show ?case by (simp add: interns_return [OF twfD(1) [OF inv_twf]])
next
  case (Cons x tks)
  obtain c j where x: "x = (c, j)" by (cases x)
  from Cons.prems(3) x obtain i ks' where ks: "ks = (i, enc j) # ks'" "expr_at base st i c" "list_all2 (kid_at st) ks' tks"
    by (auto simp: list_all2_Cons2 kid_at_def)
  let ?K = "\<forall>y \<in> set (x # tks). \<exists>i. rewritten st i y"
  from Cons.prems(1) x have c: "walks c" "j \<le> d" "j \<le> MAX_REC_DEPTH" "d + ht lh c \<le> n" by auto
  from c(1) [unfolded walks_def] Cons.prems(2,4) ks(2) c(2,3)
  have "runs H base (E (d + ht lh c)) (rewrite_cost lc j c) (\<exists>i. expr_at base st i (tmap L j c)) st
      (walk_go H base W d i (enc j) cache st) (result_at j c)" by blast
  then have go: "runs H base (E n) (rewrite_cost lc j c) (\<exists>i. expr_at base st i (tmap L j c)) st
      (walk_go H base W d i (enc j) cache st) (result_at j c)"
    by (rule runs_weaken) (use E_mono [OF c(4)] in auto)
  have "runs H base (E n) (rewrite_cost lc j c + sum_list (map (\<lambda>(c, j). rewrite_cost lc j c) tks)) ?K st
      (andthen (walk_go H base W d i (enc j) cache st) (\<lambda>(rc, st). (case rc of (i, cache) \<Rightarrow> \<lambda>st.
        andthen (walk_kids H base W d ks' cache st) (\<lambda>((ids, cache), st). Inr ((i # ids, cache), st))) st))
      (\<lambda>(ids, cache) st'. list_all2 (rewritten st') ids (x # tks) \<and> cache_ok st' cache)"
  proof (rule interns_bind [OF go])
    fix rc st1
    assume 1: "good H base st st1" "result_at j c rc st1" "?K \<Longrightarrow> st1 = st"
    obtain r cache1 where rc: "rc = (r, cache1)" "expr_at base st1 r (tmap L j c)" "cache_ok st1 cache1"
      using 1(2) by (cases rc) (auto simp: result_at_def)
    have "\<forall>(c, j) \<in> set tks. walks c \<and> j \<le> d \<and> j \<le> MAX_REC_DEPTH \<and> d + ht lh c \<le> n" using Cons.prems(1) by auto
    from Cons.IH [OF this inv_good [OF Cons.prems(2) 1(1)] kid_at_grows [OF ks(3) goodD(2) [OF 1(1)]] rc(3)]
    have "runs H base (E n) (sum_list (map (\<lambda>(c, j). rewrite_cost lc j c) tks)) ?K st1
        (andthen (walk_kids H base W d ks' cache1 st1) (\<lambda>(z, st). Inr ((r # fst z, snd z), st)))
        (\<lambda>(ids, cache) st'. list_all2 (rewritten st') ids (x # tks) \<and> cache_ok st' cache)"
      by (rule interns_map)
        (use 1(3) rc(2) x in \<open>auto intro: expr_at_grows dest: goodD(2)\<close>)
    then show "runs H base (E n) (sum_list (map (\<lambda>(c, j). rewrite_cost lc j c) tks)) ?K st1
        ((case rc of (i, cache) \<Rightarrow> \<lambda>st.
          andthen (walk_kids H base W d ks' cache st) (\<lambda>((ids, cache), st). Inr ((i # ids, cache), st))) st1)
        (\<lambda>(ids, cache) st'. list_all2 (rewritten st') ids (x # tks) \<and> cache_ok st' cache)"
      by (simp add: rc(1) split_def)
  qed (auto simp: x)
  then show ?case by (simp add: ks(1) x split_def)
qed

lemma node_kids_at:
  assumes "node_expr base st (expr_at base st) nd t" and "k < MAX_REC_DEPTH"
  shows "list_all2 (kid_at st) (node_kids (w_under W) nd (enc k)) (tkids t k)"
  using assms(1) under_enc [OF assms(2)] by (cases nd) (auto simp: node_kids_def tkids_def kid_at_def)

lemma rewritten_children:
  "list_all2 (rewritten st) ids tks \<longleftrightarrow> list_all2 (expr_at base st) ids (map (\<lambda>(c, j). tmap L j c) tks)"
  unfolding list_all2_map2 by (rule arg_cong [where f = "\<lambda>R. list_all2 R ids tks"]) (auto simp: fun_eq_iff)

text \<open>The row of a node: the old id when no child has changed.\<close>

lemma row_ok:
  assumes inv: "inv st" and e: "expr_at base st e t" and nd: "node_at base st e nd" "tkids t k \<noteq> []"
    and ids: "list_all2 (rewritten st) ids (tkids t k)"
  shows "runs H base X 2 (\<exists>i. expr_at base st i (tmap L k t)) st
    (if ids = node_children nd then Inr (e, st) else rebuild H base nd ids st) (\<lambda>r st'. expr_at base st' r (tmap L k t))"
proof -
  let ?ts = "map (\<lambda>(c, j). tmap L j c) (tkids t k)"
  from e nd(1) have ne: "node_expr base st (expr_at base st) nd t" by (simp add: expr_at_node)
  have len: "length ?ts = length (expr_children t)" using tkids_fst [of t k] by (metis length_map)
  have ids': "list_all2 (expr_at base st) ids ?ts" using ids by (simp add: rewritten_children)
  have t: "tmap L k t = with_children t ?ts" using tmap_node [OF nd(2)] .
  show ?thesis
  proof (cases "ids = node_children nd")
    case True
    have "?ts = expr_children t"
      using list_expr_at_det [OF ids' node_children_at [OF ne, folded True]] .
    with t have "tmap L k t = t" by (simp add: with_children_same)
    with True e twfD(1) [OF inv_twf [OF inv]] show ?thesis by (simp add: interns_return)
  next
    case False
    from nd(2) have "?ts \<noteq> []" by simp
    from rebuild_ok [OF inv_twf [OF inv] ne ids' len this] have
      "runs H base X 2 (\<exists>i. expr_at base st i (with_children t ?ts)) st (rebuild H base nd ids st)
        (\<lambda>r st'. expr_at base st' r (with_children t ?ts))" by (rule runs_weaken) auto
    with False t show ?thesis by simp
  qed
qed

lemma walks_if_kids:
  assumes kids: "\<forall>(c, j) \<in> set (tkids t k0). walks c"
  shows "walks t"
  unfolding walks_def
proof (intro allI impI)
  fix d k e cache st
  assume inv: "inv st" and e: "expr_at base st e t" and c: "cache_ok st cache" and k: "k \<le> d" "k \<le> MAX_REC_DEPTH"
  let ?E = "E (d + ht lh t)" and ?c = "rewrite_cost lc k t" and ?K = "\<exists>i. expr_at base st i (tmap L k t)"
  note wf = twfD(1) [OF inv_twf [OF inv]]
  from kids have kids: "\<forall>(c, j) \<in> set (tkids t k). walks c"
    by (blast dest: tkids_independent [where k' = k0])
  from skip [OF inv e k(2)] obtain b where b: "w_skip W st e (enc k) = Inr b" "b \<longrightarrow> tmap L k t = t" by blast
  from e obtain nd where nd: "node_at base st e nd" "node_expr base st (expr_at base st) nd t" by (rule expr_atE)
  note node = expr_node_ok [OF twfD(3) [OF inv_twf [OF inv]] nd(1)]
  show "runs H base ?E ?c ?K st (walk_go H base W d e (enc k) cache st) (result_at k t)"
  proof (cases "b \<or> cache (e, enc k) \<noteq> None")
    case True
    then show ?thesis
      using b e c cache_ok_hit [OF c _ e k(2)]
      by (auto simp: walk_go.simps result_at_def intro!: interns_return [OF wf])
  next
    case False
    show ?thesis
    proof (cases "tkids t k = []")
      case lf: True
      then have l: "tmap L k t = L k t" "node_children nd = []" using node_children_Nil [OF nd(2), of k] by (simp_all add: tmap_leaf)
      have "runs H base ?E ?c ?K st (w_leaf W e nd (enc k) d st) (\<lambda>(r, _) st'. expr_at base st' r (tmap L k t))"
        using leaf [OF inv nd(1) e lf k] leaf_measures [OF lf] l(1) by simp
      then have "runs H base ?E ?c ?K st (andthen (w_leaf W e nd (enc k) d st)
          (\<lambda>(x, st). Inr ((case x of (r, save) \<Rightarrow> (r, if save then cache((e, enc k) \<mapsto> r) else cache)), st))) (result_at k t)"
        by (rule interns_map)
          (auto simp: result_at_def dest!: goodD(2) intro!: cache_ok_insert intro: cache_ok_grows [OF c] expr_at_grows [OF e] k(2))
      with False b l(2) show ?thesis by (simp add: walk_go.simps node split_def)
    next
      case inner: False
      then have kn: "node_children nd \<noteq> []" using node_children_Nil [OF nd(2), of k] by simp
      from inner obtain c0 j0 where "(c0, j0) \<in> set (tkids t k)" by (metis list.set_intros(1) neq_Nil_conv surj_pair)
      then have pos: "0 < ht lh t" using ht_child [of c0 j0 t k lh] by simp
      let ?row = "\<lambda>((ids, cache), st). andthen (if ids = node_children nd then Inr (e, st) else rebuild H base nd ids st)
          (\<lambda>(r, st). Inr ((r, cache((e, enc k) \<mapsto> r)), st))"
      show ?thesis
      proof (cases "d < MAX_REC_DEPTH")
        case dm: True
        have "\<forall>(c, j) \<in> set (tkids t k). walks c \<and> j \<le> Suc d \<and> j \<le> MAX_REC_DEPTH \<and> Suc d + ht lh c \<le> d + ht lh t"
          using kids dm k(1) by (fastforce dest: tkids_depth ht_child [where h = lh])
        from walk_kids_ok [OF this inv node_kids_at [OF nd(2)] c] k(1) dm
        have run_kids: "runs H base ?E (sum_list (map (\<lambda>(c, j). rewrite_cost lc j c) (tkids t k)))
           (\<forall>x \<in> set (tkids t k). \<exists>i. rewritten st i x) st
           (walk_kids H base W (Suc d) (node_kids (w_under W) nd (enc k)) cache st)
           (\<lambda>(ids, cache) st'. list_all2 (rewritten st') ids (tkids t k) \<and> cache_ok st' cache)" by simp
        have "runs H base ?E ?c ?K st
          (andthen (walk_kids H base W (Suc d) (node_kids (w_under W) nd (enc k)) cache st) (\<lambda>(x, st). ?row (x, st))) (result_at k t)"
        proof (rule interns_bind [OF run_kids, where ?c2.0 = 2])
          assume ?K
          then obtain i where "expr_at base st i (with_children t (map (\<lambda>(c, j). tmap L j c) (tkids t k)))"
            unfolding tmap_node [OF inner] by blast
          from known_subterm [OF this] children_with_children [of "map (\<lambda>(c, j). tmap L j c) (tkids t k)" t]
          have "\<exists>i. expr_at base st i c" if "c \<in> set (map (\<lambda>(c, j). tmap L j c) (tkids t k))" for c
            using that tkids_fst [of t k] by (metis length_map)
          then show "\<forall>x \<in> set (tkids t k). \<exists>i. rewritten st i x" by (force simp: rewritten_def)
        next
          fix x st1
          assume 1: "good H base st st1" "(case x of (ids, cache) \<Rightarrow> \<lambda>st'. list_all2 (rewritten st') ids (tkids t k) \<and> cache_ok st' cache) st1"
            "?K \<Longrightarrow> st1 = st"
          obtain ids cache1 where x: "x = (ids, cache1)" "list_all2 (rewritten st1) ids (tkids t k)" "cache_ok st1 cache1"
            using 1(2) by (cases x) auto
          note e1 = expr_at_grows [OF e goodD(2) [OF 1(1)]] and nd1 = node_at_grows [OF nd(1) goodD(2) [OF 1(1)]]
          have "runs H base ?E 2 ?K st1
            (andthen (if ids = node_children nd then Inr (e, st1) else rebuild H base nd ids st1)
              (\<lambda>(r, st). Inr ((r, cache1((e, enc k) \<mapsto> r)), st))) (result_at k t)"
            by (rule interns_map [OF row_ok [OF inv_good [OF inv 1(1)] e1 nd1 inner x(2)]])
              (use 1(3) k(2) in \<open>auto simp: result_at_def intro!: cache_ok_insert intro: cache_ok_grows [OF x(3)] expr_at_grows [OF e1] dest!: goodD(2)\<close>)
          then show "runs H base ?E 2 ?K st1 (?row (x, st1)) (result_at k t)" by (simp add: x(1))
        qed (simp add: rewrite_cost_node [OF inner])
        with False b kn dm show ?thesis by (simp add: walk_go.simps node)
      next
        case deep: False
        have "DeepRecursion \<in> ?E" using deep pos by (intro too_deep) simp
        with False b kn deep show ?thesis by (simp add: walk_go.simps node runs_error)
      qed
    qed
  qed
qed

lemma walks_all: "walks t"
proof (induction t rule: measure_induct_rule [of "ht (\<lambda>_. 0)"])
  case (less t)
  then show ?case by (intro walks_if_kids [where ?k0.0 = 0]) (auto dest: ht_child [where h = "\<lambda>_. 0"])
qed

text \<open>The call from the root, as the public functions make it.\<close>

lemma walk_ok:
  assumes "inv st" and "expr_at base st e t"
  shows "runs H base (E (d + ht lh t)) (rewrite_cost lc 0 t) (\<exists>i. expr_at base st i (tmap L 0 t)) st
    (andthen (walk_go H base W d e (enc 0) (\<lambda>_. None) st) (\<lambda>((r, _), st). Inr (r, st)))
    (\<lambda>r st'. expr_at base st' r (tmap L 0 t))"
proof -
  have "runs H base (E (d + ht lh t)) (rewrite_cost lc 0 t) (\<exists>i. expr_at base st i (tmap L 0 t)) st
      (walk_go H base W d e (enc 0) (\<lambda>_. None) st) (result_at 0 t)"
    using walks_all [unfolded walks_def] assms cache_ok_empty by blast
  then have "runs H base (E (d + ht lh t)) (rewrite_cost lc 0 t) (\<exists>i. expr_at base st i (tmap L 0 t)) st
      (andthen (walk_go H base W d e (enc 0) (\<lambda>_. None) st) (\<lambda>(x, st). Inr (fst x, st)))
      (\<lambda>r st'. expr_at base st' r (tmap L 0 t))"
    by (rule interns_map) (auto simp: result_at_def)
  then show ?thesis by (simp add: split_def)
qed

end

end
