(* ===== verification/Local_Context.thy ===== *)
theory Local_Context
  imports Subst
begin

text \<open>
  Local contexts over ids (\<open>crates/leanr_kernel/src/local_ctx.rs\<close>) and the telescopes that are built
  from them (\<open>mk_pi\<close>, \<open>mk_lambda\<close> of \<open>subst.rs\<close>). A method that mutates the context returns the new
  one beside its result.
\<close>

record local_decl =
  ld_id :: u32
  ld_binder_name :: "u32 option"
  ld_ty :: u32
  ld_binder_info :: binder_info
  ld_value :: "u32 option"

record local_context =
  decls :: "local_decl list"
  index :: "u32 \<rightharpoonup> nat"

definition empty_context :: local_context where
  "empty_context = \<lparr>decls = [], index = (\<lambda>_. None)\<rparr>"

text \<open>\<open>FVarIdGen\<close> is its counter.\<close>

definition fresh_fvar_id :: "hashers \<Rightarrow> store option \<Rightarrow> u64 \<Rightarrow> store \<Rightarrow> ((u32 \<times> u64) \<times> store) result" where
  "fresh_fvar_id H base next_idx st =
     (let idx = next_idx; next_idx = next_idx + 1 in
      andthen (intern_str H base ''_kernel_fresh'' st) (\<lambda>(prefix_str, st).
      andthen (name_str H base None prefix_str st) (\<lambda>(prefix, st).
      andthen (intern_nat H base (unat idx) st) (\<lambda>(idx_id, st).
      andthen (name_num H base (Some prefix) idx_id st) (\<lambda>(i, st). Inr ((i, next_idx), st))))))"

definition lctx_push :: "store option \<Rightarrow> local_decl \<Rightarrow> local_context \<Rightarrow> store
    \<Rightarrow> ((u32 \<times> local_context) \<times> store) result" where
  "lctx_push base decl ctx st =
     (let ctx = ctx\<lparr>index := (index ctx)(ld_id decl \<mapsto> length (decls ctx)), decls := decls ctx @ [decl]\<rparr> in
      andthen (expr_fvar base (Some (ld_id decl)) st) (\<lambda>(i, st). Inr ((i, ctx), st)))"

definition mk_local_decl ::
    "hashers \<Rightarrow> store option \<Rightarrow> u64 \<Rightarrow> u32 option \<Rightarrow> u32 \<Rightarrow> binder_info \<Rightarrow> local_context \<Rightarrow> store
     \<Rightarrow> ((u32 \<times> local_context \<times> u64) \<times> store) result" where
  "mk_local_decl H base gen binder_name ty bi ctx st =
     andthen (fresh_fvar_id H base gen st) (\<lambda>((i, gen), st).
     andthen (lctx_push base \<lparr>ld_id = i, ld_binder_name = binder_name, ld_ty = ty, ld_binder_info = bi, ld_value = None\<rparr>
        ctx st) (\<lambda>((e, ctx), st). Inr ((e, ctx, gen), st)))"

definition mk_let_decl ::
    "hashers \<Rightarrow> store option \<Rightarrow> u64 \<Rightarrow> u32 option \<Rightarrow> u32 \<Rightarrow> u32 \<Rightarrow> local_context \<Rightarrow> store
     \<Rightarrow> ((u32 \<times> local_context \<times> u64) \<times> store) result" where
  "mk_let_decl H base gen binder_name ty val ctx st =
     andthen (fresh_fvar_id H base gen st) (\<lambda>((i, gen), st).
     andthen (lctx_push base \<lparr>ld_id = i, ld_binder_name = binder_name, ld_ty = ty, ld_binder_info = Default,
         ld_value = Some val\<rparr> ctx st) (\<lambda>((e, ctx), st). Inr ((e, ctx, gen), st)))"

definition lctx_get :: "local_context \<Rightarrow> u32 \<Rightarrow> local_decl option result" where
  "lctx_get ctx fvar_id =
     (case index ctx fvar_id of
        None \<Rightarrow> Inr None
      | Some i \<Rightarrow> andthen (expect (get_index (decls ctx) i)) (\<lambda>d. Inr (Some d)))"

definition lctx_save :: "local_context \<Rightarrow> nat" where
  "lctx_save ctx = length (decls ctx)"

text \<open>\<open>drain(checkpoint..)\<close> panics beyond the end.\<close>

fun remove_ids :: "local_decl list \<Rightarrow> (u32 \<rightharpoonup> nat) \<Rightarrow> (u32 \<rightharpoonup> nat)" where
  "remove_ids [] m = m"
| "remove_ids (d # ds) m = remove_ids ds (m(ld_id d := None))"

definition lctx_restore :: "nat \<Rightarrow> local_context \<Rightarrow> local_context result" where
  "lctx_restore checkpoint ctx =
     (if length (decls ctx) < checkpoint then Inl Panic
      else Inr (ctx\<lparr>decls := take checkpoint (decls ctx),
                    index := remove_ids (drop checkpoint (decls ctx)) (index ctx)\<rparr>))"

text \<open>\<open>Vec::remove(pos)\<close> panics out of range; the positions above \<open>pos\<close> move down by one.\<close>

definition lctx_erase :: "u32 \<Rightarrow> local_context \<Rightarrow> local_context result" where
  "lctx_erase fvar_id ctx =
     (case index ctx fvar_id of
        None \<Rightarrow> Inr ctx
      | Some pos \<Rightarrow>
          if length (decls ctx) \<le> pos then Inl Panic
          else Inr (ctx\<lparr>decls := take pos (decls ctx) @ drop (Suc pos) (decls ctx),
                        index := (\<lambda>x. map_option (\<lambda>i. if i > pos then i - 1 else i) (((index ctx)(fvar_id := None)) x))\<rparr>))"

section \<open>Telescopes\<close>

definition decl_for :: "store option \<Rightarrow> store \<Rightarrow> local_context \<Rightarrow> u32 \<Rightarrow> local_decl result" where
  "decl_for base st ctx fvar =
     andthen (expr_node base st fvar) (\<lambda>nd.
       case nd of
         NFVar (Some i) \<Rightarrow> andthen (lctx_get ctx i) expect
       | _ \<Rightarrow> Inl Panic)"

fun mk_binding_loop ::
    "hashers \<Rightarrow> store option \<Rightarrow> local_context \<Rightarrow> u32 list \<Rightarrow> bool \<Rightarrow> nat \<Rightarrow> nat \<Rightarrow> u32 \<Rightarrow> store \<Rightarrow> (u32 \<times> store) result" where
  "mk_binding_loop H base ctx fvars is_lambda g 0 r st = Inr (r, st)"
| "mk_binding_loop H base ctx fvars is_lambda g (Suc i) r st =
     andthen (expect (get_index fvars i)) (\<lambda>fvar.
     andthen (abstract_fvars H base r [fvar] g st) (\<lambda>(r, st).
     andthen (decl_for base st ctx fvar) (\<lambda>decl.
     andthen (abstract_fvars H base (ld_ty decl) (take i fvars) g st) (\<lambda>(ty2, st).
     andthen
       (case ld_value decl of
          Some val \<Rightarrow>
            andthen (abstract_fvars H base val (take i fvars) g st) (\<lambda>(value2, st).
              expr_let H base (ld_binder_name decl) ty2 value2 r False st)
        | None \<Rightarrow>
            if is_lambda then expr_lam base (ld_binder_name decl) ty2 r (ld_binder_info decl) st
            else expr_forall base (ld_binder_name decl) ty2 r (ld_binder_info decl) st)
       (\<lambda>(r, st). mk_binding_loop H base ctx fvars is_lambda g i r st)))))"

definition mk_binding ::
    "hashers \<Rightarrow> store option \<Rightarrow> local_context \<Rightarrow> u32 list \<Rightarrow> u32 \<Rightarrow> bool \<Rightarrow> nat \<Rightarrow> store \<Rightarrow> (u32 \<times> store) result" where
  "mk_binding H base ctx fvars e is_lambda g st =
     mk_binding_loop H base ctx fvars is_lambda g (length fvars) e st"

definition mk_pi ::
    "hashers \<Rightarrow> store option \<Rightarrow> local_context \<Rightarrow> u32 list \<Rightarrow> u32 \<Rightarrow> nat \<Rightarrow> store \<Rightarrow> (u32 \<times> store) result" where
  "mk_pi H base ctx fvars e g st = mk_binding H base ctx fvars e False g st"

definition mk_lambda ::
    "hashers \<Rightarrow> store option \<Rightarrow> local_context \<Rightarrow> u32 list \<Rightarrow> u32 \<Rightarrow> nat \<Rightarrow> store \<Rightarrow> (u32 \<times> store) result" where
  "mk_lambda H base ctx fvars e g st = mk_binding H base ctx fvars e True g st"

end
