(* ===== verification/Subst_Shift.thy ===== *)
theory Subst_Shift
  imports Walk Local_Context
begin

text \<open>
  The walkers that shift and replace variables meet the interface \<open>walk\<close>: \<open>lift_loose_bvars\<close> computes
  \<open>lift\<close>, \<open>lower_loose_bvars\<close> computes \<open>lower\<close>, and \<open>instantiate_core\<close> and \<open>instantiate_rev\<close> compute
  \<open>inst\<close>.
\<close>

definition deep :: "nat \<Rightarrow> kernel_error set" where
  "deep n = (if MAX_REC_DEPTH < n then {DeepRecursion} else {})"

lemma deep_mono: "m \<le> n \<Longrightarrow> deep m \<subseteq> deep n"
  by (simp add: deep_def)

lemma in_deep: "MAX_REC_DEPTH < n \<Longrightarrow> DeepRecursion \<in> deep n"
  by (simp add: deep_def)

text \<open>The offset of a depth: offsets of different depths differ, and one step is one binder.\<close>

definition fits :: "u32 \<Rightarrow> bool" where
  "fits s \<longleftrightarrow> unat s + MAX_REC_DEPTH < 2 ^ 32"

lemma fits_0 [simp]: "fits 0"
  by (simp add: fits_def MAX_REC_DEPTH_def)

lemma unat_off: "k \<le> MAX_REC_DEPTH \<Longrightarrow> unat (of_nat k :: u32) = k"
  by (simp add: unat_of_nat MAX_REC_DEPTH_def)

lemma unat_add_off: "fits s \<Longrightarrow> k \<le> MAX_REC_DEPTH \<Longrightarrow> unat (s + of_nat k) = unat s + k"
  by (simp add: fits_def unat_off unat_plus_if')

lemma off_same_key:
  "(of_nat k :: u32) = of_nat k' \<Longrightarrow> k \<le> MAX_REC_DEPTH \<Longrightarrow> k' \<le> MAX_REC_DEPTH \<Longrightarrow> tmap L k t = tmap L k' t"
  by (metis unat_off)

lemma range_skip_ok:
  assumes twf: "twf H base st" and s: "fits s" and e: "expr_at base st e t" and k: "k \<le> MAX_REC_DEPTH"
  shows "\<exists>b. range_skip base s st e (of_nat k) = Inr b \<and> (b \<longrightarrow> loose_range t \<le> unat s + k)"
proof -
  have "checked_add32 s (of_nat k) = Some (s + of_nat k)"
    using s k by (simp add: checked_add32_def unat_off fits_def)
  then show ?thesis
    using expr_data_ok [OF twfD(3) [OF twf] twfD(2) [OF twf] e] range_exact_data_of [of H t] unat_add_off [OF s k]
    by (auto simp: range_skip_def word_le_nat_alt split: option.split)
qed

lemma bvar_node:
  assumes "twf H base st" and "node_at base st e nd" and "expr_at base st e t"
  shows "is_bvar_node nd \<Longrightarrow> \<exists>n. t = EBVar n \<and> bvar_index_nat base st nd = Inr n"
    and "\<not> is_bvar_node nd \<Longrightarrow> t \<noteq> EBVar n"
proof -
  have "node_expr base st (expr_at base st) nd t" using assms(2,3) by (simp add: expr_at_node)
  then show "is_bvar_node nd \<Longrightarrow> \<exists>n. t = EBVar n \<and> bvar_index_nat base st nd = Inr n"
    "\<not> is_bvar_node nd \<Longrightarrow> t \<noteq> EBVar n"
    using pool_reads(2) [OF twfD(3) [OF assms(1)]]
    by (cases nd; auto simp: is_bvar_node_def bvar_index_nat_def)+
qed

text \<open>A leaf arm that treats variables and returns every other leaf as it is.\<close>

lemma bvar_leaf_ok:
  assumes twf: "twf H base st" and nd: "node_at base st e nd" and e: "expr_at base st e t"
    and bvar: "\<And>n. t = EBVar n \<Longrightarrow> runs H base E c (\<exists>i. expr_at base st i t') st (f n) (\<lambda>r st'. expr_at base st' r t')"
    and other: "(\<forall>n. t \<noteq> EBVar n) \<Longrightarrow> t' = t"
  shows "runs H base E c (\<exists>i. expr_at base st i t') st
    (if is_bvar_node nd
     then andthen (bvar_index_nat base st nd) (\<lambda>idx. andthen (f idx) (\<lambda>(r, st). Inr ((r, True), st)))
     else Inr ((e, True), st)) (\<lambda>(r, _) st'. expr_at base st' r t')"
proof (cases "is_bvar_node nd")
  case True
  from bvar_node(1) [OF twf nd e True] obtain n where n: "t = EBVar n" "bvar_index_nat base st nd = Inr n" by blast
  have "runs H base E c (\<exists>i. expr_at base st i t') st (andthen (f n) (\<lambda>(r, st). Inr ((r, True), st)))
      (\<lambda>(r, _) st'. expr_at base st' r t')"
    by (rule interns_map [OF bvar [OF n(1)]]) auto
  with True n(2) show ?thesis by simp
next
  case False
  then have "t' = t" using bvar_node(2) [OF twf nd e] other by blast
  with False e twfD(1) [OF twf] show ?thesis by (simp add: interns_return)
qed

lemma runs_bvar: "twf H base st \<Longrightarrow> runs H base E 2 (\<exists>i. expr_at base st i (EBVar n)) st (expr_bvar H base n st)
    (\<lambda>i st'. expr_at base st' i (EBVar n))"
  by (rule runs_weaken [OF expr_bvar_ok]) auto

section \<open>lift\<close>

lemma lift_leaf_ok:
  assumes "twf H base st" and "fits s" and "node_at base st e nd" and "expr_at base st e t" and "k \<le> MAX_REC_DEPTH"
  shows "runs H base E 2 (\<exists>i. expr_at base st i (lift_leaf (unat s) (unat d) k t)) st
    (w_leaf (lift_walker H base s d) e nd (of_nat k) g st) (\<lambda>(r, _) st'. expr_at base st' r (lift_leaf (unat s) (unat d) k t))"
  unfolding lift_walker_def walker.simps
proof (rule bvar_leaf_ok [OF assms(1,3,4)])
  fix n assume t: "t = EBVar n"
  show "runs H base E 2 (\<exists>i. expr_at base st i (lift_leaf (unat s) (unat d) k t)) st
      (if unat (s + of_nat k) \<le> n then expr_bvar H base (n + unat d) st else Inr (e, st))
      (\<lambda>r st'. expr_at base st' r (lift_leaf (unat s) (unat d) k t))"
    using assms(4) runs_bvar [OF assms(1)] twfD(1) [OF assms(1)]
    by (simp add: t lift_leaf_def unat_add_off [OF assms(2,5)] interns_return)
qed (simp add: lift_leaf_def split: expr.split)

interpretation lift_walk: walk H base "lift_walker H base s d" "lift_leaf (unat s) (unat d)" of_nat
  "\<lambda>st. twf H base st \<and> fits s" deep "\<lambda>_. 0" "\<lambda>_ _. 2" for H base s d
proof
  show "w_under (lift_walker H base s d) (of_nat j) = of_nat (Suc j)" for j by (simp add: lift_walker_def)
  show "\<exists>b. w_skip (lift_walker H base s d) st e (of_nat k) = Inr b \<and> (b \<longrightarrow> tmap (lift_leaf (unat s) (unat d)) k t = t)"
    if "twf H base st \<and> fits s" "expr_at base st e t" "k \<le> MAX_REC_DEPTH" for st e t k
    using range_skip_ok [of H base st s e t k] that by (auto simp: lift_walker_def intro: lift_below)
qed (auto intro: twf_good off_same_key in_deep lift_leaf_ok deep_mono [THEN subsetD])

abbreviation height :: "expr \<Rightarrow> nat" where
  "height \<equiv> ht (\<lambda>_. 0)"

abbreviation room :: "expr \<Rightarrow> nat" where
  "room \<equiv> rewrite_cost (\<lambda>_ _. 2) 0"

definition yields ::
    "hashers \<Rightarrow> store option \<Rightarrow> nat \<Rightarrow> nat \<Rightarrow> expr \<Rightarrow> store \<Rightarrow> (u32 \<times> store) result \<Rightarrow> bool" where
  "yields H base n c t st m \<longleftrightarrow>
     runs H base (deep n) c (\<exists>i. expr_at base st i t) st m (\<lambda>r st'. expr_at base st' r t)"

lemma yields_same: "twf H base st \<Longrightarrow> expr_at base st e t \<Longrightarrow> yields H base n c t st (Inr (e, st))"
  by (simp add: yields_def interns_return twfD(1))

lemma yields_weaken:
  "yields H base n c t st m \<Longrightarrow> n \<le> n' \<Longrightarrow> c \<le> c' \<Longrightarrow> yields H base n' c' t st m"
  unfolding yields_def by (erule runs_weaken) (auto dest: deep_mono)

lemma yields_bvar: "twf H base st \<Longrightarrow> 2 \<le> c \<Longrightarrow> yields H base m c (EBVar n) st (expr_bvar H base n st)"
  unfolding yields_def by (rule runs_weaken [OF runs_bvar]) auto

lemma lift_loose_bvars_ok:
  assumes twf: "twf H base st" and e: "expr_at base st e t" and s: "fits s"
  shows "yields H base (g + height t) (room t) (lift (unat s) (unat d) t) st (lift_loose_bvars H base e s d g st)"
proof (cases "d = 0")
  case True
  with yields_same [OF twf e] show ?thesis by (simp add: lift_loose_bvars_def)
next
  case False
  from lift_walk.walk_ok [of H base st s e t g d] twf s e show ?thesis
    using False by (simp add: lift_loose_bvars_def lift_go_def lift_def yields_def)
qed

section \<open>lower\<close>

lemma lower_leaf_ok:
  assumes "twf H base st" and "fits s" and "node_at base st e nd" and "expr_at base st e t" and "k \<le> MAX_REC_DEPTH"
  shows "runs H base E 2 (\<exists>i. expr_at base st i (lower_leaf (unat s) (unat d) k t)) st
    (w_leaf (lower_walker H base s d) e nd (of_nat k) g st) (\<lambda>(r, _) st'. expr_at base st' r (lower_leaf (unat s) (unat d) k t))"
  unfolding lower_walker_def walker.simps
proof (rule bvar_leaf_ok [OF assms(1,3,4)])
  fix n assume t: "t = EBVar n"
  have "(if unat d \<le> n then n - unat d else 0) = n - unat d" by simp
  then show "runs H base E 2 (\<exists>i. expr_at base st i (lower_leaf (unat s) (unat d) k t)) st
      (if unat (s + of_nat k) \<le> n then expr_bvar H base (if unat d \<le> n then n - unat d else 0) st else Inr (e, st))
      (\<lambda>r st'. expr_at base st' r (lower_leaf (unat s) (unat d) k t))"
    using assms(4) runs_bvar [OF assms(1)] twfD(1) [OF assms(1)]
    by (simp add: t lower_leaf_def unat_add_off [OF assms(2,5)] interns_return del: if_cancel)
qed (simp add: lower_leaf_def split: expr.split)

interpretation lower_walk: walk H base "lower_walker H base s d" "lower_leaf (unat s) (unat d)" of_nat
  "\<lambda>st. twf H base st \<and> fits s" deep "\<lambda>_. 0" "\<lambda>_ _. 2" for H base s d
proof
  show "w_under (lower_walker H base s d) (of_nat j) = of_nat (Suc j)" for j by (simp add: lower_walker_def)
  show "\<exists>b. w_skip (lower_walker H base s d) st e (of_nat k) = Inr b \<and> (b \<longrightarrow> tmap (lower_leaf (unat s) (unat d)) k t = t)"
    if "twf H base st \<and> fits s" "expr_at base st e t" "k \<le> MAX_REC_DEPTH" for st e t k
    using range_skip_ok [of H base st s e t k] that by (auto simp: lower_walker_def intro: lower_below)
qed (auto intro: twf_good off_same_key in_deep lower_leaf_ok deep_mono [THEN subsetD])

lemma lower_loose_bvars_ok:
  assumes twf: "twf H base st" and e: "expr_at base st e t" and s: "fits s"
  shows "yields H base (g + height t) (room t) (lower (unat s) (unat d) t) st (lower_loose_bvars H base e s d g st)"
proof (cases "d = 0")
  case True
  with yields_same [OF twf e] show ?thesis by (simp add: lower_loose_bvars_def)
next
  case False
  from lower_walk.walk_ok [of H base st s e t g d] twf s e show ?thesis
    using False by (simp add: lower_loose_bvars_def lower_go_def lower_def yields_def)
qed

section \<open>instantiate\<close>

text \<open>The largest value of a measure on a list: the depth and the room that the chosen element can need.\<close>

definition maxl :: "('a \<Rightarrow> nat) \<Rightarrow> 'a list \<Rightarrow> nat" where
  "maxl f xs = foldr (\<lambda>x m. max (f x) m) xs 0"

lemma maxl_ge: "x \<in> set xs \<Longrightarrow> f x \<le> maxl f xs"
  by (induction xs) (auto simp: maxl_def max_def)

text \<open>The elements in the order of the variables they replace.\<close>

definition in_order :: "bool \<Rightarrow> expr list \<Rightarrow> expr list" where
  "in_order backwards xs = (if backwards then rev xs else xs)"

lemma length_in_order [simp]: "length (in_order backwards xs) = length xs"
  by (simp add: in_order_def)

lemma biguint_to_usize_small: "v < 2 ^ 64 \<Longrightarrow> biguint_to_usize v = Inr v"
  using to_u64_digits_small [of v] by (simp add: biguint_to_usize_def first_or_0_def unat_of_nat)

lemma instantiate_bvar_ok:
  assumes twf: "twf H base st" and e: "expr_at base st e (EBVar n)" and s: "fits s" and k: "k \<le> MAX_REC_DEPTH"
    and subst: "list_all2 (expr_at base st) subst xs" and len: "length xs < 2 ^ 64"
  shows "yields H base (g + maxl height xs) (2 + maxl room xs) (inst_leaf (unat s) (in_order backwards xs) k (EBVar n)) st
    (instantiate_bvar H base e n (s + of_nat k) (of_nat k) subst backwards g st)"
proof -
  let ?w = "unat s + k"
  have l: "length subst = length xs" using subst by (rule list_all2_lengthD)
  consider "n < ?w" | "?w \<le> n" "n < ?w + length xs" | "?w + length xs \<le> n" by linarith
  then show ?thesis
  proof cases
    case 1
    with yields_same [OF twf e] show ?thesis
      by (simp add: instantiate_bvar_def unat_add_off [OF s k] inst_leaf_def)
  next
    case 2
    then obtain rel where n: "n = ?w + rel" "rel < length xs" by (metis le_Suc_ex nat_add_left_cancel_less)
    obtain i where i_def: "i = (if backwards then length xs - 1 - rel else rel)" by simp
    have i: "i < length xs" using n(2) by (auto simp: i_def)
    have x: "in_order backwards xs ! rel = xs ! i"
      using n(2) by (simp add: in_order_def rev_nth i_def)
    have at: "expr_at base st (subst ! i) (xs ! i)" using subst i by (simp add: list_all2_conv_all_nth)
    have "yields H base (g + maxl height xs) (2 + maxl room xs) (lift 0 k (xs ! i)) st
        (lift_loose_bvars H base (subst ! i) 0 (of_nat k) g st)"
      using lift_loose_bvars_ok [OF twf at fits_0, of g "of_nat k"] unfolding unat_off [OF k] unsigned_0
      by (rule yields_weaken)
        (use maxl_ge [OF nth_mem [OF i], of height] maxl_ge [OF nth_mem [OF i], of room] in simp_all)
    moreover have "inst_leaf (unat s) (in_order backwards xs) k (EBVar n) = lift 0 k (xs ! i)"
      using n by (simp add: inst_leaf_def x)
    moreover have "instantiate_bvar H base e n (s + of_nat k) (of_nat k) subst backwards g st =
        lift_loose_bvars H base (subst ! i) 0 (of_nat k) g st"
    proof -
      have "biguint_to_usize (n - ?w) = Inr rel" using n len by (simp add: biguint_to_usize_small)
      moreover have "get_index subst i = Some (subst ! i)" using i l by simp
      ultimately show ?thesis
        using n(2) unfolding instantiate_bvar_def unat_add_off [OF s k] Let_def l n(1) i_def by simp
    qed
    ultimately show ?thesis by simp
  next
    case 3
    with l yields_bvar [OF twf, of "2 + maxl room xs" "g + maxl height xs" "n - length xs"] show ?thesis by (simp add: instantiate_bvar_def unat_add_off [OF s k] inst_leaf_def Let_def)
  qed
qed

lemma inst_leaf_ok:
  assumes "twf H base st" and "fits s" and "list_all2 (expr_at base st) subst xs" and "length xs < 2 ^ 64"
    and "node_at base st e nd" and "expr_at base st e t" and "k \<le> MAX_REC_DEPTH"
  shows "runs H base (deep (g + maxl height xs)) (2 + maxl room xs)
    (\<exists>i. expr_at base st i (inst_leaf (unat s) (in_order backwards xs) k t)) st
    (w_leaf (inst_walker H base s subst backwards) e nd (of_nat k) g st)
    (\<lambda>(r, _) st'. expr_at base st' r (inst_leaf (unat s) (in_order backwards xs) k t))"
  unfolding inst_walker_def walker.simps
proof (rule bvar_leaf_ok [OF assms(1,5,6)])
  fix n assume t: "t = EBVar n"
  show "runs H base (deep (g + maxl height xs)) (2 + maxl room xs)
      (\<exists>i. expr_at base st i (inst_leaf (unat s) (in_order backwards xs) k t)) st
      (instantiate_bvar H base e n (s + of_nat k) (of_nat k) subst backwards g st)
      (\<lambda>r st'. expr_at base st' r (inst_leaf (unat s) (in_order backwards xs) k t))"
    using instantiate_bvar_ok [OF assms(1) assms(6) [unfolded t] assms(2,7,3,4)] by (simp add: yields_def t)
qed (simp add: inst_leaf_def split: expr.split)

interpretation inst_walk: walk H base "inst_walker H base s subst backwards" "inst_leaf (unat s) (in_order backwards xs)"
  of_nat "\<lambda>st. twf H base st \<and> fits s \<and> list_all2 (expr_at base st) subst xs \<and> length xs < 2 ^ 64"
  "\<lambda>n. deep (n + maxl height xs)" "\<lambda>_. 0" "\<lambda>_ _. 2 + maxl room xs" for H base s subst backwards xs
proof
  show "w_under (inst_walker H base s subst backwards) (of_nat j) = of_nat (Suc j)" for j by (simp add: inst_walker_def)
  show "\<exists>b. w_skip (inst_walker H base s subst backwards) st e (of_nat k) = Inr b
      \<and> (b \<longrightarrow> tmap (inst_leaf (unat s) (in_order backwards xs)) k t = t)"
    if "twf H base st \<and> fits s \<and> list_all2 (expr_at base st) subst xs \<and> length xs < 2 ^ 64"
      "expr_at base st e t" "k \<le> MAX_REC_DEPTH" for st e t k
    using range_skip_ok [of H base st s e t k] that by (auto simp: inst_walker_def intro: inst_below)
  show "twf H base st' \<and> fits s \<and> list_all2 (expr_at base st') subst xs \<and> length xs < 2 ^ 64"
    if "twf H base st \<and> fits s \<and> list_all2 (expr_at base st) subst xs \<and> length xs < 2 ^ 64" "good H base st st'" for st st'
    using that grown_children [OF _ goodD(2) [OF that(2)]] by (auto intro: twf_good)
  show "deep (m + maxl height xs) \<subseteq> deep (n + maxl height xs)" if "m \<le> n" for m n
    using that by (intro deep_mono) simp
  show "runs H base (deep (d + 0 + maxl height xs)) (2 + maxl room xs)
      (\<exists>i. expr_at base st i (inst_leaf (unat s) (in_order backwards xs) k t)) st
      (w_leaf (inst_walker H base s subst backwards) e nd (of_nat k) d st)
      (\<lambda>(r, _) st'. expr_at base st' r (inst_leaf (unat s) (in_order backwards xs) k t))"
    if "twf H base st \<and> fits s \<and> list_all2 (expr_at base st) subst xs \<and> length xs < 2 ^ 64" "node_at base st e nd"
      "expr_at base st e t" "k \<le> MAX_REC_DEPTH" for st e nd t k d
    using inst_leaf_ok [of H base st s subst xs e nd t k d backwards] that by simp
qed (auto intro: off_same_key in_deep)

lemma instantiate_go_ok:
  assumes "twf H base st" and "expr_at base st e t" and "fits s" and "list_all2 (expr_at base st) subst xs"
    and "length xs < 2 ^ 64"
  shows "yields H base (g + height t + maxl height xs) (rewrite_cost (\<lambda>_ _. 2 + maxl room xs) 0 t)
    (inst (unat s) (in_order backwards xs) t) st
    (andthen (instantiate_go H base e s 0 subst backwards g (\<lambda>_. None) st) (\<lambda>((r, _), st). Inr (r, st)))"
  using inst_walk.walk_ok [of H base st s subst xs e t g backwards] assms
  by (simp add: instantiate_go_def inst_def yields_def)

text \<open>The room of an instantiation: a copy of the largest replacement for every leaf.\<close>

abbreviation inst_room :: "expr list \<Rightarrow> expr \<Rightarrow> nat" where
  "inst_room xs \<equiv> rewrite_cost (\<lambda>_ _. 2 + maxl room xs) 0"

lemma instantiate_core_ok:
  assumes "twf H base st" and "expr_at base st e t" and "fits s" and "list_all2 (expr_at base st) subst xs"
    and "length xs < 2 ^ 64"
  shows "yields H base (g + height t + maxl height xs) (inst_room xs t) (inst (unat s) xs t) st
    (instantiate_core H base e s subst g st)"
proof (cases "subst = []")
  case True
  with assms(4) yields_same [OF assms(1,2)] show ?thesis by (simp add: instantiate_core_def)
next
  case False
  with instantiate_go_ok [OF assms, where backwards = False and g = g] show ?thesis
    by (simp add: instantiate_core_def in_order_def)
qed

lemma instantiate_rev_ok:
  assumes "twf H base st" and "expr_at base st e t" and "list_all2 (expr_at base st) subst xs" and "length xs < 2 ^ 64"
  shows "yields H base (g + height t + maxl height xs) (inst_room xs t) (inst 0 (rev xs) t) st
    (instantiate_rev H base e subst g st)"
proof (cases "subst = []")
  case True
  with assms(3) yields_same [OF assms(1,2)] show ?thesis by (simp add: instantiate_rev_def)
next
  case False
  with instantiate_go_ok [OF assms(1,2) fits_0 assms(3,4), where backwards = True and g = g] show ?thesis
    by (simp add: instantiate_rev_def in_order_def)
qed

lemma instantiate_ok:
  assumes "twf H base st" and "expr_at base st e t" and "expr_at base st a x"
  shows "yields H base (g + height t + height x) (rewrite_cost (\<lambda>_ _. 2 + room x) 0 t) (inst 0 [x] t) st
    (instantiate H base e a g st)"
  using instantiate_core_ok [OF assms(1,2) fits_0, of "[a]" "[x]" g] assms(3)
  by (simp add: instantiate_def maxl_def)

end
