(* ===== verification/Level_Guard.thy ===== *)
theory Level_Guard
  imports Level_Semantics
begin

text \<open>
  How the recursion guard acts on the level operations: a result that is reached at one depth is
  the result at every smaller depth (\<open>steady\<close>), the only error is \<open>DeepRecursion\<close> (\<open>guarded\<close>), and
  \<open>instantiate_params\<close> succeeds where the heights of its arguments fit.
\<close>

definition steady :: "(nat \<Rightarrow> 'a result) \<Rightarrow> bool" where
  "steady f \<longleftrightarrow> (\<forall>d d' r. f d = Inr r \<longrightarrow> d' \<le> d \<longrightarrow> f d' = Inr r)"

definition guarded :: "'a result \<Rightarrow> bool" where
  "guarded m \<longleftrightarrow> (\<forall>e. m = Inl e \<longrightarrow> e = DeepRecursion)"

named_theorems guard_intros \<open>steadiness and errors, one rule per construct\<close>

lemma steadyI: "(\<And>d d' r. f d = Inr r \<Longrightarrow> d' \<le> d \<Longrightarrow> f d' = Inr r) \<Longrightarrow> steady f"
  unfolding steady_def by blast

lemma steadyD: "steady f \<Longrightarrow> f d = Inr r \<Longrightarrow> d' \<le> d \<Longrightarrow> f d' = Inr r"
  unfolding steady_def by blast

lemma steady_const [guard_intros]: "steady (\<lambda>_. m)"
  by (simp add: steady_def)

lemma steady_andthen [guard_intros]:
  assumes f: "steady f" and g: "\<And>x. steady (g x)"
  shows "steady (\<lambda>d. andthen (f d) (\<lambda>x. g x d))"
proof (rule steadyI)
  fix d d' r assume r: "andthen (f d) (\<lambda>x. g x d) = Inr r" and d: "d' \<le> d"
  from r obtain x where x: "f d = Inr x" "g x d = Inr r" by (rule andthen_InrE)
  show "andthen (f d') (\<lambda>x. g x d') = Inr r"
    using steadyD [OF f x(1) d] steadyD [OF g x(2) d] by simp
qed

lemma steady_enter [guard_intros]:
  assumes f: "steady f" shows "steady (\<lambda>d. enter d f)"
proof (rule steadyI)
  fix d d' r assume "enter d f = Inr r" and d: "d' \<le> d"
  then have "f (Suc d) = Inr r" "d < MAX_REC_DEPTH" by (simp_all only: enter_eq_Inr_iff)
  note r = this
  have "f (Suc d') = Inr r" by (rule steadyD [OF f r(1)]) (rule Suc_le_mono [THEN iffD2, OF d])
  moreover have "d' < MAX_REC_DEPTH" using d r(2) by (rule order_le_less_trans)
  ultimately show "enter d' f = Inr r" by (simp only: enter_eq_Inr_iff)
qed

lemma steady_if [guard_intros]: "steady f \<Longrightarrow> steady g \<Longrightarrow> steady (\<lambda>d. if b then f d else g d)"
  by (cases b) simp_all

lemma steady_prod [guard_intros]: "(\<And>a b. steady (f a b)) \<Longrightarrow> steady (\<lambda>d. case x of (a, b) \<Rightarrow> f a b d)"
  by (cases x) simp

lemma guarded_return [guard_intros]: "guarded (Inr x)"
  by (simp add: guarded_def)

lemma guarded_andthen [guard_intros]: "guarded m \<Longrightarrow> (\<And>x. guarded (f x)) \<Longrightarrow> guarded (andthen m f)"
  by (cases m) (simp_all add: guarded_def)

lemma guarded_enter [guard_intros]: "(\<And>d. guarded (f d)) \<Longrightarrow> guarded (enter d f)"
  by (simp add: guarded_def enter_def)

lemma guarded_if [guard_intros]: "guarded f \<Longrightarrow> guarded g \<Longrightarrow> guarded (if b then f else g)"
  by simp

lemma guarded_prod [guard_intros]: "(\<And>a b. guarded (f a b)) \<Longrightarrow> guarded (case x of (a, b) \<Rightarrow> f a b)"
  by (cases x) simp

lemma steady_structural_eq [guard_intros]: "steady (structural_eq a b)"
proof (induction a arbitrary: b)
  case (Succ a)
  then show ?case by (cases b) (auto intro: guard_intros)
next
  case (Max a1 a2)
  then show ?case by (cases b) (auto simp: and_also_def intro!: guard_intros)
next
  case (IMax a1 a2)
  then show ?case by (cases b) (auto simp: and_also_def intro!: guard_intros)
next
  case Zero
  show ?case by (cases b) (auto intro: guard_intros)
next
  case (Param n)
  show ?case by (cases b) (auto intro: guard_intros)
next
  case (MVar n)
  show ?case by (cases b) (auto intro: guard_intros)
qed

lemma guarded_or_else [guard_intros]: "guarded m \<Longrightarrow> guarded m' \<Longrightarrow> guarded (or_else m m')"
  unfolding or_else_def by (intro guard_intros)

lemma steady_or_else [guard_intros]: "steady f \<Longrightarrow> steady g \<Longrightarrow> steady (\<lambda>d. or_else (f d) (g d))"
  unfolding or_else_def by (intro guard_intros)

lemma guarded_structural_eq [guard_intros]: "guarded (structural_eq a b d)"
  unfolding guarded_def using structural_eq_error by blast

lemma steady_has_param [guard_intros]: "steady (has_param l)"
  by (induction l) (auto intro: guard_intros)

lemma guarded_has_param [guard_intros]: "guarded (has_param l d)"
  by (induction l arbitrary: d) (auto intro!: guard_intros)

lemma guarded_has_mvar [guard_intros]: "guarded (has_mvar l d)"
  by (induction l arbitrary: d) (auto intro!: guard_intros)

lemma steady_is_never_zero [guard_intros]: "steady (is_never_zero l)"
  by (induction l) (auto intro: guard_intros)

lemma guarded_is_never_zero [guard_intros]: "guarded (is_never_zero l d)"
  by (induction l arbitrary: d) (auto intro!: guard_intros)

lemma steady_max_has_arg [guard_intros]: "steady (max_has_arg m l)"
  by (cases m) (auto simp: max_has_arg_def [abs_def] intro!: guard_intros)

lemma guarded_max_has_arg [guard_intros]: "guarded (max_has_arg m l d)"
  by (cases m) (auto simp: max_has_arg_def intro!: guard_intros)

lemma steady_mk_max_pair [guard_intros]: "steady (mk_max_pair a b)"
  unfolding mk_max_pair_def [abs_def] by (intro guard_intros)

lemma guarded_mk_max_pair [guard_intros]: "guarded (mk_max_pair a b d)"
  unfolding mk_max_pair_def [abs_def] by (intro guard_intros)

lemma steady_mk_imax_pair [guard_intros]: "steady (mk_imax_pair a b)"
  unfolding mk_imax_pair_def [abs_def] by (intro guard_intros)

lemma guarded_mk_imax_pair [guard_intros]: "guarded (mk_imax_pair a b d)"
  unfolding mk_imax_pair_def [abs_def] by (intro guard_intros)

section \<open>Substituting parameters\<close>

lemma steady_instantiate_params [guard_intros]: "steady (\<lambda>d. instantiate_params l ps as d)"
proof (induction l)
  case (Param n)
  show ?case unfolding instantiate_params.simps [of "Param n"]
    by (cases "lookup_param ps as n") (auto intro!: guard_intros)
qed (subst instantiate_params.simps, auto intro!: guard_intros)+

lemma guarded_instantiate_params [guard_intros]: "guarded (instantiate_params l ps as d)"
proof (induction l arbitrary: d)
  case (Param n)
  show ?case unfolding instantiate_params.simps [of "Param n"]
    by (cases "lookup_param ps as n") (auto intro!: guard_intros)
qed (subst instantiate_params.simps, auto intro!: guard_intros)+

lemma instantiate_params_total:
  assumes h: "\<forall>a \<in> set as. hgt a \<le> h"
  shows "d + hgt l + h \<le> MAX_REC_DEPTH \<Longrightarrow> \<exists>r s. instantiate_params l ps as d = Inr (r, s) \<and> hgt r \<le> hgt l + h"
proof (induction l arbitrary: d)
  case (Succ a)
  from Succ.IH [of "Suc d"] Succ.prems
  obtain r s where "instantiate_params a ps as (Suc d) = Inr (r, s)" "hgt r \<le> hgt a + h" by auto
  with Succ.prems show ?case
    by (subst instantiate_params.simps) (auto simp: has_param_total mk_succ_def simp del: has_param.simps)
next
  case (Max a b)
  have fits: "Suc d + hgt a + h \<le> MAX_REC_DEPTH" "Suc d + hgt b + h \<le> MAX_REC_DEPTH"
    using Max.prems by (simp_all add: max_def split: if_splits)
  from Max.IH(1) [OF fits(1)] Max.IH(2) [OF fits(2)] obtain ra sa rb sb where
    a: "instantiate_params a ps as (Suc d) = Inr (ra, sa)" "hgt ra \<le> hgt a + h" and
    b: "instantiate_params b ps as (Suc d) = Inr (rb, sb)" "hgt rb \<le> hgt b + h" by auto
  with fits obtain r where r: "mk_max_pair ra rb d = Inr r"
    using mk_max_pair_total [of d ra rb] by auto
  with a b have "hgt r \<le> hgt (Max a b) + h" using mk_max_pair_cases [OF r] by auto
  with a b r Max.prems show ?case
    by (subst instantiate_params.simps) (auto simp: has_param_total simp del: has_param.simps)
next
  case (IMax a b)
  have fits: "Suc d + hgt a + h \<le> MAX_REC_DEPTH" "Suc d + hgt b + h \<le> MAX_REC_DEPTH"
    using IMax.prems by (simp_all add: max_def split: if_splits)
  from IMax.IH(1) [OF fits(1)] IMax.IH(2) [OF fits(2)] obtain ra sa rb sb where
    a: "instantiate_params a ps as (Suc d) = Inr (ra, sa)" "hgt ra \<le> hgt a + h" and
    b: "instantiate_params b ps as (Suc d) = Inr (rb, sb)" "hgt rb \<le> hgt b + h" by auto
  with fits obtain r where r: "mk_imax_pair ra rb d = Inr r"
    using mk_imax_pair_total [of d ra rb] by auto
  with a b have "hgt r \<le> hgt (IMax a b) + h" using mk_imax_pair_cases [OF r] by auto
  with a b r IMax.prems show ?case
    by (subst instantiate_params.simps) (auto simp: has_param_total simp del: has_param.simps)
next
  case (Param n)
  show ?case using h lookup_param_in [of ps as n]
    by (subst instantiate_params.simps) (auto split: option.split)
qed (subst instantiate_params.simps, auto)+

end
