(* ===== verification/Subst_Abstract.thy ===== *)
theory Subst_Abstract
  imports Subst_Shift Level_Guard
begin

text \<open>
  The other two walkers: \<open>abstract_fvars\<close> computes \<open>abstr\<close>, and \<open>instantiate_level_params\<close> computes
  \<open>inst_lparams\<close>.
\<close>

section \<open>abstract\<close>

lemma from_end_append:
  "from_end x (xs @ [y]) = (if x = y then Some 0 else map_option Suc (from_end x xs))"
  by (induction xs) (auto split: option.splits)

lemma fvar_node:
  assumes ok: "banks_ok H base st" and f: "expr_at base st f (EFVar y)" and i: "name_at base st i x"
  obtains nd where "expr_node base st f = Inr nd" and "nd = NFVar i \<longleftrightarrow> y = x"
proof -
  from f obtain nd where nd: "node_at base st f nd" "node_expr base st (expr_at base st) nd (EFVar y)" by (rule expr_atE)
  from nd(2) obtain j where j: "nd = NFVar j" "name_at base st j y" by (cases nd) auto
  have "nd = NFVar i \<longleftrightarrow> y = x"
    using j i name_at_det name_at_inject [OF ok] by blast
  with that expr_node_ok [OF ok nd(1)] show ?thesis by blast
qed

lemma find_fvar_ok:
  assumes ok: "banks_ok H base st" and i: "name_at base st i x"
  shows "list_all2 (\<lambda>f y. expr_at base st f (EFVar y)) fvars xs \<Longrightarrow>
    find_fvar base st i (rev fvars) rel = Inr (map_option (\<lambda>k. rel + k) (from_end x xs))"
proof (induction xs arbitrary: fvars rel rule: rev_induct)
  case (snoc y xs)
  then obtain fs f where f: "fvars = fs @ [f]" "list_all2 (\<lambda>f y. expr_at base st f (EFVar y)) fs xs"
    "expr_at base st f (EFVar y)"
    by (auto simp: list_all2_append2 list_all2_Cons2)
  from f(3) obtain nd where "expr_node base st f = Inr nd" "nd = NFVar i \<longleftrightarrow> y = x" by (rule fvar_node [OF ok _ i])
  with snoc.IH [OF f(2), of "rel + 1"] f(1) show ?case
    by (auto simp: from_end_append option.map_comp comp_def)
qed simp

definition fvars_at :: "store option \<Rightarrow> store \<Rightarrow> u32 list \<Rightarrow> name list \<Rightarrow> bool" where
  "fvars_at base st fvars xs \<longleftrightarrow> list_all2 (\<lambda>f y. expr_at base st f (EFVar y)) fvars xs \<and> length xs < 2 ^ 32"

lemma fvars_at_grows: "fvars_at base st fvars xs \<Longrightarrow> grows base st st' \<Longrightarrow> fvars_at base st' fvars xs"
  unfolding fvars_at_def by (auto intro: expr_at_grows elim!: list_all2_mono)

lemma abstract_leaf_ok:
  assumes twf: "twf H base st" and fv: "fvars_at base st fvars xs" and nd: "node_at base st e nd"
    and e: "expr_at base st e t" and k: "k \<le> MAX_REC_DEPTH"
  shows "runs H base E 2 (\<exists>i. expr_at base st i (abs_leaf xs k t)) st
    (abstract_leaf H base fvars e nd (of_nat k) st) (\<lambda>(r, _) st'. expr_at base st' r (abs_leaf xs k t))"
proof (cases "\<exists>i. nd = NFVar i")
  case True
  then obtain i where i: "nd = NFVar i" by blast
  have "node_expr base st (expr_at base st) nd t" using nd e by (simp add: expr_at_node)
  with i obtain x where x: "t = EFVar x" "name_at base st i x" by auto
  have find: "find_fvar base st i (rev fvars) 0 = Inr (from_end x xs)"
    using find_fvar_ok [OF twfD(3) [OF twf] x(2), of fvars xs 0] fv by (simp add: fvars_at_def option.map_ident)
  show ?thesis
  proof (cases "from_end x xs")
    case None
    with find i x(1) e twfD(1) [OF twf] show ?thesis by (simp add: abstract_leaf_def abs_leaf_def interns_return)
  next
    case (Some r)
    then have "k + r < 2 ^ 64" using from_end_less [OF Some] fv k by (simp add: fvars_at_def MAX_REC_DEPTH_def)
    moreover have "runs H base E 2 (\<exists>i. expr_at base st i (EBVar (k + r))) st
        (andthen (expr_bvar H base (k + r) st) (\<lambda>(r, st). Inr ((r, False), st))) (\<lambda>(i, _) st'. expr_at base st' i (EBVar (k + r)))"
      by (rule interns_map [OF runs_bvar [OF twf]]) auto
    ultimately show ?thesis using find i x(1) Some by (simp add: abstract_leaf_def abs_leaf_def unat_off [OF k])
  qed
next
  case False
  have "node_expr base st (expr_at base st) nd t" using nd e by (simp add: expr_at_node)
  with False have "abs_leaf xs k t = t" by (cases nd) (auto simp: abs_leaf_def)
  moreover have "abstract_leaf H base fvars e nd (of_nat k) st = Inr ((e, True), st)"
    using False by (cases nd) (auto simp: abstract_leaf_def)
  ultimately show ?thesis using e twfD(1) [OF twf] by (simp add: interns_return)
qed

interpretation abstract_walk: walk H base "abstract_walker H base fvars" "abs_leaf xs" of_nat
  "\<lambda>st. twf H base st \<and> fvars_at base st fvars xs" deep "\<lambda>_. 0" "\<lambda>_ _. 2" for H base fvars xs
proof
  show "w_under (abstract_walker H base fvars) (of_nat j) = of_nat (Suc j)" for j by (simp add: abstract_walker_def)
  show "\<exists>b. w_skip (abstract_walker H base fvars) st e (of_nat k) = Inr b \<and> (b \<longrightarrow> tmap (abs_leaf xs) k t = t)"
    if "twf H base st \<and> fvars_at base st fvars xs" "expr_at base st e t" for st e t k
    using that expr_data_ok [OF twfD(3) twfD(2)]
    by (auto simp: abstract_walker_def has_fvar_data_of intro!: abs_closed)
  show "runs H base (deep (d + 0)) 2 (\<exists>i. expr_at base st i (abs_leaf xs k t)) st
      (w_leaf (abstract_walker H base fvars) e nd (of_nat k) d st) (\<lambda>(r, _) st'. expr_at base st' r (abs_leaf xs k t))"
    if "twf H base st \<and> fvars_at base st fvars xs" "node_at base st e nd" "expr_at base st e t" "k \<le> MAX_REC_DEPTH"
    for st e nd t k d
    using abstract_leaf_ok that by (simp add: abstract_walker_def)
qed (auto intro: twf_good off_same_key in_deep deep_mono [THEN subsetD] fvars_at_grows dest: goodD(2))

lemma abstract_fvars_ok:
  assumes twf: "twf H base st" and e: "expr_at base st e t" and fv: "fvars_at base st fvars xs"
  shows "yields H base (g + height t) (room t) (abstr xs t) st (abstract_fvars H base e fvars g st)"
proof -
  have data: "expr_data base st e = Inr (data_of H t)" by (rule expr_data_ok [OF twfD(3) [OF twf] twfD(2) [OF twf] e])
  consider "fvars = []" | "fvars_of t = {}" "fvars \<noteq> []" | "fvars_of t \<noteq> {}" "fvars \<noteq> []" by blast
  then show ?thesis
  proof cases
    case 1
    with fv yields_same [OF twf e] show ?thesis by (simp add: abstract_fvars_def fvars_at_def)
  next
    case 2
    then have "abstr xs t = t" by (simp add: abstr_def abs_closed)
    with 2 data yields_same [OF twf e] show ?thesis by (simp add: abstract_fvars_def has_fvar_data_of)
  next
    case 3
    from abstract_walk.walk_ok [of H base st fvars xs e t g] twf e fv data 3 show ?thesis
      by (simp add: abstract_fvars_def abstract_go_def abstr_def yields_def has_fvar_data_of)
  qed
qed

section \<open>instantiate_level_params\<close>

lemma runs_pure:
  assumes "run E m P" and "\<And>x. P x \<Longrightarrow> runs H base E c K st (f x) Q"
  shows "runs H base E c K st (andthen m f) Q"
  using assms by (cases m) (auto simp: runs_def)

lemma inst_level_run:
  "run (deep (d + (hgt l + maxl hgt as))) (instantiate_params l ps as d)
     (\<lambda>(r, same). r = inst_level ps as l \<and> (same \<longrightarrow> r = l))"
proof (cases "instantiate_params l ps as d")
  case (Inl e)
  then have "\<not> d + hgt l + maxl hgt as \<le> MAX_REC_DEPTH"
    using instantiate_params_total [of as "maxl hgt as" d l ps] maxl_ge [of _ as hgt] by auto
  moreover have "e = DeepRecursion" using guarded_instantiate_params [of l ps as d] Inl by (simp add: guarded_def)
  ultimately show ?thesis using Inl by (simp add: deep_def)
next
  case (Inr x)
  obtain r same where x: "x = (r, same)" by (cases x)
  have "instantiate_params l ps as 0 = Inr (r, same)"
    using steadyD [OF steady_instantiate_params, of l ps as d "(r, same)" 0] Inr x by simp
  with Inr x instantiate_params_unchanged [of l ps as d r] show ?thesis by (auto simp: inst_level_def)
qed

definition lparams_height :: "level list \<Rightarrow> expr \<Rightarrow> nat" where
  "lparams_height as t =
     (case t of ESort l \<Rightarrow> hgt l + maxl hgt as | EConst _ ls \<Rightarrow> maxl hgt ls + maxl hgt as | _ \<Rightarrow> 0)"

definition lparams_cost :: "name list \<Rightarrow> level list \<Rightarrow> nat \<Rightarrow> expr \<Rightarrow> nat" where
  "lparams_cost ps as k t =
     (case t of ESort l \<Rightarrow> level_cost (inst_level ps as l) + 1
      | EConst _ ls \<Rightarrow> levels_cost (map (inst_level ps as) ls) + 2 | _ \<Rightarrow> 0)"

lemma runs_intern_level:
  "twf H base st \<Longrightarrow> runs H base E (level_cost l) (\<exists>i. level_at base st i l) st (intern_level H base l st)
    (\<lambda>i st'. level_at base st' i l)"
  by (rule runs_weaken [OF intern_level_ok [OF twfD(1), unfolded makes_def]]) auto

lemma runs_level_list:
  "twf H base st \<Longrightarrow> list_all2 (level_at base st) l ls \<Longrightarrow>
     runs H base E 1 (\<exists>j. list_ent base st j = Some l) st (intern_level_list H base l st) (\<lambda>j st'. levels_at base st' j ls)"
  by (rule runs_weaken [OF intern_level_list_ok [OF twfD(1)]]) auto

lemma lparams_levels_ok:
  "twf H base st \<Longrightarrow> list_all2 (level_at base st) ids ls \<Longrightarrow> list_all2 (level_at base st) out done_ls \<Longrightarrow>
     \<forall>l \<in> set ls. hgt l \<le> h \<Longrightarrow>
     runs H base (deep (d + (h + maxl hgt as))) (levels_cost (map (inst_level ps as) ls))
       (\<forall>l \<in> set ls. \<exists>i. level_at base st i (inst_level ps as l)) st (lparams_levels H base ps as d ids changed out st)
       (\<lambda>(ch, out') st'. list_all2 (level_at base st') out' (done_ls @ map (inst_level ps as) ls)
          \<and> (\<not> ch \<longrightarrow> \<not> changed \<and> map (inst_level ps as) ls = ls))"
proof (induction ls arbitrary: ids out done_ls changed st)
  case Nil
  then show ?case by (simp add: interns_return twfD(1))
next
  case (Cons l ls)
  from Cons.prems(2) obtain i is' where ids: "ids = i # is'" "level_at base st i l" "list_all2 (level_at base st) is' ls"
    by (auto simp: list_all2_Cons2)
  let ?l = "inst_level ps as l"
  let ?K = "\<forall>l \<in> set (l # ls). \<exists>i. level_at base st i (inst_level ps as l)"
  let ?E = "deep (d + (h + maxl hgt as))" and ?c = "levels_cost (map (inst_level ps as) ls)"
  let ?Q = "\<lambda>(ch, out') st'. list_all2 (level_at base st') out' (done_ls @ map (inst_level ps as) (l # ls))
      \<and> (\<not> ch \<longrightarrow> \<not> changed \<and> map (inst_level ps as) (l # ls) = l # ls)"
  have rest: "runs H base ?E ?c ?K st1 (lparams_levels H base ps as d is' ch (out @ [j]) st1) ?Q"
    if "good H base st st1" "level_at base st1 j ?l" "?K \<Longrightarrow> st1 = st" "\<not> ch \<Longrightarrow> \<not> changed \<and> ?l = l" for j ch st1
  proof -
    note g = goodD(2) [OF that(1)]
    have out: "list_all2 (level_at base st1) (out @ [j]) (done_ls @ [?l])"
      using list_level_at_grows [OF Cons.prems(3) g] that(2) by (simp add: list_all2_appendI)
    have h: "\<forall>l \<in> set ls. hgt l \<le> h" using Cons.prems(4) by simp
    show ?thesis
      by (rule interns_weaken [OF Cons.IH [OF twf_good [OF Cons.prems(1) that(1)] list_level_at_grows [OF ids(3) g] out h]])
        (use that(3,4) in auto)
  qed
  show ?case unfolding ids(1) lparams_levels.simps to_level_ok [OF twfD(3) [OF Cons.prems(1)] ids(2)] andthen_Inr
  proof (rule runs_pure)
    have "deep (d + (hgt l + maxl hgt as)) \<subseteq> ?E" using Cons.prems(4) by (intro deep_mono) simp
    then show "run ?E (instantiate_params l ps as d) (\<lambda>(r, same). r = ?l \<and> (same \<longrightarrow> r = l))"
      by (rule run_mono [OF inst_level_run, rotated]) simp
    fix x assume "case x of (r, same) \<Rightarrow> r = ?l \<and> (same \<longrightarrow> r = l)"
    then obtain same where x: "x = (?l, same)" "same \<longrightarrow> ?l = l" by auto
    show "runs H base ?E (levels_cost (map (inst_level ps as) (l # ls))) ?K st
       (case x of (al2, same) \<Rightarrow> if same then lparams_levels H base ps as d is' changed (out @ [i]) st
          else andthen (intern_level H base al2 st) (\<lambda>(lid2, st). lparams_levels H base ps as d is' True (out @ [lid2]) st)) ?Q"
    proof (cases same)
      case True
      with x have "?l = l" by simp
      with True x(1) rest [of st i changed] ids(2) good_refl [OF twfD(1) [OF Cons.prems(1)]] show ?thesis
        by (auto elim!: interns_weaken)
    next
      case False
      have "runs H base ?E (level_cost ?l + ?c) ?K st (andthen (intern_level H base ?l st)
          (\<lambda>(lid2, st). lparams_levels H base ps as d is' True (out @ [lid2]) st)) ?Q"
      proof (rule interns_bind [OF runs_intern_level [OF Cons.prems(1)]])
        fix j st1 assume "good H base st st1" "level_at base st1 j ?l" "?K \<Longrightarrow> st1 = st"
        then show "runs H base ?E ?c ?K st1 (lparams_levels H base ps as d is' True (out @ [j]) st1) ?Q" by (rule rest) (simp_all only: not_True_eq_False)
      qed auto
      with False x(1) show ?thesis by simp
    qed
  qed
qed

lemma lparams_sort_ok:
  assumes twf: "twf H base st" and e: "expr_at base st e (ESort l)" and i: "level_at base st i l"
  shows "runs H base (deep (d + lparams_height as (ESort l))) (lparams_cost ps as k (ESort l))
    (\<exists>j. expr_at base st j (lparams_leaf ps as k (ESort l))) st (lparams_leaf_ids H base ps as e (NSort i) d st)
    (\<lambda>r st'. expr_at base st' r (lparams_leaf ps as k (ESort l)))"
proof -
  let ?l = "inst_level ps as l" and ?E = "deep (d + (hgt l + maxl hgt as))"
  let ?K = "\<exists>j. expr_at base st j (ESort ?l)"
  have "runs H base ?E (level_cost ?l + 1) ?K st
      (andthen (instantiate_params l ps as d) (\<lambda>(al2, same). if same then Inr (e, st)
         else andthen (intern_level H base al2 st) (\<lambda>(level2, st). expr_sort base level2 st)))
      (\<lambda>r st'. expr_at base st' r (ESort ?l))"
  proof (rule runs_pure [OF inst_level_run])
    fix x assume "case x of (r, same) \<Rightarrow> r = ?l \<and> (same \<longrightarrow> r = l)"
    then obtain same where x: "x = (?l, same)" "same \<longrightarrow> ?l = l" by auto
    have "runs H base ?E (level_cost ?l + 1) ?K st
        (andthen (intern_level H base ?l st) (\<lambda>(level2, st). expr_sort base level2 st)) (\<lambda>r st'. expr_at base st' r (ESort ?l))"
    proof (rule interns_bind [OF runs_intern_level [OF twf]])
      fix j st1 assume 1: "good H base st st1" "level_at base st1 j ?l" "?K \<Longrightarrow> st1 = st"
      show "runs H base ?E 1 ?K st1 (expr_sort base j st1) (\<lambda>r st'. expr_at base st' r (ESort ?l))"
        by (rule runs_weaken [OF expr_sort_ok [OF twf_good [OF twf 1(1)] 1(2)]]) (use 1(3) in auto)
    qed (auto dest: known_parts)
    with x e twfD(1) [OF twf] show "runs H base ?E (level_cost ?l + 1) ?K st
        (case x of (al2, same) \<Rightarrow> if same then Inr (e, st)
         else andthen (intern_level H base al2 st) (\<lambda>(level2, st). expr_sort base level2 st))
        (\<lambda>r st'. expr_at base st' r (ESort ?l))" by (auto simp: interns_return)
  qed
  then show ?thesis
    by (simp add: lparams_leaf_ids_def to_level_ok [OF twfD(3) [OF twf] i] lparams_height_def lparams_cost_def lparams_leaf_def)
qed

lemma lparams_const_ok:
  assumes twf: "twf H base st" and e: "expr_at base st e (EConst n ls)" and x: "name_at base st x n" and i: "levels_at base st i ls"
  shows "runs H base (deep (d + lparams_height as (EConst n ls))) (lparams_cost ps as k (EConst n ls))
    (\<exists>j. expr_at base st j (lparams_leaf ps as k (EConst n ls))) st (lparams_leaf_ids H base ps as e (NConst x i) d st)
    (\<lambda>r st'. expr_at base st' r (lparams_leaf ps as k (EConst n ls)))"
proof -
  let ?ls = "map (inst_level ps as) ls" and ?E = "deep (d + (maxl hgt ls + maxl hgt as))"
  let ?K = "\<exists>j. expr_at base st j (EConst n ?ls)" and ?Q = "\<lambda>r st'. expr_at base st' r (EConst n ?ls)"
  from i obtain ids where ids: "list_ent base st i = Some ids" "list_all2 (level_at base st) ids ls" by (auto simp: levels_at_def)
  have heights: "\<forall>l \<in> set ls. hgt l \<le> maxl hgt ls" by (auto intro: maxl_ge)
  have "runs H base ?E (levels_cost ?ls + 2) ?K st
      (andthen (lparams_levels H base ps as d ids False [] st) (\<lambda>((changed, out), st). if changed
         then andthen (intern_level_list H base out st) (\<lambda>(ls, st). expr_const base x ls st) else Inr (e, st))) ?Q"
  proof (rule interns_bind [OF lparams_levels_ok [OF twf ids(2) _ heights, where done_ls = "[]"]])
    assume ?K
    then show "\<forall>l \<in> set ls. \<exists>i. level_at base st i (inst_level ps as l)"
      using levels_at_known by (fastforce dest!: known_parts(5))
  next
    fix y st1
    assume 1: "good H base st st1" "(case y of (ch, out') \<Rightarrow> \<lambda>st'. list_all2 (level_at base st') out' ([] @ ?ls)
        \<and> (\<not> ch \<longrightarrow> \<not> False \<and> ?ls = ls)) st1" "?K \<Longrightarrow> st1 = st"
    obtain ch out where y: "y = (ch, out)" "list_all2 (level_at base st1) out ?ls" "\<not> ch \<Longrightarrow> ?ls = ls"
      using 1(2) by (cases y) auto
    note twf1 = twf_good [OF twf 1(1)]
    have known: "\<exists>j. list_ent base st1 j = Some out" if ?K
    proof -
      from that obtain j' where "levels_at base st j' ?ls" by (blast dest: known_parts(5))
      then obtain j l where l: "list_ent base st j = Some l" "list_all2 (level_at base st) l ?ls" by (auto simp: levels_at_def)
      with list_level_at_inject [OF twfD(3) [OF twf1] y(2)] 1(3) [OF that] show ?thesis by blast
    qed
    have "runs H base ?E 2 ?K st1 (andthen (intern_level_list H base out st1) (\<lambda>(ls, st). expr_const base x ls st)) ?Q"
    proof (rule interns_bind [OF runs_level_list [OF twf1 y(2)]])
      fix j st2 assume 2: "good H base st1 st2" "levels_at base st2 j ?ls" "?K \<Longrightarrow> st2 = st1"
      have "name_at base st2 x n"
        using name_at_grows [OF name_at_grows [OF x goodD(2) [OF 1(1)]] goodD(2) [OF 2(1)]] .
      then show "runs H base ?E 1 ?K st2 (expr_const base x j st2) ?Q"
        by (rule runs_weaken [OF expr_const_ok [OF twf_good [OF twf1 2(1)] _ 2(2)]]) (use 1(3) 2(3) in auto)
    qed (use known in auto)
    moreover have "runs H base ?E 2 ?K st1 (Inr (e, st1)) ?Q" if "\<not> ch"
      using y(3) [OF that] expr_at_grows [OF e goodD(2) [OF 1(1)]] twfD(1) [OF twf1] by (simp add: interns_return)
    ultimately show "runs H base ?E 2 ?K st1
        ((case y of (changed, out) \<Rightarrow> \<lambda>st. if changed
           then andthen (intern_level_list H base out st) (\<lambda>(ls, st). expr_const base x ls st) else Inr (e, st)) st1) ?Q"
      by (simp add: y(1))
  qed auto
  then show ?thesis
    by (simp add: lparams_leaf_ids_def pool_reads(4) [OF twfD(3) [OF twf] ids(1)] lparams_height_def lparams_cost_def
        lparams_leaf_def split_def)
qed

interpretation lparams_walk: walk H base "lparams_walker H base ps as" "lparams_leaf ps as" "\<lambda>_. 0"
  "twf H base" deep "lparams_height as" "lparams_cost ps as" for H base ps as
proof
  have "tmap (lparams_leaf ps as) k t = tmap (lparams_leaf ps as) k' t" for k k' t
    by (induction t arbitrary: k k') (auto simp: lparams_leaf_def)
  then show "tmap (lparams_leaf ps as) k t = tmap (lparams_leaf ps as) k' t" for k k' t .
  show "\<exists>b. w_skip (lparams_walker H base ps as) st e 0 = Inr b \<and> (b \<longrightarrow> tmap (lparams_leaf ps as) k t = t)"
    if "twf H base st" "expr_at base st e t" for st e t k
    using that expr_data_ok [OF twfD(3) twfD(2)]
    by (auto simp: lparams_walker_def has_level_param_data_of intro!: lparams_closed)
  show "runs H base (deep (d + lparams_height as t)) (lparams_cost ps as k t)
      (\<exists>i. expr_at base st i (lparams_leaf ps as k t)) st (w_leaf (lparams_walker H base ps as) e nd 0 d st)
      (\<lambda>(r, _) st'. expr_at base st' r (lparams_leaf ps as k t))"
    if "twf H base st" "node_at base st e nd" "expr_at base st e t" for st e nd t k d
  proof -
    from that have ne: "node_expr base st (expr_at base st) nd t" by (simp add: expr_at_node)
    have "runs H base (deep (d + lparams_height as t)) (lparams_cost ps as k t)
        (\<exists>i. expr_at base st i (lparams_leaf ps as k t)) st (lparams_leaf_ids H base ps as e nd d st)
        (\<lambda>r st'. expr_at base st' r (lparams_leaf ps as k t))"
    proof (cases nd)
      case (NSort i)
      with ne that(3) lparams_sort_ok [OF that(1)] show ?thesis by auto
    next
      case (NConst x i)
      with ne that(3) lparams_const_ok [OF that(1)] show ?thesis by auto
    qed (use ne that(3) twfD(1) [OF that(1)] in
        \<open>auto simp: lparams_leaf_ids_def lparams_leaf_def intro!: interns_return\<close>)
    then have "runs H base (deep (d + lparams_height as t)) (lparams_cost ps as k t)
        (\<exists>i. expr_at base st i (lparams_leaf ps as k t)) st
        (andthen (lparams_leaf_ids H base ps as e nd d st) (\<lambda>(r, st). Inr ((r, True), st)))
        (\<lambda>(r, _) st'. expr_at base st' r (lparams_leaf ps as k t))"
      by (rule interns_map) auto
    then show ?thesis by (simp add: lparams_walker_def)
  qed
qed (auto intro: twf_good in_deep deep_mono [THEN subsetD] simp: lparams_walker_def twfD)

lemma to_names_ok: "banks_ok H base st \<Longrightarrow> list_all2 (\<lambda>i n. name_at base st (Some i) n) ids ns \<Longrightarrow> to_names base st ids = Inr ns"
  by (induction ids arbitrary: ns) (auto simp: list_all2_Cons1 to_name_ok)

text \<open>The depth and the room of the substitution of parameters in a tree.\<close>

abbreviation lparams_depth :: "level list \<Rightarrow> expr \<Rightarrow> nat" where
  "lparams_depth as \<equiv> ht (lparams_height as)"

abbreviation lparams_room :: "name list \<Rightarrow> level list \<Rightarrow> expr \<Rightarrow> nat" where
  "lparams_room ps as \<equiv> rewrite_cost (lparams_cost ps as) 0"

lemma instantiate_level_params_ok:
  assumes twf: "twf H base st" and e: "expr_at base st e t"
    and ps: "list_all2 (\<lambda>i n. name_at base st (Some i) n) params ps" and as: "list_all2 (level_at base st) args as"
  shows "yields H base (g + lparams_depth as t) (lparams_room ps as t) (inst_lparams ps as t) st
    (instantiate_level_params H base e params args g st)"
proof -
  have data: "expr_data base st e = Inr (data_of H t)" by (rule expr_data_ok [OF twfD(3) [OF twf] twfD(2) [OF twf] e])
  show ?thesis
  proof (cases "\<exists>l \<in> set (expr_levels t). params_of l \<noteq> {}")
    case True
    with lparams_walk.walk_ok [OF twf e, of g as ps] data show ?thesis
      by (simp add: instantiate_level_params_def has_level_param_data_of to_names_ok [OF twfD(3) [OF twf] ps]
          to_levels_ok [OF twfD(3) [OF twf] as] lparams_go_def inst_lparams_def yields_def)
  next
    case False
    then have "inst_lparams ps as t = t" by (simp add: inst_lparams_def lparams_closed)
    with False data yields_same [OF twf e] show ?thesis
      by (simp add: instantiate_level_params_def has_level_param_data_of)
  qed
qed

end
