(* ===== verification/Binding_Algebra.thy ===== *)
theory Binding_Algebra
  imports Binding
begin

text \<open>
  The laws of the reference operations: \<open>lower\<close> undoes \<open>lift\<close>, instantiating with the variables that
  were abstracted gives the tree back and the other way round, lifts add up, and what each
  operation does to loose and free variables.
\<close>

lemma lower_lift: "lower s d (lift s d t) = t"
proof -
  have "tmap (lower_leaf s d) k (tmap (lift_leaf s d) k t) = t" for k
    by (induction t arbitrary: k) (auto simp: lift_leaf_def lower_leaf_def)
  then show ?thesis by (simp add: lift_def lower_def)
qed

lemma lift_lift: "lift s a (lift s b t) = lift s (a + b) t"
proof -
  have "tmap (lift_leaf s a) k (tmap (lift_leaf s b) k t) = tmap (lift_leaf s (a + b)) k t" for k
    by (induction t arbitrary: k) (auto simp: lift_leaf_def)
  then show ?thesis by (simp add: lift_def)
qed

lemma lift_closed: "loose_range t \<le> s \<Longrightarrow> lift s d t = t"
  using lift_below [of t s 0] by (simp add: lift_def)

lemma inst_closed: "loose_range t \<le> s \<Longrightarrow> inst s xs t = t"
  using inst_below [of t s 0] by (simp add: inst_def)

lemma lift_fvar [simp]: "lift s d (EFVar x) = EFVar x"
  by (simp add: lift_def lift_leaf_def)

lemma from_end_nth: "from_end x xs = Some i \<Longrightarrow> rev xs ! i = x"
  by (induction xs) (auto simp: nth_append split: option.splits if_splits dest: from_end_less)

text \<open>Abstracting variables and instantiating them again, innermost last as \<open>instantiate_rev\<close> has it.\<close>

lemma inst_abstr_at:
  "loose_range t \<le> k \<Longrightarrow> tmap (inst_leaf 0 (rev (map EFVar xs))) k (tmap (abs_leaf xs) k t) = t"
proof (induction t arbitrary: k)
  case (EFVar x)
  show ?case
  proof (cases "from_end x xs")
    case (Some i)
    then have "rev (map EFVar xs) ! i = EFVar x" using from_end_nth [OF Some] from_end_less [OF Some]
      by (simp add: rev_map)
    with Some from_end_less [OF Some] show ?thesis by (simp add: abs_leaf_def inst_leaf_def)
  qed (simp add: abs_leaf_def inst_leaf_def)
qed (auto simp: abs_leaf_def inst_leaf_def)

lemma inst_abstr: "loose_range t = 0 \<Longrightarrow> inst 0 (rev (map EFVar xs)) (abstr xs t) = t"
  using inst_abstr_at [of t 0] by (simp add: inst_def abstr_def)

lemma from_end_distinct: "distinct xs \<Longrightarrow> i < length xs \<Longrightarrow> from_end (rev xs ! i) xs = Some i"
proof (induction xs arbitrary: i)
  case (Cons x xs)
  show ?case
  proof (cases "i < length xs")
    case True
    with Cons show ?thesis by (simp add: nth_append)
  next
    case False
    with Cons.prems have "rev (x # xs) ! i = x" "i = length xs" by (auto simp: nth_append less_Suc_eq)
    moreover have "from_end x xs = None" using Cons.prems(1) by (simp add: from_end_None)
    ultimately show ?thesis by simp
  qed
qed simp

lemma abstr_inst_at:
  "distinct xs \<Longrightarrow> set xs \<inter> fvars_of t = {} \<Longrightarrow> loose_range t \<le> k + length xs \<Longrightarrow>
     tmap (abs_leaf xs) k (tmap (inst_leaf 0 (rev (map EFVar xs))) k t) = t"
proof (induction t arbitrary: k)
  case (EBVar n)
  show ?case
  proof (cases "n < k")
    case False
    with EBVar.prems(3) have i: "n - k < length xs" by simp
    then have "rev (map EFVar xs) ! (n - k) = EFVar (rev xs ! (n - k))" by (simp add: rev_map)
    with False i from_end_distinct [OF EBVar.prems(1) i] show ?thesis
      by (simp add: inst_leaf_def abs_leaf_def)
  qed (simp add: inst_leaf_def abs_leaf_def)
qed (auto simp: abs_leaf_def inst_leaf_def from_end_None [THEN iffD2] Int_Un_distrib)

lemma abstr_inst:
  "distinct xs \<Longrightarrow> set xs \<inter> fvars_of t = {} \<Longrightarrow> loose_range t \<le> length xs \<Longrightarrow>
     abstr xs (inst 0 (rev (map EFVar xs)) t) = t"
  using abstr_inst_at [of xs t 0] by (simp add: inst_def abstr_def)

section \<open>Variables\<close>

lemma fvars_abstr: "fvars_of (tmap (abs_leaf xs) k t) = fvars_of t - set xs"
proof (induction t arbitrary: k)
  case (EFVar x)
  show ?case using from_end_None [of x xs] by (cases "from_end x xs") (auto simp: abs_leaf_def)
qed (auto simp: abs_leaf_def)

lemma range_abstr:
  "loose_range t \<le> m \<Longrightarrow> k + length xs \<le> m \<Longrightarrow> loose_range (tmap (abs_leaf xs) k t) \<le> m"
proof (induction t arbitrary: k m)
  case (EFVar x)
  then show ?case by (auto simp: abs_leaf_def Suc_le_eq dest: from_end_less split: option.split)
qed (auto simp: abs_leaf_def le_diff_conv)

lemma range_inst:
  "\<forall>x \<in> set xs. loose_range x = 0 \<Longrightarrow> loose_range t \<le> k + length xs \<Longrightarrow> loose_range (tmap (inst_leaf 0 xs) k t) \<le> k"
proof (induction t arbitrary: k)
  case (EBVar n)
  then show ?case by (auto simp: inst_leaf_def lift_closed)
qed (auto simp: inst_leaf_def le_diff_conv)

text \<open>Instantiating a term by closed terms closes it.\<close>

lemma inst_closes:
  "\<forall>x \<in> set xs. loose_range x = 0 \<Longrightarrow> loose_range t \<le> length xs \<Longrightarrow> loose_range (inst 0 xs t) = 0"
  using range_inst [of xs t 0] by (simp add: inst_def)

end
