(* ===== verification/Context_Contracts.thy ===== *)
theory Context_Contracts
  imports Subst_Abstract Binding_Algebra
begin

text \<open>
  Local contexts: the index of a context is exactly the position of every declaration (\<open>ctx_ok\<close>),
  under each method; fresh ids are new; and \<open>mk_binding\<close>, which abstracts one variable at a time as
  it folds the telescope, gives the telescope of the reference definition \<open>telescope\<close>, which
  abstracts the body over all variables at once.
\<close>

section \<open>The index\<close>

definition ctx_ok :: "local_context \<Rightarrow> bool" where
  "ctx_ok ctx \<longleftrightarrow> (\<forall>x i. index ctx x = Some i \<longleftrightarrow> i < length (decls ctx) \<and> ld_id (decls ctx ! i) = x)"

definition ids :: "local_context \<Rightarrow> u32 list" where
  "ids ctx = map ld_id (decls ctx)"

lemma ctx_ok_empty: "ctx_ok empty_context"
  by (simp add: ctx_ok_def empty_context_def)

lemma ctx_okD: "ctx_ok ctx \<Longrightarrow> index ctx x = Some i \<longleftrightarrow> i < length (decls ctx) \<and> ld_id (decls ctx ! i) = x"
  by (simp add: ctx_ok_def)

lemma ctx_ok_distinct: "ctx_ok ctx \<Longrightarrow> distinct (ids ctx)"
  unfolding ids_def distinct_conv_nth by (simp, metis ctx_okD option.inject)

lemma ctx_ok_dom: "ctx_ok ctx \<Longrightarrow> index ctx x = None \<longleftrightarrow> x \<notin> set (ids ctx)"
  unfolding ids_def in_set_conv_nth by (simp, metis ctx_okD not_None_eq)

lemma lctx_get_ok: "ctx_ok ctx \<Longrightarrow> lctx_get ctx x = Inr (find (\<lambda>d. ld_id d = x) (decls ctx))"
proof (cases "index ctx x")
  case None
  assume "ctx_ok ctx"
  with None have "find (\<lambda>d. ld_id d = x) (decls ctx) = None" by (auto simp: find_None_iff ctx_ok_dom ids_def)
  with None show ?thesis by (simp add: lctx_get_def)
next
  case (Some i)
  assume ok: "ctx_ok ctx"
  with Some have i: "i < length (decls ctx)" "ld_id (decls ctx ! i) = x" by (simp_all add: ctx_okD)
  have "find (\<lambda>d. ld_id d = x) (decls ctx) = Some (decls ctx ! i)"
    unfolding find_Some_iff using i ctx_ok_distinct [OF ok]
    by (intro exI [of _ i]) (auto simp: ids_def distinct_conv_nth)
  with Some i show ?thesis by (simp add: lctx_get_def)
qed

lemma ctx_ok_push:
  assumes "ctx_ok ctx" and "ld_id decl \<notin> set (ids ctx)"
  shows "ctx_ok (ctx\<lparr>index := (index ctx)(ld_id decl \<mapsto> length (decls ctx)), decls := decls ctx @ [decl]\<rparr>)"
proof -
  have "\<forall>i < length (decls ctx). ld_id (decls ctx ! i) \<noteq> ld_id decl"
    using assms(2) unfolding ids_def by (metis length_map nth_map nth_mem)
  then show ?thesis
    using assms(1) by (auto simp: ctx_ok_def nth_append less_Suc_eq split: if_splits)
qed

lemma remove_ids_eq: "remove_ids ds m x = (if x \<in> set (map ld_id ds) then None else m x)"
  by (induction ds arbitrary: m) auto

lemma lctx_restore_ok:
  assumes ok: "ctx_ok ctx" and cp: "cp \<le> length (decls ctx)"
  obtains ctx' where "lctx_restore cp ctx = Inr ctx'" and "ctx_ok ctx'" and "decls ctx' = take cp (decls ctx)"
proof -
  let ?ctx = "ctx\<lparr>decls := take cp (decls ctx), index := remove_ids (drop cp (decls ctx)) (index ctx)\<rparr>"
  have "ctx_ok ?ctx"
    unfolding ctx_ok_def
  proof (intro allI)
    fix x i
    have d: "distinct (map ld_id (take cp (decls ctx)) @ map ld_id (drop cp (decls ctx)))"
      using ctx_ok_distinct [OF ok] by (simp add: ids_def flip: map_append)
    show "index ?ctx x = Some i \<longleftrightarrow> i < length (decls ?ctx) \<and> ld_id (decls ?ctx ! i) = x"
    proof (cases "x \<in> set (map ld_id (drop cp (decls ctx)))")
      case True
      have "ld_id (decls ctx ! i) \<noteq> x" if "i < cp"
      proof -
        from that cp have "ld_id (decls ctx ! i) \<in> set (map ld_id (take cp (decls ctx)))"
          using nth_mem [of i "map ld_id (take cp (decls ctx))"] by simp
        with True d show ?thesis by auto
      qed
      with True cp show ?thesis by (auto simp: remove_ids_eq)
    next
      case False
      have "i < cp" if "index ctx x = Some i"
      proof (rule ccontr)
        assume "\<not> i < cp"
        with that ctx_okD [OF ok] have "i - cp < length (map ld_id (drop cp (decls ctx)))"
          "map ld_id (drop cp (decls ctx)) ! (i - cp) = x" by auto
        then have "x \<in> set (map ld_id (drop cp (decls ctx)))" by (metis nth_mem)
        with False show False ..
      qed
      with False cp ctx_okD [OF ok] show ?thesis by (auto simp: remove_ids_eq)
    qed
  qed
  with cp that [of ?ctx] show ?thesis by (simp add: lctx_restore_def)
qed

lemma lctx_erase_ok:
  assumes ok: "ctx_ok ctx"
  obtains ctx' where "lctx_erase x ctx = Inr ctx'" and "ctx_ok ctx'"
    and "decls ctx' = filter (\<lambda>d. ld_id d \<noteq> x) (decls ctx)"
proof (cases "index ctx x")
  case None
  with ok have "filter (\<lambda>d. ld_id d \<noteq> x) (decls ctx) = decls ctx"
    by (auto simp: ctx_ok_dom ids_def filter_id_conv)
  with None ok that [of ctx] show ?thesis by (simp add: lctx_erase_def)
next
  case (Some p)
  with ok have p: "p < length (decls ctx)" "ld_id (decls ctx ! p) = x" by (simp_all add: ctx_okD)
  let ?ds = "take p (decls ctx) @ drop (Suc p) (decls ctx)"
  let ?ctx = "ctx\<lparr>decls := ?ds, index := (\<lambda>y. map_option (\<lambda>i. if i > p then i - 1 else i) (((index ctx)(x := None)) y))\<rparr>"
  have d: "distinct (map ld_id (decls ctx))" using ctx_ok_distinct [OF ok] by (simp add: ids_def)
  have split: "decls ctx = take p (decls ctx) @ decls ctx ! p # drop (Suc p) (decls ctx)"
    using p(1) by (rule id_take_nth_drop)
  have "x \<notin> ld_id ` set ?ds" using d p(2) by (subst (asm) split) auto
  then have "filter (\<lambda>d. ld_id d \<noteq> x) ?ds = ?ds" unfolding filter_id_conv by (metis imageI)
  with p(2) have "filter (\<lambda>d. ld_id d \<noteq> x) (take p (decls ctx) @ decls ctx ! p # drop (Suc p) (decls ctx)) = ?ds" by simp
  then have filter: "filter (\<lambda>d. ld_id d \<noteq> x) (decls ctx) = ?ds" using split by simp
  have "ctx_ok ?ctx"
    unfolding ctx_ok_def
  proof (intro allI)
    fix y i
    have nth: "?ds ! j = decls ctx ! (if j < p then j else Suc j)" if "j < length ?ds" for j
      using that p(1) by (auto simp: nth_append min_def)
    have pos: "index ctx z = Some j \<longleftrightarrow> j < length (decls ctx) \<and> ld_id (decls ctx ! j) = z" for z j
      by (rule ctx_okD [OF ok])
    show "index ?ctx y = Some i \<longleftrightarrow> i < length (decls ?ctx) \<and> ld_id (decls ?ctx ! i) = y"
    proof (cases "y = x")
      case True
      moreover have "ld_id (?ds ! i) \<noteq> x" if "i < length ?ds"
        using nth_mem [OF that] \<open>x \<notin> ld_id ` set ?ds\<close> by (metis imageI)
      ultimately show ?thesis by auto
    next
      case False
      then have "index ?ctx y = map_option (\<lambda>i. if i > p then i - 1 else i) (index ctx y)" by simp
      then have "index ?ctx y = Some i \<longleftrightarrow> (\<exists>j. index ctx y = Some j \<and> (if j > p then j - 1 else j) = i)"
        by (simp only: map_option_eq_Some)
      also have "\<dots> \<longleftrightarrow> (\<exists>j. j < length (decls ctx) \<and> ld_id (decls ctx ! j) = y \<and> (if j > p then j - 1 else j) = i)"
        by (simp only: pos conj_assoc)
      also have "\<dots> \<longleftrightarrow> i < length ?ds \<and> ld_id (?ds ! i) = y"
      proof
        assume "\<exists>j. j < length (decls ctx) \<and> ld_id (decls ctx ! j) = y \<and> (if j > p then j - 1 else j) = i"
        then obtain j where j: "j < length (decls ctx)" "ld_id (decls ctx ! j) = y" "(if j > p then j - 1 else j) = i" by blast
        with False p have "j \<noteq> p" by auto
        with j p(1) nth [of i] show "i < length ?ds \<and> ld_id (?ds ! i) = y" by (auto split: if_splits)
      next
        assume "i < length ?ds \<and> ld_id (?ds ! i) = y"
        with nth [of i] p(1) show "\<exists>j. j < length (decls ctx) \<and> ld_id (decls ctx ! j) = y \<and> (if j > p then j - 1 else j) = i"
          by (intro exI [of _ "if i < p then i else Suc i"]) auto
      qed
      finally show ?thesis by simp
    qed
  qed
  with Some p(1) filter that [of ?ctx] show ?thesis by (simp add: lctx_erase_def)
qed

section \<open>Fresh variables\<close>

definition fresh_name :: "nat \<Rightarrow> name" where
  "fresh_name k = Num (Str Anonymous ''_kernel_fresh'') k"

lemma fresh_name_inject [simp]: "fresh_name j = fresh_name k \<longleftrightarrow> j = k"
  by (simp add: fresh_name_def)

lemma fresh_fvar_id_ok:
  assumes wf: "wf H base st"
  shows "interns H base 4 (\<exists>x. name_at base st x (fresh_name (unat gen))) st (fresh_fvar_id H base gen st)
    (\<lambda>(i, gen') st'. gen' = gen + 1 \<and> name_at base st' (Some i) (fresh_name (unat gen)))"
  unfolding fresh_fvar_id_def Let_def
proof (rule interns_bind [OF intern_str_ok [OF wf]])
  let ?K = "\<exists>x. name_at base st x (fresh_name (unat gen))" and ?s = "''_kernel_fresh''"
  let ?Q = "\<lambda>(i, gen') st'. gen' = gen + 1 \<and> name_at base st' (Some i) (fresh_name (unat gen))"
  assume ?K
  then show "\<exists>j. str_ent base st j = Some ?s" by (auto simp: fresh_name_def elim!: name_at_NumE name_at_StrE)
next
  let ?K = "\<exists>x. name_at base st x (fresh_name (unat gen))" and ?s = "''_kernel_fresh''"
  let ?Q = "\<lambda>(i, gen') st'. gen' = gen + 1 \<and> name_at base st' (Some i) (fresh_name (unat gen))"
  fix q st1 assume 1: "good H base st st1" "str_ent base st1 q = Some ?s" "?K \<Longrightarrow> st1 = st"
  note wf1 = goodD(1) [OF 1(1)]
  show "interns H base 3 ?K st1 (andthen (name_str H base None q st1) (\<lambda>(prefix, st).
      andthen (intern_nat H base (unat gen) st) (\<lambda>(idx_id, st).
      andthen (name_num H base (Some prefix) idx_id st) (\<lambda>(i, st). Inr ((i, gen + 1), st))))) ?Q"
  proof (rule interns_bind [OF name_str_ok [OF wf1 _ 1(2), of None Anonymous]])
    fix pr st2 assume 2: "good H base st1 st2" "name_at base st2 (Some pr) (Str Anonymous ?s)" "?K \<Longrightarrow> st2 = st1"
    show "interns H base 2 ?K st2 (andthen (intern_nat H base (unat gen) st2) (\<lambda>(idx_id, st).
        andthen (name_num H base (Some pr) idx_id st) (\<lambda>(i, st). Inr ((i, gen + 1), st)))) ?Q"
    proof (rule interns_bind [OF intern_nat_ok [OF goodD(1) [OF 2(1)]]])
      fix r st3 assume 3: "good H base st2 st3" "nat_ent base st3 r = Some (unat gen)" "?K \<Longrightarrow> st3 = st2"
      have "name_at base st3 (Some pr) (Str Anonymous ?s)" using 2(2) goodD(2) [OF 3(1)] by (rule name_at_grows)
      from name_num_ok [OF goodD(1) [OF 3(1)] this 3(2)]
      show "interns H base 1 ?K st3 (andthen (name_num H base (Some pr) r st3) (\<lambda>(i, st). Inr ((i, gen + 1), st))) ?Q"
        by (rule interns_map) (use 1(3) 2(3) 3(3) in \<open>auto simp: fresh_name_def\<close>)
    qed (use 1(3) 2(3) in \<open>auto simp: fresh_name_def elim: name_at_NumE\<close>)
  qed (use 1(3) in \<open>auto simp: fresh_name_def elim: name_at_NumE\<close>)
qed simp

text \<open>The ids of a context are fresh names below the counter.\<close>

definition ctx_wf :: "store option \<Rightarrow> store \<Rightarrow> u64 \<Rightarrow> local_context \<Rightarrow> bool" where
  "ctx_wf base st gen ctx \<longleftrightarrow> ctx_ok ctx
     \<and> (\<forall>d \<in> set (decls ctx). \<exists>k < unat gen. name_at base st (Some (ld_id d)) (fresh_name k))"

lemma ctx_wf_grows: "ctx_wf base st gen ctx \<Longrightarrow> grows base st st' \<Longrightarrow> ctx_wf base st' gen ctx"
  unfolding ctx_wf_def by (meson name_at_grows)

lemma ctx_wf_empty: "ctx_wf base st gen empty_context"
  using ctx_ok_empty by (simp add: ctx_wf_def) (simp add: empty_context_def)

definition pushes ::
    "hashers \<Rightarrow> store option \<Rightarrow> u64 \<Rightarrow> local_context \<Rightarrow> store \<Rightarrow> (u32 \<Rightarrow> local_decl)
     \<Rightarrow> ((u32 \<times> local_context \<times> u64) \<times> store) result \<Rightarrow> bool" where
  "pushes H base gen ctx st mk m \<longleftrightarrow> interns H base 5 False st m (\<lambda>(e, ctx', gen') st'.
     gen' = gen + 1 \<and> ctx_wf base st' gen' ctx' \<and> expr_at base st' e (EFVar (fresh_name (unat gen)))
     \<and> (\<exists>i. name_at base st' (Some i) (fresh_name (unat gen)) \<and> i \<notin> set (ids ctx) \<and> decls ctx' = decls ctx @ [mk i]))"

lemma pushes_fresh:
  assumes twf: "twf H base st" and ctx: "ctx_wf base st gen ctx" and gen: "unat gen + 1 < 2 ^ 64"
    and mk: "\<And>i. ld_id (mk i) = i"
  shows "pushes H base gen ctx st mk (andthen (fresh_fvar_id H base gen st) (\<lambda>((i, gen), st).
     andthen (lctx_push base (mk i) ctx st) (\<lambda>((e, ctx), st). Inr ((e, ctx, gen), st))))"
proof -
  let ?n = "fresh_name (unat gen)"
  let ?Q = "\<lambda>(e, ctx', gen') st'. gen' = gen + 1 \<and> ctx_wf base st' gen' ctx' \<and> expr_at base st' e (EFVar ?n)
     \<and> (\<exists>i. name_at base st' (Some i) ?n \<and> i \<notin> set (ids ctx) \<and> decls ctx' = decls ctx @ [mk i])"
  let ?rest = "\<lambda>(x, st). (case x of (i, gen) \<Rightarrow> \<lambda>st. andthen (lctx_push base (mk i) ctx st)
      (\<lambda>((e, ctx), st). Inr ((e, ctx, gen), st))) st"
  have "interns H base 5 False st (andthen (fresh_fvar_id H base gen st) ?rest) ?Q"
  proof (rule interns_bind [OF fresh_fvar_id_ok [OF twfD(1) [OF twf]]])
    fix x st1
    assume 1: "good H base st st1"
      "(case x of (i, gen') \<Rightarrow> \<lambda>st'. gen' = gen + 1 \<and> name_at base st' (Some i) ?n) st1"
    obtain i where x: "x = (i, gen + 1)" "name_at base st1 (Some i) ?n" using 1(2) by (cases x) auto
    note twf1 = twf_good [OF twf 1(1)] and ctx1 = ctx_wf_grows [OF ctx goodD(2) [OF 1(1)]]
    have up: "unat (gen + 1) = unat gen + 1" using gen by (simp add: unat_plus_if')
    have new: "i \<notin> set (ids ctx)"
    proof
      assume "i \<in> set (ids ctx)"
      then obtain k where "k < unat gen" "name_at base st1 (Some i) (fresh_name k)"
        using ctx1 by (auto simp: ctx_wf_def ids_def)
      with name_at_det [OF x(2) this(2)] show False by simp
    qed
    let ?ctx = "ctx\<lparr>index := (index ctx)(i \<mapsto> length (decls ctx)), decls := decls ctx @ [mk i]\<rparr>"
    have "ctx_ok ?ctx" using ctx_ok_push [of ctx "mk i"] ctx new by (simp add: ctx_wf_def mk)
    then have "ctx_wf base st1 (gen + 1) ?ctx"
      using ctx1 x(2) up mk by (fastforce simp: ctx_wf_def less_Suc_eq)
    then have "interns H base 1 False st1 (andthen (expr_fvar base (Some i) st1)
        (\<lambda>(e, st). Inr ((e, ?ctx, gen + 1), st))) ?Q"
      using new x(2)
      by (intro interns_map [OF expr_fvar_ok [OF twf1 x(2)]])
        (auto intro: ctx_wf_grows name_at_grows dest: goodD(2))
    then show "interns H base 1 False st1 ((case x of (i, gen) \<Rightarrow> \<lambda>st. andthen (lctx_push base (mk i) ctx st)
        (\<lambda>((e, ctx), st). Inr ((e, ctx, gen), st))) st1) ?Q"
      by (simp add: x(1) lctx_push_def Let_def mk andthen_assoc split_def)
  qed simp_all
  then show ?thesis by (simp add: pushes_def split_def)
qed

lemma mk_local_decl_ok:
  assumes "twf H base st" and "ctx_wf base st gen ctx" and "unat gen + 1 < 2 ^ 64"
  shows "pushes H base gen ctx st
    (\<lambda>i. \<lparr>ld_id = i, ld_binder_name = n, ld_ty = ty, ld_binder_info = bi, ld_value = None\<rparr>)
    (mk_local_decl H base gen n ty bi ctx st)"
  unfolding mk_local_decl_def by (rule pushes_fresh [OF assms]) simp

lemma mk_let_decl_ok:
  assumes "twf H base st" and "ctx_wf base st gen ctx" and "unat gen + 1 < 2 ^ 64"
  shows "pushes H base gen ctx st
    (\<lambda>i. \<lparr>ld_id = i, ld_binder_name = n, ld_ty = ty, ld_binder_info = Default, ld_value = Some v\<rparr>)
    (mk_let_decl H base gen n ty v ctx st)"
  unfolding mk_let_decl_def by (rule pushes_fresh [OF assms]) simp

end
