(* ===== verification/Telescope.thy ===== *)
theory Telescope
  imports Context_Contracts
begin

text \<open>
  Telescopes: \<open>mk_binding\<close> folds a telescope from the inside, abstracting one variable at a time;
  \<open>telescope\<close> abstracts the body over all the variables at once and puts the binders around it. The
  two agree.
\<close>

section \<open>The reference telescope\<close>

record tdecl =
  td_fvar :: name
  td_name :: name
  td_ty :: expr
  td_info :: binder_info
  td_value :: "expr option"

definition bind_decl :: "bool \<Rightarrow> name list \<Rightarrow> tdecl \<Rightarrow> expr \<Rightarrow> expr" where
  "bind_decl lam pre d body =
     (case td_value d of
        Some v \<Rightarrow> ELetE (td_name d) (abstr pre (td_ty d)) (abstr pre v) body False
      | None \<Rightarrow>
          if lam then ELam (td_name d) (abstr pre (td_ty d)) body (td_info d)
          else EForallE (td_name d) (abstr pre (td_ty d)) body (td_info d))"

text \<open>The binders of a telescope around a body; the earlier variables are bound in the later types.\<close>

fun tele :: "bool \<Rightarrow> name list \<Rightarrow> tdecl list \<Rightarrow> expr \<Rightarrow> expr" where
  "tele lam pre [] body = body"
| "tele lam pre (d # ds) body = bind_decl lam pre d (tele lam (pre @ [td_fvar d]) ds body)"

definition telescope :: "bool \<Rightarrow> tdecl list \<Rightarrow> expr \<Rightarrow> expr" where
  "telescope lam ds e = tele lam [] ds (abstr (map td_fvar ds) e)"

lemma abs_leaf_app:
  "tmap (abs_leaf [x]) (k + length ys) (tmap (abs_leaf ys) k e) = tmap (abs_leaf (x # ys)) k e"
proof (induction e arbitrary: k)
  case (EFVar z)
  then show ?case by (auto simp: abs_leaf_def split: option.splits)
next
  case (ELam n t b bi)
  from ELam.IH(1) [of k] ELam.IH(2) [of "Suc k"] show ?case by simp
next
  case (EForallE n t b bi)
  from EForallE.IH(1) [of k] EForallE.IH(2) [of "Suc k"] show ?case by simp
next
  case (ELetE n t v b nd)
  from ELetE.IH(1,2) [of k] ELetE.IH(3) [of "Suc k"] show ?case by simp
qed (simp_all add: abs_leaf_def)

lemma abstr_no_more: "x \<in> set pre \<Longrightarrow> tmap (abs_leaf [x]) k (abstr pre t) = abstr pre t"
  by (rule abs_closed) (simp add: abstr_def fvars_abstr)

lemma abstr_tele:
  "x \<in> set pre \<Longrightarrow> tmap (abs_leaf [x]) k (tele lam pre ds b) = tele lam pre ds (tmap (abs_leaf [x]) (k + length ds) b)"
  by (induction ds arbitrary: pre k) (auto simp: bind_decl_def abstr_no_more split: option.split)

lemma measures_tmap_abs [simp]:
  "height (tmap (abs_leaf xs) k e) = height e" "rewrite_cost (\<lambda>_ _. c) i (tmap (abs_leaf xs) j e) = rewrite_cost (\<lambda>_ _. c) i e"
  by (induction e arbitrary: k i j) (auto simp: abs_leaf_def split: option.split)

lemma measures_abstr [simp]: "height (abstr xs e) = height e" "rewrite_cost (\<lambda>_ _. c) i (abstr xs e) = rewrite_cost (\<lambda>_ _. c) i e"
  by (simp_all add: abstr_def)

lemma rewrite_cost_const: "rewrite_cost (\<lambda>_ _. c) i e = rewrite_cost (\<lambda>_ _. c) j e"
  by (induction e arbitrary: i j) (simp_all, metis+)

lemma room_under [simp]: "rewrite_cost (\<lambda>_ _. c) (Suc i) e = rewrite_cost (\<lambda>_ _. c) 0 e"
  by (rule rewrite_cost_const)

lemma tele_append: "tele lam pre (ds @ es) b = tele lam pre ds (tele lam (pre @ map td_fvar ds) es b)"
  by (induction ds arbitrary: pre) simp_all

lemma measures_bind_cong:
  "height b = height b' \<Longrightarrow> height (bind_decl lam pre d b) = height (bind_decl lam pre' d b')"
  "room b = room b' \<Longrightarrow> room (bind_decl lam pre d b) = room (bind_decl lam pre' d b')"
  by (auto simp: bind_decl_def split: option.split)

lemma measures_tele:
  "height b = height b' \<Longrightarrow> height (tele lam pre ds b) = height (tele lam pre' ds b')"
  "room b = room b' \<Longrightarrow> room (tele lam pre ds b) = room (tele lam pre' ds b')"
  by (induction ds arbitrary: pre pre') (simp_all add: measures_bind_cong)

lemma measures_bind_decl:
  "height b \<le> height (bind_decl lam pre d b)" "room b \<le> room (bind_decl lam pre d b)"
  "height (td_ty d) \<le> height (bind_decl lam pre d b)" "td_value d = Some v \<Longrightarrow> height v \<le> height (bind_decl lam pre d b)"
  "room b + room (td_ty d) + (case td_value d of Some v \<Rightarrow> room v | None \<Rightarrow> 0) + 2 \<le> room (bind_decl lam pre d b)"
  by (auto simp: bind_decl_def split: option.split)

lemma measures_tele_body: "height b \<le> height (tele lam pre ds b)" "room b \<le> room (tele lam pre ds b)"
  by (induction ds arbitrary: pre) (simp_all add: order_trans [OF _ measures_bind_decl(1)] order_trans [OF _ measures_bind_decl(2)])

text \<open>The state of the loop with \<open>i\<close> declarations left.\<close>

definition partial :: "bool \<Rightarrow> tdecl list \<Rightarrow> expr \<Rightarrow> nat \<Rightarrow> expr" where
  "partial lam ds e i = tele lam (map td_fvar (take i ds)) (drop i ds) (abstr (map td_fvar (drop i ds)) e)"

lemma partial_0: "partial lam ds e 0 = telescope lam ds e"
  by (simp add: partial_def telescope_def)

lemma partial_all: "partial lam ds e (length ds) = e"
  by (simp add: partial_def)

lemma partial_step:
  assumes "i < length ds"
  shows "partial lam ds e i = bind_decl lam (map td_fvar (take i ds)) (ds ! i) (abstr [td_fvar (ds ! i)] (partial lam ds e (Suc i)))"
proof -
  let ?ds = "drop (Suc i) ds"
  have "tmap (abs_leaf [td_fvar (ds ! i)]) 0 (partial lam ds e (Suc i)) =
      tele lam (map td_fvar (take (Suc i) ds)) ?ds (tmap (abs_leaf [td_fvar (ds ! i)]) (0 + length (map td_fvar ?ds))
        (tmap (abs_leaf (map td_fvar ?ds)) 0 e))"
    using assms unfolding partial_def by (subst abstr_tele) (simp_all add: take_Suc_conv_app_nth abstr_def)
  also have "\<dots> = tele lam (map td_fvar (take i ds) @ [td_fvar (ds ! i)]) ?ds (abstr (map td_fvar (ds ! i # ?ds)) e)"
    unfolding abs_leaf_app using assms by (simp add: take_Suc_conv_app_nth abstr_def)
  finally show ?thesis using assms by (simp add: partial_def abstr_def flip: Cons_nth_drop_Suc)
qed

lemma measures_partial:
  "height (partial lam ds e i) \<le> height (telescope lam ds e)" "room (partial lam ds e i) \<le> room (telescope lam ds e)"
proof -
  let ?b = "\<lambda>ds. abstr (map td_fvar ds) e" and ?x = "tele lam (map td_fvar (take i ds)) (drop i ds) (abstr (map td_fvar ds) e)"
  have T: "telescope lam ds e = tele lam [] (take i ds) ?x"
    using tele_append [of lam "[]" "take i ds" "drop i ds" "?b ds"] by (simp add: telescope_def)
  have "height (partial lam ds e i) = height ?x" "room (partial lam ds e i) = room ?x"
    unfolding partial_def by (rule measures_tele, simp)+
  then show "height (partial lam ds e i) \<le> height (telescope lam ds e)" "room (partial lam ds e i) \<le> room (telescope lam ds e)"
    by (simp_all add: T measures_tele_body)
qed

section \<open>The code's telescope\<close>

text \<open>The variables are those of declarations of the context, and these denote \<open>ds\<close>.\<close>

definition decl_at :: "store option \<Rightarrow> store \<Rightarrow> local_context \<Rightarrow> u32 \<Rightarrow> tdecl \<Rightarrow> bool" where
  "decl_at base st ctx f d \<longleftrightarrow> expr_at base st f (EFVar (td_fvar d)) \<and>
     (\<exists>i decl. node_at base st f (NFVar (Some i)) \<and> lctx_get ctx i = Inr (Some decl)
        \<and> name_at base st (ld_binder_name decl) (td_name d) \<and> expr_at base st (ld_ty decl) (td_ty d)
        \<and> ld_binder_info decl = td_info d \<and> rel_option (expr_at base st) (ld_value decl) (td_value d))"

lemma decl_at_grows: "decl_at base st ctx f d \<Longrightarrow> grows base st st' \<Longrightarrow> decl_at base st' ctx f d"
  unfolding decl_at_def
  by (elim conjE exE, intro conjI exI)
    (erule option.rel_mono_strong expr_at_grows name_at_grows node_at_grows | assumption)+

definition tele_at :: "store option \<Rightarrow> store \<Rightarrow> local_context \<Rightarrow> u32 list \<Rightarrow> tdecl list \<Rightarrow> bool" where
  "tele_at base st ctx fvars ds \<longleftrightarrow> list_all2 (decl_at base st ctx) fvars ds \<and> length ds < 2 ^ 32"

lemma tele_at_grows: "tele_at base st ctx fvars ds \<Longrightarrow> grows base st st' \<Longrightarrow> tele_at base st' ctx fvars ds"
  unfolding tele_at_def by (auto intro: decl_at_grows elim!: list_all2_mono)

lemma tele_at_fvars:
  assumes "tele_at base st ctx fvars ds"
  shows "fvars_at base st (take i fvars) (map td_fvar (take i ds))"
proof -
  have "list_all2 (\<lambda>f d. expr_at base st f (EFVar (td_fvar d))) (take i fvars) (take i ds)"
    using assms by (auto simp: tele_at_def decl_at_def intro!: list_all2_takeI elim: list_all2_mono)
  with assms show ?thesis by (auto simp: fvars_at_def tele_at_def list_all2_map2)
qed

lemma decl_for_ok:
  assumes ok: "banks_ok H base st" and d: "decl_at base st ctx f d"
  obtains decl where "decl_for base st ctx f = Inr decl"
    and "name_at base st (ld_binder_name decl) (td_name d)" and "expr_at base st (ld_ty decl) (td_ty d)"
    and "ld_binder_info decl = td_info d" and "rel_option (expr_at base st) (ld_value decl) (td_value d)"
proof -
  from d obtain i decl where i: "node_at base st f (NFVar (Some i))" "lctx_get ctx i = Inr (Some decl)"
    and rest: "name_at base st (ld_binder_name decl) (td_name d)" "expr_at base st (ld_ty decl) (td_ty d)"
      "ld_binder_info decl = td_info d" "rel_option (expr_at base st) (ld_value decl) (td_value d)"
    unfolding decl_at_def by blast
  have "decl_for base st ctx f = Inr decl"
    unfolding decl_for_def using expr_node_ok [OF ok i(1)] i(2) by simp
  from that [OF this rest] show thesis .
qed

lemma abstract_runs:
  assumes "twf H base st" and "expr_at base st e t" and "fvars_at base st fvars xs" and "height t \<le> h"
  shows "runs H base (deep (g + h)) (room t) False st (abstract_fvars H base e fvars g st)
    (\<lambda>r st'. expr_at base st' r (abstr xs t))"
  using abstract_fvars_ok [OF assms(1-3), of g] unfolding yields_def
  by (rule runs_weaken) (use assms(4) in \<open>simp_all add: deep_mono\<close>)

text \<open>The binder of one declaration around the body so far.\<close>

definition bind_step :: "hashers \<Rightarrow> store option \<Rightarrow> u32 list \<Rightarrow> bool \<Rightarrow> nat \<Rightarrow> nat \<Rightarrow> local_decl \<Rightarrow> u32 \<Rightarrow> store \<Rightarrow> (u32 \<times> store) result" where
  "bind_step H base fvars is_lambda g i decl r st =
     andthen (abstract_fvars H base (ld_ty decl) (take i fvars) g st) (\<lambda>(ty2, st).
       (case ld_value decl of
          Some val \<Rightarrow>
            andthen (abstract_fvars H base val (take i fvars) g st) (\<lambda>(value2, st).
              expr_let H base (ld_binder_name decl) ty2 value2 r False st)
        | None \<Rightarrow>
            if is_lambda then expr_lam base (ld_binder_name decl) ty2 r (ld_binder_info decl) st
            else expr_forall base (ld_binder_name decl) ty2 r (ld_binder_info decl) st))"

lemma mk_binding_loop_step:
  "mk_binding_loop H base ctx fvars is_lambda g (Suc i) r st =
     andthen (expect (get_index fvars i)) (\<lambda>fvar.
     andthen (abstract_fvars H base r [fvar] g st) (\<lambda>(r, st).
     andthen (decl_for base st ctx fvar) (\<lambda>decl.
     andthen (bind_step H base fvars is_lambda g i decl r st)
       (\<lambda>(r, st). mk_binding_loop H base ctx fvars is_lambda g i r st))))"
  by (simp add: bind_step_def andthen_assoc split_def)

lemma bind_step_ok:
  assumes twf: "twf H base st" and fv: "fvars_at base st (take i fvars) pre" and r: "expr_at base st r body"
    and n: "name_at base st (ld_binder_name decl) (td_name d)" and ty: "expr_at base st (ld_ty decl) (td_ty d)"
    and bi: "ld_binder_info decl = td_info d" and val: "rel_option (expr_at base st) (ld_value decl) (td_value d)"
    and h: "height (bind_decl lam pre d body) \<le> h"
  shows "runs H base (deep (g + h)) (2 + room (td_ty d) + (case td_value d of Some v \<Rightarrow> room v | None \<Rightarrow> 0)) False st
    (bind_step H base fvars lam g i decl r st) (\<lambda>r st'. expr_at base st' r (bind_decl lam pre d body))"
  unfolding bind_step_def
proof (rule interns_bind)
  let ?E = "deep (g + h)"
  show "runs H base ?E (room (td_ty d)) False st (abstract_fvars H base (ld_ty decl) (take i fvars) g st)
      (\<lambda>r st'. expr_at base st' r (abstr pre (td_ty d)))"
    using order_trans [OF measures_bind_decl(3) h] by (rule abstract_runs [OF twf ty fv])
  fix ty2 st1 assume 1: "good H base st st1" "expr_at base st1 ty2 (abstr pre (td_ty d))"
  note twf1 = twf_good [OF twf 1(1)] and up1 = goodD(2) [OF 1(1)]
  have n1: "name_at base st1 (ld_binder_name decl) (td_name d)" and r1: "expr_at base st1 r body"
    and fv1: "fvars_at base st1 (take i fvars) pre"
    using n r fv up1 by (auto intro: name_at_grows expr_at_grows fvars_at_grows)
  let ?f = "case ld_value decl of
      Some val \<Rightarrow> andthen (abstract_fvars H base val (take i fvars) g st1) (\<lambda>(value2, st).
        expr_let H base (ld_binder_name decl) ty2 value2 r False st)
    | None \<Rightarrow> if lam then expr_lam base (ld_binder_name decl) ty2 r (ld_binder_info decl) st1
        else expr_forall base (ld_binder_name decl) ty2 r (ld_binder_info decl) st1"
  show "runs H base ?E (2 + (case td_value d of Some v \<Rightarrow> room v | None \<Rightarrow> 0)) False st1 ?f
      (\<lambda>r st'. expr_at base st' r (bind_decl lam pre d body))"
  proof (cases "td_value d")
    case None
    with val have "ld_value decl = None" by simp
    then show ?thesis
      using None bi expr_lam_ok [OF twf1 n1 1(2) r1, of "ld_binder_info decl"]
        expr_forall_ok [OF twf1 n1 1(2) r1, of "ld_binder_info decl"]
      by (cases lam) (auto simp: bind_decl_def elim!: runs_weaken)
  next
    case (Some v)
    with val obtain j where j: "ld_value decl = Some j" "expr_at base st j v" by (auto simp: option_rel_Some2)
    have "runs H base ?E (2 + room v) False st1 (andthen (abstract_fvars H base j (take i fvars) g st1) (\<lambda>(value2, st).
        expr_let H base (ld_binder_name decl) ty2 value2 r False st))
        (\<lambda>r st'. expr_at base st' r (bind_decl lam pre d body))"
    proof (rule interns_bind)
      show "runs H base ?E (room v) False st1 (abstract_fvars H base j (take i fvars) g st1)
          (\<lambda>r st'. expr_at base st' r (abstr pre v))"
        using order_trans [OF measures_bind_decl(4) [OF Some] h] by (rule abstract_runs [OF twf1 expr_at_grows [OF j(2) up1] fv1])
      fix v2 st2 assume 2: "good H base st1 st2" "expr_at base st2 v2 (abstr pre v)"
      note up2 = goodD(2) [OF 2(1)]
      show "runs H base ?E 2 False st2 (expr_let H base (ld_binder_name decl) ty2 v2 r False st2)
          (\<lambda>r st'. expr_at base st' r (bind_decl lam pre d body))"
        using expr_let_ok [OF twf_good [OF twf1 2(1)] name_at_grows [OF n1 up2] expr_at_grows [OF 1(2) up2] 2(2)
            expr_at_grows [OF r1 up2], of False] Some
        by (auto simp: bind_decl_def elim!: runs_weaken)
    qed simp_all
    with Some j(1) show ?thesis by simp
  qed
qed simp_all

lemma mk_binding_loop_ok:
  assumes "i \<le> length ds" and "twf H base st" and "tele_at base st ctx fvars ds"
    and "expr_at base st r (partial lam ds e i)"
  shows "runs H base (deep (g + height (telescope lam ds e))) (i * room (telescope lam ds e)) False st
    (mk_binding_loop H base ctx fvars lam g i r st) (\<lambda>r st'. expr_at base st' r (telescope lam ds e))"
  using assms
proof (induction i arbitrary: r st)
  case 0
  then show ?case by (simp add: partial_0 interns_return twfD(1))
next
  case (Suc i)
  let ?T = "telescope lam ds e" and ?d = "ds ! i" and ?pre = "map td_fvar (take i ds)"
  let ?E = "deep (g + height ?T)" and ?r = "partial lam ds e (Suc i)"
  let ?body = "abstr [td_fvar ?d] ?r"
  have i: "i < length ds" "i < length fvars" using Suc.prems(1,3) by (auto simp: tele_at_def dest: list_all2_lengthD)
  have d: "decl_at base st ctx (fvars ! i) ?d" using Suc.prems(3) i by (simp add: tele_at_def list_all2_conv_all_nth)
  note step = partial_step [OF i(1), of lam e]
  have room: "room ?r + room (td_ty ?d) + (case td_value ?d of Some v \<Rightarrow> room v | None \<Rightarrow> 0) + 2 \<le> room ?T"
    using measures_bind_decl(5) [of ?body ?d lam ?pre] measures_partial(2) [of lam ds e i] step by simp
  have one: "fvars_at base st [fvars ! i] [td_fvar ?d]" using d by (simp add: fvars_at_def decl_at_def)
  show ?case
    unfolding mk_binding_loop_step
  proof (rule runs_pure [where P = "\<lambda>f. f = fvars ! i" and E = ?E], goal_cases get rest)
    case get
    from i show ?case by simp
  next
    case (rest fvar)
    show ?case
      unfolding rest
    proof (rule interns_bind)
      show "runs H base ?E (room ?r) False st (abstract_fvars H base r [fvars ! i] g st) (\<lambda>r st'. expr_at base st' r ?body)"
        using measures_partial(1) by (rule abstract_runs [OF Suc.prems(2,4) one])
      fix r1 st1 assume 1: "good H base st st1" "expr_at base st1 r1 ?body"
      note twf1 = twf_good [OF Suc.prems(2) 1(1)] and up1 = goodD(2) [OF 1(1)]
      note tele1 = tele_at_grows [OF Suc.prems(3) up1]
      from decl_for_ok [OF twfD(3) [OF twf1] decl_at_grows [OF d up1]] obtain decl where
        decl: "decl_for base st1 ctx (fvars ! i) = Inr decl"
        and parts: "name_at base st1 (ld_binder_name decl) (td_name ?d)" "expr_at base st1 (ld_ty decl) (td_ty ?d)"
          "ld_binder_info decl = td_info ?d" "rel_option (expr_at base st1) (ld_value decl) (td_value ?d)" .
      have "runs H base ?E (2 + room (td_ty ?d) + (case td_value ?d of Some v \<Rightarrow> room v | None \<Rightarrow> 0) + i * room ?T) False st1
          (andthen (bind_step H base fvars lam g i decl r1 st1)
            (\<lambda>(r, st). mk_binding_loop H base ctx fvars lam g i r st)) (\<lambda>r st'. expr_at base st' r ?T)"
      proof (rule interns_bind)
        have "height (bind_decl lam ?pre ?d ?body) \<le> height ?T"
          using measures_partial(1) [of lam ds e i] by (simp only: step)
        then show "runs H base ?E (2 + room (td_ty ?d) + (case td_value ?d of Some v \<Rightarrow> room v | None \<Rightarrow> 0)) False st1
            (bind_step H base fvars lam g i decl r1 st1) (\<lambda>r st'. expr_at base st' r (partial lam ds e i))"
          unfolding step by (intro bind_step_ok [OF twf1 tele_at_fvars [OF tele1] 1(2) parts])
        fix r2 st2 assume 2: "good H base st1 st2" "expr_at base st2 r2 (partial lam ds e i)"
        show "runs H base ?E (i * room ?T) False st2 (mk_binding_loop H base ctx fvars lam g i r2 st2)
            (\<lambda>r st'. expr_at base st' r ?T)"
          using i(1) by (intro Suc.IH twf_good [OF twf1 2(1)] tele_at_grows [OF tele1 goodD(2) [OF 2(1)]] 2(2)) simp
      qed simp_all
      with decl show "runs H base ?E (2 + room (td_ty ?d) + (case td_value ?d of Some v \<Rightarrow> room v | None \<Rightarrow> 0) + i * room ?T)
          False st1 (andthen (decl_for base st1 ctx (fvars ! i)) (\<lambda>decl.
            andthen (bind_step H base fvars lam g i decl r1 st1)
              (\<lambda>(r, st). mk_binding_loop H base ctx fvars lam g i r st))) (\<lambda>r st'. expr_at base st' r ?T)"
        by simp
    qed (use room in simp_all)
  qed
qed

lemma mk_binding_ok:
  assumes "twf H base st" and "tele_at base st ctx fvars ds" and "expr_at base st e t"
  shows "runs H base (deep (g + height (telescope lam ds t))) (length ds * room (telescope lam ds t)) False st
    (mk_binding H base ctx fvars e lam g st) (\<lambda>r st'. expr_at base st' r (telescope lam ds t))"
proof -
  have "length fvars = length ds" using assms(2) by (auto simp: tele_at_def dest: list_all2_lengthD)
  with mk_binding_loop_ok [of "length ds" ds H base st ctx fvars e lam t g] assms show ?thesis
    by (simp add: mk_binding_def partial_all)
qed

end
