(* ===== verification/Subst_Properties.thy ===== *)
theory Subst_Properties
  imports Telescope Term_Properties
begin

text \<open>
  The properties of substitution, local contexts and telescopes, with runs at a concrete store.
\<close>

section \<open>Reading a contract\<close>

lemma runs_case:
  assumes "twf H base st" and "runs H base (deep n) c K st m Q"
  shows "case m of
      Inl err \<Rightarrow> err = DeepRecursion \<and> MAX_REC_DEPTH < n \<or> err = BankExhausted \<and> max_rows < used st + c
    | Inr (r, st') \<Rightarrow> twf H base st' \<and> grows base st st' \<and> used st' \<le> used st + c \<and> (K \<longrightarrow> st' = st) \<and> Q r st'"
  using assms(2) twf_good [OF assms(1)]
  by (auto simp: runs_def run_def deep_def full_cases dest: goodD split: sum.split if_splits)

text \<open>A run that has the result already returns it, and nothing happens to the store.\<close>

lemma yields_known:
  assumes twf: "twf H base st" and y: "yields H base n c t st m" and m: "m = Inr (r, st')" and e: "expr_at base st e t"
  shows "r = e \<and> st' = st"
proof -
  from internsD [OF y [unfolded yields_def] m] e have st: "st' = st" and r: "expr_at base st' r t" by blast+
  from expr_at_inject [OF r twfD(3) [OF twf, folded st]] e st show ?thesis by blast
qed

lemma yields_done:
  assumes "yields H base n c t st m" and "n \<le> MAX_REC_DEPTH" and "used st + c \<le> max_rows"
  obtains r st' where "m = Inr (r, st')" and "good H base st st'" and "used st' \<le> used st + c" and "expr_at base st' r t"
  using assms by (cases m) (auto simp: yields_def runs_def full_cases deep_def)

definition loose :: expr where
  "loose = EApp (EBVar 0) (EBVar 1)"

lemma intern_loose:
  obtains e st where "intern_expr flat_hashers None loose persistent = Inr (e, st)" and "twf flat_hashers None st"
    and "used st \<le> 5" and "expr_at None st e loose"
proof -
  have cost: "expr_cost loose = 5" by (simp add: loose_def)
  show ?thesis
  proof (rule intern_expr_total [OF twf_persistent, of loose])
    show "used persistent + expr_cost loose \<le> max_rows" by (simp add: used_persistent cost max_rows_def)
  qed (use that in \<open>simp add: used_persistent cost\<close>)
qed

lemma loose_measures: "height loose = 1" "room loose = 6" "loose_range loose = 2" "fvars_of loose = {}"
  by (simp_all add: loose_def)

section \<open>Instantiation\<close>

text \<open>C6: \<open>instantiate_core\<close> computes the instantiation of the tree: the loose variables from the
  offset on are replaced by the elements of \<open>subst\<close>, each lifted over the binders it goes under, and
  the variables above them move down. The order is that of the code, \<open>subst[vidx - s1]\<close>: \<open>subst[0]\<close> replaces \<open>#s\<close>
  and \<open>subst[n - 1]\<close> replaces \<open>#(s + n - 1)\<close>, where the comment above the function says the opposite. The cache, the skipped subtrees and the shared rows do not
  change the result. It fails only where the tree or a replacement is too deep for the guard or the
  rows do not fit, and a result that the store has already is returned without a change.\<close>

theorem instantiate_core_refines:
  assumes "twf H base st" and "expr_at base st e t" and "list_all2 (expr_at base st) subst xs"
    and "unat s + MAX_REC_DEPTH < 2 ^ 32" and "length xs < 2 ^ 64"
  shows "case instantiate_core H base e s subst g st of
      Inl err \<Rightarrow> err = DeepRecursion \<and> MAX_REC_DEPTH < g + height t + maxl height xs
        \<or> err = BankExhausted \<and> max_rows < used st + inst_room xs t
    | Inr (r, st') \<Rightarrow> twf H base st' \<and> grows base st st' \<and> used st' \<le> used st + inst_room xs t
        \<and> ((\<exists>i. expr_at base st i (inst (unat s) xs t)) \<longrightarrow> st' = st) \<and> expr_at base st' r (inst (unat s) xs t)"
  using runs_case [OF assms(1) instantiate_core_ok [OF assms(1,2) _ assms(3,5), unfolded yields_def fits_def, OF assms(4)]] .

theorem instantiate_core_refines_witness:
  "\<exists>e st1. intern_expr flat_hashers None loose persistent = Inr (e, st1)
     \<and> (case instantiate_core flat_hashers None e 0 [e] 0 st1 of
          Inl err \<Rightarrow> False
        | Inr (r, st2) \<Rightarrow> expr_at None st2 r (EApp loose (EBVar 0)))"
proof -
  obtain e st1 where 1: "intern_expr flat_hashers None loose persistent = Inr (e, st1)" "twf flat_hashers None st1"
    "used st1 \<le> 5" "expr_at None st1 e loose" by (rule intern_loose)
  have "inst 0 [loose] loose = EApp loose (EBVar 0)" by (simp add: inst_def loose_def inst_leaf_def)
  moreover have "inst_room [loose] loose = 18" "maxl height [loose] = 1" by (simp_all add: loose_def maxl_def)
  ultimately show ?thesis
    using 1 instantiate_core_refines [OF 1(2,4), of "[e]" "[loose]" 0 0]
    by (intro exI [of _ e] exI [of _ st1]) (auto simp: loose_measures MAX_REC_DEPTH_def max_rows_def split: sum.splits)
qed

text \<open>A term without loose variables from the offset on is returned as it is, under the same
  id, and the store stays as it is, whatever is substituted.\<close>

theorem instantiate_closed_id:
  assumes "twf H base st" and "expr_at base st e t" and "list_all2 (expr_at base st) subst xs"
    and "unat s + MAX_REC_DEPTH < 2 ^ 32" and "length xs < 2 ^ 64" and "loose_range t \<le> unat s"
    and "instantiate_core H base e s subst g st = Inr (r, st')"
  shows "r = e \<and> st' = st"
proof -
  note y = instantiate_core_ok [OF assms(1,2) _ assms(3,5), unfolded fits_def, OF assms(4), of g]
  show ?thesis by (rule yields_known [OF assms(1) y assms(7)]) (simp add: inst_closed assms(2,6))
qed

theorem instantiate_closed_id_witness:
  "\<exists>e st1 r st2. intern_expr flat_hashers None loose persistent = Inr (e, st1)
     \<and> instantiate_core flat_hashers None e 2 [e] 0 st1 = Inr (r, st2) \<and> r = e \<and> st2 = st1"
proof -
  obtain e st1 where 1: "intern_expr flat_hashers None loose persistent = Inr (e, st1)" "twf flat_hashers None st1"
    "used st1 \<le> 5" "expr_at None st1 e loose" by (rule intern_loose)
  have l: "list_all2 (expr_at None st1) [e] [loose]" "fits 2" using 1(4) by (simp_all add: fits_def MAX_REC_DEPTH_def)
  have "inst_room [loose] loose = 18" "maxl height [loose] = 1" by (simp_all add: loose_def maxl_def)
  note m = this
  obtain r st2 where 2: "instantiate_core flat_hashers None e 2 [e] 0 st1 = Inr (r, st2)"
    by (rule yields_done [OF instantiate_core_ok [OF 1(2,4) l(2,1), of 0]])
      (use 1(3) m in \<open>simp_all add: loose_measures MAX_REC_DEPTH_def max_rows_def\<close>)
  have "r = e \<and> st2 = st1"
    using instantiate_closed_id [OF 1(2,4) l(1) _ _ _ 2] by (simp add: loose_measures MAX_REC_DEPTH_def)
  with 1(1) 2 show ?thesis by blast
qed

section \<open>Shifting\<close>

text \<open>C20: lowering undoes lifting on ids: what \<open>lower_loose_bvars\<close> returns for a lifted term is the
  id of the term itself, and nothing more is stored.\<close>

theorem lower_lift_roundtrip:
  assumes "twf H base st" and "expr_at base st e t" and "unat s + MAX_REC_DEPTH < 2 ^ 32"
    and "lift_loose_bvars H base e s d g st = Inr (i, st1)" and "lower_loose_bvars H base i s d g' st1 = Inr (j, st2)"
  shows "j = e \<and> st2 = st1"
proof -
  have s: "fits s" using assms(3) by (simp add: fits_def)
  note 1 = internsD [OF lift_loose_bvars_ok [OF assms(1,2) s, unfolded yields_def] assms(4)]
  note twf1 = twf_good [OF assms(1) 1(1)]
  show ?thesis
    by (rule yields_known [OF twf1 lower_loose_bvars_ok [OF twf1 1(4) s] assms(5)])
      (simp add: lower_lift expr_at_grows [OF assms(2) goodD(2) [OF 1(1)]])
qed

theorem lower_lift_roundtrip_witness:
  "\<exists>e st1 i st2 j st3. intern_expr flat_hashers None loose persistent = Inr (e, st1)
     \<and> lift_loose_bvars flat_hashers None e 1 3 0 st1 = Inr (i, st2)
     \<and> lower_loose_bvars flat_hashers None i 1 3 0 st2 = Inr (j, st3) \<and> j = e \<and> st3 = st2"
proof -
  obtain e st1 where 1: "intern_expr flat_hashers None loose persistent = Inr (e, st1)" "twf flat_hashers None st1"
    "used st1 \<le> 5" "expr_at None st1 e loose" by (rule intern_loose)
  have s: "fits 1" by (simp add: fits_def MAX_REC_DEPTH_def)
  obtain i st2 where 2: "lift_loose_bvars flat_hashers None e 1 3 0 st1 = Inr (i, st2)" "good flat_hashers None st1 st2"
    "used st2 \<le> 11" "expr_at None st2 i (lift 1 3 loose)"
    by (rule yields_done [OF lift_loose_bvars_ok [OF 1(2,4) s, of 0 3]])
      (use 1(3) in \<open>simp_all add: loose_measures MAX_REC_DEPTH_def max_rows_def\<close>)
  note twf2 = twf_good [OF 1(2) 2(2)]
  have l: "lift 1 3 loose = EApp (EBVar 0) (EBVar 4)" by (simp add: lift_def loose_def lift_leaf_def)
  obtain j st3 where 3: "lower_loose_bvars flat_hashers None i 1 3 0 st2 = Inr (j, st3)"
    by (rule yields_done [OF lower_loose_bvars_ok [OF twf2 2(4) s, of 0 3]])
      (use 2(3) in \<open>simp_all add: l [simplified] MAX_REC_DEPTH_def max_rows_def\<close>)
  have "j = e \<and> st3 = st2" using lower_lift_roundtrip [OF 1(2,4) _ 2(1) 3] by (simp add: MAX_REC_DEPTH_def)
  with 1(1) 2(1) 3 show ?thesis by blast
qed

section \<open>Abstraction\<close>

text \<open>C16: \<open>abstract_fvars\<close> computes the abstraction of the tree: each of the free variables becomes the
  loose variable that counts its distance from the end of the list, its last occurrence winning.\<close>

theorem abstract_fvars_refines:
  assumes "twf H base st" and "expr_at base st e t"
    and "list_all2 (\<lambda>f x. expr_at base st f (EFVar x)) fvars xs" and "length xs < 2 ^ 32"
  shows "case abstract_fvars H base e fvars g st of
      Inl err \<Rightarrow> err = DeepRecursion \<and> MAX_REC_DEPTH < g + height t
        \<or> err = BankExhausted \<and> max_rows < used st + room t
    | Inr (r, st') \<Rightarrow> twf H base st' \<and> grows base st st' \<and> used st' \<le> used st + room t
        \<and> ((\<exists>i. expr_at base st i (abstr xs t)) \<longrightarrow> st' = st) \<and> expr_at base st' r (abstr xs t)"
  using runs_case [OF assms(1) abstract_fvars_ok [OF assms(1,2), unfolded fvars_at_def yields_def, OF conjI [OF assms(3,4)]]] .

text \<open>A tree with two variables, and the ids of the variables.\<close>

definition open_tree :: expr where
  "open_tree = EApp (EFVar (Str Anonymous ''a'')) (EApp (EFVar (Str Anonymous ''b'')) (EFVar (Str Anonymous ''a'')))"

definition open_vars :: "name list" where
  "open_vars = [Str Anonymous ''a'', Str Anonymous ''b'']"

lemma children_at: "twf H base st \<Longrightarrow> expr_at base st e (EApp t u) \<Longrightarrow> \<exists>i j. expr_at base st i t \<and> expr_at base st j u"
  by (erule expr_atE, case_tac nd) auto

lemma intern_open:
  obtains e st fvars where "intern_expr flat_hashers None open_tree persistent = Inr (e, st)" and "twf flat_hashers None st"
    and "used st \<le> 11" and "expr_at None st e open_tree" and "list_all2 (\<lambda>f x. expr_at None st f (EFVar x)) fvars open_vars"
proof -
  have cost: "expr_cost open_tree = 11" by (simp add: open_tree_def)
  obtain e st where 1: "intern_expr flat_hashers None open_tree persistent = Inr (e, st)" "twf flat_hashers None st"
    "used st \<le> 11" "expr_at None st e open_tree"
    by (rule intern_expr_total [OF twf_persistent, of open_tree]) (simp_all add: used_persistent max_rows_def cost)
  obtain i j where "expr_at None st i (EFVar (Str Anonymous ''a''))" "expr_at None st j (EFVar (Str Anonymous ''b''))"
    using children_at [OF 1(2)] 1(4) unfolding open_tree_def by blast
  then have "list_all2 (\<lambda>f x. expr_at None st f (EFVar x)) [i, j] open_vars" by (simp add: open_vars_def)
  with 1 that show thesis by blast
qed

lemma open_measures: "height open_tree = 2" "room open_tree = 10" "loose_range open_tree = 0"
  by (simp_all add: open_tree_def)

lemma abstr_open: "abstr open_vars open_tree = EApp (EBVar 1) (EApp (EBVar 0) (EBVar 1))"
  by (simp add: abstr_def open_tree_def open_vars_def abs_leaf_def)

theorem abstract_fvars_refines_witness:
  "\<exists>e st1 fvars. intern_expr flat_hashers None open_tree persistent = Inr (e, st1)
     \<and> (case abstract_fvars flat_hashers None e fvars 0 st1 of
          Inl err \<Rightarrow> False
        | Inr (r, st2) \<Rightarrow> expr_at None st2 r (EApp (EBVar 1) (EApp (EBVar 0) (EBVar 1))))"
proof -
  obtain e st1 fvars where 1: "intern_expr flat_hashers None open_tree persistent = Inr (e, st1)" "twf flat_hashers None st1"
    "used st1 \<le> 11" "expr_at None st1 e open_tree" "list_all2 (\<lambda>f x. expr_at None st1 f (EFVar x)) fvars open_vars"
    by (rule intern_open)
  have len: "length open_vars < 2 ^ 32" by (simp add: open_vars_def)
  from 1 abstract_fvars_refines [OF 1(2,4,5) len, of 0] show ?thesis
    by (intro exI [of _ e] exI [of _ st1] exI [of _ fvars])
      (auto simp: open_measures abstr_open MAX_REC_DEPTH_def max_rows_def split: sum.splits)
qed

lemma fvars_at_terms: "fvars_at base st fvars xs \<Longrightarrow> list_all2 (expr_at base st) fvars (map EFVar xs) \<and> length xs < 2 ^ 64"
  by (simp add: fvars_at_def list_all2_map2)

text \<open>C10: opening an abstracted binder with the variables it was closed over gives the same term back:
  for a term without loose variables, \<open>instantiate_rev\<close> of the result of \<open>abstract_fvars\<close> returns
  the id it started from, and nothing more is stored.\<close>

theorem abstract_instantiate_roundtrip:
  assumes "twf H base st" and "expr_at base st e t" and "loose_range t = 0"
    and "list_all2 (\<lambda>f x. expr_at base st f (EFVar x)) fvars xs" and "length xs < 2 ^ 32"
    and "abstract_fvars H base e fvars g st = Inr (i, st1)" and "instantiate_rev H base i fvars g' st1 = Inr (j, st2)"
  shows "j = e \<and> st2 = st1"
proof -
  have fv: "fvars_at base st fvars xs" using assms(4,5) by (simp add: fvars_at_def)
  note 1 = internsD [OF abstract_fvars_ok [OF assms(1,2) fv, unfolded yields_def] assms(6)]
  note twf1 = twf_good [OF assms(1) 1(1)]
  from fvars_at_terms [OF fvars_at_grows [OF fv goodD(2) [OF 1(1)]]]
  have "list_all2 (expr_at base st1) fvars (map EFVar xs)" "length (map EFVar xs) < 2 ^ 64" by simp_all
  note y = instantiate_rev_ok [OF twf1 1(4) this]
  show ?thesis
    by (rule yields_known [OF twf1 y assms(7)]) (simp add: inst_abstr [OF assms(3)] expr_at_grows [OF assms(2) goodD(2) [OF 1(1)]])
qed

theorem abstract_instantiate_roundtrip_witness:
  "\<exists>e st1 fvars i st2 j st3. intern_expr flat_hashers None open_tree persistent = Inr (e, st1)
     \<and> abstract_fvars flat_hashers None e fvars 0 st1 = Inr (i, st2)
     \<and> instantiate_rev flat_hashers None i fvars 0 st2 = Inr (j, st3) \<and> j = e \<and> st3 = st2"
proof -
  obtain e st1 fvars where 1: "intern_expr flat_hashers None open_tree persistent = Inr (e, st1)" "twf flat_hashers None st1"
    "used st1 \<le> 11" "expr_at None st1 e open_tree" "list_all2 (\<lambda>f x. expr_at None st1 f (EFVar x)) fvars open_vars"
    by (rule intern_open)
  have len: "length open_vars < 2 ^ 32" by (simp add: open_vars_def)
  have fv: "fvars_at None st1 fvars open_vars" using 1(5) len by (simp add: fvars_at_def)
  obtain i st2 where 2: "abstract_fvars flat_hashers None e fvars 0 st1 = Inr (i, st2)" "good flat_hashers None st1 st2"
    "used st2 \<le> 21" "expr_at None st2 i (abstr open_vars open_tree)"
    by (rule yields_done [OF abstract_fvars_ok [OF 1(2,4) fv, of 0]])
      (use 1(3) in \<open>simp_all add: open_measures MAX_REC_DEPTH_def max_rows_def\<close>)
  note twf2 = twf_good [OF 1(2) 2(2)]
  from fvars_at_terms [OF fvars_at_grows [OF fv goodD(2) [OF 2(2)]]]
  have fv2: "list_all2 (expr_at None st2) fvars (map EFVar open_vars)" "length (map EFVar open_vars) < 2 ^ 64" by simp_all
  have "maxl height (map EFVar open_vars) = 0" "inst_room (map EFVar open_vars) (abstr open_vars open_tree) = 16"
    unfolding abstr_open by (simp_all add: open_vars_def maxl_def)
  note m = this
  obtain j st3 where 3: "instantiate_rev flat_hashers None i fvars 0 st2 = Inr (j, st3)"
    by (rule yields_done [OF instantiate_rev_ok [OF twf2 2(4) fv2, of 0]])
      (use 2(3) m in \<open>simp_all add: open_measures MAX_REC_DEPTH_def max_rows_def\<close>)
  have "j = e \<and> st3 = st2"
    by (rule abstract_instantiate_roundtrip [OF 1(2,4) open_measures(3) 1(5) len 2(1) 3])
  with 1(1) 2(1) 3 show ?thesis by blast
qed

section \<open>Level parameters\<close>

text \<open>C17: \<open>instantiate_level_params\<close> computes the instantiation of every level of the tree, without
  a change to the rest; its error \<open>DeepRecursion\<close> needs a tree, or a level with its arguments, that is
  too deep for the guard.\<close>

theorem instantiate_level_params_refines:
  assumes "twf H base st" and "expr_at base st e t"
    and "list_all2 (\<lambda>i n. name_at base st (Some i) n) params ps" and "list_all2 (level_at base st) args as"
  shows "case instantiate_level_params H base e params args g st of
      Inl err \<Rightarrow> err = DeepRecursion \<and> MAX_REC_DEPTH < g + lparams_depth as t
        \<or> err = BankExhausted \<and> max_rows < used st + lparams_room ps as t
    | Inr (r, st') \<Rightarrow> twf H base st' \<and> grows base st st' \<and> used st' \<le> used st + lparams_room ps as t
        \<and> ((\<exists>i. expr_at base st i (inst_lparams ps as t)) \<longrightarrow> st' = st)
        \<and> expr_at base st' r (inst_lparams ps as t)"
  using runs_case [OF assms(1) instantiate_level_params_ok [OF assms, unfolded yields_def]] .

definition poly :: expr where
  "poly = ESort (Succ (Param (Str Anonymous ''u'')))"

lemma sort_at: "twf H base st \<Longrightarrow> expr_at base st e (ESort l) \<Longrightarrow> \<exists>i. level_at base st i l"
  by (erule expr_atE, case_tac nd) auto

theorem instantiate_level_params_refines_witness:
  "\<exists>e st1 i j. intern_expr flat_hashers None poly persistent = Inr (e, st1)
     \<and> (case instantiate_level_params flat_hashers None e [i] [j] 0 st1 of
          Inl err \<Rightarrow> False
        | Inr (r, st2) \<Rightarrow> expr_at None st2 r (ESort (Succ (Succ (Param (Str Anonymous ''u''))))))"
proof -
  let ?u = "Param (Str Anonymous ''u'')"
  have cost: "expr_cost poly = 5" by (simp add: poly_def)
  obtain e st1 where 1: "intern_expr flat_hashers None poly persistent = Inr (e, st1)" "twf flat_hashers None st1"
    "used st1 \<le> 5" "expr_at None st1 e poly"
    by (rule intern_expr_total [OF twf_persistent, of poly]) (simp_all add: used_persistent max_rows_def cost)
  obtain j where j: "level_at None st1 j (Succ ?u)" using sort_at [OF 1(2)] 1(4) unfolding poly_def by blast
  from j obtain a x where "level_at None st1 a ?u" by (rule level_at_SuccE)
  then obtain x where x: "name_at None st1 x (Str Anonymous ''u'')" by (rule level_at_ParamE)
  then obtain i where i: "name_at None st1 (Some i) (Str Anonymous ''u'')" by (cases x) (auto elim: name_at_StrE)
  have l: "inst_level [Str Anonymous ''u''] [Succ ?u] (Succ ?u) = Succ (Succ ?u)"
    by (simp add: inst_level_def instantiate_params.simps enter_def MAX_REC_DEPTH_def mk_succ_def)
  have m: "lparams_depth [Succ ?u] poly = 2" "lparams_room [Str Anonymous ''u''] [Succ ?u] poly = 6"
    "inst_lparams [Str Anonymous ''u''] [Succ ?u] poly = ESort (Succ (Succ ?u))"
    by (simp_all add: poly_def lparams_height_def lparams_cost_def lparams_leaf_def inst_lparams_def l maxl_def)
  from 1 i j instantiate_level_params_refines [OF 1(2,4), of "[i]" "[Str Anonymous ''u'']" "[j]" "[Succ ?u]" 0] show ?thesis
    by (intro exI [of _ e] exI [of _ st1] exI [of _ i] exI [of _ j])
      (auto simp: m MAX_REC_DEPTH_def max_rows_def split: sum.splits)
qed

end
