(* ===== verification/Context_Properties.thy ===== *)
theory Context_Properties
  imports Subst_Properties
begin

text \<open>
  The properties of local contexts and of the telescopes built from them, with runs at a concrete
  store.
\<close>

section \<open>Declarations\<close>

text \<open>C22: a new declaration gets an id that no declaration of the context has, and is added at the
  end; the index of the context stays the exact position of every declaration, the ids stay
  distinct, and the look-up finds the new declaration and every old one.\<close>

theorem mk_local_decl_fresh:
  assumes "twf H base st" and "ctx_wf base st gen ctx" and "unat gen + 1 < 2 ^ 64"
    and "mk_local_decl H base gen n ty bi ctx st = Inr ((e, ctx', gen'), st')"
  shows "ctx_wf base st' gen' ctx' \<and> distinct (ids ctx') \<and> expr_at base st' e (EFVar (fresh_name (unat gen)))
    \<and> (\<exists>i. i \<notin> set (ids ctx) \<and> name_at base st' (Some i) (fresh_name (unat gen))
        \<and> lctx_get ctx' i = Inr (Some \<lparr>ld_id = i, ld_binder_name = n, ld_ty = ty, ld_binder_info = bi, ld_value = None\<rparr>)
        \<and> (\<forall>j. j \<noteq> i \<longrightarrow> lctx_get ctx' j = lctx_get ctx j))"
proof -
  from internsD(4) [OF mk_local_decl_ok [OF assms(1-3), unfolded pushes_def] assms(4)] obtain i where
    1: "ctx_wf base st' gen' ctx'" "expr_at base st' e (EFVar (fresh_name (unat gen)))"
      "name_at base st' (Some i) (fresh_name (unat gen))" "i \<notin> set (ids ctx)"
      "decls ctx' = decls ctx @ [\<lparr>ld_id = i, ld_binder_name = n, ld_ty = ty, ld_binder_info = bi, ld_value = None\<rparr>]"
    by auto
  have ok: "ctx_ok ctx" "ctx_ok ctx'" using assms(2) 1(1) by (simp_all add: ctx_wf_def)
  have "find (\<lambda>d. ld_id d = i) (decls ctx) = None" using 1(4) by (auto simp: find_None_iff ids_def)
  with 1 lctx_get_ok [OF ok(1)] lctx_get_ok [OF ok(2)] ctx_ok_distinct [OF ok(2)] show ?thesis
    by (auto simp: find_append split: option.splits)
qed

lemma intern_poly:
  obtains e st where "intern_expr flat_hashers None poly persistent = Inr (e, st)" and "twf flat_hashers None st"
    and "used st \<le> 5" and "expr_at None st e poly"
proof -
  have cost: "expr_cost poly = 5" by (simp add: poly_def)
  show thesis
    by (rule intern_expr_total [OF twf_persistent, of poly]) (use that in \<open>simp_all add: used_persistent max_rows_def cost\<close>)
qed

lemma push_done:
  assumes "pushes H base gen ctx st mk m" and "used st + 5 \<le> max_rows"
  obtains e ctx' gen' st' where "m = Inr ((e, ctx', gen'), st')" and "good H base st st'" and "used st' \<le> used st + 5"
proof (rule interns_total [OF assms(1) [unfolded pushes_def] assms(2)])
  fix x st' assume "m = Inr (x, st')" "good H base st st'" "used st' \<le> used st + 5"
  with that [of "fst x" "fst (snd x)" "snd (snd x)" st'] show thesis by simp
qed

text \<open>The first declaration of a context.\<close>

lemma first_decl:
  obtains ty st1 e ctx gen st2 where "intern_expr flat_hashers None poly persistent = Inr (ty, st1)"
    and "twf flat_hashers None st1" and "expr_at None st1 ty poly"
    and "mk_local_decl flat_hashers None 0 None ty Default empty_context st1 = Inr ((e, ctx, gen), st2)"
    and "good flat_hashers None st1 st2" and "used st2 \<le> 10"
proof -
  obtain ty st1 where 1: "intern_expr flat_hashers None poly persistent = Inr (ty, st1)" "twf flat_hashers None st1"
    "used st1 \<le> 5" "expr_at None st1 ty poly" by (rule intern_poly)
  have "pushes flat_hashers None 0 empty_context st1
      (\<lambda>i. \<lparr>ld_id = i, ld_binder_name = None, ld_ty = ty, ld_binder_info = Default, ld_value = None\<rparr>)
      (mk_local_decl flat_hashers None 0 None ty Default empty_context st1)"
    by (rule mk_local_decl_ok [OF 1(2) ctx_wf_empty]) simp
  moreover have "used st1 + 5 \<le> max_rows" using 1(3) by (simp add: max_rows_def)
  ultimately obtain e ctx gen st2 where
    "mk_local_decl flat_hashers None 0 None ty Default empty_context st1 = Inr ((e, ctx, gen), st2)"
    "good flat_hashers None st1 st2" "used st2 \<le> used st1 + 5" by (rule push_done)
  with 1 that show thesis by simp
qed

theorem mk_local_decl_fresh_witness:
  "\<exists>ty st1 e ctx gen st2. intern_expr flat_hashers None poly persistent = Inr (ty, st1)
     \<and> mk_local_decl flat_hashers None 0 None ty Default empty_context st1 = Inr ((e, ctx, gen), st2)
     \<and> ctx_wf None st2 gen ctx \<and> expr_at None st2 e (EFVar (fresh_name 0))"
proof -
  obtain ty st1 e ctx gen st2 where 1: "intern_expr flat_hashers None poly persistent = Inr (ty, st1)"
    "twf flat_hashers None st1"
    "mk_local_decl flat_hashers None 0 None ty Default empty_context st1 = Inr ((e, ctx, gen), st2)"
    by (rule first_decl)
  have "unat (0 :: u64) + 1 < 2 ^ 64" by simp
  from mk_local_decl_fresh [OF 1(2) ctx_wf_empty this 1(3)] 1 show ?thesis by auto
qed

text \<open>Erasing a declaration removes it and moves the positions of the later ones; nothing else
  can be told apart by the look-up, and the index stays exact.\<close>

theorem lctx_erase_removes:
  assumes "ctx_ok ctx"
  shows "\<exists>ctx'. lctx_erase x ctx = Inr ctx' \<and> ctx_ok ctx' \<and> lctx_get ctx' x = Inr None
     \<and> (\<forall>y. y \<noteq> x \<longrightarrow> lctx_get ctx' y = lctx_get ctx y)"
proof -
  obtain ctx' where 1: "lctx_erase x ctx = Inr ctx'" "ctx_ok ctx'" "decls ctx' = filter (\<lambda>d. ld_id d \<noteq> x) (decls ctx)"
    by (rule lctx_erase_ok [OF assms])
  have none: "find (\<lambda>d. ld_id d = x) (filter (\<lambda>d. ld_id d \<noteq> x) ds) = None" for ds :: "local_decl list"
    by (auto simp: find_None_iff)
  have other: "y \<noteq> x \<Longrightarrow> find (\<lambda>d. ld_id d = y) (filter (\<lambda>d. ld_id d \<noteq> x) ds) = find (\<lambda>d. ld_id d = y) ds"
    for y and ds :: "local_decl list"
    by (induction ds) auto
  from 1 none other lctx_get_ok [OF assms] lctx_get_ok [OF 1(2)] show ?thesis by simp
qed

theorem lctx_erase_removes_witness:
  "\<exists>ctx'. lctx_erase 3 \<lparr>decls = [\<lparr>ld_id = 3, ld_binder_name = None, ld_ty = 1, ld_binder_info = Default, ld_value = None\<rparr>],
      index = [3 \<mapsto> 0]\<rparr> = Inr ctx' \<and> lctx_get ctx' 3 = Inr None"
proof -
  have "ctx_ok \<lparr>decls = [\<lparr>ld_id = 3, ld_binder_name = None, ld_ty = 1, ld_binder_info = Default, ld_value = None\<rparr>], index = [3 \<mapsto> 0]\<rparr>"
    by (auto simp: ctx_ok_def split: if_splits)
  from lctx_erase_removes [OF this, of 3] show ?thesis by blast
qed

text \<open>A sequence of declarations as the callers make them; a value makes it a \<open>let\<close>.\<close>

fun declare_all ::
    "hashers \<Rightarrow> store option \<Rightarrow> u64 \<Rightarrow> (u32 option \<times> u32 \<times> binder_info \<times> u32 option) list \<Rightarrow> local_context
     \<Rightarrow> store \<Rightarrow> ((local_context \<times> u64) \<times> store) result" where
  "declare_all H base gen [] ctx st = Inr ((ctx, gen), st)"
| "declare_all H base gen ((n, ty, bi, v) # ds) ctx st =
     andthen (case v of None \<Rightarrow> mk_local_decl H base gen n ty bi ctx st | Some v \<Rightarrow> mk_let_decl H base gen n ty v ctx st)
       (\<lambda>((_, ctx, gen), st). declare_all H base gen ds ctx st)"

lemma declare_all_ok:
  assumes "twf H base st" and "ctx_wf base st gen ctx" and "unat gen + length ds < 2 ^ 64"
    and "declare_all H base gen ds ctx st = Inr ((ctx', gen'), st')"
  shows "twf H base st' \<and> ctx_wf base st' gen' ctx' \<and> (\<exists>es. decls ctx' = decls ctx @ es)"
  using assms
proof (induction ds arbitrary: gen ctx st)
  case (Cons d ds)
  obtain n ty bi v where d: "d = (n, ty, bi, v)" by (cases d)
  let ?m = "case v of None \<Rightarrow> mk_local_decl H base gen n ty bi ctx st | Some v \<Rightarrow> mk_let_decl H base gen n ty v ctx st"
  from Cons.prems(4) obtain e ctx1 gen1 st1 where 1: "?m = Inr ((e, ctx1, gen1), st1)"
    "declare_all H base gen1 ds ctx1 st1 = Inr ((ctx', gen'), st')"
    by (cases ?m) (auto simp: d split_def simp del: option.case_eq_if)
  have gen: "unat gen + 1 < 2 ^ 64" using Cons.prems(3) by simp
  have "\<exists>mk. pushes H base gen ctx st mk ?m"
  proof (cases v)
    case None
    then show ?thesis using mk_local_decl_ok [OF Cons.prems(1,2) gen, of n ty bi] by auto
  next
    case (Some w)
    then show ?thesis using mk_let_decl_ok [OF Cons.prems(1,2) gen, of n ty w] by auto
  qed
  then obtain mk where "pushes H base gen ctx st mk ?m" by blast
  note 2 = internsD [OF this [unfolded pushes_def] 1(1)]
  from 2(4) have 3: "gen1 = gen + 1" "ctx_wf base st1 gen1 ctx1" "\<exists>i. decls ctx1 = decls ctx @ [mk i]" by auto
  have "unat gen1 + length ds < 2 ^ 64" using Cons.prems(3) gen by (simp add: 3(1) unat_plus_if')
  from Cons.IH [OF twf_good [OF Cons.prems(1) 2(1)] 3(2) this 1(2)] 3(3) show ?case by auto
qed auto

text \<open>C21: whatever is declared after a \<open>save\<close>, \<open>restore\<close> gives exactly the saved context back.\<close>

theorem save_restore_roundtrip:
  assumes "twf H base st" and "ctx_wf base st gen ctx" and "unat gen + length ds < 2 ^ 64"
    and "declare_all H base gen ds ctx st = Inr ((ctx', gen'), st')"
  shows "lctx_restore (lctx_save ctx) ctx' = Inr ctx"
proof -
  from declare_all_ok [OF assms] obtain es where 1: "ctx_ok ctx'" "decls ctx' = decls ctx @ es"
    by (auto simp: ctx_wf_def)
  obtain ctx2 where 2: "lctx_restore (lctx_save ctx) ctx' = Inr ctx2" "ctx_ok ctx2" "decls ctx2 = decls ctx"
    by (rule lctx_restore_ok [OF 1(1), of "lctx_save ctx"]) (auto simp: lctx_save_def 1(2))
  have ok: "ctx_ok ctx" using assms(2) by (simp add: ctx_wf_def)
  have "index ctx2 = index ctx"
  proof
    fix x
    have "index ctx2 x = Some i \<longleftrightarrow> index ctx x = Some i" for i
      by (simp only: ctx_okD [OF 2(2)] ctx_okD [OF ok] 2(3))
    then show "index ctx2 x = index ctx x" by (metis not_None_eq)
  qed
  with 2(1,3) show ?thesis by simp
qed

theorem save_restore_roundtrip_witness:
  "\<exists>ty st1 ctx' gen' st'. intern_expr flat_hashers None poly persistent = Inr (ty, st1)
     \<and> declare_all flat_hashers None 0 [(None, ty, Default, None)] empty_context st1 = Inr ((ctx', gen'), st')
     \<and> lctx_restore (lctx_save empty_context) ctx' = Inr empty_context"
proof -
  obtain ty st1 e ctx gen st2 where 1: "intern_expr flat_hashers None poly persistent = Inr (ty, st1)"
    "twf flat_hashers None st1"
    "mk_local_decl flat_hashers None 0 None ty Default empty_context st1 = Inr ((e, ctx, gen), st2)"
    by (rule first_decl)
  then have 2: "declare_all flat_hashers None 0 [(None, ty, Default, None)] empty_context st1 = Inr ((ctx, gen), st2)" by simp
  from save_restore_roundtrip [OF 1(2) ctx_wf_empty _ 2] 1 2 show ?thesis by auto
qed

section \<open>Telescopes\<close>

text \<open>C7: \<open>mk_pi\<close> and \<open>mk_lambda\<close> build the telescope of their variables around the body: every
  declaration becomes a binder, or a \<open>let\<close> where it has a value; the body is abstracted over all
  the variables and each type and value over the earlier ones. They never panic on variables that
  are declared in the context.\<close>

theorem mk_binding_refines:
  assumes "twf H base st" and "tele_at base st ctx fvars ds" and "expr_at base st e t"
    and "T = telescope is_lambda ds t"
  shows "case (if is_lambda then mk_lambda H base ctx fvars e g st else mk_pi H base ctx fvars e g st) of
      Inl err \<Rightarrow> err = DeepRecursion \<and> MAX_REC_DEPTH < g + height T
        \<or> err = BankExhausted \<and> max_rows < used st + length ds * room T
    | Inr (r, st') \<Rightarrow> twf H base st' \<and> grows base st st' \<and> used st' \<le> used st + length ds * room T
        \<and> expr_at base st' r T"
  using runs_case [OF assms(1) mk_binding_ok [OF assms(1-3), of g is_lambda]]
  by (auto simp: mk_pi_def mk_lambda_def assms(4) split: sum.splits)

lemma declared_decl_at:
  assumes twf: "twf H base st" and ctx: "ctx_ok ctx" and e: "expr_at base st e (EFVar x)"
    and i: "name_at base st (Some i) x" and d: "decl \<in> set (decls ctx)" "ld_id decl = i"
    and n: "name_at base st (ld_binder_name decl) n" and ty: "expr_at base st (ld_ty decl) t"
    and v: "rel_option (expr_at base st) (ld_value decl) v"
  shows "decl_at base st ctx e \<lparr>td_fvar = x, td_name = n, td_ty = t, td_info = ld_binder_info decl, td_value = v\<rparr>"
proof -
  from e obtain nd where nd: "node_at base st e nd" "node_expr base st (expr_at base st) nd (EFVar x)" by (rule expr_atE)
  from nd(2) obtain j where j: "nd = NFVar j" "name_at base st j x" by (cases nd) auto
  have "j = Some i" using name_at_inject [OF twfD(3) [OF twf] j(2) i] .
  moreover obtain k where "k < length (decls ctx)" "decls ctx ! k = decl" using d(1) by (auto simp: in_set_conv_nth)
  then have "lctx_get ctx i = Inr (Some decl)"
    using ctx_okD [OF ctx, of i k] d(2) by (simp add: lctx_get_def)
  ultimately show ?thesis using nd(1) j(1) e i n ty v by (auto simp: decl_at_def)
qed

theorem mk_binding_refines_witness:
  "\<exists>ty st1 e ctx gen st2. intern_expr flat_hashers None poly persistent = Inr (ty, st1)
     \<and> mk_local_decl flat_hashers None 0 None ty Default empty_context st1 = Inr ((e, ctx, gen), st2)
     \<and> (case mk_lambda flat_hashers None ctx [e] e 0 st2 of
          Inl err \<Rightarrow> False
        | Inr (r, st3) \<Rightarrow> expr_at None st3 r (ELam Anonymous poly (EBVar 0) Default))"
proof -
  obtain ty st1 e ctx gen st2 where 1: "intern_expr flat_hashers None poly persistent = Inr (ty, st1)"
    "twf flat_hashers None st1" "expr_at None st1 ty poly"
    "mk_local_decl flat_hashers None 0 None ty Default empty_context st1 = Inr ((e, ctx, gen), st2)"
    "good flat_hashers None st1 st2" "used st2 \<le> 10"
    by (rule first_decl)
  note twf2 = twf_good [OF 1(2,5)]
  let ?d = "\<lambda>i. \<lparr>ld_id = i, ld_binder_name = None, ld_ty = ty, ld_binder_info = Default, ld_value = None\<rparr>"
  let ?x = "fresh_name 0"
  have "pushes flat_hashers None 0 empty_context st1 ?d
      (mk_local_decl flat_hashers None 0 None ty Default empty_context st1)"
    by (rule mk_local_decl_ok [OF 1(2) ctx_wf_empty]) simp
  from internsD(4) [OF this [unfolded pushes_def] 1(4)] obtain i where
    2: "ctx_ok ctx" "expr_at None st2 e (EFVar ?x)" "name_at None st2 (Some i) ?x" "decls ctx = [?d i]"
    by (auto simp: ctx_wf_def empty_context_def)
  let ?D = "\<lparr>td_fvar = ?x, td_name = Anonymous, td_ty = poly, td_info = Default, td_value = None\<rparr>"
  have "decl_at None st2 ctx e ?D"
    using declared_decl_at [OF twf2 2(1,2,3), of "?d i" Anonymous poly None]
      expr_at_grows [OF 1(3) goodD(2) [OF 1(5)]] 2(4) by simp
  then have tele: "tele_at None st2 ctx [e] [?D]" by (simp add: tele_at_def)
  have T: "ELam Anonymous poly (EBVar 0) Default = telescope True [?D] (EFVar ?x)"
    by (simp add: telescope_def bind_decl_def abstr_def abs_leaf_def poly_def)
  have "height (ELam Anonymous poly (EBVar 0) Default) = 1" "room (ELam Anonymous poly (EBVar 0) Default) = 6"
    by (simp_all add: poly_def)
  with 1 mk_binding_refines [OF twf2 tele 2(2) T, of 0] show ?thesis
    by (intro exI [of _ ty] exI [of _ st1] exI [of _ e] exI [of _ ctx] exI [of _ gen] exI [of _ st2])
      (auto simp: MAX_REC_DEPTH_def max_rows_def split: sum.splits)
qed

end
