(* ===== verification/Level_Geq.thy ===== *)
theory Level_Geq
  imports Level_Total
begin

text \<open>
  The order test on universe levels by which the kernel bounds the universes of an inductive type
  (\<open>is_geq\<close> and \<open>is_geq_core\<close> of \<open>crates/leanr_kernel/src/inductive.rs\<close>), its soundness, and the
  operations of that file on names (suffixes below macro scopes, prefixes).
\<close>

section \<open>The order test\<close>

text \<open>
  The two functions call each other; \<open>is_geq_core\<close> gets \<open>is_geq\<close> as its first argument \<open>geq\<close>, at
  its own depth, so that the guard of \<open>is_geq\<close> ends the recursion.
\<close>

definition is_geq_offset :: "(level \<Rightarrow> level \<Rightarrow> bool result) \<Rightarrow> level \<Rightarrow> level \<Rightarrow> nat \<Rightarrow> bool result" where
  "is_geq_offset geq l1 l2 d =
     (case (to_offset l1, to_offset l2) of
        ((b1, k1), (b2, k2)) \<Rightarrow>
          andthen (or_else (structural_eq b1 b2 d) (Inr (is_zero b2))) (\<lambda>same.
            if same then Inr (k1 \<ge> k2)
            else if k1 = k2 \<and> k1 > 0 then geq b1 b2
            else Inr False))"

definition is_geq_core :: "(level \<Rightarrow> level \<Rightarrow> bool result) \<Rightarrow> level \<Rightarrow> level \<Rightarrow> nat \<Rightarrow> bool result" where
  "is_geq_core geq l1 l2 d =
     andthen (or_else (structural_eq l1 l2 d) (Inr (is_zero l2))) (\<lambda>same.
       if same then Inr True
       else
         (case l2 of
            Max a b \<Rightarrow> and_also (geq l1 a) (geq l1 b)
          | _ \<Rightarrow>
              andthen (case l1 of Max a b \<Rightarrow> or_else (geq a l2) (geq b l2) | _ \<Rightarrow> Inr False) (\<lambda>above.
                if above then Inr True
                else
                  (case l2 of
                     IMax a b \<Rightarrow> and_also (geq l1 a) (geq l1 b)
                   | _ \<Rightarrow>
                       (case l1 of
                          IMax _ b \<Rightarrow> geq b l2
                        | _ \<Rightarrow> is_geq_offset geq l1 l2 d)))))"

lemma is_geq_core_cong [fundef_cong]:
  assumes "l1 = l1'" and "l2 = l2'" and "d = d'" and "\<And>a b. geq a b = geq' a b"
  shows "is_geq_core geq l1 l2 d = is_geq_core geq' l1' l2' d'"
proof -
  have "geq = geq'" using assms(4) by blast
  with assms show ?thesis by simp
qed

function is_geq :: "level \<Rightarrow> level \<Rightarrow> nat \<Rightarrow> bool result" where
  "is_geq a b d =
     enter d (\<lambda>d.
       andthen (normalize a d) (\<lambda>na.
       andthen (normalize b d) (\<lambda>nb.
         is_geq_core (\<lambda>a b. is_geq a b d) na nb d)))"
  by pat_completeness auto
termination
  by (relation "measure (\<lambda>(_, _, d). MAX_REC_DEPTH - d)") auto

declare is_geq.simps [simp del]

section \<open>Soundness\<close>

lemma small_normalize: "normalize l d = Inr r \<Longrightarrow> small l \<Longrightarrow> small r"
  using normalize_sound [of l d r undefined undefined] by (auto simp: small_def)

lemma is_geq_offset_sound:
  assumes rec: "\<And>a b. is_geq a b d = Inr True \<Longrightarrow> small a \<Longrightarrow> small b \<Longrightarrow> eval \<rho> \<mu> b \<le> eval \<rho> \<mu> a"
    and run: "is_geq_offset (\<lambda>a b. is_geq a b d) l1 l2 d = Inr True" and small: "small l1" "small l2"
  shows "eval \<rho> \<mu> l2 \<le> eval \<rho> \<mu> l1"
proof -
  note strip = eval_strip [of \<rho> \<mu> l1] eval_strip [of \<rho> \<mu> l2] small_strip [OF small(1)] small_strip [OF small(2)]
  from run obtain same where same: "or_else (structural_eq (strip l1) (strip l2) d) (Inr (is_zero (strip l2))) = Inr same"
    "if same then succs l2 \<le> succs l1 else succs l1 = succs l2 \<and> is_geq (strip l1) (strip l2) d = Inr True"
    using small by (auto simp: is_geq_offset_def andthen_eq_Inr_iff split: if_splits)
  show ?thesis
  proof (cases same)
    case True
    with same(1) have "strip l1 = strip l2 \<or> strip l2 = Zero"
      by (auto dest!: or_else_Inr structural_eq_sound)
    with True same(2) strip show ?thesis by auto
  next
    case False
    with same(2) rec strip show ?thesis by fastforce
  qed
qed

lemma is_geq_core_sound:
  assumes rec: "\<And>a b. is_geq a b d = Inr True \<Longrightarrow> small a \<Longrightarrow> small b \<Longrightarrow> eval \<rho> \<mu> b \<le> eval \<rho> \<mu> a"
    and run: "is_geq_core (\<lambda>a b. is_geq a b d) l1 l2 d = Inr True" and small: "small l1" "small l2"
  shows "eval \<rho> \<mu> l2 \<le> eval \<rho> \<mu> l1"
proof (cases "l1 = l2 \<or> l2 = Zero")
  case True
  then show ?thesis by auto
next
  case False
  have both: "eval \<rho> \<mu> l2 \<le> eval \<rho> \<mu> l1"
    if "and_also (is_geq l1 a d) (is_geq l1 b d) = Inr True" "l2 = Max a b \<or> l2 = IMax a b" for a b
  proof -
    have "eval \<rho> \<mu> a \<le> eval \<rho> \<mu> l1" "eval \<rho> \<mu> b \<le> eval \<rho> \<mu> l1"
      using that rec [of l1 a] rec [of l1 b] small by (auto dest!: and_also_Inr)
    with that(2) show ?thesis by auto
  qed
  note offset = is_geq_offset_sound [OF rec _ small]
  have above: "eval \<rho> \<mu> l2 \<le> eval \<rho> \<mu> l1"
    if "l1 = Max a b" "or_else (is_geq a l2 d) (is_geq b l2 d) = Inr True" for a b
    using that rec [of a l2] rec [of b l2] small by (auto dest!: or_else_Inr)
  have under: "eval \<rho> \<mu> l2 \<le> eval \<rho> \<mu> l1" if "l1 = IMax a b" "is_geq b l2 d = Inr True" for a b
    using that rec [of b l2] small by auto
  from run False obtain same where "or_else (structural_eq l1 l2 d) (Inr (is_zero l2)) = Inr same"
    by (auto simp: is_geq_core_def andthen_eq_Inr_iff)
  moreover from this False have "\<not> same" by (auto dest!: or_else_Inr structural_eq_sound)
  ultimately have step: "(case l2 of
            Max a b \<Rightarrow> and_also (is_geq l1 a d) (is_geq l1 b d)
          | _ \<Rightarrow>
              andthen (case l1 of Max a b \<Rightarrow> or_else (is_geq a l2 d) (is_geq b l2 d) | _ \<Rightarrow> Inr False) (\<lambda>above.
                if above then Inr True
                else
                  (case l2 of
                     IMax a b \<Rightarrow> and_also (is_geq l1 a d) (is_geq l1 b d)
                   | _ \<Rightarrow>
                       (case l1 of
                          IMax _ b \<Rightarrow> is_geq b l2 d
                        | _ \<Rightarrow> is_geq_offset (\<lambda>a b. is_geq a b d) l1 l2 d)))) = Inr True"
    using run by (simp add: is_geq_core_def)
  show ?thesis
    using step both above under offset
    by (cases l2; cases l1) (auto simp: andthen_eq_Inr_iff simp del: eval.simps split: if_splits)
qed

lemma is_geq_eval: "is_geq a b d = Inr True \<Longrightarrow> small a \<Longrightarrow> small b \<Longrightarrow> eval \<rho> \<mu> b \<le> eval \<rho> \<mu> a"
proof (induction "MAX_REC_DEPTH - d" arbitrary: a b d rule: less_induct)
  case less
  from less(2) obtain na nb where n: "d < MAX_REC_DEPTH" "normalize a (Suc d) = Inr na" "normalize b (Suc d) = Inr nb"
    "is_geq_core (\<lambda>a b. is_geq a b (Suc d)) na nb (Suc d) = Inr True"
    by (auto simp: is_geq.simps [of a] enter_eq_Inr_iff andthen_eq_Inr_iff)
  have "eval \<rho> \<mu> nb \<le> eval \<rho> \<mu> na"
    by (rule is_geq_core_sound [OF less(1) n(4)])
      (use n(1) small_normalize [OF n(2) less(3)] small_normalize [OF n(3) less(4)] in auto)
  with normalize_sound [OF n(2) less(3)] normalize_sound [OF n(3) less(4)] show ?case by simp
qed

end
