(* ===== verification/Name_Surgery.thy ===== *)
theory Name_Surgery
  imports Store_Levels
begin

text \<open>
  The operations on names with which the kernel makes the names of recursors, induction hypotheses
  and auxiliary types (\<open>crates/leanr_kernel/src/inductive.rs\<close>), on names and on ids.
\<close>

section \<open>Macro scopes\<close>

fun has_macro_scopes :: "name \<Rightarrow> bool" where
  "has_macro_scopes (Str _ part) = (part = ''_hyg'')"
| "has_macro_scopes (Num parent _) = has_macro_scopes parent"
| "has_macro_scopes Anonymous = False"

fun erase_macro_scopes_aux :: "name \<Rightarrow> name" where
  "erase_macro_scopes_aux (Str parent part) = (if part = ''_@'' then parent else erase_macro_scopes_aux parent)"
| "erase_macro_scopes_aux (Num parent _) = erase_macro_scopes_aux parent"
| "erase_macro_scopes_aux Anonymous = Anonymous"

section \<open>Prefixes\<close>

text \<open>The components that were walked over, in the order in which they are pushed, are put back last first.\<close>

fun push_components :: "name \<Rightarrow> component list \<Rightarrow> name" where
  "push_components result [] = result"
| "push_components result (CStr s # cs) = push_components (Str result s) cs"
| "push_components result (CNum v # cs) = push_components (Num result v) cs"

fun replace_prefix_loop :: "name \<Rightarrow> name \<Rightarrow> name \<Rightarrow> name \<Rightarrow> component list \<Rightarrow> name" where
  "replace_prefix_loop n pre new_pre cur comps =
     (if name_eq cur pre then push_components new_pre (rev comps)
      else
        (case cur of
           Anonymous \<Rightarrow> n
         | Str parent part \<Rightarrow> replace_prefix_loop n pre new_pre parent (comps @ [CStr part])
         | Num parent part \<Rightarrow> replace_prefix_loop n pre new_pre parent (comps @ [CNum part])))"

declare replace_prefix_loop.simps [simp del]

definition replace_prefix :: "name \<Rightarrow> name \<Rightarrow> name \<Rightarrow> name" where
  "replace_prefix n pre new_pre = replace_prefix_loop n pre new_pre n []"

fun name_components :: "name \<Rightarrow> component list \<Rightarrow> component list" where
  "name_components Anonymous comps = comps"
| "name_components (Str parent part) comps = name_components parent (comps @ [CStr part])"
| "name_components (Num parent part) comps = name_components parent (comps @ [CNum part])"

definition name_append :: "name \<Rightarrow> name \<Rightarrow> name" where
  "name_append n1 n2 = push_components n1 (rev (name_components n2 []))"

section \<open>Suffixes\<close>

definition modify_base :: "name \<Rightarrow> (name \<Rightarrow> name) \<Rightarrow> name" where
  "modify_base n f =
     (if has_macro_scopes n
      then let base = erase_macro_scopes_aux n; new_base = f base in replace_prefix n base new_base
      else f n)"

definition append_after_str :: "name \<Rightarrow> string \<Rightarrow> name" where
  "append_after_str n suffix =
     modify_base n (\<lambda>base. case base of Str parent part \<Rightarrow> Str parent (part @ suffix) | _ \<Rightarrow> Str base suffix)"

text \<open>\<open>format!("{idx}")\<close> of a \<open>usize\<close>.\<close>

fun decimal :: "nat \<Rightarrow> string" where
  "decimal n = (if n < 10 then [char_of (48 + n)] else decimal (n div 10) @ [char_of (48 + n mod 10)])"

declare decimal.simps [simp del]

definition append_index_after :: "name \<Rightarrow> nat \<Rightarrow> name" where
  "append_index_after n idx =
     modify_base n (\<lambda>base. case base of
       Str parent part \<Rightarrow> Str parent (part @ ''_'' @ decimal idx) | _ \<Rightarrow> Str base (''_'' @ decimal idx))"

section \<open>At the boundary of ids\<close>

definition append_after_str_id ::
    "hashers \<Rightarrow> store option \<Rightarrow> u32 option \<Rightarrow> string \<Rightarrow> store \<Rightarrow> (u32 option \<times> store) result" where
  "append_after_str_id H base n suffix st =
     andthen (to_name base st n) (\<lambda>nm. intern_name H base (append_after_str nm suffix) st)"

definition replace_prefix_id ::
    "hashers \<Rightarrow> store option \<Rightarrow> u32 \<Rightarrow> u32 \<Rightarrow> u32 option \<Rightarrow> store \<Rightarrow> (u32 option \<times> store) result" where
  "replace_prefix_id H base n pre new_pre st =
     andthen (to_name base st (Some n)) (\<lambda>nm.
     andthen (to_name base st (Some pre)) (\<lambda>nm_pre.
     andthen (to_name base st new_pre) (\<lambda>nm_new.
       intern_name H base (replace_prefix nm nm_pre nm_new) st)))"

text \<open>\<open>intern_name(..)?.ok_or(BankExhausted)\<close>\<close>

definition intern_name_req :: "hashers \<Rightarrow> store option \<Rightarrow> name \<Rightarrow> store \<Rightarrow> (u32 \<times> store) result" where
  "intern_name_req H base n st =
     andthen (intern_name H base n st) (\<lambda>(x, st). andthen (ok_or BankExhausted x) (\<lambda>i. Inr (i, st)))"

definition name_append_id :: "hashers \<Rightarrow> store option \<Rightarrow> u32 \<Rightarrow> u32 \<Rightarrow> store \<Rightarrow> (u32 \<times> store) result" where
  "name_append_id H base n1 n2 st =
     andthen (to_name base st (Some n1)) (\<lambda>nm1.
     andthen (to_name base st (Some n2)) (\<lambda>nm2.
       intern_name_req H base (name_append nm1 nm2) st))"

definition append_index_after_id :: "hashers \<Rightarrow> store option \<Rightarrow> u32 \<Rightarrow> nat \<Rightarrow> store \<Rightarrow> (u32 \<times> store) result" where
  "append_index_after_id H base n idx st =
     andthen (to_name base st (Some n)) (\<lambda>nm. intern_name_req H base (append_index_after nm idx) st)"

section \<open>What they compute\<close>

lemma push_components_append: "push_components n (xs @ ys) = push_components (push_components n xs) ys"
  by (induction n xs rule: push_components.induct) simp_all

lemma components_push [simp]: "components (push_components n cs) = components n @ cs"
  by (induction n cs rule: push_components.induct) simp_all

lemma name_components_eq: "name_components n comps = comps @ rev (components n)"
  by (induction n comps rule: name_components.induct) simp_all

lemma components_append: "components (name_append n1 n2) = components n1 @ components n2"
  by (simp add: name_append_def name_components_eq)

lemma replace_prefix_loop_eq:
  "components n = components cur @ rev comps \<Longrightarrow>
     components (replace_prefix_loop n pre new_pre cur comps) =
       (if \<exists>ys. components cur = components pre @ ys
        then components new_pre @ drop (length (components pre)) (components n) else components n)"
proof (induction cur arbitrary: comps)
  case Anonymous
  then show ?case by (cases pre) (simp_all add: replace_prefix_loop.simps)
next
  case (Str parent part)
  show ?case
  proof (cases "Str parent part = pre")
    case True
    with Str.prems show ?thesis by (auto simp: replace_prefix_loop.simps)
  next
    case False
    have "(\<exists>ys. components (Str parent part) = components pre @ ys) \<longleftrightarrow> (\<exists>ys. components parent = components pre @ ys)"
    proof
      assume "\<exists>ys. components (Str parent part) = components pre @ ys"
      then obtain ys where ys: "components (Str parent part) = components pre @ ys" by blast
      from ys False have "ys \<noteq> []" using components_inject [of "Str parent part" pre] by auto
      with ys show "\<exists>ys. components parent = components pre @ ys" by (cases ys rule: rev_cases) auto
    qed auto
    with Str.IH [of "comps @ [CStr part]"] Str.prems False show ?thesis by (simp add: replace_prefix_loop.simps [of _ _ _ "Str _ _"])
  qed
next
  case (Num parent part)
  show ?case
  proof (cases "Num parent part = pre")
    case True
    with Num.prems show ?thesis by (auto simp: replace_prefix_loop.simps)
  next
    case False
    have "(\<exists>ys. components (Num parent part) = components pre @ ys) \<longleftrightarrow> (\<exists>ys. components parent = components pre @ ys)"
    proof
      assume "\<exists>ys. components (Num parent part) = components pre @ ys"
      then obtain ys where ys: "components (Num parent part) = components pre @ ys" by blast
      from ys False have "ys \<noteq> []" using components_inject [of "Num parent part" pre] by auto
      with ys show "\<exists>ys. components parent = components pre @ ys" by (cases ys rule: rev_cases) auto
    qed auto
    with Num.IH [of "comps @ [CNum part]"] Num.prems False show ?thesis by (simp add: replace_prefix_loop.simps [of _ _ _ "Num _ _"])
  qed
qed

lemma components_replace_prefix:
  "components (replace_prefix n pre new_pre) =
     (if \<exists>ys. components n = components pre @ ys
      then components new_pre @ drop (length (components pre)) (components n) else components n)"
  by (simp add: replace_prefix_def replace_prefix_loop_eq)

lemma replace_prefix_append: "replace_prefix (name_append pre n) pre new_pre = name_append new_pre n"
  by (simp add: components_append components_replace_prefix flip: components_inject)

lemma digit_inject: "a < 10 \<Longrightarrow> b < 10 \<Longrightarrow> (char_of (48 + a) :: char) = char_of (48 + b) \<longleftrightarrow> a = (b :: nat)"
  by (auto dest!: arg_cong [where f = "of_char :: char \<Rightarrow> nat"])

lemma decimal_inject: "decimal m = decimal n \<longleftrightarrow> m = n"
proof (induction m arbitrary: n rule: less_induct)
  case (less m)
  have one: "length (decimal k) = 1 \<longleftrightarrow> k < 10" for k
    by (subst decimal.simps) (auto simp: decimal.simps [of "k div 10"])
  show ?case
  proof
    assume eq: "decimal m = decimal n"
    with one have lt: "m < 10 \<longleftrightarrow> n < 10" by metis
    show "m = n"
    proof (cases "m < 10")
      case True
      with lt eq show ?thesis by (simp add: decimal.simps [of m] decimal.simps [of n] digit_inject del: char_of_nat)
    next
      case False
      with lt eq have "decimal (m div 10) = decimal (n div 10)" "m mod 10 = n mod 10"
        by (simp_all add: decimal.simps [of m] decimal.simps [of n] digit_inject)
      moreover have "m div 10 < m" using False by simp
      ultimately have "m div 10 = n div 10" using less by blast
      with \<open>m mod 10 = n mod 10\<close> show ?thesis by (metis div_mult_mod_eq)
    qed
  qed simp
qed

text \<open>The base of a name with macro scopes is a prefix of it, so that a suffix of the base shows in the name.\<close>

lemma erase_prefix: "\<exists>ys. components n = components (erase_macro_scopes_aux n) @ ys"
  by (induction n) auto

lemma components_modify_base:
  "\<exists>base ys. (\<forall>f. components (modify_base n f) = components (f base) @ ys)"
proof (cases "has_macro_scopes n")
  case True
  with erase_prefix [of n] show ?thesis by (auto simp: modify_base_def Let_def components_replace_prefix)
next
  case False
  then show ?thesis by (auto simp: modify_base_def)
qed

lemma append_index_after_inject: "append_index_after n i = append_index_after n j \<longleftrightarrow> i = j"
proof
  assume eq: "append_index_after n i = append_index_after n j"
  define f where "f idx base = (case base of Str parent part \<Rightarrow> Str parent (part @ ''_'' @ decimal idx) | _ \<Rightarrow> Str base (''_'' @ decimal idx))"
    for idx base
  obtain base ys where ys: "\<And>f. components (modify_base n f) = components (f base) @ ys"
    using components_modify_base [of n] by blast
  have "modify_base n (f i) = modify_base n (f j)"
    using eq by (simp add: append_index_after_def f_def [abs_def])
  with ys [of "f i"] ys [of "f j"] have "f i base = f j base" by simp
  then have "decimal i = decimal j" by (cases base) (simp_all add: f_def)
  then show "i = j" by (simp only: decimal_inject)
qed simp

section \<open>Contracts of the operations on ids\<close>

lemma intern_name_req_ok:
  assumes "wf H base st" and "n \<noteq> Anonymous"
  shows "interns H base (name_cost n) (\<exists>y. name_at base st y n) st (intern_name_req H base n st)
    (\<lambda>i st'. name_at base st' (Some i) n)"
proof -
  have "x \<noteq> None" if "name_at base st' x n" for x st'
    using that assms(2) by (cases x) (auto elim: name_at.cases)
  then show ?thesis
    using intern_name_ok [OF assms(1), of n]
    by (fastforce simp: intern_name_req_def interns_def runs_def run_def full_cases split: sum.splits)
qed

lemma append_index_after_id_ok:
  assumes wf: "wf H base st" and n: "name_at base st (Some n) nm"
  shows "interns H base (name_cost (append_index_after nm idx)) (\<exists>y. name_at base st y (append_index_after nm idx)) st
    (append_index_after_id H base n idx st) (\<lambda>i st'. name_at base st' (Some i) (append_index_after nm idx))"
proof -
  obtain b ys where ys: "\<And>f. components (modify_base nm f) = components (f b) @ ys" using components_modify_base by blast
  have "components (append_index_after nm idx) \<noteq> components Anonymous"
    unfolding append_index_after_def ys by (cases b) simp_all
  then have "append_index_after nm idx \<noteq> Anonymous" by auto
  from intern_name_req_ok [OF wf this] show ?thesis
    by (simp add: append_index_after_id_def to_name_ok [OF wf_banks [OF wf] n])
qed

lemma name_append_id_ok:
  assumes wf: "wf H base st" and n: "name_at base st (Some n1) nm1" "name_at base st (Some n2) nm2"
  shows "interns H base (name_cost (name_append nm1 nm2)) (\<exists>y. name_at base st y (name_append nm1 nm2)) st
    (name_append_id H base n1 n2 st) (\<lambda>i st'. name_at base st' (Some i) (name_append nm1 nm2))"
proof -
  have "nm1 \<noteq> Anonymous" using n(1) by (auto elim: name_at.cases)
  then have "components (name_append nm1 nm2) \<noteq> components Anonymous" by (cases nm1) (simp_all add: components_append)
  then have "name_append nm1 nm2 \<noteq> Anonymous" by auto
  from intern_name_req_ok [OF wf this] show ?thesis
    by (simp add: name_append_id_def to_name_ok [OF wf_banks [OF wf] n(1)] to_name_ok [OF wf_banks [OF wf] n(2)])
qed

lemma replace_prefix_id_ok:
  assumes wf: "wf H base st" and n: "name_at base st (Some n) nm" "name_at base st (Some pre) nm_pre" "name_at base st new nm_new"
  shows "interns H base (name_cost (replace_prefix nm nm_pre nm_new)) (\<exists>y. name_at base st y (replace_prefix nm nm_pre nm_new)) st
    (replace_prefix_id H base n pre new st) (\<lambda>i st'. name_at base st' i (replace_prefix nm nm_pre nm_new))"
  using intern_name_ok [OF wf, of "replace_prefix nm nm_pre nm_new"] to_name_ok [OF wf_banks [OF wf]] n
  by (simp add: replace_prefix_id_def)

end
