(* ===== verification/Union_Find.thy ===== *)
theory Union_Find
  imports Prelude
begin

text \<open>
  The union-find of the type checker (\<open>UnionFind\<close> of \<open>crates/leanr_kernel/src/tc.rs\<close>): the forest over
  the nodes of ids, and why following parents ends at a root and merging joins exactly two classes.
  A \<open>rank\<close> never exceeds the number of nodes, which is below \<open>2 ^ 32\<close>, so its \<open>u32\<close> is a natural number.
\<close>

section \<open>Operations\<close>

record union_find =
  uf_parent :: "nat list"
  uf_rank :: "nat list"
  uf_index :: "u32 \<rightharpoonup> nat"

definition uf_empty :: union_find where
  "uf_empty = \<lparr>uf_parent = [], uf_rank = [], uf_index = (\<lambda>_. None)\<rparr>"

definition to_node :: "u32 \<Rightarrow> union_find \<Rightarrow> nat \<times> union_find" where
  "to_node e uf =
     (case uf_index uf e of
        Some i \<Rightarrow> (i, uf)
      | None \<Rightarrow>
          let i = length (uf_parent uf) in
          (i, \<lparr>uf_parent = uf_parent uf @ [i], uf_rank = uf_rank uf @ [0], uf_index = (uf_index uf)(e \<mapsto> i)\<rparr>))"

partial_function (option) find_loop :: "nat list \<Rightarrow> nat \<Rightarrow> nat result option" where
  "find_loop parent n =
     (case get_index parent n of
        None \<Rightarrow> Some (Inl Panic)
      | Some p \<Rightarrow> if p = n then Some (Inr n) else find_loop parent p)"

declare find_loop.simps [code]

definition uf_find :: "union_find \<Rightarrow> nat \<Rightarrow> nat result" where
  "uf_find uf n = loop_result (find_loop (uf_parent uf) n)"

definition merge_refs :: "nat \<Rightarrow> nat \<Rightarrow> union_find \<Rightarrow> union_find result" where
  "merge_refs n1 n2 uf =
     andthen (uf_find uf n1) (\<lambda>r1.
     andthen (uf_find uf n2) (\<lambda>r2.
       if r1 = r2 then Inr uf
       else
         andthen (expect (get_index (uf_rank uf) r1)) (\<lambda>k1.
         andthen (expect (get_index (uf_rank uf) r2)) (\<lambda>k2.
           if k1 < k2 then Inr (uf\<lparr>uf_parent := (uf_parent uf)[r1 := r2]\<rparr>)
           else if k1 > k2 then Inr (uf\<lparr>uf_parent := (uf_parent uf)[r2 := r1]\<rparr>)
           else Inr (uf\<lparr>uf_parent := (uf_parent uf)[r2 := r1], uf_rank := (uf_rank uf)[r1 := k1 + 1]\<rparr>)))))"

definition uf_merge :: "u32 \<Rightarrow> u32 \<Rightarrow> union_find \<Rightarrow> union_find result" where
  "uf_merge t s uf =
     (let (a, uf) = to_node t uf; (b, uf) = to_node s uf in merge_refs a b uf)"

section \<open>The forest\<close>

definition nodes :: "union_find \<Rightarrow> nat" where
  "nodes uf = length (uf_parent uf)"

definition up :: "union_find \<Rightarrow> nat \<Rightarrow> nat" where
  "up uf i = uf_parent uf ! i"

text \<open>Ranks grow along parents.\<close>

definition forest :: "union_find \<Rightarrow> bool" where
  "forest uf \<longleftrightarrow> length (uf_rank uf) = nodes uf
     \<and> (\<forall>i < nodes uf. up uf i < nodes uf \<and> (up uf i \<noteq> i \<longrightarrow> uf_rank uf ! i < uf_rank uf ! up uf i))
     \<and> (\<forall>e i. uf_index uf e = Some i \<longrightarrow> i < nodes uf)"

lemma forest_empty: "forest uf_empty"
  by (simp add: forest_def uf_empty_def nodes_def)

lemma forest_induct [consumes 2, case_names up]:
  assumes f: "forest uf" and i: "i < nodes uf"
    and step: "\<And>i. i < nodes uf \<Longrightarrow> (up uf i \<noteq> i \<Longrightarrow> P (up uf i)) \<Longrightarrow> P i"
  shows "P i"
  using i
proof (induction "sum_list (uf_rank uf) - uf_rank uf ! i" arbitrary: i rule: less_induct)
  case less
  show ?case
  proof (rule step [OF less(2)])
    assume ne: "up uf i \<noteq> i"
    with f less(2) have up: "up uf i < nodes uf" "uf_rank uf ! i < uf_rank uf ! up uf i" by (auto simp: forest_def)
    have "uf_rank uf ! up uf i \<le> sum_list (uf_rank uf)"
      using up(1) f by (intro member_le_sum_list) (simp_all add: forest_def)
    with up show "P (up uf i)" by (intro less(1)) linarith+
  qed
qed

definition uf_root :: "union_find \<Rightarrow> nat \<Rightarrow> nat" where
  "uf_root uf i = (case uf_find uf i of Inr r \<Rightarrow> r | Inl _ \<Rightarrow> 0)"

lemma find_step:
  "i < nodes uf \<Longrightarrow> uf_find uf i = (if up uf i = i then Inr i else uf_find uf (up uf i))"
  by (simp add: uf_find_def find_loop.simps [of _ i] up_def nodes_def)

lemma find_root:
  assumes "forest uf" and "i < nodes uf"
  shows "uf_find uf i = Inr (uf_root uf i) \<and> uf_root uf i < nodes uf \<and> up uf (uf_root uf i) = uf_root uf i"
  using assms
proof (induction rule: forest_induct)
  case (up i)
  show ?case
  proof (cases "up uf i = i")
    case True
    with up(1) show ?thesis by (simp add: uf_root_def find_step)
  next
    case False
    with up(1) have "uf_find uf i = uf_find uf (up uf i)" by (simp add: find_step)
    moreover from this have "uf_root uf i = uf_root uf (up uf i)" by (simp add: uf_root_def)
    ultimately show ?thesis using up(2) [OF False] by simp
  qed
qed

lemma root_up: "forest uf \<Longrightarrow> i < nodes uf \<Longrightarrow> uf_root uf (up uf i) = uf_root uf i"
  using find_step [of i uf] by (cases "up uf i = i") (simp_all add: uf_root_def)

lemma root_root: "i < nodes uf \<Longrightarrow> up uf i = i \<Longrightarrow> uf_root uf i = i"
  by (simp add: uf_root_def find_step)

text \<open>The forest is followed to the same roots except below the root that is linked.\<close>

lemma root_link:
  assumes f: "forest uf" and f': "forest uf'" and n: "nodes uf' = nodes uf"
    and r: "r < nodes uf" "q < nodes uf" "up uf r = r" "up uf q = q" "r \<noteq> q"
    and up': "\<And>i. i < nodes uf \<Longrightarrow> up uf' i = (if i = r then q else up uf i)"
    and i: "i < nodes uf"
  shows "uf_root uf' i = (if uf_root uf i = r then q else uf_root uf i)"
proof -
  have q: "uf_root uf' q = q" using r(2,4,5) up' [OF r(2)] n by (intro root_root) simp_all
  have same: "uf_root uf' j = uf_root uf' (up uf' j)" if "j < nodes uf" for j using root_up [OF f', of j] that n by simp
  show ?thesis
    using f i
  proof (induction rule: forest_induct)
    case (up i)
    consider (link) "i = r" | (root) "i \<noteq> r" "up uf i = i" | (below) "i \<noteq> r" "up uf i \<noteq> i" by blast
    then show ?case
    proof cases
      case link
      have "uf_root uf' i = uf_root uf' q" using same [OF up(1)] up' [OF up(1)] link by simp
      moreover have "uf_root uf i = r" using link r(1,3) root_root by blast
      ultimately show ?thesis using q by simp
    next
      case root
      have "uf_root uf i = i" using root(2) up(1) by (rule root_root [rotated])
      moreover have "uf_root uf' i = i" using up' [OF up(1)] root n up(1) by (intro root_root) simp_all
      ultimately show ?thesis using root(1) by simp
    next
      case below
      have "uf_root uf' i = uf_root uf' (up uf i)" using same [OF up(1)] up' [OF up(1)] below(1) by simp
      with root_up [OF f up(1)] up(2) [OF below(2)] show ?thesis by simp
    qed
  qed
qed

section \<open>Contracts\<close>

lemma to_node_ok:
  assumes f: "forest uf" and t: "to_node e uf = (i, uf')"
  shows "forest uf' \<and> uf_index uf' e = Some i \<and> i < nodes uf' \<and> nodes uf \<le> nodes uf'
    \<and> (\<forall>j < nodes uf. uf_root uf' j = uf_root uf j) \<and> (\<forall>x j. uf_index uf x = Some j \<longrightarrow> uf_index uf' x = Some j)
    \<and> (\<forall>x j. uf_index uf' x = Some j \<longrightarrow> uf_index uf x = Some j \<or> x = e \<and> j = i \<and> i = nodes uf \<and> uf_root uf' i = i)"
proof (cases "uf_index uf e")
  case (Some j)
  with t f show ?thesis by (auto simp: to_node_def forest_def)
next
  case None
  with t have uf': "i = nodes uf" "uf' = \<lparr>uf_parent = uf_parent uf @ [nodes uf], uf_rank = uf_rank uf @ [0],
      uf_index = (uf_index uf)(e \<mapsto> nodes uf)\<rparr>"
    by (auto simp: to_node_def Let_def nodes_def)
  have n: "nodes uf' = Suc (nodes uf)" by (simp add: uf' nodes_def)
  have parent: "up uf' j = (if j = nodes uf then j else up uf j)" if "j < nodes uf'" for j
    using that by (auto simp: uf' up_def nodes_def nth_append)
  have rank: "uf_rank uf' = uf_rank uf @ [0]" and index: "uf_index uf' = (uf_index uf)(e \<mapsto> nodes uf)" by (simp_all add: uf'(2))
  have old: "length (uf_rank uf) = nodes uf" "\<And>j. j < nodes uf \<Longrightarrow> up uf j < nodes uf"
    "\<And>j. j < nodes uf \<Longrightarrow> up uf j \<noteq> j \<Longrightarrow> uf_rank uf ! j < uf_rank uf ! up uf j"
    "\<And>x j. uf_index uf x = Some j \<Longrightarrow> j < nodes uf" using f by (auto simp: forest_def)
  have "up uf' j < nodes uf' \<and> (up uf' j \<noteq> j \<longrightarrow> uf_rank uf' ! j < uf_rank uf' ! up uf' j)" if "j < nodes uf'" for j
    using that old(2,3) [of j] by (auto simp: parent n rank nth_append old(1))
  moreover have "j < nodes uf'" if "uf_index uf' x = Some j" for x j
    using that old(4) [of x j] by (auto simp: index n split: if_splits)
  ultimately have f': "forest uf'" by (simp add: forest_def rank n old(1))
  have "uf_root uf' j = uf_root uf j" if "j < nodes uf" for j
    using f that
  proof (induction rule: forest_induct)
    case (up j)
    have up': "up uf' j = up uf j" using parent [of j] up(1) n by simp
    show ?case
    proof (cases "up uf j = j")
      case True
      with up(1) up' n show ?thesis by (simp add: root_root)
    next
      case False
      with root_up [OF f', of j] root_up [OF f up(1)] up(2) up' up(1) n show ?thesis by simp
    qed
  qed
  moreover have "uf_root uf' i = i" using parent [of i] n uf'(1) by (intro root_root) simp_all
  ultimately show ?thesis using f' n None uf'(1) old(4) by (auto simp: index split: if_splits)
qed

lemma record_up [simp]:
  "up (uf\<lparr>uf_rank := ks\<rparr>) i = up uf i" "nodes (uf\<lparr>uf_rank := ks\<rparr>) = nodes uf"
  "a < nodes uf \<Longrightarrow> up (uf\<lparr>uf_parent := (uf_parent uf)[a := b]\<rparr>) i = (if i = a then b else up uf i)"
  "nodes (uf\<lparr>uf_parent := (uf_parent uf)[a := b]\<rparr>) = nodes uf"
  by (auto simp: up_def nodes_def)

text \<open>Linking the root \<open>a\<close> below the root \<open>b\<close>, whose rank is, or becomes, the higher one.\<close>

lemma link_ok:
  assumes f: "forest uf" and ab: "a < nodes uf" "b < nodes uf" "up uf a = a" "up uf b = b" "a \<noteq> b"
    and n: "nodes uf' = nodes uf" "uf_index uf' = uf_index uf" "length (uf_rank uf') = nodes uf"
    and up': "\<And>i. i < nodes uf \<Longrightarrow> up uf' i = (if i = a then b else up uf i)"
    and rank: "\<And>i. i < nodes uf \<Longrightarrow> i \<noteq> b \<Longrightarrow> uf_rank uf' ! i = uf_rank uf ! i"
      "uf_rank uf ! b \<le> uf_rank uf' ! b" "uf_rank uf ! a < uf_rank uf' ! b"
  shows "forest uf' \<and> (\<forall>i < nodes uf. uf_root uf' i = (if uf_root uf i = a \<or> uf_root uf i = b then b else uf_root uf i))"
proof -
  have le: "uf_rank uf ! i \<le> uf_rank uf' ! i" if "i < nodes uf" for i using rank(1) [OF that] rank(2) by (cases "i = b") auto
  have "up uf' i < nodes uf \<and> (up uf' i \<noteq> i \<longrightarrow> uf_rank uf' ! i < uf_rank uf' ! up uf' i)" if i: "i < nodes uf" for i
  proof (cases "i = a")
    case True
    with up' [OF i] rank(1) [OF i] rank(3) ab show ?thesis by simp
  next
    case False
    have u: "up uf i < nodes uf" "up uf i \<noteq> i \<Longrightarrow> uf_rank uf ! i < uf_rank uf ! up uf i" using f i by (auto simp: forest_def)
    have "up uf i \<noteq> i \<Longrightarrow> i \<noteq> b" using ab(4) by blast
    with False up' [OF i] rank(1) [OF i] u le [OF u(1)] show ?thesis by fastforce
  qed
  with f n have f': "forest uf'" by (simp add: forest_def)
  from root_link [OF f f' n(1) ab up'] show ?thesis using f' by auto
qed

lemma merge_refs_ok:
  assumes f: "forest uf" and n: "n1 < nodes uf" "n2 < nodes uf"
  shows "\<exists>uf' r. merge_refs n1 n2 uf = Inr uf' \<and> forest uf' \<and> nodes uf' = nodes uf \<and> uf_index uf' = uf_index uf
    \<and> r \<in> {uf_root uf n1, uf_root uf n2} \<and> (\<forall>i < nodes uf. uf_root uf' i = (if uf_root uf i = uf_root uf n1 \<or> uf_root uf i = uf_root uf n2 then r else uf_root uf i))"
proof (cases "uf_root uf n1 = uf_root uf n2")
  case True
  with find_root [OF f n(1)] find_root [OF f n(2)] f show ?thesis by (auto simp: merge_refs_def intro: exI [of _ "uf_root uf n2"])
next
  case False
  define a b where "a = uf_root uf n1" and "b = uf_root uf n2"
  have r: "a < nodes uf" "b < nodes uf" "up uf a = a" "up uf b = b" "a \<noteq> b"
    using find_root [OF f n(1)] find_root [OF f n(2)] False by (simp_all add: a_def b_def)
  have len: "length (uf_rank uf) = nodes uf" using f by (simp add: forest_def)
  let ?ka = "uf_rank uf ! a" and ?kb = "uf_rank uf ! b"
  have run: "merge_refs n1 n2 uf =
      (if ?ka < ?kb then Inr (uf\<lparr>uf_parent := (uf_parent uf)[a := b]\<rparr>)
       else if ?ka > ?kb then Inr (uf\<lparr>uf_parent := (uf_parent uf)[b := a]\<rparr>)
       else Inr (uf\<lparr>uf_parent := (uf_parent uf)[b := a], uf_rank := (uf_rank uf)[a := ?ka + 1]\<rparr>))"
    using find_root [OF f n(1)] find_root [OF f n(2)] r len by (simp add: merge_refs_def a_def [symmetric] b_def [symmetric])
  consider "?ka < ?kb" | "?kb < ?ka" | "?ka = ?kb" by linarith
  then show ?thesis
  proof cases
    case 1
    with link_ok [OF f r, of "uf\<lparr>uf_parent := (uf_parent uf)[a := b]\<rparr>"] r(1) len run show ?thesis
      by (auto simp: a_def [symmetric] b_def [symmetric])
  next
    case 2
    with link_ok [OF f r(2,1,4,3) r(5) [symmetric], of "uf\<lparr>uf_parent := (uf_parent uf)[b := a]\<rparr>"] r(2) len run show ?thesis
      by (auto simp: a_def [symmetric] b_def [symmetric] disj_commute)
  next
    case 3
    with link_ok [OF f r(2,1,4,3) r(5) [symmetric], of "uf\<lparr>uf_parent := (uf_parent uf)[b := a], uf_rank := (uf_rank uf)[a := ?ka + 1]\<rparr>"]
      r(1,2) len run show ?thesis
      by (auto simp: a_def [symmetric] b_def [symmetric] disj_commute)
  qed
qed

end
