(* ===== verification/Decls.thy ===== *)
theory Decls
  imports Terms
begin

text \<open>
  Declarations over ids (\<open>crates/leanr_kernel/src/decl.rs\<close>) and the gated table of the parallel
  checker (\<open>checked.rs\<close>). A \<open>NameId\<close> in a declaration position is never anonymous and is a plain
  id. The \<open>Arc\<close>-based twins of the file are test support and are not modelled.
\<close>

section \<open>Constants\<close>

datatype reducibility_hints = HOpaque | HAbbrev | HRegular u32

datatype definition_safety = Unsafe | Safe | Partial

datatype quot_kind = QType | QCtor | QLift | QInd

record constant_val =
  cv_name :: u32
  cv_level_params :: "u32 list"
  cv_ty :: u32

record axiom_val =
  ax_val :: constant_val
  ax_is_unsafe :: bool

record definition_val =
  df_val :: constant_val
  df_value :: u32
  df_hints :: reducibility_hints
  df_safety :: definition_safety
  df_all :: "u32 list"

record theorem_val =
  th_val :: constant_val
  th_value :: u32
  th_all :: "u32 list"

record opaque_val =
  op_val :: constant_val
  op_value :: u32
  op_is_unsafe :: bool
  op_all :: "u32 list"

record quot_val =
  qt_val :: constant_val
  qt_kind :: quot_kind

record inductive_val =
  iv_val :: constant_val
  iv_num_params :: nat
  iv_num_indices :: nat
  iv_all :: "u32 list"
  iv_ctors :: "u32 list"
  iv_num_nested :: nat
  iv_is_rec :: bool
  iv_is_unsafe :: bool
  iv_is_reflexive :: bool

record constructor_val =
  ct_val :: constant_val
  ct_induct :: u32
  ct_cidx :: nat
  ct_num_params :: nat
  ct_num_fields :: nat
  ct_is_unsafe :: bool

record recursor_rule =
  rr_ctor :: u32
  rr_nfields :: nat
  rr_rhs :: u32

record recursor_val =
  rv_val :: constant_val
  rv_all :: "u32 list"
  rv_num_params :: nat
  rv_num_indices :: nat
  rv_num_motives :: nat
  rv_num_minors :: nat
  rv_rules :: "recursor_rule list"
  rv_k :: bool
  rv_is_unsafe :: bool

datatype constant_info =
    CAxiom axiom_val
  | CDefn definition_val
  | CThm theorem_val
  | COpaque opaque_val
  | CQuot quot_val
  | CInduct inductive_val
  | CCtor constructor_val
  | CRec recursor_val

record inductive_type =
  it_name :: u32
  it_ty :: u32
  it_ctors :: "(u32 \<times> u32) list"

datatype kernel_decl =
    DAxiom axiom_val
  | DDefn definition_val
  | DThm theorem_val
  | DOpaque opaque_val
  | DQuot
  | DInductive "u32 list" nat "inductive_type list" bool

fun constant_val_of :: "constant_info \<Rightarrow> constant_val" where
  "constant_val_of (CAxiom v) = ax_val v"
| "constant_val_of (CDefn v) = df_val v"
| "constant_val_of (CThm v) = th_val v"
| "constant_val_of (COpaque v) = op_val v"
| "constant_val_of (CQuot v) = qt_val v"
| "constant_val_of (CInduct v) = iv_val v"
| "constant_val_of (CCtor v) = ct_val v"
| "constant_val_of (CRec v) = rv_val v"

definition ci_name :: "constant_info \<Rightarrow> u32" where
  "ci_name ci = cv_name (constant_val_of ci)"

fun ci_kind :: "constant_info \<Rightarrow> string" where
  "ci_kind (CAxiom _) = ''axiom''"
| "ci_kind (CDefn _) = ''def''"
| "ci_kind (CThm _) = ''thm''"
| "ci_kind (COpaque _) = ''opaque''"
| "ci_kind (CQuot _) = ''quot''"
| "ci_kind (CInduct _) = ''induct''"
| "ci_kind (CCtor _) = ''ctor''"
| "ci_kind (CRec _) = ''rec''"

section \<open>The gated table\<close>

text \<open>
  \<open>CheckedConstants\<close>: the decoded constants and a flag for each. A \<open>HashMap\<close> is iterated in no
  particular order; \<open>decoded\<close> holds its entries in the order that an iteration would give, with
  distinct keys.
\<close>

record checked_constants =
  decoded :: "(u32 \<times> constant_info) list"
  admitted :: "u32 \<rightharpoonup> bool"

definition cc_new :: "(u32 \<times> constant_info) list \<Rightarrow> checked_constants" where
  "cc_new entries = \<lparr>decoded = entries, admitted = (\<lambda>n. map_option (\<lambda>_. False) (map_of entries n))\<rparr>"

definition get_decoded :: "checked_constants \<Rightarrow> u32 \<Rightarrow> constant_info option" where
  "get_decoded t n = map_of (decoded t) n"

definition cc_get :: "checked_constants \<Rightarrow> u32 \<Rightarrow> constant_info option" where
  "cc_get t n = (if admitted t n = Some True then map_of (decoded t) n else None)"

definition cc_contains :: "checked_constants \<Rightarrow> u32 \<Rightarrow> bool" where
  "cc_contains t n \<longleftrightarrow> map_of (decoded t) n \<noteq> None"

definition cc_admit :: "u32 \<Rightarrow> checked_constants \<Rightarrow> checked_constants" where
  "cc_admit n t = (case admitted t n of Some _ \<Rightarrow> t\<lparr>admitted := (admitted t)(n \<mapsto> True)\<rparr> | None \<Rightarrow> t)"

definition iter_decoded :: "checked_constants \<Rightarrow> (u32 \<times> constant_info) list" where
  "iter_decoded t = decoded t"

datatype const_source = Plain "u32 \<rightharpoonup> constant_info" | Gated checked_constants

definition source_get :: "const_source \<Rightarrow> u32 \<Rightarrow> constant_info option" where
  "source_get src n = (case src of Plain m \<Rightarrow> m n | Gated c \<Rightarrow> cc_get c n)"

text \<open>A table of the kind that \<open>new\<close> and \<open>admit\<close> make: a flag for every entry and for no other name.\<close>

definition cc_ok :: "checked_constants \<Rightarrow> bool" where
  "cc_ok t \<longleftrightarrow> distinct (map fst (decoded t)) \<and> (\<forall>n. admitted t n = None \<longleftrightarrow> n \<notin> fst ` set (decoded t))"

lemma cc_ok_new: "distinct (map fst entries) \<Longrightarrow> cc_ok (cc_new entries)"
  by (simp add: cc_ok_def cc_new_def map_of_eq_None_iff)

lemma cc_ok_mem: "cc_ok t \<Longrightarrow> admitted t n = None \<longleftrightarrow> map_of (decoded t) n = None"
  by (simp add: cc_ok_def map_of_eq_None_iff)

lemma cc_ok_admit: "cc_ok t \<Longrightarrow> cc_ok (cc_admit n t)"
proof (cases "admitted t n")
  case (Some b)
  assume ok: "cc_ok t"
  with Some have "n \<in> fst ` set (decoded t)" by (metis cc_ok_def not_None_eq)
  with ok Some show ?thesis by (auto simp: cc_ok_def cc_admit_def)
qed (simp add: cc_admit_def)

lemma get_decoded_admit [simp]: "get_decoded (cc_admit n t) = get_decoded t"
  by (simp add: get_decoded_def cc_admit_def fun_eq_iff split: option.split)

lemma decoded_admit [simp]: "decoded (cc_admit n t) = decoded t"
  by (simp add: cc_admit_def split: option.split)

lemma cc_get_new [simp]: "cc_get (cc_new entries) n = None"
  by (auto simp: cc_get_def cc_new_def)

text \<open>Admission of \<open>n\<close> makes \<open>n\<close> visible, and nothing else.\<close>

lemma cc_get_admit:
  "cc_ok t \<Longrightarrow> cc_get (cc_admit n t) m = (if m = n then get_decoded t n else cc_get t m)"
  using cc_ok_mem [of t n] by (auto simp: cc_get_def cc_admit_def get_decoded_def split: option.split)

end
