(* ===== verification/Used_Consts.thy ===== *)
theory Used_Consts
  imports Decls Term_Bridge "HOL-Library.Product_Lexorder"
begin

text \<open>
  The constants a declaration refers to (\<open>crates/leanr_kernel/src/used_consts.rs\<close>), collected by an
  explicit-stack walk over the shared rows that visits every id once. The loop ends and its result is
  the set of the constants of the trees, each name once.
\<close>

section \<open>The walk\<close>

text \<open>\<open>out\<close> in order with \<open>seen\<close> as the set of its elements; \<open>visited\<close> holds the ids popped.\<close>

type_synonym collected = "u32 list \<times> u32 set"

definition push_name :: "u32 \<Rightarrow> collected \<Rightarrow> collected" where
  "push_name n acc = (case acc of (out, seen) \<Rightarrow> if n \<in> seen then (out, seen) else (out @ [n], insert n seen))"

text \<open>The children in the order in which they are pushed; the last one is popped first.\<close>

definition pushed_children :: "node \<Rightarrow> u32 list" where
  "pushed_children nd =
     (case nd of
        NApp f a \<Rightarrow> [f, a] | NLam _ t b _ \<Rightarrow> [t, b] | NForall _ t b _ \<Rightarrow> [t, b]
      | NLetE _ t v b _ \<Rightarrow> [t, v, b] | NMData _ c \<Rightarrow> [c] | NProj _ _ c \<Rightarrow> [c] | NProjBig _ _ c \<Rightarrow> [c]
      | _ \<Rightarrow> [])"

text \<open>The arm of a constant; an anonymous name is passed over.\<close>

definition visit_node :: "node \<Rightarrow> collected \<Rightarrow> collected" where
  "visit_node nd acc = (case nd of NConst (Some n) _ \<Rightarrow> push_name n acc | _ \<Rightarrow> acc)"

partial_function (option) collect_loop ::
    "store option \<Rightarrow> store \<Rightarrow> u32 list \<Rightarrow> collected \<Rightarrow> u32 set \<Rightarrow> (collected \<times> u32 set) result option" where
  "collect_loop base st stack acc visited =
     (case stack of
        [] \<Rightarrow> Some (Inr (acc, visited))
      | e # stack \<Rightarrow>
          if e \<in> visited then collect_loop base st stack acc visited
          else
            (case expr_node base st e of
               Inl err \<Rightarrow> Some (Inl err)
             | Inr nd \<Rightarrow>
                 collect_loop base st (rev (pushed_children nd) @ stack) (visit_node nd acc) (insert e visited)))"

declare collect_loop.simps [code]

definition collect_expr_consts ::
    "store option \<Rightarrow> store \<Rightarrow> u32 \<Rightarrow> collected \<Rightarrow> u32 set \<Rightarrow> (collected \<times> u32 set) result" where
  "collect_expr_consts base st root acc visited = loop_result (collect_loop base st [root] acc visited)"

fun collect_rules ::
    "store option \<Rightarrow> store \<Rightarrow> recursor_rule list \<Rightarrow> collected \<Rightarrow> u32 set \<Rightarrow> (collected \<times> u32 set) result" where
  "collect_rules base st [] acc visited = Inr (acc, visited)"
| "collect_rules base st (r # rules) acc visited =
     andthen (collect_expr_consts base st (rr_rhs r) acc visited) (\<lambda>(acc, visited).
       collect_rules base st rules acc visited)"

text \<open>The value, or the names of the kind.\<close>

definition collect_value ::
    "store option \<Rightarrow> store \<Rightarrow> constant_info \<Rightarrow> collected \<Rightarrow> u32 set \<Rightarrow> (collected \<times> u32 set) result" where
  "collect_value base st info acc visited =
     (case info of
        CDefn v \<Rightarrow> collect_expr_consts base st (df_value v) acc visited
      | CThm v \<Rightarrow> collect_expr_consts base st (th_value v) acc visited
      | COpaque v \<Rightarrow> collect_expr_consts base st (op_value v) acc visited
      | CInduct v \<Rightarrow> Inr (fold push_name (iv_ctors v) acc, visited)
      | CCtor v \<Rightarrow> Inr (push_name (cv_name (ct_val v)) acc, visited)
      | CRec v \<Rightarrow> collect_rules base st (rv_rules v) (fold push_name (rv_all v) acc) visited
      | CAxiom _ \<Rightarrow> Inr (acc, visited)
      | CQuot _ \<Rightarrow> Inr (acc, visited))"

definition used_constants :: "store \<Rightarrow> store option \<Rightarrow> constant_info \<Rightarrow> u32 list result" where
  "used_constants st base info =
     andthen (collect_expr_consts base st (cv_ty (constant_val_of info)) ([], {}) {}) (\<lambda>(acc, visited).
     andthen (collect_value base st info acc visited) (\<lambda>((out, _), _). Inr out))"

section \<open>What the walk collects\<close>

definition kids :: "store option \<Rightarrow> store \<Rightarrow> (u32 \<times> u32) set" where
  "kids base st = {(e, c). \<exists>nd. expr_node base st e = Inr nd \<and> c \<in> set (pushed_children nd)}"

definition const_names :: "store option \<Rightarrow> store \<Rightarrow> u32 set \<Rightarrow> u32 set" where
  "const_names base st V = {n. \<exists>e \<in> V. \<exists>ls. expr_node base st e = Inr (NConst (Some n) ls)}"

definition reached :: "store option \<Rightarrow> store \<Rightarrow> u32 set \<Rightarrow> u32 set" where
  "reached base st R = (kids base st)\<^sup>* `` R"

lemma const_names_Un [simp]: "const_names base st (V \<union> W) = const_names base st V \<union> const_names base st W"
  by (auto simp: const_names_def)

lemma reached_Un [simp]: "reached base st (R \<union> S) = reached base st R \<union> reached base st S"
  by (auto simp: reached_def)

definition acc_ok :: "collected \<Rightarrow> u32 set \<Rightarrow> bool" where
  "acc_ok acc S \<longleftrightarrow> distinct (fst acc) \<and> set (fst acc) = snd acc \<and> snd acc = S"

lemma acc_ok_push: "acc_ok acc S \<Longrightarrow> acc_ok (push_name n acc) (insert n S)"
  by (auto simp: acc_ok_def push_name_def split: prod.split)

lemma acc_ok_fold: "acc_ok acc S \<Longrightarrow> acc_ok (fold push_name ns acc) (set ns \<union> S)"
proof (induction ns arbitrary: acc S)
  case (Cons n ns)
  from Cons.IH [OF acc_ok_push [OF Cons.prems]] show ?case by simp
qed simp

text \<open>The ids that can be decoded, with everything below them.\<close>

definition decodable :: "store option \<Rightarrow> store \<Rightarrow> u32 set" where
  "decodable base st = {e. \<exists>t. expr_at base st e t}"

lemma decodable_node:
  assumes ok: "banks_ok H base st" and e: "e \<in> decodable base st"
  obtains nd where "expr_node base st e = Inr nd" and "set (pushed_children nd) \<subseteq> decodable base st"
proof -
  from e obtain t where "expr_at base st e t" by (auto simp: decodable_def)
  then obtain nd where nd: "node_at base st e nd" "node_expr base st (expr_at base st) nd t" by (rule expr_atE)
  from nd(2) have "set (pushed_children nd) \<subseteq> decodable base st"
    by (cases nd) (auto simp: pushed_children_def decodable_def)
  with expr_node_ok [OF ok nd(1)] that show thesis by blast
qed

text \<open>
  The state of the walk: the constants found are those of the visited ids, and every child of a
  visited id is visited or on the stack.
\<close>

definition walking :: "store option \<Rightarrow> store \<Rightarrow> u32 set \<Rightarrow> u32 set \<Rightarrow> u32 list \<Rightarrow> collected \<Rightarrow> u32 set \<Rightarrow> bool" where
  "walking base st R X stack acc V \<longleftrightarrow> acc_ok acc (const_names base st V \<union> X) \<and> set stack \<union> V \<subseteq> reached base st R
     \<and> R \<subseteq> set stack \<union> V \<and> kids base st `` V \<subseteq> set stack \<union> V \<and> set stack \<subseteq> decodable base st"

lemma walking_end:
  assumes "walking base st R X [] acc V"
  shows "V = reached base st R \<and> acc_ok acc (const_names base st (reached base st R) \<union> X)"
proof -
  have "(kids base st)\<^sup>* `` R \<subseteq> V"
  proof clarify
    fix r e assume "r \<in> R" and "(r, e) \<in> (kids base st)\<^sup>*"
    from this(2,1) show "e \<in> V" by induction (use assms in \<open>auto simp: walking_def\<close>)
  qed
  with assms show ?thesis by (auto simp: walking_def reached_def)
qed

lemma walking_skip: "walking base st R X (e # stack) acc V \<Longrightarrow> e \<in> V \<Longrightarrow> walking base st R X stack acc V"
  by (auto simp: walking_def)

lemma walking_visit:
  assumes w: "walking base st R X (e # stack) acc V" and nd: "expr_node base st e = Inr nd"
    and dec: "set (pushed_children nd) \<subseteq> decodable base st"
    and acc: "acc_ok acc' (const_names base st (insert e V) \<union> X)"
  shows "walking base st R X (rev (pushed_children nd) @ stack) acc' (insert e V)"
proof -
  have kids: "kids base st `` {e} = set (pushed_children nd)" using nd by (auto simp: kids_def)
  have "e \<in> reached base st R" using w by (simp add: walking_def)
  with kids have "set (pushed_children nd) \<subseteq> reached base st R"
    unfolding reached_def by (blast intro: rtrancl_into_rtrancl)
  moreover have "kids base st `` insert e V = set (pushed_children nd) \<union> kids base st `` V" using kids by blast
  ultimately show ?thesis using w acc dec by (auto simp: walking_def)
qed

lemma collect_loop_ok:
  assumes ok: "banks_ok H base st"
  shows "walking base st R X stack acc V \<Longrightarrow> \<exists>acc' V'. collect_loop base st stack acc V = Some (Inr (acc', V'))
    \<and> V' = reached base st R \<and> acc_ok acc' (const_names base st (reached base st R) \<union> X)"
proof (induction "(card (- V), length stack)" arbitrary: stack acc V rule: less_induct)
  case less
  show ?case
  proof (cases stack)
    case Nil
    with walking_end less.prems show ?thesis by (subst collect_loop.simps) fastforce
  next
    case (Cons e rest)
    show ?thesis
    proof (cases "e \<in> V")
      case True
      with Cons less.prems less.hyps [of V rest acc] walking_skip [of base st R X e rest acc V] show ?thesis
        by (subst collect_loop.simps) (auto simp: less_prod_def)
    next
      case False
      have "e \<in> decodable base st" using less.prems Cons by (simp add: walking_def)
      then obtain nd where nd: "expr_node base st e = Inr nd" "set (pushed_children nd) \<subseteq> decodable base st"
        by (rule decodable_node [OF ok])
      have smaller: "card (- insert e V) < card (- V)"
        using False by (intro psubset_card_mono) auto
      have acc: "acc_ok acc (const_names base st V \<union> X)" using less.prems by (simp add: walking_def)
      have "const_names base st (insert e V) =
          (case nd of NConst (Some n) _ \<Rightarrow> {n} | _ \<Rightarrow> {}) \<union> const_names base st V"
        using nd(1) by (auto simp: const_names_def split: node.splits option.splits)
      then have "acc_ok (visit_node nd acc) (const_names base st (insert e V) \<union> X)"
        using acc acc_ok_push [OF acc] by (auto simp: visit_node_def split: node.split option.split)
      from walking_visit [OF less.prems [unfolded Cons] nd this]
      have "walking base st R X (rev (pushed_children nd) @ rest) (visit_node nd acc) (insert e V)" .
      from less.hyps [OF _ this] smaller have
        "\<exists>acc' V'. collect_loop base st (rev (pushed_children nd) @ rest) (visit_node nd acc) (insert e V) = Some (Inr (acc', V'))
          \<and> V' = reached base st R \<and> acc_ok acc' (const_names base st (reached base st R) \<union> X)"
        by (simp add: less_prod_def)
      moreover have "collect_loop base st (e # rest) acc V =
          collect_loop base st (rev (pushed_children nd) @ rest) (visit_node nd acc) (insert e V)"
        by (subst collect_loop.simps) (simp add: False nd(1))
      ultimately show ?thesis using Cons by simp
    qed
  qed
qed

section \<open>The whole function\<close>

text \<open>One walk after another: the ids visited before are passed over, with what is below them.\<close>

definition collected_ok :: "store option \<Rightarrow> store \<Rightarrow> u32 set \<Rightarrow> u32 set \<Rightarrow> collected \<Rightarrow> u32 set \<Rightarrow> bool" where
  "collected_ok base st R X acc V \<longleftrightarrow> V = reached base st R \<and> acc_ok acc (const_names base st V \<union> X)"

lemma reached_closed: "kids base st `` reached base st R \<subseteq> reached base st R"
  by (auto simp: reached_def intro: rtrancl_into_rtrancl)

lemma collect_expr_consts_ok:
  assumes ok: "banks_ok H base st" and root: "root \<in> decodable base st" and c: "collected_ok base st R X acc V"
  shows "run {} (collect_expr_consts base st root acc V)
    (\<lambda>(acc', V'). collected_ok base st (insert root R) X acc' V')"
proof -
  have "walking base st (insert root R) X [root] acc V"
    using c root reached_closed [of base st R] unfolding collected_ok_def walking_def
    by (auto simp: reached_def)
  from collect_loop_ok [OF ok this] show ?thesis
    by (auto simp: collect_expr_consts_def collected_ok_def)
qed

lemma collect_rules_ok:
  assumes ok: "banks_ok H base st"
  shows "rr_rhs ` set rules \<subseteq> decodable base st \<Longrightarrow> collected_ok base st R X acc V \<Longrightarrow>
    run {} (collect_rules base st rules acc V)
      (\<lambda>(acc', V'). collected_ok base st (rr_rhs ` set rules \<union> R) X acc' V')"
proof (induction rules arbitrary: R acc V)
  case (Cons r rules)
  have "rr_rhs r \<in> decodable base st" using Cons.prems(1) by simp
  from collect_expr_consts_ok [OF ok this Cons.prems(2)] show ?case
    unfolding collect_rules.simps run_andthen
    by (rule run_mono) (use Cons.IH Cons.prems(1) in \<open>fastforce simp: insert_commute\<close>)+
qed simp

text \<open>The terms of a declaration and the names it mentions beside them.\<close>

definition decl_terms :: "constant_info \<Rightarrow> u32 set" where
  "decl_terms info = insert (cv_ty (constant_val_of info))
     (case info of CDefn v \<Rightarrow> {df_value v} | CThm v \<Rightarrow> {th_value v} | COpaque v \<Rightarrow> {op_value v}
      | CRec v \<Rightarrow> rr_rhs ` set (rv_rules v) | _ \<Rightarrow> {})"

definition decl_names :: "constant_info \<Rightarrow> u32 set" where
  "decl_names info =
     (case info of CInduct v \<Rightarrow> set (iv_ctors v) | CCtor v \<Rightarrow> {cv_name (ct_val v)} | CRec v \<Rightarrow> set (rv_all v) | _ \<Rightarrow> {})"

lemma collected_more:
  assumes "collected_ok base st R X acc V" shows "collected_ok base st R (set ns \<union> X) (fold push_name ns acc) V"
proof -
  have "acc_ok (fold push_name ns acc) (set ns \<union> (const_names base st V \<union> X))"
    using assms unfolding collected_ok_def by (intro acc_ok_fold) blast
  with assms show ?thesis by (simp add: collected_ok_def Un_left_commute)
qed

lemma collect_value_ok:
  assumes ok: "banks_ok H base st" and dec: "decl_terms info \<subseteq> decodable base st"
    and c: "collected_ok base st {cv_ty (constant_val_of info)} {} acc V"
  shows "run {} (collect_value base st info acc V)
    (\<lambda>(acc, V). collected_ok base st (decl_terms info) (decl_names info) acc V)"
proof -
  let ?ty = "cv_ty (constant_val_of info)"
  let ?goal = "\<lambda>m. run {} m (\<lambda>(acc, V). collected_ok base st (decl_terms info) (decl_names info) acc V)"
  have one: "?goal (collect_expr_consts base st v acc V)" if "decl_terms info = {v, ?ty}" "decl_names info = {}" for v
    using collect_expr_consts_ok [OF ok _ c, of v] that dec by simp
  have none: "?goal (Inr (acc', V))" if "collected_ok base st {?ty} (decl_names info) acc' V" "decl_terms info = {?ty}" for acc'
    using that by simp
  show ?thesis
  proof (cases info)
    case (CDefn v)
    with one [of "df_value v"] show ?thesis by (simp add: collect_value_def decl_terms_def decl_names_def insert_commute)
  next
    case (CThm v)
    with one [of "th_value v"] show ?thesis by (simp add: collect_value_def decl_terms_def decl_names_def insert_commute)
  next
    case (COpaque v)
    with one [of "op_value v"] show ?thesis by (simp add: collect_value_def decl_terms_def decl_names_def insert_commute)
  next
    case (CInduct v)
    with none collected_more [OF c, of "iv_ctors v"] show ?thesis
      by (simp add: collect_value_def decl_terms_def decl_names_def)
  next
    case (CCtor v)
    with none collected_more [OF c, of "[cv_name (ct_val v)]"] show ?thesis
      by (simp add: collect_value_def decl_terms_def decl_names_def)
  next
    case (CRec v)
    have "run {} (collect_rules base st (rv_rules v) (fold push_name (rv_all v) acc) V)
        (\<lambda>(acc', V'). collected_ok base st (rr_rhs ` set (rv_rules v) \<union> {?ty}) (set (rv_all v) \<union> {}) acc' V')"
      by (rule collect_rules_ok [OF ok _ collected_more [OF c]]) (use dec CRec in \<open>simp add: decl_terms_def\<close>)
    with CRec show ?thesis by (simp add: collect_value_def decl_terms_def decl_names_def Un_insert_right)
  next
    case (CAxiom v)
    with none c show ?thesis by (simp add: collect_value_def decl_terms_def decl_names_def)
  next
    case (CQuot v)
    with none c show ?thesis by (simp add: collect_value_def decl_terms_def decl_names_def)
  qed
qed

lemma used_constants_ids:
  assumes ok: "banks_ok H base st" and dec: "decl_terms info \<subseteq> decodable base st"
  shows "run {} (used_constants st base info)
    (\<lambda>ns. distinct ns \<and> set ns = const_names base st (reached base st (decl_terms info)) \<union> decl_names info)"
proof -
  have start: "collected_ok base st {} {} ([], {}) {}"
    by (simp add: collected_ok_def reached_def acc_ok_def const_names_def)
  have ty: "cv_ty (constant_val_of info) \<in> decodable base st" using dec by (simp add: decl_terms_def)
  from collect_expr_consts_ok [OF ok ty start] obtain acc V where
    1: "collect_expr_consts base st (cv_ty (constant_val_of info)) ([], {}) {} = Inr (acc, V)"
      "collected_ok base st {cv_ty (constant_val_of info)} {} acc V"
    by (auto simp: run_def split: sum.splits)
  from collect_value_ok [OF ok dec 1(2)] obtain out seen V' where
    2: "collect_value base st info acc V = Inr ((out, seen), V')"
      "collected_ok base st (decl_terms info) (decl_names info) (out, seen) V'"
    by (auto simp: run_def split: sum.splits)
  from 1(1) 2 show ?thesis by (auto simp: used_constants_def collected_ok_def acc_ok_def)
qed

section \<open>The constants of a tree\<close>

fun consts_of :: "expr \<Rightarrow> name set" where
  "consts_of (EConst n _) = {n}"
| "consts_of (EApp f a) = consts_of f \<union> consts_of a"
| "consts_of (ELam _ t b _) = consts_of t \<union> consts_of b"
| "consts_of (EForallE _ t b _) = consts_of t \<union> consts_of b"
| "consts_of (ELetE _ t v b _) = consts_of t \<union> consts_of v \<union> consts_of b"
| "consts_of (EMData _ c) = consts_of c"
| "consts_of (EProj _ _ c) = consts_of c"
| "consts_of _ = {}"

lemma consts_of_children:
  "consts_of e = (case e of EConst n _ \<Rightarrow> {n} | _ \<Rightarrow> {}) \<union> (\<Union>c \<in> set (expr_children e). consts_of c)"
  by (cases e) (auto simp: expr_children_def)

lemma reached_step: "reached base st {i} = {i} \<union> (\<Union>c \<in> {c. (i, c) \<in> kids base st}. reached base st {c})"
proof (intro set_eqI iffI)
  fix x assume "x \<in> reached base st {i}"
  then have "(i, x) \<in> (kids base st)\<^sup>*" by (simp add: reached_def)
  then show "x \<in> {i} \<union> (\<Union>c \<in> {c. (i, c) \<in> kids base st}. reached base st {c})"
    by (cases rule: converse_rtranclE) (auto simp: reached_def)
next
  fix x assume "x \<in> {i} \<union> (\<Union>c \<in> {c. (i, c) \<in> kids base st}. reached base st {c})"
  then show "x \<in> reached base st {i}"
    by (auto simp: reached_def intro: converse_rtrancl_into_rtrancl)
qed

text \<open>What is below an id is what is below its tree.\<close>

lemma reached_tree:
  assumes ok: "banks_ok H base st" and e: "expr_at base st i e"
  shows "const_names base st (reached base st {i}) = {x. \<exists>n \<in> consts_of e. name_at base st (Some x) n}"
  using e
proof (induction e arbitrary: i rule: measure_induct_rule [of expr_weight])
  case (less e)
  from less.prems obtain nd where nd: "node_at base st i nd" "node_expr base st (expr_at base st) nd e" by (rule expr_atE)
  note node = expr_node_ok [OF ok nd(1)]
  have children: "list_all2 (expr_at base st) (node_children nd) (expr_children e)" by (rule node_children_at [OF nd(2)])
  have same: "set (pushed_children nd) = set (node_children nd)"
    by (cases nd) (auto simp: pushed_children_def node_children_def)
  have "{c. (i, c) \<in> kids base st} = set (node_children nd)"
    using node same by (auto simp: kids_def)
  then have "reached base st {i} = {i} \<union> (\<Union>c \<in> set (node_children nd). reached base st {c})"
    using reached_step [of base st i] by (simp only:)
  then have "const_names base st (reached base st {i}) =
      const_names base st {i} \<union> (\<Union>c \<in> set (node_children nd). const_names base st (reached base st {c}))"
    by (auto simp: const_names_def)
  also have "const_names base st {i} = {x. \<exists>n \<in> (case e of EConst n _ \<Rightarrow> {n} | _ \<Rightarrow> {}). name_at base st (Some x) n}"
  proof -
    have own: "const_names base st {i} = {y. \<exists>ls. nd = NConst (Some y) ls}"
      by (simp add: const_names_def node)
    show ?thesis
    proof (cases "\<exists>x ls. nd = NConst x ls")
      case True
      then obtain x ls where x: "nd = NConst x ls" by blast
      with nd(2) obtain n ks where n: "name_at base st x n" "e = EConst n ks" by auto
      have "name_at base st (Some y) n \<longleftrightarrow> x = Some y" for y
      proof
        assume "name_at base st (Some y) n"
        from name_at_inject [OF ok n(1) this] show "x = Some y" .
      qed (use n(1) in simp)
      with x own n(2) show ?thesis by simp
    next
      case False
      with nd(2) have "(case e of EConst n _ \<Rightarrow> {n} | _ \<Rightarrow> {}) = {}" by (cases nd) auto
      with False own show ?thesis by simp
    qed
  qed
  also have "(\<Union>c \<in> set (node_children nd). const_names base st (reached base st {c})) =
      {x. \<exists>n \<in> (\<Union>c \<in> set (expr_children e). consts_of c). name_at base st (Some x) n}"
  proof -
    have IH: "const_names base st (reached base st {c}) = {x. \<exists>n \<in> consts_of t. name_at base st (Some x) n}"
      if "t \<in> set (expr_children e)" "expr_at base st c t" for c t
    proof -
      have "expr_weight t < expr_weight e" using that(1) by (cases e) (auto simp: expr_children_def)
      from less.IH [OF this that(2)] show ?thesis .
    qed
    note len = list_all2_lengthD [OF children]
    show ?thesis
    proof (intro set_eqI iffI)
      fix x assume "x \<in> (\<Union>c \<in> set (node_children nd). const_names base st (reached base st {c}))"
      then obtain k where k: "k < length (node_children nd)" "x \<in> const_names base st (reached base st {node_children nd ! k})"
        by (auto simp: in_set_conv_nth)
      from k(1) len have "expr_children e ! k \<in> set (expr_children e)" by simp
      note IH [OF this list_all2_nthD [OF children k(1)]]
      with k(2) \<open>expr_children e ! k \<in> set (expr_children e)\<close> show "x \<in> {x. \<exists>n \<in> (\<Union>c \<in> set (expr_children e). consts_of c). name_at base st (Some x) n}" by blast
    next
      fix x assume "x \<in> {x. \<exists>n \<in> (\<Union>c \<in> set (expr_children e). consts_of c). name_at base st (Some x) n}"
      then obtain t n where t: "t \<in> set (expr_children e)" "n \<in> consts_of t" "name_at base st (Some x) n" by blast
      then obtain k where k: "k < length (expr_children e)" "expr_children e ! k = t" by (auto simp: in_set_conv_nth)
      with len have mem: "node_children nd ! k \<in> set (node_children nd)" by simp
      have "expr_at base st (node_children nd ! k) t"
        using list_all2_nthD [OF children, of k] k len by simp
      from IH [OF t(1) this] mem t(2,3) show "x \<in> (\<Union>c \<in> set (node_children nd). const_names base st (reached base st {c}))" by blast
    qed
  qed
  finally show ?case by (subst consts_of_children) blast
qed

text \<open>The function over the trees of a declaration.\<close>

definition info_at :: "store option \<Rightarrow> store \<Rightarrow> constant_info \<Rightarrow> expr set \<Rightarrow> bool" where
  "info_at base st info T \<longleftrightarrow> (\<forall>i \<in> decl_terms info. \<exists>t \<in> T. expr_at base st i t)
     \<and> (\<forall>t \<in> T. \<exists>i \<in> decl_terms info. expr_at base st i t)"

lemma const_names_reached_Union: "const_names base st (reached base st R) = (\<Union>i \<in> R. const_names base st (reached base st {i}))"
  by (auto simp: const_names_def reached_def)

lemma used_constants_ok:
  assumes ok: "banks_ok H base st" and info: "info_at base st info T"
  shows "run {} (used_constants st base info)
    (\<lambda>ns. distinct ns \<and> set ns = {x. \<exists>t \<in> T. \<exists>n \<in> consts_of t. name_at base st (Some x) n} \<union> decl_names info)"
proof -
  have "decl_terms info \<subseteq> decodable base st" using info by (auto simp: info_at_def decodable_def)
  moreover have "(\<Union>i \<in> decl_terms info. const_names base st (reached base st {i})) =
      {x. \<exists>t \<in> T. \<exists>n \<in> consts_of t. name_at base st (Some x) n}"
    using info reached_tree [OF ok] unfolding info_at_def by blast
  ultimately show ?thesis
    using used_constants_ids [OF ok, of info] const_names_reached_Union [of base st "decl_terms info"] by simp
qed

end
