(* ===== verification/Equiv_Manager.thy ===== *)
theory Equiv_Manager
  imports Union_Find Used_Consts Subst
begin

text \<open>
  The equality cache of the type checker (\<open>UnionFind::is_equiv_core\<close> of \<open>crates/leanr_kernel/src/tc.rs\<close>):
  two ids are equivalent when their classes are the same or their nodes have the same head and
  equivalent children. What is merged on the way is a congruence of whatever was merged before.
\<close>

section \<open>The test\<close>

definition proj_parts_of :: "store option \<Rightarrow> store \<Rightarrow> node \<Rightarrow> (u32 option \<times> nat \<times> u32) result" where
  "proj_parts_of base st nd =
     (case nd of
        NProj x w c \<Rightarrow> Inr (x, unat w, c)
      | NProjBig x q c \<Rightarrow> andthen (nat_at base st q) (\<lambda>k. Inr (x, k, c))
      | _ \<Rightarrow> Inl Panic)"

definition is_proj_node :: "node \<Rightarrow> bool" where
  "is_proj_node nd = (case nd of NProj _ _ _ \<Rightarrow> True | NProjBig _ _ _ \<Rightarrow> True | _ \<Rightarrow> False)"

text \<open>
  The arms of the match on two nodes: the pairs of children to compare from left to right and the test
  that remains after them. The pair of two variables was dealt with before (\<open>unreachable!\<close>).
\<close>

definition node_pairs :: "node \<Rightarrow> node \<Rightarrow> (u32 \<times> u32) list \<times> bool" where
  "node_pairs na nb =
     (case na of
        NConst n1 l1 \<Rightarrow> (case nb of NConst n2 l2 \<Rightarrow> ([], n1 = n2 \<and> l1 = l2) | _ \<Rightarrow> ([], False))
      | NMVar i1 \<Rightarrow> (case nb of NMVar i2 \<Rightarrow> ([], i1 = i2) | _ \<Rightarrow> ([], False))
      | NFVar i1 \<Rightarrow> (case nb of NFVar i2 \<Rightarrow> ([], i1 = i2) | _ \<Rightarrow> ([], False))
      | NApp f1 a1 \<Rightarrow> (case nb of NApp f2 a2 \<Rightarrow> ([(f1, f2), (a1, a2)], True) | _ \<Rightarrow> ([], False))
      | NLam _ d1 b1 _ \<Rightarrow> (case nb of NLam _ d2 b2 _ \<Rightarrow> ([(d1, d2), (b1, b2)], True) | _ \<Rightarrow> ([], False))
      | NForall _ d1 b1 _ \<Rightarrow> (case nb of NForall _ d2 b2 _ \<Rightarrow> ([(d1, d2), (b1, b2)], True) | _ \<Rightarrow> ([], False))
      | NSort l1 \<Rightarrow> (case nb of NSort l2 \<Rightarrow> ([], l1 = l2) | _ \<Rightarrow> ([], False))
      | NLitNat v1 \<Rightarrow> (case nb of NLitNat v2 \<Rightarrow> ([], v1 = v2) | _ \<Rightarrow> ([], False))
      | NLitStr v1 \<Rightarrow> (case nb of NLitStr v2 \<Rightarrow> ([], v1 = v2) | _ \<Rightarrow> ([], False))
      | NMData _ e1 \<Rightarrow> (case nb of NMData _ e2 \<Rightarrow> ([(e1, e2)], True) | _ \<Rightarrow> ([], False))
      | NLetE _ t1 v1 b1 _ \<Rightarrow> (case nb of NLetE _ t2 v2 b2 _ \<Rightarrow> ([(t1, t2), (v1, v2), (b1, b2)], True) | _ \<Rightarrow> ([], False))
      | _ \<Rightarrow> ([], False))"

definition node_match :: "store option \<Rightarrow> store \<Rightarrow> node \<Rightarrow> node \<Rightarrow> ((u32 \<times> u32) list \<times> bool) result" where
  "node_match base st na nb =
     (if is_bvar_node na \<and> is_bvar_node nb then Inl Panic
      else if is_proj_node na \<and> is_proj_node nb
      then andthen (proj_parts_of base st na) (\<lambda>(_, ix1, s1). andthen (proj_parts_of base st nb) (\<lambda>(_, ix2, s2).
             Inr ([(s1, s2)], ix1 = ix2)))
      else Inr (node_pairs na nb))"

text \<open>\<open>use_hash && st.expr_data(base, a).hash() != st.expr_data(base, b).hash()\<close>\<close>

definition hash_rejects :: "store option \<Rightarrow> store \<Rightarrow> u32 \<Rightarrow> u32 \<Rightarrow> bool \<Rightarrow> bool result" where
  "hash_rejects base st a b use_hash =
     (if use_hash
      then andthen (expr_data base st a) (\<lambda>da. andthen (expr_data base st b) (\<lambda>db. Inr (d_hash da \<noteq> d_hash db)))
      else Inr False)"

function (sequential)
    is_equiv_core :: "store option \<Rightarrow> store \<Rightarrow> u32 \<Rightarrow> u32 \<Rightarrow> bool \<Rightarrow> nat \<Rightarrow> union_find \<Rightarrow> (bool \<times> union_find) result"
  and is_equiv_list :: "store option \<Rightarrow> store \<Rightarrow> (u32 \<times> u32) list \<Rightarrow> bool \<Rightarrow> nat \<Rightarrow> union_find \<Rightarrow> (bool \<times> union_find) result" where
  "is_equiv_core base st a b use_hash d uf =
     (if a = b then Inr (True, uf)
      else
        andthen (hash_rejects base st a b use_hash) (\<lambda>reject.
          if reject then Inr (False, uf)
          else
            andthen (expr_node base st a) (\<lambda>na. andthen (expr_node base st b) (\<lambda>nb.
              if is_bvar_node na \<and> is_bvar_node nb
              then andthen (bvar_index_nat base st na) (\<lambda>i. andthen (bvar_index_nat base st nb) (\<lambda>j. Inr (i = j, uf)))
              else
                (case to_node a uf of (node1, uf) \<Rightarrow> case to_node b uf of (node2, uf) \<Rightarrow>
                   andthen (uf_find uf node1) (\<lambda>r1. andthen (uf_find uf node2) (\<lambda>r2.
                     if r1 = r2 then Inr (True, uf)
                     else
                       andthen (enter d (\<lambda>d.
                         andthen (node_match base st na nb) (\<lambda>(pairs, test).
                         andthen (is_equiv_list base st pairs use_hash d uf) (\<lambda>(children, uf).
                           Inr (children \<and> test, uf))))) (\<lambda>(result, uf).
                         andthen (if result then merge_refs r1 r2 uf else Inr uf) (\<lambda>uf. Inr (result, uf)))))))))) "
| "is_equiv_list base st [] use_hash d uf = Inr (True, uf)"
| "is_equiv_list base st ((a, b) # pairs) use_hash d uf =
     andthen (is_equiv_core base st a b use_hash d uf) (\<lambda>(same, uf).
       if same then is_equiv_list base st pairs use_hash d uf else Inr (False, uf))"
  by pat_completeness auto
termination
  by (relation "measures [case_sum (\<lambda>(_, _, _, _, _, d, _). MAX_REC_DEPTH - d) (\<lambda>(_, _, _, _, d, _). MAX_REC_DEPTH - d),
      case_sum (\<lambda>_. 0) (\<lambda>(_, _, pairs, _). Suc (length pairs))]") auto

declare is_equiv_core.simps [simp del]

definition is_equiv :: "store option \<Rightarrow> store \<Rightarrow> u32 \<Rightarrow> u32 \<Rightarrow> bool \<Rightarrow> nat \<Rightarrow> union_find \<Rightarrow> (bool \<times> union_find) result" where
  "is_equiv base st a b use_hash d uf = is_equiv_core base st a b use_hash d uf"

section \<open>Congruences of trees\<close>

text \<open>What of a node the test looks at: binder names and annotations, metadata, the type name of a
  projection and the let flag are ignored.\<close>

datatype head =
    HBVar nat | HFVar name | HMVar name | HSort level | HConst name "level list" | HApp | HLam | HForall | HLet
  | HLit literal | HMData | HProj nat

fun head_of :: "expr \<Rightarrow> head" where
  "head_of (EBVar n) = HBVar n"
| "head_of (EFVar n) = HFVar n"
| "head_of (EMVar n) = HMVar n"
| "head_of (ESort l) = HSort l"
| "head_of (EConst n ls) = HConst n ls"
| "head_of (EApp _ _) = HApp"
| "head_of (ELam _ _ _ _) = HLam"
| "head_of (EForallE _ _ _ _) = HForall"
| "head_of (ELetE _ _ _ _ _) = HLet"
| "head_of (ELit l) = HLit l"
| "head_of (EMData _ _) = HMData"
| "head_of (EProj _ k _) = HProj k"

definition congruence :: "(expr \<Rightarrow> expr \<Rightarrow> bool) \<Rightarrow> bool" where
  "congruence R \<longleftrightarrow> equivp R
     \<and> (\<forall>t u. head_of t = head_of u \<longrightarrow> list_all2 R (expr_children t) (expr_children u) \<longrightarrow> R t u)"

text \<open>Every two ids of the same class denote related trees.\<close>

definition classes :: "store option \<Rightarrow> store \<Rightarrow> (expr \<Rightarrow> expr \<Rightarrow> bool) \<Rightarrow> union_find \<Rightarrow> bool" where
  "classes base st R uf \<longleftrightarrow> forest uf \<and> (\<forall>a b i j. uf_index uf a = Some i \<longrightarrow> uf_index uf b = Some j \<longrightarrow> uf_root uf i = uf_root uf j \<longrightarrow>
     (\<exists>t u. expr_at base st a t \<and> expr_at base st b u \<and> R t u))"

text \<open>A later state of the cache: nodes keep their numbers, classes only grow together.\<close>

definition coarser :: "union_find \<Rightarrow> union_find \<Rightarrow> bool" where
  "coarser uf uf' \<longleftrightarrow> nodes uf \<le> nodes uf' \<and> (\<forall>x i. uf_index uf x = Some i \<longrightarrow> uf_index uf' x = Some i)
     \<and> (\<forall>i < nodes uf. \<forall>j < nodes uf. uf_root uf i = uf_root uf j \<longrightarrow> uf_root uf' i = uf_root uf' j)"

lemma coarser_refl: "coarser uf uf"
  by (simp add: coarser_def)

lemma coarserD:
  assumes "coarser uf uf'"
  shows "uf_index uf x = Some i \<Longrightarrow> uf_index uf' x = Some i" and "i < nodes uf \<Longrightarrow> i < nodes uf'"
    and "i < nodes uf \<Longrightarrow> j < nodes uf \<Longrightarrow> uf_root uf i = uf_root uf j \<Longrightarrow> uf_root uf' i = uf_root uf' j"
  using assms unfolding coarser_def by (blast, linarith, blast)

lemma coarser_trans: "coarser uf1 uf2 \<Longrightarrow> coarser uf2 uf3 \<Longrightarrow> coarser uf1 uf3"
  unfolding coarser_def by (meson order_trans order.strict_trans2)

lemma congruenceD:
  assumes "congruence R"
  shows "R t t" and "R t u \<Longrightarrow> R u t" and "R t u \<Longrightarrow> R u v \<Longrightarrow> R t v"
    and "head_of t = head_of u \<Longrightarrow> list_all2 R (expr_children t) (expr_children u) \<Longrightarrow> R t u"
  using assms unfolding congruence_def by (blast dest: equivp_reflp equivp_symp equivp_transp)+

lemma classesD:
  assumes "classes base st R uf" and "uf_index uf a = Some i" and "uf_index uf b = Some j" and "uf_root uf i = uf_root uf j"
  obtains t u where "expr_at base st a t" and "expr_at base st b u" and "R t u"
  using assms unfolding classes_def by blast

lemma forest_classes: "classes base st R uf \<Longrightarrow> forest uf"
  by (simp add: classes_def)

lemma forest_index: "forest uf \<Longrightarrow> uf_index uf x = Some i \<Longrightarrow> i < nodes uf"
  by (simp add: forest_def)

lemma to_node_classes:
  assumes R: "congruence R" and c: "classes base st R uf" and e: "expr_at base st e t" and n: "to_node e uf = (i, uf')"
  shows "classes base st R uf' \<and> coarser uf uf' \<and> uf_index uf' e = Some i \<and> i < nodes uf'"
proof -
  note f = forest_classes [OF c]
  note N = to_node_ok [OF f n]
  have old: "j < nodes uf" if "uf_index uf x = Some j" for x j using forest_index [OF f that] .
  have "\<exists>t u. expr_at base st a t \<and> expr_at base st b u \<and> R t u"
    if i: "uf_index uf' a = Some j" "uf_index uf' b = Some k" "uf_root uf' j = uf_root uf' k" for a b j k
  proof -
    have new: "uf_root uf' j' = uf_root uf j' \<and> uf_root uf j' < nodes uf" if "uf_index uf x = Some j'" for x j'
      using N old [OF that] find_root [OF f old [OF that]] by auto
    from N i(1) consider (a) "uf_index uf a = Some j" | (ea) "a = e" "j = i" "uf_root uf' i = i" "i = nodes uf" by blast
    then show ?thesis
    proof cases
      case a
      from N i(2) consider (b) "uf_index uf b = Some k" | (eb) "b = e" "k = i" "uf_root uf' i = i" "i = nodes uf" by blast
      then show ?thesis
      proof cases
        case b
        with a i(3) new [OF a] new [OF b] show ?thesis using classesD [OF c a b] by metis
      next
        case eb
        with new [OF a] i(3) show ?thesis by simp
      qed
    next
      case ea
      from N i(2) consider (b) "uf_index uf b = Some k" | (eb) "b = e" by blast
      then show ?thesis
      proof cases
        case b
        with new [OF b] ea i(3) show ?thesis by simp
      next
        case eb
        with ea e congruenceD(1) [OF R] show ?thesis by blast
      qed
    qed
  qed
  with N show ?thesis by (auto simp: classes_def coarser_def)
qed

lemma merge_classes:
  assumes R: "congruence R" and c: "classes base st R uf" and a: "uf_index uf a = Some i" "uf_root uf i = uf_root uf r1" "r1 < nodes uf"
    and b: "uf_index uf b = Some j" "uf_root uf j = uf_root uf r2" "r2 < nodes uf"
    and e: "expr_at base st a t" "expr_at base st b u" "R t u"
  shows "\<exists>uf'. merge_refs r1 r2 uf = Inr uf' \<and> classes base st R uf' \<and> coarser uf uf'"
proof -
  note f = forest_classes [OF c]
  from merge_refs_ok [OF f a(3) b(3)] obtain uf' r where
    M: "merge_refs r1 r2 uf = Inr uf'" "forest uf'" "nodes uf' = nodes uf" "uf_index uf' = uf_index uf"
    "r \<in> {uf_root uf r1, uf_root uf r2}" "\<And>i. i < nodes uf \<Longrightarrow> uf_root uf' i =
       (if uf_root uf i = uf_root uf r1 \<or> uf_root uf i = uf_root uf r2 then r else uf_root uf i)" by blast
  note refl = congruenceD(1) [OF R] and sym = congruenceD(2) [OF R] and trans = congruenceD(3) [OF R]
  have near: "\<exists>v. expr_at base st x v \<and> R v t" if x: "uf_index uf x = Some k" "uf_root uf k = uf_root uf r1 \<or> uf_root uf k = uf_root uf r2" for x k
    using x(2)
  proof
    assume "uf_root uf k = uf_root uf r1"
    with classesD [OF c x(1) a(1)] a(2) obtain v w where "expr_at base st x v" "expr_at base st a w" "R v w" by auto
    with e(1) expr_at_det show ?thesis by blast
  next
    assume "uf_root uf k = uf_root uf r2"
    with classesD [OF c x(1) b(1)] b(2) obtain v w where "expr_at base st x v" "expr_at base st b w" "R v w" by auto
    with e(2,3) expr_at_det sym trans show ?thesis by metis
  qed
  have "\<exists>v w. expr_at base st x v \<and> expr_at base st y w \<and> R v w"
    if x: "uf_index uf x = Some k" and y: "uf_index uf y = Some l" and same: "uf_root uf' k = uf_root uf' l" for x y k l
  proof (cases "uf_root uf k = uf_root uf l")
    case True
    with classesD [OF c x y] show ?thesis by blast
  next
    case False
    have lt: "k < nodes uf" "l < nodes uf" using forest_index [OF f] x y by blast+
    have hit: "(uf_root uf k = uf_root uf r1 \<or> uf_root uf k = uf_root uf r2) \<and> (uf_root uf l = uf_root uf r1 \<or> uf_root uf l = uf_root uf r2)"
      using same False M(5) M(6) [OF lt(1)] M(6) [OF lt(2)] by (auto split: if_splits)
    from near [OF x] near [OF y] hit sym trans show ?thesis by blast
  qed
  with M show ?thesis by (auto simp: classes_def coarser_def)
qed

section \<open>One level\<close>

definition matched :: "store option \<Rightarrow> store \<Rightarrow> (expr \<Rightarrow> expr \<Rightarrow> bool) \<Rightarrow> expr \<Rightarrow> expr \<Rightarrow> (u32 \<times> u32) list \<times> bool \<Rightarrow> bool" where
  "matched base st R t u = (\<lambda>(pairs, test).
     (\<forall>(x, y) \<in> set pairs. x \<in> decodable base st \<and> y \<in> decodable base st)
     \<and> (test \<longrightarrow> (\<forall>(x, y) \<in> set pairs. \<forall>v w. expr_at base st x v \<longrightarrow> expr_at base st y w \<longrightarrow> R v w)
         \<longrightarrow> head_of t = head_of u \<and> list_all2 R (expr_children t) (expr_children u)))"

lemma matched_none [simp]: "matched base st R t u ([], False)"
  by (simp add: matched_def)

lemma node_pairs_ok:
  assumes ok: "banks_ok H base st" and a: "node_expr base st (expr_at base st) na t" and b: "node_expr base st (expr_at base st) nb u"
  shows "matched base st R t u (node_pairs na nb)"
proof (cases na)
  case (NFVar x)
  with a b show ?thesis by (cases nb) (auto simp: node_pairs_def matched_def expr_children_def intro: name_at_det)
next
  case (NMVar x)
  with a b show ?thesis by (cases nb) (auto simp: node_pairs_def matched_def expr_children_def intro: name_at_det)
next
  case (NSort l)
  with a b show ?thesis by (cases nb) (auto simp: node_pairs_def matched_def expr_children_def intro: level_at_det)
next
  case (NConst x ls)
  with a b show ?thesis
    by (cases nb) (auto simp: node_pairs_def matched_def expr_children_def intro: name_at_det levels_at_det)
qed (use a b in \<open>cases nb; auto simp: node_pairs_def matched_def expr_children_def decodable_def; fail\<close>)+

lemma node_match_ok:
  assumes ok: "banks_ok H base st" and a: "node_expr base st (expr_at base st) na t" and b: "node_expr base st (expr_at base st) nb u"
    and bvar: "\<not> (is_bvar_node na \<and> is_bvar_node nb)"
  shows "\<exists>m. node_match base st na nb = Inr m \<and> matched base st R t u m"
proof (cases "is_proj_node na \<and> is_proj_node nb")
  case True
  with a b bvar show ?thesis
    by (cases na; cases nb; simp add: is_proj_node_def)
      (auto simp: node_match_def is_proj_node_def is_bvar_node_def proj_parts_of_def matched_def decodable_def expr_children_def pool_reads(2) [OF ok])
next
  case False
  then have "node_match base st na nb = Inr (node_pairs na nb)" using bvar by (auto simp: node_match_def)
  with node_pairs_ok [OF ok a b] show ?thesis by blast
qed

lemma bvar_index_ok:
  assumes ok: "banks_ok H base st" and a: "node_expr base st R nd t" and "is_bvar_node nd"
  shows "\<exists>i. bvar_index_nat base st nd = Inr i \<and> t = EBVar i"
  using assms by (cases nd) (auto simp: is_bvar_node_def bvar_index_nat_def pool_reads(2) [OF ok])

section \<open>The contract\<close>

definition sound_answer :: "store option \<Rightarrow> store \<Rightarrow> (expr \<Rightarrow> expr \<Rightarrow> bool) \<Rightarrow> union_find \<Rightarrow> bool \<Rightarrow> bool \<times> union_find \<Rightarrow> bool" where
  "sound_answer base st R uf P = (\<lambda>(r, uf'). classes base st R uf' \<and> coarser uf uf' \<and> (r \<longrightarrow> P))"

lemma sound_answer_coarser:
  "coarser uf uf1 \<Longrightarrow> sound_answer base st R uf1 P x \<Longrightarrow> sound_answer base st R uf P x"
  by (auto simp: sound_answer_def intro: coarser_trans split: prod.splits)

abbreviation pairs_related :: "store option \<Rightarrow> store \<Rightarrow> (expr \<Rightarrow> expr \<Rightarrow> bool) \<Rightarrow> (u32 \<times> u32) list \<Rightarrow> bool" where
  "pairs_related base st R pairs \<equiv> \<forall>(x, y) \<in> set pairs. \<forall>v w. expr_at base st x v \<longrightarrow> expr_at base st y w \<longrightarrow> R v w"

lemma is_equiv_list_ok:
  assumes core: "\<And>a b t u uf. classes base st R uf \<Longrightarrow> expr_at base st a t \<Longrightarrow> expr_at base st b u \<Longrightarrow>
      run {DeepRecursion} (is_equiv_core base st a b use_hash d uf) (sound_answer base st R uf (R t u))"
  shows "classes base st R uf \<Longrightarrow> \<forall>(x, y) \<in> set pairs. x \<in> decodable base st \<and> y \<in> decodable base st \<Longrightarrow>
      run {DeepRecursion} (is_equiv_list base st pairs use_hash d uf) (sound_answer base st R uf (pairs_related base st R pairs))"
proof (induction pairs arbitrary: uf)
  case Nil
  then show ?case by (simp add: sound_answer_def coarser_refl)
next
  case (Cons p pairs)
  obtain a b where p: "p = (a, b)" by (cases p)
  from Cons.prems(2) p obtain t u where t: "expr_at base st a t" and u: "expr_at base st b u" by (auto simp: decodable_def)
  have only: "v = t" if "expr_at base st a v" for v using expr_at_det [OF that t] .
  have only': "w = u" if "expr_at base st b w" for w using expr_at_det [OF that u] .
  show ?case
    unfolding p is_equiv_list.simps
  proof (rule run_bind [OF core [OF Cons.prems(1) t u]])
    fix x assume x: "sound_answer base st R uf (R t u) x"
    obtain same uf1 where s: "x = (same, uf1)" by (cases x)
    from x s have c: "classes base st R uf1" "coarser uf uf1" "same \<longrightarrow> R t u" by (simp_all add: sound_answer_def)
    show "run {DeepRecursion} (case x of (same, uf) \<Rightarrow> if same then is_equiv_list base st pairs use_hash d uf else Inr (False, uf))
        (sound_answer base st R uf (pairs_related base st R ((a, b) # pairs)))"
    proof (cases same)
      case True
      have "run {DeepRecursion} (is_equiv_list base st pairs use_hash d uf1) (sound_answer base st R uf1 (pairs_related base st R pairs))"
        using Cons.prems(2) by (intro Cons.IH [OF c(1)]) auto
      then show ?thesis
        unfolding s prod.case if_P [OF True]
        by (rule run_mono) (use c(2,3) True only only' in \<open>auto simp: sound_answer_def intro: coarser_trans\<close>)
    qed (use c s in \<open>simp add: sound_answer_def\<close>)
  qed
qed

lemma hash_rejects_ok:
  assumes "banks_ok H base st" and "terms_ok H base st" and "expr_at base st a t" and "expr_at base st b u"
  obtains r where "hash_rejects base st a b use_hash = Inr r"
proof (cases use_hash)
  case False
  then show thesis by (simp add: that hash_rejects_def)
next
  case True
  obtain da db where "expr_data base st a = Inr da" "expr_data base st b = Inr db"
    using expr_data_ok [OF assms(1,2,3)] expr_data_ok [OF assms(1,2,4)] by blast
  with True show thesis by (intro that) (simp add: hash_rejects_def)
qed

text \<open>After the two nodes have been numbered: \<open>i\<close> and \<open>j\<close> are the nodes of the ids.\<close>

definition compare_nodes ::
    "store option \<Rightarrow> store \<Rightarrow> node \<Rightarrow> node \<Rightarrow> bool \<Rightarrow> nat \<Rightarrow> nat \<Rightarrow> nat \<Rightarrow> union_find \<Rightarrow> (bool \<times> union_find) result" where
  "compare_nodes base st na nb use_hash d i j uf =
     andthen (uf_find uf i) (\<lambda>r1. andthen (uf_find uf j) (\<lambda>r2.
       if r1 = r2 then Inr (True, uf)
       else
         andthen (enter d (\<lambda>d.
           andthen (node_match base st na nb) (\<lambda>(pairs, test).
           andthen (is_equiv_list base st pairs use_hash d uf) (\<lambda>(children, uf).
             Inr (children \<and> test, uf))))) (\<lambda>(result, uf).
           andthen (if result then merge_refs r1 r2 uf else Inr uf) (\<lambda>uf. Inr (result, uf)))))"

lemma is_equiv_core_unfold:
  "is_equiv_core base st a b use_hash d uf =
     (if a = b then Inr (True, uf)
      else
        andthen (hash_rejects base st a b use_hash) (\<lambda>reject.
          if reject then Inr (False, uf)
          else
            andthen (expr_node base st a) (\<lambda>na. andthen (expr_node base st b) (\<lambda>nb.
              if is_bvar_node na \<and> is_bvar_node nb
              then andthen (bvar_index_nat base st na) (\<lambda>i. andthen (bvar_index_nat base st nb) (\<lambda>j. Inr (i = j, uf)))
              else (case to_node a uf of (i, uf) \<Rightarrow> case to_node b uf of (j, uf) \<Rightarrow> compare_nodes base st na nb use_hash d i j uf)))))"
  unfolding is_equiv_core.simps [of base st a] compare_nodes_def ..

lemma compare_nodes_ok:
  assumes ok: "banks_ok H base st" and R: "congruence R" and c: "classes base st R uf"
    and i: "uf_index uf a = Some i" and j: "uf_index uf b = Some j"
    and t: "expr_at base st a t" and u: "expr_at base st b u"
    and na: "node_expr base st (expr_at base st) na t" and nb: "node_expr base st (expr_at base st) nb u"
    and bvar: "\<not> (is_bvar_node na \<and> is_bvar_node nb)"
    and list: "\<And>pairs. d < MAX_REC_DEPTH \<Longrightarrow> \<forall>(x, y) \<in> set pairs. x \<in> decodable base st \<and> y \<in> decodable base st \<Longrightarrow>
      run {DeepRecursion} (is_equiv_list base st pairs use_hash (Suc d) uf) (sound_answer base st R uf (pairs_related base st R pairs))"
  shows "run {DeepRecursion} (compare_nodes base st na nb use_hash d i j uf) (sound_answer base st R uf (R t u))"
proof -
  note f = forest_classes [OF c]
  define r1 r2 where "r1 = uf_root uf i" and "r2 = uf_root uf j"
  have lt: "i < nodes uf" "j < nodes uf" using forest_index [OF f] i j by blast+
  have r1: "uf_find uf i = Inr r1" "r1 < nodes uf" "uf_root uf i = uf_root uf r1"
    and r2: "uf_find uf j = Inr r2" "r2 < nodes uf" "uf_root uf j = uf_root uf r2"
    using find_root [OF f lt(1)] find_root [OF f lt(2)] root_root by (simp_all add: r1_def r2_def)
  show ?thesis
  proof (cases "r1 = r2")
    case True
    then have "uf_root uf i = uf_root uf j" by (simp add: r1_def r2_def)
    with classesD [OF c i j] t u expr_at_det have "R t u" by metis
    with True r1(1) r2(1) c show ?thesis by (simp add: compare_nodes_def sound_answer_def coarser_refl)
  next
    case False
    obtain pairs test where m: "node_match base st na nb = Inr (pairs, test)" "matched base st R t u (pairs, test)"
      using node_match_ok [OF ok na nb bvar, of R] by auto
    have dec: "\<forall>(x, y) \<in> set pairs. x \<in> decodable base st \<and> y \<in> decodable base st" using m(2) by (simp add: matched_def)
    have merged: "run {DeepRecursion} (andthen (if r then merge_refs r1 r2 uf' else Inr uf') (\<lambda>uf. Inr (r, uf)))
        (sound_answer base st R uf (R t u))"
      if c': "classes base st R uf'" and g: "coarser uf uf'" and yes: "r \<longrightarrow> R t u" for r uf'
    proof (cases r)
      case True
      from merge_classes [OF R c' coarserD(1) [OF g i] coarserD(3) [OF g lt(1) r1(2,3)] coarserD(2) [OF g r1(2)]
          coarserD(1) [OF g j] coarserD(3) [OF g lt(2) r2(2,3)] coarserD(2) [OF g r2(2)] t u] True yes
      obtain uf'' where "merge_refs r1 r2 uf' = Inr uf''" "classes base st R uf''" "coarser uf' uf''" by blast
      with True yes g show ?thesis by (auto simp: sound_answer_def intro: coarser_trans)
    qed (use c' g in \<open>simp add: sound_answer_def\<close>)
    show ?thesis
      unfolding compare_nodes_def r1(1) r2(1) andthen_Inr if_not_P [OF False]
    proof (rule run_bind [of _ _ "\<lambda>(r, uf'). classes base st R uf' \<and> coarser uf uf' \<and> (r \<longrightarrow> R t u)"])
      show "run {DeepRecursion} (enter d (\<lambda>d. andthen (node_match base st na nb) (\<lambda>(pairs, test).
          andthen (is_equiv_list base st pairs use_hash d uf) (\<lambda>(children, uf). Inr (children \<and> test, uf)))))
          (\<lambda>(r, uf'). classes base st R uf' \<and> coarser uf uf' \<and> (r \<longrightarrow> R t u))"
      proof (rule run_enter)
        assume "d < MAX_REC_DEPTH"
        have yes: "R t u" if "test" "pairs_related base st R pairs"
          using m(2) that congruenceD(4) [OF R, of t u] unfolding matched_def by blast
        show "run {DeepRecursion} (andthen (node_match base st na nb) (\<lambda>(pairs, test).
            andthen (is_equiv_list base st pairs use_hash (Suc d) uf) (\<lambda>(children, uf). Inr (children \<and> test, uf))))
            (\<lambda>(r, uf'). classes base st R uf' \<and> coarser uf uf' \<and> (r \<longrightarrow> R t u))"
          unfolding m(1) andthen_Inr prod.case
          by (rule run_bind [OF list [OF \<open>d < MAX_REC_DEPTH\<close> dec]])
            (use yes in \<open>simp add: sound_answer_def split: prod.splits\<close>)
      qed simp
    qed (use merged in auto)
  qed
qed

lemma is_equiv_core_ok:
  assumes ok: "banks_ok H base st" "terms_ok H base st" and R: "congruence R"
  shows "classes base st R uf \<Longrightarrow> expr_at base st a t \<Longrightarrow> expr_at base st b u \<Longrightarrow>
      run {DeepRecursion} (is_equiv_core base st a b use_hash d uf) (sound_answer base st R uf (R t u))"
proof (induction "MAX_REC_DEPTH - d" arbitrary: a b d t u uf rule: less_induct)
  case less
  note c = less.prems(1) and t = less.prems(2) and u = less.prems(3)
  note now = sound_answer_def coarser_refl c congruenceD(1) [OF R]
  obtain reject where rej: "hash_rejects base st a b use_hash = Inr reject" by (rule hash_rejects_ok [OF ok t u])
  from t obtain na where na: "node_at base st a na" "node_expr base st (expr_at base st) na t" by (rule expr_atE)
  from u obtain nb where nb: "node_at base st b nb" "node_expr base st (expr_at base st) nb u" by (rule expr_atE)
  note reads = expr_node_ok [OF ok(1) na(1)] expr_node_ok [OF ok(1) nb(1)]
  consider "a = b" | "a \<noteq> b" reject | (bvar) "a \<noteq> b" "\<not> reject" "is_bvar_node na \<and> is_bvar_node nb"
    | (live) "a \<noteq> b" "\<not> reject" "\<not> (is_bvar_node na \<and> is_bvar_node nb)" by blast
  then show ?case
  proof cases
    case 1
    with t u have "u = t" using expr_at_det by blast
    with 1 show ?thesis by (simp add: is_equiv_core_unfold now)
  next
    case 2
    with rej show ?thesis by (simp add: is_equiv_core_unfold now)
  next
    case bvar
    with bvar_index_ok [OF ok(1) na(2)] bvar_index_ok [OF ok(1) nb(2)] obtain i j where
      "bvar_index_nat base st na = Inr i" "t = EBVar i" "bvar_index_nat base st nb = Inr j" "u = EBVar j" by blast
    with bvar rej reads show ?thesis by (simp add: is_equiv_core_unfold now)
  next
    case live
    obtain i uf1 where i: "to_node a uf = (i, uf1)" by (cases "to_node a uf")
    obtain j uf2 where j: "to_node b uf1 = (j, uf2)" by (cases "to_node b uf1")
    have I: "classes base st R uf1" "coarser uf uf1" "uf_index uf1 a = Some i"
      using to_node_classes [OF R c t i] by blast+
    have J: "classes base st R uf2" "coarser uf1 uf2" "uf_index uf2 b = Some j"
      using to_node_classes [OF R I(1) u j] by blast+
    have "run {DeepRecursion} (compare_nodes base st na nb use_hash d i j uf2) (sound_answer base st R uf2 (R t u))"
    proof (rule compare_nodes_ok [OF ok(1) R J(1) coarserD(1) [OF J(2) I(3)] J(3) t u na(2) nb(2) live(3)])
      fix pairs assume d: "d < MAX_REC_DEPTH" and dec: "\<forall>(x, y) \<in> set pairs. x \<in> decodable base st \<and> y \<in> decodable base st"
      show "run {DeepRecursion} (is_equiv_list base st pairs use_hash (Suc d) uf2) (sound_answer base st R uf2 (pairs_related base st R pairs))"
        by (rule is_equiv_list_ok [OF less.hyps J(1) dec]) (use d in auto)
    qed
    then have "run {DeepRecursion} (compare_nodes base st na nb use_hash d i j uf2) (sound_answer base st R uf (R t u))"
      by (rule run_mono) (use coarser_trans [OF I(2) J(2)] in \<open>auto intro: sound_answer_coarser\<close>)
    with live(1,2) show ?thesis
      by (simp add: is_equiv_core_unfold rej reads i j if_not_P [OF live(3)] del: de_Morgan_conj)
  qed
qed

end
