(* ===== verification/Kernel_Properties.thy ===== *)
theory Kernel_Properties
  imports Level_Geq Name_Surgery Equiv_Manager Level_Properties Term_Properties
begin

text \<open>
  The properties of the helpers of the type checker and of the elimination of inductive types: the
  order test on levels, the names that are made with an index, and the equality cache.
\<close>

section \<open>The order of levels\<close>

text \<open>C35: \<open>is_geq\<close> is sound: when it answers true, the first level is at least the second one under
  every assignment of the parameters and metavariables.\<close>

theorem is_geq_sound:
  "is_geq a b d = Inr True \<Longrightarrow> small a \<Longrightarrow> small b \<Longrightarrow> eval \<rho> \<mu> b \<le> eval \<rho> \<mu> a"
  by (rule is_geq_eval)

theorem is_geq_sound_witness:
  "\<forall>\<rho> \<mu>. eval \<rho> \<mu> (IMax u (Succ v)) \<le> eval \<rho> \<mu> (Max (Succ (Succ v)) u)"
  by (intro allI, rule is_geq_sound [of _ _ 0]; code_simp)

section \<open>Indexed names\<close>

text \<open>The suffixes that number motives, auxiliary types and recursors never make two indices collide, below
  macro scopes too.\<close>

theorem append_index_after_injective: "append_index_after n i = append_index_after n j \<longleftrightarrow> i = j"
  by (rule append_index_after_inject)

section \<open>The equality cache\<close>

text \<open>Equality up to what the cache ignores: binder names and annotations, metadata, the type name of a
  projection and the flag of a let.\<close>

fun erase :: "expr \<Rightarrow> expr" where
  "erase (EApp f a) = EApp (erase f) (erase a)"
| "erase (ELam _ t b _) = ELam Anonymous (erase t) (erase b) Default"
| "erase (EForallE _ t b _) = EForallE Anonymous (erase t) (erase b) Default"
| "erase (ELetE _ t x b _) = ELetE Anonymous (erase t) (erase x) (erase b) False"
| "erase (EMData _ e) = EMData [] (erase e)"
| "erase (EProj _ k e) = EProj Anonymous k (erase e)"
| "erase e = e"

lemma erase_step:
  "head_of t = head_of t' \<Longrightarrow> list_all2 (\<lambda>t t'. erase t = erase t') (expr_children t) (expr_children t') \<Longrightarrow> erase t = erase t'"
  by (cases t; cases t') (simp_all add: expr_children_def)

lemma congruence_erase: "congruence (\<lambda>t t'. erase t = erase t')"
  unfolding congruence_def
proof (intro conjI allI impI)
  show "equivp (\<lambda>t t'. erase t = erase t')"
    by (intro equivpI reflpI sympI transpI) (rule refl, erule sym, erule (1) trans)
qed (rule erase_step)

lemma classes_empty: "classes base st R uf_empty"
  by (simp add: classes_def forest_empty) (simp add: uf_empty_def)

text \<open>C34: the equality cache is sound for every congruence: if all merged ids denote related trees, then
  \<open>is_equiv\<close> answers true only for related trees, whether or not it compares hashes, it keeps the
  classes right and never splits one, it never panics, and its only error is \<open>DeepRecursion\<close>.\<close>

theorem is_equiv_sound:
  assumes "twf H base st" and "congruence R" and "classes base st R uf"
    and "expr_at base st a t" and "expr_at base st b t'"
  shows "case is_equiv base st a b use_hash d uf of
      Inl err \<Rightarrow> err = DeepRecursion
    | Inr (same, uf') \<Rightarrow> classes base st R uf' \<and> coarser uf uf' \<and> (same \<longrightarrow> R t t')"
  using is_equiv_core_ok [OF twfD(3,2) [OF assms(1)] assms(2-5), of use_hash d]
  by (auto simp: is_equiv_def run_def sound_answer_def split: sum.splits)

definition binder_x :: expr where
  "binder_x = ELam (Str Anonymous ''x'') (ESort Zero) (EApp (EBVar 0) (EFVar (Str Anonymous ''h''))) Default"

definition binder_y :: expr where
  "binder_y = ELam (Str Anonymous ''y'') (ESort Zero) (EApp (EBVar 0) (EFVar (Str Anonymous ''h''))) Implicit"

theorem is_equiv_sound_witness:
  "\<exists>i st1 j st2. intern_expr flat_hashers None binder_x persistent = Inr (i, st1)
     \<and> intern_expr flat_hashers None binder_y st1 = Inr (j, st2)
     \<and> (case is_equiv None st2 i j True 0 uf_empty of
          Inl err \<Rightarrow> err = DeepRecursion
        | Inr (same, uf') \<Rightarrow> classes None st2 (\<lambda>t u. erase t = erase u) uf' \<and> coarser uf_empty uf'
            \<and> (same \<longrightarrow> erase binder_x = erase binder_y))"
proof -
  have cost: "expr_cost binder_x \<le> 20" "expr_cost binder_y \<le> 20" by (simp_all add: binder_x_def binder_y_def)
  obtain i st1 where 1: "intern_expr flat_hashers None binder_x persistent = Inr (i, st1)" "twf flat_hashers None st1"
    "used st1 \<le> used persistent + expr_cost binder_x" "expr_at None st1 i binder_x"
    by (rule intern_expr_total [OF twf_persistent, of binder_x]) (use cost in \<open>simp_all add: used_persistent max_rows_def\<close>)
  have room: "used st1 + expr_cost binder_y \<le> max_rows" using 1(3) cost by (simp add: used_persistent max_rows_def)
  from intern_expr_total [OF 1(2) room] obtain j st2 where
    2: "intern_expr flat_hashers None binder_y st1 = Inr (j, st2)" "twf flat_hashers None st2" "expr_at None st2 j binder_y" by metis
  from goodD(2) [OF internsD(1) [OF intern_expr_ok [OF 1(2)] 2(1)]] have "grows None st1 st2" .
  with 1(4) have "expr_at None st2 i binder_x" by (rule expr_at_grows)
  from is_equiv_sound [OF 2(2) congruence_erase classes_empty this 2(3), of True 0] 1(1) 2(1) show ?thesis by blast
qed

end
