(* ===== verification/Regions.thy ===== *)
theory Regions
  imports Term_Bridge
begin

text \<open>
  The two regions of \<open>Store\<close>: a scratch store is read together with the persistent store under it. What the
  persistent store denotes the pair denotes; an id whose scratch bit is clear denotes in the pair what it denotes
  in the persistent store alone; a new scratch store over a well-formed store is well-formed; and what is read
  through the scratch store stays the same while the persistent store grows under it.
\<close>

lemma list_all2_members:
  assumes "list_all2 R xs ys"
  shows "x \<in> set xs \<Longrightarrow> \<exists>y \<in> set ys. R x y" and "y \<in> set ys \<Longrightarrow> \<exists>x \<in> set xs. R x y"
  using assms by (induction rule: list_all2_induct) auto

section \<open>Banks\<close>

context id_bank
begin

lemma entry_over: "rows own = [] \<Longrightarrow> entry (Some b) own = entry None b"
  by (rule ext) (simp add: entry_def ids_def)

lemma pair_ok_over:
  "inv own \<Longrightarrow> region own = REGION_BIT \<Longrightarrow> rows own = [] \<Longrightarrow> pair_ok None b \<Longrightarrow> region b = 0 \<Longrightarrow> pair_ok (Some b) own"
  by (simp add: pair_ok_def)

lemma hash_over: "rows own = [] \<Longrightarrow> r \<in> set (rows b) \<Longrightarrow> hash_at (Some b) own r = hash_at None b r"
  by (simp add: hash_at_def)

lemma pload_over: "rows own = [] \<Longrightarrow> r \<in> set (rows b) \<Longrightarrow> pload (Some b) own r = pload None b r"
  by (simp add: pload_def)

lemma entry_under: "pair_ok (Some b) own \<Longrightarrow> entry None b i = Some r \<Longrightarrow> entry (Some b) own i = Some r"
  using ids_disjoint [of b own i] by (auto simp: entry_def split: if_splits)

text \<open>An id of a pair whose scratch bit is clear is an id of the base.\<close>

lemma entry_persistent:
  assumes "pair_ok (Some b) own" and "entry (Some b) own i = Some r" and "\<not> is_scratch i"
  shows "entry None b i = Some r"
  using assms(1,2)
proof (cases rule: entry_cases)
  case (own n)
  then have "n < max_rows" using assms(1) bounded [of own] by (simp add: pair_ok_def)
  then show ?thesis using assms(1,3) own region [of own] by (simp add: pair_ok_def)
next
  case (base b' n)
  then show ?thesis using entry_own [of None b n] by (simp add: pair_ok_def)
qed

lemma entry_region_0:
  assumes "pair_ok None b" and "region b = 0" and "entry None b i = Some r" shows "\<not> is_scratch i"
  using assms(1,3) by (rule entry_cases) (use assms bounded [of b] region [of b] in \<open>auto simp: pair_ok_def\<close>)

text \<open>A bank keeps its rows where every id keeps its row.\<close>

lemma row_kept:
  assumes ok: "pair_ok None b" "pair_ok None b'" and kept: "\<And>i r. entry None b i = Some r \<Longrightarrow> entry None b' i = Some r"
    and n: "n < length (rows b)"
  shows "n < length (rows b')" and "rows b' ! n = rows b ! n"
proof -
  from ok(1) n bounded [of b] region [of b] have "id_index (id_bits (region b) n) = n" by (simp add: pair_ok_def)
  with entry_routed(1,2) [OF ok(2) kept [OF entry_own [OF ok(1) n]]]
  show "n < length (rows b')" "rows b' ! n = rows b ! n" by (simp_all add: owner_def split: if_splits)
qed

lemma entry_row: "inv b \<Longrightarrow> entry None b i = Some r \<Longrightarrow> r \<in> set (rows b)"
  by (erule entry_cases [rotated]) (auto simp: pair_ok_def)

end

definition regions_0 :: "store \<Rightarrow> bool" where
  "regions_0 p \<longleftrightarrow> regions p = replicate 9 0"

lemma regions_0_iff:
  "regions_0 p \<longleftrightarrow> vp_region (strs p) = 0 \<and> vp_region (nats p) = 0 \<and> vp_region (ints p) = 0 \<and> nb_region (names p) = 0
     \<and> lb_region (levels p) = 0 \<and> vp_region (level_lists p) = 0 \<and> vp_region (kvmaps p) = 0
     \<and> vp_region (spills p) = 0 \<and> tb_region (terms p) = 0"
  by (simp add: regions_0_def regions_def numeral_eq_Suc)

lemma regions_persistent: "regions_0 persistent"
  by (simp add: regions_0_iff persistent_def store_new_def vp_new_def nb_new_def lb_new_def tb_new_def)

lemma new_regions:
  "vp_region (vp_new r) = r" "nb_region (nb_new r) = r" "lb_region (lb_new r) = r" "tb_region (tb_new r) = r"
  by (simp_all add: vp_new_def nb_new_def lb_new_def tb_new_def)

lemmas new_invs = vp_inv_new nb_inv_new lb_inv_new tb_inv_new

section \<open>What the persistent store denotes, the pair denotes\<close>

lemma over_ents:
  assumes "banks_ok H (Some p) st"
  shows "str_ent None p i = Some s \<Longrightarrow> str_ent (Some p) st i = Some s"
    and "nat_ent None p i = Some n \<Longrightarrow> nat_ent (Some p) st i = Some n"
    and "int_ent None p i = Some z \<Longrightarrow> int_ent (Some p) st i = Some z"
    and "name_ent None p i = Some nr \<Longrightarrow> name_ent (Some p) st i = Some nr"
    and "level_ent None p i = Some lr \<Longrightarrow> level_ent (Some p) st i = Some lr"
    and "list_ent None p i = Some l \<Longrightarrow> list_ent (Some p) st i = Some l"
    and "kv_ent None p i = Some k \<Longrightarrow> kv_ent (Some p) st i = Some k"
    and "spill_ent None p i = Some sp \<Longrightarrow> spill_ent (Some p) st i = Some sp"
    and "term_ent None p i = Some t \<Longrightarrow> term_ent (Some p) st i = Some t"
  using assms unfolding ent_defs banks_ok_def option.map
  by (blast intro: pool.entry_under nb.entry_under lb.entry_under tb.entry_under)+

lemma over_name: "banks_ok H (Some p) st \<Longrightarrow> name_at None p x n \<Longrightarrow> name_at (Some p) st x n"
  by (rotate_tac, induction rule: name_at.induct) (auto intro: name_at.intros dest: over_ents)

lemma over_level: "banks_ok H (Some p) st \<Longrightarrow> level_at None p i l \<Longrightarrow> level_at (Some p) st i l"
  by (rotate_tac, induction rule: level_at.induct) (auto intro: level_at.intros over_name dest: over_ents)

lemma over_data: "banks_ok H (Some p) st \<Longrightarrow> data_at None p r d \<Longrightarrow> data_at (Some p) st r d"
  by (rotate_tac, cases rule: data_at.cases) (auto intro: data_at.intros over_name dest: over_ents)

lemma over_list:
  "banks_ok H (Some p) st \<Longrightarrow> list_all2 (level_at None p) l ls \<Longrightarrow> list_all2 (level_at (Some p) st) l ls"
  by (erule list_all2_mono) (rule over_level)

lemma over_entries: "banks_ok H (Some p) st \<Longrightarrow> entries_at None p row m \<Longrightarrow> entries_at (Some p) st row m"
  unfolding entries_at_def by (erule list_all2_mono) (auto intro: over_name over_data)

lemma over_encodes: "banks_ok H (Some p) st \<Longrightarrow> encodes None p r nd \<Longrightarrow> encodes (Some p) st r nd"
  by (cases nd) (auto dest: over_ents)

lemma over_node: "banks_ok H (Some p) st \<Longrightarrow> node_at None p i nd \<Longrightarrow> node_at (Some p) st i nd"
  unfolding node_at_def by (blast intro: over_encodes over_ents)

lemma over_node_expr:
  assumes "banks_ok H (Some p) st" and "node_expr None p R nd e" and "\<And>i e. R i e \<Longrightarrow> R' i e"
  shows "node_expr (Some p) st R' nd e"
  using assms(2)
  by (cases nd) (auto simp: levels_at_def kvmap_denotes_def
      intro: over_name [OF assms(1)] over_level [OF assms(1)] over_list [OF assms(1)] over_entries [OF assms(1)] assms(3)
      dest: over_ents [OF assms(1)])

lemma over_term: "banks_ok H (Some p) st \<Longrightarrow> expr_at None p i e \<Longrightarrow> expr_at (Some p) st i e"
proof (rotate_tac, induction rule: expr_at.induct)
  case (expr_at i nd e)
  have "node_expr (Some p) st (expr_at (Some p) st) nd e" by (rule over_node_expr [OF expr_at(3,2)]) (use expr_at(3) in simp)
  with over_node [OF expr_at(3,1)] show ?case by (rule expr_at.expr_at)
qed

section \<open>A new scratch store\<close>

lemma scratch_ents:
  "str_ent (Some p) scratch = str_ent None p" "nat_ent (Some p) scratch = nat_ent None p"
  "int_ent (Some p) scratch = int_ent None p" "name_ent (Some p) scratch = name_ent None p"
  "level_ent (Some p) scratch = level_ent None p" "list_ent (Some p) scratch = list_ent None p"
  "kv_ent (Some p) scratch = kv_ent None p" "spill_ent (Some p) scratch = spill_ent None p"
  "term_ent (Some p) scratch = term_ent None p"
  by (simp_all add: ent_defs scratch_def store_new_def new_ents pool.entry_over nb.entry_over lb.entry_over tb.entry_over)

lemma banks_ok_scratch:
  assumes ok: "banks_ok H None p" and r: "regions_0 p"
  shows "banks_ok H (Some p) scratch"
  using ok r is_region_def
  by (simp add: banks_ok_def regions_0_iff scratch_def store_new_def new_regions new_ents new_invs pool.pair_ok_over
      nb.pair_ok_over lb.pair_ok_over tb.pair_ok_over)

lemma wf_scratch:
  assumes wf: "wf H None p" and r: "regions_0 p"
  shows "wf H (Some p) scratch"
proof -
  note ok = banks_ok_scratch [OF wf_banks [OF wf] r]
  have "nb_inv (names p)" "lb_inv (levels p)"
    using wf_banks [OF wf] by (simp_all add: banks_ok_def nb.pair_ok_def lb.pair_ok_def)
  then have rows: "name_ent None p i = Some x \<Longrightarrow> x \<in> set (nb_rows (names p))"
    "level_ent None p i = Some y \<Longrightarrow> y \<in> set (lb_rows (levels p))" for i x y
    by (auto simp: ent_defs dest: nb.entry_row lb.entry_row)
  have hashes: "x \<in> set (nb_rows (names p)) \<Longrightarrow> name_hash_at (Some p) scratch x = name_hash_at None p x"
    "y \<in> set (lb_rows (levels p)) \<Longrightarrow> level_hash_at (Some p) scratch y = level_hash_at None p y"
    "y \<in> set (lb_rows (levels p)) \<Longrightarrow> level_flags_at (Some p) scratch y = level_flags_at None p y" for x y
    by (simp_all add: ent_defs scratch_def store_new_def new_ents nb.hash_over lb.hash_over lb.pload_over)
  have "name_ent None p i = Some x \<Longrightarrow> name_good H (Some p) scratch i x" for i x
    using wf rows(1) [of i x] unfolding wf_def name_good_def by (metis hashes(1) over_name [OF ok])
  moreover have "level_ent None p i = Some x \<Longrightarrow> level_good H (Some p) scratch i x" for i x
    using wf rows(2) [of i x] unfolding wf_def level_good_def by (metis hashes(2,3) over_level [OF ok])
  moreover have "list_ent None p i = Some l \<Longrightarrow> \<exists>ls. list_all2 (level_at (Some p) scratch) l ls" for i l
    using wf over_list [OF ok] unfolding wf_def by blast
  moreover have "kv_ent None p i = Some k \<Longrightarrow> \<exists>m. entries_at (Some p) scratch k m" for i k
    using wf over_entries [OF ok] unfolding wf_def by blast
  ultimately show ?thesis using ok by (simp add: wf_def scratch_ents)
qed

lemma twf_scratch:
  assumes twf: "twf H None p" and r: "regions_0 p"
  shows "twf H (Some p) scratch"
proof -
  have "tb_inv (terms p)" using twfD(3) [OF twf] by (simp add: banks_ok_def tb.pair_ok_def)
  then have rows: "term_ent None p i = Some x \<Longrightarrow> x \<in> set (tb_rows (terms p))" for i x
    by (auto simp: ent_defs dest: tb.entry_row)
  have data: "x \<in> set (tb_rows (terms p)) \<Longrightarrow> term_data_at (Some p) scratch x = term_data_at None p x" for x
    by (simp add: ent_defs scratch_def store_new_def new_ents tb.pload_over)
  have "term_ent None p i = Some x \<Longrightarrow> term_good H (Some p) scratch i x" for i x
    using twfD(2) [OF twf] rows [of i x] unfolding terms_ok_def term_good_def by (metis data over_term [OF banks_ok_scratch [OF twfD(3) [OF twf] r]])
  then show ?thesis using wf_scratch [OF twfD(1) [OF twf] r] by (simp add: twf_def terms_ok_def scratch_ents)
qed

lemma used_scratch [simp]: "used scratch = 0"
  by (simp add: scratch_def)

section \<open>An id whose scratch bit is clear\<close>

lemma persistent_ents:
  assumes "banks_ok H (Some p) st" and "\<not> is_scratch i"
  shows "name_ent (Some p) st i = Some nr \<Longrightarrow> name_ent None p i = Some nr"
    and "level_ent (Some p) st i = Some lr \<Longrightarrow> level_ent None p i = Some lr"
    and "term_ent (Some p) st i = Some t \<Longrightarrow> term_ent None p i = Some t"
  using assms unfolding ent_defs banks_ok_def option.map
  by (blast intro: nb.entry_persistent lb.entry_persistent tb.entry_persistent)+

text \<open>A row of a well-formed persistent store only refers to rows of that store.\<close>

lemma persistent_name:
  assumes wf: "wf H None p" and ok: "banks_ok H (Some p) st" and n: "name_at (Some p) st (Some i) n" and i: "\<not> is_scratch i"
  shows "name_at None p (Some i) n"
proof -
  from n obtain r where "name_ent (Some p) st i = Some r" by (cases rule: name_at_SomeE) auto
  with persistent_ents(1) [OF ok i] wf_nameD [OF wf] obtain n' where n': "name_at None p (Some i) n'" by blast
  with name_at_det [OF n over_name [OF ok n']] show ?thesis by simp
qed

lemma persistent_level:
  assumes wf: "wf H None p" and ok: "banks_ok H (Some p) st" and l: "level_at (Some p) st i l" and i: "\<not> is_scratch i"
  shows "level_at None p i l"
proof -
  from l obtain r where "level_ent (Some p) st i = Some r" by (cases rule: level_atE) auto
  with persistent_ents(2) [OF ok i] wf_levelD [OF wf] obtain l' where l': "level_at None p i l'" by blast
  with level_at_det [OF l over_level [OF ok l']] show ?thesis by simp
qed

lemma persistent_term:
  assumes twf: "twf H None p" and ok: "banks_ok H (Some p) st" and e: "expr_at (Some p) st i e" and i: "\<not> is_scratch i"
  shows "expr_at None p i e"
proof -
  from e obtain r where "term_ent (Some p) st i = Some r" by (cases rule: expr_atE) (auto simp: node_at_def)
  with persistent_ents(3) [OF ok i] twfD(2) [OF twf] obtain e' where e': "expr_at None p i e'"
    unfolding terms_ok_def term_good_def by blast
  with expr_at_det [OF e over_term [OF ok e']] show ?thesis by simp
qed

text \<open>The ids of a persistent store have their scratch bit clear.\<close>

lemma base_ids:
  assumes ok: "banks_ok H None p" and r: "regions_0 p"
  shows "name_at None p (Some i) n \<Longrightarrow> \<not> is_scratch i" and "level_at None p j l \<Longrightarrow> \<not> is_scratch j"
    and "expr_at None p k e \<Longrightarrow> \<not> is_scratch k"
proof -
  have "name_ent None p i = Some x \<Longrightarrow> \<not> is_scratch i" "level_ent None p j = Some y \<Longrightarrow> \<not> is_scratch j"
    "term_ent None p k = Some z \<Longrightarrow> \<not> is_scratch k" for x y z
    using ok r nb.entry_region_0 [of "names p" i] lb.entry_region_0 [of "levels p" j] tb.entry_region_0 [of "terms p" k]
    by (auto simp: banks_ok_def regions_0_iff ent_defs)
  then show "name_at None p (Some i) n \<Longrightarrow> \<not> is_scratch i" "level_at None p j l \<Longrightarrow> \<not> is_scratch j"
    "expr_at None p k e \<Longrightarrow> \<not> is_scratch k"
    by (blast elim: name_at_SomeE level_atE expr_atE [unfolded node_at_def])+
qed

section \<open>Reading while the persistent store grows\<close>

definition keeps :: "'a result \<Rightarrow> 'a result \<Rightarrow> bool" where
  "keeps m m' \<longleftrightarrow> (\<forall>x. m = Inr x \<longrightarrow> m' = Inr x)"

lemma keeps_refl [simp]: "keeps m m"
  by (simp add: keeps_def)

lemma keeps_error [simp]: "keeps (Inl e) m"
  by (simp add: keeps_def)

lemma keepsD: "keeps m m' \<Longrightarrow> m = Inr x \<Longrightarrow> m' = Inr x"
  by (simp add: keeps_def)

lemma keeps_bind: "keeps m m' \<Longrightarrow> (\<And>x. keeps (f x) (f' x)) \<Longrightarrow> keeps (andthen m f) (andthen m' f')"
  by (cases m) (auto simp: keeps_def)

lemma keeps_expect: "(\<And>x. m = Some x \<Longrightarrow> m' = Some x) \<Longrightarrow> keeps (expect m) (expect m')"
  by (cases m) (auto simp: keeps_def)

definition kept :: "hashers \<Rightarrow> store \<Rightarrow> store \<Rightarrow> bool" where
  "kept H b b' \<longleftrightarrow> banks_ok H None b \<and> banks_ok H None b' \<and> grows None b b'"

lemma kept_pool:
  assumes "pool.pair_ok f None p" and "pool.pair_ok f None p'"
    and "\<And>i r. pool.entry None p i = Some r \<Longrightarrow> pool.entry None p' i = Some r" and "vp_get p n = Some x"
  shows "vp_get p' n = Some x"
  using pool.row_kept [OF assms(1-3), of n] assms(4) by (simp add: vp_get_def get_index_def split: if_splits)

lemma kept_rows:
  assumes kept: "kept H b b'"
  shows "vp_get (strs b) n = Some s \<Longrightarrow> vp_get (strs b') n = Some s"
    and "vp_get (nats b) n = Some k \<Longrightarrow> vp_get (nats b') n = Some k"
    and "vp_get (ints b) n = Some z \<Longrightarrow> vp_get (ints b') n = Some z"
    and "nb_row (names b) n = Some nr \<Longrightarrow> nb_row (names b') n = Some nr"
    and "lb_row (levels b) n = Some lr \<Longrightarrow> lb_row (levels b') n = Some lr"
    and "vp_get (level_lists b) n = Some l \<Longrightarrow> vp_get (level_lists b') n = Some l"
    and "vp_get (kvmaps b) n = Some kv \<Longrightarrow> vp_get (kvmaps b') n = Some kv"
    and "vp_get (spills b) n = Some sp \<Longrightarrow> vp_get (spills b') n = Some sp"
    and "n < length (tb_rows (terms b)) \<Longrightarrow> n < length (tb_rows (terms b'))
      \<and> tb_rows (terms b') ! n = tb_rows (terms b) ! n"
proof -
  from kept have ok: "banks_ok H None b" "banks_ok H None b'" and g: "grows None b b'" by (simp_all add: kept_def)
  note ok = ok [unfolded banks_ok_def option.map] and D = growsD [OF g, unfolded ent_defs option.map]
  show "vp_get (strs b) n = Some s \<Longrightarrow> vp_get (strs b') n = Some s" using ok by (blast intro: kept_pool D(1))
  show "vp_get (nats b) n = Some k \<Longrightarrow> vp_get (nats b') n = Some k" using ok by (blast intro: kept_pool D(2))
  show "vp_get (ints b) n = Some z \<Longrightarrow> vp_get (ints b') n = Some z" using ok by (blast intro: kept_pool D(3))
  show "vp_get (level_lists b) n = Some l \<Longrightarrow> vp_get (level_lists b') n = Some l" using ok by (blast intro: kept_pool D(6))
  show "vp_get (kvmaps b) n = Some kv \<Longrightarrow> vp_get (kvmaps b') n = Some kv" using ok by (blast intro: kept_pool D(7))
  show "vp_get (spills b) n = Some sp \<Longrightarrow> vp_get (spills b') n = Some sp" using ok by (blast intro: kept_pool D(8))
  show "nb_row (names b) n = Some nr \<Longrightarrow> nb_row (names b') n = Some nr"
    using nb.row_kept [of "names b" "names b'" n, OF _ _ D(4)] ok by (simp add: nb_row_def get_index_def split: if_splits)
  show "lb_row (levels b) n = Some lr \<Longrightarrow> lb_row (levels b') n = Some lr"
    using lb.row_kept [of "levels b" "levels b'" n, OF _ _ D(5)] ok by (simp add: lb_row_def get_index_def split: if_splits)
  show "n < length (tb_rows (terms b)) \<Longrightarrow> n < length (tb_rows (terms b'))
      \<and> tb_rows (terms b') ! n = tb_rows (terms b) ! n"
    using tb.row_kept [of "terms b" "terms b'" n, OF _ _ D(9)] ok by simp
qed

text \<open>The same id, read through the scratch store \<open>st\<close> over the two states of the persistent store.\<close>

lemma store_for_over: "store_for (Some b) st s = (if s then st else b)"
  by (simp add: store_for_def)

lemma row_reads_keep:
  assumes "kept H b b'"
  shows "keeps (str_at (Some b) st i) (str_at (Some b') st i)"
    and "keeps (nat_at (Some b) st i) (nat_at (Some b') st i)"
    and "keeps (int_at (Some b) st i) (int_at (Some b') st i)"
    and "keeps (name_row (Some b) st i) (name_row (Some b') st i)"
    and "keeps (level_row (Some b) st i) (level_row (Some b') st i)"
    and "keeps (level_list_at (Some b) st i) (level_list_at (Some b') st i)"
    and "keeps (kvmap_at (Some b) st i) (kvmap_at (Some b') st i)"
    and "keeps (spill_at (Some b) st i) (spill_at (Some b') st i)"
  unfolding str_at_def nat_at_def int_at_def name_row_def level_row_def level_list_at_def kvmap_at_def spill_at_def
    store_for_over
  by (rule keeps_expect; use kept_rows [OF assms] in \<open>simp split: if_splits\<close>)+

lemma parent_chain_keeps:
  assumes kept: "kept H b b'"
  shows "parent_chain (Some b) st cur chain = Some (Inr r) \<Longrightarrow> parent_chain (Some b') st cur chain = Some (Inr r)"
proof -
  have "base = Some b \<longrightarrow> m = Inr r \<longrightarrow> parent_chain (Some b') st cur chain = Some (Inr r)"
    if "parent_chain base st cur chain = Some m" for base m
  proof (rule parent_chain.raw_induct [OF _ that, where P = "\<lambda>base st' cur chain m. base = Some b \<longrightarrow> m = Inr r \<longrightarrow>
      parent_chain (Some b') st' cur chain = Some (Inr r)"], goal_cases)
    case (1 f base st cur chain m)
    show ?case
    proof (intro impI)
      assume base: "base = Some b" and m: "m = Inr r"
      show "parent_chain (Some b') st cur chain = Some (Inr r)"
      proof (cases cur)
        case None
        with 1(2) m show ?thesis by (simp add: parent_chain.simps)
      next
        case (Some c)
        with 1(2) base m obtain row where row: "name_row (Some b) st c = Inr row"
          and f: "f (Some b) st (row_parent row) (chain @ [c]) = Some m" by (auto split: sum.splits)
        from 1(1) [OF f] m have "parent_chain (Some b') st (row_parent row) (chain @ [c]) = Some (Inr r)" by simp
        with keepsD [OF row_reads_keep(4) [OF kept] row] Some show ?thesis by (simp add: parent_chain.simps)
      qed
    qed
  qed
  then show "parent_chain (Some b) st cur chain = Some (Inr r) \<Longrightarrow> parent_chain (Some b') st cur chain = Some (Inr r)"
    by blast
qed

lemma build_name_keeps: "kept H b b' \<Longrightarrow> keeps (build_name (Some b) st cs n) (build_name (Some b') st cs n)"
  by (induction cs arbitrary: n) (auto simp: keeps_bind row_reads_keep split: name_row.split)

lemma loop_keeps:
  "(\<And>x. m = Some (Inr x) \<Longrightarrow> m' = Some (Inr x)) \<Longrightarrow> keeps (loop_result m) (loop_result m')"
  by (cases m) (auto simp: keeps_def loop_result_def)

lemma to_name_keeps:
  assumes "kept H b b'" shows "keeps (to_name (Some b) st x) (to_name (Some b') st x)"
  unfolding to_name_def
  by (rule keeps_bind [OF loop_keeps [OF parent_chain_keeps [OF assms]] build_name_keeps [OF assms]])

lemma exit_row_keeps:
  assumes "kept H b b'" shows "keeps (exit_row (Some b) st row out) (exit_row (Some b') st row out)"
  by (cases row) (simp_all add: exit_row_def keeps_bind [OF to_name_keeps [OF assms]])

lemma to_level_loop_keeps:
  assumes kept: "kept H b b'"
  shows "to_level_loop (Some b) st stack out memo = Some (Inr r) \<Longrightarrow> to_level_loop (Some b') st stack out memo = Some (Inr r)"
proof -
  have "base = Some b \<longrightarrow> m = Inr r \<longrightarrow> to_level_loop (Some b') st stack out memo = Some (Inr r)"
    if "to_level_loop base st stack out memo = Some m" for base m
  proof (rule to_level_loop.raw_induct [OF _ that, where P = "\<lambda>base st' stack out memo m. base = Some b \<longrightarrow> m = Inr r \<longrightarrow>
      to_level_loop (Some b') st' stack out memo = Some (Inr r)"], goal_cases)
    case (1 f base st stack out memo m)
    show ?case
    proof (intro impI)
      assume base: "base = Some b" and m: "m = Inr r"
      show "to_level_loop (Some b') st stack out memo = Some (Inr r)"
      proof (cases stack)
        case Nil
        with 1(2) m show ?thesis by (simp add: to_level_loop.simps)
      next
        case (Cons fr rest)
        show ?thesis
        proof (cases fr)
          case (Enter i)
          show ?thesis
          proof (cases "memo i")
            case None
            with 1(2) base m Cons Enter obtain row where row: "level_row (Some b) st i = Inr row"
              and f: "f (Some b) st (map frame.Enter (row_children row) @ Exit i # rest) out memo = Some m"
              by (auto split: sum.splits)
            from 1(1) [OF f] m keepsD [OF row_reads_keep(5) [OF kept] row] None Cons Enter show ?thesis
              by (simp add: to_level_loop.simps)
          next
            case (Some l)
            with 1(2) base Cons Enter have f: "f (Some b) st rest (l # out) memo = Some m" by simp
            from 1(1) [OF f] m Some Cons Enter show ?thesis by (simp add: to_level_loop.simps)
          qed
        next
          case (Exit i)
          with 1(2) base m Cons obtain l out' where
            e: "andthen (level_row (Some b) st i) (\<lambda>row. exit_row (Some b) st row out) = Inr (l, out')"
            and f: "f (Some b) st rest (l # out') (memo(i \<mapsto> l)) = Some m" by (auto split: sum.splits)
          have "keeps (andthen (level_row (Some b) st i) (\<lambda>row. exit_row (Some b) st row out))
              (andthen (level_row (Some b') st i) (\<lambda>row. exit_row (Some b') st row out))"
            by (rule keeps_bind [OF row_reads_keep(5) [OF kept] exit_row_keeps [OF kept]])
          from keepsD [OF this e] 1(1) [OF f] m Cons Exit show ?thesis by (simp add: to_level_loop.simps)
        qed
      qed
    qed
  qed
  then show "to_level_loop (Some b) st stack out memo = Some (Inr r) \<Longrightarrow> to_level_loop (Some b') st stack out memo = Some (Inr r)"
    by blast
qed

lemma to_level_keeps:
  assumes "kept H b b'" shows "keeps (to_level (Some b) st i) (to_level (Some b') st i)"
  unfolding to_level_def by (rule keeps_bind [OF loop_keeps [OF to_level_loop_keeps [OF assms]]]) simp_all

lemma data_value_of_keeps:
  assumes "kept H b b'" shows "keeps (data_value_of (Some b) st v) (data_value_of (Some b') st v)"
  by (cases v) (simp_all add: data_value_of_def keeps_bind [OF to_name_keeps [OF assms]]
      keeps_bind [OF row_reads_keep(1) [OF assms]] keeps_bind [OF row_reads_keep(2) [OF assms]]
      keeps_bind [OF row_reads_keep(3) [OF assms]])

lemma to_kvmap_keeps:
  assumes "kept H b b'" shows "keeps (to_kvmap (Some b) st i) (to_kvmap (Some b') st i)"
proof -
  have "keeps (entries_of (Some b) st row) (entries_of (Some b') st row)" for row
    by (induction row) (auto simp: keeps_bind to_name_keeps [OF assms] data_value_of_keeps [OF assms])
  then show ?thesis unfolding to_kvmap_def by (intro keeps_bind row_reads_keep(7) [OF assms])
qed

lemma term_reads_keep:
  assumes kept: "kept H b b'"
  shows "keeps (tb_tag_byte (terms b) n) (tb_tag_byte (terms b') n)" and "keeps (tb_abc (terms b) n) (tb_abc (terms b') n)"
proof -
  from kept have par: "tb_parallel (terms b)" "tb_parallel (terms b')"
    by (simp_all add: kept_def banks_ok_def tb.pair_ok_def tb_inv_def)
  show "keeps (tb_tag_byte (terms b) n) (tb_tag_byte (terms b') n)" "keeps (tb_abc (terms b) n) (tb_abc (terms b') n)"
  proof (atomize (full), cases "n < length (tb_rows (terms b))")
    case True
    obtain tag x y z where row: "tb_rows (terms b) ! n = (tag, x, y, z)" by (cases "tb_rows (terms b) ! n")
    from kept_rows(9) [OF kept True] row have "n < length (tb_rows (terms b'))" "tb_rows (terms b') ! n = (tag, x, y, z)" by simp_all
    from tb_reads [OF par(1) True row] tb_reads [OF par(2) this]
    show "keeps (tb_tag_byte (terms b) n) (tb_tag_byte (terms b') n) \<and> keeps (tb_abc (terms b) n) (tb_abc (terms b') n)" by simp
  next
    case False
    with par(1) show "keeps (tb_tag_byte (terms b) n) (tb_tag_byte (terms b') n) \<and> keeps (tb_abc (terms b) n) (tb_abc (terms b') n)"
      by (simp add: tb_parallel_def tb_rows_def tb_tag_byte_def tb_abc_def get_index_def expect_def)
  qed
qed

lemma expr_node_keeps:
  assumes kept: "kept H b b'" shows "keeps (expr_node (Some b) st i) (expr_node (Some b') st i)"
proof -
  have spill: "keeps (andthen (spill_at (Some b) st c) f) (andthen (spill_at (Some b') st c) f)" for c f
    by (rule keeps_bind [OF row_reads_keep(8) [OF kept]]) simp
  show ?thesis
    unfolding expr_node_def Let_def store_for_over
    by (intro keeps_bind; cases "is_scratch i")
      (auto simp: term_reads_keep [OF kept] keeps_bind spill split: tag.split)
qed

end
