(* ===== verification/Promotion.thy ===== *)
theory Promotion
  imports Regions
begin

text \<open>
  Promotion (\<open>crates/leanr_kernel/src/bank/scratch.rs\<close>): a term of a scratch store, with every name, level and
  pool row that it refers to, is copied into the persistent store under it. \<open>sc\<close> is the scratch store, which is
  only read; the persistent store is the state, and is at the same time the base through which \<open>sc\<close> is read.
\<close>

section \<open>Names and levels\<close>

definition promote_name :: "hashers \<Rightarrow> store \<Rightarrow> u32 \<Rightarrow> store \<Rightarrow> (u32 \<times> store) result" where
  "promote_name H sc i b =
     (if \<not> is_scratch i then Inr (i, b)
      else andthen (to_name (Some b) sc (Some i)) (\<lambda>n.
           andthen (intern_name H None n b) (\<lambda>(x, b).
             case x of Some j \<Rightarrow> Inr (j, b) | None \<Rightarrow> Inl BankExhausted)))"

definition promote_name_opt :: "hashers \<Rightarrow> store \<Rightarrow> u32 option \<Rightarrow> store \<Rightarrow> (u32 option \<times> store) result" where
  "promote_name_opt H sc x b =
     (case x of
        None \<Rightarrow> Inr (None, b)
      | Some i \<Rightarrow> andthen (promote_name H sc i b) (\<lambda>(j, b). Inr (Some j, b)))"

definition promote_level :: "hashers \<Rightarrow> store \<Rightarrow> u32 \<Rightarrow> store \<Rightarrow> (u32 \<times> store) result" where
  "promote_level H sc i b =
     (if \<not> is_scratch i then Inr (i, b)
      else andthen (to_level (Some b) sc i) (\<lambda>l. intern_level H None l b))"

fun promote_levels :: "hashers \<Rightarrow> store \<Rightarrow> u32 list \<Rightarrow> u32 list \<Rightarrow> store \<Rightarrow> (u32 list \<times> store) result" where
  "promote_levels H sc [] ids b = Inr (ids, b)"
| "promote_levels H sc (l # ls) ids b =
     andthen (promote_level H sc l b) (\<lambda>(i, b). promote_levels H sc ls (ids @ [i]) b)"

section \<open>Terms\<close>

text \<open>The body of the \<open>Exit\<close> arm: the node's own parts are promoted, the children's new ids come off \<open>out\<close>.\<close>

definition promote_node ::
    "hashers \<Rightarrow> store \<Rightarrow> node \<Rightarrow> u32 list \<Rightarrow> store \<Rightarrow> ((u32 \<times> u32 list) \<times> store) result" where
  "promote_node H sc nd out b =
     (case nd of
        NBVar w \<Rightarrow> andthen (expr_bvar H None (unat w) b) (\<lambda>(i, b). Inr ((i, out), b))
      | NBVarBig q \<Rightarrow>
          andthen (nat_at (Some b) sc q) (\<lambda>n.
          andthen (expr_bvar H None n b) (\<lambda>(i, b). Inr ((i, out), b)))
      | NFVar x \<Rightarrow>
          andthen (promote_name_opt H sc x b) (\<lambda>(n, b).
          andthen (expr_fvar None n b) (\<lambda>(i, b). Inr ((i, out), b)))
      | NMVar x \<Rightarrow>
          andthen (promote_name_opt H sc x b) (\<lambda>(n, b).
          andthen (expr_mvar None n b) (\<lambda>(i, b). Inr ((i, out), b)))
      | NSort l \<Rightarrow>
          andthen (promote_level H sc l b) (\<lambda>(l, b).
          andthen (expr_sort None l b) (\<lambda>(i, b). Inr ((i, out), b)))
      | NConst x ls \<Rightarrow>
          andthen (promote_name_opt H sc x b) (\<lambda>(n, b).
          andthen (level_list_at (Some b) sc ls) (\<lambda>src.
          andthen (promote_levels H sc src [] b) (\<lambda>(ids, b).
          andthen (intern_level_list H None ids b) (\<lambda>(ls, b).
          andthen (expr_const None n ls b) (\<lambda>(i, b). Inr ((i, out), b))))))
      | NApp _ _ \<Rightarrow>
          andthen (pop out) (\<lambda>(arg, out). andthen (pop out) (\<lambda>(f, out).
          andthen (expr_app None f arg b) (\<lambda>(i, b). Inr ((i, out), b))))
      | NLam x _ _ bi \<Rightarrow>
          andthen (pop out) (\<lambda>(body, out). andthen (pop out) (\<lambda>(ty, out).
          andthen (promote_name_opt H sc x b) (\<lambda>(n, b).
          andthen (expr_lam None n ty body bi b) (\<lambda>(i, b). Inr ((i, out), b)))))
      | NForall x _ _ bi \<Rightarrow>
          andthen (pop out) (\<lambda>(body, out). andthen (pop out) (\<lambda>(ty, out).
          andthen (promote_name_opt H sc x b) (\<lambda>(n, b).
          andthen (expr_forall None n ty body bi b) (\<lambda>(i, b). Inr ((i, out), b)))))
      | NLetE x _ _ _ non_dep \<Rightarrow>
          andthen (pop out) (\<lambda>(body, out). andthen (pop out) (\<lambda>(val, out). andthen (pop out) (\<lambda>(ty, out).
          andthen (promote_name_opt H sc x b) (\<lambda>(n, b).
          andthen (expr_let H None n ty val body non_dep b) (\<lambda>(i, b). Inr ((i, out), b))))))
      | NLitNat q \<Rightarrow>
          andthen (nat_at (Some b) sc q) (\<lambda>n.
          andthen (expr_lit_nat H None n b) (\<lambda>(i, b). Inr ((i, out), b)))
      | NLitStr q \<Rightarrow>
          andthen (str_at (Some b) sc q) (\<lambda>s.
          andthen (expr_lit_str H None s b) (\<lambda>(i, b). Inr ((i, out), b)))
      | NMData k _ \<Rightarrow>
          andthen (pop out) (\<lambda>(child, out).
          andthen (to_kvmap (Some b) sc k) (\<lambda>m.
          andthen (intern_kvmap H None m b) (\<lambda>(d, b).
          andthen (expr_mdata None d child b) (\<lambda>(i, b). Inr ((i, out), b)))))
      | NProj x w _ \<Rightarrow>
          andthen (pop out) (\<lambda>(structure, out).
          andthen (promote_name_opt H sc x b) (\<lambda>(n, b).
          andthen (expr_proj H None n (unat w) structure b) (\<lambda>(i, b). Inr ((i, out), b))))
      | NProjBig x q _ \<Rightarrow>
          andthen (pop out) (\<lambda>(structure, out).
          andthen (promote_name_opt H sc x b) (\<lambda>(n, b).
          andthen (nat_at (Some b) sc q) (\<lambda>k.
          andthen (expr_proj H None n k structure b) (\<lambda>(i, b). Inr ((i, out), b))))))"

partial_function (option) promote_loop ::
    "hashers \<Rightarrow> store \<Rightarrow> u32 frame list \<Rightarrow> u32 list \<Rightarrow> (u32 \<rightharpoonup> u32) \<Rightarrow> store \<Rightarrow> (u32 list \<times> store) result option" where
  "promote_loop H sc stack out memo b =
     (case stack of
        [] \<Rightarrow> Some (Inr (out, b))
      | Enter i # stack \<Rightarrow>
          (if \<not> is_scratch i then promote_loop H sc stack (i # out) memo b
           else (case memo i of
             Some j \<Rightarrow> promote_loop H sc stack (j # out) memo b
           | None \<Rightarrow>
               (case expr_node (Some b) sc i of
                  Inl e \<Rightarrow> Some (Inl e)
                | Inr nd \<Rightarrow> promote_loop H sc (map Enter (node_children nd) @ Exit i # stack) out memo b)))
      | Exit i # stack \<Rightarrow>
          (case andthen (expr_node (Some b) sc i) (\<lambda>nd. promote_node H sc nd out b) of
             Inl e \<Rightarrow> Some (Inl e)
           | Inr ((j, out), b) \<Rightarrow> promote_loop H sc stack (j # out) (memo(i \<mapsto> j)) b))"

declare promote_loop.simps [code]

definition promote :: "hashers \<Rightarrow> store \<Rightarrow> u32 \<Rightarrow> store \<Rightarrow> (u32 \<times> store) result" where
  "promote H sc i b =
     andthen (loop_result (promote_loop H sc [Enter i] [] (\<lambda>_. None) b)) (\<lambda>(out, b).
       andthen (pop out) (\<lambda>(j, _). Inr (j, b)))"

end
