(* ===== verification/Promotion_Contracts.thy ===== *)
theory Promotion_Contracts
  imports Promotion
begin

text \<open>
  Promotion keeps what a term denotes. The scratch store \<open>sc\<close> was filled over a persistent store \<open>b0\<close>; the
  persistent store has grown to \<open>b\<close> since (each promotion makes it grow, so that the pair of \<open>b\<close> and \<open>sc\<close> is no
  longer well-formed: the same term may have a row in both). An id of the pair of \<open>b0\<close> and \<open>sc\<close> is promoted to an
  id of \<open>b\<close> alone that denotes the same tree.
\<close>

definition over :: "hashers \<Rightarrow> store \<Rightarrow> store \<Rightarrow> store \<Rightarrow> bool" where
  "over H b0 sc b \<longleftrightarrow> twf H None b0 \<and> twf H (Some b0) sc \<and> twf H None b \<and> grows None b0 b"

lemma overD:
  assumes "over H b0 sc b"
  shows "twf H None b0" and "twf H (Some b0) sc" and "twf H None b" and "grows None b0 b" and "kept H b0 b"
    and "banks_ok H (Some b0) sc"
  using assms twfD(3) by (auto simp: over_def kept_def)

lemma over_good: "over H b0 sc b \<Longrightarrow> good H None b b' \<Longrightarrow> over H b0 sc b'"
  unfolding over_def using twf_good goodD(2) grows_trans by blast

section \<open>Reading through the scratch store\<close>

lemma over_reads:
  assumes ov: "over H b0 sc b"
  shows "str_ent (Some b0) sc q = Some s \<Longrightarrow> str_at (Some b) sc q = Inr s"
    and "nat_ent (Some b0) sc q = Some k \<Longrightarrow> nat_at (Some b) sc q = Inr k"
    and "list_ent (Some b0) sc q = Some l \<Longrightarrow> level_list_at (Some b) sc q = Inr l"
    and "name_at (Some b0) sc x n \<Longrightarrow> to_name (Some b) sc x = Inr n"
    and "level_at (Some b0) sc i t \<Longrightarrow> to_level (Some b) sc i = Inr t"
    and "kvmap_denotes (Some b0) sc j m \<Longrightarrow> to_kvmap (Some b) sc j = Inr m"
    and "node_at (Some b0) sc e nd \<Longrightarrow> expr_node (Some b) sc e = Inr nd"
proof -
  note ok = overD(6) [OF ov] and kept = overD(5) [OF ov]
  show "str_ent (Some b0) sc q = Some s \<Longrightarrow> str_at (Some b) sc q = Inr s"
    by (rule keepsD [OF row_reads_keep(1) [OF kept] pool_reads(1) [OF ok]])
  show "nat_ent (Some b0) sc q = Some k \<Longrightarrow> nat_at (Some b) sc q = Inr k"
    by (rule keepsD [OF row_reads_keep(2) [OF kept] pool_reads(2) [OF ok]])
  show "list_ent (Some b0) sc q = Some l \<Longrightarrow> level_list_at (Some b) sc q = Inr l"
    by (rule keepsD [OF row_reads_keep(6) [OF kept] pool_reads(4) [OF ok]])
  show "name_at (Some b0) sc x n \<Longrightarrow> to_name (Some b) sc x = Inr n"
    by (rule keepsD [OF to_name_keeps [OF kept] to_name_ok [OF ok]])
  show "level_at (Some b0) sc i t \<Longrightarrow> to_level (Some b) sc i = Inr t"
    by (rule keepsD [OF to_level_keeps [OF kept] to_level_ok [OF ok]])
  show "kvmap_denotes (Some b0) sc j m \<Longrightarrow> to_kvmap (Some b) sc j = Inr m"
    by (rule keepsD [OF to_kvmap_keeps [OF kept] to_kvmap_ok [OF ok]])
  show "node_at (Some b0) sc e nd \<Longrightarrow> expr_node (Some b) sc e = Inr nd"
    by (rule keepsD [OF expr_node_keeps [OF kept] expr_node_ok [OF ok]])
qed

section \<open>Names and levels\<close>

lemma promote_name_ok:
  assumes ov: "over H b0 sc b" and n: "name_at (Some b0) sc (Some i) n"
  shows "interns H None (name_cost n) (\<exists>y. name_at None b y n) b (promote_name H sc i b) (\<lambda>j b'. name_at None b' (Some j) n)"
proof (cases "is_scratch i")
  case True
  from n have "n \<noteq> Anonymous" by (auto elim: name_at_SomeE)
  then have some: "name_at None b' x n \<Longrightarrow> \<exists>j. x = Some j" for x b' by (cases x) auto
  have "interns H None (name_cost n) (\<exists>y. name_at None b y n) b
      (andthen (intern_name H None n b) (\<lambda>(x, b). case x of Some j \<Rightarrow> Inr (j, b) | None \<Rightarrow> Inl BankExhausted))
      (\<lambda>j b'. name_at None b' (Some j) n)"
  proof (rule interns_bind [OF intern_name_ok [OF twfD(1) [OF overD(3) [OF ov]]], where ?c2.0 = 0])
    fix x b1 assume x: "good H None b b1" "name_at None b1 x n"
    from some [OF x(2)] obtain j where "x = Some j" by blast
    with x show "interns H None 0 (\<exists>y. name_at None b y n) b1 (case x of Some j \<Rightarrow> Inr (j, b1) | None \<Rightarrow> Inl BankExhausted)
        (\<lambda>j b'. name_at None b' (Some j) n)" by (simp add: interns_return goodD(1))
  qed simp_all
  with True over_reads(4) [OF ov n] show ?thesis by (simp add: promote_name_def)
next
  case False
  have "name_at None b (Some i) n"
    by (rule name_at_grows [OF persistent_name [OF twfD(1) [OF overD(1) [OF ov]] overD(6) [OF ov] n False] overD(4) [OF ov]])
  with False twfD(1) [OF overD(3) [OF ov]] show ?thesis by (simp add: promote_name_def interns_return)
qed

lemma promote_name_opt_ok:
  assumes ov: "over H b0 sc b" and n: "name_at (Some b0) sc x n"
  shows "interns H None (name_cost n) (\<exists>y. name_at None b y n) b (promote_name_opt H sc x b) (\<lambda>y b'. name_at None b' y n)"
proof (cases x)
  case None
  with n twfD(1) [OF overD(3) [OF ov]] show ?thesis by (simp add: promote_name_opt_def interns_return)
next
  case (Some i)
  with promote_name_ok [OF ov n [unfolded Some]] show ?thesis
    by (auto simp: promote_name_opt_def intro: interns_map)
qed

lemma promote_level_ok:
  assumes ov: "over H b0 sc b" and l: "level_at (Some b0) sc i l"
  shows "interns H None (level_cost l) (\<exists>j. level_at None b j l) b (promote_level H sc i b) (\<lambda>j b'. level_at None b' j l)"
proof (cases "is_scratch i")
  case True
  with over_reads(5) [OF ov l] intern_level_ok [OF twfD(1) [OF overD(3) [OF ov]]] show ?thesis
    by (simp add: promote_level_def makes_def)
next
  case False
  have "level_at None b i l"
    by (rule level_at_grows [OF persistent_level [OF twfD(1) [OF overD(1) [OF ov]] overD(6) [OF ov] l False] overD(4) [OF ov]])
  with False twfD(1) [OF overD(3) [OF ov]] show ?thesis by (simp add: promote_level_def interns_return)
qed

lemma promote_levels_ok:
  "over H b0 sc b \<Longrightarrow> list_all2 (level_at (Some b0) sc) src ls \<Longrightarrow> list_all2 (level_at None b) ids done_ls \<Longrightarrow>
     interns H None (levels_cost ls) (\<forall>l \<in> set ls. \<exists>i. level_at None b i l) b (promote_levels H sc src ids b)
       (\<lambda>ids' b'. list_all2 (level_at None b') ids' (done_ls @ ls))"
proof (induction src arbitrary: b ids done_ls ls)
  case Nil
  then show ?case using twfD(1) [OF overD(3)] by (simp add: interns_return)
next
  case (Cons i src)
  from Cons.prems(2) obtain l ls' where ls: "ls = l # ls'" "level_at (Some b0) sc i l" "list_all2 (level_at (Some b0) sc) src ls'"
    by (auto simp: list_all2_Cons1)
  let ?K = "\<forall>k \<in> set ls. \<exists>i. level_at None b i k"
  show ?case unfolding promote_levels.simps
  proof (rule interns_bind [OF promote_level_ok [OF Cons.prems(1) ls(2)], where ?c2.0 = "levels_cost ls'"])
    fix j b1 assume j: "good H None b b1" "level_at None b1 j l" "?K \<Longrightarrow> b1 = b"
    have "list_all2 (level_at None b1) (ids @ [j]) (done_ls @ [l])"
      using list_level_at_grows [OF Cons.prems(3) goodD(2) [OF j(1)]] j(2) by (simp add: list_all2_appendI)
    from Cons.IH [OF over_good [OF Cons.prems(1) j(1)] ls(3) this]
    show "interns H None (levels_cost ls') ?K b1 (promote_levels H sc src (ids @ [j]) b1)
        (\<lambda>ids' b'. list_all2 (level_at None b') ids' (done_ls @ ls))"
      by (rule interns_weaken) (use j(3) ls(1) in auto)
  qed (use ls(1) in auto)
qed

lemma promote_level_lists_ok:
  assumes ov: "over H b0 sc b" and src: "list_all2 (level_at (Some b0) sc) src ls"
  shows "interns H None (levels_cost ls + 1) (\<exists>j. levels_at None b j ls) b
    (andthen (promote_levels H sc src [] b) (\<lambda>(ids, b). intern_level_list H None ids b))
    (\<lambda>j b'. levels_at None b' j ls)"
proof (rule interns_bind [OF promote_levels_ok [OF ov src, where done_ls = "[]"]])
  let ?K = "\<exists>j. levels_at None b j ls"
  fix ids b1 assume 1: "good H None b b1" "list_all2 (level_at None b1) ids ([] @ ls)" "?K \<Longrightarrow> b1 = b"
  then have ids: "list_all2 (level_at None b1) ids ls" by simp
  have "\<exists>j. list_ent None b1 j = Some ids" if ?K
    using that 1(3) [OF that] list_level_at_inject [OF twfD(3) [OF overD(3) [OF ov]] ids [unfolded 1(3) [OF that]]]
    by (auto simp: levels_at_def)
  then show "interns H None 1 ?K b1 (intern_level_list H None ids b1) (\<lambda>j b'. levels_at None b' j ls)"
    by (intro interns_weaken [OF intern_level_list_ok [OF goodD(1) [OF 1(1)] ids]]) auto
qed (auto dest: levels_at_known)

section \<open>The exit arm\<close>

text \<open>A node that needs the promoted id of a name.\<close>

lemma promoted_named:
  assumes ov: "over H b0 sc b" and x: "name_at (Some b0) sc x n"
    and m: "\<And>y b1. over H b0 sc b1 \<Longrightarrow> grows None b b1 \<Longrightarrow> name_at None b1 y n \<Longrightarrow>
      interns H None c (\<exists>i. expr_at None b1 i e) b1 (m y b1) (\<lambda>i b'. expr_at None b' i e)"
    and old: "\<And>i. expr_at None b i e \<Longrightarrow> \<exists>y. name_at None b y n"
  shows "interns_expr H None (name_cost n + c) b e out
    (andthen (promote_name_opt H sc x b) (\<lambda>(y, b). andthen (m y b) (\<lambda>(i, b). Inr ((i, out), b))))"
  unfolding interns_expr_def
proof (rule interns_bind [OF promote_name_opt_ok [OF ov x]])
  fix y b1 assume y: "good H None b b1" "name_at None b1 y n" "\<exists>i. expr_at None b i e \<Longrightarrow> b1 = b"
  show "interns H None c (\<exists>i. expr_at None b i e) b1 (andthen (m y b1) (\<lambda>(i, b). Inr ((i, out), b)))
      (\<lambda>(i, out') b'. out' = out \<and> expr_at None b' i e)"
    by (rule interns_out [OF m [OF over_good [OF ov y(1)] goodD(2) [OF y(1)] y(2)] order_refl]) (use y(3) in auto)
qed (use old in auto)

lemma promoted_sort:
  assumes ov: "over H b0 sc b" and l: "level_at (Some b0) sc i l"
  shows "interns_expr H None (level_cost l + 1) b (ESort l) out
    (andthen (promote_level H sc i b) (\<lambda>(l, b). andthen (expr_sort None l b) (\<lambda>(i, b). Inr ((i, out), b))))"
  unfolding interns_expr_def
proof (rule interns_bind [OF promote_level_ok [OF ov l]])
  let ?K = "\<exists>i. expr_at None b i (ESort l)"
  fix j b1 assume 1: "good H None b b1" "level_at None b1 j l" "?K \<Longrightarrow> b1 = b"
  show "interns H None 1 ?K b1 (andthen (expr_sort None j b1) (\<lambda>(i, b). Inr ((i, out), b)))
      (\<lambda>(i, out') b'. out' = out \<and> expr_at None b' i (ESort l))"
    by (rule interns_out [OF expr_sort_ok [OF twf_good [OF overD(3) [OF ov] 1(1)] 1(2)]]) (use 1(3) in auto)
qed (auto dest: known_parts)

lemma promoted_const:
  assumes ov: "over H b0 sc b" and x: "name_at (Some b0) sc x n" and q: "levels_at (Some b0) sc q ls"
  shows "interns_expr H None (name_cost n + (levels_cost ls + 2)) b (EConst n ls) out
    (andthen (promote_name_opt H sc x b) (\<lambda>(n, b).
     andthen (level_list_at (Some b) sc q) (\<lambda>src.
     andthen (promote_levels H sc src [] b) (\<lambda>(ids, b).
     andthen (intern_level_list H None ids b) (\<lambda>(ls, b).
     andthen (expr_const None n ls b) (\<lambda>(i, b). Inr ((i, out), b)))))))"
  unfolding interns_expr_def
proof (rule interns_bind [OF promote_name_opt_ok [OF ov x]])
  let ?K = "\<exists>i. expr_at None b i (EConst n ls)"
  let ?Q = "\<lambda>(i, out') b'. out' = out \<and> expr_at None b' i (EConst n ls)"
  fix y b1 assume 1: "good H None b b1" "name_at None b1 y n" "?K \<Longrightarrow> b1 = b"
  note ov1 = over_good [OF ov 1(1)]
  from q obtain src where src: "list_ent (Some b0) sc q = Some src" "list_all2 (level_at (Some b0) sc) src ls"
    by (auto simp: levels_at_def)
  have "interns H None (levels_cost ls + 2) ?K b1
      (andthen (andthen (promote_levels H sc src [] b1) (\<lambda>(ids, b). intern_level_list H None ids b))
        (\<lambda>(j, b). andthen (expr_const None y j b) (\<lambda>(i, b). Inr ((i, out), b)))) ?Q"
  proof (rule interns_bind [OF promote_level_lists_ok [OF ov1 src(2)]])
    fix j b2 assume 2: "good H None b1 b2" "levels_at None b2 j ls" "?K \<Longrightarrow> b2 = b1"
    show "interns H None 1 ?K b2 (andthen (expr_const None y j b2) (\<lambda>(i, b). Inr ((i, out), b))) ?Q"
      by (rule interns_out [OF expr_const_ok [OF overD(3) [OF over_good [OF ov1 2(1)]] name_at_grows [OF 1(2) goodD(2) [OF 2(1)]] 2(2)]])
        (use 1(3) 2(3) in auto)
  qed (use 1(3) in \<open>auto dest: known_parts\<close>)
  then show "interns H None (levels_cost ls + 2) ?K b1
      (andthen (level_list_at (Some b1) sc q) (\<lambda>src. andthen (promote_levels H sc src [] b1) (\<lambda>(ids, b).
        andthen (intern_level_list H None ids b) (\<lambda>(j, b). andthen (expr_const None y j b) (\<lambda>(i, b). Inr ((i, out), b)))))) ?Q"
    by (simp add: over_reads(3) [OF ov1 src(1)] andthen_assoc split_def)
qed (auto dest: known_parts)

lemma promoted_mdata:
  assumes ov: "over H b0 sc b" and k: "kvmap_denotes (Some b0) sc k m" and c: "expr_at None b c ec"
  shows "interns_expr H None (entries_cost m + 2) b (EMData m ec) out
    (andthen (to_kvmap (Some b) sc k) (\<lambda>m. andthen (intern_kvmap H None m b) (\<lambda>(d, b).
     andthen (expr_mdata None d c b) (\<lambda>(i, b). Inr ((i, out), b)))))"
  using exit_mdata [OF overD(3) [OF ov] c, of m out] by (simp add: over_reads(6) [OF ov k])

lemma promoted_proj:
  assumes ov: "over H b0 sc b" and x: "name_at (Some b0) sc x n" and q: "nat_ent (Some b0) sc q = Some k"
    and c: "expr_at None b c ec"
  shows "interns_expr H None (name_cost n + 2) b (EProj n k ec) out
    (andthen (promote_name_opt H sc x b) (\<lambda>(y, b). andthen (nat_at (Some b) sc q) (\<lambda>k.
     andthen (expr_proj H None y k c b) (\<lambda>(i, b). Inr ((i, out), b)))))"
proof -
  have "interns_expr H None (name_cost n + 2) b (EProj n k ec) out
    (andthen (promote_name_opt H sc x b) (\<lambda>(y, b).
     andthen (andthen (nat_at (Some b) sc q) (\<lambda>k. expr_proj H None y k c b)) (\<lambda>(i, b). Inr ((i, out), b))))"
  proof (rule promoted_named [OF ov x])
    fix y b1 assume 1: "over H b0 sc b1" "grows None b b1" "name_at None b1 y n"
    with expr_proj_ok [OF overD(3) [OF 1(1)] 1(3) expr_at_grows [OF c 1(2)]] over_reads(2) [OF 1(1) q]
    show "interns H None 2 (\<exists>i. expr_at None b1 i (EProj n k ec)) b1
        (andthen (nat_at (Some b1) sc q) (\<lambda>k. expr_proj H None y k c b1)) (\<lambda>i b'. expr_at None b' i (EProj n k ec))"
      by simp
  qed (auto dest: known_parts)
  then show ?thesis by (simp add: andthen_assoc)
qed

lemma promote_node_ok:
  assumes ov: "over H b0 sc b" and nd: "node_expr (Some b0) sc (expr_at (Some b0) sc) nd e"
    and ids: "list_all2 (expr_at None b) ids (expr_children e)"
  shows "interns_expr H None (own_expr_cost e) b e out (promote_node H sc nd (rev ids @ out) b)"
proof (cases nd)
  case (NBVar w)
  with nd ids interns_expr_out [OF expr_bvar_ok [OF overD(3) [OF ov]]] show ?thesis
    by (simp add: promote_node_def expr_children_def own_expr_cost_def)
next
  case (NBVarBig q)
  with nd ids interns_expr_out [OF expr_bvar_ok [OF overD(3) [OF ov]]] show ?thesis
    by (auto simp: promote_node_def expr_children_def own_expr_cost_def over_reads(2) [OF ov])
next
  case (NFVar x)
  with nd obtain n where e: "e = EFVar n" "name_at (Some b0) sc x n" by auto
  have "interns_expr H None (name_cost n + 1) b (EFVar n) out
      (andthen (promote_name_opt H sc x b) (\<lambda>(n, b). andthen (expr_fvar None n b) (\<lambda>(i, b). Inr ((i, out), b))))"
    by (rule promoted_named [OF ov e(2) expr_fvar_ok [OF overD(3)]]) (auto dest: known_parts)
  with NFVar e ids show ?thesis by (simp add: promote_node_def expr_children_def own_expr_cost_def)
next
  case (NMVar x)
  with nd obtain n where e: "e = EMVar n" "name_at (Some b0) sc x n" by auto
  have "interns_expr H None (name_cost n + 1) b (EMVar n) out
      (andthen (promote_name_opt H sc x b) (\<lambda>(n, b). andthen (expr_mvar None n b) (\<lambda>(i, b). Inr ((i, out), b))))"
    by (rule promoted_named [OF ov e(2) expr_mvar_ok [OF overD(3)]]) (auto dest: known_parts)
  with NMVar e ids show ?thesis by (simp add: promote_node_def expr_children_def own_expr_cost_def)
next
  case (NSort l)
  with nd ids promoted_sort [OF ov] show ?thesis
    by (auto simp: promote_node_def expr_children_def own_expr_cost_def)
next
  case (NConst x q)
  with nd ids promoted_const [OF ov] show ?thesis
    by (auto simp: promote_node_def expr_children_def own_expr_cost_def)
next
  case (NApp f a)
  with nd obtain ef ea where e: "e = EApp ef ea" by auto
  with ids obtain i j where i: "ids = [i, j]" "expr_at None b i ef" "expr_at None b j ea"
    by (auto simp: expr_children_def list_all2_Cons2)
  with NApp e interns_expr_out [OF expr_app_ok [OF overD(3) [OF ov] i(2,3)]] show ?thesis
    by (simp add: promote_node_def pop_def own_expr_cost_def)
next
  case (NLam x t c bi)
  with nd obtain n et eb where e: "e = ELam n et eb bi" "name_at (Some b0) sc x n" by auto
  with ids obtain i j where i: "ids = [i, j]" "expr_at None b i et" "expr_at None b j eb"
    by (auto simp: expr_children_def list_all2_Cons2)
  have "interns_expr H None (name_cost n + 1) b (ELam n et eb bi) out
      (andthen (promote_name_opt H sc x b) (\<lambda>(n, b). andthen (expr_lam None n i j bi b) (\<lambda>(i, b). Inr ((i, out), b))))"
    by (rule promoted_named [OF ov e(2) expr_lam_ok [OF overD(3)]])
      (use i in \<open>auto dest: known_parts intro: expr_at_grows\<close>)
  with NLam e(1) i(1) show ?thesis by (simp add: promote_node_def pop_def own_expr_cost_def)
next
  case (NForall x t c bi)
  with nd obtain n et eb where e: "e = EForallE n et eb bi" "name_at (Some b0) sc x n" by auto
  with ids obtain i j where i: "ids = [i, j]" "expr_at None b i et" "expr_at None b j eb"
    by (auto simp: expr_children_def list_all2_Cons2)
  have "interns_expr H None (name_cost n + 1) b (EForallE n et eb bi) out
      (andthen (promote_name_opt H sc x b) (\<lambda>(n, b). andthen (expr_forall None n i j bi b) (\<lambda>(i, b). Inr ((i, out), b))))"
    by (rule promoted_named [OF ov e(2) expr_forall_ok [OF overD(3)]])
      (use i in \<open>auto dest: known_parts intro: expr_at_grows\<close>)
  with NForall e(1) i(1) show ?thesis by (simp add: promote_node_def pop_def own_expr_cost_def)
next
  case (NLetE x t v c non_dep)
  with nd obtain n et ev eb where e: "e = ELetE n et ev eb non_dep" "name_at (Some b0) sc x n" by auto
  with ids obtain i j k where i: "ids = [i, j, k]" "expr_at None b i et" "expr_at None b j ev" "expr_at None b k eb"
    by (auto simp: expr_children_def list_all2_Cons2)
  have "interns_expr H None (name_cost n + 2) b (ELetE n et ev eb non_dep) out
      (andthen (promote_name_opt H sc x b) (\<lambda>(n, b). andthen (expr_let H None n i j k non_dep b) (\<lambda>(i, b). Inr ((i, out), b))))"
    by (rule promoted_named [OF ov e(2) expr_let_ok [OF overD(3)]])
      (use i in \<open>auto dest: known_parts intro: expr_at_grows\<close>)
  with NLetE e(1) i(1) show ?thesis by (simp add: promote_node_def pop_def own_expr_cost_def)
next
  case (NLitNat q)
  with nd ids interns_expr_out [OF expr_lit_nat_ok [OF overD(3) [OF ov]]] show ?thesis
    by (auto simp: promote_node_def expr_children_def own_expr_cost_def over_reads(2) [OF ov])
next
  case (NLitStr q)
  with nd ids interns_expr_out [OF expr_lit_str_ok [OF overD(3) [OF ov]]] show ?thesis
    by (auto simp: promote_node_def expr_children_def own_expr_cost_def over_reads(1) [OF ov])
next
  case (NMData k c)
  with nd obtain m ec where e: "e = EMData m ec" "kvmap_denotes (Some b0) sc k m" by auto
  with ids obtain i where i: "ids = [i]" "expr_at None b i ec"
    by (auto simp: expr_children_def list_all2_Cons2)
  with NMData e promoted_mdata [OF ov e(2) i(2)] show ?thesis
    by (simp add: promote_node_def pop_def own_expr_cost_def)
next
  case (NProj x w c)
  with nd obtain n ec where e: "e = EProj n (unat w) ec" "name_at (Some b0) sc x n" by auto
  with ids obtain i where i: "ids = [i]" "expr_at None b i ec"
    by (auto simp: expr_children_def list_all2_Cons2)
  have "interns_expr H None (name_cost n + 2) b (EProj n (unat w) ec) out
      (andthen (promote_name_opt H sc x b) (\<lambda>(n, b). andthen (expr_proj H None n (unat w) i b) (\<lambda>(i, b). Inr ((i, out), b))))"
    by (rule promoted_named [OF ov e(2) expr_proj_ok [OF overD(3)]])
      (use i in \<open>auto dest: known_parts intro: expr_at_grows\<close>)
  with NProj e(1) i(1) show ?thesis by (simp add: promote_node_def pop_def own_expr_cost_def)
next
  case (NProjBig x q c)
  with nd obtain n k ec where e: "e = EProj n k ec" "name_at (Some b0) sc x n" "nat_ent (Some b0) sc q = Some k" by auto
  with ids obtain i where i: "ids = [i]" "expr_at None b i ec"
    by (auto simp: expr_children_def list_all2_Cons2)
  with NProjBig e promoted_proj [OF ov e(2,3) i(2)] show ?thesis
    by (simp add: promote_node_def pop_def own_expr_cost_def)
qed

section \<open>The walk\<close>

definition live :: "store \<Rightarrow> store \<Rightarrow> u32 \<Rightarrow> bool" where
  "live b0 sc i \<longleftrightarrow> (\<exists>e. expr_at (Some b0) sc i e)"

definition tree_at :: "store \<Rightarrow> store \<Rightarrow> u32 \<Rightarrow> expr" where
  "tree_at b0 sc i = (THE e. expr_at (Some b0) sc i e)"

definition children_at :: "store \<Rightarrow> store \<Rightarrow> u32 \<Rightarrow> u32 list" where
  "children_at b0 sc i = node_children (THE nd. node_at (Some b0) sc i nd)"

definition copied :: "store \<Rightarrow> store \<Rightarrow> store \<Rightarrow> u32 \<Rightarrow> u32 \<Rightarrow> bool" where
  "copied b0 sc b j i \<longleftrightarrow> (\<exists>e. expr_at (Some b0) sc i e \<and> expr_at None b j e)"

lemma tree_at_eq [simp]: "expr_at (Some b0) sc i e \<Longrightarrow> tree_at b0 sc i = e"
  unfolding tree_at_def by (rule the_equality) (auto dest: expr_at_det)

lemma live_cases:
  assumes "live b0 sc i"
  obtains nd e where "node_at (Some b0) sc i nd" and "node_expr (Some b0) sc (expr_at (Some b0) sc) nd e"
    and "expr_at (Some b0) sc i e" and "children_at b0 sc i = node_children nd" and "tree_at b0 sc i = e"
    and "list_all2 (expr_at (Some b0) sc) (children_at b0 sc i) (expr_children e)"
proof -
  from assms obtain e where e: "expr_at (Some b0) sc i e" by (auto simp: live_def)
  then obtain nd where nd: "node_at (Some b0) sc i nd" "node_expr (Some b0) sc (expr_at (Some b0) sc) nd e" by (rule expr_atE)
  have "(THE nd. node_at (Some b0) sc i nd) = nd" by (rule the_equality) (auto intro: nd(1) node_at_det [OF _ nd(1)])
  with that [OF nd e] node_children_at [OF nd(2)] e show thesis by (simp add: children_at_def)
qed

lemma live_children: "live b0 sc i \<Longrightarrow> c \<in> set (children_at b0 sc i) \<Longrightarrow> live b0 sc c"
  by (erule live_cases) (auto simp: live_def dest: list_all2_members)

lemma copied_children:
  assumes "expr_at (Some b0) sc i e" and "list_all2 (expr_at (Some b0) sc) cs es"
    and "list_all2 (copied b0 sc b) ids cs"
  shows "list_all2 (expr_at None b) ids es"
  using assms(3,2)
proof (induction arbitrary: es rule: list_all2_induct)
  case (Cons j ids c cs)
  then show ?case by (auto simp: list_all2_Cons1 copied_def dest: expr_at_det)
qed simp

lemma copied_grows: "copied b0 sc b j i \<Longrightarrow> grows None b b' \<Longrightarrow> copied b0 sc b' j i"
  unfolding copied_def using expr_at_grows by blast

definition promote_exit ::
    "hashers \<Rightarrow> store \<Rightarrow> u32 \<Rightarrow> u32 list \<Rightarrow> store \<Rightarrow> ((u32 \<times> u32 list) \<times> store) result" where
  "promote_exit H sc i out b = andthen (expr_node (Some b) sc i) (\<lambda>nd. promote_node H sc nd out b)"

lemma promote_exit_ok:
  assumes ov: "over H b0 sc b" and live: "live b0 sc i" and ids: "list_all2 (copied b0 sc b) ids (children_at b0 sc i)"
  shows "interns H None (own_expr_cost (tree_at b0 sc i)) (\<exists>j. copied b0 sc b j i) b (promote_exit H sc i (rev ids @ out) b)
    (\<lambda>(j, out') b'. out' = out \<and> copied b0 sc b' j i)"
  using live
proof (rule live_cases)
  fix nd e assume nd: "node_at (Some b0) sc i nd" "node_expr (Some b0) sc (expr_at (Some b0) sc) nd e"
    "expr_at (Some b0) sc i e" "children_at b0 sc i = node_children nd" "tree_at b0 sc i = e"
    "list_all2 (expr_at (Some b0) sc) (children_at b0 sc i) (expr_children e)"
  have iff: "copied b0 sc b' j i \<longleftrightarrow> expr_at None b' j e" for b' j
    using nd(3) by (auto simp: copied_def dest: expr_at_det)
  from promote_node_ok [OF ov nd(2) copied_children [OF nd(3,6) ids], of out]
  show ?thesis by (simp add: promote_exit_def over_reads(7) [OF ov nd(1)] nd(5) interns_expr_def iff)
qed

text \<open>The equations of the loop in the form of \<open>post_order\<close>.\<close>

lemma promote_loop_eqs:
  "loop_result (promote_loop H sc [] out memo b) = Inr (out, b)"
  "loop_result (promote_loop H sc (Exit i # stack) out memo b) =
     andthen (promote_exit H sc i out b) (\<lambda>((j, out), b). loop_result (promote_loop H sc stack (j # out) (memo(i \<mapsto> j)) b))"
  by (subst promote_loop.simps, simp add: promote_exit_def andthen_def split: sum.split)+

lemma promote_loop_enter:
  assumes ov: "over H b0 sc b" and live: "live b0 sc i"
  shows "loop_result (promote_loop H sc (Enter i # stack) out memo b) =
     (case (if is_scratch i then None else Some i) of
        Some j \<Rightarrow> loop_result (promote_loop H sc stack (j # out) memo b)
      | None \<Rightarrow>
          (case memo i of
             Some j \<Rightarrow> loop_result (promote_loop H sc stack (j # out) memo b)
           | None \<Rightarrow> loop_result (promote_loop H sc (map Enter (children_at b0 sc i) @ Exit i # stack) out memo b)))"
  using live
proof (rule live_cases)
  fix nd e assume nd: "node_at (Some b0) sc i nd" "children_at b0 sc i = node_children nd"
  show ?thesis
    by (subst promote_loop.simps) (auto simp: over_reads(7) [OF ov nd(1)] nd(2) split: option.split)
qed

interpretation promote_walk: post_order H None "over H b0 sc" "copied b0 sc" "live b0 sc"
  "\<lambda>i. if is_scratch i then None else Some i" "children_at b0 sc" "\<lambda>i. own_expr_cost (tree_at b0 sc i)"
  "\<lambda>i. expr_cost (tree_at b0 sc i)" "promote_exit H sc" "\<lambda>stack out memo b. loop_result (promote_loop H sc stack out memo b)"
  for H b0 sc
proof
  fix b b' i j c ids out stack memo
  show "over H b0 sc b \<Longrightarrow> wf H None b" by (auto dest: overD(3) twfD(1))
  show "over H b0 sc b \<Longrightarrow> good H None b b' \<Longrightarrow> over H b0 sc b'" by (rule over_good)
  show "copied b0 sc b i j \<Longrightarrow> grows None b b' \<Longrightarrow> copied b0 sc b' i j" by (rule copied_grows)
  show "copied b0 sc b j i" if ov: "over H b0 sc b" and live: "live b0 sc i" and "(if is_scratch i then None else Some i) = Some j"
  proof -
    from live obtain e where e: "expr_at (Some b0) sc i e" by (auto simp: live_def)
    from that(3) have "\<not> is_scratch i" "j = i" by (auto split: if_splits)
    with persistent_term [OF overD(1,6) [OF ov] e] have "expr_at None b0 j e" by simp
    with e overD(4) [OF ov] show ?thesis by (auto simp: copied_def intro: expr_at_grows)
  qed
  show "live b0 sc i \<Longrightarrow> c \<in> set (children_at b0 sc i) \<Longrightarrow> live b0 sc c" by (rule live_children)
  show "0 < own_expr_cost (tree_at b0 sc i)" by (cases "tree_at b0 sc i") (simp_all add: own_expr_cost_def)
  show "\<exists>k. copied b0 sc b k c" if live: "live b0 sc i" and j: "copied b0 sc b j i" and c: "c \<in> set (children_at b0 sc i)"
    using live
  proof (rule live_cases)
    fix nd e assume e: "expr_at (Some b0) sc i e" "list_all2 (expr_at (Some b0) sc) (children_at b0 sc i) (expr_children e)"
    from list_all2_members(1) [OF e(2) c] obtain ec where ec: "expr_at (Some b0) sc c ec" "ec \<in> set (expr_children e)" by blast
    from j e(1) have "expr_at None b j e" by (auto simp: copied_def dest: expr_at_det)
    from known_subterm [OF this ec(2)] ec(1) show ?thesis by (auto simp: copied_def)
  qed
  show "expr_cost (tree_at b0 sc i) = own_expr_cost (tree_at b0 sc i)
      + sum_list (map (\<lambda>i. expr_cost (tree_at b0 sc i)) (children_at b0 sc i))" if "live b0 sc i"
    using that
  proof (rule live_cases)
    fix nd e assume e: "tree_at b0 sc i = e" "list_all2 (expr_at (Some b0) sc) (children_at b0 sc i) (expr_children e)"
    have "map (\<lambda>i. expr_cost (tree_at b0 sc i)) (children_at b0 sc i) = map expr_cost (expr_children e)"
      using e(2) by (induction rule: list_all2_induct) simp_all
    then show ?thesis by (simp add: e(1) expr_cost_eq [of e])
  qed
  show "interns H None (own_expr_cost (tree_at b0 sc i)) (\<exists>j. copied b0 sc b j i) b (promote_exit H sc i (rev ids @ out) b)
      (\<lambda>(j, out') b'. out' = out \<and> copied b0 sc b' j i)"
    if "over H b0 sc b" "live b0 sc i" "list_all2 (copied b0 sc b) ids (children_at b0 sc i)"
    using that by (rule promote_exit_ok)
  show "loop_result (promote_loop H sc [] out memo b) = Inr (out, b)" by (rule promote_loop_eqs)
  show "loop_result (promote_loop H sc (Enter i # stack) out memo b) =
     (case (if is_scratch i then None else Some i) of
        Some j \<Rightarrow> loop_result (promote_loop H sc stack (j # out) memo b)
      | None \<Rightarrow>
          (case memo i of
             Some j \<Rightarrow> loop_result (promote_loop H sc stack (j # out) memo b)
           | None \<Rightarrow> loop_result (promote_loop H sc (map Enter (children_at b0 sc i) @ Exit i # stack) out memo b)))"
    if "over H b0 sc b" "live b0 sc i" using that by (rule promote_loop_enter)
  show "loop_result (promote_loop H sc (Exit i # stack) out memo b) =
     andthen (promote_exit H sc i out b) (\<lambda>((j, out), b). loop_result (promote_loop H sc stack (j # out) (memo(i \<mapsto> j)) b))"
    by (rule promote_loop_eqs)
qed

lemma promote_runs:
  assumes ov: "over H b0 sc b" and e: "expr_at (Some b0) sc i e"
  shows "interns H None (expr_cost e) (\<exists>j. expr_at None b j e) b (promote H sc i b) (\<lambda>j b'. expr_at None b' j e)"
proof -
  have "live b0 sc i" and iff: "copied b0 sc b' j i \<longleftrightarrow> expr_at None b' j e" for b' j
    using e by (auto simp: live_def copied_def dest: expr_at_det)
  from promote_walk.walk_ok [OF ov this(1)] e show ?thesis by (simp add: promote_def iff)
qed

end
