(* ===== verification/Promotion_Properties.thy ===== *)
theory Promotion_Properties
  imports Promotion_Contracts Term_Properties
begin

text \<open>The results about promotion.\<close>

lemma promote_persistent: "\<not> is_scratch i \<Longrightarrow> promote H sc i b = Inr (i, b)"
  by (simp add: promote_def promote_loop.simps pop_def)

text \<open>C5: promotion copies a term. The scratch store \<open>sc\<close> was filled over the persistent store \<open>b0\<close>, which may have
  grown to \<open>b\<close> since, in particular through earlier promotions. \<open>promote\<close> ends without a panic, fails only where the
  rows of the term do not fit, and answers a persistent id under which the persistent store, without the scratch
  store, denotes the tree of the promoted id. Ids of the persistent store keep their meaning, a term that it has
  already is not stored again, and promoting the answer changes nothing.\<close>

theorem promote_copies:
  assumes "twf H None b0" and "twf H (Some b0) sc" and "expr_at (Some b0) sc i e"
    and "twf H None b" and "grows None b0 b" and "regions_0 b"
  shows "case promote H sc i b of
      Inl err \<Rightarrow> err = BankExhausted \<and> max_rows < used b + expr_cost e
    | Inr (j, b') \<Rightarrow> expr_at None b' j e \<and> \<not> is_scratch j \<and> twf H None b' \<and> regions_0 b' \<and> grows None b b'
        \<and> used b' \<le> used b + expr_cost e \<and> ((\<exists>k. expr_at None b k e) \<longrightarrow> b' = b) \<and> promote H sc j b' = Inr (j, b')"
proof -
  have "over H b0 sc b" using assms by (simp add: over_def)
  note runs = promote_runs [OF this assms(3)]
  show ?thesis
  proof (cases "promote H sc i b")
    case (Inl err)
    with runs show ?thesis by (simp add: runs_def full_cases)
  next
    case (Inr r)
    obtain j b' where r: "promote H sc i b = Inr (j, b')" using Inr by (cases r) simp
    from internsD [OF runs r] have 1: "good H None b b'" "used b' \<le> used b + expr_cost e"
      "(\<exists>k. expr_at None b k e) \<longrightarrow> b' = b" "expr_at None b' j e" by auto
    have 2: "twf H None b'" "grows None b b'" using twf_good [OF assms(4) 1(1)] goodD(2) [OF 1(1)] by auto
    then have 3: "regions_0 b'" using assms(6) grows_regions by (simp add: regions_0_def)
    have "\<not> is_scratch j" by (rule base_ids(3) [OF twfD(3) [OF 2(1)] 3 1(4)])
    with 1 2 3 r show ?thesis by (simp add: promote_persistent)
  qed
qed

text \<open>A lambda term interned in a scratch store over the empty persistent store.\<close>

theorem promote_copies_witness:
  "\<exists>i sc j b. intern_expr flat_hashers (Some persistent) (ELam Anonymous (ESort Zero) (EBVar 0) Default) scratch = Inr (i, sc)
     \<and> promote flat_hashers sc i persistent = Inr (j, b)
     \<and> expr_at None b j (ELam Anonymous (ESort Zero) (EBVar 0) Default) \<and> \<not> is_scratch j"
proof -
  let ?e = "ELam Anonymous (ESort Zero) (EBVar 0) Default" and ?H = flat_hashers
  have twf: "twf ?H None persistent" unfolding persistent_def by (rule twf_new) (simp add: is_region_def)
  have used: "used persistent = 0" by (simp add: persistent_def)
  note over = twf_scratch [OF twf regions_persistent]
  obtain i sc where 1: "intern_expr ?H (Some persistent) ?e scratch = Inr (i, sc)" "good ?H (Some persistent) scratch sc"
    "expr_at (Some persistent) sc i ?e"
    by (rule interns_total [OF intern_expr_ok [OF over, of ?e]]) (simp_all add: max_rows_def)
  note copies = promote_copies [OF twf twf_good [OF over 1(2)] 1(3) twf grows_refl regions_persistent]
  show ?thesis
  proof (cases "promote ?H sc i persistent")
    case (Inl err)
    with copies used show ?thesis by (simp add: max_rows_def)
  next
    case (Inr r)
    obtain j b where "promote ?H sc i persistent = Inr (j, b)" using Inr by (cases r) simp
    with copies 1(1) show ?thesis by (intro exI [of _ i] exI [of _ sc] exI [of _ j] exI [of _ b]) simp
  qed
qed

end
