(* ===== verification/Checker_State.thy ===== *)
theory Checker_State
  imports Equiv_Manager Local_Context
begin

text \<open>
  The state of the type checker (\<open>TypeChecker\<close> of \<open>crates/leanr_kernel/src/tc.rs\<close>), the environment it
  reads, and its helpers that do not call the checker back. A method that takes \<open>&mut self\<close> is a
  computation \<open>'a tcm\<close>, which returns the new state beside the result. An \<open>Err\<close> drops the state: every
  error of the checker ends the check of its declaration, so that nobody reads it afterwards.
\<close>

section \<open>The environment view\<close>

record env_view =
  v_consts :: const_source
  v_extra :: "(u32 \<rightharpoonup> constant_info) option"
  v_quot_initialized :: bool
  v_store :: store

definition view_get :: "env_view \<Rightarrow> u32 \<Rightarrow> constant_info option" where
  "view_get V n =
     (case Option.bind (v_extra V) (\<lambda>e. e n) of
        Some info \<Rightarrow> Some info
      | None \<Rightarrow> source_get (v_consts V) n)"

definition is_structure_like :: "env_view \<Rightarrow> u32 \<Rightarrow> bool" where
  "is_structure_like V n =
     (case view_get V n of
        Some (CInduct v) \<Rightarrow> length (iv_ctors v) = 1 \<and> iv_num_indices v = 0 \<and> \<not> iv_is_rec v
      | _ \<Rightarrow> False)"

text \<open>The base of the scratch store: \<open>Some(self.view.store)\<close>.\<close>

abbreviation view_base :: "env_view \<Rightarrow> store option" where
  "view_base V \<equiv> Some (v_store V)"

section \<open>The state\<close>

text \<open>\<open>tc_infer_cache\<close> is the array of two maps, indexed by \<open>infer_only\<close>.\<close>

record tc =
  tc_scratch :: store
  tc_safety :: definition_safety
  tc_lparams :: "u32 list"
  tc_lctx :: local_context
  tc_fvar_gen :: u64
  tc_guard :: nat
  tc_guard_depth :: nat
  tc_infer_cache :: "bool \<Rightarrow> u32 \<rightharpoonup> u32"
  tc_whnf_cache :: "u32 \<rightharpoonup> u32"
  tc_whnf_core_cache :: "u32 \<rightharpoonup> u32"
  tc_eqv_cache :: union_find
  tc_failure_cache :: "(u32 \<times> u32) set"
  tc_unfold_memo :: "u32 \<rightharpoonup> u32"
  tc_dont_care :: u32
  tc_bool_true :: u32
  tc_nat_name :: u32
  tc_string_name :: u32
  tc_bool_false :: u32
  tc_nat_zero :: u32
  tc_nat_succ :: u32
  tc_string_mk :: u32

type_synonym 'a tcm = "tc \<Rightarrow> ('a \<times> tc) result"

section \<open>Computations\<close>

text \<open>
  \<open>after m f\<close> is \<open>let x = m?; f(x)\<close>; \<open>give\<close> is \<open>Ok\<close>, \<open>fail\<close> is \<open>Err\<close>. \<open>look\<close> reads a field, \<open>alter\<close> writes
  one, \<open>reads\<close> queries the scratch store, \<open>writes\<close> interns into it, and \<open>lift_res\<close> runs a pure computation.
\<close>

definition after :: "'a tcm \<Rightarrow> ('a \<Rightarrow> 'b tcm) \<Rightarrow> 'b tcm" where
  "after m f = (\<lambda>s. andthen (m s) (\<lambda>(x, s). f x s))"

definition give :: "'a \<Rightarrow> 'a tcm" where
  "give x = (\<lambda>s. Inr (x, s))"

definition fail :: "kernel_error \<Rightarrow> 'a tcm" where
  "fail e = (\<lambda>_. Inl e)"

definition look :: "(tc \<Rightarrow> 'a) \<Rightarrow> 'a tcm" where
  "look f = (\<lambda>s. Inr (f s, s))"

definition alter :: "(tc \<Rightarrow> tc) \<Rightarrow> unit tcm" where
  "alter f = (\<lambda>s. Inr ((), f s))"

definition lift_res :: "'a result \<Rightarrow> 'a tcm" where
  "lift_res r = (\<lambda>s. andthen r (\<lambda>x. Inr (x, s)))"

definition reads :: "(store \<Rightarrow> 'a result) \<Rightarrow> 'a tcm" where
  "reads f = (\<lambda>s. andthen (f (tc_scratch s)) (\<lambda>x. Inr (x, s)))"

definition writes :: "(store \<Rightarrow> ('a \<times> store) result) \<Rightarrow> 'a tcm" where
  "writes f = (\<lambda>s. andthen (f (tc_scratch s)) (\<lambda>(x, st). Inr (x, s\<lparr>tc_scratch := st\<rparr>)))"

text \<open>A write that gets \<open>&mut self.guard\<close>.\<close>

definition guard_writes :: "(nat \<Rightarrow> store \<Rightarrow> ('a \<times> store) result) \<Rightarrow> 'a tcm" where
  "guard_writes f = after (look tc_guard) (\<lambda>g. writes (f g))"

definition guard_res :: "(nat \<Rightarrow> 'a result) \<Rightarrow> 'a tcm" where
  "guard_res f = after (look tc_guard) (\<lambda>g. lift_res (f g))"

definition with_guard :: "'a tcm \<Rightarrow> 'a tcm" where
  "with_guard f = (\<lambda>s.
     if tc_guard_depth s \<ge> MAX_REC_DEPTH then Inl DeepRecursion
     else andthen (f (s\<lparr>tc_guard_depth := tc_guard_depth s + 1\<rparr>)) (\<lambda>(r, s).
       Inr (r, s\<lparr>tc_guard_depth := tc_guard_depth s - 1\<rparr>)))"

section \<open>Machine integers\<close>

text \<open>\<open>usize\<close> is 64 bits wide; an addition wraps in a release build.\<close>

definition usize_add :: "nat \<Rightarrow> nat \<Rightarrow> nat" where
  "usize_add a b = (a + b) mod 2 ^ 64"

definition nat_to_usize :: "nat \<Rightarrow> nat option" where
  "nat_to_usize n =
     (let digits = to_u64_digits n in
      if length digits > 1 then None else Some (unat (first_or_0 digits)))"

text \<open>Slices: \<open>&xs[a..b]\<close> panics unless \<open>a \<le> b \<le> xs.len()\<close>.\<close>

definition slice :: "'a list \<Rightarrow> nat \<Rightarrow> nat \<Rightarrow> 'a list result" where
  "slice xs a b = (if a \<le> b \<and> b \<le> length xs then Inr (take (b - a) (drop a xs)) else Inl Panic)"

section \<open>Constants\<close>

definition info_has_value :: "constant_info \<Rightarrow> bool" where
  "info_has_value info = (case info of CDefn _ \<Rightarrow> True | CThm _ \<Rightarrow> True | _ \<Rightarrow> False)"

definition info_value :: "constant_info \<Rightarrow> u32 option" where
  "info_value info = (case info of CDefn v \<Rightarrow> Some (df_value v) | CThm v \<Rightarrow> Some (th_value v) | _ \<Rightarrow> None)"

definition info_hints :: "constant_info \<Rightarrow> reducibility_hints" where
  "info_hints info = (case info of CDefn v \<Rightarrow> df_hints v | _ \<Rightarrow> HOpaque)"

definition info_is_unsafe :: "constant_info \<Rightarrow> bool" where
  "info_is_unsafe info =
     (case info of
        CAxiom v \<Rightarrow> ax_is_unsafe v
      | CDefn v \<Rightarrow> df_safety v = Unsafe
      | COpaque v \<Rightarrow> op_is_unsafe v
      | CInduct v \<Rightarrow> iv_is_unsafe v
      | CCtor v \<Rightarrow> ct_is_unsafe v
      | CRec v \<Rightarrow> rv_is_unsafe v
      | CThm _ \<Rightarrow> False
      | CQuot _ \<Rightarrow> False)"

definition compare_hints :: "reducibility_hints \<Rightarrow> reducibility_hints \<Rightarrow> int" where
  "compare_hints h1 h2 =
     (case (h1, h2) of
        (HRegular a, HRegular b) \<Rightarrow> if a = b then 0 else if a > b then -1 else 1
      | _ \<Rightarrow>
          if h1 = h2 then 0
          else (case (h1, h2) of
                  (HOpaque, _) \<Rightarrow> 1
                | (_, HOpaque) \<Rightarrow> -1
                | (HAbbrev, _) \<Rightarrow> -1
                | (_, HAbbrev) \<Rightarrow> 1
                | _ \<Rightarrow> 0))"

definition is_regular_hint :: "reducibility_hints \<Rightarrow> bool" where
  "is_regular_hint h = (case h of HRegular _ \<Rightarrow> True | _ \<Rightarrow> False)"

section \<open>Names that are interned on the way\<close>

definition mk_name1_id :: "hashers \<Rightarrow> store option \<Rightarrow> string \<Rightarrow> store \<Rightarrow> (u32 \<times> store) result" where
  "mk_name1_id H base part st =
     andthen (intern_str H base part st) (\<lambda>(q, st). name_str H base None q st)"

definition mk_name2_id :: "hashers \<Rightarrow> store option \<Rightarrow> string \<Rightarrow> string \<Rightarrow> store \<Rightarrow> (u32 \<times> store) result" where
  "mk_name2_id H base a b st =
     andthen (mk_name1_id H base a st) (\<lambda>(p, st).
     andthen (intern_str H base b st) (\<lambda>(q, st). name_str H base (Some p) q st))"

section \<open>Undefined universe parameters\<close>

text \<open>\<open>None\<close>: every parameter is declared. \<open>Some n\<close>: the first one that is not, which may be anonymous.\<close>

function get_undef_param_id ::
    "store option \<Rightarrow> store \<Rightarrow> u32 \<Rightarrow> u32 list \<Rightarrow> nat \<Rightarrow> u32 option option result" where
  "get_undef_param_id base st l ps d =
     andthen (level_row base st l) (\<lambda>row.
       case row of
         LZero \<Rightarrow> Inr None
       | LMVar _ \<Rightarrow> Inr None
       | LParam n \<Rightarrow>
           (case n of
              Some i \<Rightarrow> if i \<in> set ps then Inr None else Inr (Some n)
            | None \<Rightarrow> Inr (Some n))
       | LSucc a \<Rightarrow> enter d (\<lambda>d. get_undef_param_id base st a ps d)
       | LMax a b \<Rightarrow> enter d (\<lambda>d.
           andthen (get_undef_param_id base st a ps d) (\<lambda>r.
             case r of Some n \<Rightarrow> Inr (Some n) | None \<Rightarrow> get_undef_param_id base st b ps d))
       | LIMax a b \<Rightarrow> enter d (\<lambda>d.
           andthen (get_undef_param_id base st a ps d) (\<lambda>r.
             case r of Some n \<Rightarrow> Inr (Some n) | None \<Rightarrow> get_undef_param_id base st b ps d)))"
  by pat_completeness auto
termination
  by (relation "measure (\<lambda>(_, _, _, _, d). MAX_REC_DEPTH - d)") auto

declare get_undef_param_id.simps [simp del]

section \<open>Nodes and spines\<close>

definition is_app_node :: "node \<Rightarrow> bool" where
  "is_app_node nd = (case nd of NApp _ _ \<Rightarrow> True | _ \<Rightarrow> False)"

definition is_lam_node :: "node \<Rightarrow> bool" where
  "is_lam_node nd = (case nd of NLam _ _ _ _ \<Rightarrow> True | _ \<Rightarrow> False)"

definition is_forall_node :: "node \<Rightarrow> bool" where
  "is_forall_node nd = (case nd of NForall _ _ _ _ \<Rightarrow> True | _ \<Rightarrow> False)"

definition is_sort_node :: "node \<Rightarrow> bool" where
  "is_sort_node nd = (case nd of NSort _ \<Rightarrow> True | _ \<Rightarrow> False)"

text \<open>The three \<open>while let Node::App\<close> loops: the head, the arguments in the order they are met (last first),
  and their number.\<close>

partial_function (option) spine_loop :: "store option \<Rightarrow> store \<Rightarrow> u32 \<Rightarrow> u32 list \<Rightarrow> (u32 \<times> u32 list) result option" where
  "spine_loop base st cur args =
     (case expr_node base st cur of
        Inl e \<Rightarrow> Some (Inl e)
      | Inr nd \<Rightarrow>
          (case nd of
             NApp f a \<Rightarrow> spine_loop base st f (args @ [a])
           | _ \<Rightarrow> Some (Inr (cur, args))))"

declare spine_loop.simps [code]

definition get_app_fn :: "store option \<Rightarrow> u32 \<Rightarrow> store \<Rightarrow> u32 result" where
  "get_app_fn base e st = andthen (loop_result (spine_loop base st e [])) (\<lambda>(cur, _). Inr cur)"

definition get_app_args :: "store option \<Rightarrow> u32 \<Rightarrow> store \<Rightarrow> u32 list result" where
  "get_app_args base e st = andthen (loop_result (spine_loop base st e [])) (\<lambda>(_, args). Inr (rev args))"

definition get_app_num_args :: "store option \<Rightarrow> u32 \<Rightarrow> store \<Rightarrow> nat result" where
  "get_app_num_args base e st = andthen (loop_result (spine_loop base st e [])) (\<lambda>(_, args). Inr (length args))"

fun mk_app_spine :: "store option \<Rightarrow> u32 \<Rightarrow> u32 list \<Rightarrow> store \<Rightarrow> (u32 \<times> store) result" where
  "mk_app_spine base r [] st = Inr (r, st)"
| "mk_app_spine base r (a # args) st = andthen (expr_app base r a st) (\<lambda>(r, st). mk_app_spine base r args st)"

end
