(* ===== verification/Checker_Ids.thy ===== *)
theory Checker_Ids
  imports Checker_State Telescope
begin

text \<open>
  What the checker may rely on about an id: the sets of ids that denote a term with at most \<open>k\<close> loose
  variables, a name, a level or a list of levels; what a node tells about its children; and the spine of
  an application. A live term is less than \<open>2\<^sup>3\<^sup>2\<close> deep, because its subterms have different ids.
\<close>

section \<open>Depth\<close>

lemma deeper_child: "node_expr base st R nd e \<Longrightarrow> h < height e \<Longrightarrow> \<exists>c t. R c t \<and> h \<le> height t"
  by (cases nd) (auto simp: less_Suc_eq_le le_max_iff_disj, blast+)

lemma subterm_of_height: "expr_at base st i t \<Longrightarrow> h \<le> height t \<Longrightarrow> \<exists>j t'. expr_at base st j t' \<and> height t' = h"
proof (induction arbitrary: h rule: expr_at.induct)
  case (expr_at i nd e)
  have e: "expr_at base st i e"
    by (rule expr_at.expr_at [OF expr_at(1)], rule node_expr_mono [rule_format, OF _ expr_at(2)]) blast
  show ?case
  proof (cases "h = height e")
    case False
    with expr_at(3) have "h < height e" by simp
    from deeper_child [OF expr_at(2) this] show ?thesis by blast
  qed (use e in blast)
qed

lemma live_height:
  assumes ok: "banks_ok H base st" and e: "expr_at base st i t"
  shows "height t < 2 ^ 32"
proof -
  define f where "f h = (SOME j. \<exists>t'. expr_at base st j t' \<and> height t' = h)" for h
  have f: "\<exists>t'. expr_at base st (f h) t' \<and> height t' = h" if "h \<le> height t" for h
    unfolding f_def by (rule someI_ex) (rule subterm_of_height [OF e that])
  have "inj_on f {..height t}"
    by (rule inj_onI) (metis atMost_iff expr_at_det f)
  then have "card {..height t} \<le> card (UNIV :: u32 set)" by (rule card_inj_on_le) simp_all
  then show ?thesis by (simp add: card_word)
qed

section \<open>Ids that are in use\<close>

definition in_range :: "store option \<Rightarrow> store \<Rightarrow> nat \<Rightarrow> u32 set" where
  "in_range base st k = {e. \<exists>t. expr_at base st e t \<and> loose_range t \<le> k \<and> height t + k < 2 ^ 32}"

definition name_ids :: "store option \<Rightarrow> store \<Rightarrow> u32 option set" where
  "name_ids base st = {x. \<exists>n. name_at base st x n}"

definition level_ids :: "store option \<Rightarrow> store \<Rightarrow> u32 set" where
  "level_ids base st = {i. \<exists>l. level_at base st i l}"

definition list_ids :: "store option \<Rightarrow> store \<Rightarrow> u32 set" where
  "list_ids base st = {i. \<exists>ls. levels_at base st i ls}"

definition nat_ids :: "store option \<Rightarrow> store \<Rightarrow> u32 set" where
  "nat_ids base st = {q. nat_ent base st q \<noteq> None}"

definition str_ids :: "store option \<Rightarrow> store \<Rightarrow> u32 set" where
  "str_ids base st = {q. str_ent base st q \<noteq> None}"

lemma None_name_ids [simp]: "None \<in> name_ids base st"
  unfolding name_ids_def mem_Collect_eq by (rule exI [of _ Anonymous]) simp

lemma ids_grow:
  assumes "grows base st st'"
  shows "in_range base st k \<subseteq> in_range base st' k" and "name_ids base st \<subseteq> name_ids base st'"
    and "level_ids base st \<subseteq> level_ids base st'" and "list_ids base st \<subseteq> list_ids base st'"
    and "nat_ids base st \<subseteq> nat_ids base st'" and "str_ids base st \<subseteq> str_ids base st'"
  using assms
  by (auto simp: in_range_def name_ids_def level_ids_def list_ids_def nat_ids_def str_ids_def dest: growsD
      intro: denotes_grows expr_at_grows)

lemma closed_in_range: "banks_ok H base st \<Longrightarrow> expr_at base st e t \<Longrightarrow> loose_range t = 0 \<Longrightarrow> e \<in> in_range base st 0"
  using live_height by (fastforce simp: in_range_def)

lemma in_range_0: "e \<in> in_range base st 0 \<longleftrightarrow> (\<exists>t. expr_at base st e t \<and> loose_range t = 0 \<and> height t < 2 ^ 32)"
  by (simp add: in_range_def)

text \<open>What a node of a term with at most \<open>k\<close> loose variables has.\<close>

fun node_in :: "store option \<Rightarrow> store \<Rightarrow> nat \<Rightarrow> node \<Rightarrow> bool" where
  "node_in base st k (NBVar w) \<longleftrightarrow> unat w < k"
| "node_in base st k (NBVarBig q) \<longleftrightarrow> q \<in> nat_ids base st \<and> 0 < k"
| "node_in base st k (NFVar x) \<longleftrightarrow> x \<in> name_ids base st"
| "node_in base st k (NMVar x) \<longleftrightarrow> x \<in> name_ids base st"
| "node_in base st k (NSort l) \<longleftrightarrow> l \<in> level_ids base st"
| "node_in base st k (NConst x ls) \<longleftrightarrow> x \<in> name_ids base st \<and> ls \<in> list_ids base st"
| "node_in base st k (NApp f a) \<longleftrightarrow> f \<in> in_range base st k \<and> a \<in> in_range base st k"
| "node_in base st k (NLam x t b bi) \<longleftrightarrow>
     x \<in> name_ids base st \<and> t \<in> in_range base st k \<and> b \<in> in_range base st (Suc k)"
| "node_in base st k (NForall x t b bi) \<longleftrightarrow>
     x \<in> name_ids base st \<and> t \<in> in_range base st k \<and> b \<in> in_range base st (Suc k)"
| "node_in base st k (NLetE x t v b nd) \<longleftrightarrow>
     x \<in> name_ids base st \<and> t \<in> in_range base st k \<and> v \<in> in_range base st k \<and> b \<in> in_range base st (Suc k)"
| "node_in base st k (NLitNat q) \<longleftrightarrow> q \<in> nat_ids base st"
| "node_in base st k (NLitStr q) \<longleftrightarrow> q \<in> str_ids base st"
| "node_in base st k (NMData m c) \<longleftrightarrow> c \<in> in_range base st k"
| "node_in base st k (NProj x w c) \<longleftrightarrow> x \<in> name_ids base st \<and> c \<in> in_range base st k"
| "node_in base st k (NProjBig x q c) \<longleftrightarrow>
     x \<in> name_ids base st \<and> q \<in> nat_ids base st \<and> c \<in> in_range base st k"

lemma in_rangeI: "expr_at base st e t \<Longrightarrow> loose_range t \<le> k \<Longrightarrow> height t + k < 2 ^ 32 \<Longrightarrow> e \<in> in_range base st k"
  by (auto simp: in_range_def)

lemma node_in_range:
  assumes ok: "banks_ok H base st" and e: "e \<in> in_range base st k"
  obtains nd where "expr_node base st e = Inr nd" and "node_at base st e nd" and "node_in base st k nd"
proof -
  from e obtain t where t: "expr_at base st e t" "loose_range t \<le> k" "height t + k < 2 ^ 32" by (auto simp: in_range_def)
  from t(1) obtain nd where nd: "node_at base st e nd" "node_expr base st (expr_at base st) nd t" by (rule expr_atE)
  have "node_in base st k nd"
    using nd(2) t(2,3)
    by (cases nd)
      (auto simp: name_ids_def level_ids_def list_ids_def nat_ids_def str_ids_def le_diff_conv intro!: in_rangeI)
  from that [OF expr_node_ok [OF ok nd(1)] nd(1) this] show thesis .
qed

lemma node_in_grows: "node_in base st k nd \<Longrightarrow> grows base st st' \<Longrightarrow> node_in base st' k nd"
  by (cases nd) (auto intro: ids_grow [THEN subsetD])

section \<open>The cached word\<close>

lemma range_word:
  assumes ok: "banks_ok H base st" "terms_ok H base st" and e: "e \<in> in_range base st k"
  obtains w where "expr_data base st e = Inr w"
    and "d_loose_bvar_range w = 0 \<Longrightarrow> e \<in> in_range base st 0"
proof -
  from e obtain t where t: "expr_at base st e t" "height t + k < 2 ^ 32" by (auto simp: in_range_def)
  have "e \<in> in_range base st 0" if "d_loose_bvar_range (data_of H t) = 0"
    using range_ok_data_of [of H t] that t by (auto simp: range_ok_def in_range_0)
  from that [OF expr_data_ok [OF ok t(1)] this] show thesis .
qed

section \<open>Spines\<close>

definition is_spine :: "store option \<Rightarrow> store \<Rightarrow> nat \<Rightarrow> expr \<Rightarrow> u32 \<Rightarrow> u32 list \<Rightarrow> bool" where
  "is_spine base st k t f args \<longleftrightarrow> f \<in> in_range base st k \<and> set args \<subseteq> in_range base st k \<and> length args \<le> height t"

lemma spine_end:
  assumes ok: "banks_ok H base st" and e: "expr_at base st e t" and no: "\<forall>f a. t \<noteq> EApp f a"
  shows "spine_loop base st e acc = Some (Inr (e, acc))"
proof -
  from e obtain nd where nd: "node_at base st e nd" "node_expr base st (expr_at base st) nd t" by (rule expr_atE)
  with no show ?thesis by (subst spine_loop.simps) (cases nd; simp add: expr_node_ok [OF ok nd(1)])
qed

lemma spine_loop_ok:
  assumes ok: "banks_ok H base st"
  shows "expr_at base st e t \<Longrightarrow> loose_range t \<le> k \<Longrightarrow> height t + k < 2 ^ 32 \<Longrightarrow>
    \<exists>f args. spine_loop base st e acc = Some (Inr (f, acc @ args)) \<and> is_spine base st k t f args"
proof -
  have leaf: "\<exists>f args. spine_loop base st e acc = Some (Inr (f, acc @ args)) \<and> is_spine base st k t f args"
    if "expr_at base st e t" "loose_range t \<le> k" "height t + k < 2 ^ 32" "\<forall>f a. t \<noteq> EApp f a" for e t acc
    using spine_end [OF ok that(1,4), of acc] in_rangeI [OF that(1-3)]
    by (intro exI [of _ e] exI [of _ "[]"]) (simp add: is_spine_def)
  show "expr_at base st e t \<Longrightarrow> loose_range t \<le> k \<Longrightarrow> height t + k < 2 ^ 32 \<Longrightarrow>
    \<exists>f args. spine_loop base st e acc = Some (Inr (f, acc @ args)) \<and> is_spine base st k t f args"
  proof (induction t arbitrary: e acc)
    case (EApp ef ea)
    from EApp.prems(1) obtain nd where nd: "node_at base st e nd" "node_expr base st (expr_at base st) nd (EApp ef ea)"
      by (rule expr_atE)
    then obtain f a where fa: "nd = NApp f a" "expr_at base st f ef" "expr_at base st a ea" by (cases nd) auto
    have "loose_range ef \<le> k" "height ef + k < 2 ^ 32" using EApp.prems(2,3) by auto
    from EApp.IH(1) [OF fa(2) this, of "acc @ [a]"] obtain h args where
      h: "spine_loop base st f (acc @ [a]) = Some (Inr (h, (acc @ [a]) @ args))" "is_spine base st k ef h args" by blast
    have "spine_loop base st e acc = Some (Inr (h, acc @ a # args))"
      by (subst spine_loop.simps) (use h(1) in \<open>simp add: expr_node_ok [OF ok nd(1)] fa(1)\<close>)
    moreover have "a \<in> in_range base st k" by (rule in_rangeI [OF fa(3)]) (use EApp.prems(2,3) in auto)
    ultimately show ?case using h(2) unfolding is_spine_def
      by (intro exI [of _ h] exI [of _ "a # args"]) auto
  qed (rule leaf, assumption+, simp)+
qed

lemma spine_of:
  assumes ok: "banks_ok H base st" and e: "e \<in> in_range base st k"
  obtains f args where "spine_loop base st e [] = Some (Inr (f, args))" and "f \<in> in_range base st k"
    and "set args \<subseteq> in_range base st k" and "length args + k < 2 ^ 32"
proof -
  from e obtain t where t: "expr_at base st e t" "loose_range t \<le> k" "height t + k < 2 ^ 32" by (auto simp: in_range_def)
  from spine_loop_ok [OF ok t, of "[]"] t(3) that show thesis unfolding is_spine_def by fastforce
qed

section \<open>Writes\<close>

text \<open>A write that does not panic, and what it leaves.\<close>

definition safe :: "hashers \<Rightarrow> store option \<Rightarrow> store \<Rightarrow> ('a \<times> store) result \<Rightarrow> ('a \<Rightarrow> store \<Rightarrow> bool) \<Rightarrow> bool" where
  "safe H base st m Q \<longleftrightarrow> run (- {Panic}) m (\<lambda>(x, st'). good H base st st' \<and> Q x st')"

lemma safe_runs: "runs H base E c K st m P \<Longrightarrow> Panic \<notin> E \<Longrightarrow> (\<And>x st'. good H base st st' \<Longrightarrow> P x st' \<Longrightarrow> Q x st') \<Longrightarrow> safe H base st m Q"
  unfolding safe_def runs_def by (erule run_mono) (auto simp: full_cases)

lemma Panic_deep [simp]: "Panic \<notin> deep n"
  by (simp add: deep_def)

lemma safe_return: "wf H base st \<Longrightarrow> Q x st \<Longrightarrow> safe H base st (Inr (x, st)) Q"
  by (simp add: safe_def good_refl)

lemma safe_bind:
  assumes "safe H base st m P" and "\<And>x st'. good H base st st' \<Longrightarrow> P x st' \<Longrightarrow> safe H base st' (f (x, st')) Q"
  shows "safe H base st (andthen m f) Q"
  using assms(1) unfolding safe_def
proof (rule run_bind2)
  fix x st' assume "good H base st st' \<and> P x st'"
  with assms(2) have g: "good H base st st'" and "safe H base st' (f (x, st')) Q" by blast+
  from this(2) show "run (- {Panic}) (f (x, st')) (\<lambda>(x, st'). good H base st st' \<and> Q x st')"
    unfolding safe_def by (rule run_mono) (use good_trans [OF g] in auto)
qed

lemma good_closed: "good H base st st' \<Longrightarrow> expr_at base st' e t \<Longrightarrow> loose_range t = 0 \<Longrightarrow> e \<in> in_range base st' 0"
  by (rule closed_in_range [OF wf_banks [OF goodD(1)]])

lemma yields_closed:
  assumes "yields H base n c t st m" and "loose_range t = 0"
  shows "safe H base st m (\<lambda>r st'. r \<in> in_range base st' 0)"
  by (rule safe_runs [OF assms(1) [unfolded yields_def]])
    (use assms(2) in \<open>auto intro: closed_in_range wf_banks dest: goodD(1)\<close>)

lemma closed_trees: "set xs \<subseteq> in_range base st 0 \<Longrightarrow> \<exists>ts. list_all2 (expr_at base st) xs ts \<and> (\<forall>t \<in> set ts. loose_range t = 0)"
proof (induction xs)
  case (Cons x xs)
  then obtain t ts where "expr_at base st x t" "loose_range t = 0" "list_all2 (expr_at base st) xs ts" "\<forall>t \<in> set ts. loose_range t = 0"
    by (auto simp: in_range_0)
  then show ?case by (intro exI [of _ "t # ts"]) simp
qed simp

lemma instantiate_rev_safe:
  assumes twf: "twf H base st" and e: "e \<in> in_range base st k" and xs: "set xs \<subseteq> in_range base st 0"
    and k: "k \<le> length xs" and len: "length xs < 2 ^ 64"
  shows "safe H base st (instantiate_rev H base e xs g st) (\<lambda>r st'. r \<in> in_range base st' 0)"
proof -
  from e obtain t where t: "expr_at base st e t" "loose_range t \<le> k" by (auto simp: in_range_def)
  from closed_trees [OF xs] obtain ts where ts: "list_all2 (expr_at base st) xs ts" "\<forall>t \<in> set ts. loose_range t = 0" by blast
  with list_all2_lengthD [OF ts(1)] t(2) k have "loose_range (inst 0 (rev ts) t) = 0" by (intro inst_closes) auto
  with instantiate_rev_ok [OF twf t(1) ts(1)] len list_all2_lengthD [OF ts(1)] show ?thesis
    by (auto intro: yields_closed)
qed

lemma instantiate_safe:
  assumes twf: "twf H base st" and e: "e \<in> in_range base st (Suc 0)" and a: "a \<in> in_range base st 0"
  shows "safe H base st (instantiate H base e a g st) (\<lambda>r st'. r \<in> in_range base st' 0)"
proof -
  from e obtain t where t: "expr_at base st e t" "loose_range t \<le> Suc 0" by (auto simp: in_range_def)
  from a obtain x where x: "expr_at base st a x" "loose_range x = 0" by (auto simp: in_range_0)
  from t(2) x(2) have "loose_range (inst 0 [x] t) = 0" by (intro inst_closes) auto
  with instantiate_ok [OF twf t(1) x(1)] show ?thesis by (rule yields_closed)
qed

lemma loose_inst_lparams: "loose_range (tmap (lparams_leaf ps as) k t) = loose_range t"
  by (induction t arbitrary: k) (auto simp: lparams_leaf_def)

lemma names_at: "Some ` set ps \<subseteq> name_ids base st \<Longrightarrow> \<exists>ns. list_all2 (\<lambda>i n. name_at base st (Some i) n) ps ns"
proof (induction ps)
  case (Cons p ps)
  then obtain n ns where "name_at base st (Some p) n" "list_all2 (\<lambda>i n. name_at base st (Some i) n) ps ns"
    by (auto simp: name_ids_def)
  then show ?case by (intro exI [of _ "n # ns"]) simp
qed (rule exI [of _ "[]"], simp)

lemma levels_of: "set ls \<subseteq> level_ids base st \<Longrightarrow> \<exists>ts. list_all2 (level_at base st) ls ts"
proof (induction ls)
  case (Cons l ls)
  then obtain t ts where "level_at base st l t" "list_all2 (level_at base st) ls ts" by (auto simp: level_ids_def)
  then show ?case by (intro exI [of _ "t # ts"]) simp
qed (rule exI [of _ "[]"], simp)

lemma instantiate_lparams_safe:
  assumes twf: "twf H base st" and e: "e \<in> in_range base st 0" and ps: "Some ` set ps \<subseteq> name_ids base st"
    and ls: "set ls \<subseteq> level_ids base st"
  shows "safe H base st (instantiate_level_params H base e ps ls g st) (\<lambda>r st'. r \<in> in_range base st' 0)"
proof -
  from e obtain t where t: "expr_at base st e t" "loose_range t = 0" by (auto simp: in_range_0)
  from names_at [OF ps] obtain ns where ns: "list_all2 (\<lambda>i n. name_at base st (Some i) n) ps ns" by blast
  from levels_of [OF ls] obtain ts where ts: "list_all2 (level_at base st) ls ts" by blast
  show ?thesis
    by (rule yields_closed [OF instantiate_level_params_ok [OF twf t(1) ns ts]])
      (simp add: inst_lparams_def loose_inst_lparams t(2))
qed

lemma app_safe:
  assumes twf: "twf H base st" and f: "f \<in> in_range base st 0" and a: "a \<in> in_range base st 0"
  shows "safe H base st (expr_app base f a st) (\<lambda>r st'. r \<in> in_range base st' 0)"
proof -
  from f a obtain tf ta where t: "expr_at base st f tf" "expr_at base st a ta" "loose_range tf = 0" "loose_range ta = 0"
    by (auto simp: in_range_0)
  show ?thesis
    by (rule safe_runs [OF expr_app_ok [OF twf t(1,2)]], simp, erule (1) good_closed) (simp add: t(3,4))
qed

lemma mk_app_spine_safe:
  "twf H base st \<Longrightarrow> f \<in> in_range base st 0 \<Longrightarrow> set args \<subseteq> in_range base st 0 \<Longrightarrow>
     safe H base st (mk_app_spine base f args st) (\<lambda>r st'. r \<in> in_range base st' 0)"
proof (induction args arbitrary: f st)
  case Nil
  then show ?case by (simp add: safe_return twfD(1))
next
  case (Cons a args)
  have a: "a \<in> in_range base st 0" using Cons.prems(3) by simp
  show ?case
    unfolding mk_app_spine.simps
  proof (rule safe_bind [OF app_safe [OF Cons.prems(1,2) a]], unfold prod.case)
    fix r st' assume g: "good H base st st'" and r: "r \<in> in_range base st' 0"
    have "set args \<subseteq> in_range base st' 0" using Cons.prems(3) ids_grow(1) [OF goodD(2) [OF g]] by auto
    with Cons.IH [OF twf_good [OF Cons.prems(1) g] r] show "safe H base st' (mk_app_spine base r args st') (\<lambda>r st'. r \<in> in_range base st' 0)" .
  qed
qed

section \<open>The other constructors\<close>

lemma const_safe:
  assumes twf: "twf H base st" and n: "n \<in> name_ids base st" and ls: "ls \<in> list_ids base st"
  shows "safe H base st (expr_const base n ls st) (\<lambda>r st'. r \<in> in_range base st' 0)"
proof -
  from n ls obtain nm lv where t: "name_at base st n nm" "levels_at base st ls lv" by (auto simp: name_ids_def list_ids_def)
  show ?thesis by (rule safe_runs [OF expr_const_ok [OF twf t]], simp, erule (1) good_closed) simp
qed

lemma sort_safe:
  assumes twf: "twf H base st" and l: "l \<in> level_ids base st"
  shows "safe H base st (expr_sort base l st) (\<lambda>r st'. r \<in> in_range base st' 0)"
proof -
  from l obtain t where t: "level_at base st l t" by (auto simp: level_ids_def)
  show ?thesis by (rule safe_runs [OF expr_sort_ok [OF twf t]], simp, erule (1) good_closed) simp
qed

lemma lit_nat_safe:
  "twf H base st \<Longrightarrow> safe H base st (expr_lit_nat H base n st) (\<lambda>r st'. r \<in> in_range base st' 0)"
  by (rule safe_runs [OF expr_lit_nat_ok], assumption, simp, erule (1) good_closed) simp

lemma proj_safe:
  assumes twf: "twf H base st" and n: "n \<in> name_ids base st" and e: "e \<in> in_range base st 0"
  shows "safe H base st (expr_proj H base n k e st) (\<lambda>r st'. r \<in> in_range base st' 0)"
proof -
  from n e obtain nm t where t: "name_at base st n nm" "expr_at base st e t" "loose_range t = 0"
    by (auto simp: name_ids_def in_range_0)
  show ?thesis by (rule safe_runs [OF expr_proj_ok [OF twf t(1,2)]], simp, erule (1) good_closed) (simp add: t(3))
qed

text \<open>The body of an eta expansion has one loose variable.\<close>

definition bodies :: "store option \<Rightarrow> store \<Rightarrow> u32 set" where
  "bodies base st = {e. \<exists>t. expr_at base st e t \<and> loose_range t \<le> 1}"

lemma bodies_grow: "grows base st st' \<Longrightarrow> bodies base st \<subseteq> bodies base st'"
  by (auto simp: bodies_def intro: expr_at_grows)

lemma bodies_range: "e \<in> in_range base st 0 \<Longrightarrow> e \<in> bodies base st"
  by (auto simp: bodies_def in_range_def)

lemma bvar0_safe: "twf H base st \<Longrightarrow> safe H base st (expr_bvar H base 0 st) (\<lambda>r st'. r \<in> bodies base st')"
  by (rule safe_runs [OF expr_bvar_ok]) (auto simp: bodies_def)

lemma body_app_safe:
  assumes twf: "twf H base st" and f: "f \<in> bodies base st" and a: "a \<in> bodies base st"
  shows "safe H base st (expr_app base f a st) (\<lambda>r st'. r \<in> bodies base st')"
proof -
  from f a obtain tf ta where t: "expr_at base st f tf" "expr_at base st a ta" "loose_range tf \<le> 1" "loose_range ta \<le> 1"
    by (auto simp: bodies_def)
  show ?thesis by (rule safe_runs [OF expr_app_ok [OF twf t(1,2)]]) (use t(3,4) in \<open>auto simp: bodies_def\<close>)
qed

lemma lam_safe:
  assumes twf: "twf H base st" and n: "n \<in> name_ids base st" and t: "ty \<in> in_range base st 0" and b: "b \<in> bodies base st"
  shows "safe H base st (expr_lam base n ty b bi st) (\<lambda>r st'. r \<in> in_range base st' 0)"
proof -
  from n t b obtain nm tt tb where t: "name_at base st n nm" "expr_at base st ty tt" "loose_range tt = 0"
      "expr_at base st b tb" "loose_range tb \<le> 1"
    by (auto simp: name_ids_def in_range_0 bodies_def)
  show ?thesis by (rule safe_runs [OF expr_lam_ok [OF twf t(1,2,4)]], simp, erule (1) good_closed) (use t(3,5) in simp)
qed

lemma level_safe:
  assumes twf: "twf H base st"
  shows "safe H base st (level_zero base st) (\<lambda>r st'. r \<in> level_ids base st')"
    and "l \<in> level_ids base st \<Longrightarrow> safe H base st (level_succ base l st) (\<lambda>r st'. r \<in> level_ids base st')"
    and "safe H base st (intern_level H base t st) (\<lambda>r st'. r \<in> level_ids base st')"
proof -
  show "safe H base st (level_zero base st) (\<lambda>r st'. r \<in> level_ids base st')"
    by (rule safe_runs [OF level_zero_ok [OF twfD(1) [OF twf], unfolded makes_def]]) (auto simp: level_ids_def)
  show "safe H base st (intern_level H base t st) (\<lambda>r st'. r \<in> level_ids base st')"
    by (rule safe_runs [OF intern_level_ok [OF twfD(1) [OF twf], unfolded makes_def]]) (auto simp: level_ids_def)
  assume "l \<in> level_ids base st"
  then obtain a where "level_at base st l a" by (auto simp: level_ids_def)
  from level_succ_ok [OF twfD(1) [OF twf] this, unfolded makes_def]
  show "safe H base st (level_succ base l st) (\<lambda>r st'. r \<in> level_ids base st')"
    by (rule safe_runs) (auto simp: level_ids_def)
qed

lemma list_safe:
  assumes twf: "twf H base st" and ls: "set ls \<subseteq> level_ids base st"
  shows "safe H base st (intern_level_list H base ls st) (\<lambda>r st'. r \<in> list_ids base st')"
proof -
  from levels_of [OF ls] obtain ts where "list_all2 (level_at base st) ls ts" by blast
  from runs_level_list [OF twf this, of "{}"] show ?thesis by (rule safe_runs) (auto simp: list_ids_def)
qed

lemma str_safe: "wf H base st \<Longrightarrow> safe H base st (intern_str H base part st) (\<lambda>q st'. str_ent base st' q = Some part)"
  by (rule safe_runs [OF intern_str_ok]) auto

lemma mk_name1_safe:
  assumes twf: "twf H base st"
  shows "safe H base st (mk_name1_id H base part st) (\<lambda>r st'. name_at base st' (Some r) (Str Anonymous part))"
  unfolding mk_name1_id_def
proof (rule safe_bind [OF str_safe [OF twfD(1) [OF twf]]], unfold prod.case)
  fix q st' assume g: "good H base st st'" and q: "str_ent base st' q = Some part"
  show "safe H base st' (name_str H base None q st') (\<lambda>r st'. name_at base st' (Some r) (Str Anonymous part))"
    by (rule safe_runs [OF name_str_ok [OF goodD(1) [OF g] _ q]]) auto
qed

lemma mk_name2_safe:
  assumes twf: "twf H base st"
  shows "safe H base st (mk_name2_id H base a b st) (\<lambda>r st'. name_at base st' (Some r) (Str (Str Anonymous a) b))"
  unfolding mk_name2_id_def
proof (rule safe_bind [OF mk_name1_safe [OF twf]], unfold prod.case)
  fix p st1 assume g: "good H base st st1" and p: "name_at base st1 (Some p) (Str Anonymous a)"
  show "safe H base st1 (andthen (intern_str H base b st1) (\<lambda>(q, st). name_str H base (Some p) q st))
      (\<lambda>r st'. name_at base st' (Some r) (Str (Str Anonymous a) b))"
  proof (rule safe_bind [OF str_safe [OF goodD(1) [OF g]]], unfold prod.case)
    fix q st2 assume g2: "good H base st1 st2" and q: "str_ent base st2 q = Some b"
    have "name_at base st2 (Some p) (Str Anonymous a)" using p goodD(2) [OF g2] by (rule name_at_grows)
    from name_str_ok [OF goodD(1) [OF g2] this q] show "safe H base st2 (name_str H base (Some p) q st2)
        (\<lambda>r st'. name_at base st' (Some r) (Str (Str Anonymous a) b))"
      by (rule safe_runs) auto
  qed
qed

end
