(* ===== verification/Checker_Whnf.thy ===== *)
theory Checker_Whnf
  imports Checker_State
begin

text \<open>
  Reduction to weak head normal form (\<open>tc.rs\<close>, and \<open>quot_red.rs\<close> for quotients): beta, zeta, projections,
  recursors, natural number literals and unfolding.

  The methods of the checker call each other without end in sight: unfolding may go on for ever. The
  methods through which the recursion goes are the fields of a record \<open>calls\<close>, which every method gets
  as its argument \<open>K\<close>; \<open>Checker_Run\<close> ties the knot with a bound on the depth of the calls. The
  unbounded \<open>loop\<close>s are fields of their own, one call for each round.
\<close>

datatype lbool = LTrue | LFalse | LUndef

definition to_lbool :: "bool \<Rightarrow> lbool" where
  "to_lbool b = (if b then LTrue else LFalse)"

record calls =
  k_whnf :: "u32 \<Rightarrow> u32 tcm"
  k_whnf_core :: "u32 \<Rightarrow> bool \<Rightarrow> bool \<Rightarrow> u32 tcm"
  k_infer_type_core :: "u32 \<Rightarrow> bool \<Rightarrow> u32 tcm"
  k_is_def_eq_core :: "u32 \<Rightarrow> u32 \<Rightarrow> bool tcm"
  k_whnf_loop :: "u32 \<Rightarrow> u32 \<Rightarrow> u32 tcm"
  k_lambda_loop :: "bool \<Rightarrow> u32 \<Rightarrow> u32 list \<Rightarrow> (u32 \<times> u32 list) tcm"
  k_pi_loop :: "bool \<Rightarrow> u32 \<Rightarrow> u32 list \<Rightarrow> u32 list \<Rightarrow> (u32 \<times> u32 list \<times> u32 list) tcm"
  k_let_loop :: "bool \<Rightarrow> u32 \<Rightarrow> u32 list \<Rightarrow> (u32 \<times> u32 list) tcm"
  k_binding_loop :: "bool \<Rightarrow> u32 \<Rightarrow> u32 \<Rightarrow> u32 list \<Rightarrow> (u32 \<times> u32 \<times> u32 list) option tcm"
  k_args_loop :: "u32 \<Rightarrow> u32 \<Rightarrow> bool tcm"
  k_lazy_delta_loop :: "u32 \<Rightarrow> u32 \<Rightarrow> (lbool \<times> u32 \<times> u32) tcm"
  k_lazy_proj_loop :: "u32 \<Rightarrow> u32 \<Rightarrow> nat \<Rightarrow> bool tcm"

section \<open>Helpers on \<open>self\<close>\<close>

definition tc_node :: "env_view \<Rightarrow> u32 \<Rightarrow> node tcm" where
  "tc_node V e = reads (\<lambda>st. expr_node (view_base V) st e)"

definition tc_data :: "env_view \<Rightarrow> u32 \<Rightarrow> u64 tcm" where
  "tc_data V e = reads (\<lambda>st. expr_data (view_base V) st e)"

definition has_loose_bvars :: "env_view \<Rightarrow> u32 \<Rightarrow> bool tcm" where
  "has_loose_bvars V e = after (tc_data V e) (\<lambda>w. give (d_loose_bvar_range w \<noteq> 0))"

definition tc_get_app_fn :: "env_view \<Rightarrow> u32 \<Rightarrow> u32 tcm" where
  "tc_get_app_fn V e = reads (get_app_fn (view_base V) e)"

definition tc_get_app_args :: "env_view \<Rightarrow> u32 \<Rightarrow> u32 list tcm" where
  "tc_get_app_args V e = reads (get_app_args (view_base V) e)"

definition tc_get_app_num_args :: "env_view \<Rightarrow> u32 \<Rightarrow> nat tcm" where
  "tc_get_app_num_args V e = reads (get_app_num_args (view_base V) e)"

definition tc_mk_app_spine :: "env_view \<Rightarrow> u32 \<Rightarrow> u32 list \<Rightarrow> u32 tcm" where
  "tc_mk_app_spine V f args = writes (mk_app_spine (view_base V) f args)"

definition is_app :: "env_view \<Rightarrow> u32 \<Rightarrow> bool tcm" where
  "is_app V e = after (tc_node V e) (\<lambda>nd. give (is_app_node nd))"

definition is_lambda :: "env_view \<Rightarrow> u32 \<Rightarrow> bool tcm" where
  "is_lambda V e = after (tc_node V e) (\<lambda>nd. give (is_lam_node nd))"

definition is_forall :: "env_view \<Rightarrow> u32 \<Rightarrow> bool tcm" where
  "is_forall V e = after (tc_node V e) (\<lambda>nd. give (is_forall_node nd))"

definition is_sort :: "env_view \<Rightarrow> u32 \<Rightarrow> bool tcm" where
  "is_sort V e = after (tc_node V e) (\<lambda>nd. give (is_sort_node nd))"

definition is_proj :: "env_view \<Rightarrow> u32 \<Rightarrow> bool tcm" where
  "is_proj V e = after (tc_node V e) (\<lambda>nd. give (is_proj_node nd))"

definition proj_parts :: "env_view \<Rightarrow> node \<Rightarrow> (u32 option \<times> nat \<times> u32) tcm" where
  "proj_parts V nd = reads (\<lambda>st. proj_parts_of (view_base V) st nd)"

definition binder_dom_body :: "env_view \<Rightarrow> u32 \<Rightarrow> (u32 \<times> u32) tcm" where
  "binder_dom_body V e = after (tc_node V e) (\<lambda>nd.
     case nd of
       NLam _ t b _ \<Rightarrow> give (t, b)
     | NForall _ t b _ \<Rightarrow> give (t, b)
     | _ \<Rightarrow> fail Panic)"

definition binder_full :: "env_view \<Rightarrow> u32 \<Rightarrow> (u32 \<times> u32 \<times> u32 option \<times> binder_info) tcm" where
  "binder_full V e = after (tc_node V e) (\<lambda>nd.
     case nd of
       NLam n t b bi \<Rightarrow> give (t, b, n, bi)
     | NForall n t b bi \<Rightarrow> give (t, b, n, bi)
     | _ \<Rightarrow> fail Panic)"

definition tc_level_list :: "env_view \<Rightarrow> u32 \<Rightarrow> u32 list tcm" where
  "tc_level_list V ls = reads (\<lambda>st. level_list_at (view_base V) st ls)"

definition const_levels_of_head :: "env_view \<Rightarrow> u32 \<Rightarrow> u32 list tcm" where
  "const_levels_of_head V e =
     after (tc_get_app_fn V e) (\<lambda>f. after (tc_node V f) (\<lambda>nd.
       case nd of NConst _ ls \<Rightarrow> tc_level_list V ls | _ \<Rightarrow> give []))"

definition node_const_name :: "node \<Rightarrow> u32 option" where
  "node_const_name nd = (case nd of NConst n _ \<Rightarrow> n | _ \<Rightarrow> None)"

definition const_name :: "env_view \<Rightarrow> u32 \<Rightarrow> u32 option tcm" where
  "const_name V e = after (tc_node V e) (\<lambda>nd. give (node_const_name nd))"

definition is_const_named :: "env_view \<Rightarrow> u32 \<Rightarrow> u32 \<Rightarrow> bool tcm" where
  "is_const_named V e n = after (const_name V e) (\<lambda>x. give (x = Some n))"

definition env_get :: "env_view \<Rightarrow> u32 option \<Rightarrow> constant_info option" where
  "env_get V n = Option.bind n (view_get V)"

definition tc_to_name :: "env_view \<Rightarrow> u32 \<Rightarrow> name tcm" where
  "tc_to_name V i = reads (\<lambda>st. to_name (view_base V) st (Some i))"

definition env_get_with :: "env_view \<Rightarrow> u32 option \<Rightarrow> constant_info tcm" where
  "env_get_with V n =
     (case n of
        Some i \<Rightarrow>
          (case view_get V i of
             Some info \<Rightarrow> give info
           | None \<Rightarrow> after (tc_to_name V i) (\<lambda>nm. fail (UnknownConstant nm)))
      | None \<Rightarrow> fail (UnknownConstant Anonymous))"

definition check_no_metavar_no_fvar :: "env_view \<Rightarrow> u32 \<Rightarrow> u32 \<Rightarrow> unit tcm" where
  "check_no_metavar_no_fvar V n e =
     after (tc_data V e) (\<lambda>d.
       if d_has_expr_mvar d \<or> d_has_level_mvar d then after (tc_to_name V n) (\<lambda>nm. fail (HasMetavars nm))
       else if d_has_fvar d then after (tc_to_name V n) (\<lambda>nm. fail (HasFVars nm))
       else give ())"

definition nat_binop_id :: "env_view \<Rightarrow> u32 option \<Rightarrow> string option tcm" where
  "nat_binop_id V n =
     (case n of
        None \<Rightarrow> give None
      | Some i \<Rightarrow>
          after (reads (\<lambda>st. name_row (view_base V) st i)) (\<lambda>row.
            case row of
              NStr (Some p) part \<Rightarrow>
                after (reads (\<lambda>st. name_row (view_base V) st p)) (\<lambda>prow.
                  case prow of
                    NStr None nat_part \<Rightarrow>
                      after (reads (\<lambda>st. str_at (view_base V) st nat_part)) (\<lambda>s.
                        if s = ''Nat'' then after (reads (\<lambda>st. str_at (view_base V) st part)) (\<lambda>op. give (Some op))
                        else give None)
                  | _ \<Rightarrow> give None)
            | _ \<Rightarrow> give None))"

definition no_levels :: "hashers \<Rightarrow> env_view \<Rightarrow> u32 tcm" where
  "no_levels H V = writes (intern_level_list H (view_base V) [])"

definition tc_const :: "env_view \<Rightarrow> u32 \<Rightarrow> u32 \<Rightarrow> u32 tcm" where
  "tc_const V n ls = writes (expr_const (view_base V) (Some n) ls)"

definition tc_app :: "env_view \<Rightarrow> u32 \<Rightarrow> u32 \<Rightarrow> u32 tcm" where
  "tc_app V f a = writes (expr_app (view_base V) f a)"

definition tc_lit_nat :: "hashers \<Rightarrow> env_view \<Rightarrow> nat \<Rightarrow> u32 tcm" where
  "tc_lit_nat H V n = writes (expr_lit_nat H (view_base V) n)"

definition tc_proj :: "hashers \<Rightarrow> env_view \<Rightarrow> u32 option \<Rightarrow> nat \<Rightarrow> u32 \<Rightarrow> u32 tcm" where
  "tc_proj H V n k e = writes (expr_proj H (view_base V) n k e)"

definition tc_instantiate_rev :: "hashers \<Rightarrow> env_view \<Rightarrow> u32 \<Rightarrow> u32 list \<Rightarrow> u32 tcm" where
  "tc_instantiate_rev H V e xs = guard_writes (instantiate_rev H (view_base V) e xs)"

definition tc_instantiate :: "hashers \<Rightarrow> env_view \<Rightarrow> u32 \<Rightarrow> u32 \<Rightarrow> u32 tcm" where
  "tc_instantiate H V e x = guard_writes (instantiate H (view_base V) e x)"

definition tc_instantiate_lparams :: "hashers \<Rightarrow> env_view \<Rightarrow> u32 \<Rightarrow> u32 list \<Rightarrow> u32 list \<Rightarrow> u32 tcm" where
  "tc_instantiate_lparams H V e ps ls = guard_writes (instantiate_level_params H (view_base V) e ps ls)"

definition infer_type :: "calls \<Rightarrow> u32 \<Rightarrow> u32 tcm" where
  "infer_type K e = k_infer_type_core K e True"

text \<open>\<open>is_def_eq\<close> records an equality that it found.\<close>

definition is_def_eq :: "calls \<Rightarrow> u32 \<Rightarrow> u32 \<Rightarrow> bool tcm" where
  "is_def_eq K t s' =
     after (k_is_def_eq_core K t s') (\<lambda>r.
       if r then (\<lambda>s. andthen (uf_merge t s' (tc_eqv_cache s)) (\<lambda>uf. Inr (True, s\<lparr>tc_eqv_cache := uf\<rparr>)))
       else give False)"

section \<open>Literals\<close>

text \<open>\<open>s.chars()\<close> on the UTF-8 bytes of a string: the code points.\<close>

fun utf8_chars :: "nat list \<Rightarrow> nat list" where
  "utf8_chars [] = []"
| "utf8_chars (x # xs) =
     (if x < 0x80 then x # utf8_chars xs
      else if x < 0xE0 then
        (case xs of y # r \<Rightarrow> ((x mod 0x20) * 0x40 + y mod 0x40) # utf8_chars r | _ \<Rightarrow> [])
      else if x < 0xF0 then
        (case xs of y # z # r \<Rightarrow> ((x mod 0x20) * 0x1000 + (y mod 0x40) * 0x40 + z mod 0x40) # utf8_chars r | _ \<Rightarrow> [])
      else
        (case xs of y # z # w # r \<Rightarrow>
           ((x mod 8) * 0x40000 + (y mod 0x40) * 0x1000 + (z mod 0x40) * 0x40 + w mod 0x40) # utf8_chars r
         | _ \<Rightarrow> []))"

definition chars_of :: "string \<Rightarrow> nat list" where
  "chars_of s = utf8_chars (map of_char s)"

text \<open>The loop over the characters, from the last one.\<close>

fun char_list_loop :: "hashers \<Rightarrow> env_view \<Rightarrow> u32 \<Rightarrow> u32 \<Rightarrow> nat list \<Rightarrow> u32 \<Rightarrow> u32 tcm" where
  "char_list_loop H V cons_char char_of_nat [] r = give r"
| "char_list_loop H V cons_char char_of_nat (cp # cps) r =
     after (tc_lit_nat H V cp) (\<lambda>lit.
     after (tc_app V char_of_nat lit) (\<lambda>c.
     after (tc_app V cons_char c) (\<lambda>step1.
     after (tc_app V step1 r) (\<lambda>r. char_list_loop H V cons_char char_of_nat cps r))))"

definition string_lit_to_constructor :: "hashers \<Rightarrow> env_view \<Rightarrow> string \<Rightarrow> u32 tcm" where
  "string_lit_to_constructor H V str =
     after (writes (level_zero (view_base V))) (\<lambda>zero.
     after (no_levels H V) (\<lambda>none.
     after (writes (intern_level_list H (view_base V) [zero])) (\<lambda>zero_list.
     after (writes (mk_name1_id H (view_base V) ''Char'')) (\<lambda>char_name.
     after (tc_const V char_name none) (\<lambda>char_ty.
     after (writes (mk_name2_id H (view_base V) ''List'' ''nil'')) (\<lambda>list_nil_name.
     after (tc_const V list_nil_name zero_list) (\<lambda>list_nil.
     after (writes (mk_name2_id H (view_base V) ''List'' ''cons'')) (\<lambda>list_cons_name.
     after (tc_const V list_cons_name zero_list) (\<lambda>list_cons.
     after (writes (mk_name2_id H (view_base V) ''Char'' ''ofNat'')) (\<lambda>char_of_nat_name.
     after (tc_const V char_of_nat_name none) (\<lambda>char_of_nat.
     after (writes (mk_name2_id H (view_base V) ''String'' ''ofList'')) (\<lambda>string_mk_name.
     after (tc_const V string_mk_name none) (\<lambda>string_mk_const.
     after (tc_app V list_nil char_ty) (\<lambda>nil.
     after (tc_app V list_cons char_ty) (\<lambda>cons_char.
     after (char_list_loop H V cons_char char_of_nat (rev (chars_of str)) nil) (\<lambda>r.
       tc_app V string_mk_const r))))))))))))))))"

definition nat_lit_to_constructor :: "hashers \<Rightarrow> env_view \<Rightarrow> u32 \<Rightarrow> u32 tcm" where
  "nat_lit_to_constructor H V e =
     after (tc_node V e) (\<lambda>nd.
       case nd of
         NLitNat q \<Rightarrow>
           after (reads (\<lambda>st. nat_at (view_base V) st q)) (\<lambda>v.
             if v = 0 then
               after (no_levels H V) (\<lambda>none. after (look tc_nat_zero) (\<lambda>z. tc_const V z none))
             else
               after (tc_lit_nat H V (v - 1)) (\<lambda>pred.
               after (no_levels H V) (\<lambda>none.
               after (look tc_nat_succ) (\<lambda>sc.
               after (tc_const V sc none) (\<lambda>succ. tc_app V succ pred)))))
       | _ \<Rightarrow> give e)"

section \<open>Natural numbers\<close>

definition REDUCE_POW_MAX_EXP :: nat where
  "REDUCE_POW_MAX_EXP = 2 ^ 24"

definition bool_const :: "hashers \<Rightarrow> env_view \<Rightarrow> bool \<Rightarrow> u32 tcm" where
  "bool_const H V b =
     after (look (\<lambda>s. if b then tc_bool_true s else tc_bool_false s)) (\<lambda>n.
     after (no_levels H V) (\<lambda>none. tc_const V n none))"

definition get_nat_lit_ext :: "hashers \<Rightarrow> env_view \<Rightarrow> calls \<Rightarrow> u32 \<Rightarrow> nat option tcm" where
  "get_nat_lit_ext H V K e =
     after (k_whnf K e) (\<lambda>w. after (tc_node V w) (\<lambda>nd.
       case nd of
         NLitNat q \<Rightarrow> after (reads (\<lambda>st. nat_at (view_base V) st q)) (\<lambda>v. give (Some v))
       | NConst n _ \<Rightarrow> after (look tc_nat_zero) (\<lambda>z. give (if n = Some z then Some 0 else None))
       | _ \<Rightarrow> give None))"

text \<open>
  The operations of \<open>num.rs\<close> on literals. \<open>Some (Inl n)\<close> is a number, \<open>Some (Inr b)\<close> a truth value,
  \<open>None\<close> leaves the application as it is.
\<close>

definition nat_sub :: "nat \<Rightarrow> nat \<Rightarrow> nat" where
  "nat_sub a b = (if a \<ge> b then a - b else 0)"

definition nat_div :: "nat \<Rightarrow> nat \<Rightarrow> nat" where
  "nat_div a b = (if b = 0 then 0 else a div b)"

definition nat_modulo :: "nat \<Rightarrow> nat \<Rightarrow> nat" where
  "nat_modulo a b = (if b = 0 then a else a mod b)"

fun nat_gcd :: "nat \<Rightarrow> nat \<Rightarrow> nat" where
  "nat_gcd a b = (if b = 0 then a else nat_gcd b (a mod b))"

declare nat_gcd.simps [simp del]

definition nat_binop :: "string \<Rightarrow> nat \<Rightarrow> nat \<Rightarrow> (nat + bool) option" where
  "nat_binop op v1 v2 =
     (if op = ''add'' then Some (Inl (v1 + v2))
      else if op = ''sub'' then Some (Inl (nat_sub v1 v2))
      else if op = ''mul'' then Some (Inl (v1 * v2))
      else if op = ''gcd'' then Some (Inl (nat_gcd v1 v2))
      else if op = ''mod'' then Some (Inl (nat_modulo v1 v2))
      else if op = ''div'' then Some (Inl (nat_div v1 v2))
      else if op = ''land'' then Some (Inl (v1 AND v2))
      else if op = ''lor'' then Some (Inl (v1 OR v2))
      else if op = ''xor'' then Some (Inl (v1 XOR v2))
      else if op = ''pow'' then
        (case nat_to_usize v2 of
           Some k \<Rightarrow> if k \<le> REDUCE_POW_MAX_EXP then Some (Inl (v1 ^ k)) else None
         | None \<Rightarrow> None)
      else if op = ''shiftLeft'' then map_option (\<lambda>k. Inl (push_bit k v1)) (nat_to_usize v2)
      else if op = ''shiftRight'' then
        Some (Inl (drop_bit (case nat_to_usize v2 of Some k \<Rightarrow> k | None \<Rightarrow> 2 ^ 64 - 1) v1))
      else if op = ''beq'' then Some (Inr (v1 = v2))
      else if op = ''ble'' then Some (Inr (v1 \<le> v2))
      else None)"

definition reduce_nat_succ :: "hashers \<Rightarrow> env_view \<Rightarrow> calls \<Rightarrow> u32 \<Rightarrow> u32 option tcm" where
  "reduce_nat_succ H V K e =
     after (tc_node V e) (\<lambda>nd.
       case nd of
         NApp f arg \<Rightarrow>
           after (look tc_nat_succ) (\<lambda>sc. after (is_const_named V f sc) (\<lambda>yes.
             if yes then
               after (get_nat_lit_ext H V K arg) (\<lambda>v.
                 case v of
                   Some v \<Rightarrow> after (tc_lit_nat H V (v + 1)) (\<lambda>r. give (Some r))
                 | None \<Rightarrow> give None)
             else give None))
       | _ \<Rightarrow> give None)"

definition reduce_nat_op :: "hashers \<Rightarrow> env_view \<Rightarrow> calls \<Rightarrow> string \<Rightarrow> u32 \<Rightarrow> u32 \<Rightarrow> u32 option tcm" where
  "reduce_nat_op H V K op a1 a2 =
     after (get_nat_lit_ext H V K a1) (\<lambda>v1.
       case v1 of
         None \<Rightarrow> give None
       | Some v1 \<Rightarrow>
           after (get_nat_lit_ext H V K a2) (\<lambda>v2.
             case v2 of
               None \<Rightarrow> give None
             | Some v2 \<Rightarrow>
                 (case nat_binop op v1 v2 of
                    None \<Rightarrow> give None
                  | Some (Inl n) \<Rightarrow> after (tc_lit_nat H V n) (\<lambda>r. give (Some r))
                  | Some (Inr b) \<Rightarrow> after (bool_const H V b) (\<lambda>r. give (Some r)))))"

definition reduce_nat_binop :: "hashers \<Rightarrow> env_view \<Rightarrow> calls \<Rightarrow> u32 \<Rightarrow> u32 option tcm" where
  "reduce_nat_binop H V K e =
     after (tc_node V e) (\<lambda>nd.
       case nd of
         NApp ff a2 \<Rightarrow>
           after (tc_node V ff) (\<lambda>nd.
             case nd of
               NApp head a1 \<Rightarrow>
                 after (tc_node V head) (\<lambda>nd.
                   case nd of
                     NConst n _ \<Rightarrow>
                       after (nat_binop_id V n) (\<lambda>op.
                         case op of Some op \<Rightarrow> reduce_nat_op H V K op a1 a2 | None \<Rightarrow> give None)
                   | _ \<Rightarrow> give None)
             | _ \<Rightarrow> give None)
       | _ \<Rightarrow> give None)"

definition reduce_nat :: "hashers \<Rightarrow> env_view \<Rightarrow> calls \<Rightarrow> u32 \<Rightarrow> u32 option tcm" where
  "reduce_nat H V K e =
     after (tc_get_app_num_args V e) (\<lambda>nargs.
       if nargs = 1 then reduce_nat_succ H V K e
       else if nargs \<noteq> 2 then give None
       else reduce_nat_binop H V K e)"

definition reduce_native :: "u32 \<Rightarrow> u32 option tcm" where
  "reduce_native e = give None"

end
