(* ===== verification/Checker_Contracts.thy ===== *)
theory Checker_Contracts
  imports Checker_Ids Checker_Whnf
begin

text \<open>
  The invariant of the checker's state (\<open>tc_ok\<close>), how a state may change (\<open>step\<close>), and contracts:
  \<open>contract\<close> says that from a state in which some facts hold, a computation does not panic, keeps the
  invariant, and leaves a state in which further facts hold. A fact is used as \<open>stays\<close>: it holds now and
  in every later state.
\<close>

section \<open>The environment\<close>

abbreviation closed :: "env_view \<Rightarrow> store \<Rightarrow> u32 set" where
  "closed V st \<equiv> in_range (view_base V) st 0"

definition val_ok :: "env_view \<Rightarrow> store \<Rightarrow> constant_val \<Rightarrow> bool" where
  "val_ok V st v \<longleftrightarrow> Some (cv_name v) \<in> name_ids (view_base V) st
     \<and> Some ` set (cv_level_params v) \<subseteq> name_ids (view_base V) st \<and> cv_ty v \<in> closed V st"

text \<open>A constant of the table: its ids are in use, its terms are closed, and the numbers of arguments in
  front of a recursor's major premise add up to a machine integer.\<close>

definition const_ok :: "env_view \<Rightarrow> store \<Rightarrow> constant_info \<Rightarrow> bool" where
  "const_ok V st info \<longleftrightarrow> val_ok V st (constant_val_of info)
     \<and> (\<forall>v. info_value info = Some v \<longrightarrow> v \<in> closed V st)
     \<and> (case info of
          CInduct v \<Rightarrow> Some ` set (iv_ctors v) \<subseteq> name_ids (view_base V) st
        | CCtor v \<Rightarrow> Some (ct_induct v) \<in> name_ids (view_base V) st
        | CRec v \<Rightarrow> (\<forall>r \<in> set (rv_rules v). rr_rhs r \<in> closed V st)
            \<and> rv_num_params v + rv_num_motives v + rv_num_minors v + rv_num_indices v < 2 ^ 64
        | _ \<Rightarrow> True)"

definition view_ok :: "env_view \<Rightarrow> store \<Rightarrow> bool" where
  "view_ok V st \<longleftrightarrow> (\<forall>n info. view_get V n = Some info \<longrightarrow> const_ok V st info)"

lemma const_ok_grows:
  assumes "const_ok V st info" and "grows (view_base V) st st'"
  shows "const_ok V st' info"
  using assms(1) ids_grow [OF assms(2), THEN subsetD] ids_grow [OF assms(2), THEN order_trans [rotated]]
  unfolding const_ok_def val_ok_def by (auto split: constant_info.splits)

lemma view_ok_grows: "view_ok V st \<Longrightarrow> grows (view_base V) st st' \<Longrightarrow> view_ok V st'"
  unfolding view_ok_def using const_ok_grows by blast

section \<open>The invariant\<close>

definition decls_ok :: "env_view \<Rightarrow> store \<Rightarrow> local_decl list \<Rightarrow> bool" where
  "decls_ok V st ds \<longleftrightarrow> (\<forall>d \<in> set ds. ld_binder_name d \<in> name_ids (view_base V) st \<and> ld_ty d \<in> closed V st
     \<and> (\<forall>v. ld_value d = Some v \<longrightarrow> v \<in> closed V st))"

text \<open>Every counter value up to the current one has been used for a name.\<close>

definition gen_ok :: "env_view \<Rightarrow> store \<Rightarrow> u64 \<Rightarrow> bool" where
  "gen_ok V st gen \<longleftrightarrow> (\<forall>k < unat gen. \<exists>i. name_at (view_base V) st (Some i) (fresh_name k))"

definition caches_ok :: "env_view \<Rightarrow> tc \<Rightarrow> bool" where
  "caches_ok V s \<longleftrightarrow> (\<forall>b. ran (tc_infer_cache s b) \<subseteq> closed V (tc_scratch s))
     \<and> ran (tc_whnf_cache s) \<subseteq> closed V (tc_scratch s) \<and> ran (tc_whnf_core_cache s) \<subseteq> closed V (tc_scratch s)
     \<and> ran (tc_unfold_memo s) \<subseteq> closed V (tc_scratch s)
     \<and> classes (view_base V) (tc_scratch s) (\<lambda>_ _. True) (tc_eqv_cache s)"

definition names_ok :: "env_view \<Rightarrow> tc \<Rightarrow> bool" where
  "names_ok V s \<longleftrightarrow> tc_dont_care s \<in> closed V (tc_scratch s)
     \<and> Some ` {tc_bool_true s, tc_bool_false s, tc_nat_name s, tc_string_name s, tc_nat_zero s, tc_nat_succ s, tc_string_mk s}
        \<subseteq> name_ids (view_base V) (tc_scratch s)"

definition tc_ok :: "hashers \<Rightarrow> env_view \<Rightarrow> tc \<Rightarrow> bool" where
  "tc_ok H V s \<longleftrightarrow> twf H (view_base V) (tc_scratch s) \<and> view_ok V (tc_scratch s)
     \<and> ctx_wf (view_base V) (tc_scratch s) (tc_fvar_gen s) (tc_lctx s)
     \<and> decls_ok V (tc_scratch s) (decls (tc_lctx s)) \<and> gen_ok V (tc_scratch s) (tc_fvar_gen s)
     \<and> caches_ok V s \<and> names_ok V s"

lemma tc_okD:
  assumes "tc_ok H V s"
  shows "twf H (view_base V) (tc_scratch s)" and "view_ok V (tc_scratch s)"
    and "ctx_wf (view_base V) (tc_scratch s) (tc_fvar_gen s) (tc_lctx s)"
    and "decls_ok V (tc_scratch s) (decls (tc_lctx s))" and "gen_ok V (tc_scratch s) (tc_fvar_gen s)"
    and "caches_ok V s" and "names_ok V s" and "banks_ok H (view_base V) (tc_scratch s)"
  using assms unfolding tc_ok_def by (simp_all add: twfD)

lemma classes_grow:
  assumes "classes base st R uf" and "grows base st st'"
  shows "classes base st' R uf"
  using assms unfolding classes_def by (meson expr_at_grows)

text \<open>The invariant survives a write to the scratch store.\<close>

lemma tc_ok_good:
  assumes ok: "tc_ok H V s" and g: "good H (view_base V) (tc_scratch s) st"
  shows "tc_ok H V (s\<lparr>tc_scratch := st\<rparr>)"
proof -
  note up = ids_grow [OF goodD(2) [OF g], THEN subsetD] and D = tc_okD [OF ok]
  have "decls_ok V st (decls (tc_lctx s))" using D(4) unfolding decls_ok_def by (auto intro: up)
  moreover have "gen_ok V st (tc_fvar_gen s)" using D(5) goodD(2) [OF g] unfolding gen_ok_def by (meson name_at_grows)
  moreover have "caches_ok V (s\<lparr>tc_scratch := st\<rparr>)"
    using D(6) classes_grow [OF _ goodD(2) [OF g]] up(1) unfolding caches_ok_def by (simp add: subset_iff)
  moreover have "names_ok V (s\<lparr>tc_scratch := st\<rparr>)" using D(7) up unfolding names_ok_def by simp
  ultimately show ?thesis
    using twf_good [OF D(1) g] view_ok_grows [OF D(2) goodD(2) [OF g]] ctx_wf_grows [OF D(3) goodD(2) [OF g]]
    by (simp add: tc_ok_def)
qed

section \<open>Steps\<close>

definition grown :: "local_context \<Rightarrow> local_context \<Rightarrow> bool" where
  "grown ctx ctx' \<longleftrightarrow> (\<exists>ds. decls ctx' = decls ctx @ ds)"

definition tc_step :: "hashers \<Rightarrow> env_view \<Rightarrow> tc \<Rightarrow> tc \<Rightarrow> bool" where
  "tc_step H V s s' \<longleftrightarrow> tc_ok H V s' \<and> grows (view_base V) (tc_scratch s) (tc_scratch s') \<and> grown (tc_lctx s) (tc_lctx s')"

lemma tc_step_refl: "tc_ok H V s \<Longrightarrow> tc_step H V s s"
  by (simp add: tc_step_def grown_def grows_refl)

lemma tc_step_trans: "tc_step H V s s1 \<Longrightarrow> tc_step H V s1 s2 \<Longrightarrow> tc_step H V s s2"
  by (auto simp: tc_step_def grown_def intro: grows_trans)

definition stays :: "hashers \<Rightarrow> env_view \<Rightarrow> (tc \<Rightarrow> bool) \<Rightarrow> tc \<Rightarrow> bool" where
  "stays H V P s \<longleftrightarrow> (\<forall>s'. tc_step H V s s' \<longrightarrow> P s')"

lemma stays_step: "stays H V P s \<Longrightarrow> tc_step H V s s' \<Longrightarrow> stays H V P s'"
  unfolding stays_def by (blast intro: tc_step_trans)

lemma stays_now: "stays H V P s \<Longrightarrow> tc_ok H V s \<Longrightarrow> P s"
  unfolding stays_def by (blast intro: tc_step_refl)

lemma stays_conj: "stays H V (\<lambda>s. P s \<and> Q s) s \<longleftrightarrow> stays H V P s \<and> stays H V Q s"
  unfolding stays_def by blast

lemma stays_mono: "stays H V P s \<Longrightarrow> (\<And>s. tc_ok H V s \<Longrightarrow> P s \<Longrightarrow> Q s) \<Longrightarrow> stays H V Q s"
  unfolding stays_def tc_step_def by blast

section \<open>Contracts\<close>

definition contract ::
    "hashers \<Rightarrow> env_view \<Rightarrow> bool \<Rightarrow> (tc \<Rightarrow> bool) \<Rightarrow> 'a tcm \<Rightarrow> ('a \<Rightarrow> tc \<Rightarrow> bool) \<Rightarrow> bool" where
  "contract H V b P m Q \<longleftrightarrow> (\<forall>s. tc_ok H V s \<longrightarrow> stays H V P s \<longrightarrow>
     run (- {Panic}) (m s) (\<lambda>(x, s'). tc_step H V s s' \<and> tc_guard_depth s' = tc_guard_depth s
       \<and> (b \<longrightarrow> decls (tc_lctx s') = decls (tc_lctx s)) \<and> stays H V (Q x) s'))"

lemma contractI:
  assumes "\<And>s. tc_ok H V s \<Longrightarrow> stays H V P s \<Longrightarrow> P s \<Longrightarrow>
     run (- {Panic}) (m s) (\<lambda>(x, s'). tc_step H V s s' \<and> tc_guard_depth s' = tc_guard_depth s
       \<and> (b \<longrightarrow> decls (tc_lctx s') = decls (tc_lctx s)) \<and> stays H V (Q x) s')"
  shows "contract H V b P m Q"
  using assms stays_now unfolding contract_def by blast

lemma contractD:
  assumes "contract H V b P m Q" and "tc_ok H V s" and "stays H V P s"
  shows "run (- {Panic}) (m s) (\<lambda>(x, s'). tc_step H V s s' \<and> tc_guard_depth s' = tc_guard_depth s
       \<and> (b \<longrightarrow> decls (tc_lctx s') = decls (tc_lctx s)) \<and> stays H V (Q x) s')"
  using assms unfolding contract_def by blast

lemma contract_seq:
  assumes m: "contract H V b P m Q" and f: "\<And>x. contract H V b (\<lambda>s. P s \<and> Q x s) (f x) R"
  shows "contract H V b P (after m f) R"
proof (rule contractI)
  fix s assume s: "tc_ok H V s" "stays H V P s"
  show "run (- {Panic}) (after m f s) (\<lambda>(x, s'). tc_step H V s s' \<and> tc_guard_depth s' = tc_guard_depth s
       \<and> (b \<longrightarrow> decls (tc_lctx s') = decls (tc_lctx s)) \<and> stays H V (R x) s')"
    unfolding after_def
  proof (rule run_bind2 [OF contractD [OF m s]], unfold prod.case, elim conjE)
    fix x s1 assume s1: "tc_step H V s s1" "tc_guard_depth s1 = tc_guard_depth s"
      "b \<longrightarrow> decls (tc_lctx s1) = decls (tc_lctx s)" "stays H V (Q x) s1"
    from s1(1) have ok: "tc_ok H V s1" by (simp add: tc_step_def)
    from stays_step [OF s(2) s1(1)] s1(4) have "stays H V (\<lambda>s. P s \<and> Q x s) s1" by (simp add: stays_conj)
    from contractD [OF f ok this] show "run (- {Panic}) (f x s1) (\<lambda>(x, s'). tc_step H V s s' \<and> tc_guard_depth s' = tc_guard_depth s
       \<and> (b \<longrightarrow> decls (tc_lctx s') = decls (tc_lctx s)) \<and> stays H V (R x) s')"
      by (rule run_mono) (use s1 tc_step_trans [OF s1(1)] in auto)
  qed
qed

lemma contract_tail:
  assumes m: "contract H V b P m Q" and R: "\<And>x s. tc_ok H V s \<Longrightarrow> P s \<Longrightarrow> Q x s \<Longrightarrow> R x s"
  shows "contract H V b P m R"
proof (rule contractI)
  fix s assume s: "tc_ok H V s" "stays H V P s"
  from contractD [OF m s] show "run (- {Panic}) (m s) (\<lambda>(x, s'). tc_step H V s s' \<and> tc_guard_depth s' = tc_guard_depth s
       \<and> (b \<longrightarrow> decls (tc_lctx s') = decls (tc_lctx s)) \<and> stays H V (R x) s')"
  proof (rule run_mono, unfold split_beta, elim conjE, intro conjI)
    fix x assume x: "tc_step H V s (snd x)" "stays H V (Q (fst x)) (snd x)"
    have "stays H V (\<lambda>s. P s \<and> Q (fst x) s) (snd x)" using stays_step [OF s(2) x(1)] x(2) by (simp add: stays_conj)
    then show "stays H V (R (fst x)) (snd x)" by (rule stays_mono) (use R in blast)
  qed auto
qed

lemma contract_weaken:
  assumes m: "contract H V True P' m Q" and P: "\<And>s. tc_ok H V s \<Longrightarrow> P s \<Longrightarrow> P' s"
  shows "contract H V b P m Q"
  unfolding contract_def
proof (intro allI impI)
  fix s assume s: "tc_ok H V s" "stays H V P s"
  from contractD [OF m s(1) stays_mono [OF s(2) P]]
  show "run (- {Panic}) (m s) (\<lambda>(x, s'). tc_step H V s s' \<and> tc_guard_depth s' = tc_guard_depth s
       \<and> (b \<longrightarrow> decls (tc_lctx s') = decls (tc_lctx s)) \<and> stays H V (Q x) s')"
    by (rule run_mono) auto
qed

lemma contract_pre:
  assumes m: "contract H V b P' m Q" and P: "\<And>s. tc_ok H V s \<Longrightarrow> P s \<Longrightarrow> P' s"
  shows "contract H V b P m Q"
  using contractD [OF m _ stays_mono [OF _ P]] unfolding contract_def by blast

end
