(* ===== verification/Checker_Rules.thy ===== *)
theory Checker_Rules
  imports Checker_Contracts
begin

text \<open>
  The rules by which contracts are proved, one for each construct, and the contracts of the primitives.
  \<open>tcm_simps\<close> brings a computation into the form in which every step is a primitive or a call; \<open>specs\<close>
  are contracts whose premise is what has to hold before.
\<close>

named_theorems tcm_simps
named_theorems specs
named_theorems cases_rules

section \<open>Normal forms\<close>

lemma after_assoc [tcm_simps]: "after (after m f) g = after m (\<lambda>x. after (f x) g)"
  unfolding after_def
proof (rule ext)
  fix s show "andthen (andthen (m s) (\<lambda>(x, s). f x s)) (\<lambda>(x, s). g x s) =
      andthen (m s) (\<lambda>(x, s). andthen (f x s) (\<lambda>(x, s). g x s))"
    by (cases "m s") (auto split: prod.splits)
qed

lemma after_give [tcm_simps]: "after (give x) f = f x"
  by (simp add: after_def give_def)

lemma after_fail [tcm_simps]: "after (fail e) f = fail e"
  by (simp add: after_def fail_def)

lemma after_if [tcm_simps]: "after (if c then m else m') f = (if c then after m f else after m' f)"
  by simp

lemma after_cases [tcm_simps]:
  "after (case x of None \<Rightarrow> m | Some y \<Rightarrow> m' y) f = (case x of None \<Rightarrow> after m f | Some y \<Rightarrow> after (m' y) f)"
  "after (case p of (a, b) \<Rightarrow> m2 a b) f = (case p of (a, b) \<Rightarrow> after (m2 a b) f)"
  "after (case z of Inl a \<Rightarrow> n a | Inr b \<Rightarrow> n' b) f = (case z of Inl a \<Rightarrow> after (n a) f | Inr b \<Rightarrow> after (n' b) f)"
  "after (case l of [] \<Rightarrow> k | y # ys \<Rightarrow> k' y ys) f = (case l of [] \<Rightarrow> after k f | y # ys \<Rightarrow> after (k' y ys) f)"
  "after (case r of LTrue \<Rightarrow> l1 | LFalse \<Rightarrow> l2 | LUndef \<Rightarrow> l3) f =
     (case r of LTrue \<Rightarrow> after l1 f | LFalse \<Rightarrow> after l2 f | LUndef \<Rightarrow> after l3 f)"
  by (simp_all split: option.split prod.split sum.split list.split lbool.split)

lemma after_node [tcm_simps]:
  "after (case nd of NBVar w \<Rightarrow> f1 w | NBVarBig q \<Rightarrow> f2 q | NFVar x \<Rightarrow> f3 x | NMVar x \<Rightarrow> f4 x | NSort l \<Rightarrow> f5 l
      | NConst x ls \<Rightarrow> f6 x ls | NApp g a \<Rightarrow> f7 g a | NLam x t b bi \<Rightarrow> f8 x t b bi | NForall x t b bi \<Rightarrow> f9 x t b bi
      | NLetE x t v b d \<Rightarrow> f10 x t v b d | NLitNat q \<Rightarrow> f11 q | NLitStr q \<Rightarrow> f12 q | NMData m c \<Rightarrow> f13 m c
      | NProj x w c \<Rightarrow> f14 x w c | NProjBig x q c \<Rightarrow> f15 x q c) f =
   (case nd of NBVar w \<Rightarrow> after (f1 w) f | NBVarBig q \<Rightarrow> after (f2 q) f | NFVar x \<Rightarrow> after (f3 x) f
      | NMVar x \<Rightarrow> after (f4 x) f | NSort l \<Rightarrow> after (f5 l) f
      | NConst x ls \<Rightarrow> after (f6 x ls) f | NApp g a \<Rightarrow> after (f7 g a) f | NLam x t b bi \<Rightarrow> after (f8 x t b bi) f
      | NForall x t b bi \<Rightarrow> after (f9 x t b bi) f
      | NLetE x t v b d \<Rightarrow> after (f10 x t v b d) f | NLitNat q \<Rightarrow> after (f11 q) f | NLitStr q \<Rightarrow> after (f12 q) f
      | NMData m c \<Rightarrow> after (f13 m c) f
      | NProj x w c \<Rightarrow> after (f14 x w c) f | NProjBig x q c \<Rightarrow> after (f15 x q c) f)"
  by (cases nd) simp_all

lemma lift_res_simps [tcm_simps]: "lift_res (Inr x) = give x" "lift_res (Inl e) = fail e"
  by (simp_all add: lift_res_def give_def fail_def)

section \<open>Rules\<close>

lemma grown_refl [simp]: "grown ctx ctx"
  by (simp add: grown_def)

lemma contract_give: "(\<And>s. tc_ok H V s \<Longrightarrow> P s \<Longrightarrow> Q x s) \<Longrightarrow> contract H V b P (give x) Q"
  by (rule contractI) (simp add: give_def tc_step_refl stays_mono)

lemma contract_fail: "e \<noteq> Panic \<Longrightarrow> contract H V b P (fail e) Q"
  by (rule contractI) (simp add: fail_def)

lemma contract_if [cases_rules]:
  "(c \<Longrightarrow> contract H V b P m Q) \<Longrightarrow> (\<not> c \<Longrightarrow> contract H V b P m' Q) \<Longrightarrow> contract H V b P (if c then m else m') Q"
  by simp

lemma contract_option [cases_rules]:
  "(x = None \<Longrightarrow> contract H V b P m Q) \<Longrightarrow> (\<And>y. x = Some y \<Longrightarrow> contract H V b P (m' y) Q) \<Longrightarrow>
     contract H V b P (case x of None \<Rightarrow> m | Some y \<Rightarrow> m' y) Q"
  by (cases x) simp_all

lemma contract_pair [cases_rules]:
  "(\<And>a c. p = (a, c) \<Longrightarrow> contract H V b P (m a c) Q) \<Longrightarrow> contract H V b P (case p of (a, c) \<Rightarrow> m a c) Q"
  by (cases p) simp

lemma contract_sum [cases_rules]:
  "(\<And>a. z = Inl a \<Longrightarrow> contract H V b P (n a) Q) \<Longrightarrow> (\<And>a. z = Inr a \<Longrightarrow> contract H V b P (n' a) Q) \<Longrightarrow>
     contract H V b P (case z of Inl a \<Rightarrow> n a | Inr a \<Rightarrow> n' a) Q"
  by (cases z) simp_all

lemma contract_list [cases_rules]:
  "(l = [] \<Longrightarrow> contract H V b P k Q) \<Longrightarrow> (\<And>y ys. l = y # ys \<Longrightarrow> contract H V b P (k' y ys) Q) \<Longrightarrow>
     contract H V b P (case l of [] \<Rightarrow> k | y # ys \<Rightarrow> k' y ys) Q"
  by (cases l) simp_all

lemma contract_lbool [cases_rules]:
  "(r = LTrue \<Longrightarrow> contract H V b P l1 Q) \<Longrightarrow> (r = LFalse \<Longrightarrow> contract H V b P l2 Q) \<Longrightarrow>
   (r = LUndef \<Longrightarrow> contract H V b P l3 Q) \<Longrightarrow>
     contract H V b P (case r of LTrue \<Rightarrow> l1 | LFalse \<Rightarrow> l2 | LUndef \<Rightarrow> l3) Q"
  by (cases r) simp_all

lemma contract_info [cases_rules]:
  assumes "\<And>v. info = CAxiom v \<Longrightarrow> contract H V b P (f1 v) Q" "\<And>v. info = CDefn v \<Longrightarrow> contract H V b P (f2 v) Q"
    "\<And>v. info = CThm v \<Longrightarrow> contract H V b P (f3 v) Q" "\<And>v. info = COpaque v \<Longrightarrow> contract H V b P (f4 v) Q"
    "\<And>v. info = CQuot v \<Longrightarrow> contract H V b P (f5 v) Q" "\<And>v. info = CInduct v \<Longrightarrow> contract H V b P (f6 v) Q"
    "\<And>v. info = CCtor v \<Longrightarrow> contract H V b P (f7 v) Q" "\<And>v. info = CRec v \<Longrightarrow> contract H V b P (f8 v) Q"
  shows "contract H V b P (case info of CAxiom v \<Rightarrow> f1 v | CDefn v \<Rightarrow> f2 v | CThm v \<Rightarrow> f3 v | COpaque v \<Rightarrow> f4 v
    | CQuot v \<Rightarrow> f5 v | CInduct v \<Rightarrow> f6 v | CCtor v \<Rightarrow> f7 v | CRec v \<Rightarrow> f8 v) Q"
  using assms by (cases info) simp_all

lemma contract_node [cases_rules]:
  assumes "\<And>w. nd = NBVar w \<Longrightarrow> contract H V b P (f1 w) Q" "\<And>q. nd = NBVarBig q \<Longrightarrow> contract H V b P (f2 q) Q"
    "\<And>x. nd = NFVar x \<Longrightarrow> contract H V b P (f3 x) Q" "\<And>x. nd = NMVar x \<Longrightarrow> contract H V b P (f4 x) Q"
    "\<And>l. nd = NSort l \<Longrightarrow> contract H V b P (f5 l) Q" "\<And>x ls. nd = NConst x ls \<Longrightarrow> contract H V b P (f6 x ls) Q"
    "\<And>f a. nd = NApp f a \<Longrightarrow> contract H V b P (f7 f a) Q"
    "\<And>x t c bi. nd = NLam x t c bi \<Longrightarrow> contract H V b P (f8 x t c bi) Q"
    "\<And>x t c bi. nd = NForall x t c bi \<Longrightarrow> contract H V b P (f9 x t c bi) Q"
    "\<And>x t v c d. nd = NLetE x t v c d \<Longrightarrow> contract H V b P (f10 x t v c d) Q"
    "\<And>q. nd = NLitNat q \<Longrightarrow> contract H V b P (f11 q) Q" "\<And>q. nd = NLitStr q \<Longrightarrow> contract H V b P (f12 q) Q"
    "\<And>m c. nd = NMData m c \<Longrightarrow> contract H V b P (f13 m c) Q"
    "\<And>x w c. nd = NProj x w c \<Longrightarrow> contract H V b P (f14 x w c) Q"
    "\<And>x q c. nd = NProjBig x q c \<Longrightarrow> contract H V b P (f15 x q c) Q"
  shows "contract H V b P (case nd of NBVar w \<Rightarrow> f1 w | NBVarBig q \<Rightarrow> f2 q | NFVar x \<Rightarrow> f3 x | NMVar x \<Rightarrow> f4 x
      | NSort l \<Rightarrow> f5 l | NConst x ls \<Rightarrow> f6 x ls | NApp g a \<Rightarrow> f7 g a | NLam x t c bi \<Rightarrow> f8 x t c bi
      | NForall x t c bi \<Rightarrow> f9 x t c bi | NLetE x t v c d \<Rightarrow> f10 x t v c d | NLitNat q \<Rightarrow> f11 q | NLitStr q \<Rightarrow> f12 q
      | NMData m c \<Rightarrow> f13 m c | NProj x w c \<Rightarrow> f14 x w c | NProjBig x q c \<Rightarrow> f15 x q c) Q"
  using assms by (cases nd) simp_all

text \<open>The state is written, but neither the store, the context nor the depth.\<close>

lemma contract_alter:
  assumes "\<And>s. tc_ok H V s \<Longrightarrow> P s \<Longrightarrow> tc_ok H V (f s) \<and> tc_scratch (f s) = tc_scratch s \<and> tc_lctx (f s) = tc_lctx s
     \<and> tc_guard_depth (f s) = tc_guard_depth s"
  shows "contract H V b P (alter f) (\<lambda>_ _. True)"
  by (rule contractI) (use assms in \<open>auto simp: alter_def tc_step_def grows_refl grown_def stays_def\<close>)

text \<open>What a field holds may change later; only what the invariant says of it can be used.\<close>

lemma contract_look:
  assumes "\<And>s. tc_ok H V s \<Longrightarrow> P s \<Longrightarrow> stays H V (Q (f s)) s"
  shows "contract H V b P (look f) Q"
  by (rule contractI) (use assms in \<open>auto simp: look_def tc_step_refl\<close>)

lemma contract_reads:
  assumes "\<And>s. tc_ok H V s \<Longrightarrow> P s \<Longrightarrow> run (- {Panic}) (f (tc_scratch s)) (\<lambda>x. q x (tc_scratch s))"
    and mono: "\<And>x st st'. grows (view_base V) st st' \<Longrightarrow> q x st \<Longrightarrow> q x st'"
  shows "contract H V b P (reads f) (\<lambda>x s. q x (tc_scratch s))"
proof (rule contractI)
  fix s assume s: "tc_ok H V s" "P s"
  from assms(1) [OF s] show "run (- {Panic}) (reads f s) (\<lambda>(x, s'). tc_step H V s s' \<and> tc_guard_depth s' = tc_guard_depth s
       \<and> (b \<longrightarrow> decls (tc_lctx s') = decls (tc_lctx s)) \<and> stays H V (\<lambda>s. q x (tc_scratch s)) s')"
    unfolding reads_def by (rule run_bind) (use s(1) mono in \<open>auto simp: stays_def tc_step_def grows_refl\<close>)
qed

lemma write_run:
  assumes s: "tc_ok H V s" and f: "safe H (view_base V) (tc_scratch s) (f (tc_scratch s)) q"
    and mono: "\<And>x st st'. grows (view_base V) st st' \<Longrightarrow> q x st \<Longrightarrow> q x st'"
  shows "run (- {Panic}) (writes f s) (\<lambda>(x, s'). tc_step H V s s' \<and> tc_guard_depth s' = tc_guard_depth s
       \<and> (b \<longrightarrow> decls (tc_lctx s') = decls (tc_lctx s)) \<and> stays H V (\<lambda>s. q x (tc_scratch s)) s')"
  unfolding writes_def
proof (rule run_bind2 [OF f [unfolded safe_def]], unfold prod.case run_simps, elim conjE)
  fix x st assume g: "good H (view_base V) (tc_scratch s) st" and q: "q x st"
  have "tc_step H V s (s\<lparr>tc_scratch := st\<rparr>)"
    using tc_ok_good [OF s g] goodD(2) [OF g] by (simp add: tc_step_def)
  moreover have "stays H V (\<lambda>s. q x (tc_scratch s)) (s\<lparr>tc_scratch := st\<rparr>)"
    using mono q by (auto simp: stays_def tc_step_def)
  ultimately show "tc_step H V s (s\<lparr>tc_scratch := st\<rparr>)
     \<and> tc_guard_depth (s\<lparr>tc_scratch := st\<rparr>) = tc_guard_depth s
     \<and> (b \<longrightarrow> decls (tc_lctx (s\<lparr>tc_scratch := st\<rparr>)) = decls (tc_lctx s))
     \<and> stays H V (\<lambda>s. q x (tc_scratch s)) (s\<lparr>tc_scratch := st\<rparr>)" by simp
qed

lemma contract_writes:
  assumes "\<And>s. tc_ok H V s \<Longrightarrow> P s \<Longrightarrow> safe H (view_base V) (tc_scratch s) (f (tc_scratch s)) q"
    and "\<And>x st st'. grows (view_base V) st st' \<Longrightarrow> q x st \<Longrightarrow> q x st'"
  shows "contract H V b P (writes f) (\<lambda>x s. q x (tc_scratch s))"
  by (rule contractI, rule write_run) (use assms in blast)+

lemma contract_guard_writes:
  assumes "\<And>g s. tc_ok H V s \<Longrightarrow> P s \<Longrightarrow> safe H (view_base V) (tc_scratch s) (f g (tc_scratch s)) q"
    and "\<And>x st st'. grows (view_base V) st st' \<Longrightarrow> q x st \<Longrightarrow> q x st'"
  shows "contract H V b P (guard_writes f) (\<lambda>x s. q x (tc_scratch s))"
  unfolding guard_writes_def
  by (rule contract_seq [OF contract_look [where Q = "\<lambda>_ _. True"]], simp add: stays_def)
    (rule contract_pre [where P' = P], rule contract_writes [OF assms], auto)

text \<open>A computation under the recursion guard.\<close>

lemma tc_ok_depth [simp]: "tc_ok H V (s\<lparr>tc_guard_depth := d\<rparr>) = tc_ok H V s"
  by (simp add: tc_ok_def caches_ok_def names_ok_def)

lemma tc_step_depth [simp]: "tc_step H V (s\<lparr>tc_guard_depth := d\<rparr>) s' = tc_step H V s s'"
  "tc_step H V s (s'\<lparr>tc_guard_depth := d\<rparr>) = tc_step H V s s'"
  by (simp_all add: tc_step_def)

lemma stays_depth [simp]: "stays H V P (s\<lparr>tc_guard_depth := d\<rparr>) = stays H V P s"
  by (simp add: stays_def)

lemma contract_guard:
  assumes m: "contract H V b P m Q" shows "contract H V b P (with_guard m) Q"
proof (rule contractI)
  fix s assume s: "tc_ok H V s" "stays H V P s"
  let ?s = "s\<lparr>tc_guard_depth := tc_guard_depth s + 1\<rparr>"
  have "tc_ok H V ?s" "stays H V P ?s" using s by simp_all
  from contractD [OF m this] show "run (- {Panic}) (with_guard m s) (\<lambda>(x, s'). tc_step H V s s' \<and> tc_guard_depth s' = tc_guard_depth s
       \<and> (b \<longrightarrow> decls (tc_lctx s') = decls (tc_lctx s)) \<and> stays H V (Q x) s')"
    unfolding with_guard_def by (simp add: run_andthen, intro impI) (erule run_mono, auto)
qed

end
