(* ===== verification/Level_Errors.thy ===== *)
theory Level_Errors
  imports Level_Guard Level_Total
begin

text \<open>The only error of the level algorithms is that the recursion guard stops them: no index is out of range.\<close>

lemma guarded_bind: "guarded m \<Longrightarrow> (\<And>x. m = Inr x \<Longrightarrow> guarded (f x)) \<Longrightarrow> guarded (andthen m f)"
  by (cases m) (auto simp: guarded_def)

lemma guarded_deeper: "(d < MAX_REC_DEPTH \<Longrightarrow> guarded (f (Suc d))) \<Longrightarrow> guarded (enter d f)"
  by (simp add: enter_def guarded_def)

lemma guarded_is_norm_lt [guard_intros]: "guarded (is_norm_lt a b d)"
proof (induction "MAX_REC_DEPTH - d" arbitrary: a b d rule: less_induct)
  case less
  have IH: "guarded (is_norm_lt x y (Suc d))" if "d < MAX_REC_DEPTH" for x y by (rule less) (use that in simp)
  obtain l1 k1 l2 k2 where "to_offset a = (l1, k1)" "to_offset b = (l2, k2)" by (metis surj_pair)
  then show ?case
    by (subst is_norm_lt.simps)
      (cases l1; cases l2; auto intro!: guard_intros guarded_deeper guarded_bind IH simp: Let_def simp del: structural_eq.simps)
qed

lemma guarded_norm_cmp [guard_intros]: "guarded (norm_cmp a b d)"
  unfolding norm_cmp_def by (intro guard_intros)

lemma guarded_insert_by: "(\<And>a b. guarded (c a b)) \<Longrightarrow> guarded (insert_by c x ys)"
  by (induction ys) (auto intro!: guard_intros)

lemma guarded_sort_by: "(\<And>a b. guarded (c a b)) \<Longrightarrow> guarded (sort_by c xs)"
  by (induction xs) (auto intro!: guard_intros guarded_insert_by)

lemma length_insert_by: "insert_by c x ys = Inr zs \<Longrightarrow> length zs = Suc (length ys)"
  by (induction ys arbitrary: zs) (auto simp: andthen_eq_Inr_iff split: if_splits)

lemma length_sort_by: "sort_by c xs = Inr ys \<Longrightarrow> length ys = length xs"
  by (induction xs arbitrary: ys) (auto simp: andthen_eq_Inr_iff length_insert_by)

lemma guarded_push_max_args [guard_intros]: "guarded (push_max_args l d)"
  by (induction l arbitrary: d) (auto intro!: guard_intros)

lemma push_max_args_some: "push_max_args l d = Inr xs \<Longrightarrow> xs \<noteq> []"
  by (induction l arbitrary: d xs) (auto simp: enter_eq_Inr_iff andthen_eq_Inr_iff)

lemma guarded_mk_max_list [guard_intros]: "guarded (mk_max_list as d)"
  by (induction as d rule: mk_max_list.induct) (auto intro!: guard_intros)

lemma guarded_merge_runs [guard_intros]: "guarded (merge_runs b k out as d)"
  by (induction as arbitrary: b k out) (auto intro!: guard_intros split: prod.split)

lemma guarded_flat_traverse: "(\<And>x. guarded (f x)) \<Longrightarrow> guarded (flat_traverse f xs)"
  by (induction xs) (auto intro!: guard_intros)

lemma flat_traverse_some:
  "flat_traverse f xs = Inr ys \<Longrightarrow> xs \<noteq> [] \<Longrightarrow> (\<And>x zs. f x = Inr zs \<Longrightarrow> zs \<noteq> []) \<Longrightarrow> ys \<noteq> []"
  by (cases xs) (auto simp: andthen_eq_Inr_iff)

lemma guarded_rebuild_max: "args \<noteq> [] \<Longrightarrow> guarded (rebuild_max args k d)"
  using start_index_less [of args]
  by (auto simp: rebuild_max_def Let_def split: prod.split intro!: guard_intros)

lemma guarded_normalize [guard_intros]: "guarded (normalize l d)"
proof (induction "MAX_REC_DEPTH - d" arbitrary: l d rule: less_induct)
  case less
  have IH: "guarded (normalize x (Suc d))" if "d < MAX_REC_DEPTH" for x by (rule less) (use that in simp)
  obtain b k where off: "to_offset l = (b, k)" by (metis surj_pair)
  then have b: "\<And>a. b \<noteq> Succ a" using strip_not_Succ [of l] by (simp add: to_offset_eq)
  have "guarded (normalize_max b k (Suc d))" if d: "d < MAX_REC_DEPTH"
    unfolding normalize_max.simps
  proof (rule guarded_bind [OF guarded_push_max_args], rule guarded_bind)
    fix todo assume t: "push_max_args b (Suc d) = Inr todo"
    let ?f = "\<lambda>a. andthen (normalize a (Suc d)) (\<lambda>na. push_max_args na (Suc d))"
    show "guarded (flat_traverse ?f todo)" by (rule guarded_flat_traverse) (intro guard_intros IH d)
    fix args assume "flat_traverse ?f todo = Inr args"
    then have "args \<noteq> []"
      by (rule flat_traverse_some [OF _ push_max_args_some [OF t]])
        (auto simp: andthen_eq_Inr_iff dest: push_max_args_some)
    then show "guarded (andthen (sort_by (\<lambda>x y. norm_cmp x y (Suc d)) args) (\<lambda>args. rebuild_max args k (Suc d)))"
      by (intro guarded_bind guarded_sort_by guarded_norm_cmp guarded_rebuild_max) (auto dest: length_sort_by)
  qed
  then show ?case
    by (subst normalize.simps)
      (cases b; auto simp: off b intro!: guard_intros guarded_deeper IH)
qed

lemma guarded_is_equivalent [guard_intros]: "guarded (is_equivalent a b d)"
  unfolding is_equivalent_def by (intro guard_intros)

lemma guarded_no_panic: "guarded m \<Longrightarrow> run (- {Panic}) m (\<lambda>_. True)"
  by (cases m) (auto simp: guarded_def)

end
