(* ===== verification/Checker_Specs.thy ===== *)
theory Checker_Specs
  imports Checker_Rules Level_Errors
begin

text \<open>The contracts of the primitives: reads and writes of the store, fields, levels and the caches.\<close>

abbreviation rng :: "env_view \<Rightarrow> nat \<Rightarrow> tc \<Rightarrow> u32 set" where
  "rng V k s \<equiv> in_range (view_base V) (tc_scratch s) k"

abbreviation nms :: "env_view \<Rightarrow> tc \<Rightarrow> u32 option set" where
  "nms V s \<equiv> name_ids (view_base V) (tc_scratch s)"

abbreviation lvs :: "env_view \<Rightarrow> tc \<Rightarrow> u32 set" where
  "lvs V s \<equiv> level_ids (view_base V) (tc_scratch s)"

abbreviation lls :: "env_view \<Rightarrow> tc \<Rightarrow> u32 set" where
  "lls V s \<equiv> list_ids (view_base V) (tc_scratch s)"

abbreviation nds :: "env_view \<Rightarrow> nat \<Rightarrow> u32 \<Rightarrow> node \<Rightarrow> tc \<Rightarrow> bool" where
  "nds V k e nd s \<equiv> node_in (view_base V) (tc_scratch s) k nd \<and> node_at (view_base V) (tc_scratch s) e nd"

section \<open>Reads\<close>

lemma tc_node_range:
  assumes "\<And>s. tc_ok H V s \<Longrightarrow> P s \<Longrightarrow> e \<in> rng V k s"
  shows "contract H V b P (tc_node V e) (\<lambda>nd s. nds V k e nd s)"
  unfolding tc_node_def
proof (rule contract_reads)
  fix s assume s: "tc_ok H V s" "P s"
  show "run (- {Panic}) (expr_node (view_base V) (tc_scratch s) e)
      (\<lambda>nd. node_in (view_base V) (tc_scratch s) k nd \<and> node_at (view_base V) (tc_scratch s) e nd)"
    by (rule node_in_range [OF tc_okD(8) [OF s(1)] assms [OF s]]) simp
qed (auto intro: node_in_grows node_at_grows)

lemmas tc_node_spec [specs] = tc_node_range [where k = 0]

lemma tc_data_spec [specs]:
  assumes "\<And>s. tc_ok H V s \<Longrightarrow> P s \<Longrightarrow> \<exists>k. e \<in> rng V k s"
  shows "contract H V b P (tc_data V e) (\<lambda>w s. d_loose_bvar_range w = 0 \<longrightarrow> e \<in> rng V 0 s)"
  unfolding tc_data_def
proof (rule contract_reads)
  fix s assume s: "tc_ok H V s" "P s"
  from assms [OF s] obtain k where e: "e \<in> rng V k s" by blast
  show "run (- {Panic}) (expr_data (view_base V) (tc_scratch s) e)
      (\<lambda>w. d_loose_bvar_range w = 0 \<longrightarrow> e \<in> in_range (view_base V) (tc_scratch s) 0)"
    by (rule range_word [OF tc_okD(8) [OF s(1)] twfD(2) [OF tc_okD(1) [OF s(1)]] e]) simp
qed (auto dest: ids_grow(1))

lemma spine_read:
  assumes "\<And>s. tc_ok H V s \<Longrightarrow> P s \<Longrightarrow> e \<in> rng V 0 s"
    and "\<And>st f args. spine_loop (view_base V) st e [] = Some (Inr (f, args)) \<Longrightarrow> g st = Inr (h f args)"
  shows "contract H V b P (reads g) (\<lambda>x s. \<exists>f args. x = h f args \<and> f \<in> rng V 0 s
    \<and> set args \<subseteq> rng V 0 s \<and> length args < 2 ^ 32)"
proof (rule contract_reads)
  fix s assume s: "tc_ok H V s" "P s"
  from spine_of [OF tc_okD(8) [OF s(1)] assms(1) [OF s]] obtain f args where
    f: "spine_loop (view_base V) (tc_scratch s) e [] = Some (Inr (f, args))" "f \<in> rng V 0 s" "set args \<subseteq> rng V 0 s"
      "length args + 0 < 2 ^ 32" .
  then show "run (- {Panic}) (g (tc_scratch s)) (\<lambda>x. \<exists>f args. x = h f args
      \<and> f \<in> in_range (view_base V) (tc_scratch s) 0
      \<and> set args \<subseteq> in_range (view_base V) (tc_scratch s) 0 \<and> length args < 2 ^ 32)"
    using assms(2) [OF f(1)] by auto
qed (blast dest: ids_grow(1))

lemma tc_get_app_fn_spec [specs]:
  assumes "\<And>s. tc_ok H V s \<Longrightarrow> P s \<Longrightarrow> e \<in> rng V 0 s"
  shows "contract H V b P (tc_get_app_fn V e) (\<lambda>f s. f \<in> rng V 0 s)"
  unfolding tc_get_app_fn_def
  by (rule contract_tail [OF spine_read [OF assms, where h = "\<lambda>f _. f"]]) (auto simp: get_app_fn_def)

lemma tc_get_app_args_spec [specs]:
  assumes "\<And>s. tc_ok H V s \<Longrightarrow> P s \<Longrightarrow> e \<in> rng V 0 s"
  shows "contract H V b P (tc_get_app_args V e) (\<lambda>args s. set args \<subseteq> rng V 0 s \<and> length args < 2 ^ 32)"
  unfolding tc_get_app_args_def
  by (rule contract_tail [OF spine_read [OF assms, where h = "\<lambda>_ args. rev args"]]) (auto simp: get_app_args_def)

lemma tc_get_app_num_args_spec [specs]:
  assumes "\<And>s. tc_ok H V s \<Longrightarrow> P s \<Longrightarrow> e \<in> rng V 0 s"
  shows "contract H V b P (tc_get_app_num_args V e) (\<lambda>_ _. True)"
  unfolding tc_get_app_num_args_def
  by (rule contract_tail [OF spine_read [OF assms, where h = "\<lambda>_ args. length args"]])
    (auto simp: get_app_num_args_def)

lemma tc_level_list_spec [specs]:
  assumes "\<And>s. tc_ok H V s \<Longrightarrow> P s \<Longrightarrow> ls \<in> lls V s"
  shows "contract H V b P (tc_level_list V ls) (\<lambda>l s. set l \<subseteq> lvs V s)"
  unfolding tc_level_list_def
proof (rule contract_reads)
  fix s assume s: "tc_ok H V s" "P s"
  from assms [OF s] obtain l ts where l: "list_ent (view_base V) (tc_scratch s) ls = Some l"
    "list_all2 (level_at (view_base V) (tc_scratch s)) l ts" by (auto simp: list_ids_def levels_at_def)
  then show "run (- {Panic}) (level_list_at (view_base V) (tc_scratch s) ls)
      (\<lambda>l. set l \<subseteq> level_ids (view_base V) (tc_scratch s))"
    using pool_reads(4) [OF tc_okD(8) [OF s(1)] l(1)]
    by (auto simp: level_ids_def in_set_conv_nth list_all2_conv_all_nth, blast)
qed (blast dest: ids_grow(3))

lemma read_any:
  assumes "\<And>s. tc_ok H V s \<Longrightarrow> P s \<Longrightarrow> \<exists>x. f (tc_scratch s) = Inr x"
  shows "contract H V b P (reads f) (\<lambda>_ _. True)"
  by (rule contract_reads) (use assms in fastforce, simp)

lemma tc_to_name_spec [specs]:
  assumes "\<And>s. tc_ok H V s \<Longrightarrow> P s \<Longrightarrow> Some i \<in> nms V s"
  shows "contract H V b P (tc_to_name V i) (\<lambda>_ _. True)"
  unfolding tc_to_name_def
  by (rule read_any) (frule (1) assms, auto simp: name_ids_def dest: to_name_ok [OF tc_okD(8)])

lemma nat_at_spec [specs]:
  assumes "\<And>s. tc_ok H V s \<Longrightarrow> P s \<Longrightarrow> q \<in> nat_ids (view_base V) (tc_scratch s)"
  shows "contract H V b P (reads (\<lambda>st. nat_at (view_base V) st q)) (\<lambda>_ _. True)"
  by (rule read_any) (frule (1) assms, auto simp: nat_ids_def dest: pool_reads(2) [OF tc_okD(8)])

lemma str_at_spec [specs]:
  assumes "\<And>s. tc_ok H V s \<Longrightarrow> P s \<Longrightarrow> q \<in> str_ids (view_base V) (tc_scratch s)"
  shows "contract H V b P (reads (\<lambda>st. str_at (view_base V) st q)) (\<lambda>_ _. True)"
  by (rule read_any) (frule (1) assms, auto simp: str_ids_def dest: pool_reads(1) [OF tc_okD(8)])

lemma to_level_spec [specs]:
  assumes "\<And>s. tc_ok H V s \<Longrightarrow> P s \<Longrightarrow> l \<in> lvs V s"
  shows "contract H V b P (reads (\<lambda>st. to_level (view_base V) st l)) (\<lambda>_ _. True)"
  by (rule read_any) (frule (1) assms, auto simp: level_ids_def dest: to_level_ok [OF tc_okD(8)])

lemma proj_parts_spec [specs]:
  assumes "\<And>s. tc_ok H V s \<Longrightarrow> P s \<Longrightarrow> node_in (view_base V) (tc_scratch s) 0 nd" and "is_proj_node nd"
  shows "contract H V b P (proj_parts V nd) (\<lambda>(n, _, c) s. n \<in> nms V s \<and> c \<in> rng V 0 s)"
  unfolding proj_parts_def
proof (rule contract_tail [OF contract_reads
      [where q = "\<lambda>x st. case x of (n, _, c) \<Rightarrow> n \<in> name_ids (view_base V) st \<and> c \<in> in_range (view_base V) st 0"]])
  fix s assume s: "tc_ok H V s" "P s"
  show "run (- {Panic}) (proj_parts_of (view_base V) (tc_scratch s) nd)
      (\<lambda>x. case x of (n, _, c) \<Rightarrow> n \<in> nms V s \<and> c \<in> rng V 0 s)"
    using assms(1) [OF s] assms(2)
    by (cases nd)
      (auto simp: proj_parts_of_def is_proj_node_def nat_ids_def pool_reads(2) [OF tc_okD(8) [OF s(1)]])
qed (auto dest: ids_grow [THEN subsetD])

section \<open>Fields\<close>

lemma contract_field:
  assumes "\<And>s. tc_ok H V s \<Longrightarrow> P s \<Longrightarrow> q (f s) (tc_scratch s)"
    and "\<And>x st st'. grows (view_base V) st st' \<Longrightarrow> q x st \<Longrightarrow> q x st'"
  shows "contract H V b P (look f) (\<lambda>x s. q x (tc_scratch s))"
  by (rule contract_look) (use assms in \<open>auto simp: stays_def tc_step_def\<close>)

lemma contract_any: "contract H V b P (look f) (\<lambda>_ _. True)"
  by (rule contract_field [where q = "\<lambda>_ _. True"]) simp_all

lemma name_field:
  assumes "\<And>s. tc_ok H V s \<Longrightarrow> Some (f s) \<in> nms V s"
  shows "contract H V b P (look f) (\<lambda>x s. Some x \<in> nms V s)"
  by (rule contract_field [where q = "\<lambda>x st. Some x \<in> name_ids (view_base V) st"])
    (use assms in \<open>auto dest: ids_grow(2)\<close>)

lemma name_fields [specs]:
  "contract H V b P (look tc_bool_true) (\<lambda>x s. Some x \<in> nms V s)"
  "contract H V b P (look tc_bool_false) (\<lambda>x s. Some x \<in> nms V s)"
  "contract H V b P (look tc_nat_name) (\<lambda>x s. Some x \<in> nms V s)"
  "contract H V b P (look tc_string_name) (\<lambda>x s. Some x \<in> nms V s)"
  "contract H V b P (look tc_nat_zero) (\<lambda>x s. Some x \<in> nms V s)"
  "contract H V b P (look tc_nat_succ) (\<lambda>x s. Some x \<in> nms V s)"
  "contract H V b P (look tc_string_mk) (\<lambda>x s. Some x \<in> nms V s)"
  "contract H V b P (look (\<lambda>s. if c then tc_bool_true s else tc_bool_false s)) (\<lambda>x s. Some x \<in> nms V s)"
  by (rule name_field, auto simp: names_ok_def dest!: tc_okD(7))+

lemma closed_field:
  assumes "\<And>s. tc_ok H V s \<Longrightarrow> f s \<in> rng V 0 s"
  shows "contract H V b P (look f) (\<lambda>x s. x \<in> rng V 0 s)"
  by (rule contract_field [where q = "\<lambda>x st. x \<in> in_range (view_base V) st 0"])
    (use assms in \<open>auto dest: ids_grow(1)\<close>)

lemma dont_care_spec [specs]: "contract H V b P (look tc_dont_care) (\<lambda>x s. x \<in> rng V 0 s)"
  by (rule closed_field) (auto simp: names_ok_def dest!: tc_okD(7))

lemma cache_field:
  assumes "\<And>s. tc_ok H V s \<Longrightarrow> set_option (f s) \<subseteq> rng V 0 s"
  shows "contract H V b P (look f) (\<lambda>x s. set_option x \<subseteq> rng V 0 s)"
  by (rule contract_field [where q = "\<lambda>x st. set_option x \<subseteq> in_range (view_base V) st 0"])
    (use assms in \<open>auto dest: ids_grow(1)\<close>)

lemma caches_spec [specs]:
  "contract H V b P (look (\<lambda>s. tc_infer_cache s o' e)) (\<lambda>x s. set_option x \<subseteq> rng V 0 s)"
  "contract H V b P (look (\<lambda>s. tc_whnf_cache s e)) (\<lambda>x s. set_option x \<subseteq> rng V 0 s)"
  "contract H V b P (look (\<lambda>s. tc_whnf_core_cache s e)) (\<lambda>x s. set_option x \<subseteq> rng V 0 s)"
  "contract H V b P (look (\<lambda>s. if c then tc_unfold_memo s e else None)) (\<lambda>x s. set_option x \<subseteq> rng V 0 s)"
  by (rule cache_field, drule tc_okD(6), auto simp: caches_ok_def intro: ranI split: if_splits)+

lemma lparams_guard_spec [specs]: "contract H V b P (look (\<lambda>s. (tc_lparams s, tc_guard s))) (\<lambda>_ _. True)"
  by (rule contract_any)

lemma safety_spec [specs]: "contract H V b P (look tc_safety) (\<lambda>_ _. True)"
  by (rule contract_any)

section \<open>Writes to the store\<close>

lemma write_closed:
  assumes "\<And>s. tc_ok H V s \<Longrightarrow> P s \<Longrightarrow> safe H (view_base V) (tc_scratch s) (f (tc_scratch s))
      (\<lambda>r st. r \<in> in_range (view_base V) st 0)"
  shows "contract H V b P (writes f) (\<lambda>r s. r \<in> rng V 0 s)"
  by (rule contract_writes [OF assms]) (auto dest: ids_grow(1))

lemma guard_write_closed:
  assumes "\<And>g s. tc_ok H V s \<Longrightarrow> P s \<Longrightarrow> safe H (view_base V) (tc_scratch s) (f g (tc_scratch s))
      (\<lambda>r st. r \<in> in_range (view_base V) st 0)"
  shows "contract H V b P (guard_writes f) (\<lambda>r s. r \<in> rng V 0 s)"
  by (rule contract_guard_writes [OF assms]) (auto dest: ids_grow(1))

lemma tc_mk_app_spine_spec [specs]:
  assumes "\<And>s. tc_ok H V s \<Longrightarrow> P s \<Longrightarrow> f \<in> rng V 0 s \<and> set args \<subseteq> rng V 0 s"
  shows "contract H V b P (tc_mk_app_spine V f args) (\<lambda>r s. r \<in> rng V 0 s)"
  unfolding tc_mk_app_spine_def by (rule write_closed) (use assms in \<open>auto intro: mk_app_spine_safe tc_okD(1)\<close>)

lemma tc_const_spec [specs]:
  assumes "\<And>s. tc_ok H V s \<Longrightarrow> P s \<Longrightarrow> Some n \<in> nms V s \<and> ls \<in> lls V s"
  shows "contract H V b P (tc_const V n ls) (\<lambda>r s. r \<in> rng V 0 s)"
  unfolding tc_const_def by (rule write_closed) (use assms in \<open>auto intro: const_safe tc_okD(1)\<close>)

lemma tc_app_spec [specs]:
  assumes "\<And>s. tc_ok H V s \<Longrightarrow> P s \<Longrightarrow> f \<in> rng V 0 s \<and> a \<in> rng V 0 s"
  shows "contract H V b P (tc_app V f a) (\<lambda>r s. r \<in> rng V 0 s)"
  unfolding tc_app_def by (rule write_closed) (use assms in \<open>auto intro: app_safe tc_okD(1)\<close>)

lemma tc_lit_nat_spec [specs]: "contract H V b P (tc_lit_nat H V n) (\<lambda>r s. r \<in> rng V 0 s)"
  unfolding tc_lit_nat_def by (rule write_closed) (auto intro: lit_nat_safe tc_okD(1))

lemma tc_proj_spec [specs]:
  assumes "\<And>s. tc_ok H V s \<Longrightarrow> P s \<Longrightarrow> n \<in> nms V s \<and> e \<in> rng V 0 s"
  shows "contract H V b P (tc_proj H V n k e) (\<lambda>r s. r \<in> rng V 0 s)"
  unfolding tc_proj_def by (rule write_closed) (use assms in \<open>auto intro: proj_safe tc_okD(1)\<close>)

lemma expr_sort_spec [specs]:
  assumes "\<And>s. tc_ok H V s \<Longrightarrow> P s \<Longrightarrow> l \<in> lvs V s"
  shows "contract H V b P (writes (expr_sort (view_base V) l)) (\<lambda>r s. r \<in> rng V 0 s)"
  by (rule write_closed) (use assms in \<open>auto intro: sort_safe tc_okD(1)\<close>)

lemma tc_instantiate_rev_range:
  assumes "\<And>s. tc_ok H V s \<Longrightarrow> P s \<Longrightarrow> \<exists>k \<le> length xs. e \<in> rng V k s \<and> set xs \<subseteq> rng V 0 s \<and> length xs < 2 ^ 64"
  shows "contract H V b P (tc_instantiate_rev H V e xs) (\<lambda>r s. r \<in> rng V 0 s)"
  unfolding tc_instantiate_rev_def
  by (rule guard_write_closed) (use assms in \<open>blast intro: instantiate_rev_safe tc_okD(1)\<close>)

lemma tc_instantiate_rev_all [specs]:
  assumes "\<And>s. tc_ok H V s \<Longrightarrow> P s \<Longrightarrow> e \<in> rng V (length xs) s \<and> set xs \<subseteq> rng V 0 s \<and> length xs < 2 ^ 64"
  shows "contract H V b P (tc_instantiate_rev H V e xs) (\<lambda>r s. r \<in> rng V 0 s)"
  by (rule tc_instantiate_rev_range) (use assms in blast)

lemma tc_instantiate_spec [specs]:
  assumes "\<And>s. tc_ok H V s \<Longrightarrow> P s \<Longrightarrow> e \<in> rng V (Suc 0) s \<and> a \<in> rng V 0 s"
  shows "contract H V b P (tc_instantiate H V e a) (\<lambda>r s. r \<in> rng V 0 s)"
  unfolding tc_instantiate_def by (rule guard_write_closed) (use assms in \<open>auto intro: instantiate_safe tc_okD(1)\<close>)

lemma tc_instantiate_lparams_spec [specs]:
  assumes "\<And>s. tc_ok H V s \<Longrightarrow> P s \<Longrightarrow> e \<in> rng V 0 s \<and> Some ` set ps \<subseteq> nms V s \<and> set ls \<subseteq> lvs V s"
  shows "contract H V b P (tc_instantiate_lparams H V e ps ls) (\<lambda>r s. r \<in> rng V 0 s)"
  unfolding tc_instantiate_lparams_def
  by (rule guard_write_closed) (use assms in \<open>blast intro: instantiate_lparams_safe tc_okD(1)\<close>)

lemma list_spec [specs]:
  assumes "\<And>s. tc_ok H V s \<Longrightarrow> P s \<Longrightarrow> set ls \<subseteq> lvs V s"
  shows "contract H V b P (writes (intern_level_list H (view_base V) ls)) (\<lambda>r s. r \<in> lls V s)"
  by (rule contract_writes) (use assms in \<open>auto intro: list_safe tc_okD(1) dest: ids_grow(4)\<close>)

lemma no_levels_spec [specs]: "contract H V b P (no_levels H V) (\<lambda>r s. r \<in> lls V s)"
  unfolding no_levels_def by (rule list_spec) simp

lemma level_spec [specs]:
  "contract H V b P (writes (level_zero (view_base V))) (\<lambda>r s. r \<in> lvs V s)"
  "(\<And>s. tc_ok H V s \<Longrightarrow> P s \<Longrightarrow> l \<in> lvs V s) \<Longrightarrow> contract H V b P (writes (level_succ (view_base V) l)) (\<lambda>r s. r \<in> lvs V s)"
  "contract H V b P (writes (intern_level H (view_base V) t)) (\<lambda>r s. r \<in> lvs V s)"
  by (rule contract_writes, auto intro: level_safe tc_okD(1) dest: ids_grow(3))+

lemma mk_name_spec [specs]:
  "contract H V b P (writes (mk_name1_id H (view_base V) x)) (\<lambda>r s. Some r \<in> nms V s)"
  "contract H V b P (writes (mk_name2_id H (view_base V) x y)) (\<lambda>r s. Some r \<in> nms V s)"
  by (rule contract_tail [OF contract_writes [OF mk_name1_safe [OF tc_okD(1)]]];
      auto intro: name_at_grows simp: name_ids_def)
    (rule contract_tail [OF contract_writes [OF mk_name2_safe [OF tc_okD(1)]]];
      auto intro: name_at_grows simp: name_ids_def)

section \<open>Levels\<close>

lemma guard_res_spec:
  assumes "\<And>g. guarded (f g)" shows "contract H V b P (guard_res f) (\<lambda>_ _. True)"
proof -
  have "contract H V b P (lift_res (f g)) (\<lambda>_ _. True)" for P g
    by (cases "f g") (use assms in \<open>auto simp: tcm_simps guarded_def intro: contract_give contract_fail\<close>)
  then show ?thesis unfolding guard_res_def by (intro contract_seq [OF contract_any])
qed

lemma mk_imax_spec [specs]: "contract H V b P (guard_res (mk_imax_pair a c)) (\<lambda>_ _. True)"
  by (rule guard_res_spec) (rule guard_intros)

lemma is_equivalent_spec [specs]: "contract H V b P (guard_res (is_equivalent a c)) (\<lambda>_ _. True)"
  by (rule guard_res_spec) (rule guard_intros)

end
