(* ===== verification/Checker_Reduce.thy ===== *)
theory Checker_Reduce
  imports Checker_Whnf
begin

text \<open>
  Reduction, continued: unfolding of definitions, the eliminators of inductive types and quotients, and
  the two normal form methods \<open>whnf_core\<close> and \<open>whnf\<close> (\<open>tc.rs\<close>, \<open>quot_red.rs\<close>).
\<close>

section \<open>Unfolding\<close>

definition is_let_fvar :: "env_view \<Rightarrow> u32 \<Rightarrow> bool tcm" where
  "is_let_fvar V e =
     after (tc_node V e) (\<lambda>nd.
       case nd of
         NFVar (Some i) \<Rightarrow>
           after (look tc_lctx) (\<lambda>ctx. after (lift_res (lctx_get ctx i)) (\<lambda>d.
             give (case d of Some d \<Rightarrow> ld_value d \<noteq> None | None \<Rightarrow> False)))
       | _ \<Rightarrow> give False)"

definition unfoldable :: "constant_info \<Rightarrow> nat \<Rightarrow> bool" where
  "unfoldable info nlevels \<longleftrightarrow> info_has_value info \<and> length (cv_level_params (constant_val_of info)) = nlevels"

text \<open>The table entry of the head and its key.\<close>

definition is_delta :: "env_view \<Rightarrow> u32 \<Rightarrow> (u32 \<times> constant_info) option tcm" where
  "is_delta V e =
     after (tc_get_app_fn V e) (\<lambda>f. after (tc_node V f) (\<lambda>nd.
       case nd of
         NConst (Some n) ls \<Rightarrow>
           (case view_get V n of
              Some info \<Rightarrow>
                after (tc_level_list V ls) (\<lambda>ids. give (if unfoldable info (length ids) then Some (n, info) else None))
            | None \<Rightarrow> give None)
       | _ \<Rightarrow> give None))"

definition unfold_value :: "hashers \<Rightarrow> env_view \<Rightarrow> u32 \<Rightarrow> constant_info \<Rightarrow> u32 list \<Rightarrow> u32 option tcm" where
  "unfold_value H V e info level_ids =
     after (lift_res (expect (info_value info))) (\<lambda>v.
     after (tc_instantiate_lparams H V v (cv_level_params (constant_val_of info)) level_ids) (\<lambda>r.
     after (if level_ids \<noteq> [] then alter (\<lambda>s. s\<lparr>tc_unfold_memo := (tc_unfold_memo s)(e \<mapsto> r)\<rparr>) else give ()) (\<lambda>_.
       give (Some r))))"

definition unfold_definition_core :: "hashers \<Rightarrow> env_view \<Rightarrow> u32 \<Rightarrow> u32 option tcm" where
  "unfold_definition_core H V e =
     after (tc_node V e) (\<lambda>nd.
       case nd of
         NConst n ls \<Rightarrow>
           (case env_get V n of
              Some info \<Rightarrow>
                after (tc_level_list V ls) (\<lambda>level_ids.
                  if unfoldable info (length level_ids)
                  then after (look (\<lambda>s. if level_ids \<noteq> [] then tc_unfold_memo s e else None)) (\<lambda>hit.
                    case hit of Some r \<Rightarrow> give (Some r) | None \<Rightarrow> unfold_value H V e info level_ids)
                  else give None)
            | None \<Rightarrow> give None)
       | _ \<Rightarrow> give None)"

definition unfold_definition :: "hashers \<Rightarrow> env_view \<Rightarrow> u32 \<Rightarrow> u32 option tcm" where
  "unfold_definition H V e =
     after (is_app V e) (\<lambda>app.
       if app then
         after (tc_get_app_fn V e) (\<lambda>f0. after (unfold_definition_core H V f0) (\<lambda>r.
           case r of
             Some f \<Rightarrow>
               after (tc_get_app_args V e) (\<lambda>args. after (tc_mk_app_spine V f args) (\<lambda>r. give (Some r)))
           | None \<Rightarrow> give None))
       else unfold_definition_core H V e)"

section \<open>Cheap beta\<close>

function cheap_peel :: "store option \<Rightarrow> store \<Rightarrow> nat \<Rightarrow> u32 \<Rightarrow> nat \<Rightarrow> (u32 \<times> nat) result" where
  "cheap_peel base st nargs cur i =
     (if i < nargs
      then andthen (expr_node base st cur) (\<lambda>nd.
        case nd of NLam _ _ body _ \<Rightarrow> cheap_peel base st nargs body (i + 1) | _ \<Rightarrow> Inr (cur, i))
      else Inr (cur, i))"
  by pat_completeness auto
termination by (relation "measure (\<lambda>(_, _, n, _, i). n - i)") auto

declare cheap_peel.simps [simp del]

definition cheap_beta_select :: "env_view \<Rightarrow> u32 \<Rightarrow> u32 list \<Rightarrow> u32 \<Rightarrow> nat \<Rightarrow> u32 tcm" where
  "cheap_beta_select V e args cur i =
     after (tc_data V cur) (\<lambda>d.
       if d_loose_bvar_range d = 0
       then after (lift_res (slice args i (length args))) (\<lambda>rest. tc_mk_app_spine V cur rest)
       else
         after (tc_node V cur) (\<lambda>nd.
           case nd of
             NBVar idx \<Rightarrow>
               let k = unat idx in
               if k < i
               then after (lift_res (expect (get_index args (i - k - 1)))) (\<lambda>a.
                    after (lift_res (slice args i (length args))) (\<lambda>rest. tc_mk_app_spine V a rest))
               else give e
           | _ \<Rightarrow> give e))"

definition cheap_beta_reduce :: "env_view \<Rightarrow> u32 \<Rightarrow> u32 tcm" where
  "cheap_beta_reduce V e =
     after (is_app V e) (\<lambda>app.
       if \<not> app then give e
       else
         after (tc_get_app_fn V e) (\<lambda>fn0. after (is_lambda V fn0) (\<lambda>lam.
           if \<not> lam then give e
           else
             after (tc_get_app_args V e) (\<lambda>args.
             after (reads (\<lambda>st. cheap_peel (view_base V) st (length args) fn0 0)) (\<lambda>(cur, i).
               cheap_beta_select V e args cur i)))))"

section \<open>Eliminators\<close>

definition rec_whnf :: "calls \<Rightarrow> u32 \<Rightarrow> bool \<Rightarrow> bool \<Rightarrow> u32 tcm" where
  "rec_whnf K e cheap_rec cheap_proj = (if cheap_rec then k_whnf_core K e cheap_rec cheap_proj else k_whnf K e)"

definition quot_names :: "hashers \<Rightarrow> env_view \<Rightarrow> (u32 \<times> u32 \<times> u32) tcm" where
  "quot_names H V =
     after (writes (mk_name2_id H (view_base V) ''Quot'' ''lift'')) (\<lambda>l.
     after (writes (mk_name2_id H (view_base V) ''Quot'' ''ind'')) (\<lambda>i.
     after (writes (mk_name2_id H (view_base V) ''Quot'' ''mk'')) (\<lambda>m. give (l, i, m))))"

definition quot_reduce_at :: "env_view \<Rightarrow> calls \<Rightarrow> u32 \<Rightarrow> u32 \<Rightarrow> nat \<Rightarrow> nat \<Rightarrow> u32 option tcm" where
  "quot_reduce_at V K e quot_mk mk_pos arg_pos =
     after (tc_get_app_args V e) (\<lambda>args.
       if length args \<le> mk_pos then give None
       else
         after (k_whnf K (args ! mk_pos)) (\<lambda>mk.
         after (tc_get_app_fn V mk) (\<lambda>mk_fn.
         after (tc_get_app_args V mk) (\<lambda>mk_args.
         after (const_name V mk_fn) (\<lambda>n.
           if n \<noteq> Some quot_mk \<or> length mk_args \<noteq> 3 then give None
           else
             after (lift_res (expect (get_index args arg_pos))) (\<lambda>f.
             after (tc_mk_app_spine V f [mk_args ! 2]) (\<lambda>r.
               if length args > mk_pos + 1
               then after (tc_mk_app_spine V r (drop (mk_pos + 1) args)) (\<lambda>r. give (Some r))
               else give (Some r))))))))"

definition quot_reduce_rec :: "hashers \<Rightarrow> env_view \<Rightarrow> calls \<Rightarrow> u32 \<Rightarrow> u32 option tcm" where
  "quot_reduce_rec H V K e =
     after (tc_get_app_fn V e) (\<lambda>fn0. after (const_name V fn0) (\<lambda>n.
       case n of
         None \<Rightarrow> give None
       | Some n \<Rightarrow>
           after (quot_names H V) (\<lambda>(quot_lift, quot_ind, quot_mk).
             if n = quot_lift then quot_reduce_at V K e quot_mk 5 3
             else if n = quot_ind then quot_reduce_at V K e quot_mk 4 3
             else give None)))"

fun skip_foralls :: "store option \<Rightarrow> store \<Rightarrow> nat \<Rightarrow> u32 \<Rightarrow> u32 option result" where
  "skip_foralls base st 0 t = Inr (Some t)"
| "skip_foralls base st (Suc n) t =
     andthen (expr_node base st t) (\<lambda>nd. case nd of NForall _ _ b _ \<Rightarrow> skip_foralls base st n b | _ \<Rightarrow> Inr None)"

definition get_major_induct :: "store option \<Rightarrow> u32 \<Rightarrow> nat \<Rightarrow> store \<Rightarrow> u32 option result" where
  "get_major_induct base ty major_idx st =
     andthen (skip_foralls base st major_idx ty) (\<lambda>t.
       case t of
         None \<Rightarrow> Inr None
       | Some t \<Rightarrow>
           andthen (expr_node base st t) (\<lambda>nd.
             case nd of
               NForall _ ty _ _ \<Rightarrow>
                 andthen (get_app_fn base ty st) (\<lambda>f. andthen (expr_node base st f) (\<lambda>nd. Inr (node_const_name nd)))
             | _ \<Rightarrow> Inr None))"

definition get_rec_rule_for :: "env_view \<Rightarrow> recursor_rule list \<Rightarrow> u32 \<Rightarrow> recursor_rule option tcm" where
  "get_rec_rule_for V rules major =
     after (tc_get_app_fn V major) (\<lambda>fn0. after (const_name V fn0) (\<lambda>n.
       give (case n of None \<Rightarrow> None | Some n \<Rightarrow> find (\<lambda>r. rr_ctor r = n) rules)))"

definition is_constructor_app :: "env_view \<Rightarrow> u32 \<Rightarrow> bool tcm" where
  "is_constructor_app V e =
     after (tc_get_app_fn V e) (\<lambda>f. after (tc_node V f) (\<lambda>nd.
       give (case nd of
         NConst n _ \<Rightarrow> (case env_get V n of Some (CCtor _) \<Rightarrow> True | _ \<Rightarrow> False)
       | _ \<Rightarrow> False)))"

definition first_cnstr :: "env_view \<Rightarrow> u32 option \<Rightarrow> u32 option" where
  "first_cnstr V n =
     (case env_get V n of
        Some (CInduct v) \<Rightarrow> (case iv_ctors v of c # _ \<Rightarrow> Some c | [] \<Rightarrow> None)
      | _ \<Rightarrow> None)"

definition mk_nullary_cnstr :: "env_view \<Rightarrow> u32 \<Rightarrow> nat \<Rightarrow> u32 option tcm" where
  "mk_nullary_cnstr V ty num_params =
     after (tc_get_app_args V ty) (\<lambda>args.
     after (tc_get_app_fn V ty) (\<lambda>d.
     after (tc_node V d) (\<lambda>nd.
       case nd of
         NConst d_name d_levels \<Rightarrow>
           (case first_cnstr V d_name of
              None \<Rightarrow> give None
            | Some c \<Rightarrow>
                if length args < num_params then give None
                else
                  after (tc_const V c d_levels) (\<lambda>cnstr.
                  after (tc_mk_app_spine V cnstr (take num_params args)) (\<lambda>r. give (Some r))))
       | _ \<Rightarrow> give None)))"

text \<open>Whether one of the arguments has a metavariable.\<close>

fun any_arg_mvar :: "env_view \<Rightarrow> u32 list \<Rightarrow> bool tcm" where
  "any_arg_mvar V [] = give False"
| "any_arg_mvar V (a # args) =
     after (tc_data V a) (\<lambda>d. if d_has_expr_mvar d then give True else any_arg_mvar V args)"

definition to_cnstr_when_k :: "env_view \<Rightarrow> calls \<Rightarrow> u32 \<Rightarrow> nat \<Rightarrow> u32 \<Rightarrow> bool \<Rightarrow> bool \<Rightarrow> u32 tcm" where
  "to_cnstr_when_k V K major_induct nparams e cheap_rec cheap_proj =
     after (infer_type K e) (\<lambda>it.
     after (rec_whnf K it cheap_rec cheap_proj) (\<lambda>app_type.
     after (tc_get_app_fn V app_type) (\<lambda>app_type_i.
     after (is_const_named V app_type_i major_induct) (\<lambda>yes.
       if \<not> yes then give e
       else
         after (tc_data V app_type) (\<lambda>d.
         after (if d_has_expr_mvar d
                then after (tc_get_app_args V app_type) (\<lambda>args. any_arg_mvar V (drop nparams args))
                else give False) (\<lambda>blocked.
           if blocked then give e
           else
             after (mk_nullary_cnstr V app_type nparams) (\<lambda>c.
               case c of
                 None \<Rightarrow> give e
               | Some c \<Rightarrow>
                   after (infer_type K c) (\<lambda>new_type.
                   after (is_def_eq K app_type new_type) (\<lambda>same. give (if same then c else e)))))))))) "

text \<open>The projections of the fields \<open>f\<close>, \<open>f + 1\<close>, ...\<close>

fun eta_fields :: "hashers \<Rightarrow> env_view \<Rightarrow> u32 option \<Rightarrow> u32 \<Rightarrow> nat \<Rightarrow> nat \<Rightarrow> u32 \<Rightarrow> u32 tcm" where
  "eta_fields H V i_name e f 0 r = give r"
| "eta_fields H V i_name e f (Suc n) r =
     after (tc_proj H V i_name f e) (\<lambda>p. after (tc_app V r p) (\<lambda>r. eta_fields H V i_name e (Suc f) n r))"

definition expand_eta_struct :: "hashers \<Rightarrow> env_view \<Rightarrow> u32 \<Rightarrow> u32 \<Rightarrow> u32 tcm" where
  "expand_eta_struct H V e_type e =
     after (tc_get_app_args V e_type) (\<lambda>args.
     after (tc_get_app_fn V e_type) (\<lambda>i.
     after (tc_node V i) (\<lambda>nd.
       case nd of
         NConst i_name i_levels \<Rightarrow>
           (case first_cnstr V i_name of
              None \<Rightarrow> give e
            | Some cn \<Rightarrow>
                (case env_get V (Some cn) of
                   Some (CCtor v) \<Rightarrow>
                     (case (nat_to_usize (ct_num_params v), nat_to_usize (ct_num_fields v)) of
                        (Some nparams, Some nfields) \<Rightarrow>
                          if length args < nparams then give e
                          else
                            after (tc_const V cn i_levels) (\<lambda>ctor.
                            after (tc_mk_app_spine V ctor (take nparams args)) (\<lambda>r.
                              eta_fields H V i_name e 0 nfields r))
                      | _ \<Rightarrow> give e)
                 | _ \<Rightarrow> give e))
       | _ \<Rightarrow> give e)))"

definition to_cnstr_when_structure :: "hashers \<Rightarrow> env_view \<Rightarrow> calls \<Rightarrow> u32 \<Rightarrow> u32 \<Rightarrow> bool \<Rightarrow> bool \<Rightarrow> u32 tcm" where
  "to_cnstr_when_structure H V K induct_name e cheap_rec cheap_proj =
     (if \<not> is_structure_like V induct_name then give e
      else
        after (is_constructor_app V e) (\<lambda>ctor.
          if ctor then give e
          else
            after (infer_type K e) (\<lambda>it.
            after (rec_whnf K it cheap_rec cheap_proj) (\<lambda>e_type.
            after (tc_get_app_fn V e_type) (\<lambda>f.
            after (is_const_named V f induct_name) (\<lambda>yes.
              if \<not> yes then give e
              else
                after (infer_type K e_type) (\<lambda>et.
                after (rec_whnf K et cheap_rec cheap_proj) (\<lambda>etw.
                after (writes (level_zero (view_base V))) (\<lambda>zero.
                after (tc_node V etw) (\<lambda>nd.
                  if nd = NSort zero then give e
                  else expand_eta_struct H V e_type e))))))))))"

definition major_to_cnstr :: "hashers \<Rightarrow> env_view \<Rightarrow> calls \<Rightarrow> u32 \<Rightarrow> u32 \<Rightarrow> bool \<Rightarrow> bool \<Rightarrow> u32 tcm" where
  "major_to_cnstr H V K major_induct major cheap_rec cheap_proj =
     after (tc_node V major) (\<lambda>nd.
       case nd of
         NLitNat _ \<Rightarrow> nat_lit_to_constructor H V major
       | NLitStr q \<Rightarrow>
           after (reads (\<lambda>st. str_at (view_base V) st q)) (\<lambda>s.
           after (string_lit_to_constructor H V s) (\<lambda>c. rec_whnf K c cheap_rec cheap_proj))
       | _ \<Rightarrow> to_cnstr_when_structure H V K major_induct major cheap_rec cheap_proj)"

text \<open>The instance of the rule's right-hand side, applied to parameters, motives and minor premises, to
  the fields of the constructor, and to the arguments behind the major premise.\<close>

definition rule_rhs ::
    "hashers \<Rightarrow> env_view \<Rightarrow> recursor_val \<Rightarrow> recursor_rule \<Rightarrow> u32 \<Rightarrow> u32 list \<Rightarrow> u32 list \<Rightarrow> nat \<Rightarrow> nat \<Rightarrow> nat \<Rightarrow> u32 option tcm" where
  "rule_rhs H V rv rule rec_levels rec_args major_args pmm major_idx nfields =
     after (tc_level_list V rec_levels) (\<lambda>ids.
       if length ids \<noteq> length (cv_level_params (rv_val rv)) then give None
       else
         after (tc_instantiate_lparams H V (rr_rhs rule) (cv_level_params (rv_val rv)) ids) (\<lambda>rhs.
         after (lift_res (slice rec_args 0 pmm)) (\<lambda>front.
         after (tc_mk_app_spine V rhs front) (\<lambda>rhs.
         after (tc_mk_app_spine V rhs (drop (length major_args - nfields) major_args)) (\<lambda>rhs.
           if length rec_args > major_idx + 1
           then after (tc_mk_app_spine V rhs (drop (major_idx + 1) rec_args)) (\<lambda>rhs. give (Some rhs))
           else give (Some rhs))))))"

definition reduce_major ::
    "hashers \<Rightarrow> env_view \<Rightarrow> calls \<Rightarrow> recursor_val \<Rightarrow> u32 \<Rightarrow> u32 list \<Rightarrow> nat \<Rightarrow> nat \<Rightarrow> nat \<Rightarrow> u32 \<Rightarrow> bool \<Rightarrow> bool \<Rightarrow> u32 option tcm" where
  "reduce_major H V K rv rec_levels rec_args nparams pmm major_idx major_induct cheap_rec cheap_proj =
     after (lift_res (expect (get_index rec_args major_idx))) (\<lambda>major.
     after (if rv_k rv then to_cnstr_when_k V K major_induct nparams major cheap_rec cheap_proj else give major) (\<lambda>major.
     after (rec_whnf K major cheap_rec cheap_proj) (\<lambda>major.
     after (major_to_cnstr H V K major_induct major cheap_rec cheap_proj) (\<lambda>major.
     after (get_rec_rule_for V (rv_rules rv) major) (\<lambda>rule.
       case rule of
         None \<Rightarrow> give None
       | Some rule \<Rightarrow>
           after (tc_get_app_args V major) (\<lambda>major_args.
             case nat_to_usize (rr_nfields rule) of
               None \<Rightarrow> give None
             | Some nfields \<Rightarrow>
                 if nfields > length major_args then give None
                 else rule_rhs H V rv rule rec_levels rec_args major_args pmm major_idx nfields))))))"

definition inductive_reduce_rec :: "hashers \<Rightarrow> env_view \<Rightarrow> calls \<Rightarrow> u32 \<Rightarrow> bool \<Rightarrow> bool \<Rightarrow> u32 option tcm" where
  "inductive_reduce_rec H V K e cheap_rec cheap_proj =
     after (tc_get_app_fn V e) (\<lambda>rec_fn. after (tc_node V rec_fn) (\<lambda>nd.
       case nd of
         NConst rn rec_levels \<Rightarrow>
           (case env_get V rn of
              Some (CRec rv) \<Rightarrow>
                (case (nat_to_usize (rv_num_params rv), nat_to_usize (rv_num_motives rv),
                       nat_to_usize (rv_num_minors rv), nat_to_usize (rv_num_indices rv)) of
                   (Some nparams, Some nmotives, Some nminors, Some nindices) \<Rightarrow>
                     let pmm = usize_add (usize_add nparams nmotives) nminors; major_idx = usize_add pmm nindices in
                     after (tc_get_app_args V e) (\<lambda>rec_args.
                       if major_idx \<ge> length rec_args then give None
                       else
                         after (reads (get_major_induct (view_base V) (cv_ty (rv_val rv)) major_idx)) (\<lambda>n.
                           case n of
                             None \<Rightarrow> give None
                           | Some major_induct \<Rightarrow>
                               reduce_major H V K rv rec_levels rec_args nparams pmm major_idx major_induct cheap_rec cheap_proj))
                 | _ \<Rightarrow> give None)
            | _ \<Rightarrow> give None)
       | _ \<Rightarrow> give None))"

definition reduce_recursor :: "hashers \<Rightarrow> env_view \<Rightarrow> calls \<Rightarrow> u32 \<Rightarrow> bool \<Rightarrow> bool \<Rightarrow> u32 option tcm" where
  "reduce_recursor H V K e cheap_rec cheap_proj =
     after (if v_quot_initialized V then quot_reduce_rec H V K e else give None) (\<lambda>r.
       case r of Some r \<Rightarrow> give (Some r) | None \<Rightarrow> inductive_reduce_rec H V K e cheap_rec cheap_proj)"

section \<open>Projections\<close>

definition field_of :: "env_view \<Rightarrow> u32 \<Rightarrow> nat \<Rightarrow> u32 option tcm" where
  "field_of V c idx =
     after (tc_get_app_args V c) (\<lambda>args.
     after (tc_get_app_fn V c) (\<lambda>mk.
     after (tc_node V mk) (\<lambda>nd.
       case nd of
         NConst n _ \<Rightarrow>
           after (env_get_with V n) (\<lambda>info.
             case info of
               CCtor v \<Rightarrow>
                 (case nat_to_usize (ct_num_params v) of
                    Some nparams \<Rightarrow>
                      let i = usize_add nparams idx in
                      give (if i < length args then Some (args ! i) else None)
                  | None \<Rightarrow> give None)
             | _ \<Rightarrow> give None)
       | _ \<Rightarrow> give None)))"

definition reduce_proj_core :: "hashers \<Rightarrow> env_view \<Rightarrow> calls \<Rightarrow> u32 \<Rightarrow> nat \<Rightarrow> u32 option tcm" where
  "reduce_proj_core H V K c idx =
     after (tc_node V c) (\<lambda>nd.
     after (case nd of
              NLitStr q \<Rightarrow>
                after (reads (\<lambda>st. str_at (view_base V) st q)) (\<lambda>s.
                after (string_lit_to_constructor H V s) (\<lambda>ctor. k_whnf K ctor))
            | _ \<Rightarrow> give c) (\<lambda>c. field_of V c idx))"

definition reduce_proj :: "hashers \<Rightarrow> env_view \<Rightarrow> calls \<Rightarrow> u32 \<Rightarrow> bool \<Rightarrow> bool \<Rightarrow> u32 option tcm" where
  "reduce_proj H V K e cheap_rec cheap_proj =
     after (tc_node V e) (\<lambda>nd.
       if is_proj_node nd then
         after (proj_parts V nd) (\<lambda>(_, idx, struct).
           case nat_to_usize idx of
             None \<Rightarrow> give None
           | Some idxv \<Rightarrow>
               after (if cheap_proj then k_whnf_core K struct cheap_rec cheap_proj else k_whnf K struct) (\<lambda>c.
                 reduce_proj_core H V K c idxv))
       else give None)"

section \<open>Weak head normal forms\<close>

definition whnf_fvar :: "env_view \<Rightarrow> calls \<Rightarrow> u32 \<Rightarrow> bool \<Rightarrow> bool \<Rightarrow> u32 tcm" where
  "whnf_fvar V K e cheap_rec cheap_proj =
     after (tc_node V e) (\<lambda>nd.
     after (case nd of
              NFVar (Some i) \<Rightarrow>
                after (look tc_lctx) (\<lambda>ctx. after (lift_res (lctx_get ctx i)) (\<lambda>d. give (Option.bind d ld_value)))
            | _ \<Rightarrow> give None) (\<lambda>val.
       case val of Some v \<Rightarrow> k_whnf_core K v cheap_rec cheap_proj | None \<Rightarrow> give e))"

text \<open>The loop that goes under as many lambdas as there are arguments; \<open>m\<close> counts them, the first one
  included.\<close>

function peel_lambdas :: "store option \<Rightarrow> store \<Rightarrow> nat \<Rightarrow> u32 \<Rightarrow> nat \<Rightarrow> (u32 \<times> nat) result" where
  "peel_lambdas base st num_args cur m =
     andthen (expr_node base st cur) (\<lambda>nd.
       case nd of
         NLam _ _ body _ \<Rightarrow>
           andthen (expr_node base st body) (\<lambda>b.
             if is_lam_node b \<and> m < num_args then peel_lambdas base st num_args body (m + 1) else Inr (cur, m))
       | _ \<Rightarrow> Inr (cur, m))"
  by pat_completeness auto
termination by (relation "measure (\<lambda>(_, _, n, _, m). n - m)") auto

declare peel_lambdas.simps [simp del]

definition beta_step :: "hashers \<Rightarrow> env_view \<Rightarrow> calls \<Rightarrow> u32 \<Rightarrow> u32 list \<Rightarrow> bool \<Rightarrow> bool \<Rightarrow> u32 tcm" where
  "beta_step H V K f args cheap_rec cheap_proj =
     after (reads (\<lambda>st. peel_lambdas (view_base V) st (length args) f 1)) (\<lambda>(cur, m).
     after (tc_node V cur) (\<lambda>nd.
     after (case nd of NLam _ _ body _ \<Rightarrow> give body | _ \<Rightarrow> fail Panic) (\<lambda>body.
     after (lift_res (slice args 0 m)) (\<lambda>front.
     after (tc_instantiate_rev H V body front) (\<lambda>inst.
     after (lift_res (slice args m (length args))) (\<lambda>rest.
     after (tc_mk_app_spine V inst rest) (\<lambda>applied. k_whnf_core K applied cheap_rec cheap_proj)))))))"

text \<open>What is stored in the cache, or the value that is returned at once (\<open>Inl\<close>).\<close>

definition whnf_core_app :: "hashers \<Rightarrow> env_view \<Rightarrow> calls \<Rightarrow> u32 \<Rightarrow> bool \<Rightarrow> bool \<Rightarrow> (u32 + u32) tcm" where
  "whnf_core_app H V K e cheap_rec cheap_proj =
     after (tc_get_app_args V e) (\<lambda>args.
     after (tc_get_app_fn V e) (\<lambda>f0.
     after (k_whnf_core K f0 cheap_rec cheap_proj) (\<lambda>f.
     after (is_lambda V f) (\<lambda>lam.
       if lam then after (beta_step H V K f args cheap_rec cheap_proj) (\<lambda>r. give (Inr r))
       else if f = f0 then
         after (reduce_recursor H V K e cheap_rec cheap_proj) (\<lambda>r.
           case r of
             Some r \<Rightarrow> after (k_whnf_core K r cheap_rec cheap_proj) (\<lambda>r. give (Inl r))
           | None \<Rightarrow> give (Inl e))
       else
         after (tc_mk_app_spine V f args) (\<lambda>applied.
         after (k_whnf_core K applied cheap_rec cheap_proj) (\<lambda>r. give (Inr r)))))))"

definition whnf_core_step :: "hashers \<Rightarrow> env_view \<Rightarrow> calls \<Rightarrow> u32 \<Rightarrow> bool \<Rightarrow> bool \<Rightarrow> (u32 + u32) tcm" where
  "whnf_core_step H V K e cheap_rec cheap_proj =
     after (tc_node V e) (\<lambda>nd.
       case nd of
         NFVar _ \<Rightarrow> after (whnf_fvar V K e cheap_rec cheap_proj) (\<lambda>r. give (Inl r))
       | NProj _ _ _ \<Rightarrow>
           after (reduce_proj H V K e cheap_rec cheap_proj) (\<lambda>m.
             case m of
               Some m \<Rightarrow> after (k_whnf_core K m cheap_rec cheap_proj) (\<lambda>r. give (Inr r))
             | None \<Rightarrow> give (Inr e))
       | NProjBig _ _ _ \<Rightarrow>
           after (reduce_proj H V K e cheap_rec cheap_proj) (\<lambda>m.
             case m of
               Some m \<Rightarrow> after (k_whnf_core K m cheap_rec cheap_proj) (\<lambda>r. give (Inr r))
             | None \<Rightarrow> give (Inr e))
       | NApp _ _ \<Rightarrow> whnf_core_app H V K e cheap_rec cheap_proj
       | NLetE _ _ val body _ \<Rightarrow>
           after (tc_instantiate H V body val) (\<lambda>inst.
           after (k_whnf_core K inst cheap_rec cheap_proj) (\<lambda>r. give (Inr r)))
       | _ \<Rightarrow> fail Panic)"

definition whnf_core_cached :: "hashers \<Rightarrow> env_view \<Rightarrow> calls \<Rightarrow> u32 \<Rightarrow> bool \<Rightarrow> bool \<Rightarrow> u32 tcm" where
  "whnf_core_cached H V K e cheap_rec cheap_proj =
     after (look (\<lambda>s. tc_whnf_core_cache s e)) (\<lambda>hit.
       case hit of
         Some r \<Rightarrow> give r
       | None \<Rightarrow>
           after (whnf_core_step H V K e cheap_rec cheap_proj) (\<lambda>r.
             case r of
               Inl r \<Rightarrow> give r
             | Inr r \<Rightarrow>
                 after (if \<not> cheap_rec \<and> \<not> cheap_proj
                        then alter (\<lambda>s. s\<lparr>tc_whnf_core_cache := (tc_whnf_core_cache s)(e \<mapsto> r)\<rparr>)
                        else give ()) (\<lambda>_. give r)))"

definition whnf_core :: "hashers \<Rightarrow> env_view \<Rightarrow> calls \<Rightarrow> u32 \<Rightarrow> bool \<Rightarrow> bool \<Rightarrow> u32 tcm" where
  "whnf_core H V K e cheap_rec cheap_proj = with_guard (
     after (tc_node V e) (\<lambda>nd.
       case nd of
         NBVar _ \<Rightarrow> give e | NSort _ \<Rightarrow> give e | NMVar _ \<Rightarrow> give e | NForall _ _ _ _ \<Rightarrow> give e
       | NBVarBig _ \<Rightarrow> give e | NConst _ _ \<Rightarrow> give e | NLam _ _ _ _ \<Rightarrow> give e
       | NLitNat _ \<Rightarrow> give e | NLitStr _ \<Rightarrow> give e
       | NMData _ c \<Rightarrow> k_whnf_core K c cheap_rec cheap_proj
       | NFVar _ \<Rightarrow>
           after (is_let_fvar V e) (\<lambda>lt. if lt then whnf_core_cached H V K e cheap_rec cheap_proj else give e)
       | _ \<Rightarrow> whnf_core_cached H V K e cheap_rec cheap_proj))"

definition cache_whnf :: "u32 \<Rightarrow> u32 \<Rightarrow> u32 tcm" where
  "cache_whnf e r = after (alter (\<lambda>s. s\<lparr>tc_whnf_cache := (tc_whnf_cache s)(e \<mapsto> r)\<rparr>)) (\<lambda>_. give r)"

definition whnf_loop :: "hashers \<Rightarrow> env_view \<Rightarrow> calls \<Rightarrow> u32 \<Rightarrow> u32 \<Rightarrow> u32 tcm" where
  "whnf_loop H V K e t =
     after (k_whnf_core K t False False) (\<lambda>t1.
     after (reduce_native t1) (\<lambda>v.
       case v of
         Some v \<Rightarrow> cache_whnf e v
       | None \<Rightarrow>
           after (reduce_nat H V K t1) (\<lambda>v.
             case v of
               Some v \<Rightarrow> cache_whnf e v
             | None \<Rightarrow>
                 after (unfold_definition H V t1) (\<lambda>next.
                   case next of
                     Some t \<Rightarrow> k_whnf_loop K e t
                   | None \<Rightarrow> cache_whnf e t1))))"

definition whnf_cached :: "calls \<Rightarrow> u32 \<Rightarrow> u32 tcm" where
  "whnf_cached K e =
     after (look (\<lambda>s. tc_whnf_cache s e)) (\<lambda>hit. case hit of Some r \<Rightarrow> give r | None \<Rightarrow> k_whnf_loop K e e)"

definition whnf :: "hashers \<Rightarrow> env_view \<Rightarrow> calls \<Rightarrow> u32 \<Rightarrow> u32 tcm" where
  "whnf H V K e = with_guard (
     after (tc_node V e) (\<lambda>nd.
       case nd of
         NBVar _ \<Rightarrow> give e | NBVarBig _ \<Rightarrow> give e | NSort _ \<Rightarrow> give e | NMVar _ \<Rightarrow> give e
       | NForall _ _ _ _ \<Rightarrow> give e | NLitNat _ \<Rightarrow> give e | NLitStr _ \<Rightarrow> give e
       | NMData _ c \<Rightarrow> k_whnf K c
       | NFVar _ \<Rightarrow> after (is_let_fvar V e) (\<lambda>lt. if lt then whnf_cached K e else give e)
       | _ \<Rightarrow> whnf_cached K e))"

end
