(* ===== verification/Checker_Infer.thy ===== *)
theory Checker_Infer
  imports Checker_Reduce
begin

text \<open>
  Type inference (\<open>tc.rs\<close>): \<open>infer_type_core\<close> with its cases, which check the term as well unless
  \<open>infer_only\<close> is set.
\<close>

section \<open>Sorts and functions\<close>

definition ensure_sort :: "env_view \<Rightarrow> calls \<Rightarrow> u32 \<Rightarrow> u32 tcm" where
  "ensure_sort V K e =
     after (is_sort V e) (\<lambda>b.
       if b then give e
       else
         after (k_whnf K e) (\<lambda>new_e. after (is_sort V new_e) (\<lambda>b. if b then give new_e else fail TypeExpected)))"

definition ensure_pi :: "env_view \<Rightarrow> calls \<Rightarrow> u32 \<Rightarrow> u32 tcm" where
  "ensure_pi V K e =
     after (is_forall V e) (\<lambda>b.
       if b then give e
       else
         after (k_whnf K e) (\<lambda>new_e. after (is_forall V new_e) (\<lambda>b. if b then give new_e else fail FunctionExpected)))"

definition is_prop :: "env_view \<Rightarrow> calls \<Rightarrow> u32 \<Rightarrow> bool tcm" where
  "is_prop V K e =
     after (infer_type K e) (\<lambda>ty.
     after (k_whnf K ty) (\<lambda>w.
     after (writes (level_zero (view_base V))) (\<lambda>zero.
     after (tc_node V w) (\<lambda>nd. give (nd = NSort zero)))))"

section \<open>Atoms\<close>

definition infer_lit :: "hashers \<Rightarrow> env_view \<Rightarrow> node \<Rightarrow> u32 tcm" where
  "infer_lit H V nd =
     after (case nd of
              NLitNat _ \<Rightarrow> look tc_nat_name
            | NLitStr _ \<Rightarrow> look tc_string_name
            | _ \<Rightarrow> fail Panic) (\<lambda>n.
     after (no_levels H V) (\<lambda>none. tc_const V n none))"

definition check_level :: "env_view \<Rightarrow> u32 \<Rightarrow> unit tcm" where
  "check_level V l =
     after (look (\<lambda>s. (tc_lparams s, tc_guard s))) (\<lambda>(ps, g).
     after (reads (\<lambda>st. get_undef_param_id (view_base V) st l ps g)) (\<lambda>r.
       case r of
         None \<Rightarrow> give ()
       | Some n \<Rightarrow>
           after (case n of Some i \<Rightarrow> tc_to_name V i | None \<Rightarrow> give Anonymous) (\<lambda>nm.
             fail (UnivParamArityMismatch nm))))"

definition infer_fvar :: "env_view \<Rightarrow> u32 \<Rightarrow> u32 tcm" where
  "infer_fvar V e =
     after (tc_node V e) (\<lambda>nd.
       case nd of
         NFVar (Some i) \<Rightarrow>
           after (look tc_lctx) (\<lambda>ctx. after (lift_res (lctx_get ctx i)) (\<lambda>d.
             case d of Some d \<Rightarrow> give (ld_ty d) | None \<Rightarrow> fail LooseBVar))
       | _ \<Rightarrow> fail LooseBVar)"

fun check_levels :: "env_view \<Rightarrow> u32 list \<Rightarrow> unit tcm" where
  "check_levels V [] = give ()"
| "check_levels V (l # ls) = after (check_level V l) (\<lambda>_. check_levels V ls)"

text \<open>What a constant has to pass when the term is checked.\<close>

definition check_const_use :: "env_view \<Rightarrow> constant_info \<Rightarrow> u32 list \<Rightarrow> unit tcm" where
  "check_const_use V info level_ids =
     after (look tc_safety) (\<lambda>safety.
       if info_is_unsafe info \<and> safety \<noteq> Unsafe
       then after (tc_to_name V (cv_name (constant_val_of info))) (\<lambda>nm. fail (UnsafeConstInSafeDecl nm))
       else if (case info of CDefn d \<Rightarrow> df_safety d = Partial \<and> safety = Safe | _ \<Rightarrow> False)
       then after (tc_to_name V (cv_name (constant_val_of info))) (\<lambda>nm. fail (UnsafeConstInSafeDecl nm))
       else check_levels V level_ids)"

definition infer_constant :: "hashers \<Rightarrow> env_view \<Rightarrow> u32 \<Rightarrow> bool \<Rightarrow> u32 tcm" where
  "infer_constant H V e infer_only =
     after (tc_node V e) (\<lambda>nd.
       case nd of
         NConst n ls \<Rightarrow>
           after (env_get_with V n) (\<lambda>info.
           after (tc_level_list V ls) (\<lambda>level_ids.
             let cv = constant_val_of info in
             if length (cv_level_params cv) \<noteq> length level_ids
             then after (tc_to_name V (cv_name cv)) (\<lambda>nm. fail (UnivParamArityMismatch nm))
             else
               after (if infer_only then give () else check_const_use V info level_ids) (\<lambda>_.
                 tc_instantiate_lparams H V (cv_ty cv) (cv_level_params cv) level_ids)))
       | _ \<Rightarrow> fail LooseBVar)"

section \<open>Binders\<close>

definition tc_mk_local_decl :: "hashers \<Rightarrow> env_view \<Rightarrow> u32 option \<Rightarrow> u32 \<Rightarrow> binder_info \<Rightarrow> u32 tcm" where
  "tc_mk_local_decl H V n ty bi =
     (\<lambda>s. andthen (mk_local_decl H (view_base V) (tc_fvar_gen s) n ty bi (tc_lctx s) (tc_scratch s))
        (\<lambda>((e, ctx, gen), st). Inr (e, s\<lparr>tc_scratch := st, tc_lctx := ctx, tc_fvar_gen := gen\<rparr>)))"

definition tc_mk_let_decl :: "hashers \<Rightarrow> env_view \<Rightarrow> u32 option \<Rightarrow> u32 \<Rightarrow> u32 \<Rightarrow> u32 tcm" where
  "tc_mk_let_decl H V n ty val =
     (\<lambda>s. andthen (mk_let_decl H (view_base V) (tc_fvar_gen s) n ty val (tc_lctx s) (tc_scratch s))
        (\<lambda>((e, ctx, gen), st). Inr (e, s\<lparr>tc_scratch := st, tc_lctx := ctx, tc_fvar_gen := gen\<rparr>)))"

definition tc_mk_pi :: "hashers \<Rightarrow> env_view \<Rightarrow> u32 list \<Rightarrow> u32 \<Rightarrow> u32 tcm" where
  "tc_mk_pi H V fvars e =
     after (look tc_lctx) (\<lambda>ctx. guard_writes (mk_pi H (view_base V) ctx fvars e))"

text \<open>\<open>save\<close>, the body, \<open>restore\<close>.\<close>

definition in_scope :: "'a tcm \<Rightarrow> 'a tcm" where
  "in_scope body =
     after (look (\<lambda>s. lctx_save (tc_lctx s))) (\<lambda>saved.
     after body (\<lambda>r.
     after (\<lambda>s. andthen (lctx_restore saved (tc_lctx s)) (\<lambda>ctx. Inr ((), s\<lparr>tc_lctx := ctx\<rparr>))) (\<lambda>_. give r)))"

definition lambda_loop :: "hashers \<Rightarrow> env_view \<Rightarrow> calls \<Rightarrow> bool \<Rightarrow> u32 \<Rightarrow> u32 list \<Rightarrow> (u32 \<times> u32 list) tcm" where
  "lambda_loop H V K infer_only e fvars =
     after (tc_node V e) (\<lambda>nd.
       case nd of
         NLam n ty body bi \<Rightarrow>
           after (tc_instantiate_rev H V ty fvars) (\<lambda>d.
           after (tc_mk_local_decl H V n d bi) (\<lambda>fvar.
           after (if infer_only then give ()
                  else after (k_infer_type_core K d infer_only) (\<lambda>dty. after (ensure_sort V K dty) (\<lambda>_. give ()))) (\<lambda>_.
             k_lambda_loop K infer_only body (fvars @ [fvar]))))
       | _ \<Rightarrow> give (e, fvars))"

definition infer_lambda_body :: "hashers \<Rightarrow> env_view \<Rightarrow> calls \<Rightarrow> u32 \<Rightarrow> bool \<Rightarrow> u32 tcm" where
  "infer_lambda_body H V K e0 infer_only =
     after (k_lambda_loop K infer_only e0 []) (\<lambda>(e, fvars).
     after (tc_instantiate_rev H V e fvars) (\<lambda>inst.
     after (k_infer_type_core K inst infer_only) (\<lambda>r.
     after (cheap_beta_reduce V r) (\<lambda>r. tc_mk_pi H V fvars r))))"

definition infer_lambda :: "hashers \<Rightarrow> env_view \<Rightarrow> calls \<Rightarrow> u32 \<Rightarrow> bool \<Rightarrow> u32 tcm" where
  "infer_lambda H V K e infer_only = in_scope (infer_lambda_body H V K e infer_only)"

definition sort_level :: "env_view \<Rightarrow> u32 \<Rightarrow> u32 tcm" where
  "sort_level V e = after (tc_node V e) (\<lambda>nd. case nd of NSort l \<Rightarrow> give l | _ \<Rightarrow> fail TypeExpected)"

definition pi_loop ::
    "hashers \<Rightarrow> env_view \<Rightarrow> calls \<Rightarrow> bool \<Rightarrow> u32 \<Rightarrow> u32 list \<Rightarrow> u32 list \<Rightarrow> (u32 \<times> u32 list \<times> u32 list) tcm" where
  "pi_loop H V K infer_only e fvars us =
     after (tc_node V e) (\<lambda>nd.
       case nd of
         NForall n ty body bi \<Rightarrow>
           after (tc_instantiate_rev H V ty fvars) (\<lambda>d.
           after (k_infer_type_core K d infer_only) (\<lambda>dty.
           after (ensure_sort V K dty) (\<lambda>t1.
           after (sort_level V t1) (\<lambda>lvl.
           after (tc_mk_local_decl H V n d bi) (\<lambda>fvar.
             k_pi_loop K infer_only body (fvars @ [fvar]) (us @ [lvl]))))))
       | _ \<Rightarrow> give (e, fvars, us))"

text \<open>The loop over the levels from the last one: \<open>us\<close> comes reversed.\<close>

fun imax_levels :: "hashers \<Rightarrow> env_view \<Rightarrow> u32 list \<Rightarrow> u32 \<Rightarrow> u32 tcm" where
  "imax_levels H V [] r = give r"
| "imax_levels H V (u # us) r =
     after (reads (\<lambda>st. to_level (view_base V) st u)) (\<lambda>ul.
     after (reads (\<lambda>st. to_level (view_base V) st r)) (\<lambda>rl.
     after (guard_res (mk_imax_pair ul rl)) (\<lambda>merged.
     after (writes (intern_level H (view_base V) merged)) (\<lambda>r. imax_levels H V us r))))"

definition tc_sort :: "env_view \<Rightarrow> u32 \<Rightarrow> u32 tcm" where
  "tc_sort V l = writes (expr_sort (view_base V) l)"

definition infer_pi_body :: "hashers \<Rightarrow> env_view \<Rightarrow> calls \<Rightarrow> u32 \<Rightarrow> bool \<Rightarrow> u32 tcm" where
  "infer_pi_body H V K e0 infer_only =
     after (k_pi_loop K infer_only e0 [] []) (\<lambda>(e, fvars, us).
     after (tc_instantiate_rev H V e fvars) (\<lambda>inst.
     after (k_infer_type_core K inst infer_only) (\<lambda>sty.
     after (ensure_sort V K sty) (\<lambda>s.
     after (sort_level V s) (\<lambda>r.
     after (imax_levels H V (rev us) r) (\<lambda>r. tc_sort V r))))))"

definition infer_pi :: "hashers \<Rightarrow> env_view \<Rightarrow> calls \<Rightarrow> u32 \<Rightarrow> bool \<Rightarrow> u32 tcm" where
  "infer_pi H V K e infer_only = in_scope (infer_pi_body H V K e infer_only)"

definition let_loop :: "hashers \<Rightarrow> env_view \<Rightarrow> calls \<Rightarrow> bool \<Rightarrow> u32 \<Rightarrow> u32 list \<Rightarrow> (u32 \<times> u32 list) tcm" where
  "let_loop H V K infer_only e fvars =
     after (tc_node V e) (\<lambda>nd.
       case nd of
         NLetE n ty val body _ \<Rightarrow>
           after (tc_instantiate_rev H V ty fvars) (\<lambda>tp.
           after (tc_instantiate_rev H V val fvars) (\<lambda>val.
           after (tc_mk_let_decl H V n tp val) (\<lambda>fvar.
           after (if infer_only then give ()
                  else
                    after (k_infer_type_core K tp infer_only) (\<lambda>tty.
                    after (ensure_sort V K tty) (\<lambda>_.
                    after (k_infer_type_core K val infer_only) (\<lambda>val_type.
                    after (is_def_eq K val_type tp) (\<lambda>same. if same then give () else fail LetTypeMismatch))))) (\<lambda>_.
             k_let_loop K infer_only body (fvars @ [fvar])))))
       | _ \<Rightarrow> give (e, fvars))"

definition infer_let_body :: "hashers \<Rightarrow> env_view \<Rightarrow> calls \<Rightarrow> u32 \<Rightarrow> bool \<Rightarrow> u32 tcm" where
  "infer_let_body H V K e0 infer_only =
     after (k_let_loop K infer_only e0 []) (\<lambda>(e, fvars).
     after (tc_instantiate_rev H V e fvars) (\<lambda>inst.
     after (k_infer_type_core K inst infer_only) (\<lambda>r.
     after (cheap_beta_reduce V r) (\<lambda>r. tc_mk_pi H V fvars r))))"

definition infer_let :: "hashers \<Rightarrow> env_view \<Rightarrow> calls \<Rightarrow> u32 \<Rightarrow> bool \<Rightarrow> u32 tcm" where
  "infer_let H V K e infer_only = in_scope (infer_let_body H V K e infer_only)"

section \<open>Applications\<close>

definition infer_app_check :: "hashers \<Rightarrow> env_view \<Rightarrow> calls \<Rightarrow> u32 \<Rightarrow> u32 tcm" where
  "infer_app_check H V K e =
     after (tc_node V e) (\<lambda>nd.
       case nd of
         NApp f arg \<Rightarrow>
           after (k_infer_type_core K f False) (\<lambda>ft.
           after (ensure_pi V K ft) (\<lambda>f_type.
           after (k_infer_type_core K arg False) (\<lambda>a_type.
           after (tc_node V f_type) (\<lambda>nd.
             case nd of
               NForall _ d_type body _ \<Rightarrow>
                 after (is_def_eq K a_type d_type) (\<lambda>same.
                   if same then tc_instantiate H V body arg else fail AppTypeMismatch)
             | _ \<Rightarrow> fail FunctionExpected))))
       | _ \<Rightarrow> fail LooseBVar)"

text \<open>The loop over the arguments \<open>i\<close>, \<open>i + 1\<close>, ..., of which \<open>k\<close> are left; the type's loose variables
  stand for the arguments from \<open>j\<close> to \<open>i\<close>.\<close>

fun infer_app_loop :: "hashers \<Rightarrow> env_view \<Rightarrow> calls \<Rightarrow> u32 list \<Rightarrow> nat \<Rightarrow> nat \<Rightarrow> nat \<Rightarrow> u32 \<Rightarrow> (u32 \<times> nat) tcm" where
  "infer_app_loop H V K args 0 i j f_type = give (f_type, j)"
| "infer_app_loop H V K args (Suc k) i j f_type =
     after (tc_node V f_type) (\<lambda>nd.
       case nd of
         NForall _ _ body _ \<Rightarrow> infer_app_loop H V K args k (Suc i) j body
       | _ \<Rightarrow>
           after (lift_res (slice args j i)) (\<lambda>part.
           after (tc_instantiate_rev H V f_type part) (\<lambda>f_type.
           after (ensure_pi V K f_type) (\<lambda>f_type.
           after (tc_node V f_type) (\<lambda>nd.
             case nd of
               NForall _ _ body _ \<Rightarrow> infer_app_loop H V K args k (Suc i) i body
             | _ \<Rightarrow> fail FunctionExpected)))))"

definition infer_app_only :: "hashers \<Rightarrow> env_view \<Rightarrow> calls \<Rightarrow> u32 \<Rightarrow> u32 tcm" where
  "infer_app_only H V K e =
     after (tc_get_app_args V e) (\<lambda>args.
     after (tc_get_app_fn V e) (\<lambda>f.
     after (k_infer_type_core K f True) (\<lambda>f_type.
     after (infer_app_loop H V K args (length args) 0 0 f_type) (\<lambda>(f_type, j).
     after (lift_res (slice args j (length args))) (\<lambda>rest. tc_instantiate_rev H V f_type rest)))))"

definition infer_app :: "hashers \<Rightarrow> env_view \<Rightarrow> calls \<Rightarrow> u32 \<Rightarrow> bool \<Rightarrow> u32 tcm" where
  "infer_app H V K e infer_only = (if infer_only then infer_app_only H V K e else infer_app_check H V K e)"

section \<open>Projections\<close>

text \<open>The type of the constructor with its parameters filled in.\<close>

fun proj_params :: "hashers \<Rightarrow> env_view \<Rightarrow> calls \<Rightarrow> u32 list \<Rightarrow> u32 \<Rightarrow> u32 tcm" where
  "proj_params H V K [] r = give r"
| "proj_params H V K (arg # args) r =
     after (k_whnf K r) (\<lambda>r. after (tc_node V r) (\<lambda>nd.
       case nd of
         NForall _ _ body _ \<Rightarrow> after (tc_instantiate H V body arg) (\<lambda>r. proj_params H V K args r)
       | _ \<Rightarrow> fail InvalidProj))"

text \<open>A field of a proposition may be used only if it is a proposition itself.\<close>

definition check_prop_field :: "env_view \<Rightarrow> calls \<Rightarrow> bool \<Rightarrow> u32 \<Rightarrow> unit tcm" where
  "check_prop_field V K is_prop_type ty =
     (if is_prop_type then after (is_prop V K ty) (\<lambda>p. if p then give () else fail InvalidProj) else give ())"

text \<open>The fields \<open>i\<close>, \<open>i + 1\<close>, ..., of which \<open>k\<close> are left, are filled in by projections.\<close>

fun proj_fields :: "hashers \<Rightarrow> env_view \<Rightarrow> calls \<Rightarrow> u32 option \<Rightarrow> u32 \<Rightarrow> bool \<Rightarrow> nat \<Rightarrow> nat \<Rightarrow> u32 \<Rightarrow> u32 tcm" where
  "proj_fields H V K i_name struct is_prop_type 0 i r = give r"
| "proj_fields H V K i_name struct is_prop_type (Suc k) i r =
     after (k_whnf K r) (\<lambda>r. after (tc_node V r) (\<lambda>nd.
       case nd of
         NForall _ ty body _ \<Rightarrow>
           after (has_loose_bvars V body) (\<lambda>loose.
             if loose then
               after (check_prop_field V K is_prop_type ty) (\<lambda>_.
               after (tc_proj H V i_name i struct) (\<lambda>p.
               after (tc_instantiate H V body p) (\<lambda>r. proj_fields H V K i_name struct is_prop_type k (Suc i) r)))
             else proj_fields H V K i_name struct is_prop_type k (Suc i) body)
       | _ \<Rightarrow> fail InvalidProj))"

definition proj_from_ctor ::
    "hashers \<Rightarrow> env_view \<Rightarrow> calls \<Rightarrow> u32 option \<Rightarrow> u32 \<Rightarrow> nat \<Rightarrow> u32 \<Rightarrow> u32 list \<Rightarrow> nat \<Rightarrow> u32 \<Rightarrow> u32 \<Rightarrow> u32 tcm" where
  "proj_from_ctor H V K i_name i_levels idxv struct args nparams cn tp =
     after (env_get_with V (Some cn)) (\<lambda>c_info.
     after (tc_level_list V i_levels) (\<lambda>level_ids.
     after (tc_instantiate_lparams H V (cv_ty (constant_val_of c_info)) (cv_level_params (constant_val_of c_info)) level_ids) (\<lambda>r.
     after (proj_params H V K (take nparams args) r) (\<lambda>r.
     after (is_prop V K tp) (\<lambda>is_prop_type.
     after (proj_fields H V K i_name struct is_prop_type idxv 0 r) (\<lambda>r.
     after (k_whnf K r) (\<lambda>r. after (tc_node V r) (\<lambda>nd.
       case nd of
         NForall _ ty _ _ \<Rightarrow> after (check_prop_field V K is_prop_type ty) (\<lambda>_. give ty)
       | _ \<Rightarrow> fail InvalidProj))))))))"

definition proj_of_type :: "hashers \<Rightarrow> env_view \<Rightarrow> calls \<Rightarrow> u32 option \<Rightarrow> nat \<Rightarrow> u32 \<Rightarrow> u32 \<Rightarrow> u32 tcm" where
  "proj_of_type H V K proj_name idxv struct tp =
     after (tc_get_app_args V tp) (\<lambda>args.
     after (tc_get_app_fn V tp) (\<lambda>head.
     after (tc_node V head) (\<lambda>nd.
       case nd of
         NConst i_name i_levels \<Rightarrow>
           if i_name \<noteq> proj_name then fail InvalidProj
           else
             after (env_get_with V i_name) (\<lambda>i_info.
               case i_info of
                 CInduct v \<Rightarrow>
                   (case (nat_to_usize (iv_num_params v), nat_to_usize (iv_num_indices v)) of
                      (Some nparams, Some nindices) \<Rightarrow>
                        (case iv_ctors v of
                           [cn] \<Rightarrow>
                             if length args \<noteq> usize_add nparams nindices then fail InvalidProj
                             else proj_from_ctor H V K i_name i_levels idxv struct args nparams cn tp
                         | _ \<Rightarrow> fail InvalidProj)
                    | _ \<Rightarrow> fail InvalidProj)
               | _ \<Rightarrow> fail InvalidProj)
       | _ \<Rightarrow> fail InvalidProj)))"

definition infer_proj :: "hashers \<Rightarrow> env_view \<Rightarrow> calls \<Rightarrow> u32 \<Rightarrow> bool \<Rightarrow> u32 tcm" where
  "infer_proj H V K e infer_only =
     after (tc_node V e) (\<lambda>nd.
       if is_proj_node nd then
         after (proj_parts V nd) (\<lambda>(proj_name, idx, struct).
         after (k_infer_type_core K struct infer_only) (\<lambda>sty.
         after (k_whnf K sty) (\<lambda>tp.
           case nat_to_usize idx of
             Some idxv \<Rightarrow> proj_of_type H V K proj_name idxv struct tp
           | None \<Rightarrow> fail InvalidProj)))
       else fail InvalidProj)"

section \<open>Inference\<close>

definition infer_node :: "hashers \<Rightarrow> env_view \<Rightarrow> calls \<Rightarrow> u32 \<Rightarrow> bool \<Rightarrow> node \<Rightarrow> u32 tcm" where
  "infer_node H V K e infer_only nd =
     (case nd of
        NLitNat _ \<Rightarrow> infer_lit H V nd
      | NLitStr _ \<Rightarrow> infer_lit H V nd
      | NMData _ c \<Rightarrow> k_infer_type_core K c infer_only
      | NProj _ _ _ \<Rightarrow> infer_proj H V K e infer_only
      | NProjBig _ _ _ \<Rightarrow> infer_proj H V K e infer_only
      | NFVar _ \<Rightarrow> infer_fvar V e
      | NMVar _ \<Rightarrow> fail MetavarEncountered
      | NBVar _ \<Rightarrow> fail LooseBVar
      | NBVarBig _ \<Rightarrow> fail LooseBVar
      | NSort l \<Rightarrow>
          after (if infer_only then give () else check_level V l) (\<lambda>_.
          after (writes (level_succ (view_base V) l)) (\<lambda>l2. tc_sort V l2))
      | NConst _ _ \<Rightarrow> infer_constant H V e infer_only
      | NLam _ _ _ _ \<Rightarrow> infer_lambda H V K e infer_only
      | NForall _ _ _ _ \<Rightarrow> infer_pi H V K e infer_only
      | NApp _ _ \<Rightarrow> infer_app H V K e infer_only
      | NLetE _ _ _ _ _ \<Rightarrow> infer_let H V K e infer_only)"

definition cache_infer :: "bool \<Rightarrow> u32 \<Rightarrow> u32 \<Rightarrow> unit tcm" where
  "cache_infer infer_only e r =
     alter (\<lambda>s. s\<lparr>tc_infer_cache := (tc_infer_cache s)(infer_only := (tc_infer_cache s infer_only)(e \<mapsto> r))\<rparr>)"

definition infer_type_core :: "hashers \<Rightarrow> env_view \<Rightarrow> calls \<Rightarrow> u32 \<Rightarrow> bool \<Rightarrow> u32 tcm" where
  "infer_type_core H V K e infer_only = with_guard (
     after (has_loose_bvars V e) (\<lambda>loose.
       if loose then fail LooseBVar
       else
         after (look (\<lambda>s. tc_infer_cache s infer_only e)) (\<lambda>hit.
           case hit of
             Some r \<Rightarrow> give r
           | None \<Rightarrow>
               after (tc_node V e) (\<lambda>nd.
               after (infer_node H V K e infer_only nd) (\<lambda>r.
               after (cache_infer infer_only e r) (\<lambda>_. give r))))))"

text \<open>\<open>check\<close> sets the universe parameters that the term may use.\<close>

definition check :: "calls \<Rightarrow> u32 \<Rightarrow> u32 list \<Rightarrow> u32 tcm" where
  "check K e lparams = after (alter (\<lambda>s. s\<lparr>tc_lparams := lparams\<rparr>)) (\<lambda>_. k_infer_type_core K e False)"

end
