(* ===== verification/Checker_Defeq.thy ===== *)
theory Checker_Defeq
  imports Checker_Infer
begin

text \<open>
  Definitional equality (\<open>tc.rs\<close>): the quick tests, lazy unfolding, eta, proof irrelevance and the failure
  cache. A \<open>&mut ExprId\<close> argument is returned beside the result.
\<close>

section \<open>Quick tests\<close>

text \<open>Under binders of the same kind: \<open>None\<close> means that two domains differ, otherwise the bodies and what
  stands for their variables. A variable that neither body uses is not declared.\<close>

definition binding_var :: "hashers \<Rightarrow> env_view \<Rightarrow> u32 option \<Rightarrow> u32 \<Rightarrow> u32 option \<Rightarrow> binder_info \<Rightarrow> u32 list \<Rightarrow> u32 tcm" where
  "binding_var H V var_s_type s_dom s_name s_info subst =
     after (case var_s_type of Some v \<Rightarrow> give v | None \<Rightarrow> tc_instantiate_rev H V s_dom subst) (\<lambda>vst.
       tc_mk_local_decl H V s_name vst s_info)"

definition binding_doms :: "hashers \<Rightarrow> env_view \<Rightarrow> calls \<Rightarrow> u32 \<Rightarrow> u32 \<Rightarrow> u32 list \<Rightarrow> u32 option option tcm" where
  "binding_doms H V K t_dom s_dom subst =
     (if t_dom \<noteq> s_dom
      then
        after (tc_instantiate_rev H V s_dom subst) (\<lambda>vst.
        after (tc_instantiate_rev H V t_dom subst) (\<lambda>vtt.
        after (is_def_eq K vtt vst) (\<lambda>same. give (if same then Some (Some vst) else None))))
      else give (Some None))"

definition binding_loop ::
    "hashers \<Rightarrow> env_view \<Rightarrow> calls \<Rightarrow> bool \<Rightarrow> u32 \<Rightarrow> u32 \<Rightarrow> u32 list \<Rightarrow> (u32 \<times> u32 \<times> u32 list) option tcm" where
  "binding_loop H V K is_lam t s subst =
     after (binder_dom_body V t) (\<lambda>(t_dom, t_body).
     after (binder_full V s) (\<lambda>(s_dom, s_body, s_name, s_info).
     after (binding_doms H V K t_dom s_dom subst) (\<lambda>doms.
       case doms of
         None \<Rightarrow> give None
       | Some var_s_type \<Rightarrow>
           after (has_loose_bvars V t_body) (\<lambda>tl.
           after (if tl then give True else has_loose_bvars V s_body) (\<lambda>used.
           after (if used then binding_var H V var_s_type s_dom s_name s_info subst else look tc_dont_care) (\<lambda>x.
           after (tc_node V t_body) (\<lambda>tn.
           after (tc_node V s_body) (\<lambda>sn.
             if (if is_lam then is_lam_node tn \<and> is_lam_node sn else is_forall_node tn \<and> is_forall_node sn)
             then k_binding_loop K is_lam t_body s_body (subst @ [x])
             else give (Some (t_body, s_body, subst @ [x]))))))))))"

definition is_def_eq_binding_body :: "hashers \<Rightarrow> env_view \<Rightarrow> calls \<Rightarrow> u32 \<Rightarrow> u32 \<Rightarrow> bool tcm" where
  "is_def_eq_binding_body H V K t s =
     after (is_lambda V t) (\<lambda>is_lam.
     after (k_binding_loop K is_lam t s []) (\<lambda>r.
       case r of
         None \<Rightarrow> give False
       | Some (t, s, subst) \<Rightarrow>
           after (tc_instantiate_rev H V t subst) (\<lambda>ti.
           after (tc_instantiate_rev H V s subst) (\<lambda>si. is_def_eq K ti si))))"

definition is_def_eq_binding :: "hashers \<Rightarrow> env_view \<Rightarrow> calls \<Rightarrow> u32 \<Rightarrow> u32 \<Rightarrow> bool tcm" where
  "is_def_eq_binding H V K t s = in_scope (is_def_eq_binding_body H V K t s)"

definition tc_is_equiv :: "env_view \<Rightarrow> u32 \<Rightarrow> u32 \<Rightarrow> bool \<Rightarrow> bool tcm" where
  "tc_is_equiv V t s' use_hash =
     (\<lambda>s. andthen (is_equiv (view_base V) (tc_scratch s) t s' use_hash (tc_guard s) (tc_eqv_cache s))
        (\<lambda>(r, uf). Inr (r, s\<lparr>tc_eqv_cache := uf\<rparr>)))"

definition tc_levels_equivalent :: "env_view \<Rightarrow> u32 \<Rightarrow> u32 \<Rightarrow> bool tcm" where
  "tc_levels_equivalent V a b =
     after (reads (\<lambda>st. to_level (view_base V) st a)) (\<lambda>la.
     after (reads (\<lambda>st. to_level (view_base V) st b)) (\<lambda>lb. guard_res (is_equivalent la lb)))"

definition quick_nodes :: "hashers \<Rightarrow> env_view \<Rightarrow> calls \<Rightarrow> u32 \<Rightarrow> u32 \<Rightarrow> node \<Rightarrow> node \<Rightarrow> lbool tcm" where
  "quick_nodes H V K t s tn sn =
     (case tn of
        NLam _ _ _ _ \<Rightarrow>
          if is_lam_node sn then after (is_def_eq_binding H V K t s) (\<lambda>b. give (to_lbool b)) else give LUndef
      | NForall _ _ _ _ \<Rightarrow>
          if is_forall_node sn then after (is_def_eq_binding H V K t s) (\<lambda>b. give (to_lbool b)) else give LUndef
      | NSort lt \<Rightarrow>
          (case sn of
             NSort ls \<Rightarrow> after (tc_levels_equivalent V lt ls) (\<lambda>b. give (to_lbool b))
           | _ \<Rightarrow> give LUndef)
      | NMData _ et \<Rightarrow>
          (case sn of
             NMData _ es \<Rightarrow> after (is_def_eq K et es) (\<lambda>b. give (to_lbool b))
           | _ \<Rightarrow> give LUndef)
      | NLitNat va \<Rightarrow> (case sn of NLitNat vb \<Rightarrow> give (to_lbool (va = vb)) | _ \<Rightarrow> give LUndef)
      | NLitStr va \<Rightarrow> (case sn of NLitStr vb \<Rightarrow> give (to_lbool (va = vb)) | _ \<Rightarrow> give LUndef)
      | _ \<Rightarrow> give LUndef)"

definition quick_is_def_eq :: "hashers \<Rightarrow> env_view \<Rightarrow> calls \<Rightarrow> u32 \<Rightarrow> u32 \<Rightarrow> bool \<Rightarrow> lbool tcm" where
  "quick_is_def_eq H V K t s use_hash =
     after (tc_is_equiv V t s use_hash) (\<lambda>eq.
       if eq then give LTrue
       else
         after (tc_node V t) (\<lambda>tn. after (tc_node V s) (\<lambda>sn. quick_nodes H V K t s tn sn)))"

section \<open>Applications\<close>

definition args_loop :: "env_view \<Rightarrow> calls \<Rightarrow> u32 \<Rightarrow> u32 \<Rightarrow> bool tcm" where
  "args_loop V K t s =
     after (tc_node V t) (\<lambda>tn. after (tc_node V s) (\<lambda>sn.
       case (tn, sn) of
         (NApp tf ta, NApp sf sa) \<Rightarrow>
           after (is_def_eq K ta sa) (\<lambda>same. if same then k_args_loop K tf sf else give False)
       | _ \<Rightarrow> give (\<not> is_app_node tn \<and> \<not> is_app_node sn)))"

definition is_def_eq_args :: "calls \<Rightarrow> u32 \<Rightarrow> u32 \<Rightarrow> bool tcm" where
  "is_def_eq_args K t s = k_args_loop K t s"

fun all_def_eq :: "calls \<Rightarrow> (u32 \<times> u32) list \<Rightarrow> bool tcm" where
  "all_def_eq K [] = give True"
| "all_def_eq K ((a, b) # ps) = after (is_def_eq K a b) (\<lambda>same. if same then all_def_eq K ps else give False)"

definition is_def_eq_app :: "env_view \<Rightarrow> calls \<Rightarrow> u32 \<Rightarrow> u32 \<Rightarrow> bool tcm" where
  "is_def_eq_app V K t s =
     after (is_app V t) (\<lambda>ta. after (if ta then is_app V s else give False) (\<lambda>both.
       if both then
         after (tc_get_app_args V t) (\<lambda>t_args.
         after (tc_get_app_fn V t) (\<lambda>t_fn.
         after (tc_get_app_args V s) (\<lambda>s_args.
         after (tc_get_app_fn V s) (\<lambda>s_fn.
         after (is_def_eq K t_fn s_fn) (\<lambda>same.
           if same \<and> length t_args = length s_args then all_def_eq K (zip t_args s_args) else give False)))))
       else give False))"

definition is_def_eq_proof_irrel :: "env_view \<Rightarrow> calls \<Rightarrow> u32 \<Rightarrow> u32 \<Rightarrow> lbool tcm" where
  "is_def_eq_proof_irrel V K t s =
     after (infer_type K t) (\<lambda>t_type.
     after (is_prop V K t_type) (\<lambda>p.
       if \<not> p then give LUndef
       else
         after (infer_type K s) (\<lambda>s_type. after (is_def_eq K t_type s_type) (\<lambda>b. give (to_lbool b)))))"

fun all_levels_equivalent :: "env_view \<Rightarrow> (u32 \<times> u32) list \<Rightarrow> bool tcm" where
  "all_levels_equivalent V [] = give True"
| "all_levels_equivalent V ((a, b) # ps) =
     after (tc_levels_equivalent V a b) (\<lambda>same. if same then all_levels_equivalent V ps else give False)"

definition is_def_eq_levels :: "env_view \<Rightarrow> u32 list \<Rightarrow> u32 list \<Rightarrow> bool tcm" where
  "is_def_eq_levels V ls1 ls2 =
     (if length ls1 \<noteq> length ls2 then give False else all_levels_equivalent V (zip ls1 ls2))"

section \<open>The failure cache\<close>

definition tc_hashes :: "env_view \<Rightarrow> u32 \<Rightarrow> u32 \<Rightarrow> (u32 \<times> u32) tcm" where
  "tc_hashes V t s = after (tc_data V t) (\<lambda>dt. after (tc_data V s) (\<lambda>ds. give (d_hash dt, d_hash ds)))"

definition failed_before :: "env_view \<Rightarrow> u32 \<Rightarrow> u32 \<Rightarrow> bool tcm" where
  "failed_before V t s' =
     after (tc_hashes V t s') (\<lambda>(ht, hs).
       look (\<lambda>s.
         if ht < hs then (t, s') \<in> tc_failure_cache s
         else if ht > hs then (s', t) \<in> tc_failure_cache s
         else (t, s') \<in> tc_failure_cache s \<or> (s', t) \<in> tc_failure_cache s))"

definition cache_failure :: "env_view \<Rightarrow> u32 \<Rightarrow> u32 \<Rightarrow> unit tcm" where
  "cache_failure V t s' =
     after (tc_hashes V t s') (\<lambda>(ht, hs).
       alter (\<lambda>s. s\<lparr>tc_failure_cache := insert (if ht \<le> hs then (t, s') else (s', t)) (tc_failure_cache s)\<rparr>))"

section \<open>Lazy unfolding\<close>

datatype reduction_status = Continue | DefUnknown | DefEqual | DefDiff

definition try_unfold_proj_app :: "env_view \<Rightarrow> calls \<Rightarrow> u32 \<Rightarrow> u32 option tcm" where
  "try_unfold_proj_app V K e =
     after (tc_get_app_fn V e) (\<lambda>f. after (is_proj V f) (\<lambda>p.
       if p then
         after (k_whnf_core K e False False) (\<lambda>e_new. give (if e_new \<noteq> e then Some e_new else None))
       else give None))"

definition unfold_and_whnf :: "hashers \<Rightarrow> env_view \<Rightarrow> calls \<Rightarrow> u32 \<Rightarrow> u32 tcm" where
  "unfold_and_whnf H V K e =
     after (reduce_nat H V K e) (\<lambda>v.
       case v of
         Some v \<Rightarrow> give v
       | None \<Rightarrow>
           after (unfold_definition H V e) (\<lambda>u.
             case u of Some u \<Rightarrow> k_whnf_core K u False True | None \<Rightarrow> give e))"

text \<open>Of two constants with the same hint: the arguments are compared before both sides are unfolded.
  \<open>is_delta\<close> gives the table entry with its key, and \<open>std::ptr::eq\<close> on two entries compares the keys.\<close>

definition same_head_args :: "env_view \<Rightarrow> calls \<Rightarrow> u32 \<Rightarrow> u32 \<Rightarrow> bool tcm" where
  "same_head_args V K t s =
     after (const_levels_of_head V t) (\<lambda>lt.
     after (const_levels_of_head V s) (\<lambda>ls.
     after (is_def_eq_levels V lt ls) (\<lambda>same. if same then is_def_eq_args K t s else give False)))"

definition try_same_head :: "env_view \<Rightarrow> calls \<Rightarrow> u32 \<Rightarrow> u32 \<Rightarrow> u32 \<times> constant_info \<Rightarrow> u32 \<times> constant_info \<Rightarrow> bool tcm" where
  "try_same_head V K t s dt ds =
     after (is_app V t) (\<lambda>ta.
     after (if ta then is_app V s else give False) (\<lambda>both.
     after (if both \<and> fst dt = fst ds \<and> is_regular_hint (info_hints (snd dt))
            then after (failed_before V t s) (\<lambda>f. give (\<not> f)) else give False) (\<lambda>go.
       if go then
         after (same_head_args V K t s) (\<lambda>same.
           if same then give True else after (cache_failure V t s) (\<lambda>_. give False))
       else give False)))"

text \<open>\<open>None\<close>: already equal. Otherwise the two terms to go on with.\<close>

definition lazy_delta_unfold ::
    "hashers \<Rightarrow> env_view \<Rightarrow> calls \<Rightarrow> u32 \<Rightarrow> u32 \<Rightarrow> (u32 \<times> constant_info) option
      \<Rightarrow> (u32 \<times> constant_info) option \<Rightarrow> (u32 \<times> u32) option tcm" where
  "lazy_delta_unfold H V K t s d_t d_s =
     (case (d_t, d_s) of
        (Some _, None) \<Rightarrow>
          after (try_unfold_proj_app V K s) (\<lambda>r.
            case r of
              Some s_new \<Rightarrow> give (Some (t, s_new))
            | None \<Rightarrow> after (unfold_and_whnf H V K t) (\<lambda>t. give (Some (t, s))))
      | (None, Some _) \<Rightarrow>
          after (try_unfold_proj_app V K t) (\<lambda>r.
            case r of
              Some t_new \<Rightarrow> give (Some (t_new, s))
            | None \<Rightarrow> after (unfold_and_whnf H V K s) (\<lambda>s. give (Some (t, s))))
      | (Some dt, Some ds) \<Rightarrow>
          (let c = compare_hints (info_hints (snd dt)) (info_hints (snd ds)) in
           if c < 0 then after (unfold_and_whnf H V K t) (\<lambda>t. give (Some (t, s)))
           else if c > 0 then after (unfold_and_whnf H V K s) (\<lambda>s. give (Some (t, s)))
           else
             after (try_same_head V K t s dt ds) (\<lambda>eq.
               if eq then give None
               else
                 after (unfold_and_whnf H V K t) (\<lambda>t.
                 after (unfold_and_whnf H V K s) (\<lambda>s. give (Some (t, s))))))
      | (None, None) \<Rightarrow> give (Some (t, s)))"

definition lazy_delta_reduction_step ::
    "hashers \<Rightarrow> env_view \<Rightarrow> calls \<Rightarrow> u32 \<Rightarrow> u32 \<Rightarrow> (reduction_status \<times> u32 \<times> u32) tcm" where
  "lazy_delta_reduction_step H V K t s =
     after (is_delta V t) (\<lambda>d_t.
     after (is_delta V s) (\<lambda>d_s.
       if d_t = None \<and> d_s = None then give (DefUnknown, t, s)
       else
         after (lazy_delta_unfold H V K t s d_t d_s) (\<lambda>r.
           case r of
             None \<Rightarrow> give (DefEqual, t, s)
           | Some (t, s) \<Rightarrow>
               after (quick_is_def_eq H V K t s False) (\<lambda>b.
                 give (case b of LTrue \<Rightarrow> DefEqual | LFalse \<Rightarrow> DefDiff | LUndef \<Rightarrow> Continue, t, s)))))"

section \<open>Offsets\<close>

definition is_nat_zero :: "env_view \<Rightarrow> u32 \<Rightarrow> bool tcm" where
  "is_nat_zero V t =
     after (look tc_nat_zero) (\<lambda>z. after (is_const_named V t z) (\<lambda>yes.
       if yes then give True
       else
         after (tc_node V t) (\<lambda>nd.
           case nd of
             NLitNat q \<Rightarrow> after (reads (\<lambda>st. nat_at (view_base V) st q)) (\<lambda>n. give (n = 0))
           | _ \<Rightarrow> give False)))"

definition succ_arg :: "env_view \<Rightarrow> u32 \<Rightarrow> u32 option tcm" where
  "succ_arg V t =
     after (tc_get_app_fn V t) (\<lambda>f.
     after (look tc_nat_succ) (\<lambda>sc.
     after (is_const_named V f sc) (\<lambda>yes.
     after (if yes then after (tc_get_app_num_args V t) (\<lambda>n. give (n = 1)) else give False) (\<lambda>one.
       if one then
         after (tc_node V t) (\<lambda>nd. case nd of NApp _ arg \<Rightarrow> give (Some arg) | _ \<Rightarrow> give None)
       else give None))))"

definition is_nat_succ :: "hashers \<Rightarrow> env_view \<Rightarrow> u32 \<Rightarrow> u32 option tcm" where
  "is_nat_succ H V t =
     after (tc_node V t) (\<lambda>nd.
       case nd of
         NLitNat q \<Rightarrow>
           after (reads (\<lambda>st. nat_at (view_base V) st q)) (\<lambda>n.
             if n \<noteq> 0 then after (tc_lit_nat H V (nat_sub n 1)) (\<lambda>r. give (Some r)) else succ_arg V t)
       | _ \<Rightarrow> succ_arg V t)"

definition is_def_eq_offset :: "hashers \<Rightarrow> env_view \<Rightarrow> calls \<Rightarrow> u32 \<Rightarrow> u32 \<Rightarrow> lbool tcm" where
  "is_def_eq_offset H V K t s =
     after (is_nat_zero V t) (\<lambda>tz.
     after (if tz then is_nat_zero V s else give False) (\<lambda>zeros.
       if zeros then give LTrue
       else
         after (is_nat_succ H V t) (\<lambda>pred_t.
         after (is_nat_succ H V s) (\<lambda>pred_s.
           case (pred_t, pred_s) of
             (Some pt, Some ps) \<Rightarrow> after (k_is_def_eq_core K pt ps) (\<lambda>b. give (to_lbool b))
           | _ \<Rightarrow> give LUndef))))"

text \<open>Closed terms are tried as natural number computations: \<open>Some b\<close> is the answer.\<close>

definition nat_reduced :: "hashers \<Rightarrow> env_view \<Rightarrow> calls \<Rightarrow> u32 \<Rightarrow> u32 \<Rightarrow> lbool option tcm" where
  "nat_reduced H V K t s =
     after (tc_data V t) (\<lambda>dt.
     after (if d_has_fvar dt then give True else after (tc_data V s) (\<lambda>ds. give (d_has_fvar ds))) (\<lambda>fvars.
       if fvars then give None
       else
         after (reduce_nat H V K t) (\<lambda>tv.
           case tv of
             Some tv \<Rightarrow> after (k_is_def_eq_core K tv s) (\<lambda>b. give (Some (to_lbool b)))
           | None \<Rightarrow>
               after (reduce_nat H V K s) (\<lambda>sv.
                 case sv of
                   Some sv \<Rightarrow> after (k_is_def_eq_core K t sv) (\<lambda>b. give (Some (to_lbool b)))
                 | None \<Rightarrow> give None))))"

definition native_reduced :: "calls \<Rightarrow> u32 \<Rightarrow> u32 \<Rightarrow> lbool option tcm" where
  "native_reduced K t s =
     after (reduce_native t) (\<lambda>tv.
       case tv of
         Some tv \<Rightarrow> after (k_is_def_eq_core K tv s) (\<lambda>b. give (Some (to_lbool b)))
       | None \<Rightarrow>
           after (reduce_native s) (\<lambda>sv.
             case sv of
               Some sv \<Rightarrow> after (k_is_def_eq_core K t sv) (\<lambda>b. give (Some (to_lbool b)))
             | None \<Rightarrow> give None))"

definition lazy_delta_loop :: "hashers \<Rightarrow> env_view \<Rightarrow> calls \<Rightarrow> u32 \<Rightarrow> u32 \<Rightarrow> (lbool \<times> u32 \<times> u32) tcm" where
  "lazy_delta_loop H V K t s =
     after (is_def_eq_offset H V K t s) (\<lambda>r.
       if r \<noteq> LUndef then give (r, t, s)
       else
         after (nat_reduced H V K t s) (\<lambda>r.
           case r of
             Some r \<Rightarrow> give (r, t, s)
           | None \<Rightarrow>
               after (native_reduced K t s) (\<lambda>r.
                 case r of
                   Some r \<Rightarrow> give (r, t, s)
                 | None \<Rightarrow>
                     after (lazy_delta_reduction_step H V K t s) (\<lambda>(status, t, s).
                       case status of
                         Continue \<Rightarrow> k_lazy_delta_loop K t s
                       | DefUnknown \<Rightarrow> give (LUndef, t, s)
                       | DefEqual \<Rightarrow> give (LTrue, t, s)
                       | DefDiff \<Rightarrow> give (LFalse, t, s)))))"

definition lazy_delta_reduction :: "calls \<Rightarrow> u32 \<Rightarrow> u32 \<Rightarrow> (lbool \<times> u32 \<times> u32) tcm" where
  "lazy_delta_reduction K t s = with_guard (k_lazy_delta_loop K t s)"

definition lazy_proj_end :: "hashers \<Rightarrow> env_view \<Rightarrow> calls \<Rightarrow> u32 \<Rightarrow> u32 \<Rightarrow> nat \<Rightarrow> bool tcm" where
  "lazy_proj_end H V K t s idx =
     after (case nat_to_usize idx of
              None \<Rightarrow> give None
            | Some i \<Rightarrow>
                after (reduce_proj_core H V K t i) (\<lambda>tf.
                  case tf of
                    None \<Rightarrow> give None
                  | Some tf \<Rightarrow> after (reduce_proj_core H V K s i) (\<lambda>sf. give (map_option (Pair tf) sf)))) (\<lambda>fields.
       case fields of
         Some (tf, sf) \<Rightarrow> k_is_def_eq_core K tf sf
       | None \<Rightarrow> k_is_def_eq_core K t s)"

definition lazy_proj_loop :: "hashers \<Rightarrow> env_view \<Rightarrow> calls \<Rightarrow> u32 \<Rightarrow> u32 \<Rightarrow> nat \<Rightarrow> bool tcm" where
  "lazy_proj_loop H V K t s idx =
     after (lazy_delta_reduction_step H V K t s) (\<lambda>(status, t, s).
       case status of
         Continue \<Rightarrow> k_lazy_proj_loop K t s idx
       | DefEqual \<Rightarrow> give True
       | DefUnknown \<Rightarrow> lazy_proj_end H V K t s idx
       | DefDiff \<Rightarrow> lazy_proj_end H V K t s idx)"

definition lazy_delta_proj_reduction :: "calls \<Rightarrow> u32 \<Rightarrow> u32 \<Rightarrow> nat \<Rightarrow> bool tcm" where
  "lazy_delta_proj_reduction K t s idx = k_lazy_proj_loop K t s idx"

end
