(* ===== verification/Checker_Locals.thy ===== *)
theory Checker_Locals
  imports Checker_Specs Checker_Infer Checker_Defeq
begin

text \<open>
  The contracts of what works on the local context, the equality cache and the table of constants, and of
  the loops that walk down a term.
\<close>

section \<open>Constants\<close>

lemma env_const: "env_get V n = Some info \<Longrightarrow> tc_ok H V s \<Longrightarrow> const_ok V (tc_scratch s) info"
  by (cases n) (auto simp: env_get_def view_ok_def dest!: tc_okD(2))

lemma env_get_with_spec [specs]:
  assumes "\<And>s. tc_ok H V s \<Longrightarrow> P s \<Longrightarrow> n \<in> nms V s"
  shows "contract H V b P (env_get_with V n) (\<lambda>info s. const_ok V (tc_scratch s) info)"
proof (cases n)
  case None
  then show ?thesis by (simp add: env_get_with_def contract_fail)
next
  case (Some i)
  show ?thesis
  proof (cases "view_get V i")
    case None
    then show ?thesis
      by (simp add: Some env_get_with_def)
        (rule contract_seq [OF tc_to_name_spec contract_fail], use assms in \<open>simp_all add: Some\<close>)
  next
    case info: (Some info)
    show ?thesis
      unfolding env_get_with_def Some option.case info
      by (rule contract_give) (use info in \<open>auto simp: view_ok_def dest!: tc_okD(2)\<close>)
  qed
qed

section \<open>The local context\<close>

definition decl_of :: "env_view \<Rightarrow> local_decl option \<Rightarrow> tc \<Rightarrow> bool" where
  "decl_of V d s \<longleftrightarrow> (\<forall>x. d = Some x \<longrightarrow> ld_ty x \<in> rng V 0 s \<and> (\<forall>v. ld_value x = Some v \<longrightarrow> v \<in> rng V 0 s))"

lemma contract_decl:
  assumes "\<And>d. contract H V b (\<lambda>s. P s \<and> decl_of V d s) (f d) Q"
  shows "contract H V b P (after (look tc_lctx) (\<lambda>ctx. after (lift_res (lctx_get ctx i)) f)) Q"
proof (rule contractI)
  fix s assume s: "tc_ok H V s" "stays H V P s"
  let ?d = "find (\<lambda>d. ld_id d = i) (decls (tc_lctx s))"
  have g: "lctx_get (tc_lctx s) i = Inr ?d" using tc_okD(3) [OF s(1)] by (simp add: ctx_wf_def lctx_get_ok)
  have "decl_of V ?d s"
    using tc_okD(4) [OF s(1)] by (auto simp: decl_of_def decls_ok_def find_Some_iff)
  then have "stays H V (decl_of V ?d) s"
    by (auto simp: stays_def tc_step_def decl_of_def dest: ids_grow(1))
  with s(2) have "stays H V (\<lambda>s. P s \<and> decl_of V ?d s) s" by (simp add: stays_conj)
  from contractD [OF assms s(1) this]
  show "run (- {Panic}) (after (look tc_lctx) (\<lambda>ctx. after (lift_res (lctx_get ctx i)) f) s)
      (\<lambda>(x, s'). tc_step H V s s' \<and> tc_guard_depth s' = tc_guard_depth s
       \<and> (b \<longrightarrow> decls (tc_lctx s') = decls (tc_lctx s)) \<and> stays H V (Q x) s')"
    by (simp add: after_def look_def g lift_res_def)
qed

text \<open>A variable that a binder loop has declared: its declaration is in the context and closed.\<close>

definition closed_decl :: "tdecl \<Rightarrow> bool" where
  "closed_decl d \<longleftrightarrow> loose_range (td_ty d) = 0 \<and> (\<forall>v. td_value d = Some v \<longrightarrow> loose_range v = 0)"

definition local_var :: "env_view \<Rightarrow> tc \<Rightarrow> u32 \<Rightarrow> bool" where
  "local_var V s f \<longleftrightarrow> (\<exists>d. decl_at (view_base V) (tc_scratch s) (tc_lctx s) f d \<and> closed_decl d)"

lemma lctx_get_grown:
  assumes "ctx_ok ctx" and "ctx_ok ctx'" and "grown ctx ctx'" and "lctx_get ctx i = Inr (Some d)"
  shows "lctx_get ctx' i = Inr (Some d)"
proof -
  from assms(3) obtain ds where ds: "decls ctx' = decls ctx @ ds" by (auto simp: grown_def)
  from assms(4) have "find (\<lambda>d. ld_id d = i) (decls ctx) = Some d" by (simp add: lctx_get_ok [OF assms(1)])
  then have "find (\<lambda>d. ld_id d = i) (decls ctx @ ds) = Some d" by (simp add: find_append)
  with ds show ?thesis by (simp add: lctx_get_ok [OF assms(2)])
qed

lemma local_var_step:
  assumes "local_var V s f" and "tc_ok H V s" and "tc_step H V s s'"
  shows "local_var V s' f"
proof -
  have g: "grows (view_base V) (tc_scratch s) (tc_scratch s')" "grown (tc_lctx s) (tc_lctx s')"
    "ctx_ok (tc_lctx s)" "ctx_ok (tc_lctx s')"
    using assms(2,3) by (auto simp: tc_step_def ctx_wf_def dest: tc_okD(3))
  from assms(1) obtain d where d: "decl_at (view_base V) (tc_scratch s) (tc_lctx s) f d" "closed_decl d"
    by (auto simp: local_var_def)
  have "decl_at (view_base V) (tc_scratch s') (tc_lctx s) f d" by (rule decl_at_grows [OF d(1) g(1)])
  then have "decl_at (view_base V) (tc_scratch s') (tc_lctx s') f d"
    unfolding decl_at_def by (blast intro: lctx_get_grown [OF g(3,4,2)])
  with d(2) show ?thesis by (auto simp: local_var_def)
qed

lemma local_var_range: "local_var V s f \<Longrightarrow> tc_ok H V s \<Longrightarrow> f \<in> rng V 0 s"
  by (auto simp: local_var_def decl_at_def intro: closed_in_range tc_okD(8))

text \<open>The counter does not overflow, because the names it has been used for have different ids.\<close>

lemma gen_small:
  assumes "banks_ok H (view_base V) st" and "gen_ok V st gen"
  shows "unat gen + 1 < 2 ^ 64"
proof -
  define f where "f k = (SOME i. name_at (view_base V) st (Some i) (fresh_name k))" for k
  have f: "name_at (view_base V) st (Some (f k)) (fresh_name k)" if "k < unat gen" for k
    using assms(2) that unfolding f_def gen_ok_def by (metis someI_ex)
  have "inj_on f {..<unat gen}"
  proof (rule inj_onI)
    fix j k assume "j \<in> {..<unat gen}" "k \<in> {..<unat gen}" "f j = f k"
    with f [of j] f [of k] name_at_det have "fresh_name j = fresh_name k" by (metis lessThan_iff)
    then show "j = k" by simp
  qed
  then have "card {..<unat gen} \<le> card (UNIV :: u32 set)" by (rule card_inj_on_le) simp_all
  then show ?thesis by (simp add: card_word)
qed

lemma push_contract:
  assumes m: "\<And>s. tc_ok H V s \<Longrightarrow> P s \<Longrightarrow> pushes H (view_base V) (tc_fvar_gen s) (tc_lctx s) (tc_scratch s) mk
      (m (tc_fvar_gen s) (tc_lctx s) (tc_scratch s))"
    and ids: "\<And>i. ld_id (mk i) = i"
    and P: "\<And>s i. tc_ok H V s \<Longrightarrow> P s \<Longrightarrow> ld_binder_name (mk i) \<in> nms V s \<and> ld_ty (mk i) \<in> rng V 0 s
      \<and> (\<forall>v. ld_value (mk i) = Some v \<longrightarrow> v \<in> rng V 0 s)"
  shows "contract H V False P
    (\<lambda>s. andthen (m (tc_fvar_gen s) (tc_lctx s) (tc_scratch s))
      (\<lambda>((e, ctx, gen), st). Inr (e, s\<lparr>tc_scratch := st, tc_lctx := ctx, tc_fvar_gen := gen\<rparr>)))
    (\<lambda>e s. local_var V s e)"
proof (rule contractI)
  fix s assume s: "tc_ok H V s" "P s"
  let ?gen = "tc_fvar_gen s" and ?ctx = "tc_lctx s" and ?st = "tc_scratch s" and ?B = "view_base V"
  have gen: "unat ?gen + 1 < 2 ^ 64" by (rule gen_small [OF tc_okD(8,5) [OF s(1)]])
  have "safe H ?B ?st (m ?gen ?ctx ?st) (\<lambda>(e, ctx', gen') st'. gen' = ?gen + 1 \<and> ctx_wf ?B st' gen' ctx'
      \<and> expr_at ?B st' e (EFVar (fresh_name (unat ?gen)))
      \<and> (\<exists>i. name_at ?B st' (Some i) (fresh_name (unat ?gen)) \<and> i \<notin> set (ids ?ctx) \<and> decls ctx' = decls ?ctx @ [mk i]))"
    by (rule safe_runs [OF m [OF s, unfolded pushes_def]]) simp_all
  then show "run (- {Panic}) (andthen (m ?gen ?ctx ?st)
      (\<lambda>((e, ctx, gen), st). Inr (e, s\<lparr>tc_scratch := st, tc_lctx := ctx, tc_fvar_gen := gen\<rparr>)))
      (\<lambda>(x, s'). tc_step H V s s' \<and> tc_guard_depth s' = tc_guard_depth s
       \<and> (False \<longrightarrow> decls (tc_lctx s') = decls (tc_lctx s)) \<and> stays H V (\<lambda>s. local_var V s x) s')"
    unfolding safe_def
  proof (rule run_bind2, unfold split_paired_all prod.case run_simps, elim conjE exE)
    fix e ctx' gen' st' i
    assume g: "good H ?B ?st st'" and gen': "gen' = ?gen + 1" and ctx': "ctx_wf ?B st' gen' ctx'"
      and e: "expr_at ?B st' e (EFVar (fresh_name (unat ?gen)))"
      and i: "name_at ?B st' (Some i) (fresh_name (unat ?gen))" "decls ctx' = decls ?ctx @ [mk i]"
    let ?s = "s\<lparr>tc_scratch := st', tc_lctx := ctx', tc_fvar_gen := gen'\<rparr>"
    note up = ids_grow [OF goodD(2) [OF g], THEN subsetD]
    have ok: "tc_ok H V (s\<lparr>tc_scratch := st'\<rparr>)" by (rule tc_ok_good [OF s(1) g])
    note D = tc_okD [OF ok, simplified]
    have d: "ld_binder_name (mk i) \<in> name_ids ?B st'" "ld_ty (mk i) \<in> in_range ?B st' 0"
      "\<forall>v. ld_value (mk i) = Some v \<longrightarrow> v \<in> in_range ?B st' 0" using P [OF s] up by auto
    have "decls_ok V st' (decls ctx')" using D(4) d by (auto simp: decls_ok_def i(2))
    moreover have "gen_ok V st' gen'"
      using D(5) i(1) gen unfolding gen_ok_def gen' by (auto simp: unat_plus_if' less_Suc_eq)
    moreover have "caches_ok V ?s" "names_ok V ?s" using D(6,7) by (simp_all add: caches_ok_def names_ok_def)
    ultimately have ok': "tc_ok H V ?s" using D(1,2) ctx' by (simp add: tc_ok_def)
    have step: "tc_step H V s ?s" using ok' goodD(2) [OF g] i(2) by (auto simp: tc_step_def grown_def)
    have "local_var V ?s e"
    proof -
      from d obtain n t where n: "name_at ?B st' (ld_binder_name (mk i)) n" and t: "expr_at ?B st' (ld_ty (mk i)) t" "loose_range t = 0"
        by (auto simp: name_ids_def in_range_0)
      have "\<exists>v. rel_option (expr_at ?B st') (ld_value (mk i)) v \<and> (\<forall>x. v = Some x \<longrightarrow> loose_range x = 0)"
        using d(3) by (cases "ld_value (mk i)") (auto simp: in_range_0 option_rel_Some1)
      then obtain v where v: "rel_option (expr_at ?B st') (ld_value (mk i)) v" "\<forall>x. v = Some x \<longrightarrow> loose_range x = 0" by blast
      from e obtain nd where nd: "node_at ?B st' e nd" "node_expr ?B st' (expr_at ?B st') nd (EFVar (fresh_name (unat ?gen)))"
        by (rule expr_atE)
      then obtain x where x: "nd = NFVar x" "name_at ?B st' x (fresh_name (unat ?gen))" by (cases nd) auto
      from name_at_inject [OF tc_okD(8) [OF ok, simplified] x(2) i(1)] have "x = Some i" .
      have "ctx_ok ctx'" using ctx' by (simp add: ctx_wf_def)
      then have "index ctx' i = Some (length (decls ?ctx))" by (simp add: ctx_okD i(2) ids)
      then have "lctx_get ctx' i = Inr (Some (mk i))" by (simp add: lctx_get_def i(2))
      with e nd(1) x(1) \<open>x = Some i\<close> n t v
      have "decl_at ?B st' ctx' e \<lparr>td_fvar = fresh_name (unat ?gen), td_name = n, td_ty = t,
          td_info = ld_binder_info (mk i), td_value = v\<rparr>" by (auto simp: decl_at_def)
      moreover have "closed_decl \<lparr>td_fvar = fresh_name (unat ?gen), td_name = n, td_ty = t,
          td_info = ld_binder_info (mk i), td_value = v\<rparr>" using t v by (simp add: closed_decl_def)
      ultimately show ?thesis unfolding local_var_def by (intro exI conjI) (simp, assumption)
    qed
    then have "stays H V (\<lambda>s. local_var V s e) ?s" unfolding stays_def using local_var_step ok' by blast
    with step show "tc_step H V s ?s \<and> tc_guard_depth ?s = tc_guard_depth s
       \<and> (False \<longrightarrow> decls (tc_lctx ?s) = decls (tc_lctx s)) \<and> stays H V (\<lambda>s. local_var V s e) ?s" by simp
  qed
qed

lemma push_ready: "tc_ok H V s \<Longrightarrow> twf H (view_base V) (tc_scratch s) \<and> ctx_wf (view_base V) (tc_scratch s) (tc_fvar_gen s) (tc_lctx s)
    \<and> unat (tc_fvar_gen s) + 1 < 2 ^ 64"
  using gen_small [OF tc_okD(8) tc_okD(5), of H V s H] by (simp add: tc_okD(1,3))

lemma tc_mk_local_decl_spec [specs]:
  assumes "\<And>s. tc_ok H V s \<Longrightarrow> P s \<Longrightarrow> n \<in> nms V s \<and> ty \<in> rng V 0 s"
  shows "contract H V False P (tc_mk_local_decl H V n ty bi) (\<lambda>e s. local_var V s e)"
  unfolding tc_mk_local_decl_def
  by (rule push_contract [OF mk_local_decl_ok]) (use assms push_ready in auto)

lemma tc_mk_let_decl_spec [specs]:
  assumes "\<And>s. tc_ok H V s \<Longrightarrow> P s \<Longrightarrow> n \<in> nms V s \<and> ty \<in> rng V 0 s \<and> v \<in> rng V 0 s"
  shows "contract H V False P (tc_mk_let_decl H V n ty v) (\<lambda>e s. local_var V s e)"
  unfolding tc_mk_let_decl_def
  by (rule push_contract [OF mk_let_decl_ok]) (use assms push_ready in auto)

section \<open>Telescopes\<close>

lemma loose_tele:
  "\<forall>d \<in> set ds. closed_decl d \<Longrightarrow> loose_range b \<le> length pre + length ds \<Longrightarrow> loose_range (tele lam pre ds b) \<le> length pre"
proof (induction ds arbitrary: pre)
  case (Cons d ds)
  have b: "loose_range (tele lam (pre @ [td_fvar d]) ds b) \<le> Suc (length pre)"
    using Cons.IH [of "pre @ [td_fvar d]"] Cons.prems by simp
  have t: "loose_range (abstr pre x) \<le> length pre" if "loose_range x = 0" for x
    unfolding abstr_def by (rule range_abstr) (use that in simp_all)
  from Cons.prems(1) have "loose_range (td_ty d) = 0" "\<forall>v. td_value d = Some v \<longrightarrow> loose_range v = 0"
    by (simp_all add: closed_decl_def)
  with b t show ?case by (auto simp: bind_decl_def split: option.split)
qed simp

lemma loose_telescope: "\<forall>d \<in> set ds. closed_decl d \<Longrightarrow> loose_range t = 0 \<Longrightarrow> loose_range (telescope lam ds t) = 0"
  using loose_tele [of ds "abstr (map td_fvar ds) t" "[]" lam] range_abstr [of t "length ds" 0 "map td_fvar ds"]
  by (simp add: telescope_def abstr_def)

lemma local_vars: "\<forall>f \<in> set fs. local_var V s f \<Longrightarrow>
    \<exists>ds. list_all2 (decl_at (view_base V) (tc_scratch s) (tc_lctx s)) fs ds \<and> (\<forall>d \<in> set ds. closed_decl d)"
proof (induction fs)
  case (Cons f fs)
  then obtain d ds where "decl_at (view_base V) (tc_scratch s) (tc_lctx s) f d" "closed_decl d"
    "list_all2 (decl_at (view_base V) (tc_scratch s) (tc_lctx s)) fs ds" "\<forall>d \<in> set ds. closed_decl d"
    by (auto simp: local_var_def)
  then show ?case by (intro exI [of _ "d # ds"]) simp
qed (rule exI [of _ "[]"], simp)

lemma tc_mk_pi_spec [specs]:
  assumes "\<And>s. tc_ok H V s \<Longrightarrow> P s \<Longrightarrow> (\<forall>f \<in> set fs. local_var V s f) \<and> length fs < 2 ^ 32 \<and> e \<in> rng V 0 s"
  shows "contract H V b P (tc_mk_pi H V fs e) (\<lambda>r s. r \<in> rng V 0 s)"
proof (rule contractI)
  fix s assume s: "tc_ok H V s" "P s"
  let ?B = "view_base V" and ?st = "tc_scratch s"
  from assms [OF s] obtain t where t: "expr_at ?B ?st e t" "loose_range t = 0" by (auto simp: in_range_0)
  from local_vars assms [OF s] obtain ds where
    ds: "list_all2 (decl_at ?B ?st (tc_lctx s)) fs ds" "\<forall>d \<in> set ds. closed_decl d" by metis
  with assms [OF s] have "tele_at ?B ?st (tc_lctx s) fs ds" by (auto simp: tele_at_def dest: list_all2_lengthD)
  from mk_binding_ok [OF tc_okD(1) [OF s(1)] this t(1)]
  have "safe H ?B ?st (mk_pi H ?B (tc_lctx s) fs e (tc_guard s) ?st) (\<lambda>r st. r \<in> in_range ?B st 0)"
    unfolding mk_pi_def
    by (rule safe_runs) (simp, erule (1) good_closed, simp add: loose_telescope [OF ds(2) t(2)])
  from write_run [OF s(1), where f = "mk_pi H ?B (tc_lctx s) fs e (tc_guard s)", OF this] ids_grow(1)
  show "run (- {Panic}) (tc_mk_pi H V fs e s) (\<lambda>(x, s'). tc_step H V s s' \<and> tc_guard_depth s' = tc_guard_depth s
       \<and> (b \<longrightarrow> decls (tc_lctx s') = decls (tc_lctx s)) \<and> stays H V (\<lambda>s. x \<in> rng V 0 s) s')"
    by (simp add: tc_mk_pi_def guard_writes_def after_def look_def) blast
qed

text \<open>What is found in a scope holds outside it, if it only speaks of the store.\<close>

lemma tc_ok_ctx:
  assumes "tc_ok H V s" and "ctx_ok ctx" and "set (decls ctx) \<subseteq> set (decls (tc_lctx s))"
  shows "tc_ok H V (s\<lparr>tc_lctx := ctx\<rparr>)"
  using assms(1) assms(2) subsetD [OF assms(3)]
  by (auto simp: tc_ok_def ctx_wf_def decls_ok_def caches_ok_def names_ok_def)

lemma contract_scope:
  assumes m: "contract H V False P m (\<lambda>x s. q x (tc_scratch s))"
    and mono: "\<And>x st st'. grows (view_base V) st st' \<Longrightarrow> q x st \<Longrightarrow> q x st'"
  shows "contract H V b P (in_scope m) (\<lambda>x s. q x (tc_scratch s))"
proof (rule contractI)
  fix s assume s: "tc_ok H V s" "stays H V P s"
  let ?n = "length (decls (tc_lctx s))"
  have eq: "in_scope m s = andthen (m s) (\<lambda>(x, s').
      andthen (lctx_restore ?n (tc_lctx s')) (\<lambda>ctx. Inr (x, s'\<lparr>tc_lctx := ctx\<rparr>)))"
    unfolding in_scope_def after_def look_def give_def lctx_save_def by (cases "m s") (auto split: prod.split simp: andthen_assoc)
  show "run (- {Panic}) (in_scope m s) (\<lambda>(x, s'). tc_step H V s s' \<and> tc_guard_depth s' = tc_guard_depth s
       \<and> (b \<longrightarrow> decls (tc_lctx s') = decls (tc_lctx s)) \<and> stays H V (\<lambda>s. q x (tc_scratch s)) s')"
    unfolding eq
  proof (rule run_bind2 [OF contractD [OF m s]], unfold prod.case, elim conjE)
    fix x s1 assume s1: "tc_step H V s s1" "tc_guard_depth s1 = tc_guard_depth s" "stays H V (\<lambda>s. q x (tc_scratch s)) s1"
    from s1(1) have ok: "tc_ok H V s1" "grows (view_base V) (tc_scratch s) (tc_scratch s1)" and
      g: "grown (tc_lctx s) (tc_lctx s1)" by (simp_all add: tc_step_def)
    from g have n: "?n \<le> length (decls (tc_lctx s1))" "take ?n (decls (tc_lctx s1)) = decls (tc_lctx s)"
      by (auto simp: grown_def)
    from tc_okD(3) [OF ok(1)] have "ctx_ok (tc_lctx s1)" by (simp add: ctx_wf_def)
    from lctx_restore_ok [OF this n(1)] obtain ctx where
      ctx: "lctx_restore ?n (tc_lctx s1) = Inr ctx" "ctx_ok ctx" "decls ctx = decls (tc_lctx s)" by (metis n(2))
    let ?s = "s1\<lparr>tc_lctx := ctx\<rparr>"
    have "set (decls ctx) \<subseteq> set (decls (tc_lctx s1))" using g ctx(3) by (auto simp: grown_def)
    from tc_ok_ctx [OF ok(1) ctx(2) this] have ok': "tc_ok H V ?s" .
    have "q x (tc_scratch s1)" by (rule stays_now [OF s1(3) ok(1)])
    then have "stays H V (\<lambda>s. q x (tc_scratch s)) ?s" using mono by (auto simp: stays_def tc_step_def)
    with ok' ok(2) ctx s1(2) show "run (- {Panic}) (andthen (lctx_restore ?n (tc_lctx s1)) (\<lambda>ctx. Inr (x, s1\<lparr>tc_lctx := ctx\<rparr>)))
      (\<lambda>(x, s'). tc_step H V s s' \<and> tc_guard_depth s' = tc_guard_depth s
       \<and> (b \<longrightarrow> decls (tc_lctx s') = decls (tc_lctx s)) \<and> stays H V (\<lambda>s. q x (tc_scratch s)) s')"
      by (simp add: tc_step_def grown_def)
  qed
qed

end
