(* ===== verification/Checker_Loops.thy ===== *)
theory Checker_Loops
  imports Checker_Locals
begin

text \<open>The contracts of the equality cache, of level and name checks, and of the loops that walk down a term.\<close>

section \<open>The equality cache\<close>

abbreviation all_one :: "expr \<Rightarrow> expr \<Rightarrow> bool" where
  "all_one \<equiv> \<lambda>_ _. True"

lemma congruence_all: "congruence all_one"
  by (simp add: congruence_def equivp_def)

lemma uf_merge_ok:
  assumes c: "classes base st all_one uf" and e: "expr_at base st a t" "expr_at base st b u"
  shows "\<exists>uf'. uf_merge a b uf = Inr uf' \<and> classes base st all_one uf'"
proof -
  obtain i uf1 where i: "to_node a uf = (i, uf1)" by (cases "to_node a uf")
  obtain j uf2 where j: "to_node b uf1 = (j, uf2)" by (cases "to_node b uf1")
  have I: "classes base st all_one uf1" "uf_index uf1 a = Some i" "i < nodes uf1"
    using to_node_classes [OF congruence_all c e(1) i] by blast+
  have J: "classes base st all_one uf2" "coarser uf1 uf2" "uf_index uf2 b = Some j" "j < nodes uf2"
    using to_node_classes [OF congruence_all I(1) e(2) j] by blast+
  from merge_classes [OF congruence_all J(1) coarserD(1) [OF J(2) I(2)] refl coarserD(2) [OF J(2) I(3)] J(3) refl J(4) e]
  show ?thesis by (auto simp: uf_merge_def i j)
qed

lemma eqv_write:
  assumes s: "tc_ok H V s" and c: "classes (view_base V) (tc_scratch s) all_one uf"
  shows "tc_ok H V (s\<lparr>tc_eqv_cache := uf\<rparr>)"
  using s c by (auto simp: tc_ok_def caches_ok_def names_ok_def)

lemma merge_spec [specs]:
  assumes "\<And>s. tc_ok H V s \<Longrightarrow> P s \<Longrightarrow> t \<in> rng V 0 s \<and> t' \<in> rng V 0 s"
  shows "contract H V b P (\<lambda>s. andthen (uf_merge t t' (tc_eqv_cache s)) (\<lambda>uf. Inr (True, s\<lparr>tc_eqv_cache := uf\<rparr>)))
    (\<lambda>_ _. True)"
proof (rule contractI)
  fix s assume s: "tc_ok H V s" "P s"
  from assms [OF s] obtain x y where "expr_at (view_base V) (tc_scratch s) t x" "expr_at (view_base V) (tc_scratch s) t' y"
    by (auto simp: in_range_0)
  with uf_merge_ok [of "view_base V" "tc_scratch s" "tc_eqv_cache s"] tc_okD(6) [OF s(1)] obtain uf where
    "uf_merge t t' (tc_eqv_cache s) = Inr uf" "classes (view_base V) (tc_scratch s) all_one uf"
    unfolding caches_ok_def by blast
  with eqv_write [OF s(1)] show "run (- {Panic}) (andthen (uf_merge t t' (tc_eqv_cache s)) (\<lambda>uf. Inr (True, s\<lparr>tc_eqv_cache := uf\<rparr>)))
      (\<lambda>(x, s'). tc_step H V s s' \<and> tc_guard_depth s' = tc_guard_depth s
       \<and> (b \<longrightarrow> decls (tc_lctx s') = decls (tc_lctx s)) \<and> stays H V (\<lambda>_. True) s')"
    by (simp add: tc_step_def grows_refl stays_def)
qed

lemma tc_is_equiv_spec [specs]:
  assumes "\<And>s. tc_ok H V s \<Longrightarrow> P s \<Longrightarrow> t \<in> rng V 0 s \<and> t' \<in> rng V 0 s"
  shows "contract H V b P (tc_is_equiv V t t' use_hash) (\<lambda>_ _. True)"
proof (rule contractI)
  fix s assume s: "tc_ok H V s" "P s"
  from assms [OF s] obtain x y where "expr_at (view_base V) (tc_scratch s) t x" "expr_at (view_base V) (tc_scratch s) t' y"
    by (auto simp: in_range_0)
  from is_equiv_core_ok [OF tc_okD(8) [OF s(1)] twfD(2) [OF tc_okD(1) [OF s(1)]] congruence_all _ this]
    tc_okD(6) [OF s(1)]
  have "run {DeepRecursion} (is_equiv (view_base V) (tc_scratch s) t t' use_hash (tc_guard s) (tc_eqv_cache s))
      (\<lambda>(r, uf). classes (view_base V) (tc_scratch s) all_one uf)"
    unfolding is_equiv_def caches_ok_def by (elim conjE) (rule run_mono, assumption, auto simp: sound_answer_def)
  then show "run (- {Panic}) (tc_is_equiv V t t' use_hash s)
      (\<lambda>(x, s'). tc_step H V s s' \<and> tc_guard_depth s' = tc_guard_depth s
       \<and> (b \<longrightarrow> decls (tc_lctx s') = decls (tc_lctx s)) \<and> stays H V (\<lambda>_. True) s')"
    unfolding tc_is_equiv_def run_andthen
    by (rule run_mono) (auto simp: tc_step_def grows_refl stays_def intro: eqv_write [OF s(1)])
qed

section \<open>Cached results\<close>

text \<open>The writes to a cache: only what is closed goes in.\<close>

lemma ran_upd: "ran m \<subseteq> C \<Longrightarrow> v \<in> C \<Longrightarrow> ran (m(k \<mapsto> v)) \<subseteq> C"
  by (auto simp: ran_def)

lemma cache_write:
  assumes "\<And>s. tc_ok H V s \<Longrightarrow> P s \<Longrightarrow> caches_ok V (f s)"
    and "\<And>s. tc_scratch (f s) = tc_scratch s \<and> tc_lctx (f s) = tc_lctx s \<and> tc_guard_depth (f s) = tc_guard_depth s
      \<and> tc_fvar_gen (f s) = tc_fvar_gen s \<and> names_ok V (f s) = names_ok V s"
  shows "contract H V b P (alter f) (\<lambda>_ _. True)"
  by (rule contract_alter) (use assms in \<open>simp add: tc_ok_def\<close>)

lemma infer_cache_spec [specs]:
  assumes "\<And>s. tc_ok H V s \<Longrightarrow> P s \<Longrightarrow> r \<in> rng V 0 s"
  shows "contract H V b P (cache_infer o' e r) (\<lambda>_ _. True)"
  unfolding cache_infer_def
proof (rule cache_write)
  fix s assume s: "tc_ok H V s" "P s"
  from tc_okD(6) [OF s(1)] assms [OF s]
  show "caches_ok V (s\<lparr>tc_infer_cache := (tc_infer_cache s)(o' := (tc_infer_cache s o')(e \<mapsto> r))\<rparr>)"
    by (simp add: caches_ok_def ran_upd)
qed (simp add: names_ok_def)

lemma whnf_cache_spec [specs]:
  assumes "\<And>s. tc_ok H V s \<Longrightarrow> P s \<Longrightarrow> r \<in> rng V 0 s"
  shows "contract H V b P (alter (\<lambda>s. s\<lparr>tc_whnf_cache := (tc_whnf_cache s)(e \<mapsto> r)\<rparr>)) (\<lambda>_ _. True)"
    and "contract H V b P (alter (\<lambda>s. s\<lparr>tc_whnf_core_cache := (tc_whnf_core_cache s)(e \<mapsto> r)\<rparr>)) (\<lambda>_ _. True)"
    and "contract H V b P (alter (\<lambda>s. s\<lparr>tc_unfold_memo := (tc_unfold_memo s)(e \<mapsto> r)\<rparr>)) (\<lambda>_ _. True)"
  by (rule cache_write, frule tc_okD(6), simp add: caches_ok_def ran_upd assms, simp add: names_ok_def)+

lemma failure_cache_spec [specs]:
  "contract H V b P (alter (\<lambda>s. s\<lparr>tc_failure_cache := insert p (tc_failure_cache s)\<rparr>)) (\<lambda>_ _. True)"
  by (rule contract_alter) (simp add: tc_ok_def caches_ok_def names_ok_def)

lemma lparams_spec [specs]: "contract H V b P (alter (\<lambda>s. s\<lparr>tc_lparams := ps\<rparr>)) (\<lambda>_ _. True)"
  by (rule contract_alter) (simp add: tc_ok_def caches_ok_def names_ok_def)

section \<open>Pure steps\<close>

lemma slice_spec [specs]:
  assumes "\<And>s. tc_ok H V s \<Longrightarrow> P s \<Longrightarrow> i \<le> j \<and> j \<le> length xs"
  shows "contract H V b P (lift_res (slice xs i j)) (\<lambda>r _. r = take (j - i) (drop i xs))"
  by (rule contractI)
    (use assms in \<open>auto simp: slice_def lift_res_def tc_step_refl stays_def\<close>)

lemma expect_index_spec [specs]:
  assumes "\<And>s. tc_ok H V s \<Longrightarrow> P s \<Longrightarrow> i < length xs"
  shows "contract H V b P (lift_res (expect (get_index xs i))) (\<lambda>r _. r \<in> set xs)"
  by (rule contractI)
    (use assms in \<open>auto simp: lift_res_def tc_step_refl stays_def\<close>)

lemma has_value: "info_has_value info \<Longrightarrow> \<exists>v. info_value info = Some v"
  by (cases info) (simp_all add: info_has_value_def info_value_def)

lemma expect_value_spec [specs]:
  assumes "\<And>s. tc_ok H V s \<Longrightarrow> P s \<Longrightarrow> info_has_value info"
  shows "contract H V b P (lift_res (expect (info_value info))) (\<lambda>r _. info_value info = Some r)"
  by (rule contractI)
    (use assms has_value in \<open>fastforce simp: lift_res_def tc_step_refl stays_def\<close>)

section \<open>Names and levels\<close>

lemma undef_param_run:
  assumes ok: "banks_ok H base st"
  shows "level_at base st l t \<Longrightarrow>
    run (- {Panic}) (get_undef_param_id base st l ps d) (\<lambda>r. \<forall>n. r = Some n \<longrightarrow> n \<in> name_ids base st)"
proof (induction arbitrary: d rule: level_at.induct)
  case (level_at_Succ i a la)
  then show ?case
    by (subst get_undef_param_id.simps) (simp add: level_reads(1) [OF ok level_at_Succ(1)] enter_def)
next
  case (level_at_Max i a b la lb)
  show ?case
    by (subst get_undef_param_id.simps)
      (auto simp: level_reads(1) [OF ok level_at_Max(1)] enter_def run_andthen
        intro!: run_mono [OF level_at_Max(4)] level_at_Max(5) split: option.split)
next
  case (level_at_IMax i a b la lb)
  show ?case
    by (subst get_undef_param_id.simps)
      (auto simp: level_reads(1) [OF ok level_at_IMax(1)] enter_def run_andthen
        intro!: run_mono [OF level_at_IMax(4)] level_at_IMax(5) split: option.split)
next
  case (level_at_Param i x n)
  then show ?case
    by (subst get_undef_param_id.simps)
      (auto simp: level_reads(1) [OF ok level_at_Param(1)] name_ids_def split: option.split)
qed (subst get_undef_param_id.simps, simp add: level_reads(1) [OF ok])+

lemma undef_param_spec [specs]:
  assumes "\<And>s. tc_ok H V s \<Longrightarrow> P s \<Longrightarrow> l \<in> lvs V s"
  shows "contract H V b P (reads (\<lambda>st. get_undef_param_id (view_base V) st l ps g)) (\<lambda>r s. \<forall>n. r = Some n \<longrightarrow> n \<in> nms V s)"
proof (rule contract_reads)
  fix s assume s: "tc_ok H V s" "P s"
  from assms [OF s] obtain t where "level_at (view_base V) (tc_scratch s) l t" by (auto simp: level_ids_def)
  from undef_param_run [OF tc_okD(8) [OF s(1)] this] show "run (- {Panic}) (get_undef_param_id (view_base V) (tc_scratch s) l ps g)
      (\<lambda>r. \<forall>n. r = Some n \<longrightarrow> n \<in> name_ids (view_base V) (tc_scratch s))" .
qed (auto dest: ids_grow(2))

text \<open>The row of a name: its parent is a name and its last part is a string.\<close>

lemma name_row_spec [specs]:
  assumes "\<And>s. tc_ok H V s \<Longrightarrow> P s \<Longrightarrow> Some i \<in> nms V s"
  shows "contract H V b P (reads (\<lambda>st. name_row (view_base V) st i))
    (\<lambda>r s. \<forall>p q. r = NStr p q \<longrightarrow> p \<in> nms V s \<and> q \<in> str_ids (view_base V) (tc_scratch s))"
proof (rule contract_reads)
  fix s assume s: "tc_ok H V s" "P s"
  from assms [OF s] obtain n where "name_at (view_base V) (tc_scratch s) (Some i) n" by (auto simp: name_ids_def)
  then show "run (- {Panic}) (name_row (view_base V) (tc_scratch s) i) (\<lambda>r. \<forall>p q. r = NStr p q \<longrightarrow>
      p \<in> name_ids (view_base V) (tc_scratch s) \<and> q \<in> str_ids (view_base V) (tc_scratch s))"
    by (rule name_at_SomeE) (auto simp: name_reads(1) [OF tc_okD(8) [OF s(1)]] name_ids_def str_ids_def)
qed (auto dest: ids_grow(2,6))

lemma contract_name_row [cases_rules]:
  "(\<And>p q. r = NStr p q \<Longrightarrow> contract H V b P (m1 p q) Q) \<Longrightarrow> (\<And>p q. r = NNum p q \<Longrightarrow> contract H V b P (m2 p q) Q) \<Longrightarrow>
     contract H V b P (case r of NStr p q \<Rightarrow> m1 p q | NNum p q \<Rightarrow> m2 p q) Q"
  by (cases r) simp_all

lemma nat_binop_id_spec [specs]:
  assumes "\<And>s. tc_ok H V s \<Longrightarrow> P s \<Longrightarrow> n \<in> nms V s"
  shows "contract H V b P (nat_binop_id V n) (\<lambda>_ _. True)"
  unfolding nat_binop_id_def
  by (intro contract_give specs [THEN contract_seq] specs [THEN contract_tail] cases_rules; use assms in auto)

section \<open>Walking down\<close>

lemma node_tests:
  "is_lam_node nd \<longleftrightarrow> (\<exists>x t c bi. nd = NLam x t c bi)" "is_forall_node nd \<longleftrightarrow> (\<exists>x t c bi. nd = NForall x t c bi)"
  "is_app_node nd \<longleftrightarrow> (\<exists>f a. nd = NApp f a)" "is_sort_node nd \<longleftrightarrow> (\<exists>l. nd = NSort l)"
  by (cases nd; simp add: is_lam_node_def is_forall_node_def is_app_node_def is_sort_node_def)+

lemma cheap_peel_run:
  assumes ok: "banks_ok H base st"
  shows "cur \<in> in_range base st i \<Longrightarrow> i \<le> n \<Longrightarrow>
    run (- {Panic}) (cheap_peel base st n cur i) (\<lambda>(c, j). c \<in> in_range base st j \<and> j \<le> n)"
proof (induction "n - i" arbitrary: cur i)
  case 0
  then show ?case by (subst cheap_peel.simps) simp
next
  case (Suc m)
  from node_in_range [OF ok Suc.prems(1)] obtain nd where
    nd: "expr_node base st cur = Inr nd" "node_in base st i nd" .
  have i: "i < n" using Suc.hyps(2) by simp
  then have IH: "run (- {Panic}) (cheap_peel base st n c (Suc i)) (\<lambda>(c, j). c \<in> in_range base st j \<and> j \<le> n)"
    if "c \<in> in_range base st (Suc i)" for c by (intro Suc.hyps(1)) (use that Suc.hyps(2) in auto)
  show ?case
    by (subst cheap_peel.simps) (use IH nd i Suc.prems in \<open>cases nd; simp\<close>)
qed

lemma cheap_peel_spec [specs]:
  assumes "\<And>s. tc_ok H V s \<Longrightarrow> P s \<Longrightarrow> cur \<in> rng V 0 s"
  shows "contract H V b P (reads (\<lambda>st. cheap_peel (view_base V) st n cur 0)) (\<lambda>(c, j) s. c \<in> rng V j s \<and> j \<le> n)"
proof (rule contract_tail [OF contract_reads [where q = "\<lambda>x st. case x of (c, j) \<Rightarrow> c \<in> in_range (view_base V) st j \<and> j \<le> n"]])
  fix s assume s: "tc_ok H V s" "P s"
  from cheap_peel_run [OF tc_okD(8) [OF s(1)] assms [OF s]]
  show "run (- {Panic}) (cheap_peel (view_base V) (tc_scratch s) n cur 0)
      (\<lambda>x. case x of (c, j) \<Rightarrow> c \<in> rng V j s \<and> j \<le> n)" by simp
qed (auto dest: ids_grow(1))

text \<open>The loop under the lambdas stops at a lambda, with as many variables as it has passed.\<close>

lemma peel_lambdas_run:
  assumes ok: "banks_ok H base st"
  shows "cur \<in> in_range base st (m - 1) \<Longrightarrow> node_at base st cur (NLam x t c bi) \<Longrightarrow> 0 < m \<Longrightarrow> m \<le> n \<Longrightarrow>
    run (- {Panic}) (peel_lambdas base st n cur m) (\<lambda>(r, j). r \<in> in_range base st (j - 1) \<and> 0 < j \<and> j \<le> n
      \<and> (\<exists>x t c bi. node_at base st r (NLam x t c bi)))"
proof (induction "n - m" arbitrary: cur m x t c bi)
  case 0
  note nd = expr_node_ok [OF ok 0(3)]
  from node_in_range [OF ok 0(2)] nd have c: "c \<in> in_range base st (Suc (m - 1))" by (metis node_in.simps(8) Inr_inject)
  from node_in_range [OF ok c] obtain b where "expr_node base st c = Inr b" .
  with 0 nd show ?case by (subst peel_lambdas.simps) auto
next
  case (Suc k)
  note nd = expr_node_ok [OF ok Suc.prems(2)]
  from node_in_range [OF ok Suc.prems(1)] nd have c: "c \<in> in_range base st (m + 1 - 1)"
    using Suc.prems(3) by (metis node_in.simps(8) Inr_inject Suc_diff_1 add_diff_cancel_right')
  from node_in_range [OF ok this] obtain b where b: "expr_node base st c = Inr b" "node_at base st c b" .
  show ?case
  proof (cases "is_lam_node b")
    case True
    then obtain x' t' c' bi' where "b = NLam x' t' c' bi'" by (cases b) (auto simp: is_lam_node_def)
    with Suc.hyps(1) [of "m + 1" c] c b(2) Suc.hyps(2) have
      "run (- {Panic}) (peel_lambdas base st n c (m + 1)) (\<lambda>(r, j). r \<in> in_range base st (j - 1) \<and> 0 < j \<and> j \<le> n
      \<and> (\<exists>x t c bi. node_at base st r (NLam x t c bi)))" by auto
    then show ?thesis by (subst peel_lambdas.simps) (use True nd b Suc.prems Suc.hyps(2) in auto)
  next
    case False
    then show ?thesis by (subst peel_lambdas.simps) (use nd b Suc.prems in auto)
  qed
qed

lemma peel_lambdas_spec [specs]:
  assumes "\<And>s. tc_ok H V s \<Longrightarrow> P s \<Longrightarrow> cur \<in> rng V 0 s \<and> 0 < n \<and> (\<exists>nd. is_lam_node nd \<and> node_at (view_base V) (tc_scratch s) cur nd)"
  shows "contract H V b P (reads (\<lambda>st. peel_lambdas (view_base V) st n cur 1))
    (\<lambda>(r, j) s. (\<exists>k. j = Suc k \<and> r \<in> rng V k s) \<and> j \<le> n \<and> (\<exists>x t c bi. node_at (view_base V) (tc_scratch s) r (NLam x t c bi)))"
proof (rule contract_tail [OF contract_reads [where q = "\<lambda>x st. case x of (r, j) \<Rightarrow>
    r \<in> in_range (view_base V) st (j - 1) \<and> 0 < j \<and> j \<le> n \<and> (\<exists>x t c bi. node_at (view_base V) st r (NLam x t c bi))"]])
  fix s assume s: "tc_ok H V s" "P s"
  from assms [OF s] obtain x t c bi where c: "cur \<in> rng V 0 s" "0 < n" "node_at (view_base V) (tc_scratch s) cur (NLam x t c bi)"
    by (auto simp: node_tests)
  show "run (- {Panic}) (peel_lambdas (view_base V) (tc_scratch s) n cur 1) (\<lambda>x. case x of (r, j) \<Rightarrow>
    r \<in> rng V (j - 1) s \<and> 0 < j \<and> j \<le> n \<and> (\<exists>x t c bi. node_at (view_base V) (tc_scratch s) r (NLam x t c bi)))"
    by (rule peel_lambdas_run [OF tc_okD(8) [OF s(1)] _ c(3)]) (use c in auto)
next
  fix x st st' assume g: "grows (view_base V) st st'" and q: "case x of (r, j) \<Rightarrow>
    r \<in> in_range (view_base V) st (j - 1) \<and> 0 < j \<and> j \<le> n \<and> (\<exists>x t c bi. node_at (view_base V) st r (NLam x t c bi))"
  show "case x of (r, j) \<Rightarrow>
    r \<in> in_range (view_base V) st' (j - 1) \<and> 0 < j \<and> j \<le> n \<and> (\<exists>x t c bi. node_at (view_base V) st' r (NLam x t c bi))"
    using q node_at_grows [OF _ g] ids_grow(1) [OF g] by (cases x) blast
qed (auto simp: gr0_conv_Suc)

text \<open>The type of a recursor's major premise.\<close>

lemma skip_foralls_run:
  assumes ok: "banks_ok H base st"
  shows "t \<in> in_range base st k \<Longrightarrow>
    run (- {Panic}) (skip_foralls base st n t) (\<lambda>r. \<forall>t. r = Some t \<longrightarrow> t \<in> in_range base st (k + n))"
proof (induction n arbitrary: t k)
  case (Suc n)
  from node_in_range [OF ok Suc.prems] obtain nd where nd: "expr_node base st t = Inr nd" "node_in base st k nd" .
  then show ?case using Suc.IH [of _ "Suc k"] by (cases nd) auto
qed simp

lemma get_major_induct_spec [specs]:
  assumes "\<And>s. tc_ok H V s \<Longrightarrow> P s \<Longrightarrow> ty \<in> rng V 0 s"
  shows "contract H V b P (reads (get_major_induct (view_base V) ty n)) (\<lambda>r s. r \<in> nms V s)"
proof (rule contract_reads)
  fix s assume s: "tc_ok H V s" "P s"
  let ?B = "view_base V" and ?st = "tc_scratch s"
  note ok = tc_okD(8) [OF s(1)]
  have t: "run (- {Panic}) (expr_node ?B ?st t) (\<lambda>nd. node_in ?B ?st k nd)" if "t \<in> in_range ?B ?st k" for t k
    by (rule node_in_range [OF ok that]) simp
  have f: "run (- {Panic}) (get_app_fn ?B t ?st) (\<lambda>f. f \<in> in_range ?B ?st k)" if "t \<in> in_range ?B ?st k" for t k
    by (rule spine_of [OF ok that]) (simp add: get_app_fn_def)
  show "run (- {Panic}) (get_major_induct ?B ty n ?st) (\<lambda>r. r \<in> name_ids ?B ?st)"
    unfolding get_major_induct_def
  proof (rule run_bind [OF skip_foralls_run [OF ok assms [OF s]]])
    fix r assume r: "\<forall>t. r = Some t \<longrightarrow> t \<in> in_range ?B ?st (0 + n)"
    show "run (- {Panic}) (case r of None \<Rightarrow> Inr None | Some t \<Rightarrow> andthen (expr_node ?B ?st t) (\<lambda>nd.
        case nd of NForall _ ty _ _ \<Rightarrow> andthen (get_app_fn ?B ty ?st) (\<lambda>f. andthen (expr_node ?B ?st f) (\<lambda>nd. Inr (node_const_name nd)))
        | _ \<Rightarrow> Inr None)) (\<lambda>r. r \<in> name_ids ?B ?st)"
    proof (cases r)
      case (Some u)
      with r have u: "u \<in> in_range ?B ?st n" by simp
      show ?thesis unfolding Some option.case
      proof (rule run_bind [OF t [OF u]])
        fix nd assume nd: "node_in ?B ?st n nd"
        show "run (- {Panic}) (case nd of NForall _ ty _ _ \<Rightarrow> andthen (get_app_fn ?B ty ?st) (\<lambda>f. andthen (expr_node ?B ?st f) (\<lambda>nd. Inr (node_const_name nd)))
          | _ \<Rightarrow> Inr None) (\<lambda>r. r \<in> name_ids ?B ?st)"
        proof (cases nd)
          case (NForall x v c bi)
          with nd have "v \<in> in_range ?B ?st n" by simp
          show ?thesis unfolding NForall node.case
            by (rule run_bind [OF f [OF \<open>v \<in> in_range ?B ?st n\<close>]], rule run_bind [OF t], assumption, rename_tac h nd)
              (case_tac nd; simp add: node_const_name_def)
        qed simp_all
      qed
    qed simp
  qed
qed (auto dest: ids_grow(2))

end
