(* ===== verification/Checker_Safe_Whnf.thy ===== *)
theory Checker_Safe_Whnf
  imports Checker_Loops
begin

text \<open>
  The interface of the methods that the checker calls recursively (\<open>sound_calls\<close>), and the contracts of
  the reduction methods under it.
\<close>

section \<open>The interface\<close>

definition binders :: "env_view \<Rightarrow> nat \<Rightarrow> tc \<Rightarrow> u32 set" where
  "binders V k s = {e. e \<in> rng V k s
     \<and> (\<exists>nd. (is_lam_node nd \<or> is_forall_node nd) \<and> node_at (view_base V) (tc_scratch s) e nd)}"

locale sound_calls =
  fixes H :: hashers and V :: env_view and K :: calls
  assumes whnf: "contract H V True (\<lambda>s. e \<in> rng V 0 s) (k_whnf K e) (\<lambda>r s. r \<in> rng V 0 s)"
    and whnf_core: "contract H V True (\<lambda>s. e \<in> rng V 0 s) (k_whnf_core K e cr cp) (\<lambda>r s. r \<in> rng V 0 s)"
    and infer: "contract H V True (\<lambda>s. e \<in> rng V 0 s) (k_infer_type_core K e io) (\<lambda>r s. r \<in> rng V 0 s)"
    and def_eq: "contract H V True (\<lambda>s. t \<in> rng V 0 s \<and> u \<in> rng V 0 s) (k_is_def_eq_core K t u) (\<lambda>_ _. True)"
    and whnf_loop: "contract H V True (\<lambda>s. t \<in> rng V 0 s) (k_whnf_loop K e t) (\<lambda>r s. r \<in> rng V 0 s)"
    and lambda_loop: "contract H V False (\<lambda>s. e \<in> rng V (length fs) s \<and> (\<forall>f \<in> set fs. local_var V s f))
      (k_lambda_loop K io e fs) (\<lambda>(e, fs) s. e \<in> rng V (length fs) s \<and> (\<forall>f \<in> set fs. local_var V s f))"
    and pi_loop: "contract H V False
      (\<lambda>s. e \<in> rng V (length fs) s \<and> (\<forall>f \<in> set fs. local_var V s f) \<and> set us \<subseteq> lvs V s)
      (k_pi_loop K io e fs us)
      (\<lambda>(e, fs, us) s. e \<in> rng V (length fs) s \<and> (\<forall>f \<in> set fs. local_var V s f) \<and> set us \<subseteq> lvs V s)"
    and let_loop: "contract H V False (\<lambda>s. e \<in> rng V (length fs) s \<and> (\<forall>f \<in> set fs. local_var V s f))
      (k_let_loop K io e fs) (\<lambda>(e, fs) s. e \<in> rng V (length fs) s \<and> (\<forall>f \<in> set fs. local_var V s f))"
    and binding_loop: "contract H V False
      (\<lambda>s. t \<in> binders V (length xs) s \<and> u \<in> binders V (length xs) s \<and> set xs \<subseteq> rng V 0 s)
      (k_binding_loop K lam t u xs)
      (\<lambda>r s. \<forall>t u xs. r = Some (t, u, xs) \<longrightarrow> t \<in> rng V (length xs) s \<and> u \<in> rng V (length xs) s \<and> set xs \<subseteq> rng V 0 s)"
    and args_loop: "contract H V True (\<lambda>s. t \<in> rng V 0 s \<and> u \<in> rng V 0 s) (k_args_loop K t u) (\<lambda>_ _. True)"
    and lazy_delta_loop: "contract H V True (\<lambda>s. t \<in> rng V 0 s \<and> u \<in> rng V 0 s) (k_lazy_delta_loop K t u)
      (\<lambda>(_, t, u) s. t \<in> rng V 0 s \<and> u \<in> rng V 0 s)"
    and lazy_proj_loop: "contract H V True (\<lambda>s. t \<in> rng V 0 s \<and> u \<in> rng V 0 s) (k_lazy_proj_loop K t u i) (\<lambda>_ _. True)"
begin

lemmas calls_specs [specs] =
  whnf [THEN contract_weaken] whnf_core [THEN contract_weaken] infer [THEN contract_weaken] def_eq [THEN contract_weaken]
  whnf_loop [THEN contract_weaken] lambda_loop [THEN contract_pre] pi_loop [THEN contract_pre]
  let_loop [THEN contract_pre] binding_loop [THEN contract_pre] args_loop [THEN contract_weaken]
  lazy_delta_loop [THEN contract_weaken] lazy_proj_loop [THEN contract_weaken]

end

declare is_app_def [tcm_simps] is_lambda_def [tcm_simps] is_forall_def [tcm_simps] is_sort_def [tcm_simps]
  is_proj_def [tcm_simps] has_loose_bvars_def [tcm_simps] const_name_def [tcm_simps] is_const_named_def [tcm_simps]
  const_levels_of_head_def [tcm_simps] infer_type_def [tcm_simps] tc_sort_def [tcm_simps]

lemma name_of_node: "node_in base st k nd \<Longrightarrow> node_const_name nd \<in> name_ids base st"
  by (cases nd) (simp_all add: node_const_name_def)

section \<open>Natural numbers and literals\<close>

context sound_calls
begin

lemma is_def_eq_spec [specs]:
  assumes "\<And>s. tc_ok H V s \<Longrightarrow> P s \<Longrightarrow> t \<in> rng V 0 s \<and> u \<in> rng V 0 s"
  shows "contract H V b P (is_def_eq K t u) (\<lambda>_ _. True)"
  unfolding is_def_eq_def tcm_simps
  by (intro contract_give specs [THEN contract_seq] specs [THEN contract_tail] cases_rules; use assms in auto)

lemma char_list_loop_spec [specs]:
  assumes "\<And>s. tc_ok H V s \<Longrightarrow> P s \<Longrightarrow> c \<in> rng V 0 s \<and> f \<in> rng V 0 s \<and> r \<in> rng V 0 s"
  shows "contract H V b P (char_list_loop H V c f cps r) (\<lambda>r s. r \<in> rng V 0 s)"
  using assms
proof (induction cps arbitrary: P r)
  case (Cons cp cps)
  show ?case unfolding char_list_loop.simps
    by (intro contract_give specs [THEN contract_seq] Cons.IH cases_rules; use Cons.prems in auto)
qed (auto intro: contract_give)

lemma string_lit_to_constructor_spec [specs]:
  "contract H V b P (string_lit_to_constructor H V str) (\<lambda>r s. r \<in> rng V 0 s)"
  unfolding string_lit_to_constructor_def tcm_simps
  by (intro contract_give specs [THEN contract_seq] specs [THEN contract_tail] cases_rules; auto)

lemma nat_lit_to_constructor_spec [specs]:
  assumes "\<And>s. tc_ok H V s \<Longrightarrow> P s \<Longrightarrow> e \<in> rng V 0 s"
  shows "contract H V b P (nat_lit_to_constructor H V e) (\<lambda>r s. r \<in> rng V 0 s)"
  unfolding nat_lit_to_constructor_def tcm_simps
  by (intro contract_give specs [THEN contract_seq] specs [THEN contract_tail] cases_rules; use assms in auto)

lemma bool_const_spec [specs]: "contract H V b P (bool_const H V x) (\<lambda>r s. r \<in> rng V 0 s)"
  unfolding bool_const_def tcm_simps
  by (intro contract_give specs [THEN contract_seq] specs [THEN contract_tail] cases_rules; auto)

lemma get_nat_lit_ext_spec [specs]:
  assumes "\<And>s. tc_ok H V s \<Longrightarrow> P s \<Longrightarrow> e \<in> rng V 0 s"
  shows "contract H V b P (get_nat_lit_ext H V K e) (\<lambda>_ _. True)"
  unfolding get_nat_lit_ext_def tcm_simps
  by (intro contract_give specs [THEN contract_seq] specs [THEN contract_tail] cases_rules; use assms in auto)

lemma reduce_nat_op_spec [specs]:
  assumes "\<And>s. tc_ok H V s \<Longrightarrow> P s \<Longrightarrow> a \<in> rng V 0 s \<and> c \<in> rng V 0 s"
  shows "contract H V b P (reduce_nat_op H V K op a c) (\<lambda>r s. set_option r \<subseteq> rng V 0 s)"
  unfolding reduce_nat_op_def tcm_simps
  by (intro contract_give specs [THEN contract_seq] specs [THEN contract_tail] cases_rules; use assms in auto)

lemma reduce_nat_spec [specs]:
  assumes "\<And>s. tc_ok H V s \<Longrightarrow> P s \<Longrightarrow> e \<in> rng V 0 s"
  shows "contract H V b P (reduce_nat H V K e) (\<lambda>r s. set_option r \<subseteq> rng V 0 s)"
  unfolding reduce_nat_def reduce_nat_succ_def reduce_nat_binop_def tcm_simps
  by (intro contract_give specs [THEN contract_seq] specs [THEN contract_tail] cases_rules; use assms in auto)

end

end
