(* ===== verification/Checker_Safe_Reduce.thy ===== *)
theory Checker_Safe_Reduce
  imports Checker_Safe_Whnf
begin

text \<open>The contracts of unfolding, of the eliminators and of the normal form methods.\<close>

lemma first_cnstr_name: "first_cnstr V n = Some c \<Longrightarrow> tc_ok H V s \<Longrightarrow> Some c \<in> nms V s"
  by (auto simp: first_cnstr_def const_ok_def split: option.splits constant_info.splits list.splits dest!: env_const)

lemma digits_usize: "length (to_u64_digits n) > 1 \<longleftrightarrow> 2 ^ 64 \<le> n"
proof -
  have "length (to_u64_digits n) > 1 \<longleftrightarrow> n \<noteq> 0 \<and> to_u64_digits (n div 2 ^ 64) \<noteq> []"
    by (subst to_u64_digits.simps) simp
  also have "to_u64_digits (n div 2 ^ 64) \<noteq> [] \<longleftrightarrow> n div 2 ^ 64 \<noteq> 0"
    by (subst to_u64_digits.simps) simp
  finally have "length (to_u64_digits n) > 1 \<longleftrightarrow> n div 2 ^ 64 \<noteq> 0" by (cases "n = 0") simp_all
  then show ?thesis by (simp add: div_eq_0_iff not_less)
qed

lemma nat_to_usize_eq: "nat_to_usize n = (if n < 2 ^ 64 then Some n else None)"
proof (cases "n = 0")
  case False
  then have "first_or_0 (to_u64_digits n) = of_nat n" by (subst to_u64_digits.simps) (simp add: first_or_0_def)
  then show ?thesis using digits_usize [of n]
    by (simp add: nat_to_usize_def Let_def unat_of_nat take_bit_nat_eq_self not_le)
qed (simp add: nat_to_usize_def to_u64_digits.simps first_or_0_def)

lemma nat_to_usize_Some: "nat_to_usize n = Some k \<Longrightarrow> k = n \<and> n < 2 ^ 64"
  by (simp add: nat_to_usize_eq split: if_splits)

lemma contract_stop: "(\<And>s. tc_ok H V s \<Longrightarrow> P s \<Longrightarrow> e \<noteq> Panic) \<Longrightarrow> contract H V b P (fail e) Q"
  by (rule contractI) (auto simp: fail_def)

text \<open>A node that is read at any depth.\<close>

lemma tc_node_any:
  assumes "\<And>s. tc_ok H V s \<Longrightarrow> P s \<Longrightarrow> \<exists>k. e \<in> rng V k s"
  shows "contract H V b P (tc_node V e) (\<lambda>nd s. node_at (view_base V) (tc_scratch s) e nd
    \<and> (\<forall>k. e \<in> rng V k s \<longrightarrow> node_in (view_base V) (tc_scratch s) k nd))"
proof (rule contract_tail)
  show "contract H V b P (tc_node V e) (\<lambda>nd s. node_at (view_base V) (tc_scratch s) e nd)"
    unfolding tc_node_def
  proof (rule contract_reads)
    fix s assume s: "tc_ok H V s" "P s"
    from assms [OF s] obtain k where e: "e \<in> rng V k s" by blast
    show "run (- {Panic}) (expr_node (view_base V) (tc_scratch s) e) (\<lambda>nd. node_at (view_base V) (tc_scratch s) e nd)"
      by (rule node_in_range [OF tc_okD(8) [OF s(1)] e]) simp
  qed (rule node_at_grows)
next
  fix nd s assume s: "tc_ok H V s" "node_at (view_base V) (tc_scratch s) e nd"
  have "node_in (view_base V) (tc_scratch s) k nd" if "e \<in> rng V k s" for k
    using node_in_range [OF tc_okD(8) [OF s(1)] that] expr_node_ok [OF tc_okD(8) [OF s(1)] s(2)] by (metis Inr_inject)
  with s(2) show "node_at (view_base V) (tc_scratch s) e nd
    \<and> (\<forall>k. e \<in> rng V k s \<longrightarrow> node_in (view_base V) (tc_scratch s) k nd)" by blast
qed

text \<open>An application has arguments.\<close>

lemma tc_get_app_args_app:
  assumes "\<And>s. tc_ok H V s \<Longrightarrow> P s \<Longrightarrow> e \<in> rng V 0 s \<and> (\<exists>f a. node_at (view_base V) (tc_scratch s) e (NApp f a))"
  shows "contract H V b P (tc_get_app_args V e) (\<lambda>args s. set args \<subseteq> rng V 0 s \<and> length args < 2 ^ 32 \<and> args \<noteq> [])"
  unfolding tc_get_app_args_def
proof (rule contract_reads)
  fix s assume s: "tc_ok H V s" "P s"
  note ok = tc_okD(8) [OF s(1)]
  from assms [OF s] obtain f a where e: "e \<in> rng V 0 s" "node_at (view_base V) (tc_scratch s) e (NApp f a)" by blast
  from node_in_range [OF ok e(1)] expr_node_ok [OF ok e(2)] have "f \<in> rng V 0 s" by (metis node_in.simps(7) Inr_inject)
  then obtain t where t: "expr_at (view_base V) (tc_scratch s) f t" "loose_range t \<le> 0" "height t + 0 < 2 ^ 32"
    by (auto simp: in_range_0)
  from spine_loop_ok [OF ok t, of "[a]"] obtain h args where
    "spine_loop (view_base V) (tc_scratch s) f [a] = Some (Inr (h, [a] @ args))" by blast
  then have h: "spine_loop (view_base V) (tc_scratch s) e [] = Some (Inr (h, a # args))"
    by (subst spine_loop.simps) (simp add: expr_node_ok [OF ok e(2)])
  from spine_of [OF ok e(1)] h show "run (- {Panic}) (get_app_args (view_base V) e (tc_scratch s))
      (\<lambda>args. set args \<subseteq> in_range (view_base V) (tc_scratch s) 0 \<and> length args < 2 ^ 32 \<and> args \<noteq> [])"
    by (auto simp: get_app_args_def)
qed (auto dest: ids_grow(1))

text \<open>The nodes on which \<open>whnf_core\<close> does something.\<close>

fun reducible :: "node \<Rightarrow> bool" where
  "reducible (NFVar _) = True"
| "reducible (NApp _ _) = True"
| "reducible (NLetE _ _ _ _ _) = True"
| "reducible (NProj _ _ _) = True"
| "reducible (NProjBig _ _ _) = True"
| "reducible _ = False"

lemmas wp = contract_give contract_stop contract_decl

context sound_calls
begin

section \<open>Unfolding\<close>

lemma is_let_fvar_spec [specs]:
  assumes "\<And>s. tc_ok H V s \<Longrightarrow> P s \<Longrightarrow> e \<in> rng V 0 s"
  shows "contract H V b P (is_let_fvar V e) (\<lambda>_ _. True)"
  by (rule contract_pre [OF _ assms], unfold is_let_fvar_def tcm_simps)
    (intro wp specs [THEN contract_seq] specs [THEN contract_tail] cases_rules; auto)

lemma is_delta_spec [specs]:
  assumes "\<And>s. tc_ok H V s \<Longrightarrow> P s \<Longrightarrow> e \<in> rng V 0 s"
  shows "contract H V b P (is_delta V e) (\<lambda>_ _. True)"
  by (rule contract_pre [OF _ assms], unfold is_delta_def tcm_simps)
    (intro wp specs [THEN contract_seq] specs [THEN contract_tail] cases_rules; auto)

lemma unfold_value_spec [specs]:
  assumes "\<And>s. tc_ok H V s \<Longrightarrow> P s \<Longrightarrow> info_has_value info \<and> const_ok V (tc_scratch s) info \<and> set ls \<subseteq> lvs V s"
  shows "contract H V b P (unfold_value H V e info ls) (\<lambda>r s. set_option r \<subseteq> rng V 0 s)"
  by (rule contract_pre [OF _ assms], unfold unfold_value_def tcm_simps)
    (intro wp specs [THEN contract_seq] specs [THEN contract_tail] cases_rules; auto simp: const_ok_def val_ok_def image_subset_iff)

lemma unfold_definition_core_spec [specs]:
  assumes "\<And>s. tc_ok H V s \<Longrightarrow> P s \<Longrightarrow> e \<in> rng V 0 s"
  shows "contract H V b P (unfold_definition_core H V e) (\<lambda>r s. set_option r \<subseteq> rng V 0 s)"
  by (rule contract_pre [OF _ assms], unfold unfold_definition_core_def tcm_simps)
    (intro wp specs [THEN contract_seq] specs [THEN contract_tail] cases_rules; auto simp: unfoldable_def dest: env_const)

lemma unfold_definition_spec [specs]:
  assumes "\<And>s. tc_ok H V s \<Longrightarrow> P s \<Longrightarrow> e \<in> rng V 0 s"
  shows "contract H V b P (unfold_definition H V e) (\<lambda>r s. set_option r \<subseteq> rng V 0 s)"
  by (rule contract_pre [OF _ assms], unfold unfold_definition_def tcm_simps)
    (intro wp specs [THEN contract_seq] specs [THEN contract_tail] cases_rules; auto)

lemma cheap_beta_select_spec [specs]:
  assumes "\<And>s. tc_ok H V s \<Longrightarrow> P s \<Longrightarrow> e \<in> rng V 0 s \<and> set args \<subseteq> rng V 0 s \<and> c \<in> rng V i s \<and> i \<le> length args"
  shows "contract H V b P (cheap_beta_select V e args c i) (\<lambda>r s. r \<in> rng V 0 s)"
  by (rule contract_pre [OF _ assms], unfold cheap_beta_select_def Let_def tcm_simps)
    (intro wp tc_node_range [where k = i, THEN contract_seq] specs [THEN contract_seq] specs [THEN contract_tail] cases_rules; auto dest: in_set_takeD in_set_dropD)

lemma cheap_beta_reduce_spec [specs]:
  assumes "\<And>s. tc_ok H V s \<Longrightarrow> P s \<Longrightarrow> e \<in> rng V 0 s"
  shows "contract H V b P (cheap_beta_reduce V e) (\<lambda>r s. r \<in> rng V 0 s)"
  by (rule contract_pre [OF _ assms], unfold cheap_beta_reduce_def tcm_simps)
    (intro wp specs [THEN contract_seq] specs [THEN contract_tail] cases_rules; auto)

section \<open>Quotients\<close>

lemma quot_names_spec [specs]:
  "contract H V b P (quot_names H V) (\<lambda>_ _. True)"
  unfolding quot_names_def tcm_simps
  by (intro wp specs [THEN contract_seq] specs [THEN contract_tail] cases_rules; auto)

lemma quot_reduce_at_spec [specs]:
  assumes "\<And>s. tc_ok H V s \<Longrightarrow> P s \<Longrightarrow> e \<in> rng V 0 s \<and> a < m"
  shows "contract H V b P (quot_reduce_at V K e mk m a) (\<lambda>r s. set_option r \<subseteq> rng V 0 s)"
  by (rule contract_pre [OF _ assms], unfold quot_reduce_at_def tcm_simps)
    (intro wp specs [THEN contract_seq] specs [THEN contract_tail] cases_rules; auto dest: in_set_dropD)

lemma quot_reduce_rec_spec [specs]:
  assumes "\<And>s. tc_ok H V s \<Longrightarrow> P s \<Longrightarrow> e \<in> rng V 0 s"
  shows "contract H V b P (quot_reduce_rec H V K e) (\<lambda>r s. set_option r \<subseteq> rng V 0 s)"
  by (rule contract_pre [OF _ assms], unfold quot_reduce_rec_def tcm_simps)
    (intro wp specs [THEN contract_seq] specs [THEN contract_tail] cases_rules; auto)

section \<open>Recursors\<close>

lemma rec_whnf_spec [specs]:
  assumes "\<And>s. tc_ok H V s \<Longrightarrow> P s \<Longrightarrow> e \<in> rng V 0 s"
  shows "contract H V b P (rec_whnf K e cr cp) (\<lambda>r s. r \<in> rng V 0 s)"
  by (rule contract_pre [OF _ assms], unfold rec_whnf_def tcm_simps)
    (intro wp specs [THEN contract_seq] specs [THEN contract_tail] cases_rules; auto)

lemma get_rec_rule_for_spec [specs]:
  assumes "\<And>s. tc_ok H V s \<Longrightarrow> P s \<Longrightarrow> e \<in> rng V 0 s"
  shows "contract H V b P (get_rec_rule_for V rules e) (\<lambda>r s. set_option r \<subseteq> set rules)"
  by (rule contract_pre [OF _ assms], unfold get_rec_rule_for_def tcm_simps)
    (intro wp specs [THEN contract_seq] specs [THEN contract_tail] cases_rules; auto simp: find_Some_iff split: option.splits)

lemma is_constructor_app_spec [specs]:
  assumes "\<And>s. tc_ok H V s \<Longrightarrow> P s \<Longrightarrow> e \<in> rng V 0 s"
  shows "contract H V b P (is_constructor_app V e) (\<lambda>_ _. True)"
  by (rule contract_pre [OF _ assms], unfold is_constructor_app_def tcm_simps)
    (intro wp specs [THEN contract_seq] specs [THEN contract_tail] cases_rules; auto)

lemma mk_nullary_cnstr_spec [specs]:
  assumes "\<And>s. tc_ok H V s \<Longrightarrow> P s \<Longrightarrow> e \<in> rng V 0 s"
  shows "contract H V b P (mk_nullary_cnstr V e n) (\<lambda>r s. set_option r \<subseteq> rng V 0 s)"
  by (rule contract_pre [OF _ assms], unfold mk_nullary_cnstr_def tcm_simps)
    (intro wp specs [THEN contract_seq] specs [THEN contract_tail] cases_rules; auto dest: in_set_takeD first_cnstr_name)

lemma any_arg_mvar_spec [specs]:
  assumes "\<And>s. tc_ok H V s \<Longrightarrow> P s \<Longrightarrow> set args \<subseteq> rng V 0 s"
  shows "contract H V b P (any_arg_mvar V args) (\<lambda>_ _. True)"
  using assms
proof (induction args arbitrary: P)
  case (Cons a args)
  show ?case unfolding any_arg_mvar.simps
    by (intro wp specs [THEN contract_seq] Cons.IH cases_rules; use Cons.prems in auto)
qed (auto intro: contract_give)

lemma to_cnstr_when_k_spec [specs]:
  assumes "\<And>s. tc_ok H V s \<Longrightarrow> P s \<Longrightarrow> e \<in> rng V 0 s"
  shows "contract H V b P (to_cnstr_when_k V K m n e cr cp) (\<lambda>r s. r \<in> rng V 0 s)"
  by (rule contract_pre [OF _ assms], unfold to_cnstr_when_k_def tcm_simps)
    (intro wp specs [THEN contract_seq] specs [THEN contract_tail] cases_rules; auto dest: in_set_dropD)

lemma eta_fields_spec [specs]:
  assumes "\<And>s. tc_ok H V s \<Longrightarrow> P s \<Longrightarrow> i \<in> nms V s \<and> e \<in> rng V 0 s \<and> r \<in> rng V 0 s"
  shows "contract H V b P (eta_fields H V i e f n r) (\<lambda>r s. r \<in> rng V 0 s)"
  using assms
proof (induction n arbitrary: P f r)
  case (Suc n)
  show ?case unfolding eta_fields.simps
    by (intro wp specs [THEN contract_seq] Suc.IH cases_rules; use Suc.prems in auto)
qed (auto intro: contract_give)

lemma expand_eta_struct_spec [specs]:
  assumes "\<And>s. tc_ok H V s \<Longrightarrow> P s \<Longrightarrow> t \<in> rng V 0 s \<and> e \<in> rng V 0 s"
  shows "contract H V b P (expand_eta_struct H V t e) (\<lambda>r s. r \<in> rng V 0 s)"
  by (rule contract_pre [OF _ assms], unfold expand_eta_struct_def tcm_simps)
    (intro wp specs [THEN contract_seq] specs [THEN contract_tail] cases_rules; auto dest: in_set_takeD first_cnstr_name)

lemma to_cnstr_when_structure_spec [specs]:
  assumes "\<And>s. tc_ok H V s \<Longrightarrow> P s \<Longrightarrow> e \<in> rng V 0 s"
  shows "contract H V b P (to_cnstr_when_structure H V K i e cr cp) (\<lambda>r s. r \<in> rng V 0 s)"
  by (rule contract_pre [OF _ assms], unfold to_cnstr_when_structure_def tcm_simps)
    (intro wp specs [THEN contract_seq] specs [THEN contract_tail] cases_rules; auto)

lemma major_to_cnstr_spec [specs]:
  assumes "\<And>s. tc_ok H V s \<Longrightarrow> P s \<Longrightarrow> e \<in> rng V 0 s"
  shows "contract H V b P (major_to_cnstr H V K i e cr cp) (\<lambda>r s. r \<in> rng V 0 s)"
  by (rule contract_pre [OF _ assms], unfold major_to_cnstr_def tcm_simps)
    (intro wp specs [THEN contract_seq] specs [THEN contract_tail] cases_rules; auto)

lemma rule_rhs_spec [specs]:
  assumes "\<And>s. tc_ok H V s \<Longrightarrow> P s \<Longrightarrow> const_ok V (tc_scratch s) (CRec rv) \<and> rule \<in> set (rv_rules rv) \<and> rl \<in> lls V s \<and> set ra \<subseteq> rng V 0 s \<and> set ma \<subseteq> rng V 0 s \<and> pmm \<le> length ra"
  shows "contract H V b P (rule_rhs H V rv rule rl ra ma pmm mi nf) (\<lambda>r s. set_option r \<subseteq> rng V 0 s)"
  by (rule contract_pre [OF _ assms], unfold rule_rhs_def tcm_simps)
    (intro wp specs [THEN contract_seq] specs [THEN contract_tail] cases_rules; auto simp: const_ok_def val_ok_def image_subset_iff dest: in_set_takeD in_set_dropD)

lemma reduce_major_spec [specs]:
  assumes "\<And>s. tc_ok H V s \<Longrightarrow> P s \<Longrightarrow> const_ok V (tc_scratch s) (CRec rv) \<and> rl \<in> lls V s \<and> set ra \<subseteq> rng V 0 s \<and> pmm \<le> length ra \<and> mi < length ra"
  shows "contract H V b P (reduce_major H V K rv rl ra np pmm mi m cr cp) (\<lambda>r s. set_option r \<subseteq> rng V 0 s)"
  by (rule contract_pre [OF _ assms], unfold reduce_major_def tcm_simps)
    (intro wp specs [THEN contract_seq] specs [THEN contract_tail] cases_rules; auto)

lemma inductive_reduce_rec_spec [specs]:
  assumes "\<And>s. tc_ok H V s \<Longrightarrow> P s \<Longrightarrow> e \<in> rng V 0 s"
  shows "contract H V b P (inductive_reduce_rec H V K e cr cp) (\<lambda>r s. set_option r \<subseteq> rng V 0 s)"
  by (rule contract_pre [OF _ assms], unfold inductive_reduce_rec_def Let_def tcm_simps)
    (intro wp specs [THEN contract_seq] specs [THEN contract_tail] cases_rules; auto simp: const_ok_def val_ok_def image_subset_iff usize_add_def dest!: env_const nat_to_usize_Some)

lemma reduce_recursor_spec [specs]:
  assumes "\<And>s. tc_ok H V s \<Longrightarrow> P s \<Longrightarrow> e \<in> rng V 0 s"
  shows "contract H V b P (reduce_recursor H V K e cr cp) (\<lambda>r s. set_option r \<subseteq> rng V 0 s)"
  by (rule contract_pre [OF _ assms], unfold reduce_recursor_def tcm_simps)
    (intro wp specs [THEN contract_seq] specs [THEN contract_tail] cases_rules; auto)

section \<open>Projections\<close>

lemma field_of_spec [specs]:
  assumes "\<And>s. tc_ok H V s \<Longrightarrow> P s \<Longrightarrow> e \<in> rng V 0 s"
  shows "contract H V b P (field_of V e i) (\<lambda>r s. set_option r \<subseteq> rng V 0 s)"
  by (rule contract_pre [OF _ assms], unfold field_of_def Let_def tcm_simps)
    (intro wp specs [THEN contract_seq] specs [THEN contract_tail] cases_rules; auto)

lemma reduce_proj_core_spec [specs]:
  assumes "\<And>s. tc_ok H V s \<Longrightarrow> P s \<Longrightarrow> e \<in> rng V 0 s"
  shows "contract H V b P (reduce_proj_core H V K e i) (\<lambda>r s. set_option r \<subseteq> rng V 0 s)"
  by (rule contract_pre [OF _ assms], unfold reduce_proj_core_def tcm_simps)
    (intro wp specs [THEN contract_seq] specs [THEN contract_tail] cases_rules; auto)

lemma reduce_proj_spec [specs]:
  assumes "\<And>s. tc_ok H V s \<Longrightarrow> P s \<Longrightarrow> e \<in> rng V 0 s"
  shows "contract H V b P (reduce_proj H V K e cr cp) (\<lambda>r s. set_option r \<subseteq> rng V 0 s)"
  by (rule contract_pre [OF _ assms], unfold reduce_proj_def tcm_simps)
    (intro wp specs [THEN contract_seq] specs [THEN contract_tail] cases_rules; auto)

section \<open>Normal forms\<close>

lemma whnf_fvar_spec [specs]:
  assumes "\<And>s. tc_ok H V s \<Longrightarrow> P s \<Longrightarrow> e \<in> rng V 0 s"
  shows "contract H V b P (whnf_fvar V K e cr cp) (\<lambda>r s. r \<in> rng V 0 s)"
  by (rule contract_pre [OF _ assms], unfold whnf_fvar_def tcm_simps)
    (intro wp specs [THEN contract_seq] specs [THEN contract_tail] cases_rules; auto simp: decl_of_def bind_eq_Some_conv)

lemma beta_step_spec [specs]:
  assumes "\<And>s. tc_ok H V s \<Longrightarrow> P s \<Longrightarrow> f \<in> rng V 0 s \<and> args \<noteq> [] \<and> set args \<subseteq> rng V 0 s \<and> length args < 2 ^ 32
    \<and> (\<exists>nd. is_lam_node nd \<and> node_at (view_base V) (tc_scratch s) f nd)"
  shows "contract H V b P (beta_step H V K f args cr cp) (\<lambda>r s. r \<in> rng V 0 s)"
  by (rule contract_pre [OF _ assms], unfold beta_step_def tcm_simps)
    (intro wp tc_node_any [THEN contract_seq] specs [THEN contract_seq]
      specs [THEN contract_tail] cases_rules; auto dest: in_set_takeD in_set_dropD node_at_det)

lemma whnf_core_app_spec [specs]:
  assumes "\<And>s. tc_ok H V s \<Longrightarrow> P s \<Longrightarrow> e \<in> rng V 0 s \<and> (\<exists>f a. node_at (view_base V) (tc_scratch s) e (NApp f a))"
  shows "contract H V b P (whnf_core_app H V K e cr cp) (\<lambda>r s. \<forall>x. r = Inl x \<or> r = Inr x \<longrightarrow> x \<in> rng V 0 s)"
  by (rule contract_pre [OF _ assms], unfold whnf_core_app_def tcm_simps)
    (intro wp tc_get_app_args_app [THEN contract_seq] specs [THEN contract_seq] specs [THEN contract_tail] cases_rules; auto)

lemma whnf_core_step_spec [specs]:
  assumes "\<And>s. tc_ok H V s \<Longrightarrow> P s \<Longrightarrow> e \<in> rng V 0 s \<and> (\<exists>nd. node_at (view_base V) (tc_scratch s) e nd \<and> reducible nd)"
  shows "contract H V b P (whnf_core_step H V K e cr cp) (\<lambda>r s. \<forall>x. r = Inl x \<or> r = Inr x \<longrightarrow> x \<in> rng V 0 s)"
  by (rule contract_pre [OF _ assms], unfold whnf_core_step_def tcm_simps)
    (intro wp specs [THEN contract_seq] specs [THEN contract_tail] cases_rules; auto dest: node_at_det)

lemma whnf_core_cached_spec [specs]:
  assumes "\<And>s. tc_ok H V s \<Longrightarrow> P s \<Longrightarrow> e \<in> rng V 0 s \<and> (\<exists>nd. node_at (view_base V) (tc_scratch s) e nd \<and> reducible nd)"
  shows "contract H V b P (whnf_core_cached H V K e cr cp) (\<lambda>r s. r \<in> rng V 0 s)"
  by (rule contract_pre [OF _ assms], unfold whnf_core_cached_def tcm_simps)
    (intro wp specs [THEN contract_seq] specs [THEN contract_tail] cases_rules; auto)

lemma whnf_core_spec [specs]:
  assumes "\<And>s. tc_ok H V s \<Longrightarrow> P s \<Longrightarrow> e \<in> rng V 0 s"
  shows "contract H V b P (whnf_core H V K e cr cp) (\<lambda>r s. r \<in> rng V 0 s)"
  by (rule contract_pre [OF _ assms], unfold whnf_core_def tcm_simps)
    (intro wp contract_guard specs [THEN contract_seq] specs [THEN contract_tail] cases_rules; auto)

lemma cache_whnf_spec [specs]:
  assumes "\<And>s. tc_ok H V s \<Longrightarrow> P s \<Longrightarrow> r \<in> rng V 0 s"
  shows "contract H V b P (cache_whnf e r) (\<lambda>r s. r \<in> rng V 0 s)"
  by (rule contract_pre [OF _ assms], unfold cache_whnf_def tcm_simps)
    (intro wp specs [THEN contract_seq] specs [THEN contract_tail] cases_rules; auto)

lemma whnf_loop_spec [specs]:
  assumes "\<And>s. tc_ok H V s \<Longrightarrow> P s \<Longrightarrow> t \<in> rng V 0 s"
  shows "contract H V b P (whnf_loop H V K e t) (\<lambda>r s. r \<in> rng V 0 s)"
  by (rule contract_pre [OF _ assms], unfold whnf_loop_def reduce_native_def tcm_simps)
    (intro wp specs [THEN contract_seq] specs [THEN contract_tail] cases_rules; auto)

lemma whnf_spec [specs]:
  assumes "\<And>s. tc_ok H V s \<Longrightarrow> P s \<Longrightarrow> e \<in> rng V 0 s"
  shows "contract H V b P (whnf H V K e) (\<lambda>r s. r \<in> rng V 0 s)"
  by (rule contract_pre [OF _ assms], unfold whnf_def whnf_cached_def tcm_simps)
    (intro wp contract_guard specs [THEN contract_seq] specs [THEN contract_tail] cases_rules; auto)

end

end
