(* ===== verification/Checker_Safe_Infer.thy ===== *)
theory Checker_Safe_Infer
  imports Checker_Safe_Reduce
begin

text \<open>The contracts of type inference.\<close>

lemma range_small: "e \<in> in_range base st k \<Longrightarrow> k < 2 ^ 32"
  by (auto simp: in_range_def)

lemma contract_scope_closed:
  "contract H V False P m (\<lambda>r s. r \<in> rng V 0 s) \<Longrightarrow> contract H V b P (in_scope m) (\<lambda>r s. r \<in> rng V 0 s)"
  by (rule contract_scope [where q = "\<lambda>r st. r \<in> in_range (view_base V) st 0"]) (auto dest: ids_grow(1))

context sound_calls
begin

section \<open>Atoms\<close>

lemma ensure_sort_spec [specs]:
  assumes "\<And>s. tc_ok H V s \<Longrightarrow> P s \<Longrightarrow> e \<in> rng V 0 s"
  shows "contract H V b P (ensure_sort V K e) (\<lambda>r s. r \<in> rng V 0 s)"
  by (rule contract_pre [OF _ assms], unfold ensure_sort_def tcm_simps)
    (intro wp specs [THEN contract_seq] specs [THEN contract_tail] cases_rules; auto)

lemma ensure_pi_spec [specs]:
  assumes "\<And>s. tc_ok H V s \<Longrightarrow> P s \<Longrightarrow> e \<in> rng V 0 s"
  shows "contract H V b P (ensure_pi V K e) (\<lambda>r s. r \<in> rng V 0 s)"
  by (rule contract_pre [OF _ assms], unfold ensure_pi_def tcm_simps)
    (intro wp specs [THEN contract_seq] specs [THEN contract_tail] cases_rules; auto)

lemma is_prop_spec [specs]:
  assumes "\<And>s. tc_ok H V s \<Longrightarrow> P s \<Longrightarrow> e \<in> rng V 0 s"
  shows "contract H V b P (is_prop V K e) (\<lambda>_ _. True)"
  by (rule contract_pre [OF _ assms], unfold is_prop_def tcm_simps)
    (intro wp specs [THEN contract_seq] specs [THEN contract_tail] cases_rules; auto)

lemma infer_lit_spec [specs]:
  assumes "\<And>s. tc_ok H V s \<Longrightarrow> P s \<Longrightarrow> (\<exists>q. nd = NLitNat q \<or> nd = NLitStr q)"
  shows "contract H V b P (infer_lit H V nd) (\<lambda>r s. r \<in> rng V 0 s)"
  by (rule contract_pre [OF _ assms], unfold infer_lit_def tcm_simps)
    (intro wp specs [THEN contract_seq] specs [THEN contract_tail] cases_rules; auto)

lemma check_level_spec [specs]:
  assumes "\<And>s. tc_ok H V s \<Longrightarrow> P s \<Longrightarrow> l \<in> lvs V s"
  shows "contract H V b P (check_level V l) (\<lambda>_ _. True)"
  by (rule contract_pre [OF _ assms], unfold check_level_def tcm_simps)
    (intro wp specs [THEN contract_seq] specs [THEN contract_tail] cases_rules; auto)

lemma infer_fvar_spec [specs]:
  assumes "\<And>s. tc_ok H V s \<Longrightarrow> P s \<Longrightarrow> e \<in> rng V 0 s"
  shows "contract H V b P (infer_fvar V e) (\<lambda>r s. r \<in> rng V 0 s)"
  by (rule contract_pre [OF _ assms], unfold infer_fvar_def tcm_simps)
    (intro wp specs [THEN contract_seq] specs [THEN contract_tail] cases_rules; auto simp: decl_of_def)

lemma check_levels_spec [specs]:
  assumes "\<And>s. tc_ok H V s \<Longrightarrow> P s \<Longrightarrow> set ls \<subseteq> lvs V s"
  shows "contract H V b P (check_levels V ls) (\<lambda>_ _. True)"
  using assms
proof (induction ls arbitrary: P)
  case (Cons l ls)
  show ?case
    by (rule contract_pre [OF _ Cons.prems], unfold check_levels.simps tcm_simps)
      (intro wp  Cons.IH specs [THEN contract_seq] specs [THEN contract_tail] cases_rules; auto)
qed (auto intro!: contract_give)

lemma check_const_use_spec [specs]:
  assumes "\<And>s. tc_ok H V s \<Longrightarrow> P s \<Longrightarrow> const_ok V (tc_scratch s) info \<and> set ls \<subseteq> lvs V s"
  shows "contract H V b P (check_const_use V info ls) (\<lambda>_ _. True)"
  by (rule contract_pre [OF _ assms], unfold check_const_use_def tcm_simps)
    (intro wp specs [THEN contract_seq] specs [THEN contract_tail] cases_rules; auto simp: const_ok_def val_ok_def)

lemma infer_constant_spec [specs]:
  assumes "\<And>s. tc_ok H V s \<Longrightarrow> P s \<Longrightarrow> e \<in> rng V 0 s"
  shows "contract H V b P (infer_constant H V e io) (\<lambda>r s. r \<in> rng V 0 s)"
  by (rule contract_pre [OF _ assms], unfold infer_constant_def Let_def tcm_simps)
    (intro wp specs [THEN contract_seq] specs [THEN contract_tail] cases_rules; auto simp: const_ok_def val_ok_def image_subset_iff)

section \<open>Binders\<close>

lemma lambda_loop_spec [specs]:
  assumes "\<And>s. tc_ok H V s \<Longrightarrow> P s \<Longrightarrow> e \<in> rng V (length fs) s \<and> (\<forall>f \<in> set fs. local_var V s f)"
  shows "contract H V False P (lambda_loop H V K io e fs) (\<lambda>(e, fs) s. e \<in> rng V (length fs) s \<and> (\<forall>f \<in> set fs. local_var V s f))"
  by (rule contract_pre [OF _ assms], unfold lambda_loop_def tcm_simps)
    (intro wp tc_node_any [THEN contract_seq] specs [THEN contract_seq] specs [THEN contract_tail] cases_rules; auto intro: local_var_range dest: range_small)

lemma infer_lambda_spec [specs]:
  assumes "\<And>s. tc_ok H V s \<Longrightarrow> P s \<Longrightarrow> e \<in> rng V 0 s"
  shows "contract H V b P (infer_lambda H V K e io) (\<lambda>r s. r \<in> rng V 0 s)"
  by (rule contract_pre [OF _ assms], unfold infer_lambda_def infer_lambda_body_def tcm_simps)
    (intro wp contract_scope_closed specs [THEN contract_seq] specs [THEN contract_tail] cases_rules; auto intro: local_var_range dest: range_small)

lemma sort_level_spec [specs]:
  assumes "\<And>s. tc_ok H V s \<Longrightarrow> P s \<Longrightarrow> e \<in> rng V 0 s"
  shows "contract H V b P (sort_level V e) (\<lambda>r s. r \<in> lvs V s)"
  by (rule contract_pre [OF _ assms], unfold sort_level_def tcm_simps)
    (intro wp specs [THEN contract_seq] specs [THEN contract_tail] cases_rules; auto)

lemma pi_loop_spec [specs]:
  assumes "\<And>s. tc_ok H V s \<Longrightarrow> P s \<Longrightarrow> e \<in> rng V (length fs) s \<and> (\<forall>f \<in> set fs. local_var V s f) \<and> set us \<subseteq> lvs V s"
  shows "contract H V False P (pi_loop H V K io e fs us) (\<lambda>(e, fs, us) s. e \<in> rng V (length fs) s \<and> (\<forall>f \<in> set fs. local_var V s f) \<and> set us \<subseteq> lvs V s)"
  by (rule contract_pre [OF _ assms], unfold pi_loop_def tcm_simps)
    (intro wp tc_node_any [THEN contract_seq] specs [THEN contract_seq] specs [THEN contract_tail] cases_rules; auto intro: local_var_range dest: range_small)

lemma imax_levels_spec [specs]:
  assumes "\<And>s. tc_ok H V s \<Longrightarrow> P s \<Longrightarrow> set us \<subseteq> lvs V s \<and> r \<in> lvs V s"
  shows "contract H V b P (imax_levels H V us r) (\<lambda>r s. r \<in> lvs V s)"
  using assms
proof (induction us arbitrary: P r)
  case (Cons u us)
  show ?case
    by (rule contract_pre [OF _ Cons.prems], unfold imax_levels.simps tcm_simps)
      (intro wp  Cons.IH specs [THEN contract_seq] specs [THEN contract_tail] cases_rules; auto)
qed (auto intro!: contract_give)

lemma infer_pi_spec [specs]:
  assumes "\<And>s. tc_ok H V s \<Longrightarrow> P s \<Longrightarrow> e \<in> rng V 0 s"
  shows "contract H V b P (infer_pi H V K e io) (\<lambda>r s. r \<in> rng V 0 s)"
  by (rule contract_pre [OF _ assms], unfold infer_pi_def infer_pi_body_def tcm_simps)
    (intro wp contract_scope_closed specs [THEN contract_seq] specs [THEN contract_tail] cases_rules; auto intro: local_var_range dest: range_small)

lemma let_loop_spec [specs]:
  assumes "\<And>s. tc_ok H V s \<Longrightarrow> P s \<Longrightarrow> e \<in> rng V (length fs) s \<and> (\<forall>f \<in> set fs. local_var V s f)"
  shows "contract H V False P (let_loop H V K io e fs) (\<lambda>(e, fs) s. e \<in> rng V (length fs) s \<and> (\<forall>f \<in> set fs. local_var V s f))"
  by (rule contract_pre [OF _ assms], unfold let_loop_def tcm_simps)
    (intro wp tc_node_any [THEN contract_seq] specs [THEN contract_seq] specs [THEN contract_tail] cases_rules; auto intro: local_var_range dest: range_small)

lemma infer_let_spec [specs]:
  assumes "\<And>s. tc_ok H V s \<Longrightarrow> P s \<Longrightarrow> e \<in> rng V 0 s"
  shows "contract H V b P (infer_let H V K e io) (\<lambda>r s. r \<in> rng V 0 s)"
  by (rule contract_pre [OF _ assms], unfold infer_let_def infer_let_body_def tcm_simps)
    (intro wp contract_scope_closed specs [THEN contract_seq] specs [THEN contract_tail] cases_rules; auto intro: local_var_range dest: range_small)

section \<open>Applications\<close>

lemma infer_app_check_spec [specs]:
  assumes "\<And>s. tc_ok H V s \<Longrightarrow> P s \<Longrightarrow> e \<in> rng V 0 s"
  shows "contract H V b P (infer_app_check H V K e) (\<lambda>r s. r \<in> rng V 0 s)"
  by (rule contract_pre [OF _ assms], unfold infer_app_check_def tcm_simps)
    (intro wp specs [THEN contract_seq] specs [THEN contract_tail] cases_rules; auto)

lemma infer_app_loop_spec [specs]:
  assumes "\<And>s. tc_ok H V s \<Longrightarrow> P s \<Longrightarrow> t \<in> rng V (i - j) s \<and> j \<le> i \<and> i + n = length args \<and> set args \<subseteq> rng V 0 s \<and> length args < 2 ^ 32"
  shows "contract H V b P (infer_app_loop H V K args n i j t) (\<lambda>(t, j) s. t \<in> rng V (length args - j) s \<and> j \<le> length args)"
  using assms
proof (induction n arbitrary: P i j t)
  case (Suc n)
  show ?case
    by (rule contract_pre [OF _ Suc.prems], unfold infer_app_loop.simps tcm_simps)
      (intro wp tc_node_any [THEN contract_seq] Suc.IH specs [THEN contract_seq] specs [THEN contract_tail] cases_rules; auto simp: Suc_diff_le dest: in_set_takeD in_set_dropD)
qed (auto intro!: contract_give)

lemma infer_app_only_spec [specs]:
  assumes "\<And>s. tc_ok H V s \<Longrightarrow> P s \<Longrightarrow> e \<in> rng V 0 s"
  shows "contract H V b P (infer_app_only H V K e) (\<lambda>r s. r \<in> rng V 0 s)"
  by (rule contract_pre [OF _ assms], unfold infer_app_only_def tcm_simps)
    (intro wp specs [THEN contract_seq] specs [THEN contract_tail] cases_rules; auto dest: in_set_takeD in_set_dropD)

lemma infer_app_spec [specs]:
  assumes "\<And>s. tc_ok H V s \<Longrightarrow> P s \<Longrightarrow> e \<in> rng V 0 s"
  shows "contract H V b P (infer_app H V K e io) (\<lambda>r s. r \<in> rng V 0 s)"
  by (rule contract_pre [OF _ assms], unfold infer_app_def tcm_simps)
    (intro wp specs [THEN contract_seq] specs [THEN contract_tail] cases_rules; auto)

section \<open>Projections\<close>

lemma proj_params_spec [specs]:
  assumes "\<And>s. tc_ok H V s \<Longrightarrow> P s \<Longrightarrow> set args \<subseteq> rng V 0 s \<and> r \<in> rng V 0 s"
  shows "contract H V b P (proj_params H V K args r) (\<lambda>r s. r \<in> rng V 0 s)"
  using assms
proof (induction args arbitrary: P r)
  case (Cons a args)
  show ?case
    by (rule contract_pre [OF _ Cons.prems], unfold proj_params.simps tcm_simps)
      (intro wp  Cons.IH specs [THEN contract_seq] specs [THEN contract_tail] cases_rules; auto)
qed (auto intro!: contract_give)

lemma check_prop_field_spec [specs]:
  assumes "\<And>s. tc_ok H V s \<Longrightarrow> P s \<Longrightarrow> t \<in> rng V 0 s"
  shows "contract H V b P (check_prop_field V K p t) (\<lambda>_ _. True)"
  by (rule contract_pre [OF _ assms], unfold check_prop_field_def tcm_simps)
    (intro wp specs [THEN contract_seq] specs [THEN contract_tail] cases_rules; auto)

lemma proj_fields_spec [specs]:
  assumes "\<And>s. tc_ok H V s \<Longrightarrow> P s \<Longrightarrow> r \<in> rng V 0 s \<and> c \<in> rng V 0 s \<and> n \<in> nms V s"
  shows "contract H V b P (proj_fields H V K n c p k i r) (\<lambda>r s. r \<in> rng V 0 s)"
  using assms
proof (induction k arbitrary: P i r)
  case (Suc k)
  show ?case
    by (rule contract_pre [OF _ Suc.prems], unfold proj_fields.simps tcm_simps)
      (intro wp  Suc.IH specs [THEN contract_seq] specs [THEN contract_tail] cases_rules; auto)
qed (auto intro!: contract_give)

lemma proj_from_ctor_spec [specs]:
  assumes "\<And>s. tc_ok H V s \<Longrightarrow> P s \<Longrightarrow> n \<in> nms V s \<and> ls \<in> lls V s \<and> c \<in> rng V 0 s \<and> set args \<subseteq> rng V 0 s \<and> Some cn \<in> nms V s \<and> t \<in> rng V 0 s"
  shows "contract H V b P (proj_from_ctor H V K n ls i c args np cn t) (\<lambda>r s. r \<in> rng V 0 s)"
  by (rule contract_pre [OF _ assms], unfold proj_from_ctor_def tcm_simps)
    (intro wp specs [THEN contract_seq] specs [THEN contract_tail] cases_rules; auto simp: const_ok_def val_ok_def image_subset_iff dest: in_set_takeD)

lemma proj_of_type_spec [specs]:
  assumes "\<And>s. tc_ok H V s \<Longrightarrow> P s \<Longrightarrow> n \<in> nms V s \<and> c \<in> rng V 0 s \<and> t \<in> rng V 0 s"
  shows "contract H V b P (proj_of_type H V K n i c t) (\<lambda>r s. r \<in> rng V 0 s)"
  by (rule contract_pre [OF _ assms], unfold proj_of_type_def tcm_simps)
    (intro wp specs [THEN contract_seq] specs [THEN contract_tail] cases_rules; auto simp: const_ok_def)

lemma infer_proj_spec [specs]:
  assumes "\<And>s. tc_ok H V s \<Longrightarrow> P s \<Longrightarrow> e \<in> rng V 0 s"
  shows "contract H V b P (infer_proj H V K e io) (\<lambda>r s. r \<in> rng V 0 s)"
  by (rule contract_pre [OF _ assms], unfold infer_proj_def tcm_simps)
    (intro wp specs [THEN contract_seq] specs [THEN contract_tail] cases_rules; auto)

section \<open>Inference\<close>

lemma infer_node_spec [specs]:
  assumes "\<And>s. tc_ok H V s \<Longrightarrow> P s \<Longrightarrow> e \<in> rng V 0 s \<and> node_in (view_base V) (tc_scratch s) 0 nd"
  shows "contract H V b P (infer_node H V K e io nd) (\<lambda>r s. r \<in> rng V 0 s)"
  by (rule contract_pre [OF _ assms], unfold infer_node_def tcm_simps)
    (intro wp specs [THEN contract_seq] specs [THEN contract_tail] cases_rules; auto)

lemma infer_type_core_spec [specs]:
  assumes "\<And>s. tc_ok H V s \<Longrightarrow> P s \<Longrightarrow> \<exists>k. e \<in> rng V k s"
  shows "contract H V b P (infer_type_core H V K e io) (\<lambda>r s. r \<in> rng V 0 s)"
  by (rule contract_pre [OF _ assms], unfold infer_type_core_def tcm_simps)
    (intro wp contract_guard specs [THEN contract_seq] specs [THEN contract_tail] cases_rules; auto)

lemma check_spec [specs]:
  assumes "\<And>s. tc_ok H V s \<Longrightarrow> P s \<Longrightarrow> e \<in> rng V 0 s"
  shows "contract H V b P (check K e ps) (\<lambda>r s. r \<in> rng V 0 s)"
  by (rule contract_pre [OF _ assms], unfold check_def tcm_simps)
    (intro wp specs [THEN contract_seq] specs [THEN contract_tail] cases_rules; auto)

end

end
