(* ===== verification/Checker_Run.thy ===== *)
theory Checker_Run
  imports Checker_Defeq
begin

text \<open>
  \<open>is_def_eq_core\<close>, the construction of a checker, and the knot: the methods with their calls bounded in
  depth (\<open>tc.rs\<close>).
\<close>

section \<open>is\_def\_eq\_core\<close>

definition try_eta_expansion_core :: "hashers \<Rightarrow> env_view \<Rightarrow> calls \<Rightarrow> u32 \<Rightarrow> u32 \<Rightarrow> bool tcm" where
  "try_eta_expansion_core H V K t s =
     after (is_lambda V t) (\<lambda>tl.
     after (if tl then is_lambda V s else give True) (\<lambda>stop.
       if stop then give False
       else
         after (infer_type K s) (\<lambda>st.
         after (k_whnf K st) (\<lambda>s_type.
         after (tc_node V s_type) (\<lambda>nd.
           case nd of
             NForall bn ty _ bi \<Rightarrow>
               after (writes (expr_bvar H (view_base V) 0)) (\<lambda>b0.
               after (tc_app V s b0) (\<lambda>body.
               after (writes (expr_lam (view_base V) bn ty body bi)) (\<lambda>new_s. is_def_eq K t new_s)))
           | _ \<Rightarrow> give False)))))"

definition try_eta_expansion :: "hashers \<Rightarrow> env_view \<Rightarrow> calls \<Rightarrow> u32 \<Rightarrow> u32 \<Rightarrow> bool tcm" where
  "try_eta_expansion H V K t s =
     after (try_eta_expansion_core H V K t s) (\<lambda>b. if b then give True else try_eta_expansion_core H V K s t)"

text \<open>The fields \<open>i\<close>, \<open>i + 1\<close>, ... of \<open>t\<close> against the arguments of the constructor.\<close>

fun eta_fields_eq :: "hashers \<Rightarrow> env_view \<Rightarrow> calls \<Rightarrow> u32 \<Rightarrow> u32 \<Rightarrow> nat \<Rightarrow> u32 list \<Rightarrow> bool tcm" where
  "eta_fields_eq H V K induct t i [] = give True"
| "eta_fields_eq H V K induct t i (sa # args) =
     after (tc_proj H V (Some induct) i t) (\<lambda>p.
     after (is_def_eq K p sa) (\<lambda>same. if same then eta_fields_eq H V K induct t (Suc i) args else give False))"

definition try_eta_struct_ctor :: "hashers \<Rightarrow> env_view \<Rightarrow> calls \<Rightarrow> u32 \<Rightarrow> u32 \<Rightarrow> nat \<Rightarrow> nat \<Rightarrow> u32 \<Rightarrow> bool tcm" where
  "try_eta_struct_ctor H V K t s nparams nfields induct =
     after (tc_get_app_num_args V s) (\<lambda>n.
       if n \<noteq> usize_add nparams nfields \<or> \<not> is_structure_like V induct then give False
       else
         after (infer_type K t) (\<lambda>tt.
         after (infer_type K s) (\<lambda>ss.
         after (is_def_eq K tt ss) (\<lambda>same.
           if \<not> same then give False
           else
             after (tc_get_app_args V s) (\<lambda>s_args. eta_fields_eq H V K induct t 0 (drop nparams s_args))))))"

definition try_eta_struct_core :: "hashers \<Rightarrow> env_view \<Rightarrow> calls \<Rightarrow> u32 \<Rightarrow> u32 \<Rightarrow> bool tcm" where
  "try_eta_struct_core H V K t s =
     after (tc_get_app_fn V s) (\<lambda>f.
     after (tc_node V f) (\<lambda>nd.
       case nd of
         NConst fname _ \<Rightarrow>
           (case env_get V fname of
              Some (CCtor v) \<Rightarrow>
                (case (nat_to_usize (ct_num_params v), nat_to_usize (ct_num_fields v)) of
                   (Some nparams, Some nfields) \<Rightarrow> try_eta_struct_ctor H V K t s nparams nfields (ct_induct v)
                 | _ \<Rightarrow> give False)
            | _ \<Rightarrow> give False)
       | _ \<Rightarrow> give False))"

definition try_eta_struct :: "hashers \<Rightarrow> env_view \<Rightarrow> calls \<Rightarrow> u32 \<Rightarrow> u32 \<Rightarrow> bool tcm" where
  "try_eta_struct H V K t s =
     after (try_eta_struct_core H V K t s) (\<lambda>b. if b then give True else try_eta_struct_core H V K s t)"

definition try_string_lit_expansion_core :: "hashers \<Rightarrow> env_view \<Rightarrow> calls \<Rightarrow> u32 \<Rightarrow> u32 \<Rightarrow> lbool tcm" where
  "try_string_lit_expansion_core H V K t s =
     after (tc_node V t) (\<lambda>nd.
       case nd of
         NLitStr q \<Rightarrow>
           after (is_app V s) (\<lambda>app.
           after (if app
                  then after (tc_get_app_fn V s) (\<lambda>f. after (look tc_string_mk) (\<lambda>mk. is_const_named V f mk))
                  else give False) (\<lambda>yes.
             if yes then
               after (reads (\<lambda>st. str_at (view_base V) st q)) (\<lambda>str_val.
               after (string_lit_to_constructor H V str_val) (\<lambda>ctor.
               after (k_whnf K ctor) (\<lambda>w.
               after (k_is_def_eq_core K w s) (\<lambda>b. give (to_lbool b)))))
             else give LUndef))
       | _ \<Rightarrow> give LUndef)"

definition try_string_lit_expansion :: "hashers \<Rightarrow> env_view \<Rightarrow> calls \<Rightarrow> u32 \<Rightarrow> u32 \<Rightarrow> lbool tcm" where
  "try_string_lit_expansion H V K t s =
     after (try_string_lit_expansion_core H V K t s) (\<lambda>r.
       if r \<noteq> LUndef then give r else try_string_lit_expansion_core H V K s t)"

definition no_fields :: "env_view \<Rightarrow> u32 \<Rightarrow> bool" where
  "no_fields V i_name =
     (case first_cnstr V (Some i_name) of
        None \<Rightarrow> False
      | Some cn \<Rightarrow>
          (case env_get V (Some cn) of
             Some (CCtor v) \<Rightarrow> nat_to_usize (ct_num_fields v) = Some 0
           | _ \<Rightarrow> False))"

definition is_def_eq_unit_like :: "env_view \<Rightarrow> calls \<Rightarrow> u32 \<Rightarrow> u32 \<Rightarrow> bool tcm" where
  "is_def_eq_unit_like V K t s =
     after (infer_type K t) (\<lambda>tt.
     after (k_whnf K tt) (\<lambda>t_type.
     after (tc_get_app_fn V t_type) (\<lambda>i.
     after (tc_node V i) (\<lambda>nd.
       case nd of
         NConst (Some i_name) _ \<Rightarrow>
           if \<not> is_structure_like V i_name \<or> \<not> no_fields V i_name then give False
           else after (infer_type K s) (\<lambda>st. k_is_def_eq_core K t_type st)
       | _ \<Rightarrow> give False))))"

text \<open>Each of the following tests either decides (\<open>Some b\<close>) or leaves the question to the next one.\<close>

definition decided :: "lbool \<Rightarrow> bool option" where
  "decided r = (case r of LTrue \<Rightarrow> Some True | LFalse \<Rightarrow> Some False | LUndef \<Rightarrow> None)"

text \<open>\<open>true\<close> on the right: the left side may compute to it.\<close>

definition eq_bool_true :: "env_view \<Rightarrow> calls \<Rightarrow> u32 \<Rightarrow> u32 \<Rightarrow> bool tcm" where
  "eq_bool_true V K t s =
     after (tc_data V t) (\<lambda>d.
     after (look tc_bool_true) (\<lambda>bt.
     after (if d_has_fvar d then give False else is_const_named V s bt) (\<lambda>go.
       if go then after (k_whnf K t) (\<lambda>wt. is_const_named V wt bt) else give False)))"

definition eq_const_fvar :: "env_view \<Rightarrow> u32 \<Rightarrow> u32 \<Rightarrow> bool tcm" where
  "eq_const_fvar V t s =
     after (tc_node V t) (\<lambda>tn. after (tc_node V s) (\<lambda>sn.
       case (tn, sn) of
         (NConst nt lt, NConst ns ls) \<Rightarrow>
           if nt = ns
           then after (tc_level_list V lt) (\<lambda>lt. after (tc_level_list V ls) (\<lambda>ls. is_def_eq_levels V lt ls))
           else give False
       | (NFVar x, NFVar y) \<Rightarrow> give (x = y)
       | _ \<Rightarrow> give False))"

definition eq_proj :: "env_view \<Rightarrow> calls \<Rightarrow> u32 \<Rightarrow> u32 \<Rightarrow> bool tcm" where
  "eq_proj V K t s =
     after (tc_node V t) (\<lambda>tn. after (tc_node V s) (\<lambda>sn.
       if is_proj_node tn \<and> is_proj_node sn then
         after (proj_parts V tn) (\<lambda>(_, ix_t, ct).
         after (proj_parts V sn) (\<lambda>(_, ix_s, cs).
           if ix_t = ix_s then lazy_delta_proj_reduction K ct cs ix_t else give False))
       else give False))"

definition eq_structural :: "hashers \<Rightarrow> env_view \<Rightarrow> calls \<Rightarrow> u32 \<Rightarrow> u32 \<Rightarrow> bool tcm" where
  "eq_structural H V K t s =
     after (is_def_eq_app V K t s) (\<lambda>b. if b then give True else
     after (try_eta_expansion H V K t s) (\<lambda>b. if b then give True else
     after (try_eta_struct H V K t s) (\<lambda>b. if b then give True else
     after (try_string_lit_expansion H V K t s) (\<lambda>r.
       case decided r of
         Some b \<Rightarrow> give b
       | None \<Rightarrow> is_def_eq_unit_like V K t s))))"

text \<open>From the point where both sides are unfolded as far as the lazy loop goes.\<close>

definition eq_unfolded :: "hashers \<Rightarrow> env_view \<Rightarrow> calls \<Rightarrow> u32 \<Rightarrow> u32 \<Rightarrow> bool tcm" where
  "eq_unfolded H V K t s =
     after (eq_const_fvar V t s) (\<lambda>b. if b then give True else
     after (eq_proj V K t s) (\<lambda>b. if b then give True else
     after (k_whnf_core K t False False) (\<lambda>t_n_n.
     after (k_whnf_core K s False False) (\<lambda>s_n_n.
       if t_n_n \<noteq> t \<or> s_n_n \<noteq> s then k_is_def_eq_core K t_n_n s_n_n
       else eq_structural H V K t s))))"

definition eq_whnf :: "hashers \<Rightarrow> env_view \<Rightarrow> calls \<Rightarrow> u32 \<Rightarrow> u32 \<Rightarrow> bool tcm" where
  "eq_whnf H V K t s =
     after (is_def_eq_proof_irrel V K t s) (\<lambda>r.
       case decided r of
         Some b \<Rightarrow> give b
       | None \<Rightarrow>
           after (lazy_delta_reduction K t s) (\<lambda>(r, t, s).
             case decided r of Some b \<Rightarrow> give b | None \<Rightarrow> eq_unfolded H V K t s))"

definition is_def_eq_core :: "hashers \<Rightarrow> env_view \<Rightarrow> calls \<Rightarrow> u32 \<Rightarrow> u32 \<Rightarrow> bool tcm" where
  "is_def_eq_core H V K t s = with_guard (
     after (quick_is_def_eq H V K t s True) (\<lambda>r.
       case decided r of
         Some b \<Rightarrow> give b
       | None \<Rightarrow>
           after (eq_bool_true V K t s) (\<lambda>b. if b then give True else
           after (k_whnf_core K t False True) (\<lambda>t_n.
           after (k_whnf_core K s False True) (\<lambda>s_n.
           after (if t_n \<noteq> t \<or> s_n \<noteq> s then quick_is_def_eq H V K t_n s_n False else give LUndef) (\<lambda>r.
             case decided r of Some b \<Rightarrow> give b | None \<Rightarrow> eq_whnf H V K t_n s_n))))))"

section \<open>The knot\<close>

text \<open>
  \<open>calls_at H V n\<close>: the methods where calls nest at most \<open>n\<close> deep; deeper calls give \<open>Diverges\<close>. The
  recursion guard bounds the nesting of the guarded methods in the code; the rounds of its \<open>loop\<close>s are not
  bounded there.
\<close>

definition no_calls :: calls where
  "no_calls = \<lparr>
     k_whnf = (\<lambda>_. fail Diverges), k_whnf_core = (\<lambda>_ _ _. fail Diverges),
     k_infer_type_core = (\<lambda>_ _. fail Diverges), k_is_def_eq_core = (\<lambda>_ _. fail Diverges),
     k_whnf_loop = (\<lambda>_ _. fail Diverges), k_lambda_loop = (\<lambda>_ _ _. fail Diverges),
     k_pi_loop = (\<lambda>_ _ _ _. fail Diverges), k_let_loop = (\<lambda>_ _ _. fail Diverges),
     k_binding_loop = (\<lambda>_ _ _ _. fail Diverges), k_args_loop = (\<lambda>_ _. fail Diverges),
     k_lazy_delta_loop = (\<lambda>_ _. fail Diverges), k_lazy_proj_loop = (\<lambda>_ _ _. fail Diverges)\<rparr>"

definition next_calls :: "hashers \<Rightarrow> env_view \<Rightarrow> calls \<Rightarrow> calls" where
  "next_calls H V K = \<lparr>
     k_whnf = whnf H V K, k_whnf_core = whnf_core H V K,
     k_infer_type_core = infer_type_core H V K, k_is_def_eq_core = is_def_eq_core H V K,
     k_whnf_loop = whnf_loop H V K, k_lambda_loop = lambda_loop H V K,
     k_pi_loop = pi_loop H V K, k_let_loop = let_loop H V K,
     k_binding_loop = binding_loop H V K, k_args_loop = args_loop V K,
     k_lazy_delta_loop = lazy_delta_loop H V K, k_lazy_proj_loop = lazy_proj_loop H V K\<rparr>"

primrec calls_at :: "hashers \<Rightarrow> env_view \<Rightarrow> nat \<Rightarrow> calls" where
  "calls_at H V 0 = no_calls"
| "calls_at H V (Suc n) = next_calls H V (calls_at H V n)"

section \<open>A new checker\<close>

text \<open>\<open>expect\<close> on an interning operation.\<close>

definition expect_ok :: "'a result \<Rightarrow> 'a result" where
  "expect_ok r = (case r of Inl _ \<Rightarrow> Inl Panic | Inr x \<Rightarrow> Inr x)"

definition type_checker_new :: "hashers \<Rightarrow> env_view \<Rightarrow> store \<Rightarrow> tc result" where
  "type_checker_new H V st =
     (let base = view_base V in
      andthen (expect_ok (intern_level_list H base [] st)) (\<lambda>(none, st).
      andthen (expect_ok (mk_name1_id H base ''dontcare'' st)) (\<lambda>(dont_care_name, st).
      andthen (expect_ok (expr_const base (Some dont_care_name) none st)) (\<lambda>(dont_care, st).
      andthen (expect_ok (mk_name2_id H base ''Bool'' ''true'' st)) (\<lambda>(bool_true, st).
      andthen (expect_ok (mk_name1_id H base ''Nat'' st)) (\<lambda>(nat_name, st).
      andthen (expect_ok (mk_name1_id H base ''String'' st)) (\<lambda>(string_name, st).
      andthen (expect_ok (mk_name2_id H base ''Bool'' ''false'' st)) (\<lambda>(bool_false, st).
      andthen (expect_ok (mk_name2_id H base ''Nat'' ''zero'' st)) (\<lambda>(nat_zero, st).
      andthen (expect_ok (mk_name2_id H base ''Nat'' ''succ'' st)) (\<lambda>(nat_succ, st).
      andthen (expect_ok (mk_name2_id H base ''String'' ''ofList'' st)) (\<lambda>(string_mk, st).
        Inr \<lparr>tc_scratch = st, tc_safety = Safe, tc_lparams = [], tc_lctx = empty_context, tc_fvar_gen = 0,
             tc_guard = rec_guard_new, tc_guard_depth = 0, tc_infer_cache = (\<lambda>_ _. None),
             tc_whnf_cache = (\<lambda>_. None), tc_whnf_core_cache = (\<lambda>_. None), tc_eqv_cache = uf_empty,
             tc_failure_cache = {}, tc_unfold_memo = (\<lambda>_. None), tc_dont_care = dont_care,
             tc_bool_true = bool_true, tc_nat_name = nat_name, tc_string_name = string_name,
             tc_bool_false = bool_false, tc_nat_zero = nat_zero, tc_nat_succ = nat_succ,
             tc_string_mk = string_mk\<rparr>)))))))))))"

definition type_checker_new_with ::
    "hashers \<Rightarrow> env_view \<Rightarrow> local_context \<Rightarrow> u64 \<Rightarrow> store \<Rightarrow> tc result" where
  "type_checker_new_with H V ctx gen st =
     andthen (type_checker_new H V st) (\<lambda>tc. Inr (tc\<lparr>tc_lctx := ctx, tc_fvar_gen := gen\<rparr>))"

definition into_parts :: "tc \<Rightarrow> local_context \<times> u64" where
  "into_parts tc = (tc_lctx tc, tc_fvar_gen tc)"

end
