(* ===== verification/Checker_Safe_Defeq.thy ===== *)
theory Checker_Safe_Defeq
  imports Checker_Safe_Infer Checker_Run
begin

text \<open>The contracts of definitional equality.\<close>

lemma contract_scope_any:
  "contract H V False P m (\<lambda>_ _. True) \<Longrightarrow> contract H V b P (in_scope m) (\<lambda>_ _. True)"
  by (rule contract_scope [where q = "\<lambda>_ _. True"]) simp_all

lemma contract_status [cases_rules]:
  "(r = Continue \<Longrightarrow> contract H V b P l1 Q) \<Longrightarrow> (r = DefUnknown \<Longrightarrow> contract H V b P l2 Q) \<Longrightarrow>
   (r = DefEqual \<Longrightarrow> contract H V b P l3 Q) \<Longrightarrow> (r = DefDiff \<Longrightarrow> contract H V b P l4 Q) \<Longrightarrow>
     contract H V b P (case r of Continue \<Rightarrow> l1 | DefUnknown \<Rightarrow> l2 | DefEqual \<Rightarrow> l3 | DefDiff \<Rightarrow> l4) Q"
  by (cases r) simp_all

declare tc_hashes_def [tcm_simps]

lemma binders_rng: "e \<in> binders V k s \<Longrightarrow> e \<in> rng V k s"
  by (simp add: binders_def)

lemma binders_lam: "e \<in> rng V k s \<Longrightarrow> node_at (view_base V) (tc_scratch s) e nd \<Longrightarrow> is_lam_node nd \<Longrightarrow> e \<in> binders V k s"
  by (auto simp: binders_def)

lemma binders_forall: "e \<in> rng V k s \<Longrightarrow> node_at (view_base V) (tc_scratch s) e nd \<Longrightarrow> is_forall_node nd \<Longrightarrow> e \<in> binders V k s"
  by (auto simp: binders_def)

lemma zip_parts: "(a, c) \<in> set (zip xs ys) \<Longrightarrow> a \<in> set xs \<and> c \<in> set ys"
  by (auto dest: set_zip_leftD set_zip_rightD)

context sound_calls
begin

section \<open>Binders\<close>

lemma binding_var_spec [specs]:
  assumes "\<And>s. tc_ok H V s \<Longrightarrow> P s \<Longrightarrow> t \<in> rng V (length xs) s \<and> set xs \<subseteq> rng V 0 s \<and> set_option v \<subseteq> rng V 0 s \<and> n \<in> nms V s"
  shows "contract H V False P (binding_var H V v t n bi xs) (\<lambda>r s. r \<in> rng V 0 s)"
  by (rule contract_pre [OF _ assms], unfold binding_var_def tcm_simps)
    (intro wp specs [THEN contract_seq] specs [THEN contract_tail] cases_rules; auto intro: local_var_range dest: range_small)

lemma binding_doms_spec [specs]:
  assumes "\<And>s. tc_ok H V s \<Longrightarrow> P s \<Longrightarrow> t \<in> rng V (length xs) s \<and> u \<in> rng V (length xs) s \<and> set xs \<subseteq> rng V 0 s"
  shows "contract H V b P (binding_doms H V K t u xs) (\<lambda>r s. \<forall>x. r = Some (Some x) \<longrightarrow> x \<in> rng V 0 s)"
  by (rule contract_pre [OF _ assms], unfold binding_doms_def tcm_simps)
    (intro wp specs [THEN contract_seq] specs [THEN contract_tail] cases_rules; auto dest: range_small)

lemma binder_dom_body_range :
  assumes "\<And>s. tc_ok H V s \<Longrightarrow> P s \<Longrightarrow> t \<in> binders V k s"
  shows "contract H V b P (binder_dom_body V t) (\<lambda>(d, c) s. d \<in> rng V k s \<and> c \<in> rng V (Suc k) s)"
  by (rule contract_pre [OF _ assms], unfold binder_dom_body_def tcm_simps)
    (intro wp tc_node_range [where k = k, THEN contract_seq] specs [THEN contract_seq] specs [THEN contract_tail] cases_rules; auto simp: binders_def node_tests dest: node_at_det)

lemma binder_full_range :
  assumes "\<And>s. tc_ok H V s \<Longrightarrow> P s \<Longrightarrow> t \<in> binders V k s"
  shows "contract H V b P (binder_full V t) (\<lambda>(d, c, n, _) s. n \<in> nms V s \<and> d \<in> rng V k s \<and> c \<in> rng V (Suc k) s)"
  by (rule contract_pre [OF _ assms], unfold binder_full_def tcm_simps)
    (intro wp tc_node_range [where k = k, THEN contract_seq] specs [THEN contract_seq] specs [THEN contract_tail] cases_rules; auto simp: binders_def node_tests dest: node_at_det)

lemma binding_loop_spec [specs]:
  assumes "\<And>s. tc_ok H V s \<Longrightarrow> P s \<Longrightarrow> t \<in> binders V (length xs) s \<and> u \<in> binders V (length xs) s \<and> set xs \<subseteq> rng V 0 s"
  shows "contract H V False P (binding_loop H V K lam t u xs) (\<lambda>r s. \<forall>t u xs. r = Some (t, u, xs) \<longrightarrow> t \<in> rng V (length xs) s \<and> u \<in> rng V (length xs) s \<and> set xs \<subseteq> rng V 0 s)"
  by (rule contract_pre [OF _ assms], unfold binding_loop_def tcm_simps)
    (intro wp tc_node_range [where k = "Suc (length xs)", THEN contract_seq] binder_dom_body_range [where k = "length xs", THEN contract_seq]
      binder_full_range [where k = "length xs", THEN contract_seq] specs [THEN contract_seq] specs [THEN contract_tail] cases_rules; auto intro: binders_lam binders_forall dest: binders_rng split: if_splits)

lemma is_def_eq_binding_spec [specs]:
  assumes "\<And>s. tc_ok H V s \<Longrightarrow> P s \<Longrightarrow> t \<in> binders V 0 s \<and> u \<in> binders V 0 s"
  shows "contract H V b P (is_def_eq_binding H V K t u) (\<lambda>_ _. True)"
  by (rule contract_pre [OF _ assms], unfold is_def_eq_binding_def is_def_eq_binding_body_def tcm_simps)
    (intro wp contract_scope_any specs [THEN contract_seq] specs [THEN contract_tail] cases_rules; auto dest: binders_rng range_small)

section \<open>Quick tests and applications\<close>

lemma tc_levels_equivalent_spec [specs]:
  assumes "\<And>s. tc_ok H V s \<Longrightarrow> P s \<Longrightarrow> t \<in> lvs V s \<and> u \<in> lvs V s"
  shows "contract H V b P (tc_levels_equivalent V t u) (\<lambda>_ _. True)"
  by (rule contract_pre [OF _ assms], unfold tc_levels_equivalent_def tcm_simps)
    (intro wp specs [THEN contract_seq] specs [THEN contract_tail] cases_rules; auto)

lemma quick_nodes_spec [specs]:
  assumes "\<And>s. tc_ok H V s \<Longrightarrow> P s \<Longrightarrow> nds V 0 t tn s \<and> nds V 0 u un s \<and> t \<in> rng V 0 s \<and> u \<in> rng V 0 s"
  shows "contract H V b P (quick_nodes H V K t u tn un) (\<lambda>_ _. True)"
  by (rule contract_pre [OF _ assms], unfold quick_nodes_def tcm_simps)
    (intro wp specs [THEN contract_seq] specs [THEN contract_tail] cases_rules; auto simp: node_tests intro: binders_lam binders_forall)

lemma quick_is_def_eq_spec [specs]:
  assumes "\<And>s. tc_ok H V s \<Longrightarrow> P s \<Longrightarrow> t \<in> rng V 0 s \<and> u \<in> rng V 0 s"
  shows "contract H V b P (quick_is_def_eq H V K t u h) (\<lambda>_ _. True)"
  by (rule contract_pre [OF _ assms], unfold quick_is_def_eq_def tcm_simps)
    (intro wp specs [THEN contract_seq] specs [THEN contract_tail] cases_rules; auto)

lemma args_loop_spec [specs]:
  assumes "\<And>s. tc_ok H V s \<Longrightarrow> P s \<Longrightarrow> t \<in> rng V 0 s \<and> u \<in> rng V 0 s"
  shows "contract H V b P (args_loop V K t u) (\<lambda>_ _. True)"
  by (rule contract_pre [OF _ assms], unfold args_loop_def prod.case tcm_simps)
    (intro wp specs [THEN contract_seq] specs [THEN contract_tail] cases_rules; auto)

lemma is_def_eq_args_spec [specs]:
  assumes "\<And>s. tc_ok H V s \<Longrightarrow> P s \<Longrightarrow> t \<in> rng V 0 s \<and> u \<in> rng V 0 s"
  shows "contract H V b P (is_def_eq_args K t u) (\<lambda>_ _. True)"
  by (rule contract_pre [OF _ assms], unfold is_def_eq_args_def tcm_simps)
    (intro wp specs [THEN contract_seq] specs [THEN contract_tail] cases_rules; auto)

lemma all_def_eq_spec [specs]:
  assumes "\<And>s. tc_ok H V s \<Longrightarrow> P s \<Longrightarrow> \<forall>(a, c) \<in> set ps. a \<in> rng V 0 s \<and> c \<in> rng V 0 s"
  shows "contract H V b P (all_def_eq K ps) (\<lambda>_ _. True)"
  using assms
proof (induction ps arbitrary: P)
  case (Cons p ps)
  obtain a c where p: "p = (a, c)" by (cases p)
  show ?case unfolding p
    by (rule contract_pre [OF _ Cons.prems], unfold all_def_eq.simps tcm_simps)
      (intro wp Cons.IH specs [THEN contract_seq] specs [THEN contract_tail] cases_rules; auto simp: p)
qed (auto intro!: contract_give)

lemma is_def_eq_app_spec [specs]:
  assumes "\<And>s. tc_ok H V s \<Longrightarrow> P s \<Longrightarrow> t \<in> rng V 0 s \<and> u \<in> rng V 0 s"
  shows "contract H V b P (is_def_eq_app V K t u) (\<lambda>_ _. True)"
  by (rule contract_pre [OF _ assms], unfold is_def_eq_app_def tcm_simps)
    (intro wp specs [THEN contract_seq] specs [THEN contract_tail] cases_rules; auto dest!: zip_parts)

lemma is_def_eq_proof_irrel_spec [specs]:
  assumes "\<And>s. tc_ok H V s \<Longrightarrow> P s \<Longrightarrow> t \<in> rng V 0 s \<and> u \<in> rng V 0 s"
  shows "contract H V b P (is_def_eq_proof_irrel V K t u) (\<lambda>_ _. True)"
  by (rule contract_pre [OF _ assms], unfold is_def_eq_proof_irrel_def tcm_simps)
    (intro wp specs [THEN contract_seq] specs [THEN contract_tail] cases_rules; auto)

lemma all_levels_equivalent_spec [specs]:
  assumes "\<And>s. tc_ok H V s \<Longrightarrow> P s \<Longrightarrow> \<forall>(a, c) \<in> set ps. a \<in> lvs V s \<and> c \<in> lvs V s"
  shows "contract H V b P (all_levels_equivalent V ps) (\<lambda>_ _. True)"
  using assms
proof (induction ps arbitrary: P)
  case (Cons p ps)
  obtain a c where p: "p = (a, c)" by (cases p)
  show ?case unfolding p
    by (rule contract_pre [OF _ Cons.prems], unfold all_levels_equivalent.simps tcm_simps)
      (intro wp Cons.IH specs [THEN contract_seq] specs [THEN contract_tail] cases_rules; auto simp: p)
qed (auto intro!: contract_give)

lemma is_def_eq_levels_spec [specs]:
  assumes "\<And>s. tc_ok H V s \<Longrightarrow> P s \<Longrightarrow> set l \<subseteq> lvs V s \<and> set l' \<subseteq> lvs V s"
  shows "contract H V b P (is_def_eq_levels V l l') (\<lambda>_ _. True)"
  by (rule contract_pre [OF _ assms], unfold is_def_eq_levels_def tcm_simps)
    (intro wp specs [THEN contract_seq] specs [THEN contract_tail] cases_rules; auto dest!: zip_parts)

section \<open>The failure cache\<close>

lemma contract_failures:
  "(\<And>x. contract H V b P (f x) Q) \<Longrightarrow> contract H V b P (after (look g) f) Q"
  by (rule contract_seq [OF contract_any]) (auto intro: contract_pre)

lemma failed_before_spec [specs]:
  assumes "\<And>s. tc_ok H V s \<Longrightarrow> P s \<Longrightarrow> t \<in> rng V 0 s \<and> u \<in> rng V 0 s"
  shows "contract H V b P (failed_before V t u) (\<lambda>_ _. True)"
  by (rule contract_pre [OF _ assms], unfold failed_before_def tcm_simps)
    (intro wp contract_any specs [THEN contract_seq] specs [THEN contract_tail] cases_rules; auto)

lemma cache_failure_spec [specs]:
  assumes "\<And>s. tc_ok H V s \<Longrightarrow> P s \<Longrightarrow> t \<in> rng V 0 s \<and> u \<in> rng V 0 s"
  shows "contract H V b P (cache_failure V t u) (\<lambda>_ _. True)"
  by (rule contract_pre [OF _ assms], unfold cache_failure_def tcm_simps)
    (intro wp specs [THEN contract_seq] specs [THEN contract_tail] cases_rules; auto)

section \<open>Lazy unfolding\<close>

lemma try_unfold_proj_app_spec [specs]:
  assumes "\<And>s. tc_ok H V s \<Longrightarrow> P s \<Longrightarrow> e \<in> rng V 0 s"
  shows "contract H V b P (try_unfold_proj_app V K e) (\<lambda>r s. set_option r \<subseteq> rng V 0 s)"
  by (rule contract_pre [OF _ assms], unfold try_unfold_proj_app_def tcm_simps)
    (intro wp specs [THEN contract_seq] specs [THEN contract_tail] cases_rules; auto)

lemma unfold_and_whnf_spec [specs]:
  assumes "\<And>s. tc_ok H V s \<Longrightarrow> P s \<Longrightarrow> e \<in> rng V 0 s"
  shows "contract H V b P (unfold_and_whnf H V K e) (\<lambda>r s. r \<in> rng V 0 s)"
  by (rule contract_pre [OF _ assms], unfold unfold_and_whnf_def tcm_simps)
    (intro wp specs [THEN contract_seq] specs [THEN contract_tail] cases_rules; auto)

lemma const_levels_of_head_spec [specs]:
  assumes "\<And>s. tc_ok H V s \<Longrightarrow> P s \<Longrightarrow> e \<in> rng V 0 s"
  shows "contract H V b P (const_levels_of_head V e) (\<lambda>l s. set l \<subseteq> lvs V s)"
  by (rule contract_pre [OF _ assms], unfold tcm_simps)
    (intro wp specs [THEN contract_seq] specs [THEN contract_tail] cases_rules; auto)

lemma same_head_args_spec [specs]:
  assumes "\<And>s. tc_ok H V s \<Longrightarrow> P s \<Longrightarrow> t \<in> rng V 0 s \<and> u \<in> rng V 0 s"
  shows "contract H V b P (same_head_args V K t u) (\<lambda>_ _. True)"
  by (rule contract_pre [OF _ assms], unfold same_head_args_def)
    (intro wp specs [THEN contract_seq] specs [THEN contract_tail] cases_rules; auto)

lemma try_same_head_spec [specs]:
  assumes "\<And>s. tc_ok H V s \<Longrightarrow> P s \<Longrightarrow> t \<in> rng V 0 s \<and> u \<in> rng V 0 s"
  shows "contract H V b P (try_same_head V K t u dt du) (\<lambda>_ _. True)"
  by (rule contract_pre [OF _ assms], unfold try_same_head_def tcm_simps)
    (intro wp specs [THEN contract_seq] specs [THEN contract_tail] cases_rules; auto)

lemma lazy_delta_unfold_spec [specs]:
  assumes "\<And>s. tc_ok H V s \<Longrightarrow> P s \<Longrightarrow> t \<in> rng V 0 s \<and> u \<in> rng V 0 s"
  shows "contract H V b P (lazy_delta_unfold H V K t u dt du) (\<lambda>r s. \<forall>t u. r = Some (t, u) \<longrightarrow> t \<in> rng V 0 s \<and> u \<in> rng V 0 s)"
  by (rule contract_pre [OF _ assms], unfold lazy_delta_unfold_def Let_def prod.case tcm_simps)
    (intro wp specs [THEN contract_seq] specs [THEN contract_tail] cases_rules; auto)

lemma lazy_delta_reduction_step_spec [specs]:
  assumes "\<And>s. tc_ok H V s \<Longrightarrow> P s \<Longrightarrow> t \<in> rng V 0 s \<and> u \<in> rng V 0 s"
  shows "contract H V b P (lazy_delta_reduction_step H V K t u) (\<lambda>(_, t, u) s. t \<in> rng V 0 s \<and> u \<in> rng V 0 s)"
  by (rule contract_pre [OF _ assms], unfold lazy_delta_reduction_step_def tcm_simps)
    (intro wp specs [THEN contract_seq] specs [THEN contract_tail] cases_rules; auto)

section \<open>Offsets\<close>

lemma is_nat_zero_spec [specs]:
  assumes "\<And>s. tc_ok H V s \<Longrightarrow> P s \<Longrightarrow> e \<in> rng V 0 s"
  shows "contract H V b P (is_nat_zero V e) (\<lambda>_ _. True)"
  by (rule contract_pre [OF _ assms], unfold is_nat_zero_def tcm_simps)
    (intro wp specs [THEN contract_seq] specs [THEN contract_tail] cases_rules; auto)

lemma succ_arg_spec [specs]:
  assumes "\<And>s. tc_ok H V s \<Longrightarrow> P s \<Longrightarrow> e \<in> rng V 0 s"
  shows "contract H V b P (succ_arg V e) (\<lambda>r s. set_option r \<subseteq> rng V 0 s)"
  by (rule contract_pre [OF _ assms], unfold succ_arg_def tcm_simps)
    (intro wp specs [THEN contract_seq] specs [THEN contract_tail] cases_rules; auto)

lemma is_nat_succ_spec [specs]:
  assumes "\<And>s. tc_ok H V s \<Longrightarrow> P s \<Longrightarrow> e \<in> rng V 0 s"
  shows "contract H V b P (is_nat_succ H V e) (\<lambda>r s. set_option r \<subseteq> rng V 0 s)"
  by (rule contract_pre [OF _ assms], unfold is_nat_succ_def tcm_simps)
    (intro wp specs [THEN contract_seq] specs [THEN contract_tail] cases_rules; auto)

lemma is_def_eq_offset_spec [specs]:
  assumes "\<And>s. tc_ok H V s \<Longrightarrow> P s \<Longrightarrow> t \<in> rng V 0 s \<and> u \<in> rng V 0 s"
  shows "contract H V b P (is_def_eq_offset H V K t u) (\<lambda>_ _. True)"
  by (rule contract_pre [OF _ assms], unfold is_def_eq_offset_def prod.case tcm_simps)
    (intro wp specs [THEN contract_seq] specs [THEN contract_tail] cases_rules; auto)

lemma nat_reduced_spec [specs]:
  assumes "\<And>s. tc_ok H V s \<Longrightarrow> P s \<Longrightarrow> t \<in> rng V 0 s \<and> u \<in> rng V 0 s"
  shows "contract H V b P (nat_reduced H V K t u) (\<lambda>_ _. True)"
  by (rule contract_pre [OF _ assms], unfold nat_reduced_def tcm_simps)
    (intro wp specs [THEN contract_seq] specs [THEN contract_tail] cases_rules; auto)

lemma native_reduced_spec [specs]:
  assumes "\<And>s. tc_ok H V s \<Longrightarrow> P s \<Longrightarrow> t \<in> rng V 0 s \<and> u \<in> rng V 0 s"
  shows "contract H V b P (native_reduced K t u) (\<lambda>_ _. True)"
  by (rule contract_pre [OF _ assms], unfold native_reduced_def reduce_native_def tcm_simps)
    (intro wp specs [THEN contract_seq] specs [THEN contract_tail] cases_rules; auto)

lemma lazy_delta_loop_spec [specs]:
  assumes "\<And>s. tc_ok H V s \<Longrightarrow> P s \<Longrightarrow> t \<in> rng V 0 s \<and> u \<in> rng V 0 s"
  shows "contract H V b P (lazy_delta_loop H V K t u) (\<lambda>(_, t, u) s. t \<in> rng V 0 s \<and> u \<in> rng V 0 s)"
  by (rule contract_pre [OF _ assms], unfold lazy_delta_loop_def tcm_simps)
    (intro wp specs [THEN contract_seq] specs [THEN contract_tail] cases_rules; auto)

lemma lazy_delta_reduction_spec [specs]:
  assumes "\<And>s. tc_ok H V s \<Longrightarrow> P s \<Longrightarrow> t \<in> rng V 0 s \<and> u \<in> rng V 0 s"
  shows "contract H V b P (lazy_delta_reduction K t u) (\<lambda>(_, t, u) s. t \<in> rng V 0 s \<and> u \<in> rng V 0 s)"
  by (rule contract_pre [OF _ assms], unfold lazy_delta_reduction_def tcm_simps)
    (intro wp contract_guard specs [THEN contract_seq] specs [THEN contract_tail] cases_rules; auto)

lemma lazy_proj_end_spec [specs]:
  assumes "\<And>s. tc_ok H V s \<Longrightarrow> P s \<Longrightarrow> t \<in> rng V 0 s \<and> u \<in> rng V 0 s"
  shows "contract H V b P (lazy_proj_end H V K t u i) (\<lambda>_ _. True)"
  by (rule contract_pre [OF _ assms], unfold lazy_proj_end_def tcm_simps)
    (intro wp specs [THEN contract_seq] specs [THEN contract_tail] cases_rules; auto)

lemma lazy_proj_loop_spec [specs]:
  assumes "\<And>s. tc_ok H V s \<Longrightarrow> P s \<Longrightarrow> t \<in> rng V 0 s \<and> u \<in> rng V 0 s"
  shows "contract H V b P (lazy_proj_loop H V K t u i) (\<lambda>_ _. True)"
  by (rule contract_pre [OF _ assms], unfold lazy_proj_loop_def tcm_simps)
    (intro wp specs [THEN contract_seq] specs [THEN contract_tail] cases_rules; auto)

lemma lazy_delta_proj_reduction_spec [specs]:
  assumes "\<And>s. tc_ok H V s \<Longrightarrow> P s \<Longrightarrow> t \<in> rng V 0 s \<and> u \<in> rng V 0 s"
  shows "contract H V b P (lazy_delta_proj_reduction K t u i) (\<lambda>_ _. True)"
  by (rule contract_pre [OF _ assms], unfold lazy_delta_proj_reduction_def tcm_simps)
    (intro wp specs [THEN contract_seq] specs [THEN contract_tail] cases_rules; auto)

end

end
