(* ===== verification/Checker_Safe_Run.thy ===== *)
theory Checker_Safe_Run
  imports Checker_Safe_Defeq
begin

text \<open>The contracts of \<open>is_def_eq_core\<close>, and the knot: every bound on the depth of the calls gives sound calls.\<close>

section \<open>Eta\<close>

text \<open>The body of an eta expansion is the only term with a loose variable that the checker builds.\<close>

lemma bvar0_spec:
  "contract H V b P (writes (expr_bvar H (view_base V) 0)) (\<lambda>r s. r \<in> bodies (view_base V) (tc_scratch s))"
  by (rule contract_writes) (auto intro: bvar0_safe tc_okD(1) dest: bodies_grow)

lemma body_app_spec:
  assumes "\<And>s. tc_ok H V s \<Longrightarrow> P s \<Longrightarrow> f \<in> rng V 0 s \<and> a \<in> bodies (view_base V) (tc_scratch s)"
  shows "contract H V b P (tc_app V f a) (\<lambda>r s. r \<in> bodies (view_base V) (tc_scratch s))"
  unfolding tc_app_def
  by (rule contract_writes) (use assms in \<open>auto intro: body_app_safe tc_okD(1) bodies_range dest: bodies_grow\<close>)

lemma lam_spec:
  assumes "\<And>s. tc_ok H V s \<Longrightarrow> P s \<Longrightarrow> n \<in> nms V s \<and> t \<in> rng V 0 s \<and> c \<in> bodies (view_base V) (tc_scratch s)"
  shows "contract H V b P (writes (expr_lam (view_base V) n t c bi)) (\<lambda>r s. r \<in> rng V 0 s)"
  by (rule write_closed) (use assms in \<open>auto intro: lam_safe tc_okD(1)\<close>)

context sound_calls
begin

lemma try_eta_expansion_core_spec [specs]:
  assumes "\<And>s. tc_ok H V s \<Longrightarrow> P s \<Longrightarrow> t \<in> rng V 0 s \<and> u \<in> rng V 0 s"
  shows "contract H V b P (try_eta_expansion_core H V K t u) (\<lambda>_ _. True)"
  by (rule contract_pre [OF _ assms], unfold try_eta_expansion_core_def tcm_simps)
    (intro wp bvar0_spec [THEN contract_seq] body_app_spec [THEN contract_seq] lam_spec [THEN contract_seq] specs [THEN contract_seq] specs [THEN contract_tail] cases_rules; auto)

lemma try_eta_expansion_spec [specs]:
  assumes "\<And>s. tc_ok H V s \<Longrightarrow> P s \<Longrightarrow> t \<in> rng V 0 s \<and> u \<in> rng V 0 s"
  shows "contract H V b P (try_eta_expansion H V K t u) (\<lambda>_ _. True)"
  by (rule contract_pre [OF _ assms], unfold try_eta_expansion_def tcm_simps)
    (intro wp specs [THEN contract_seq] specs [THEN contract_tail] cases_rules; auto)

lemma eta_fields_eq_spec [specs]:
  assumes "\<And>s. tc_ok H V s \<Longrightarrow> P s \<Longrightarrow> Some n \<in> nms V s \<and> t \<in> rng V 0 s \<and> set args \<subseteq> rng V 0 s"
  shows "contract H V b P (eta_fields_eq H V K n t i args) (\<lambda>_ _. True)"
  using assms
proof (induction args arbitrary: P i)
  case (Cons a args)
  show ?case
    by (rule contract_pre [OF _ Cons.prems], unfold eta_fields_eq.simps tcm_simps)
      (intro wp Cons.IH specs [THEN contract_seq] specs [THEN contract_tail] cases_rules; auto)
qed (auto intro!: contract_give)

lemma try_eta_struct_ctor_spec [specs]:
  assumes "\<And>s. tc_ok H V s \<Longrightarrow> P s \<Longrightarrow> t \<in> rng V 0 s \<and> u \<in> rng V 0 s \<and> Some n \<in> nms V s"
  shows "contract H V b P (try_eta_struct_ctor H V K t u np nf n) (\<lambda>_ _. True)"
  by (rule contract_pre [OF _ assms], unfold try_eta_struct_ctor_def tcm_simps)
    (intro wp specs [THEN contract_seq] specs [THEN contract_tail] cases_rules; auto dest: in_set_dropD)

lemma try_eta_struct_core_spec [specs]:
  assumes "\<And>s. tc_ok H V s \<Longrightarrow> P s \<Longrightarrow> t \<in> rng V 0 s \<and> u \<in> rng V 0 s"
  shows "contract H V b P (try_eta_struct_core H V K t u) (\<lambda>_ _. True)"
  by (rule contract_pre [OF _ assms], unfold try_eta_struct_core_def tcm_simps)
    (intro wp specs [THEN contract_seq] specs [THEN contract_tail] cases_rules; auto simp: const_ok_def dest!: env_const)

lemma try_eta_struct_spec [specs]:
  assumes "\<And>s. tc_ok H V s \<Longrightarrow> P s \<Longrightarrow> t \<in> rng V 0 s \<and> u \<in> rng V 0 s"
  shows "contract H V b P (try_eta_struct H V K t u) (\<lambda>_ _. True)"
  by (rule contract_pre [OF _ assms], unfold try_eta_struct_def tcm_simps)
    (intro wp specs [THEN contract_seq] specs [THEN contract_tail] cases_rules; auto)

lemma try_string_lit_expansion_core_spec [specs]:
  assumes "\<And>s. tc_ok H V s \<Longrightarrow> P s \<Longrightarrow> t \<in> rng V 0 s \<and> u \<in> rng V 0 s"
  shows "contract H V b P (try_string_lit_expansion_core H V K t u) (\<lambda>_ _. True)"
  by (rule contract_pre [OF _ assms], unfold try_string_lit_expansion_core_def tcm_simps)
    (intro wp specs [THEN contract_seq] specs [THEN contract_tail] cases_rules; auto)

lemma try_string_lit_expansion_spec [specs]:
  assumes "\<And>s. tc_ok H V s \<Longrightarrow> P s \<Longrightarrow> t \<in> rng V 0 s \<and> u \<in> rng V 0 s"
  shows "contract H V b P (try_string_lit_expansion H V K t u) (\<lambda>_ _. True)"
  by (rule contract_pre [OF _ assms], unfold try_string_lit_expansion_def tcm_simps)
    (intro wp specs [THEN contract_seq] specs [THEN contract_tail] cases_rules; auto)

lemma is_def_eq_unit_like_spec [specs]:
  assumes "\<And>s. tc_ok H V s \<Longrightarrow> P s \<Longrightarrow> t \<in> rng V 0 s \<and> u \<in> rng V 0 s"
  shows "contract H V b P (is_def_eq_unit_like V K t u) (\<lambda>_ _. True)"
  by (rule contract_pre [OF _ assms], unfold is_def_eq_unit_like_def tcm_simps)
    (intro wp specs [THEN contract_seq] specs [THEN contract_tail] cases_rules; auto)

section \<open>Definitional equality\<close>

lemma eq_bool_true_spec [specs]:
  assumes "\<And>s. tc_ok H V s \<Longrightarrow> P s \<Longrightarrow> t \<in> rng V 0 s \<and> u \<in> rng V 0 s"
  shows "contract H V b P (eq_bool_true V K t u) (\<lambda>_ _. True)"
  by (rule contract_pre [OF _ assms], unfold eq_bool_true_def prod.case tcm_simps)
    (intro wp specs [THEN contract_seq] specs [THEN contract_tail] cases_rules; auto)

lemma eq_const_fvar_spec [specs]:
  assumes "\<And>s. tc_ok H V s \<Longrightarrow> P s \<Longrightarrow> t \<in> rng V 0 s \<and> u \<in> rng V 0 s"
  shows "contract H V b P (eq_const_fvar V t u) (\<lambda>_ _. True)"
  by (rule contract_pre [OF _ assms], unfold eq_const_fvar_def prod.case tcm_simps)
    (intro wp specs [THEN contract_seq] specs [THEN contract_tail] cases_rules; auto)

lemma eq_proj_spec [specs]:
  assumes "\<And>s. tc_ok H V s \<Longrightarrow> P s \<Longrightarrow> t \<in> rng V 0 s \<and> u \<in> rng V 0 s"
  shows "contract H V b P (eq_proj V K t u) (\<lambda>_ _. True)"
  by (rule contract_pre [OF _ assms], unfold eq_proj_def prod.case tcm_simps)
    (intro wp specs [THEN contract_seq] specs [THEN contract_tail] cases_rules; auto)

lemma eq_structural_spec [specs]:
  assumes "\<And>s. tc_ok H V s \<Longrightarrow> P s \<Longrightarrow> t \<in> rng V 0 s \<and> u \<in> rng V 0 s"
  shows "contract H V b P (eq_structural H V K t u) (\<lambda>_ _. True)"
  by (rule contract_pre [OF _ assms], unfold eq_structural_def prod.case tcm_simps)
    (intro wp specs [THEN contract_seq] specs [THEN contract_tail] cases_rules; auto)

lemma eq_unfolded_spec [specs]:
  assumes "\<And>s. tc_ok H V s \<Longrightarrow> P s \<Longrightarrow> t \<in> rng V 0 s \<and> u \<in> rng V 0 s"
  shows "contract H V b P (eq_unfolded H V K t u) (\<lambda>_ _. True)"
  by (rule contract_pre [OF _ assms], unfold eq_unfolded_def prod.case tcm_simps)
    (intro wp specs [THEN contract_seq] specs [THEN contract_tail] cases_rules; auto)

lemma eq_whnf_spec [specs]:
  assumes "\<And>s. tc_ok H V s \<Longrightarrow> P s \<Longrightarrow> t \<in> rng V 0 s \<and> u \<in> rng V 0 s"
  shows "contract H V b P (eq_whnf H V K t u) (\<lambda>_ _. True)"
  by (rule contract_pre [OF _ assms], unfold eq_whnf_def prod.case tcm_simps)
    (intro wp specs [THEN contract_seq] specs [THEN contract_tail] cases_rules; auto)

lemma is_def_eq_core_spec [specs]:
  assumes "\<And>s. tc_ok H V s \<Longrightarrow> P s \<Longrightarrow> t \<in> rng V 0 s \<and> u \<in> rng V 0 s"
  shows "contract H V b P (is_def_eq_core H V K t u) (\<lambda>_ _. True)"
  by (rule contract_pre [OF _ assms], unfold is_def_eq_core_def tcm_simps)
    (intro wp contract_guard specs [THEN contract_seq] specs [THEN contract_tail] cases_rules; auto)

section \<open>The knot\<close>

text \<open>One more level of calls is sound.\<close>

lemma next_sound: "sound_calls H V (next_calls H V K)"
  by unfold_locales
    (simp_all only: next_calls_def calls.simps,
     (rule whnf_spec whnf_core_spec is_def_eq_core_spec whnf_loop_spec lambda_loop_spec pi_loop_spec let_loop_spec
        binding_loop_spec args_loop_spec lazy_delta_loop_spec lazy_proj_loop_spec, assumption
      | rule infer_type_core_spec, blast)+)

end

lemma no_calls_sound: "sound_calls H V no_calls"
  by unfold_locales (simp_all add: no_calls_def contract_fail)

interpretation checker: sound_calls H V "calls_at H V n" for H V n
  by (induction n) (simp_all add: no_calls_sound sound_calls.next_sound)

end
