(* ===== verification/Checker_New.thy ===== *)
theory Checker_New
  imports Checker_Safe_Run Kernel_Properties Regions
begin

text \<open>
  A new checker on a new scratch store over a persistent one: it satisfies the invariant of the checker.
\<close>

section \<open>A new checker\<close>

lemma name1_interns:
  assumes "twf H base st"
  shows "interns H base 2 False st (mk_name1_id H base a st) (\<lambda>r st'. name_at base st' (Some r) (Str Anonymous a))"
  unfolding mk_name1_id_def
  by (rule interns_bind [OF intern_str_ok [OF twfD(1) [OF assms]]], simp, rule interns_weaken [OF name_str_ok])
    (auto dest: goodD)

lemma name2_interns:
  assumes "twf H base st"
  shows "interns H base 4 False st (mk_name2_id H base a b st) (\<lambda>r st'. name_at base st' (Some r) (Str (Str Anonymous a) b))"
  unfolding mk_name2_id_def
proof (rule interns_bind [OF name1_interns [OF assms], where ?c2.0 = 2], simp)
  fix p st1 assume g: "good H base st st1" and p: "name_at base st1 (Some p) (Str Anonymous a)"
  show "interns H base 2 False st1 (andthen (intern_str H base b st1) (\<lambda>(q, st). name_str H base (Some p) q st))
      (\<lambda>r st'. name_at base st' (Some r) (Str (Str Anonymous a) b))"
    by (rule interns_bind [OF intern_str_ok [OF goodD(1) [OF g]]], simp, rule interns_weaken [OF name_str_ok])
      (auto dest: goodD intro: name_at_grows [OF p])
qed simp

lemma name_id: "name_at base st (Some r) n \<Longrightarrow> good H base st st' \<Longrightarrow> Some r \<in> name_ids base st'"
  unfolding name_ids_def using name_at_grows goodD(2) by blast

lemma expect_Inr [simp]: "expect_ok (Inr x) = Inr x"
  by (simp add: expect_ok_def)

text \<open>One interning step of the constructor, which started at \<open>st0\<close>.\<close>

lemma step_from:
  assumes "interns H base c False st m P" and "good H base st0 st" and "used st + c \<le> max_rows"
  obtains x st' where "m = Inr (x, st')" and "good H base st st'" and "good H base st0 st'"
    and "used st' \<le> used st + c" and "P x st'"
  using assms good_trans by (elim interns_total) auto

lemma name1_from:
  assumes "twf H base st0" and "good H base st0 st" and "used st + 2 \<le> max_rows"
  obtains r st' where "mk_name1_id H base a st = Inr (r, st')" and "good H base st st'" and "good H base st0 st'"
    and "used st' \<le> used st + 2" and "Some r \<in> name_ids base st'"
  by (rule step_from [OF name1_interns [OF twf_good [OF assms(1,2)]] assms(2,3)]) (use that in \<open>auto simp: name_ids_def\<close>)

lemma name2_from:
  assumes "twf H base st0" and "good H base st0 st" and "used st + 4 \<le> max_rows"
  obtains r st' where "mk_name2_id H base a b st = Inr (r, st')" and "good H base st st'" and "good H base st0 st'"
    and "used st' \<le> used st + 4" and "Some r \<in> name_ids base st'"
  by (rule step_from [OF name2_interns [OF twf_good [OF assms(1,2)]] assms(2,3)]) (use that in \<open>auto simp: name_ids_def\<close>)

lemma fresh_state_ok:
  assumes "twf H (view_base V) st" and "view_ok V st" and "names_ok V s" and "tc_scratch s = st"
    and "tc_lctx s = empty_context" and "tc_fvar_gen s = 0" and "tc_infer_cache s = (\<lambda>_ _. None)"
    and "tc_whnf_cache s = (\<lambda>_. None)" and "tc_whnf_core_cache s = (\<lambda>_. None)" and "tc_unfold_memo s = (\<lambda>_. None)"
    and "tc_eqv_cache s = uf_empty"
  shows "tc_ok H V s"
  using assms ctx_wf_empty [of "view_base V" st 0] classes_empty [of "view_base V" st "\<lambda>_ _. True"]
  by (simp add: tc_ok_def decls_ok_def gen_ok_def caches_ok_def empty_context_def)

lemma new_checker:
  assumes twf: "twf H (view_base V) st" and view: "view_ok V st" and room: "used st + 28 \<le> max_rows"
  shows "\<exists>s. type_checker_new H V st = Inr s \<and> tc_ok H V s \<and> good H (view_base V) st (tc_scratch s)
    \<and> used (tc_scratch s) \<le> used st + 28 \<and> tc_guard_depth s = 0 \<and> tc_lctx s = empty_context"
proof -
  let ?B = "view_base V"
  have st: "good H ?B st st" by (rule good_refl [OF twfD(1) [OF twf]])
  have "interns H ?B 1 False st (intern_level_list H ?B [] st) (\<lambda>i st'. levels_at ?B st' i [])"
    by (rule interns_weaken [OF intern_level_list_ok [OF twfD(1) [OF twf]]]) auto
  moreover have "used st + 1 \<le> max_rows" using room by simp
  ultimately obtain none st1 where 1: "intern_level_list H ?B [] st = Inr (none, st1)" "good H ?B st st1"
    "used st1 \<le> used st + 1" "levels_at ?B st1 none []" using st by (elim step_from)
  from 1(3) room have "used st1 + 2 \<le> max_rows" by simp
  with name1_interns [OF twf_good [OF twf 1(2)], where a = "''dontcare''"] 1(2) obtain dn st2 where 2: "mk_name1_id H ?B ''dontcare'' st1 = Inr (dn, st2)"
    "good H ?B st1 st2" "good H ?B st st2" "used st2 \<le> used st1 + 2" "name_at ?B st2 (Some dn) (Str Anonymous ''dontcare'')"
    by (elim step_from)
  from 1(3) 2(4) room have "used st2 + 1 \<le> max_rows" by simp
  with expr_const_ok [OF twf_good [OF twf 2(3)] 2(5) levels_at_grows [OF 1(4) goodD(2) [OF 2(2)]]]
  obtain dc st3 where 3: "expr_const ?B (Some dn) none st2 = Inr (dc, st3)" "good H ?B st2 st3"
    "used st3 \<le> used st2 + 1" "expr_at ?B st3 dc (EConst (Str Anonymous ''dontcare'') [])" by (elim interns_total)
  have g3: "good H ?B st st3" using 2(3) 3(2) by (rule good_trans)
  have dc: "dc \<in> closed V st3" by (rule good_closed [OF g3 3(4)]) simp
  from 1(3) 2(4) 3(3) have u3: "used st3 \<le> used st + 4" by simp
  obtain bt st4 where 4: "mk_name2_id H ?B ''Bool'' ''true'' st3 = Inr (bt, st4)" "good H ?B st3 st4" "good H ?B st st4"
    "used st4 \<le> used st3 + 4" "Some bt \<in> name_ids ?B st4" using u3 room by (elim name2_from [OF twf g3, rotated]) auto
  obtain nn st5 where 5: "mk_name1_id H ?B ''Nat'' st4 = Inr (nn, st5)" "good H ?B st4 st5" "good H ?B st st5"
    "used st5 \<le> used st4 + 2" "Some nn \<in> name_ids ?B st5" using u3 4(4) room by (elim name1_from [OF twf 4(3), rotated]) auto
  obtain sn st6 where 6: "mk_name1_id H ?B ''String'' st5 = Inr (sn, st6)" "good H ?B st5 st6" "good H ?B st st6"
    "used st6 \<le> used st5 + 2" "Some sn \<in> name_ids ?B st6" using u3 4(4) 5(4) room by (elim name1_from [OF twf 5(3), rotated]) auto
  obtain bf st7 where 7: "mk_name2_id H ?B ''Bool'' ''false'' st6 = Inr (bf, st7)" "good H ?B st6 st7" "good H ?B st st7"
    "used st7 \<le> used st6 + 4" "Some bf \<in> name_ids ?B st7" using u3 4(4) 5(4) 6(4) room by (elim name2_from [OF twf 6(3), rotated]) auto
  obtain nz st8 where 8: "mk_name2_id H ?B ''Nat'' ''zero'' st7 = Inr (nz, st8)" "good H ?B st7 st8" "good H ?B st st8"
    "used st8 \<le> used st7 + 4" "Some nz \<in> name_ids ?B st8"
    using u3 4(4) 5(4) 6(4) 7(4) room by (elim name2_from [OF twf 7(3), rotated]) auto
  obtain ns st9 where 9: "mk_name2_id H ?B ''Nat'' ''succ'' st8 = Inr (ns, st9)" "good H ?B st8 st9" "good H ?B st st9"
    "used st9 \<le> used st8 + 4" "Some ns \<in> name_ids ?B st9"
    using u3 4(4) 5(4) 6(4) 7(4) 8(4) room by (elim name2_from [OF twf 8(3), rotated]) auto
  obtain sm st10 where 10: "mk_name2_id H ?B ''String'' ''ofList'' st9 = Inr (sm, st10)" "good H ?B st9 st10" "good H ?B st st10"
    "used st10 \<le> used st9 + 4" "Some sm \<in> name_ids ?B st10"
    using u3 4(4) 5(4) 6(4) 7(4) 8(4) 9(4) room by (elim name2_from [OF twf 9(3), rotated]) auto
  note g9 = goodD(2) [OF 10(2)] and g8 = goodD(2) [OF good_trans [OF 9(2) 10(2)]]
  note g7 = grows_trans [OF goodD(2) [OF 8(2)] g8] note g6 = grows_trans [OF goodD(2) [OF 7(2)] g7]
  note g5 = grows_trans [OF goodD(2) [OF 6(2)] g6] note g4 = grows_trans [OF goodD(2) [OF 5(2)] g5]
  note g3' = grows_trans [OF goodD(2) [OF 4(2)] g4]
  have names: "Some ` {bt, bf, nn, sn, nz, ns, sm} \<subseteq> name_ids ?B st10"
    using 10(5) ids_grow(2) [OF g9] 9(5) ids_grow(2) [OF g8] 8(5) ids_grow(2) [OF g7] 7(5) ids_grow(2) [OF g6] 6(5)
      ids_grow(2) [OF g5] 5(5) ids_grow(2) [OF g4] 4(5) by auto
  have dc': "dc \<in> closed V st10" using dc ids_grow(1) [OF g3'] by auto
  obtain s where s: "type_checker_new H V st = Inr s" "tc_scratch s = st10" "tc_lctx s = empty_context" "tc_fvar_gen s = 0"
    "tc_infer_cache s = (\<lambda>_ _. None)" "tc_whnf_cache s = (\<lambda>_. None)" "tc_whnf_core_cache s = (\<lambda>_. None)"
    "tc_unfold_memo s = (\<lambda>_. None)" "tc_eqv_cache s = uf_empty" "tc_guard_depth s = 0" "tc_dont_care s = dc"
    "tc_bool_true s = bt" "tc_bool_false s = bf" "tc_nat_name s = nn" "tc_string_name s = sn" "tc_nat_zero s = nz"
    "tc_nat_succ s = ns" "tc_string_mk s = sm"
    by (rule that [of "\<lparr>tc_scratch = st10, tc_safety = Safe, tc_lparams = [], tc_lctx = empty_context, tc_fvar_gen = 0,
             tc_guard = rec_guard_new, tc_guard_depth = 0, tc_infer_cache = (\<lambda>_ _. None),
             tc_whnf_cache = (\<lambda>_. None), tc_whnf_core_cache = (\<lambda>_. None), tc_eqv_cache = uf_empty,
             tc_failure_cache = {}, tc_unfold_memo = (\<lambda>_. None), tc_dont_care = dc,
             tc_bool_true = bt, tc_nat_name = nn, tc_string_name = sn,
             tc_bool_false = bf, tc_nat_zero = nz, tc_nat_succ = ns, tc_string_mk = sm\<rparr>"])
      (simp_all add: type_checker_new_def Let_def 1(1) 2(1) 3(1) 4(1) 5(1) 6(1) 7(1) 8(1) 9(1) 10(1))
  have "names_ok V s" using names dc' by (simp add: names_ok_def s)
  with fresh_state_ok [OF twf_good [OF twf 10(3)] view_ok_grows [OF view goodD(2) [OF 10(3)]], of s]
  have "tc_ok H V s" by (simp add: s)
  moreover have "used st10 \<le> used st + 28" using u3 4(4) 5(4) 6(4) 7(4) 8(4) 9(4) 10(4) by simp
  ultimately show ?thesis using s 10(3) by auto
qed

end
