(* ===== verification/Checker_Fuel.thy ===== *)
theory Checker_Fuel
  imports Checker_Run
begin

text \<open>
  The bound on the depth of the calls does not matter: a computation that ends within one bound gives the
  same answer, error and state within every larger bound. \<open>below m m'\<close>: where \<open>m\<close> ends, \<open>m'\<close> ends alike.
\<close>

section \<open>Approximation\<close>

definition below :: "'a tcm \<Rightarrow> 'a tcm \<Rightarrow> bool" where
  "below m m' \<longleftrightarrow> (\<forall>s. m s = Inl Diverges \<or> m' s = m s)"

named_theorems approx

lemma below_refl: "below m m"
  by (simp add: below_def)

lemma below_diverges: "below (fail Diverges) m"
  by (simp add: below_def fail_def)

lemma below_after [approx]: "below m m' \<Longrightarrow> (\<And>x. below (f x) (f' x)) \<Longrightarrow> below (after m f) (after m' f')"
  unfolding below_def after_def
proof
  fix s assume m: "\<forall>s. m s = Inl Diverges \<or> m' s = m s" and f: "\<And>x. \<forall>s. f x s = Inl Diverges \<or> f' x s = f x s"
  from m have "m s = Inl Diverges \<or> m' s = m s" by blast
  then show "andthen (m s) (\<lambda>(x, s). f x s) = Inl Diverges \<or>
      andthen (m' s) (\<lambda>(x, s). f' x s) = andthen (m s) (\<lambda>(x, s). f x s)"
    using f by (cases "m s") (auto split: prod.splits)
qed

lemma below_guard [approx]:
  assumes "below m m'" shows "below (with_guard m) (with_guard m')"
  unfolding below_def with_guard_def
proof
  fix s :: tc
  let ?s = "(s::tc)\<lparr>tc_guard_depth := tc_guard_depth s + 1\<rparr>"
  have "m ?s = Inl Diverges \<or> m' ?s = m ?s" using assms unfolding below_def by blast
  then show "(if tc_guard_depth s \<ge> MAX_REC_DEPTH then Inl DeepRecursion
     else andthen (m ?s) (\<lambda>(r, s). Inr (r, s\<lparr>tc_guard_depth := tc_guard_depth s - 1\<rparr>))) = Inl Diverges \<or>
     (if tc_guard_depth s \<ge> MAX_REC_DEPTH then Inl DeepRecursion
     else andthen (m' ?s) (\<lambda>(r, s). Inr (r, s\<lparr>tc_guard_depth := tc_guard_depth s - 1\<rparr>))) =
     (if tc_guard_depth s \<ge> MAX_REC_DEPTH then Inl DeepRecursion
     else andthen (m ?s) (\<lambda>(r, s). Inr (r, s\<lparr>tc_guard_depth := tc_guard_depth s - 1\<rparr>)))" by auto
qed

lemma below_scope [approx]: "below m m' \<Longrightarrow> below (in_scope m) (in_scope m')"
  unfolding in_scope_def by (intro approx below_refl)

lemma below_if [approx]: "below m m' \<Longrightarrow> below k k' \<Longrightarrow> below (if c then m else k) (if c then m' else k')"
  by simp

lemma below_cases [approx]:
  "below k k' \<Longrightarrow> (\<And>y. below (f y) (f' y)) \<Longrightarrow>
     below (case x of None \<Rightarrow> k | Some y \<Rightarrow> f y) (case x of None \<Rightarrow> k' | Some y \<Rightarrow> f' y)"
  "(\<And>a c. below (g a c) (g' a c)) \<Longrightarrow> below (case p of (a, c) \<Rightarrow> g a c) (case p of (a, c) \<Rightarrow> g' a c)"
  "(\<And>a. below (h a) (h' a)) \<Longrightarrow> (\<And>a. below (i a) (i' a)) \<Longrightarrow>
     below (case z of Inl a \<Rightarrow> h a | Inr a \<Rightarrow> i a) (case z of Inl a \<Rightarrow> h' a | Inr a \<Rightarrow> i' a)"
  "below j j' \<Longrightarrow> (\<And>y ys. below (o1 y ys) (o2 y ys)) \<Longrightarrow>
     below (case l of [] \<Rightarrow> j | y # ys \<Rightarrow> o1 y ys) (case l of [] \<Rightarrow> j' | y # ys \<Rightarrow> o2 y ys)"
  "below l1 m1 \<Longrightarrow> below l2 m2 \<Longrightarrow> below l3 m3 \<Longrightarrow>
     below (case r of LTrue \<Rightarrow> l1 | LFalse \<Rightarrow> l2 | LUndef \<Rightarrow> l3) (case r of LTrue \<Rightarrow> m1 | LFalse \<Rightarrow> m2 | LUndef \<Rightarrow> m3)"
  "below s1 t1 \<Longrightarrow> below s2 t2 \<Longrightarrow> below s3 t3 \<Longrightarrow> below s4 t4 \<Longrightarrow>
     below (case q of Continue \<Rightarrow> s1 | DefUnknown \<Rightarrow> s2 | DefEqual \<Rightarrow> s3 | DefDiff \<Rightarrow> s4)
       (case q of Continue \<Rightarrow> t1 | DefUnknown \<Rightarrow> t2 | DefEqual \<Rightarrow> t3 | DefDiff \<Rightarrow> t4)"
  by (simp_all split: option.split prod.split sum.split list.split lbool.split reduction_status.split)

lemma below_info [approx]:
  assumes "\<And>v. below (f1 v) (g1 v)" "\<And>v. below (f2 v) (g2 v)" "\<And>v. below (f3 v) (g3 v)" "\<And>v. below (f4 v) (g4 v)"
    "\<And>v. below (f5 v) (g5 v)" "\<And>v. below (f6 v) (g6 v)" "\<And>v. below (f7 v) (g7 v)" "\<And>v. below (f8 v) (g8 v)"
  shows "below (case info of CAxiom v \<Rightarrow> f1 v | CDefn v \<Rightarrow> f2 v | CThm v \<Rightarrow> f3 v | COpaque v \<Rightarrow> f4 v
      | CQuot v \<Rightarrow> f5 v | CInduct v \<Rightarrow> f6 v | CCtor v \<Rightarrow> f7 v | CRec v \<Rightarrow> f8 v)
    (case info of CAxiom v \<Rightarrow> g1 v | CDefn v \<Rightarrow> g2 v | CThm v \<Rightarrow> g3 v | COpaque v \<Rightarrow> g4 v
      | CQuot v \<Rightarrow> g5 v | CInduct v \<Rightarrow> g6 v | CCtor v \<Rightarrow> g7 v | CRec v \<Rightarrow> g8 v)"
  using assms by (cases info) simp_all

lemma below_node [approx]:
  assumes "\<And>w. below (f1 w) (g1 w)" "\<And>q. below (f2 q) (g2 q)" "\<And>x. below (f3 x) (g3 x)" "\<And>x. below (f4 x) (g4 x)"
    "\<And>l. below (f5 l) (g5 l)" "\<And>x l. below (f6 x l) (g6 x l)" "\<And>f a. below (f7 f a) (g7 f a)"
    "\<And>x t c bi. below (f8 x t c bi) (g8 x t c bi)" "\<And>x t c bi. below (f9 x t c bi) (g9 x t c bi)"
    "\<And>x t v c d. below (f10 x t v c d) (g10 x t v c d)" "\<And>q. below (f11 q) (g11 q)" "\<And>q. below (f12 q) (g12 q)"
    "\<And>m c. below (f13 m c) (g13 m c)" "\<And>x w c. below (f14 x w c) (g14 x w c)" "\<And>x q c. below (f15 x q c) (g15 x q c)"
  shows "below (case nd of NBVar w \<Rightarrow> f1 w | NBVarBig q \<Rightarrow> f2 q | NFVar x \<Rightarrow> f3 x | NMVar x \<Rightarrow> f4 x
      | NSort l \<Rightarrow> f5 l | NConst x l \<Rightarrow> f6 x l | NApp f a \<Rightarrow> f7 f a | NLam x t c bi \<Rightarrow> f8 x t c bi
      | NForall x t c bi \<Rightarrow> f9 x t c bi | NLetE x t v c d \<Rightarrow> f10 x t v c d | NLitNat q \<Rightarrow> f11 q | NLitStr q \<Rightarrow> f12 q
      | NMData m c \<Rightarrow> f13 m c | NProj x w c \<Rightarrow> f14 x w c | NProjBig x q c \<Rightarrow> f15 x q c)
    (case nd of NBVar w \<Rightarrow> g1 w | NBVarBig q \<Rightarrow> g2 q | NFVar x \<Rightarrow> g3 x | NMVar x \<Rightarrow> g4 x
      | NSort l \<Rightarrow> g5 l | NConst x l \<Rightarrow> g6 x l | NApp f a \<Rightarrow> g7 f a | NLam x t c bi \<Rightarrow> g8 x t c bi
      | NForall x t c bi \<Rightarrow> g9 x t c bi | NLetE x t v c d \<Rightarrow> g10 x t v c d | NLitNat q \<Rightarrow> g11 q | NLitStr q \<Rightarrow> g12 q
      | NMData m c \<Rightarrow> g13 m c | NProj x w c \<Rightarrow> g14 x w c | NProjBig x q c \<Rightarrow> g15 x q c)"
  using assms by (cases nd) simp_all

section \<open>Every method respects the order\<close>

locale more_calls =
  fixes K K' :: calls
  assumes calls_below [approx]:
    "below (k_whnf K e) (k_whnf K' e)"
    "below (k_whnf_core K e cr cp) (k_whnf_core K' e cr cp)"
    "below (k_infer_type_core K e io) (k_infer_type_core K' e io)"
    "below (k_is_def_eq_core K e e') (k_is_def_eq_core K' e e')"
    "below (k_whnf_loop K e e') (k_whnf_loop K' e e')"
    "below (k_lambda_loop K io e fs) (k_lambda_loop K' io e fs)"
    "below (k_pi_loop K io e fs us) (k_pi_loop K' io e fs us)"
    "below (k_let_loop K io e fs) (k_let_loop K' io e fs)"
    "below (k_binding_loop K io e e' fs) (k_binding_loop K' io e e' fs)"
    "below (k_args_loop K e e') (k_args_loop K' e e')"
    "below (k_lazy_delta_loop K e e') (k_lazy_delta_loop K' e e')"
    "below (k_lazy_proj_loop K e e' i) (k_lazy_proj_loop K' e e' i)"
begin

lemma infer_type_below [approx]: "below (infer_type K e) (infer_type K' e)"
  unfolding infer_type_def by (rule approx)

lemma is_def_eq_below [approx]: "below (is_def_eq K t s) (is_def_eq K' t s)"
  unfolding is_def_eq_def Let_def
  by (rule below_refl approx)+

lemma reduce_nat_below [approx]: "below (reduce_nat H V K e) (reduce_nat H V K' e)"
  unfolding reduce_nat_def reduce_nat_succ_def reduce_nat_binop_def reduce_nat_op_def get_nat_lit_ext_def Let_def
  by (rule below_refl approx)+

lemma rec_whnf_below [approx]: "below (rec_whnf K e cheap_rec cheap_proj) (rec_whnf K' e cheap_rec cheap_proj)"
  unfolding rec_whnf_def Let_def
  by (rule below_refl approx)+

lemma to_cnstr_when_k_below [approx]: "below (to_cnstr_when_k V K major_induct nparams e cheap_rec cheap_proj) (to_cnstr_when_k V K' major_induct nparams e cheap_rec cheap_proj)"
  unfolding to_cnstr_when_k_def Let_def
  by (rule below_refl approx)+

lemma major_to_cnstr_below [approx]: "below (major_to_cnstr H V K major_induct major cheap_rec cheap_proj) (major_to_cnstr H V K' major_induct major cheap_rec cheap_proj)"
  unfolding major_to_cnstr_def to_cnstr_when_structure_def Let_def
  by (rule below_refl approx)+

lemma reduce_recursor_below [approx]: "below (reduce_recursor H V K e cheap_rec cheap_proj) (reduce_recursor H V K' e cheap_rec cheap_proj)"
  unfolding reduce_recursor_def quot_reduce_rec_def quot_reduce_at_def inductive_reduce_rec_def reduce_major_def Let_def
  by (rule below_refl approx)+

lemma reduce_proj_core_below [approx]: "below (reduce_proj_core H V K c idx) (reduce_proj_core H V K' c idx)"
  unfolding reduce_proj_core_def Let_def
  by (rule below_refl approx)+

lemma reduce_proj_below [approx]: "below (reduce_proj H V K e cheap_rec cheap_proj) (reduce_proj H V K' e cheap_rec cheap_proj)"
  unfolding reduce_proj_def Let_def
  by (rule below_refl approx)+

lemma whnf_core_below [approx]: "below (whnf_core H V K e cheap_rec cheap_proj) (whnf_core H V K' e cheap_rec cheap_proj)"
  unfolding whnf_core_def whnf_core_cached_def whnf_core_step_def whnf_core_app_def beta_step_def whnf_fvar_def Let_def
  by (rule below_refl approx)+

lemma whnf_loop_below [approx]: "below (whnf_loop H V K e t) (whnf_loop H V K' e t)"
  unfolding whnf_loop_def Let_def
  by (rule below_refl approx)+

lemma whnf_below [approx]: "below (whnf H V K e) (whnf H V K' e)"
  unfolding whnf_def whnf_cached_def Let_def
  by (rule below_refl approx)+

lemma ensure_sort_below [approx]: "below (ensure_sort V K e) (ensure_sort V K' e)"
  unfolding ensure_sort_def Let_def
  by (rule below_refl approx)+

lemma ensure_pi_below [approx]: "below (ensure_pi V K e) (ensure_pi V K' e)"
  unfolding ensure_pi_def Let_def
  by (rule below_refl approx)+

lemma is_prop_below [approx]: "below (is_prop V K e) (is_prop V K' e)"
  unfolding is_prop_def Let_def
  by (rule below_refl approx)+

lemma lambda_loop_below [approx]: "below (lambda_loop H V K infer_only e fvars) (lambda_loop H V K' infer_only e fvars)"
  unfolding lambda_loop_def Let_def
  by (rule below_refl approx)+

lemma pi_loop_below [approx]: "below (pi_loop H V K infer_only e fvars us) (pi_loop H V K' infer_only e fvars us)"
  unfolding pi_loop_def Let_def
  by (rule below_refl approx)+

lemma let_loop_below [approx]: "below (let_loop H V K infer_only e fvars) (let_loop H V K' infer_only e fvars)"
  unfolding let_loop_def Let_def
  by (rule below_refl approx)+

lemma infer_app_loop_below [approx]: "below (infer_app_loop H V K args k i j f) (infer_app_loop H V K' args k i j f)"
proof (induction k arbitrary: i j f)
  case (Suc n)
  show ?case unfolding infer_app_loop.simps by (rule below_refl Suc.IH approx)+
qed (simp add: below_refl)

lemma proj_params_below [approx]: "below (proj_params H V K args r) (proj_params H V K' args r)"
proof (induction args arbitrary: r)
  case (Cons a as)
  show ?case unfolding proj_params.simps by (rule below_refl Cons.IH approx)+
qed (simp add: below_refl)

lemma check_prop_field_below [approx]: "below (check_prop_field V K p ty) (check_prop_field V K' p ty)"
  unfolding check_prop_field_def Let_def
  by (rule below_refl approx)+

lemma proj_fields_below [approx]: "below (proj_fields H V K n c p k i r) (proj_fields H V K' n c p k i r)"
proof (induction k arbitrary: i r)
  case (Suc n)
  show ?case unfolding proj_fields.simps by (rule below_refl Suc.IH approx)+
qed (simp add: below_refl)

lemma infer_proj_below [approx]: "below (infer_proj H V K e infer_only) (infer_proj H V K' e infer_only)"
  unfolding infer_proj_def proj_of_type_def proj_from_ctor_def Let_def
  by (rule below_refl approx)+

lemma infer_type_core_below [approx]: "below (infer_type_core H V K e infer_only) (infer_type_core H V K' e infer_only)"
  unfolding infer_type_core_def infer_node_def infer_lambda_def infer_lambda_body_def infer_pi_def infer_pi_body_def infer_let_def infer_let_body_def infer_app_def infer_app_only_def infer_app_check_def Let_def
  by (rule below_refl approx)+

lemma binding_loop_below [approx]: "below (binding_loop H V K p t s subst) (binding_loop H V K' p t s subst)"
  unfolding binding_loop_def binding_doms_def Let_def
  by (rule below_refl approx)+

lemma quick_is_def_eq_below [approx]: "below (quick_is_def_eq H V K t s use_hash) (quick_is_def_eq H V K' t s use_hash)"
  unfolding quick_is_def_eq_def quick_nodes_def is_def_eq_binding_def is_def_eq_binding_body_def Let_def
  by (rule below_refl approx)+

lemma args_loop_below [approx]: "below (args_loop V K t s) (args_loop V K' t s)"
  unfolding args_loop_def Let_def
  by (rule below_refl approx)+

lemma all_def_eq_below [approx]: "below (all_def_eq K ps) (all_def_eq K' ps)"
proof (induction ps)
  case (Cons p ps)
  show ?case by (cases p, simp only: all_def_eq.simps) (rule below_refl Cons.IH approx)+
qed (simp add: below_refl)

lemma is_def_eq_app_below [approx]: "below (is_def_eq_app V K t s) (is_def_eq_app V K' t s)"
  unfolding is_def_eq_app_def Let_def
  by (rule below_refl approx)+

lemma is_def_eq_proof_irrel_below [approx]: "below (is_def_eq_proof_irrel V K t s) (is_def_eq_proof_irrel V K' t s)"
  unfolding is_def_eq_proof_irrel_def Let_def
  by (rule below_refl approx)+

lemma unfold_and_whnf_below [approx]: "below (unfold_and_whnf H V K e) (unfold_and_whnf H V K' e)"
  unfolding unfold_and_whnf_def Let_def
  by (rule below_refl approx)+

lemma try_same_head_below [approx]: "below (try_same_head V K t s dt ds) (try_same_head V K' t s dt ds)"
  unfolding try_same_head_def same_head_args_def is_def_eq_args_def Let_def
  by (rule below_refl approx)+

lemma lazy_delta_reduction_step_below [approx]: "below (lazy_delta_reduction_step H V K t s) (lazy_delta_reduction_step H V K' t s)"
  unfolding lazy_delta_reduction_step_def lazy_delta_unfold_def try_unfold_proj_app_def Let_def
  by (rule below_refl approx)+

lemma is_def_eq_offset_below [approx]: "below (is_def_eq_offset H V K t s) (is_def_eq_offset H V K' t s)"
  unfolding is_def_eq_offset_def Let_def
  by (rule below_refl approx)+

lemma lazy_delta_loop_below [approx]: "below (lazy_delta_loop H V K t s) (lazy_delta_loop H V K' t s)"
  unfolding lazy_delta_loop_def nat_reduced_def native_reduced_def Let_def
  by (rule below_refl approx)+

lemma lazy_proj_loop_below [approx]: "below (lazy_proj_loop H V K t s idx) (lazy_proj_loop H V K' t s idx)"
  unfolding lazy_proj_loop_def lazy_proj_end_def Let_def
  by (rule below_refl approx)+

lemma try_eta_expansion_below [approx]: "below (try_eta_expansion H V K t s) (try_eta_expansion H V K' t s)"
  unfolding try_eta_expansion_def try_eta_expansion_core_def Let_def
  by (rule below_refl approx)+

lemma eta_fields_eq_below [approx]: "below (eta_fields_eq H V K n t i args) (eta_fields_eq H V K' n t i args)"
proof (induction args arbitrary: i)
  case (Cons a as)
  show ?case unfolding eta_fields_eq.simps by (rule below_refl Cons.IH approx)+
qed (simp add: below_refl)

lemma try_eta_struct_below [approx]: "below (try_eta_struct H V K t s) (try_eta_struct H V K' t s)"
  unfolding try_eta_struct_def try_eta_struct_core_def try_eta_struct_ctor_def Let_def
  by (rule below_refl approx)+

lemma try_string_lit_expansion_below [approx]: "below (try_string_lit_expansion H V K t s) (try_string_lit_expansion H V K' t s)"
  unfolding try_string_lit_expansion_def try_string_lit_expansion_core_def Let_def
  by (rule below_refl approx)+

lemma is_def_eq_unit_like_below [approx]: "below (is_def_eq_unit_like V K t s) (is_def_eq_unit_like V K' t s)"
  unfolding is_def_eq_unit_like_def Let_def
  by (rule below_refl approx)+

lemma is_def_eq_core_below [approx]: "below (is_def_eq_core H V K t s) (is_def_eq_core H V K' t s)"
  unfolding is_def_eq_core_def eq_bool_true_def eq_whnf_def lazy_delta_reduction_def eq_unfolded_def eq_proj_def lazy_delta_proj_reduction_def eq_structural_def Let_def
  by (rule below_refl approx)+

lemmas next_below = whnf_below whnf_core_below infer_type_core_below is_def_eq_core_below whnf_loop_below lambda_loop_below
  pi_loop_below let_loop_below binding_loop_below args_loop_below lazy_delta_loop_below lazy_proj_loop_below

end

section \<open>More depth, same answer\<close>

lemma no_calls_below: "more_calls no_calls K"
  by unfold_locales (simp_all add: no_calls_def below_diverges)

lemma next_calls_below: "more_calls K K' \<Longrightarrow> more_calls (next_calls H V K) (next_calls H V K')"
  by (unfold_locales; simp add: next_calls_def) (rule more_calls.next_below, assumption)+

lemma calls_below_Suc: "more_calls (calls_at H V n) (calls_at H V (Suc n))"
  by (induction n) (simp_all add: no_calls_below next_calls_below)

interpretation deeper: more_calls "calls_at H V n" "calls_at H V (Suc n)" for H V n
  by (rule calls_below_Suc)

lemma below_trans: "below m m1 \<Longrightarrow> below m1 m2 \<Longrightarrow> below m m2"
  unfolding below_def by metis

lemma deeper_below:
  assumes "\<And>n. below (f n) (f (Suc n))" and "n \<le> k" shows "below (f n) (f k)"
  using assms(2) by (induction rule: dec_induct) (auto intro: below_refl below_trans assms(1))

lemma below_same: "below m m' \<Longrightarrow> m s \<noteq> Inl Diverges \<Longrightarrow> m' s = m s"
  by (auto simp: below_def)

text \<open>Once \<open>check\<close> ends within a bound, with a type or with an error of the code, it gives the same result and the
  same state within every larger bound.\<close>

lemma check_deeper:
  assumes "check (calls_at H V n) e lparams s \<noteq> Inl Diverges" and "n \<le> k"
  shows "check (calls_at H V k) e lparams s = check (calls_at H V n) e lparams s"
proof (rule below_same [OF deeper_below [where f = "\<lambda>n. check (calls_at H V n) e lparams", OF _ assms(2)] assms(1)])
  fix n show "below (check (calls_at H V n) e lparams) (check (calls_at H V (Suc n)) e lparams)"
    unfolding check_def by (intro below_after below_refl deeper.calls_below)
qed

end
