(* ===== verification/Checker_Properties.thy ===== *)
theory Checker_Properties
  imports Checker_New Checker_Fuel
begin

text \<open>
  The properties of the type checker: its methods are safe on every state that satisfies the invariant, a
  new checker satisfies it, and the bound on the depth of the calls does not matter.
\<close>

section \<open>A checker to run\<close>

text \<open>An environment without constants over an empty store, and a checker on it that knows the identity on
  the lowest universe.\<close>

definition empty_view :: env_view where
  "empty_view = \<lparr>v_consts = Plain (\<lambda>_. None), v_extra = None, v_quot_initialized = False, v_store = persistent\<rparr>"

definition ident :: expr where
  "ident = ELam Anonymous (ESort Zero) (EBVar 0) Default"

lemma empty_view_ok: "view_ok empty_view st"
  by (simp add: view_ok_def view_get_def empty_view_def source_get_def)

lemma empty_base [simp]: "view_base empty_view = Some persistent"
  by (simp add: empty_view_def)

lemma twf_empty_scratch: "twf H (view_base empty_view) scratch"
  by (simp add: twf_scratch [OF twf_persistent regions_persistent])

lemma ready_state:
  assumes st: "twf flat_hashers (view_base empty_view) st" and room: "used st \<le> 1000"
  obtains s where "type_checker_new flat_hashers empty_view st = Inr s" and "tc_ok flat_hashers empty_view s"
    and "good flat_hashers (view_base empty_view) st (tc_scratch s)" and "tc_guard_depth s = 0"
  using new_checker [OF st empty_view_ok] room by (auto simp: max_rows_def)

lemma ready_term:
  assumes cost: "expr_cost t \<le> 1000"
  obtains e st s where "intern_expr flat_hashers (view_base empty_view) t scratch = Inr (e, st)"
    and "type_checker_new flat_hashers empty_view st = Inr s" and "tc_ok flat_hashers empty_view s"
    and "expr_at (view_base empty_view) (tc_scratch s) e t" and "tc_guard_depth s = 0"
proof -
  let ?B = "view_base empty_view"
  have "used scratch + expr_cost t \<le> max_rows" using cost by (simp add: max_rows_def)
  from intern_expr_total [OF twf_empty_scratch this] obtain e st where
    1: "intern_expr flat_hashers ?B t scratch = Inr (e, st)" "twf flat_hashers ?B st"
      "used st \<le> used scratch + expr_cost t" "expr_at ?B st e t" by metis
  from 1(3) cost have "used st \<le> 1000" by simp
  with 1(2) obtain s where 2: "type_checker_new flat_hashers empty_view st = Inr s" "tc_ok flat_hashers empty_view s"
    "good flat_hashers ?B st (tc_scratch s)" "tc_guard_depth s = 0" by (rule ready_state)
  from that [OF 1(1) 2(1,2) expr_at_grows [OF 1(4) goodD(2) [OF 2(3)]] 2(4)] show thesis .
qed

lemma ready_checker:
  assumes t: "loose_range t = 0" and cost: "expr_cost t \<le> 1000"
  obtains e st s where "intern_expr flat_hashers (view_base empty_view) t scratch = Inr (e, st)"
    and "type_checker_new flat_hashers empty_view st = Inr s" and "tc_ok flat_hashers empty_view s"
    and "e \<in> closed empty_view (tc_scratch s)" and "expr_at (view_base empty_view) (tc_scratch s) e t"
  using ready_term [OF cost] closed_in_range [OF tc_okD(8) _ t] by metis

lemma ident_fits: "loose_range ident = 0" "expr_cost ident \<le> 1000"
  by (simp_all add: ident_def)

section \<open>Safety\<close>

text \<open>A computation under a contract, from a state in which its precondition is stable.\<close>

lemma contract_case:
  assumes "contract H V True P m Q" and "tc_ok H V s" and "stays H V P s"
  shows "case m s of
      Inl err \<Rightarrow> err \<noteq> Panic
    | Inr (x, s') \<Rightarrow> tc_ok H V s' \<and> Q x s' \<and> grows (view_base V) (tc_scratch s) (tc_scratch s')
        \<and> decls (tc_lctx s') = decls (tc_lctx s) \<and> tc_guard_depth s' = tc_guard_depth s"
  using contractD [OF assms]
  by (auto simp: run_def tc_step_def split: sum.split prod.split dest: stays_now)

lemma live_stays: "e \<in> rng V k s \<Longrightarrow> stays H V (\<lambda>s. e \<in> rng V k s) s"
  by (auto simp: stays_def tc_step_def dest: ids_grow(1))

text \<open>C1: \<open>check\<close> never panics on a live closed term, however deep its calls may nest, if the checker's state is
  well-formed (\<open>tc_ok\<close>): the scratch store over the environment's store is, the caches and the local context hold
  live closed terms, and every constant of the environment that is read is well-formed (\<open>const_ok\<close>): its ids are
  in use, its type, value and rules are closed, and the counts of a recursor add up to less than \<open>2 ^ 64\<close>. The code
  does not test the last condition: without it the sum of the counts wraps and a slice of the arguments is out of
  range. Under these conditions every id that is read is in use, every slice is in bounds, every \<open>expect\<close> and
  \<open>unreachable\<close> is justified. If the term is accepted, the type is a live closed term, all ids keep their
  meaning, the local context is as before, and the guard is back at its depth.\<close>

theorem check_safe:
  assumes "tc_ok H V s" and "e \<in> closed V (tc_scratch s)"
  shows "case check (calls_at H V n) e lparams s of
      Inl err \<Rightarrow> err \<noteq> Panic
    | Inr (ty, s') \<Rightarrow> tc_ok H V s' \<and> ty \<in> closed V (tc_scratch s') \<and> grows (view_base V) (tc_scratch s) (tc_scratch s')
        \<and> decls (tc_lctx s') = decls (tc_lctx s) \<and> tc_guard_depth s' = tc_guard_depth s"
  by (rule contract_case [OF checker.check_spec assms(1) live_stays [OF assms(2)]]) blast

theorem check_safe_witness:
  "\<exists>e st s. intern_expr flat_hashers (view_base empty_view) ident scratch = Inr (e, st)
     \<and> type_checker_new flat_hashers empty_view st = Inr s
     \<and> (case check (calls_at flat_hashers empty_view 50) e [] s of
          Inl err \<Rightarrow> err \<noteq> Panic
        | Inr (ty, s') \<Rightarrow> tc_ok flat_hashers empty_view s' \<and> decls (tc_lctx s') = decls (tc_lctx s))"
proof -
  obtain e st s where 1: "intern_expr flat_hashers (view_base empty_view) ident scratch = Inr (e, st)"
    "type_checker_new flat_hashers empty_view st = Inr s" "tc_ok flat_hashers empty_view s"
    "e \<in> closed empty_view (tc_scratch s)"
    by (rule ready_checker [OF ident_fits])
  from check_safe [OF 1(3,4), of 50 "[]"] 1(1,2) show ?thesis
    by (intro exI [of _ e] exI [of _ st] exI [of _ s]) (auto split: sum.splits prod.splits)
qed

text \<open>C3: \<open>whnf\<close> never panics on a live closed term, and gives a live closed term.\<close>

theorem whnf_safe:
  assumes "tc_ok H V s" and "e \<in> closed V (tc_scratch s)"
  shows "case whnf H V (calls_at H V n) e s of
      Inl err \<Rightarrow> err \<noteq> Panic
    | Inr (r, s') \<Rightarrow> tc_ok H V s' \<and> r \<in> closed V (tc_scratch s') \<and> grows (view_base V) (tc_scratch s) (tc_scratch s')
        \<and> decls (tc_lctx s') = decls (tc_lctx s) \<and> tc_guard_depth s' = tc_guard_depth s"
  by (rule contract_case [OF checker.whnf_spec assms(1) live_stays [OF assms(2)]]) blast

theorem whnf_safe_witness:
  "\<exists>e st s. intern_expr flat_hashers (view_base empty_view) (EApp ident ident) scratch = Inr (e, st)
     \<and> type_checker_new flat_hashers empty_view st = Inr s
     \<and> (case whnf flat_hashers empty_view (calls_at flat_hashers empty_view 50) e s of
          Inl err \<Rightarrow> err \<noteq> Panic
        | Inr (r, s') \<Rightarrow> tc_ok flat_hashers empty_view s' \<and> r \<in> closed empty_view (tc_scratch s'))"
proof -
  have "loose_range (EApp ident ident) = 0" "expr_cost (EApp ident ident) \<le> 1000" by (simp_all add: ident_def)
  then obtain e st s where 1: "intern_expr flat_hashers (view_base empty_view) (EApp ident ident) scratch = Inr (e, st)"
    "type_checker_new flat_hashers empty_view st = Inr s" "tc_ok flat_hashers empty_view s"
    "e \<in> closed empty_view (tc_scratch s)"
    by (rule ready_checker)
  from whnf_safe [OF 1(3,4), of 50] 1(1,2) show ?thesis
    by (intro exI [of _ e] exI [of _ st] exI [of _ s]) (auto split: sum.splits prod.splits)
qed

text \<open>C2: \<open>is_def_eq_core\<close> never panics on live closed terms, keeps the invariant, which includes the equality
  cache, and leaves the local context as it was.\<close>

theorem is_def_eq_safe:
  assumes "tc_ok H V s" and "a \<in> closed V (tc_scratch s)" and "b \<in> closed V (tc_scratch s)"
  shows "case is_def_eq_core H V (calls_at H V n) a b s of
      Inl err \<Rightarrow> err \<noteq> Panic
    | Inr (r, s') \<Rightarrow> tc_ok H V s' \<and> grows (view_base V) (tc_scratch s) (tc_scratch s')
        \<and> decls (tc_lctx s') = decls (tc_lctx s) \<and> tc_guard_depth s' = tc_guard_depth s"
proof -
  have "stays H V (\<lambda>s. a \<in> rng V 0 s \<and> b \<in> rng V 0 s) s"
    using live_stays [OF assms(2)] live_stays [OF assms(3)] by (simp add: stays_conj)
  from contract_case [OF checker.is_def_eq_core_spec [where t = a and u = b and n = n] assms(1) this] show ?thesis
    by (auto split: sum.splits)
qed

theorem is_def_eq_safe_witness:
  "\<exists>e st s. intern_expr flat_hashers (view_base empty_view) ident scratch = Inr (e, st)
     \<and> type_checker_new flat_hashers empty_view st = Inr s
     \<and> (case is_def_eq_core flat_hashers empty_view (calls_at flat_hashers empty_view 50) e (tc_dont_care s) s of
          Inl err \<Rightarrow> err \<noteq> Panic
        | Inr (r, s') \<Rightarrow> tc_ok flat_hashers empty_view s')"
proof -
  obtain e st s where 1: "intern_expr flat_hashers (view_base empty_view) ident scratch = Inr (e, st)"
    "type_checker_new flat_hashers empty_view st = Inr s" "tc_ok flat_hashers empty_view s"
    "e \<in> closed empty_view (tc_scratch s)"
    by (rule ready_checker [OF ident_fits])
  have "tc_dont_care s \<in> closed empty_view (tc_scratch s)" using tc_okD(7) [OF 1(3)] by (simp add: names_ok_def)
  from is_def_eq_safe [OF 1(3,4) this, of 50] 1(1,2) show ?thesis
    by (intro exI [of _ e] exI [of _ st] exI [of _ s]) (auto split: sum.splits prod.splits)
qed

text \<open>C4: a new checker on an empty scratch store over a well-formed persistent store is ready: none of its
  \<open>expect\<close>s fails as long as 28 rows fit, and it satisfies the invariant that the safety of its methods needs.\<close>

theorem new_checker_ready:
  assumes "twf H None p" and "regions_0 p" and "v_store V = p" and "view_ok V scratch"
  shows "\<exists>s. type_checker_new H V scratch = Inr s \<and> tc_ok H V s \<and> tc_guard_depth s = 0 \<and> decls (tc_lctx s) = []
    \<and> used (tc_scratch s) \<le> 28
    \<and> (\<forall>e t. expr_at None p e t \<longrightarrow> expr_at (view_base V) (tc_scratch s) e t)"
proof -
  have "used scratch + 28 \<le> max_rows" by (simp add: max_rows_def)
  moreover have "twf H (view_base V) scratch" using twf_scratch [OF assms(1,2)] assms(3) by simp
  ultimately obtain s where 1: "type_checker_new H V scratch = Inr s" "tc_ok H V s"
    "good H (view_base V) scratch (tc_scratch s)" "used (tc_scratch s) \<le> used scratch + 28" "tc_guard_depth s = 0"
    "tc_lctx s = empty_context" using new_checker [OF _ assms(4)] by blast
  have "expr_at None p e t \<Longrightarrow> expr_at (view_base V) (tc_scratch s) e t" for e t
    using expr_at_grows [OF over_term [OF banks_ok_scratch [OF twfD(3) [OF assms(1)] assms(2)]] goodD(2)] 1(3) assms(3) by blast
  with 1 show ?thesis by (auto simp: empty_context_def)
qed

theorem new_checker_ready_witness:
  "\<exists>s. type_checker_new flat_hashers empty_view scratch = Inr s \<and> tc_ok flat_hashers empty_view s"
  using new_checker_ready [OF twf_persistent regions_persistent _ empty_view_ok, of flat_hashers]
  by (auto simp: empty_view_def)

section \<open>Sorts\<close>

lemma undef_param_exact:
  assumes ok: "banks_ok H base st" and ps: "list_all2 (\<lambda>i n. name_at base st (Some i) n) ps ns"
  shows "level_at base st l t \<Longrightarrow>
    run {DeepRecursion} (get_undef_param_id base st l ps d) (\<lambda>r. r = None \<longleftrightarrow> params_of t \<subseteq> set ns)"
proof (induction arbitrary: d rule: level_at.induct)
  case (level_at_Succ i a la)
  then show ?case
    by (subst get_undef_param_id.simps) (simp add: level_reads(1) [OF ok level_at_Succ(1)] enter_def)
next
  case (level_at_Max i a b la lb)
  show ?case
    by (subst get_undef_param_id.simps)
      (auto simp: level_reads(1) [OF ok level_at_Max(1)] enter_def run_andthen
        intro!: run_mono [OF level_at_Max(4)] run_mono [OF level_at_Max(5)] split: option.split)
next
  case (level_at_IMax i a b la lb)
  show ?case
    by (subst get_undef_param_id.simps)
      (auto simp: level_reads(1) [OF ok level_at_IMax(1)] enter_def run_andthen
        intro!: run_mono [OF level_at_IMax(4)] run_mono [OF level_at_IMax(5)] split: option.split)
next
  case (level_at_Param i x n)
  have "j \<in> set ps \<longleftrightarrow> n \<in> set ns" if "x = Some j" for j
  proof
    assume "j \<in> set ps"
    with list_all2_members(1) [OF ps] obtain m where "m \<in> set ns" "name_at base st (Some j) m" by blast
    with name_at_det level_at_Param(2) that show "n \<in> set ns" by blast
  next
    assume "n \<in> set ns"
    with list_all2_members(2) [OF ps] obtain i where "i \<in> set ps" "name_at base st (Some i) n" by blast
    with name_at_inject [OF ok level_at_Param(2)] that show "j \<in> set ps" by blast
  qed
  moreover have "n \<notin> set ns" if "x = None"
    using list_all2_members(2) [OF ps, of n] name_at_inject [OF ok level_at_Param(2)] that by blast
  ultimately show ?case
    by (subst get_undef_param_id.simps) (auto simp: level_reads(1) [OF ok level_at_Param(1)] split: option.split)
qed (subst get_undef_param_id.simps, simp add: level_reads(1) [OF ok])+

lemma check_level_run:
  assumes s: "tc_ok H V s" and l: "level_at (view_base V) (tc_scratch s) i l"
    and ps: "list_all2 (\<lambda>i n. name_at (view_base V) (tc_scratch s) (Some i) n) (tc_lparams s) ns"
  shows "case check_level V i s of
      Inl err \<Rightarrow> err = DeepRecursion \<or> (\<exists>n. err = UnivParamArityMismatch n) \<and> \<not> params_of l \<subseteq> set ns
    | Inr (_, s') \<Rightarrow> s' = s \<and> params_of l \<subseteq> set ns"
proof -
  note ok = tc_okD(8) [OF s]
  let ?r = "get_undef_param_id (view_base V) (tc_scratch s) i (tc_lparams s) (tc_guard s)"
  from undef_param_exact [OF ok ps l, of "tc_guard s"]
  have 1: "run {DeepRecursion} ?r (\<lambda>r. r = None \<longleftrightarrow> params_of l \<subseteq> set ns)" .
  from undef_param_run [OF ok l, of "tc_lparams s" "tc_guard s"]
  have 2: "run (- {Panic}) ?r (\<lambda>r. \<forall>n. r = Some n \<longrightarrow> n \<in> name_ids (view_base V) (tc_scratch s))" .
  show ?thesis
  proof (cases ?r)
    case (Inl e)
    with 1 show ?thesis by (simp add: check_level_def after_def look_def reads_def)
  next
    case (Inr r)
    show ?thesis
    proof (cases r)
      case None
      with Inr 1 show ?thesis by (simp add: check_level_def after_def look_def reads_def give_def)
    next
      case (Some x)
      with Inr 1 2 have "\<not> params_of l \<subseteq> set ns" "x \<in> name_ids (view_base V) (tc_scratch s)" by auto
      moreover then obtain n where "name_at (view_base V) (tc_scratch s) x n" by (auto simp: name_ids_def)
      ultimately show ?thesis using Inr Some to_name_ok [OF ok]
        by (auto simp: check_level_def after_def look_def reads_def give_def fail_def tc_to_name_def split: option.split)
    qed
  qed
qed

definition sort_errors :: "level \<Rightarrow> name list \<Rightarrow> kernel_error set" where
  "sort_errors l ns = {DeepRecursion, BankExhausted} \<union> {e. (\<exists>n. e = UnivParamArityMismatch n) \<and> \<not> params_of l \<subseteq> set ns}"

lemma infer_sort_node:
  assumes s: "tc_ok H V s" and l: "level_at (view_base V) (tc_scratch s) i l"
    and ps: "list_all2 (\<lambda>i n. name_at (view_base V) (tc_scratch s) (Some i) n) (tc_lparams s) ns"
  shows "run (sort_errors l ns) (infer_node H V K e False (NSort i) s)
    (\<lambda>(r, s'). params_of l \<subseteq> set ns \<and> expr_at (view_base V) (tc_scratch s') r (ESort (Succ l)))"
proof -
  note twf = tc_okD(1) [OF s]
  have "run (sort_errors l ns) (check_level V i s) (\<lambda>(_, s'). s' = s \<and> params_of l \<subseteq> set ns)"
    using check_level_run [OF s l ps] by (auto simp: run_def sort_errors_def split: sum.splits)
  then show ?thesis
    unfolding infer_node_def node.case after_def if_False
  proof (rule run_bind2, unfold prod.case, elim conjE)
    fix x s' assume s': "s' = s" and p: "params_of l \<subseteq> set ns"
    have "run (sort_errors l ns) (level_succ (view_base V) i (tc_scratch s))
        (\<lambda>(j, st). good H (view_base V) (tc_scratch s) st \<and> level_at (view_base V) st j (Succ l))"
      using level_succ_ok [OF twfD(1) [OF twf] l]
      by (auto simp: makes_def runs_def sort_errors_def full_cases elim!: run_mono)
    then show "run (sort_errors l ns) (andthen (writes (level_succ (view_base V) i) s') (\<lambda>(l2, s'). tc_sort V l2 s'))
        (\<lambda>(r, s'). params_of l \<subseteq> set ns \<and> expr_at (view_base V) (tc_scratch s') r (ESort (Succ l)))"
      unfolding s' writes_def run_andthen
    proof (rule run_mono, clarsimp simp only: split_paired_all prod.case run_simps)
      fix j st assume g: "good H (view_base V) (tc_scratch s) st" and j: "level_at (view_base V) st j (Succ l)"
      from expr_sort_ok [OF twf_good [OF twf g] j]
      show "run (sort_errors l ns) (tc_sort V j (s\<lparr>tc_scratch := st\<rparr>))
        (\<lambda>(r, s'). params_of l \<subseteq> set ns \<and> expr_at (view_base V) (tc_scratch s') r (ESort (Succ l)))"
        unfolding tc_sort_def writes_def run_andthen
        by (auto simp: runs_def sort_errors_def full_cases p elim!: run_mono)
    qed simp
  qed
qed

lemma check_sort_run:
  assumes "tc_ok H V s" and "expr_at (view_base V) (tc_scratch s) e (ESort l)" and "tc_infer_cache s False e = None"
    and "list_all2 (\<lambda>i n. name_at (view_base V) (tc_scratch s) (Some i) n) lparams ns"
  shows "run (sort_errors l ns) (check (calls_at H V (Suc n)) e lparams s)
    (\<lambda>(ty, s'). params_of l \<subseteq> set ns \<and> expr_at (view_base V) (tc_scratch s') ty (ESort (Succ l))
      \<and> tc_infer_cache s' False e = Some ty)"
proof -
  let ?B = "view_base V" and ?s = "s\<lparr>tc_lparams := lparams, tc_guard_depth := tc_guard_depth s + 1\<rparr>"
  note ok = tc_okD(8) [OF assms(1)] and twf = tc_okD(1) [OF assms(1)]
  from assms(2) obtain nd where nd: "node_at ?B (tc_scratch s) e nd" "node_expr ?B (tc_scratch s) (expr_at ?B (tc_scratch s)) nd (ESort l)"
    by (rule expr_atE)
  then obtain i where i: "nd = NSort i" "level_at ?B (tc_scratch s) i l" by (cases nd) auto
  have s: "tc_ok H V ?s" using assms(1) by (simp add: tc_ok_def caches_ok_def names_ok_def)
  have range: "d_loose_bvar_range (data_of H (ESort l)) = 0"
    using range_ok_data_of [of H "ESort l"] by (simp add: range_ok_def)
  note ev = expr_data_ok [OF ok twfD(2) [OF twf] assms(2)] expr_node_ok [OF ok nd(1)]
  let ?m = "infer_node H V (calls_at H V n) e False (NSort i) ?s"
  have m: "run (sort_errors l ns) ?m
      (\<lambda>(r, s'). params_of l \<subseteq> set ns \<and> expr_at ?B (tc_scratch s') r (ESort (Succ l)))"
    by (rule infer_sort_node [OF s]) (use i(2) assms(4) in simp_all)
  have "check (calls_at H V (Suc n)) e lparams s =
      (if MAX_REC_DEPTH \<le> tc_guard_depth s then Inl DeepRecursion
       else andthen (andthen ?m (\<lambda>(r, s). andthen (cache_infer False e r s) (\<lambda>(_, s). Inr (r, s))))
         (\<lambda>(r, s). Inr (r, s\<lparr>tc_guard_depth := tc_guard_depth s - 1\<rparr>)))"
    by (simp add: check_def next_calls_def infer_type_core_def with_guard_def after_def alter_def has_loose_bvars_def
        tc_data_def tc_node_def reads_def ev give_def look_def assms(3) range i(1))
  with m show ?thesis
    by (cases ?m) (auto simp: sort_errors_def cache_infer_def alter_def)
qed

text \<open>A sort whose type is cached is accepted as it is: the cache is not keyed by the parameters.\<close>

lemma check_cached:
  assumes "tc_ok H V s" and "expr_at (view_base V) (tc_scratch s) e (ESort l)" and "tc_infer_cache s False e = Some ty"
  shows "check (calls_at H V (Suc n)) e lparams s
    = (if MAX_REC_DEPTH \<le> tc_guard_depth s then Inl DeepRecursion else Inr (ty, s\<lparr>tc_lparams := lparams\<rparr>))"
proof -
  have "d_loose_bvar_range (data_of H (ESort l)) = 0"
    using range_ok_data_of [of H "ESort l"] by (simp add: range_ok_def)
  with expr_data_ok [OF tc_okD(8) [OF assms(1)] twfD(2) [OF tc_okD(1) [OF assms(1)]] assms(2)] assms(3) show ?thesis
    by (simp add: check_def next_calls_def infer_type_core_def with_guard_def after_def alter_def has_loose_bvars_def
        tc_data_def reads_def give_def fail_def look_def)
qed

text \<open>C36: \<open>check\<close> on a sort. If the sort has not been checked on this checker before, it is accepted only if
  every universe parameter of \<open>l\<close> is declared, and its type is \<open>Sort (l + 1)\<close>, which is cached; apart from the guard
  and the id space nothing else can fail. If its type is in the cache, that type is the answer, whatever parameters
  are declared this time.\<close>

theorem check_sort:
  assumes "tc_ok H V s" and "expr_at (view_base V) (tc_scratch s) e (ESort l)"
    and "list_all2 (\<lambda>i n. name_at (view_base V) (tc_scratch s) (Some i) n) lparams ns"
  shows "case check (calls_at H V (Suc n)) e lparams s of
      Inl err \<Rightarrow> err \<in> sort_errors l ns
    | Inr (ty, s') \<Rightarrow> tc_infer_cache s' False e = Some ty \<and>
        (case tc_infer_cache s False e of
           None \<Rightarrow> params_of l \<subseteq> set ns \<and> expr_at (view_base V) (tc_scratch s') ty (ESort (Succ l))
         | Some cached \<Rightarrow> ty = cached)"
proof (cases "tc_infer_cache s False e")
  case None
  with check_sort_run [OF assms(1,2) None assms(3), of n] show ?thesis by (auto simp: run_def split: sum.splits)
next
  case (Some cached)
  from check_cached [OF assms(1,2) Some, of n lparams] Some show ?thesis by (simp add: sort_errors_def)
qed

text \<open>The lowest universe and its type.\<close>

lemma sort0_checked:
  obtains e st s where "intern_expr flat_hashers (view_base empty_view) (ESort Zero) scratch = Inr (e, st)"
    and "type_checker_new flat_hashers empty_view st = Inr s" and "tc_ok flat_hashers empty_view s"
    and "expr_at (view_base empty_view) (tc_scratch s) e (ESort Zero)" and "tc_infer_cache s False e = None"
proof -
  have "loose_range (ESort Zero) = 0" "expr_cost (ESort Zero) \<le> 1000" by simp_all
  then obtain e st s where 1: "intern_expr flat_hashers (view_base empty_view) (ESort Zero) scratch = Inr (e, st)"
    "type_checker_new flat_hashers empty_view st = Inr s" "tc_ok flat_hashers empty_view s"
    "expr_at (view_base empty_view) (tc_scratch s) e (ESort Zero)"
    by (rule ready_checker)
  have "tc_infer_cache s = (\<lambda>_ _. None)"
    using 1(2) by (auto simp: type_checker_new_def Let_def andthen_eq_Inr_iff)
  with that [OF 1] show thesis by simp
qed

theorem check_sort_witness:
  "\<exists>e st s. intern_expr flat_hashers (view_base empty_view) (ESort Zero) scratch = Inr (e, st)
     \<and> type_checker_new flat_hashers empty_view st = Inr s
     \<and> (case check (calls_at flat_hashers empty_view 1) e [] s of
          Inl err \<Rightarrow> err \<in> sort_errors Zero []
        | Inr (ty, s') \<Rightarrow> expr_at (view_base empty_view) (tc_scratch s') ty (ESort (Succ Zero)))"
proof -
  obtain e st s where 1: "intern_expr flat_hashers (view_base empty_view) (ESort Zero) scratch = Inr (e, st)"
    "type_checker_new flat_hashers empty_view st = Inr s" "tc_ok flat_hashers empty_view s"
    "expr_at (view_base empty_view) (tc_scratch s) e (ESort Zero)" "tc_infer_cache s False e = None"
    by (rule sort0_checked)
  from check_sort [OF 1(3,4), of "[]" "[]" 0] 1(1,2,5) show ?thesis
    by (intro exI [of _ e] exI [of _ st] exI [of _ s]) (auto split: sum.splits prod.splits)
qed

section \<open>Loose variables\<close>

text \<open>C38: a term with a loose bound variable is never accepted, whatever the caches hold.\<close>

theorem check_rejects_loose:
  assumes "twf H (view_base V) (tc_scratch s)" and "expr_at (view_base V) (tc_scratch s) e t" and "loose_range t \<noteq> 0"
  shows "check (calls_at H V (Suc n)) e lparams s
     = Inl (if MAX_REC_DEPTH \<le> tc_guard_depth s then DeepRecursion else LooseBVar)"
proof -
  have "d_loose_bvar_range (data_of H t) \<noteq> 0"
    using range_ok_data_of [of H t] assms(3) by (auto simp: range_ok_def)
  with expr_data_ok [OF twfD(3,2) [OF assms(1)] assms(2)] show ?thesis
    by (simp add: check_def next_calls_def infer_type_core_def with_guard_def after_def alter_def has_loose_bvars_def
        tc_data_def reads_def give_def fail_def)
qed

theorem check_rejects_loose_witness:
  "\<exists>e st s. intern_expr flat_hashers (view_base empty_view) (EBVar 0) scratch = Inr (e, st)
     \<and> (\<forall>lparams n. check (calls_at flat_hashers empty_view (Suc n)) e lparams s = Inl LooseBVar)"
proof -
  obtain e st s where 1: "intern_expr flat_hashers (view_base empty_view) (EBVar 0) scratch = Inr (e, st)"
    "tc_ok flat_hashers empty_view s" "expr_at (view_base empty_view) (tc_scratch s) e (EBVar 0)" "tc_guard_depth s = 0"
    by (rule ready_term [of "EBVar 0"]) simp_all
  from check_rejects_loose [OF tc_okD(1) [OF 1(2)] 1(3)] 1(1,4) show ?thesis
    by (intro exI [of _ e] exI [of _ st] exI [of _ s]) (simp add: MAX_REC_DEPTH_def)
qed

section \<open>Definitional equality\<close>

text \<open>\<open>is_def_eq_core\<close> answers true on equal ids, whatever they denote and whatever the state holds, and
  changes nothing; only the guard can stop it.\<close>

theorem is_def_eq_refl:
  "is_def_eq_core H V K t t s = (if MAX_REC_DEPTH \<le> tc_guard_depth s then Inl DeepRecursion else Inr (True, s))"
  by (simp add: is_def_eq_core_def with_guard_def quick_is_def_eq_def tc_is_equiv_def is_equiv_def is_equiv_core.simps
      after_def give_def decided_def)

lemma equivalent_eval:
  "is_equivalent a b d = Inr True \<Longrightarrow> small a \<Longrightarrow> small b \<Longrightarrow> eval \<rho> \<mu> a = eval \<rho> \<mu> b"
  using normalize_sound [of a d _ \<rho> \<mu>] normalize_sound [of b d _ \<rho> \<mu>]
  by (auto simp: is_equivalent_def andthen_eq_Inr_iff split: if_splits dest!: structural_eq_sound)

text \<open>A level in use is less than \<open>2\<^sup>3\<^sup>2\<close> successors high, because its parts have different ids.\<close>

lemma part_of_level: "level_at base st i l \<Longrightarrow> h \<le> sdepth l \<Longrightarrow> \<exists>j l'. level_at base st j l' \<and> sdepth l' = h"
proof (induction arbitrary: h rule: level_at.induct)
  case (level_at_Succ i a la)
  have "level_at base st i (Succ la)" by (rule level_at.level_at_Succ [OF level_at_Succ(1,2)])
  then have "\<exists>j l'. level_at base st j l' \<and> sdepth l' = Suc (sdepth la)"
    by (intro exI [of _ i] exI [of _ "Succ la"]) simp
  with level_at_Succ(3,4) show ?case by (cases "h = Suc (sdepth la)") auto
next
  case (level_at_Max i a b la lb)
  then show ?case by (simp add: max_def split: if_splits)
next
  case (level_at_IMax i a b la lb)
  then show ?case by (simp add: max_def split: if_splits)
qed (metis le_zero_eq level_at.intros sdepth.simps)+

lemma live_level_small:
  assumes i: "level_at base st i l" shows "small l"
proof -
  define f where "f h = (SOME j. \<exists>l'. level_at base st j l' \<and> sdepth l' = h)" for h
  have f: "\<exists>l'. level_at base st (f h) l' \<and> sdepth l' = h" if "h \<le> sdepth l" for h
    unfolding f_def by (rule someI_ex) (rule part_of_level [OF i that])
  have "inj_on f {..sdepth l}"
    by (rule inj_onI) (metis atMost_iff f level_at_det)
  then have "card {..sdepth l} \<le> card (UNIV :: u32 set)" by (rule card_inj_on_le) simp_all
  then show ?thesis by (simp add: card_word small_def u64_max_def)
qed

text \<open>C39: two lists of universe levels are only taken for equal if they have the same length and the levels
  agree in pairs under every assignment of the parameters.\<close>

theorem def_eq_levels_sound:
  assumes "banks_ok H (view_base V) (tc_scratch s)"
    and "list_all2 (level_at (view_base V) (tc_scratch s)) is ls" and "list_all2 (level_at (view_base V) (tc_scratch s)) js ks"
    and "is_def_eq_levels V is js s = Inr (True, s')"
  shows "s' = s \<and> list_all2 (\<lambda>l k. \<forall>\<rho> \<mu>. eval \<rho> \<mu> l = eval \<rho> \<mu> k) ls ks"
proof -
  have len: "length is = length js" and run: "all_levels_equivalent V (zip is js) s = Inr (True, s')"
    using assms(4) by (auto simp: is_def_eq_levels_def give_def split: if_splits)
  from len assms(2,3) run show ?thesis
  proof (induction "is" js arbitrary: ls ks rule: list_induct2)
    case (Cons i "is" j js)
    from Cons.prems(1,2) obtain l ls' k ks' where l: "ls = l # ls'" "level_at (view_base V) (tc_scratch s) i l"
      "list_all2 (level_at (view_base V) (tc_scratch s)) is ls'"
      and k: "ks = k # ks'" "level_at (view_base V) (tc_scratch s) j k"
      "list_all2 (level_at (view_base V) (tc_scratch s)) js ks'"
      by (auto simp: list_all2_Cons1)
    have "is_equivalent l k (tc_guard s) = Inr True" "all_levels_equivalent V (zip is js) s = Inr (True, s')"
      using Cons.prems(3) to_level_ok [OF assms(1) l(2)] to_level_ok [OF assms(1) k(2)]
      by (auto simp: tc_levels_equivalent_def after_def reads_def guard_res_def look_def lift_res_def give_def andthen_eq_Inr_iff
          split: if_splits)
    with Cons.IH [OF l(3) k(3)] equivalent_eval [of l k "tc_guard s"] live_level_small [OF l(2)] live_level_small [OF k(2)] show ?case by (simp add: l(1) k(1))
  qed (simp_all add: give_def)
qed

theorem def_eq_levels_sound_witness:
  "\<exists>i st1 j st2 s. intern_level flat_hashers (view_base empty_view) (Max u v) scratch = Inr (i, st1)
     \<and> intern_level flat_hashers (view_base empty_view) (Max v u) st1 = Inr (j, st2)
     \<and> type_checker_new flat_hashers empty_view st2 = Inr s \<and> is_def_eq_levels empty_view [i] [j] s = Inr (True, s)
     \<and> list_all2 (\<lambda>l k. \<forall>\<rho> \<mu>. eval \<rho> \<mu> l = eval \<rho> \<mu> k) [Max u v] [Max v u]"
proof -
  let ?B = "view_base empty_view"
  have cost: "level_cost (Max u v) \<le> 100" "level_cost (Max v u) \<le> 100" by code_simp+
  obtain i st1 where 1: "intern_level flat_hashers ?B (Max u v) scratch = Inr (i, st1)" "good flat_hashers ?B scratch st1"
    "used st1 \<le> used scratch + 100" "level_at ?B st1 i (Max u v)"
    by (rule interns_total [OF intern_level_ok [OF twfD(1) [OF twf_empty_scratch], where H = flat_hashers and l = "Max u v", unfolded makes_def]])
      (use cost in \<open>auto simp: max_rows_def\<close>)
  obtain j st2 where 2: "intern_level flat_hashers ?B (Max v u) st1 = Inr (j, st2)" "good flat_hashers ?B st1 st2"
    "used st2 \<le> used st1 + 100" "level_at ?B st2 j (Max v u)"
    by (rule interns_total [OF intern_level_ok [OF goodD(1) [OF 1(2)], where l = "Max v u", unfolded makes_def]])
      (use cost 1(3) in \<open>auto simp: max_rows_def\<close>)
  have "twf flat_hashers ?B st2" using twf_good [OF twf_good [OF twf_empty_scratch 1(2)] 2(2)] .
  moreover have "used st2 \<le> 1000" using 1(3) 2(3) by simp
  ultimately obtain s where 3: "type_checker_new flat_hashers empty_view st2 = Inr s" "tc_ok flat_hashers empty_view s"
    "good flat_hashers ?B st2 (tc_scratch s)" by (rule ready_state)
  have guard: "tc_guard s = rec_guard_new"
    using 3(1) by (auto simp: type_checker_new_def Let_def andthen_eq_Inr_iff)
  have i: "level_at ?B (tc_scratch s) i (Max u v)" and j: "level_at ?B (tc_scratch s) j (Max v u)"
    using 1(4) 2(4) level_at_grows goodD(2) [OF 2(2)] goodD(2) [OF 3(3)] by blast+
  have "is_equivalent (Max u v) (Max v u) rec_guard_new = Inr True" by code_simp
  then have run: "is_def_eq_levels empty_view [i] [j] s = Inr (True, s)"
    using to_level_ok [OF tc_okD(8) [OF 3(2)] i] to_level_ok [OF tc_okD(8) [OF 3(2)] j]
    by (simp add: is_def_eq_levels_def tc_levels_equivalent_def after_def reads_def guard_res_def look_def lift_res_def
        give_def guard)
  have "list_all2 (level_at ?B (tc_scratch s)) [i] [Max u v]" "list_all2 (level_at ?B (tc_scratch s)) [j] [Max v u]"
    using i j by simp_all
  from def_eq_levels_sound [OF tc_okD(8) [OF 3(2)] this run] 1(1) 2(1) 3(1) run show ?thesis by blast
qed

section \<open>Natural numbers\<close>

lemma gcd_ok: "nat_gcd a b = gcd a b"
proof (induction a b rule: nat_gcd.induct)
  case (1 a b)
  show ?case
  proof (cases "b = 0")
    case False
    with 1 have "nat_gcd a b = gcd b (a mod b)" by (simp add: nat_gcd.simps [of a b])
    then show ?thesis by (simp add: gcd_red_nat [of a b])
  qed (simp add: nat_gcd.simps [of a 0])
qed

definition usize_max :: nat where
  "usize_max = 2 ^ 64 - 1"

text \<open>What the operations mean, with Lean's conventions for 0, which are those of HOL.\<close>

definition nat_meaning :: "string \<Rightarrow> nat \<Rightarrow> nat \<Rightarrow> (nat + bool) option" where
  "nat_meaning op a b =
     (if op = ''add'' then Some (Inl (a + b)) else if op = ''sub'' then Some (Inl (a - b))
      else if op = ''mul'' then Some (Inl (a * b)) else if op = ''gcd'' then Some (Inl (gcd a b))
      else if op = ''mod'' then Some (Inl (a mod b)) else if op = ''div'' then Some (Inl (a div b))
      else if op = ''land'' then Some (Inl (a AND b)) else if op = ''lor'' then Some (Inl (a OR b))
      else if op = ''xor'' then Some (Inl (a XOR b)) else if op = ''pow'' then Some (Inl (a ^ b))
      else if op = ''shiftLeft'' then Some (Inl (a * 2 ^ b)) else if op = ''shiftRight'' then Some (Inl (a div 2 ^ b))
      else if op = ''beq'' then Some (Inr (a = b)) else if op = ''ble'' then Some (Inr (a \<le> b)) else None)"

lemma nat_to_usize_max: "nat_to_usize n = (if n \<le> usize_max then Some n else None)"
  by (simp add: nat_to_usize_eq usize_max_def less_eq_Suc_le)

lemma shifted_right:
  assumes "(a :: nat) < 2 ^ usize_max" and "usize_max < b"
  shows "a div 2 ^ usize_max = a div 2 ^ b"
proof -
  have "2 ^ usize_max \<le> (2 :: nat) ^ b" using assms(2) by (intro power_increasing) simp_all
  with assms(1) have "a < 2 ^ b" by linarith
  with assms(1) show ?thesis by simp
qed

text \<open>C37: arithmetic on literals is right: the result is the number or truth value that Lean's definition of
  the operation gives, for every operation of the table, including shifts whose amount does not fit a machine
  word. No result is given for an exponent above the cap, nor for a left shift by more than a machine word.\<close>

theorem nat_binop_arith:
  assumes "a < 2 ^ usize_max"
  shows "nat_binop op a b =
    (if op = ''pow'' \<and> REDUCE_POW_MAX_EXP < b \<or> op = ''shiftLeft'' \<and> usize_max < b then None else nat_meaning op a b)"
proof -
  have cap: "REDUCE_POW_MAX_EXP \<le> usize_max" by (simp add: REDUCE_POW_MAX_EXP_def usize_max_def)
  have "nat_binop ''shiftRight'' a b = Some (Inl (drop_bit (case nat_to_usize b of Some k \<Rightarrow> k | None \<Rightarrow> usize_max) a))"
    unfolding usize_max_def by (simp add: nat_binop_def)
  also have "\<dots> = Some (Inl (a div 2 ^ b))"
    using shifted_right [OF assms] by (auto simp: nat_to_usize_max drop_bit_eq_div not_le)
  finally have right: "nat_binop ''shiftRight'' a b = nat_meaning ''shiftRight'' a b" by (simp add: nat_meaning_def)
  have "nat_binop ''pow'' a b = (if REDUCE_POW_MAX_EXP < b then None else Some (Inl (a ^ b)))"
    using cap by (simp add: nat_binop_def nat_to_usize_max not_le)
  moreover have "nat_binop ''shiftLeft'' a b = (if usize_max < b then None else Some (Inl (a * 2 ^ b)))"
    by (simp add: nat_binop_def nat_to_usize_max not_le push_bit_eq_mult)
  ultimately show ?thesis
    using right
    by (cases "op \<in> {''pow'', ''shiftLeft'', ''shiftRight''}")
      (auto simp: nat_meaning_def nat_binop_def nat_sub_def nat_div_def nat_modulo_def gcd_ok)
qed

theorem nat_binop_arith_witness: "nat_binop ''shiftRight'' 12345 3 = Some (Inl 1543)"
proof -
  have "(2 :: nat) ^ 20 \<le> 2 ^ usize_max" by (rule power_increasing) (simp_all add: usize_max_def)
  then have "(12345 :: nat) < 2 ^ usize_max" by (rule less_le_trans [rotated]) simp
  from nat_binop_arith [OF this, of "''shiftRight''" 3] show ?thesis by (simp add: nat_meaning_def)
qed

end
