(* ===== verification/Check_Graph.thy ===== *)
theory Check_Graph
  imports Used_Consts
begin

text \<open>
  The dependency graph of the parallel checker (\<open>crates/leanr_check/src/graph.rs\<close>): the decoded
  constants, sorted, are grouped into tasks; a task depends on the tasks of the constants that its
  declarations use. The timing messages are not modelled.
\<close>

section \<open>Tasks\<close>

datatype task_kind =
    TSimple u32
  | TBlock "u32 list" "u32 list"
  | TQuotients "u32 list" u32

record task =
  t_id :: nat
  t_kind :: task_kind
  t_admits :: "u32 list"
  t_deps :: "nat list"

record dep_graph =
  g_tasks :: "task list"
  g_name_to_task :: "u32 \<rightharpoonup> nat"

text \<open>\<open>KernelError::MissingConstant(store.to_name(None, Some(n)))\<close>\<close>

definition missing :: "store \<Rightarrow> u32 \<Rightarrow> 'a result" where
  "missing st n = andthen (to_name None st (Some n)) (\<lambda>nm. Inl (MissingConstant nm))"

section \<open>The first pass: tasks\<close>

text \<open>The members of a block and the constructors of each.\<close>

fun block_ctors :: "store \<Rightarrow> checked_constants \<Rightarrow> u32 list \<Rightarrow> u32 list result" where
  "block_ctors st table [] = Inr []"
| "block_ctors st table (m # ms) =
     (case get_decoded table m of
        Some (CInduct miv) \<Rightarrow> andthen (block_ctors st table ms) (\<lambda>ctors. Inr (iv_ctors miv @ ctors))
      | _ \<Rightarrow> missing st m)"

definition eq_name :: name where
  "eq_name = Str Anonymous ''Eq''"

fun find_name :: "store \<Rightarrow> name \<Rightarrow> u32 list \<Rightarrow> u32 option result" where
  "find_name st target [] = Inr None"
| "find_name st target (c # cs) =
     andthen (to_name None st (Some c)) (\<lambda>nm. if nm = target then Inr (Some c) else find_name st target cs)"

definition is_quot :: "checked_constants \<Rightarrow> u32 \<Rightarrow> bool" where
  "is_quot table q = (case get_decoded table q of Some (CQuot _) \<Rightarrow> True | _ \<Rightarrow> False)"

definition claim :: "u32 list \<Rightarrow> nat \<Rightarrow> (u32 \<rightharpoonup> nat) \<Rightarrow> (u32 \<rightharpoonup> nat)" where
  "claim ns i m = fold (\<lambda>n m. m(n \<mapsto> i)) ns m"

text \<open>What is pushed for the constant \<open>n\<close>, or nothing for a constructor or recursor.\<close>

definition new_task ::
    "store \<Rightarrow> checked_constants \<Rightarrow> u32 list \<Rightarrow> u32 \<Rightarrow> nat \<Rightarrow> (task \<times> u32 list) option result" where
  "new_task st table all_names n i =
     andthen (expect (get_decoded table n)) (\<lambda>ci.
       case ci of
         CInduct iv \<Rightarrow>
           andthen (block_ctors st table (iv_all iv)) (\<lambda>ctors.
             Inr (Some (\<lparr>t_id = i, t_kind = TBlock (iv_all iv) ctors, t_admits = iv_all iv @ ctors, t_deps = []\<rparr>,
               iv_all iv @ ctors)))
       | CCtor _ \<Rightarrow> Inr None
       | CRec _ \<Rightarrow> Inr None
       | CQuot _ \<Rightarrow>
           andthen (find_name st eq_name all_names) (\<lambda>found.
             case found of
               None \<Rightarrow> Inl (MissingConstant eq_name)
             | Some eq \<Rightarrow>
                 let quot_names = filter (is_quot table) all_names in
                 Inr (Some (\<lparr>t_id = i, t_kind = TQuotients quot_names eq, t_admits = quot_names, t_deps = []\<rparr>, quot_names)))
       | _ \<Rightarrow> Inr (Some (\<lparr>t_id = i, t_kind = TSimple n, t_admits = [n], t_deps = []\<rparr>, [n])))"

fun make_tasks ::
    "store \<Rightarrow> checked_constants \<Rightarrow> u32 list \<Rightarrow> u32 list \<Rightarrow> (u32 \<rightharpoonup> nat) \<Rightarrow> task list
     \<Rightarrow> ((u32 \<rightharpoonup> nat) \<times> task list) result" where
  "make_tasks st table all_names [] m tasks = Inr (m, tasks)"
| "make_tasks st table all_names (n # ns) m tasks =
     (if m n \<noteq> None then make_tasks st table all_names ns m tasks
      else andthen (new_task st table all_names n (length tasks)) (\<lambda>new.
        case new of
          None \<Rightarrow> make_tasks st table all_names ns m tasks
        | Some (t, claimed) \<Rightarrow> make_tasks st table all_names ns (claim claimed (length tasks) m) (tasks @ [t])))"

section \<open>Constructors and recursors that are still unclaimed\<close>

definition resolve_block :: "store \<Rightarrow> (u32 \<rightharpoonup> nat) \<Rightarrow> u32 \<Rightarrow> constant_info \<Rightarrow> nat result" where
  "resolve_block st m n ci =
     (case ci of
        CCtor cv \<Rightarrow> (case m (ct_induct cv) of Some b \<Rightarrow> Inr b | None \<Rightarrow> missing st (ct_induct cv))
      | CRec rv \<Rightarrow>
          (case rv_all rv of
             [] \<Rightarrow> missing st n
           | i # _ \<Rightarrow> (case m i of Some b \<Rightarrow> Inr b | None \<Rightarrow> missing st n))
      | _ \<Rightarrow> missing st n)"

fun claim_rest ::
    "store \<Rightarrow> checked_constants \<Rightarrow> u32 list \<Rightarrow> (u32 \<rightharpoonup> nat) \<Rightarrow> task list \<Rightarrow> ((u32 \<rightharpoonup> nat) \<times> task list) result" where
  "claim_rest st table [] m tasks = Inr (m, tasks)"
| "claim_rest st table (n # ns) m tasks =
     (if m n \<noteq> None then claim_rest st table ns m tasks
      else andthen (expect (get_decoded table n)) (\<lambda>ci.
           andthen (resolve_block st m n ci) (\<lambda>block.
           andthen (expect (get_index tasks block)) (\<lambda>t.
             claim_rest st table ns (m(n \<mapsto> block)) (tasks[block := t\<lparr>t_admits := t_admits t @ [n]\<rparr>])))))"

section \<open>The second pass: edges\<close>

type_synonym edges = "(nat \<times> nat) set"

text \<open>One edge: \<open>if dep_task != owner && seen_edges.insert(..) { tasks[owner].deps.push(dep_task) }\<close>.\<close>

definition add_edge :: "nat \<Rightarrow> nat \<Rightarrow> edges \<Rightarrow> task list \<Rightarrow> (edges \<times> task list) result" where
  "add_edge owner dep seen tasks =
     (if dep \<noteq> owner \<and> (owner, dep) \<notin> seen
      then andthen (expect (get_index tasks owner)) (\<lambda>t.
             Inr (insert (owner, dep) seen, tasks[owner := t\<lparr>t_deps := t_deps t @ [dep]\<rparr>]))
      else Inr (seen, tasks))"

fun add_deps ::
    "store \<Rightarrow> (u32 \<rightharpoonup> nat) \<Rightarrow> nat \<Rightarrow> u32 list \<Rightarrow> edges \<Rightarrow> task list \<Rightarrow> (edges \<times> task list) result" where
  "add_deps st m owner [] seen tasks = Inr (seen, tasks)"
| "add_deps st m owner (dep # deps) seen tasks =
     (case m dep of
        None \<Rightarrow> missing st dep
      | Some dep_task \<Rightarrow>
          andthen (add_edge owner dep_task seen tasks) (\<lambda>(seen, tasks). add_deps st m owner deps seen tasks))"

fun add_edges ::
    "store \<Rightarrow> checked_constants \<Rightarrow> (u32 \<rightharpoonup> nat) \<Rightarrow> u32 list \<Rightarrow> edges \<Rightarrow> task list \<Rightarrow> (edges \<times> task list) result" where
  "add_edges st table m [] seen tasks = Inr (seen, tasks)"
| "add_edges st table m (n # ns) seen tasks =
     andthen (expect (get_decoded table n)) (\<lambda>ci.
     andthen (expect (m n)) (\<lambda>owner.
     andthen (used_constants st None ci) (\<lambda>deps.
     andthen (add_deps st m owner deps seen tasks) (\<lambda>(seen, tasks). add_edges st table m ns seen tasks))))"

text \<open>Pass 2b goes over the tasks by position; only their \<open>deps\<close> change on the way.\<close>

fun quot_edges ::
    "store \<Rightarrow> (u32 \<rightharpoonup> nat) \<Rightarrow> nat list \<Rightarrow> edges \<Rightarrow> task list \<Rightarrow> task list result" where
  "quot_edges st m [] seen tasks = Inr tasks"
| "quot_edges st m (i # js) seen tasks =
     andthen (expect (get_index tasks i)) (\<lambda>t.
       case t_kind t of
         TQuotients _ eq \<Rightarrow>
           (case m eq of
              None \<Rightarrow> missing st eq
            | Some eq_task \<Rightarrow> andthen (add_edge i eq_task seen tasks) (\<lambda>(seen, tasks). quot_edges st m js seen tasks))
       | _ \<Rightarrow> quot_edges st m js seen tasks)"

definition build_graph :: "store \<Rightarrow> checked_constants \<Rightarrow> dep_graph result" where
  "build_graph st table =
     (let all_names = sort (map fst (iter_decoded table)) in
      andthen (make_tasks st table all_names all_names (\<lambda>_. None) []) (\<lambda>(m, tasks).
      andthen (claim_rest st table all_names m tasks) (\<lambda>(m, tasks).
      andthen (add_edges st table m all_names {} tasks) (\<lambda>(seen, tasks).
      andthen (quot_edges st m [0..<length tasks] seen tasks) (\<lambda>tasks.
        Inr \<lparr>g_tasks = tasks, g_name_to_task = m\<rparr>)))))"

section \<open>What the table must have\<close>

text \<open>The name ids that a constant mentions.\<close>

definition info_names :: "constant_info \<Rightarrow> u32 set" where
  "info_names ci =
     (case ci of CInduct v \<Rightarrow> set (iv_all v) \<union> set (iv_ctors v) | CCtor v \<Rightarrow> {ct_induct v} | CRec v \<Rightarrow> set (rv_all v) | _ \<Rightarrow> {})"

text \<open>Every name of the table and every term in it can be decoded.\<close>

definition table_ok_in :: "store \<Rightarrow> checked_constants \<Rightarrow> bool" where
  "table_ok_in st table \<longleftrightarrow> distinct (map fst (decoded table))
     \<and> (\<forall>n ci. get_decoded table n = Some ci \<longrightarrow> decl_terms ci \<subseteq> decodable None st
          \<and> (\<forall>x \<in> insert n (decl_names ci \<union> info_names ci). \<exists>nm. name_at None st (Some x) nm))"

definition missing_errors :: "kernel_error set" where
  "missing_errors = range MissingConstant"

lemma run_missing: "banks_ok H None st \<Longrightarrow> name_at None st (Some n) nm \<Longrightarrow> run missing_errors (missing st n) Q"
  by (simp add: missing_def to_name_ok missing_errors_def)

section \<open>Every name gets a task\<close>

text \<open>The constant \<open>Eq\<close> that a quotient task refers to has that name.\<close>

definition kind_named :: "store \<Rightarrow> task_kind \<Rightarrow> bool" where
  "kind_named st k \<longleftrightarrow> (\<forall>ns eq. k = TQuotients ns eq \<longrightarrow> name_at None st (Some eq) eq_name)"

text \<open>Owners are tasks and every task admits what it owns.\<close>

definition owned :: "store \<Rightarrow> (u32 \<rightharpoonup> nat) \<Rightarrow> task list \<Rightarrow> bool" where
  "owned st m tasks \<longleftrightarrow> (\<forall>n i. m n = Some i \<longrightarrow> i < length tasks \<and> n \<in> set (t_admits (tasks ! i)))
     \<and> (\<forall>i < length tasks. t_id (tasks ! i) = i \<and> t_deps (tasks ! i) = [] \<and> kind_named st (t_kind (tasks ! i)))"

lemma claim_apply: "claim ns i m n = (if n \<in> set ns then Some i else m n)"
  unfolding claim_def by (induction ns arbitrary: m) auto

lemma owned_new:
  assumes "owned st m tasks" and "set claimed \<subseteq> set (t_admits t)" and "t_id t = length tasks" and "t_deps t = []"
    and "kind_named st (t_kind t)"
  shows "owned st (claim claimed (length tasks) m) (tasks @ [t])"
proof -
  have old: "i < length tasks \<and> n \<in> set (t_admits (tasks ! i))" if "m n = Some i" for n i
    using assms(1) that by (simp add: owned_def)
  have new: "t_id (tasks ! i) = i \<and> t_deps (tasks ! i) = [] \<and> kind_named st (t_kind (tasks ! i))" if "i < length tasks" for i
    using assms(1) that by (simp add: owned_def)
  have "i < length (tasks @ [t]) \<and> n \<in> set (t_admits ((tasks @ [t]) ! i))"
    if "claim claimed (length tasks) m n = Some i" for n i
  proof (cases "n \<in> set claimed")
    case True
    with that have "i = length tasks" by (simp add: claim_apply)
    with True assms(2) show ?thesis by auto
  next
    case False
    with that have "m n = Some i" by (simp add: claim_apply)
    from old [OF this] show ?thesis by (simp add: nth_append)
  qed
  moreover have "t_id ((tasks @ [t]) ! i) = i \<and> t_deps ((tasks @ [t]) ! i) = [] \<and> kind_named st (t_kind ((tasks @ [t]) ! i))"
    if "i < length (tasks @ [t])" for i
    using that assms(3-5) new [of i] by (cases "i = length tasks") (simp_all add: nth_append)
  ultimately show ?thesis unfolding owned_def by blast
qed

lemma block_ctors_ok:
  assumes ok: "banks_ok H None st"
  shows "\<forall>x \<in> set ms. \<exists>nm. name_at None st (Some x) nm \<Longrightarrow> run missing_errors (block_ctors st table ms) (\<lambda>_. True)"
proof (induction ms)
  case (Cons m ms)
  then have miss: "run missing_errors (missing st m) (\<lambda>_. True)" using run_missing [OF ok] by fastforce
  show ?case
  proof (cases "\<exists>v. get_decoded table m = Some (CInduct v)")
    case True
    with Cons show ?thesis by (auto simp: run_andthen)
  next
    case False
    then have "block_ctors st table (m # ms) = missing st m" by (auto split: option.split constant_info.split)
    with miss show ?thesis by simp
  qed
qed simp

lemma find_name_ok:
  assumes ok: "banks_ok H None st"
  shows "\<forall>x \<in> set cs. \<exists>nm. name_at None st (Some x) nm \<Longrightarrow>
    run {} (find_name st target cs) (\<lambda>r. \<forall>c. r = Some c \<longrightarrow> c \<in> set cs \<and> name_at None st (Some c) target)"
proof (induction cs)
  case (Cons c cs)
  then obtain nm where nm: "name_at None st (Some c) nm" by auto
  have "run {} (find_name st target cs) (\<lambda>r. \<forall>c. r = Some c \<longrightarrow> c \<in> set cs \<and> name_at None st (Some c) target)"
    using Cons by simp
  then have "run {} (find_name st target cs) (\<lambda>r. \<forall>x. r = Some x \<longrightarrow> x \<in> set (c # cs) \<and> name_at None st (Some x) target)"
    by (rule run_mono) auto
  with nm to_name_ok [OF ok nm] show ?case by auto
qed simp

text \<open>What \<open>new_task\<close> pushes.\<close>

definition fresh_task :: "store \<Rightarrow> nat \<Rightarrow> (task \<times> u32 list) option \<Rightarrow> bool" where
  "fresh_task st i new \<longleftrightarrow> (\<forall>t claimed. new = Some (t, claimed) \<longrightarrow>
     set claimed \<subseteq> set (t_admits t) \<and> t_id t = i \<and> t_deps t = [] \<and> kind_named st (t_kind t))"

lemma table_names:
  assumes "table_ok_in st table" and "get_decoded table n = Some ci"
  shows "\<exists>nm. name_at None st (Some n) nm" and "x \<in> decl_names ci \<union> info_names ci \<Longrightarrow> \<exists>nm. name_at None st (Some x) nm"
  using assms unfolding table_ok_in_def by blast+

lemma new_task_ok:
  assumes ok: "banks_ok H None st" and table: "table_ok_in st table" and all: "set all_names \<subseteq> dom (get_decoded table)"
    and n: "get_decoded table n = Some ci"
  shows "run missing_errors (new_task st table all_names n i) (fresh_task st i)"
proof -
  have all': "\<forall>x \<in> set all_names. \<exists>nm. name_at None st (Some x) nm"
    using all table_names(1) [OF table] by blast
  show ?thesis
  proof (cases ci)
    case (CInduct iv)
    have "\<forall>x \<in> set (iv_all iv). \<exists>nm. name_at None st (Some x) nm"
      using table_names(2) [OF table n] CInduct by (auto simp: info_names_def)
    from block_ctors_ok [OF ok this] n CInduct show ?thesis
      by (auto simp: new_task_def run_andthen fresh_task_def kind_named_def elim!: run_mono)
  next
    case (CQuot v)
    have "run missing_errors (case found of None \<Rightarrow> Inl (MissingConstant eq_name) | Some eq \<Rightarrow>
        let quot_names = filter (is_quot table) all_names in
        Inr (Some (\<lparr>t_id = i, t_kind = TQuotients quot_names eq, t_admits = quot_names, t_deps = []\<rparr>, quot_names))) (fresh_task st i)"
      if "\<forall>c. found = Some c \<longrightarrow> c \<in> set all_names \<and> name_at None st (Some c) eq_name" for found
      using that by (auto simp: missing_errors_def fresh_task_def kind_named_def Let_def split: option.split)
    then have "run missing_errors (andthen (find_name st eq_name all_names) (\<lambda>found. case found of
          None \<Rightarrow> Inl (MissingConstant eq_name)
        | Some eq \<Rightarrow> let quot_names = filter (is_quot table) all_names in
            Inr (Some (\<lparr>t_id = i, t_kind = TQuotients quot_names eq, t_admits = quot_names, t_deps = []\<rparr>, quot_names)))) (fresh_task st i)"
      unfolding run_andthen by (intro run_mono [OF find_name_ok [OF ok all']]) simp_all
    with n CQuot show ?thesis by (simp add: new_task_def)
  qed (use n in \<open>simp_all add: new_task_def fresh_task_def kind_named_def\<close>)
qed

lemma make_tasks_ok:
  assumes ok: "banks_ok H None st" and table: "table_ok_in st table" and all: "set all_names \<subseteq> dom (get_decoded table)"
  shows "set ns \<subseteq> dom (get_decoded table) \<Longrightarrow> owned st m tasks \<Longrightarrow>
    run missing_errors (make_tasks st table all_names ns m tasks) (\<lambda>(m, tasks). owned st m tasks)"
proof (induction ns arbitrary: m tasks)
  case (Cons n ns)
  show ?case
  proof (cases "m n")
    case None
    from Cons.prems(1) obtain ci where ci: "get_decoded table n = Some ci" by auto
    show ?thesis
    proof (cases "new_task st table all_names n (length tasks)")
      case (Inl e)
      with new_task_ok [OF ok table all ci, of "length tasks"] None show ?thesis by simp
    next
      case (Inr new)
      with new_task_ok [OF ok table all ci, of "length tasks"] have "fresh_task st (length tasks) new" by simp
      with Cons None Inr show ?thesis
        by (auto simp: fresh_task_def owned_new split: option.split)
    qed
  qed (use Cons in simp)
qed simp

section \<open>Every name of the table is claimed in the end\<close>

text \<open>\<open>covered\<close>: the owners of the names so far, with the task admitting each.\<close>

lemma owned_claim:
  assumes "owned st m tasks" and "block < length tasks"
  shows "owned st (m(n \<mapsto> block)) (tasks[block := (tasks ! block)\<lparr>t_admits := t_admits (tasks ! block) @ [n]\<rparr>])"
  using assms by (auto simp: owned_def nth_list_update split: if_splits)

lemma resolve_block_ok:
  assumes ok: "banks_ok H None st" and table: "table_ok_in st table" and n: "get_decoded table n = Some ci"
    and owned: "owned st m tasks"
  shows "run missing_errors (resolve_block st m n ci) (\<lambda>block. block < length tasks)"
proof -
  have miss: "run missing_errors (missing st x) (\<lambda>block. block < length tasks)" if "x = n \<or> x \<in> info_names ci" for x
    using that table_names [OF table n] run_missing [OF ok] by blast
  have known: "i < length tasks" if "m x = Some i" for x i using owned that by (simp add: owned_def)
  show ?thesis
    using miss known
    by (auto simp: resolve_block_def info_names_def split: constant_info.split option.split list.split)
qed

lemma claim_rest_ok:
  assumes ok: "banks_ok H None st" and table: "table_ok_in st table"
  shows "set ns \<subseteq> dom (get_decoded table) \<Longrightarrow> owned st m tasks \<Longrightarrow>
    run missing_errors (claim_rest st table ns m tasks)
      (\<lambda>(m', tasks'). owned st m' tasks' \<and> set ns \<subseteq> dom m' \<and> dom m \<subseteq> dom m')"
proof (induction ns arbitrary: m tasks)
  case (Cons n ns)
  let ?Q = "\<lambda>(m', tasks'). owned st m' tasks' \<and> set (n # ns) \<subseteq> dom m' \<and> dom m \<subseteq> dom m'"
  have sub: "set ns \<subseteq> dom (get_decoded table)" using Cons.prems(1) by simp
  show ?case
  proof (cases "m n")
    case None
    from Cons.prems(1) obtain ci where ci: "get_decoded table n = Some ci" by auto
    have rest: "run missing_errors (andthen (expect (get_index tasks block)) (\<lambda>t.
        claim_rest st table ns (m(n \<mapsto> block)) (tasks[block := t\<lparr>t_admits := t_admits t @ [n]\<rparr>]))) ?Q"
      if "block < length tasks" for block
    proof -
      have "run missing_errors (claim_rest st table ns (m(n \<mapsto> block))
          (tasks[block := (tasks ! block)\<lparr>t_admits := t_admits (tasks ! block) @ [n]\<rparr>])) ?Q"
      proof (rule run_mono [OF Cons.IH [OF sub owned_claim [OF Cons.prems(2) that]]])
        fix x assume "case x of (m', tasks') \<Rightarrow> owned st m' tasks' \<and> set ns \<subseteq> dom m' \<and> dom (m(n \<mapsto> block)) \<subseteq> dom m'"
        moreover have "dom (m(n \<mapsto> block)) = insert n (dom m)" by simp
        ultimately show "?Q x" by (cases x) (simp only: prod.case, auto)
      qed simp
      with that show ?thesis by simp
    qed
    have "run missing_errors (andthen (resolve_block st m n ci) (\<lambda>block. andthen (expect (get_index tasks block)) (\<lambda>t.
        claim_rest st table ns (m(n \<mapsto> block)) (tasks[block := t\<lparr>t_admits := t_admits t @ [n]\<rparr>])))) ?Q"
      unfolding run_andthen [of _ "resolve_block st m n ci"]
      by (rule run_mono [OF resolve_block_ok [OF ok table ci Cons.prems(2)]]) (use rest in auto)
    with None ci show ?thesis by simp
  next
    case (Some i)
    with Cons.IH [OF sub Cons.prems(2)] show ?thesis by (auto elim!: run_mono)
  qed
qed simp

section \<open>Edges\<close>

text \<open>The edges seen are exactly the dependencies, each once; nothing else of a task changes.\<close>

definition edged :: "task list \<Rightarrow> edges \<Rightarrow> task list \<Rightarrow> bool" where
  "edged tasks0 seen tasks \<longleftrightarrow> length tasks = length tasks0
     \<and> (\<forall>i < length tasks. t_id (tasks ! i) = t_id (tasks0 ! i) \<and> t_kind (tasks ! i) = t_kind (tasks0 ! i)
          \<and> t_admits (tasks ! i) = t_admits (tasks0 ! i)
          \<and> distinct (t_deps (tasks ! i)) \<and> set (t_deps (tasks ! i)) = {d. (i, d) \<in> seen})
     \<and> (\<forall>(i, d) \<in> seen. i < length tasks \<and> d < length tasks \<and> i \<noteq> d)"

lemma edged_start: "(\<And>i. i < length tasks \<Longrightarrow> t_deps (tasks ! i) = []) \<Longrightarrow> edged tasks {} tasks"
  by (simp add: edged_def)

lemma add_edge_ok:
  assumes e: "edged tasks0 seen tasks" and "owner < length tasks0" and "dep < length tasks0"
  shows "run {} (add_edge owner dep seen tasks)
    (\<lambda>(seen', tasks'). edged tasks0 seen' tasks' \<and> seen \<subseteq> seen' \<and> (dep = owner \<or> (owner, dep) \<in> seen'))"
proof (cases "dep \<noteq> owner \<and> (owner, dep) \<notin> seen")
  case True
  let ?tasks = "tasks[owner := (tasks ! owner)\<lparr>t_deps := t_deps (tasks ! owner) @ [dep]\<rparr>]"
  have "edged tasks0 (insert (owner, dep) seen) ?tasks"
    using e assms(2,3) True unfolding edged_def by (auto simp: nth_list_update split: if_splits)
  moreover have "owner < length tasks" using e assms(2) by (simp add: edged_def)
  ultimately show ?thesis using True by (auto simp: add_edge_def)
qed (use e in \<open>auto simp: add_edge_def\<close>)

text \<open>The dependencies that the tasks must have, for the constants read so far.\<close>

definition linked :: "(u32 \<rightharpoonup> nat) \<Rightarrow> edges \<Rightarrow> nat \<Rightarrow> u32 set \<Rightarrow> bool" where
  "linked m seen owner D \<longleftrightarrow> (\<forall>d \<in> D. \<exists>j. m d = Some j \<and> (j = owner \<or> (owner, j) \<in> seen))"

lemma linked_mono: "linked m seen owner D \<Longrightarrow> seen \<subseteq> seen' \<Longrightarrow> linked m seen' owner D"
  unfolding linked_def by blast

lemma add_deps_ok:
  assumes ok: "banks_ok H None st" and range: "\<And>x i. m x = Some i \<Longrightarrow> i < length tasks0" and owner: "owner < length tasks0"
  shows "edged tasks0 seen tasks \<Longrightarrow> \<forall>x \<in> set deps. \<exists>nm. name_at None st (Some x) nm \<Longrightarrow>
    run missing_errors (add_deps st m owner deps seen tasks)
      (\<lambda>(seen', tasks'). edged tasks0 seen' tasks' \<and> seen \<subseteq> seen' \<and> linked m seen' owner (set deps))"
proof (induction deps arbitrary: seen tasks)
  case Nil
  then show ?case by (simp add: linked_def)
next
  case (Cons dep deps)
  let ?Q = "\<lambda>(seen', tasks'). edged tasks0 seen' tasks' \<and> seen \<subseteq> seen' \<and> linked m seen' owner (set (dep # deps))"
  show ?case
  proof (cases "m dep")
    case None
    with Cons.prems(2) run_missing [OF ok] show ?thesis by fastforce
  next
    case (Some j)
    obtain seen1 tasks1 where 1: "add_edge owner j seen tasks = Inr (seen1, tasks1)" "edged tasks0 seen1 tasks1"
      "seen \<subseteq> seen1" "j = owner \<or> (owner, j) \<in> seen1"
      using add_edge_ok [OF Cons.prems(1) owner range [OF Some]] by (auto simp: run_def split: sum.splits)
    have "run missing_errors (add_deps st m owner deps seen1 tasks1) ?Q"
      by (rule run_mono [OF Cons.IH [OF 1(2)]]) (use Cons.prems(2) Some 1(3,4) in \<open>auto simp: linked_def\<close>)
    with Some 1(1) show ?thesis by simp
  qed
qed

text \<open>The names that \<open>used_constants\<close> returns can be decoded.\<close>

lemma used_names:
  assumes ok: "banks_ok H None st" and table: "table_ok_in st table" and n: "get_decoded table n = Some ci"
  shows "run {} (used_constants st None ci) (\<lambda>ns. \<forall>x \<in> set ns. \<exists>nm. name_at None st (Some x) nm)"
proof -
  have dec: "decl_terms ci \<subseteq> decodable None st" using table n by (simp add: table_ok_in_def)
  have "\<exists>nm. name_at None st (Some x) nm" if "x \<in> const_names None st (reached None st (decl_terms ci))" for x
  proof -
    from that obtain i where i: "i \<in> decl_terms ci" "x \<in> const_names None st (reached None st {i})"
      by (auto simp: const_names_reached_Union [of None st "decl_terms ci"])
    from i(1) dec obtain t where "expr_at None st i t" by (auto simp: decodable_def)
    from reached_tree [OF ok this] i(2) show ?thesis by auto
  qed
  with table_names(2) [OF table n] show ?thesis
    by (intro run_mono [OF used_constants_ids [OF ok dec]]) auto
qed

definition all_linked :: "store \<Rightarrow> checked_constants \<Rightarrow> (u32 \<rightharpoonup> nat) \<Rightarrow> edges \<Rightarrow> u32 set \<Rightarrow> bool" where
  "all_linked st table m seen N \<longleftrightarrow> (\<forall>n \<in> N. \<exists>ci owner deps. get_decoded table n = Some ci \<and> m n = Some owner
     \<and> used_constants st None ci = Inr deps \<and> linked m seen owner (set deps))"

lemma add_edges_ok:
  assumes ok: "banks_ok H None st" and table: "table_ok_in st table" and range: "\<And>x i. m x = Some i \<Longrightarrow> i < length tasks0"
  shows "set ns \<subseteq> dom (get_decoded table) \<Longrightarrow> set ns \<subseteq> dom m \<Longrightarrow> edged tasks0 seen tasks \<Longrightarrow>
    run missing_errors (add_edges st table m ns seen tasks)
      (\<lambda>(seen', tasks'). edged tasks0 seen' tasks' \<and> seen \<subseteq> seen' \<and> all_linked st table m seen' (set ns))"
proof (induction ns arbitrary: seen tasks)
  case Nil
  then show ?case by (simp add: all_linked_def)
next
  case (Cons n ns)
  let ?Q = "\<lambda>(seen', tasks'). edged tasks0 seen' tasks' \<and> seen \<subseteq> seen' \<and> all_linked st table m seen' (set (n # ns))"
  from Cons.prems(1,2) obtain ci owner where ci: "get_decoded table n = Some ci" "m n = Some owner" by auto
  obtain deps where deps: "used_constants st None ci = Inr deps" "\<forall>x \<in> set deps. \<exists>nm. name_at None st (Some x) nm"
    using used_names [OF ok table ci(1)] by (auto simp: run_def split: sum.splits)
  have "run missing_errors (andthen (add_deps st m owner deps seen tasks)
      (\<lambda>(seen, tasks). add_edges st table m ns seen tasks)) ?Q"
    unfolding run_andthen
  proof (rule run_mono [OF add_deps_ok [OF ok range range [OF ci(2)] Cons.prems(3) deps(2)]])
    fix x assume "case x of (seen', tasks') \<Rightarrow> edged tasks0 seen' tasks' \<and> seen \<subseteq> seen' \<and> linked m seen' owner (set deps)"
    then obtain seen1 tasks1 where x: "x = (seen1, tasks1)" and
      1: "edged tasks0 seen1 tasks1" "seen \<subseteq> seen1" "linked m seen1 owner (set deps)" by (cases x) auto
    have "run missing_errors (add_edges st table m ns seen1 tasks1) ?Q"
      using Cons.prems(1,2) 1 ci deps(1)
      by (intro run_mono [OF Cons.IH [OF _ _ 1(1)]]) (auto simp: all_linked_def dest: linked_mono)
    with x show "run missing_errors (case x of (seen, tasks) \<Rightarrow> add_edges st table m ns seen tasks) ?Q" by simp
  qed simp_all
  with ci deps(1) show ?case by simp
qed

definition quots_linked :: "(u32 \<rightharpoonup> nat) \<Rightarrow> edges \<Rightarrow> task list \<Rightarrow> nat set \<Rightarrow> bool" where
  "quots_linked m seen tasks I \<longleftrightarrow> (\<forall>i \<in> I. \<forall>ns eq. t_kind (tasks ! i) = TQuotients ns eq \<longrightarrow>
     (\<exists>j. m eq = Some j \<and> (j = i \<or> (i, j) \<in> seen)))"

lemma quot_edges_ok:
  assumes ok: "banks_ok H None st" and range: "\<And>x i. m x = Some i \<Longrightarrow> i < length tasks0"
    and eqs: "\<And>i ns eq. i < length tasks0 \<Longrightarrow> t_kind (tasks0 ! i) = TQuotients ns eq \<Longrightarrow> \<exists>nm. name_at None st (Some eq) nm"
  shows "set js \<subseteq> {..<length tasks0} \<Longrightarrow> edged tasks0 seen tasks \<Longrightarrow>
    run missing_errors (quot_edges st m js seen tasks)
      (\<lambda>tasks'. \<exists>seen'. edged tasks0 seen' tasks' \<and> seen \<subseteq> seen' \<and> quots_linked m seen' tasks0 (set js))"
proof (induction js arbitrary: seen tasks)
  case Nil
  then show ?case by (auto simp: quots_linked_def)
next
  case (Cons i js)
  let ?Q = "\<lambda>tasks'. \<exists>seen'. edged tasks0 seen' tasks' \<and> seen \<subseteq> seen' \<and> quots_linked m seen' tasks0 (set (i # js))"
  from Cons.prems have i: "i < length tasks" "i < length tasks0" "t_kind (tasks ! i) = t_kind (tasks0 ! i)"
    by (auto simp: edged_def)
  have js: "set js \<subseteq> {..<length tasks0}" using Cons.prems(1) by simp
  show ?case
  proof (cases "\<exists>ns eq. t_kind (tasks0 ! i) = TQuotients ns eq")
    case True
    then obtain ns eq where k: "t_kind (tasks0 ! i) = TQuotients ns eq" by blast
    show ?thesis
    proof (cases "m eq")
      case None
      with i k eqs [OF i(2) k] run_missing [OF ok] show ?thesis by auto
    next
      case (Some j)
      obtain seen1 tasks1 where 1: "add_edge i j seen tasks = Inr (seen1, tasks1)" "edged tasks0 seen1 tasks1"
        "seen \<subseteq> seen1" "j = i \<or> (i, j) \<in> seen1"
        using add_edge_ok [OF Cons.prems(2) i(2) range [OF Some]] by (auto simp: run_def split: sum.splits)
      have "run missing_errors (quot_edges st m js seen1 tasks1) ?Q"
      proof (rule run_mono [OF Cons.IH [OF js 1(2)]], elim exE conjE)
        fix x seen' assume "edged tasks0 seen' x" "seen1 \<subseteq> seen'" "quots_linked m seen' tasks0 (set js)"
        with 1(3,4) k Some show "?Q x" by (intro exI [of _ seen']) (auto simp: quots_linked_def)
      qed simp
      with i k Some 1(1) show ?thesis by simp
    qed
  next
    case False
    then have "quot_edges st m (i # js) seen tasks = quot_edges st m js seen tasks"
      using i by (auto split: task_kind.split)
    moreover have "run missing_errors (quot_edges st m js seen tasks) ?Q"
      by (rule run_mono [OF Cons.IH [OF js Cons.prems(2)]]) (use False in \<open>auto simp: quots_linked_def\<close>)
    ultimately show ?thesis by simp
  qed
qed

section \<open>The graph\<close>

text \<open>
  What the scheduler relies on: every constant of the table has a task that admits it, the
  dependencies of a task are other tasks, each once, and for every constant that a declaration
  uses the task is the same or a dependency; a task of quotient constants depends on that of \<open>Eq\<close>.
\<close>

definition graph_ok :: "store \<Rightarrow> checked_constants \<Rightarrow> dep_graph \<Rightarrow> bool" where
  "graph_ok st table g \<longleftrightarrow>
     (\<forall>n \<in> dom (get_decoded table). \<exists>i < length (g_tasks g). g_name_to_task g n = Some i \<and> n \<in> set (t_admits (g_tasks g ! i)))
   \<and> (\<forall>i < length (g_tasks g). t_id (g_tasks g ! i) = i \<and> distinct (t_deps (g_tasks g ! i))
        \<and> set (t_deps (g_tasks g ! i)) \<subseteq> {..<length (g_tasks g)} - {i})
   \<and> (\<forall>n ci. get_decoded table n = Some ci \<longrightarrow> (\<exists>i deps. g_name_to_task g n = Some i \<and> used_constants st None ci = Inr deps
        \<and> (\<forall>d \<in> set deps. \<exists>j. g_name_to_task g d = Some j \<and> (j = i \<or> j \<in> set (t_deps (g_tasks g ! i))))))
   \<and> (\<forall>i < length (g_tasks g). \<forall>ns eq. t_kind (g_tasks g ! i) = TQuotients ns eq \<longrightarrow>
        (\<exists>j. g_name_to_task g eq = Some j \<and> (j = i \<or> j \<in> set (t_deps (g_tasks g ! i)))))"

lemma build_graph_ok:
  assumes ok: "banks_ok H None st" and table: "table_ok_in st table"
  shows "run missing_errors (build_graph st table) (graph_ok st table)"
proof -
  define ns where "ns = sort (map fst (iter_decoded table))"
  have ns: "set ns = dom (get_decoded table)"
    unfolding ns_def iter_decoded_def get_decoded_def [abs_def] by (simp add: dom_map_of_conv_image_fst)
  have start: "owned st (\<lambda>_. None) []" by (simp add: owned_def)
  have graph: "graph_ok st table \<lparr>g_tasks = tasks, g_name_to_task = m\<rparr>"
    if "owned st m tasks0" "set ns \<subseteq> dom m" "edged tasks0 seen tasks" "all_linked st table m seen (set ns)"
      "quots_linked m seen tasks0 {..<length tasks0}" for m tasks0 seen tasks
  proof -
    have e: "length tasks = length tasks0" "\<And>i. i < length tasks \<Longrightarrow> t_id (tasks ! i) = t_id (tasks0 ! i)
        \<and> t_kind (tasks ! i) = t_kind (tasks0 ! i) \<and> t_admits (tasks ! i) = t_admits (tasks0 ! i)
        \<and> distinct (t_deps (tasks ! i)) \<and> set (t_deps (tasks ! i)) = {d. (i, d) \<in> seen}"
      "\<And>i d. (i, d) \<in> seen \<Longrightarrow> i < length tasks \<and> d < length tasks \<and> i \<noteq> d"
      using that(3) unfolding edged_def by auto
    have o: "\<And>n i. m n = Some i \<Longrightarrow> i < length tasks \<and> n \<in> set (t_admits (tasks ! i))"
      "\<And>i. i < length tasks \<Longrightarrow> t_id (tasks ! i) = i"
      using that(1) e(1,2) unfolding owned_def by auto
    show ?thesis
      unfolding graph_ok_def dep_graph.simps
    proof (intro conjI ballI allI impI)
      fix n assume "n \<in> dom (get_decoded table)"
      with that(2) ns obtain i where "m n = Some i" by blast
      with o(1) show "\<exists>i<length tasks. m n = Some i \<and> n \<in> set (t_admits (tasks ! i))" by blast
    next
      fix n ci assume n: "get_decoded table n = Some ci"
      with that(4) ns obtain i deps where i: "m n = Some i" "used_constants st None ci = Inr deps" "linked m seen i (set deps)"
        unfolding all_linked_def by fastforce
      with o(1) e(2) show "\<exists>i deps. m n = Some i \<and> used_constants st None ci = Inr deps
          \<and> (\<forall>d \<in> set deps. \<exists>j. m d = Some j \<and> (j = i \<or> j \<in> set (t_deps (tasks ! i))))"
        unfolding linked_def by blast
    next
      fix i qs eq assume i: "i < length tasks" "t_kind (tasks ! i) = TQuotients qs eq"
      with that(5) e(1,2) show "\<exists>j. m eq = Some j \<and> (j = i \<or> j \<in> set (t_deps (tasks ! i)))"
        unfolding quots_linked_def by force
    qed (use e o in auto)
  qed
  have edges: "run missing_errors (andthen (add_edges st table m ns {} tasks0) (\<lambda>(seen, tasks).
      andthen (quot_edges st m [0..<length tasks] seen tasks) (\<lambda>tasks. Inr \<lparr>g_tasks = tasks, g_name_to_task = m\<rparr>)))
      (graph_ok st table)" if 1: "owned st m tasks0" "set ns \<subseteq> dom m" for m tasks0
  proof -
    have range: "\<And>x i. m x = Some i \<Longrightarrow> i < length tasks0"
      and eqs: "\<And>i ns eq. i < length tasks0 \<Longrightarrow> t_kind (tasks0 ! i) = TQuotients ns eq \<Longrightarrow> \<exists>nm. name_at None st (Some eq) nm"
      using 1(1) unfolding owned_def kind_named_def by blast+
    have e0: "edged tasks0 {} tasks0" using 1(1) by (intro edged_start) (simp add: owned_def)
    have sub: "set ns \<subseteq> dom (get_decoded table)" using ns by simp
    have "run missing_errors (add_edges st table m ns {} tasks0)
        (\<lambda>(seen', tasks'). edged tasks0 seen' tasks' \<and> {} \<subseteq> seen' \<and> all_linked st table m seen' (set ns))"
      by (rule add_edges_ok [OF ok table _ sub 1(2) e0]) (rule range)
    then show ?thesis
      unfolding run_andthen
    proof (rule run_mono)
      fix x assume "case x of (seen', tasks') \<Rightarrow> edged tasks0 seen' tasks' \<and> {} \<subseteq> seen' \<and> all_linked st table m seen' (set ns)"
      then obtain seen tasks where x: "x = (seen, tasks)" "edged tasks0 seen tasks" "all_linked st table m seen (set ns)"
        by (cases x) auto
      have len: "length tasks = length tasks0" using x(2) by (simp add: edged_def)
      have "run missing_errors (quot_edges st m [0..<length tasks] seen tasks)
          (\<lambda>tasks'. graph_ok st table \<lparr>g_tasks = tasks', g_name_to_task = m\<rparr>)"
      proof (rule run_mono [OF quot_edges_ok [OF ok range eqs _ x(2)]])
        fix tasks'
        assume "\<exists>seen'. edged tasks0 seen' tasks' \<and> seen \<subseteq> seen' \<and> quots_linked m seen' tasks0 (set [0..<length tasks])"
        then obtain seen' where 2: "edged tasks0 seen' tasks'" "seen \<subseteq> seen'" "quots_linked m seen' tasks0 {..<length tasks0}"
          by (auto simp: len lessThan_atLeast0)
        have "all_linked st table m seen' (set ns)"
          using x(3) linked_mono [OF _ 2(2)] unfolding all_linked_def by blast
        from graph [OF 1 2(1) this 2(3)] show "graph_ok st table \<lparr>g_tasks = tasks', g_name_to_task = m\<rparr>" .
      qed (auto simp: len)
      with x(1) show "run missing_errors (case x of (seen, tasks) \<Rightarrow>
          andthen (quot_edges st m [0..<length tasks] seen tasks) (\<lambda>tasks. Inr \<lparr>g_tasks = tasks, g_name_to_task = m\<rparr>))
          (graph_ok st table)" by (simp add: run_andthen)
    qed simp
  qed
  show ?thesis
    unfolding build_graph_def Let_def ns_def [symmetric] run_andthen [of _ "make_tasks st table ns ns (\<lambda>_. None) []"]
  proof (rule run_mono [OF make_tasks_ok [OF ok table _ _ start]])
    fix x assume "case x of (m, tasks) \<Rightarrow> owned st m tasks"
    then obtain m tasks where x: "x = (m, tasks)" "owned st m tasks" by (cases x) auto
    have "run missing_errors (andthen (claim_rest st table ns m tasks) (\<lambda>(m, tasks).
        andthen (add_edges st table m ns {} tasks) (\<lambda>(seen, tasks).
        andthen (quot_edges st m [0..<length tasks] seen tasks) (\<lambda>tasks. Inr \<lparr>g_tasks = tasks, g_name_to_task = m\<rparr>))))
        (graph_ok st table)"
      unfolding run_andthen [of _ "claim_rest st table ns m tasks"]
      by (rule run_mono [OF claim_rest_ok [OF ok table _ x(2)]]) (use ns edges in auto)
    with x(1) show "run missing_errors (case x of (m, tasks) \<Rightarrow> andthen (claim_rest st table ns m tasks) (\<lambda>(m, tasks).
        andthen (add_edges st table m ns {} tasks) (\<lambda>(seen, tasks).
        andthen (quot_edges st m [0..<length tasks] seen tasks) (\<lambda>tasks. Inr \<lparr>g_tasks = tasks, g_name_to_task = m\<rparr>))))
        (graph_ok st table)" by simp
  qed (use ns in simp_all)
qed

end
