(* ===== verification/Schedule.thy ===== *)
theory Schedule
  imports Check_Graph
begin

text \<open>
  The worker pool of the parallel checker (\<open>crates/leanr_check/src/schedule.rs\<close>) as a step relation:
  one step is one worker's critical section of the mutex \<open>ready\<close> or one operation on an atomic, and
  any worker may move next. The verdict of a kernel check is an input of the step, so that what is
  proved holds for every kernel. \<open>s_passed\<close> and \<open>s_aborted\<close> are history variables that no step reads.
\<close>

section \<open>State\<close>

record check_failure =
  f_decl :: u32
  f_error :: kernel_error

record check_stats =
  n_checked :: nat
  n_skipped_unsafe :: nat

text \<open>What \<open>run_task\<close> answers: the resolved names of the survivors (none for a simple task), or the failure.\<close>

datatype verdict = Passed "u32 list" | Failed check_failure

text \<open>
  Where a worker is: at the lock, in \<open>cv.wait\<close>, in \<open>run_task\<close> before its verdict, at the \<open>admit\<close> calls
  that are left, at the tally, at the dependents that are left with those that became ready, at the three
  actions after a failure, gone; \<open>Panicked\<close> is an index out of range.
\<close>

datatype pc =
    Acquire
  | Asleep
  | Running nat
  | Admitting nat "u32 list"
  | Tallying nat
  | Releasing nat "nat list" "nat list"
  | Failing nat check_failure
  | Cancelling nat
  | Leaving nat
  | Exited
  | Panicked

record sched =
  s_queue :: "nat list"
  s_in_flight :: nat
  s_done :: nat
  s_pending :: "nat list"
  s_cancelled :: bool
  s_failure :: "check_failure option"
  s_checked :: nat
  s_quot :: bool
  s_table :: checked_constants
  s_workers :: "pc list"
  s_passed :: "nat list"
  s_aborted :: "nat list"

text \<open>Subtraction of one from a \<open>usize\<close>, with the wrap-around of \<open>fetch_sub\<close>.\<close>

definition usize_dec :: "nat \<Rightarrow> nat" where
  "usize_dec p = (if p = 0 then 2 ^ 64 - 1 else p - 1)"

section \<open>Steps of a worker\<close>

definition set_pc :: "nat \<Rightarrow> pc \<Rightarrow> sched \<Rightarrow> sched" where
  "set_pc w p s = s\<lparr>s_workers := (s_workers s)[w := p]\<rparr>"

definition notify_all :: "sched \<Rightarrow> sched" where
  "notify_all s = s\<lparr>s_workers := map (\<lambda>p. if p = Asleep then Acquire else p) (s_workers s)\<rparr>"

definition acquire :: "nat \<Rightarrow> sched \<Rightarrow> sched" where
  "acquire w s =
     (if s_cancelled s then set_pc w Exited s
      else
        (case s_queue s of
           t # q \<Rightarrow> set_pc w (Running t) (s\<lparr>s_queue := q, s_in_flight := s_in_flight s + 1\<rparr>)
         | [] \<Rightarrow>
             if s_in_flight s = 0 then set_pc w Exited (notify_all s)
             else set_pc w Asleep s))"

text \<open>The names that a task admits when its check has passed, in the order of the code.\<close>

definition admitted_names :: "task_kind \<Rightarrow> u32 list \<Rightarrow> u32 list" where
  "admitted_names k survivors =
     (case k of
        TSimple n \<Rightarrow> [n]
      | TBlock members ctors \<Rightarrow> if members = [] then [] else members @ ctors @ survivors
      | TQuotients ns _ \<Rightarrow> if ns = [] then [] else ns @ survivors)"

definition sets_quot :: "task_kind \<Rightarrow> bool" where
  "sets_quot k = (case k of TQuotients ns _ \<Rightarrow> ns \<noteq> [] | _ \<Rightarrow> False)"

definition task_checked_count :: "task_kind \<Rightarrow> nat" where
  "task_checked_count k = (case k of TSimple _ \<Rightarrow> 1 | TBlock _ _ \<Rightarrow> 1 | TQuotients ns _ \<Rightarrow> length ns)"

text \<open>Indexing by the worker: out of range, the worker panics.\<close>

definition with_index :: "'a list \<Rightarrow> nat \<Rightarrow> nat \<Rightarrow> sched \<Rightarrow> ('a \<Rightarrow> sched) \<Rightarrow> sched" where
  "with_index xs i w s f = (case get_index xs i of None \<Rightarrow> set_pc w Panicked s | Some x \<Rightarrow> f x)"

definition worker_step ::
    "task list \<Rightarrow> nat list list \<Rightarrow> verdict \<Rightarrow> nat \<Rightarrow> sched \<Rightarrow> sched option" where
  "worker_step tasks dependents v w s =
     (if length (s_workers s) \<le> w then None
      else
        (case s_workers s ! w of
           Acquire \<Rightarrow> Some (acquire w s)
         | Running t \<Rightarrow>
             Some (with_index tasks t w s (\<lambda>task.
               case v of
                 Passed survivors \<Rightarrow> set_pc w (Admitting t (admitted_names (t_kind task) survivors)) s
               | Failed f \<Rightarrow> set_pc w (Failing t f) s))
         | Admitting t (n # ns) \<Rightarrow> Some (set_pc w (Admitting t ns) (s\<lparr>s_table := cc_admit n (s_table s)\<rparr>))
         | Admitting t [] \<Rightarrow>
             Some (with_index tasks t w s (\<lambda>task.
               set_pc w (Tallying t) (s\<lparr>s_quot := s_quot s \<or> sets_quot (t_kind task)\<rparr>)))
         | Tallying t \<Rightarrow>
             Some (with_index tasks t w s (\<lambda>task. with_index dependents t w s (\<lambda>ds.
               set_pc w (Releasing t ds [])
                 (s\<lparr>s_checked := s_checked s + task_checked_count (t_kind task), s_passed := s_passed s @ [t]\<rparr>))))
         | Releasing t (d # ds) newly \<Rightarrow>
             Some (with_index (s_pending s) d w s (\<lambda>p.
               set_pc w (Releasing t ds (if p = 1 then newly @ [d] else newly))
                 (s\<lparr>s_pending := (s_pending s)[d := usize_dec p]\<rparr>)))
         | Releasing t [] newly \<Rightarrow>
             Some (set_pc w Acquire (notify_all
               (s\<lparr>s_in_flight := usize_dec (s_in_flight s), s_done := s_done s + 1, s_queue := s_queue s @ newly\<rparr>)))
         | Failing t f \<Rightarrow>
             Some (set_pc w (Cancelling t)
               (s\<lparr>s_failure := (case s_failure s of None \<Rightarrow> Some f | Some f0 \<Rightarrow> Some f0)\<rparr>))
         | Cancelling t \<Rightarrow> Some (set_pc w (Leaving t) (s\<lparr>s_cancelled := True\<rparr>))
         | Leaving t \<Rightarrow>
             Some (set_pc w Exited (notify_all
               (s\<lparr>s_in_flight := usize_dec (s_in_flight s), s_aborted := s_aborted s @ [t]\<rparr>)))
         | Asleep \<Rightarrow> None
         | Exited \<Rightarrow> None
         | Panicked \<Rightarrow> None))"

section \<open>The pool\<close>

text \<open>\<open>dependents.get_mut(d)\<close> passes over a dependency out of range.\<close>

definition add_dependent :: "nat \<Rightarrow> nat \<Rightarrow> nat list list \<Rightarrow> nat list list" where
  "add_dependent i d dependents =
     (case get_index dependents d of Some slot \<Rightarrow> dependents[d := slot @ [i]] | None \<Rightarrow> dependents)"

definition dependents_of :: "task list \<Rightarrow> nat list list" where
  "dependents_of tasks =
     fold (\<lambda>(i, t) ds. fold (add_dependent i) (t_deps t) ds) (enumerate 0 tasks) (replicate (length tasks) [])"

definition initial_queue :: "task list \<Rightarrow> nat list" where
  "initial_queue tasks = map fst (filter (\<lambda>(i, t). t_deps t = []) (enumerate 0 tasks))"

definition start_state :: "checked_constants \<Rightarrow> dep_graph \<Rightarrow> nat \<Rightarrow> sched" where
  "start_state table graph jobs =
     \<lparr>s_queue = initial_queue (g_tasks graph), s_in_flight = 0, s_done = 0,
      s_pending = map (\<lambda>t. length (t_deps t)) (g_tasks graph), s_cancelled = False, s_failure = None,
      s_checked = 0, s_quot = False, s_table = table, s_workers = replicate (max jobs 1) Acquire,
      s_passed = [], s_aborted = []\<rparr>"

text \<open>A step of the pool, and a spurious wake-up, which a condition variable allows.\<close>

inductive step :: "dep_graph \<Rightarrow> sched \<Rightarrow> sched \<Rightarrow> bool" for graph where
  work: "worker_step (g_tasks graph) (dependents_of (g_tasks graph)) v w s = Some s' \<Longrightarrow> step graph s s'"

inductive wake :: "sched \<Rightarrow> sched \<Rightarrow> bool" where
  wake: "w < length (s_workers s) \<Longrightarrow> s_workers s ! w = Asleep \<Longrightarrow> wake s (set_pc w Acquire s)"

inductive reachable :: "checked_constants \<Rightarrow> dep_graph \<Rightarrow> nat \<Rightarrow> sched \<Rightarrow> bool" for table graph jobs where
  start: "reachable table graph jobs (start_state table graph jobs)"
| step: "reachable table graph jobs s \<Longrightarrow> step graph s s' \<Longrightarrow> reachable table graph jobs s'"
| wake: "reachable table graph jobs s \<Longrightarrow> wake s s' \<Longrightarrow> reachable table graph jobs s'"

section \<open>After the pool has joined\<close>

definition is_unsafe :: "constant_info \<Rightarrow> bool" where
  "is_unsafe ci =
     (case ci of
        CDefn v \<Rightarrow> df_safety v = Unsafe
      | CAxiom v \<Rightarrow> ax_is_unsafe v
      | COpaque v \<Rightarrow> op_is_unsafe v
      | CInduct v \<Rightarrow> iv_is_unsafe v
      | CCtor v \<Rightarrow> ct_is_unsafe v
      | CRec v \<Rightarrow> rv_is_unsafe v
      | CThm _ \<Rightarrow> False
      | CQuot _ \<Rightarrow> False)"

definition is_partial :: "constant_info \<Rightarrow> bool" where
  "is_partial ci = (case ci of CDefn v \<Rightarrow> df_safety v = Partial | _ \<Rightarrow> False)"

fun stuck_decl :: "task list \<Rightarrow> nat list \<Rightarrow> u32 option" where
  "stuck_decl (t # ts) (p # ps) =
     (if p > 0 then (case t_admits t of n # _ \<Rightarrow> Some n | [] \<Rightarrow> stuck_decl ts ps) else stuck_decl ts ps)"
| "stuck_decl _ _ = None"

definition option_or :: "'a option \<Rightarrow> 'a option \<Rightarrow> 'a option" where
  "option_or a b = (case a of None \<Rightarrow> b | Some x \<Rightarrow> Some x)"

text \<open>\<open>any_key\<close> is the first key that the iteration over \<open>graph.name_to_task\<close> gives, in whatever order.\<close>

definition check_result ::
    "store \<Rightarrow> checked_constants \<Rightarrow> dep_graph \<Rightarrow> u32 option \<Rightarrow> sched \<Rightarrow> (check_failure + check_stats) result" where
  "check_result st table graph any_key s =
     (case s_failure s of
        Some f \<Rightarrow> Inr (Inl f)
      | None \<Rightarrow>
          if s_done s \<noteq> length (g_tasks graph)
          then
            (case option_or (stuck_decl (g_tasks graph) (s_pending s))
                    (option_or any_key (case iter_decoded table of [] \<Rightarrow> None | (n, _) # _ \<Rightarrow> Some n)) of
               Some d \<Rightarrow>
                 andthen (to_name None st (Some d)) (\<lambda>name. Inr (Inl \<lparr>f_decl = d, f_error = DependencyCycle name\<rparr>))
             | None \<Rightarrow>
                 andthen (expect (from_index 0 False)) (\<lambda>d.
                   Inr (Inl \<lparr>f_decl = d, f_error = DependencyCycle Anonymous\<rparr>)))
          else
            Inr (Inr \<lparr>n_checked = s_checked s,
              n_skipped_unsafe = length (filter (\<lambda>(_, ci). is_unsafe ci \<or> is_partial ci) (iter_decoded table))\<rparr>))"

end
