(* ===== verification/Schedule_Invariant.thy ===== *)
theory Schedule_Invariant
  imports Schedule
begin

text \<open>
  The invariant of the worker pool of \<open>schedule.rs\<close>: where every task is, what its counter stands
  for, what the workers hold, and what has been published.
\<close>

section \<open>Sums over the workers\<close>

definition total :: "(pc \<Rightarrow> nat) \<Rightarrow> sched \<Rightarrow> nat" where
  "total f s = sum_list (map f (s_workers s))"

lemma sum_list_update_add: "w < length xs \<Longrightarrow> sum_list (map f (xs[w := p])) + f (xs ! w) = sum_list (map f xs) + (f p :: nat)"
  by (induction xs arbitrary: w) (auto split: nat.split)

lemma total_set_pc: "w < length (s_workers s) \<Longrightarrow> total f (set_pc w p s) + f (s_workers s ! w) = total f s + f p"
  by (simp add: total_def set_pc_def sum_list_update_add)

lemma total_notify: "f Asleep = f Acquire \<Longrightarrow> total f (notify_all s) = total f s"
  by (simp add: total_def notify_all_def) (rule arg_cong [where f = sum_list], simp)

lemma total_ge: "w < length (s_workers s) \<Longrightarrow> f (s_workers s ! w) \<le> total f s"
  unfolding total_def using member_le_sum_list [of "f (s_workers s ! w)" "map f (s_workers s)"] by simp

lemma total_0: "total f s = 0 \<longleftrightarrow> (\<forall>p \<in> set (s_workers s). f p = 0)"
  by (simp add: total_def)

lemma notify_workers [simp]:
  "length (s_workers (notify_all s)) = length (s_workers s)"
  "w < length (s_workers s) \<Longrightarrow> s_workers s ! w \<noteq> Asleep \<Longrightarrow> s_workers (notify_all s) ! w = s_workers s ! w"
  by (simp_all add: notify_all_def)

lemma notify_fields [simp]:
  "s_queue (notify_all s) = s_queue s" "s_in_flight (notify_all s) = s_in_flight s" "s_done (notify_all s) = s_done s"
  "s_pending (notify_all s) = s_pending s" "s_cancelled (notify_all s) = s_cancelled s" "s_failure (notify_all s) = s_failure s"
  "s_checked (notify_all s) = s_checked s" "s_quot (notify_all s) = s_quot s" "s_table (notify_all s) = s_table s"
  "s_passed (notify_all s) = s_passed s" "s_aborted (notify_all s) = s_aborted s"
  by (simp_all add: notify_all_def)

lemma set_pc_fields [simp]:
  "s_queue (set_pc w p s) = s_queue s" "s_in_flight (set_pc w p s) = s_in_flight s" "s_done (set_pc w p s) = s_done s"
  "s_pending (set_pc w p s) = s_pending s" "s_cancelled (set_pc w p s) = s_cancelled s" "s_failure (set_pc w p s) = s_failure s"
  "s_checked (set_pc w p s) = s_checked s" "s_quot (set_pc w p s) = s_quot s" "s_table (set_pc w p s) = s_table s"
  "s_passed (set_pc w p s) = s_passed s" "s_aborted (set_pc w p s) = s_aborted s"
  "s_workers (set_pc w p s) = (s_workers s)[w := p]"
  by (simp_all add: set_pc_def)

section \<open>The tasks as a graph\<close>

definition needs :: "task list \<Rightarrow> nat \<Rightarrow> nat list" where
  "needs tasks i = (if i < length tasks then t_deps (tasks ! i) else [])"

lemma count_add_dependent:
  "length (add_dependent i d ds) = length ds"
  "t < length ds \<Longrightarrow> count_list (add_dependent i d ds ! t) j = count_list (ds ! t) j + (if i = j \<and> d = t then 1 else 0)"
  by (auto simp: add_dependent_def get_index_def nth_list_update count_list_append split: option.splits)

lemma count_add_dependents:
  "length (fold (add_dependent i) xs ds) = length ds
   \<and> (t < length ds \<longrightarrow> count_list (fold (add_dependent i) xs ds ! t) j = count_list (ds ! t) j + (if i = j then count_list xs t else 0))"
  by (induction xs arbitrary: ds) (simp_all add: count_add_dependent)

lemma count_dependents_from:
  fixes ds :: "nat list list"
  defines "f \<equiv> \<lambda>(i, t) ds. fold (add_dependent i) (t_deps t) ds"
  shows "length (fold f (enumerate m ts) ds) = length ds
   \<and> (t < length ds \<longrightarrow> count_list (fold f (enumerate m ts) ds ! t) j
        = count_list (ds ! t) j + (if m \<le> j \<and> j < m + length ts then count_list (t_deps (ts ! (j - m))) t else 0))"
proof (induction ts arbitrary: m ds)
  case (Cons x ts)
  have len: "length (fold (add_dependent m) (t_deps x) ds) = length ds" by (simp add: count_add_dependents)
  have "count_list (fold (add_dependent m) (t_deps x) ds ! t) j = count_list (ds ! t) j + (if m = j then count_list (t_deps x) t else 0)"
    if "t < length ds" using that count_add_dependents by blast
  with Cons [of "Suc m" "fold (add_dependent m) (t_deps x) ds"] len show ?case
    by (auto simp: f_def nth_Cons' Suc_diff_le not_less_eq_eq)
qed simp

lemma dependents_of_ok:
  "length (dependents_of tasks) = length tasks"
  "t < length tasks \<Longrightarrow> count_list (dependents_of tasks ! t) i = count_list (needs tasks i) t"
  using count_dependents_from [of 0 tasks "replicate (length tasks) []" t i]
    count_dependents_from [of 0 tasks "replicate (length tasks) []"]
  by (simp_all add: dependents_of_def needs_def)

lemma count_initial_queue: "count_list (initial_queue tasks) i = (if i < length tasks \<and> t_deps (tasks ! i) = [] then 1 else 0)"
proof -
  have "count_list (map fst (filter (\<lambda>(i, t). t_deps t = []) (enumerate m tasks))) i
      = (if m \<le> i \<and> i < m + length tasks \<and> t_deps (tasks ! (i - m)) = [] then 1 else 0)" for m
  proof (induction tasks arbitrary: m)
    case (Cons x tasks)
    from Cons [of "Suc m"] show ?case by (auto simp: nth_Cons' Suc_diff_le not_less_eq_eq)
  qed simp
  from this [of 0] show ?thesis by (simp add: initial_queue_def)
qed

section \<open>What a worker holds\<close>

fun held :: "nat \<Rightarrow> pc \<Rightarrow> nat" where
  "held i (Running t) = of_bool (t = i)"
| "held i (Admitting t _) = of_bool (t = i)"
| "held i (Tallying t) = of_bool (t = i)"
| "held i (Releasing _ _ newly) = count_list newly i"
| "held i (Failing t _) = of_bool (t = i)"
| "held i (Cancelling t) = of_bool (t = i)"
| "held i (Leaving t) = of_bool (t = i)"
| "held i _ = 0"

text \<open>The counters that a worker has yet to lower.\<close>

fun owed :: "nat \<Rightarrow> pc \<Rightarrow> nat" where
  "owed i (Releasing _ ds _) = count_list ds i"
| "owed i _ = 0"

fun busy :: "pc \<Rightarrow> nat" where
  "busy Acquire = 0" | "busy Asleep = 0" | "busy Exited = 0" | "busy Panicked = 0" | "busy _ = 1"

fun releasing :: "pc \<Rightarrow> nat" where
  "releasing (Releasing _ _ _) = 1" | "releasing _ = 0"

definition places :: "nat \<Rightarrow> sched \<Rightarrow> nat" where
  "places i s = count_list (s_queue s) i + total (held i) s + count_list (s_passed s) i + count_list (s_aborted s) i"

definition counter :: "sched \<Rightarrow> nat \<Rightarrow> nat" where
  "counter s i = (if i < length (s_pending s) then s_pending s ! i else 0)"

definition paid :: "task list \<Rightarrow> sched \<Rightarrow> nat \<Rightarrow> nat" where
  "paid tasks s i = sum_list (map (count_list (needs tasks i)) (s_passed s))"

text \<open>Every task whose counter is 0 is in exactly one place and no other task is anywhere; a counter is
  what the passed dependencies have not lowered yet.\<close>

definition balanced :: "task list \<Rightarrow> sched \<Rightarrow> bool" where
  "balanced tasks s \<longleftrightarrow> length (s_pending s) = length tasks
     \<and> (\<forall>i. places i s = (if i < length tasks \<and> s_pending s ! i = 0 then 1 else 0))
     \<and> (\<forall>i. counter s i + paid tasks s i = length (needs tasks i) + total (owed i) s)"

lemma distinct_count: "distinct xs \<longleftrightarrow> (\<forall>x. count_list xs x \<le> 1)"
proof (induction xs)
  case (Cons y xs)
  have "(\<forall>x. count_list (y # xs) x \<le> 1) \<longleftrightarrow> count_list xs y = 0 \<and> (\<forall>x. count_list xs x \<le> 1)" (is "?l \<longleftrightarrow> ?r")
  proof
    assume l: ?l
    show ?r
    proof (intro conjI allI)
      show "count_list xs y = 0" using l [rule_format, of y] by simp
      show "count_list xs x \<le> 1" for x using l [rule_format, of x] by (simp split: if_splits)
    qed
  next
    assume ?r then show ?l by simp
  qed
  with Cons show ?case by (simp add: count_list_0_iff)
qed simp

lemma count_distinct: "distinct xs \<Longrightarrow> count_list xs x = of_bool (x \<in> set xs)"
  by (induction xs) auto

lemma sum_count_filter: "distinct xs \<Longrightarrow> sum_list (map (count_list ys) xs) = length (filter (\<lambda>y. y \<in> set xs) ys)"
proof (induction ys)
  case (Cons y ys)
  have "sum_list (map (\<lambda>x. of_bool (y = x) + count_list ys x) xs) = count_list xs y + sum_list (map (count_list ys) xs)"
    by (induction xs) (auto simp: of_bool_def)
  moreover have "count_list (y # ys) = (\<lambda>x. of_bool (y = x) + count_list ys x)" by (rule ext) simp
  moreover have "count_list xs y = of_bool (y \<in> set xs)"
    using Cons.prems by (rule count_distinct)
  ultimately show ?case using Cons by simp
qed simp

lemma balancedD:
  assumes "balanced tasks s"
  shows "length (s_pending s) = length tasks" and "places i s = (if i < length tasks \<and> s_pending s ! i = 0 then 1 else 0)"
    and "counter s i + paid tasks s i = length (needs tasks i) + total (owed i) s"
    and "distinct (s_passed s)" and "paid tasks s i \<le> length (needs tasks i)" and "total (owed i) s \<le> counter s i"
    and "paid tasks s i = length (filter (\<lambda>d. d \<in> set (s_passed s)) (needs tasks i))"
proof -
  show 1: "length (s_pending s) = length tasks" "places i s = (if i < length tasks \<and> s_pending s ! i = 0 then 1 else 0)"
    "counter s i + paid tasks s i = length (needs tasks i) + total (owed i) s" for i
    using assms by (auto simp: balanced_def)
  have "count_list (s_passed s) i \<le> 1" for i using 1(2) [of i] by (auto simp: places_def split: if_splits)
  then show d: "distinct (s_passed s)" by (simp add: distinct_count)
  from sum_count_filter [OF d] show p: "paid tasks s i = length (filter (\<lambda>d. d \<in> set (s_passed s)) (needs tasks i))"
    by (simp add: paid_def)
  then show "paid tasks s i \<le> length (needs tasks i)" by (simp add: length_filter_le)
  with 1(3) [of i] show "total (owed i) s \<le> counter s i" by linarith
qed

section \<open>The cases of a step\<close>

text \<open>The moves of worker \<open>w\<close>, one constructor for each branch of the code.\<close>

inductive move :: "task list \<Rightarrow> nat list list \<Rightarrow> nat \<Rightarrow> pc \<Rightarrow> sched \<Rightarrow> sched \<Rightarrow> bool" for tasks dependents w where
  Quit: "s_cancelled s \<Longrightarrow> move tasks dependents w Acquire s (set_pc w Exited s)"
| Pop: "\<not> s_cancelled s \<Longrightarrow> s_queue s = t # q \<Longrightarrow>
    move tasks dependents w Acquire s (set_pc w (Running t) (s\<lparr>s_queue := q, s_in_flight := s_in_flight s + 1\<rparr>))"
| Drain: "\<not> s_cancelled s \<Longrightarrow> s_queue s = [] \<Longrightarrow> s_in_flight s = 0 \<Longrightarrow>
    move tasks dependents w Acquire s (set_pc w Exited (notify_all s))"
| Sleep: "\<not> s_cancelled s \<Longrightarrow> s_queue s = [] \<Longrightarrow> s_in_flight s \<noteq> 0 \<Longrightarrow>
    move tasks dependents w Acquire s (set_pc w Asleep s)"
| Pass: "t < length tasks \<Longrightarrow>
    move tasks dependents w (Running t) s (set_pc w (Admitting t (admitted_names (t_kind (tasks ! t)) survivors)) s)"
| Fail: "t < length tasks \<Longrightarrow> move tasks dependents w (Running t) s (set_pc w (Failing t f) s)"
| Admit: "move tasks dependents w (Admitting t (n # ns)) s (set_pc w (Admitting t ns) (s\<lparr>s_table := cc_admit n (s_table s)\<rparr>))"
| Publish: "t < length tasks \<Longrightarrow>
    move tasks dependents w (Admitting t []) s
      (set_pc w (Tallying t) (s\<lparr>s_quot := s_quot s \<or> sets_quot (t_kind (tasks ! t))\<rparr>))"
| Tally: "t < length tasks \<Longrightarrow> t < length dependents \<Longrightarrow>
    move tasks dependents w (Tallying t) s
      (set_pc w (Releasing t (dependents ! t) [])
        (s\<lparr>s_checked := s_checked s + task_checked_count (t_kind (tasks ! t)), s_passed := s_passed s @ [t]\<rparr>))"
| Release: "d < length (s_pending s) \<Longrightarrow>
    move tasks dependents w (Releasing t (d # ds) newly) s
      (set_pc w (Releasing t ds (if s_pending s ! d = 1 then newly @ [d] else newly))
        (s\<lparr>s_pending := (s_pending s)[d := usize_dec (s_pending s ! d)]\<rparr>))"
| Finish: "move tasks dependents w (Releasing t [] newly) s
    (set_pc w Acquire (notify_all
      (s\<lparr>s_in_flight := usize_dec (s_in_flight s), s_done := s_done s + 1, s_queue := s_queue s @ newly\<rparr>)))"
| Record: "move tasks dependents w (Failing t f) s
    (set_pc w (Cancelling t) (s\<lparr>s_failure := (case s_failure s of None \<Rightarrow> Some f | Some f0 \<Rightarrow> Some f0)\<rparr>))"
| Cancel: "move tasks dependents w (Cancelling t) s (set_pc w (Leaving t) (s\<lparr>s_cancelled := True\<rparr>))"
| Leave: "move tasks dependents w (Leaving t) s
    (set_pc w Exited (notify_all (s\<lparr>s_in_flight := usize_dec (s_in_flight s), s_aborted := s_aborted s @ [t]\<rparr>)))"
| Panic: "(\<exists>t. length tasks \<le> t \<and> (p = Running t \<or> p = Admitting t []))
     \<or> (\<exists>t. (length tasks \<le> t \<or> length dependents \<le> t) \<and> p = Tallying t)
     \<or> (\<exists>t d ds newly. length (s_pending s) \<le> d \<and> p = Releasing t (d # ds) newly) \<Longrightarrow>
    move tasks dependents w p s (set_pc w Panicked s)"

lemma worker_step_move:
  assumes "worker_step tasks dependents v w s = Some s'"
  shows "w < length (s_workers s) \<and> move tasks dependents w (s_workers s ! w) s s'"
proof -
  have w: "w < length (s_workers s)" using assms by (simp add: worker_step_def split: if_splits)
  show ?thesis
  proof (cases "s_workers s ! w")
    case Acquire
    with assms w show ?thesis
      by (auto simp: worker_step_def acquire_def split: list.splits if_splits
          intro: move.Quit move.Pop [simplified] move.Drain move.Sleep)
  next
    case (Running t)
    with assms w show ?thesis
      by (auto simp: worker_step_def with_index_def get_index_def split: verdict.splits if_splits
          intro: move.Pass move.Fail move.Panic)
  next
    case (Admitting t ns)
    with assms w show ?thesis
      by (cases ns) (auto simp: worker_step_def with_index_def get_index_def split: if_splits intro: move.intros)
  next
    case (Tallying t)
    with assms w show ?thesis
      by (auto simp: worker_step_def with_index_def get_index_def split: if_splits intro: move.Tally move.Panic)
  next
    case (Releasing t ds newly)
    show ?thesis
    proof (cases ds)
      case Nil
      with assms w Releasing move.Finish [of tasks dependents w t newly s] show ?thesis by (simp add: worker_step_def)
    next
      case (Cons d ds')
      with assms w Releasing move.Release [of d s tasks dependents w t ds' newly] show ?thesis
        by (auto simp: worker_step_def with_index_def get_index_def intro: move.Panic split: if_splits)
    qed
  qed (use assms w in \<open>auto simp: worker_step_def intro: move.intros\<close>)
qed

section \<open>Tasks and counters\<close>

lemma total_fields [simp]:
  "total f (s\<lparr>s_queue := q\<rparr>) = total f s" "total f (s\<lparr>s_in_flight := k\<rparr>) = total f s" "total f (s\<lparr>s_done := k\<rparr>) = total f s"
  "total f (s\<lparr>s_pending := ks\<rparr>) = total f s" "total f (s\<lparr>s_cancelled := b\<rparr>) = total f s"
  "total f (s\<lparr>s_failure := e\<rparr>) = total f s" "total f (s\<lparr>s_checked := k\<rparr>) = total f s" "total f (s\<lparr>s_quot := b\<rparr>) = total f s"
  "total f (s\<lparr>s_table := t\<rparr>) = total f s" "total f (s\<lparr>s_passed := ts\<rparr>) = total f s" "total f (s\<lparr>s_aborted := ts\<rparr>) = total f s"
  by (simp_all add: total_def)

lemma move_total:
  assumes "move tasks dependents w (s_workers s ! w) s s'" and w: "w < length (s_workers s)" and f: "f Asleep = f Acquire"
  shows "total f s' + f (s_workers s ! w) = total f s + f (s_workers s' ! w)"
proof -
  have set: "total f (set_pc w q s1) + f p = total f s + f q" if "s_workers s ! w = p" "s_workers s1 = s_workers s" for p q s1
    using total_set_pc [of w s1 f q] w that by (simp add: total_def)
  have set_notify: "total f (set_pc w q (notify_all s1)) + f p = total f s + f q"
    if "s_workers s ! w = p" "s_workers s1 = s_workers s" "p \<noteq> Asleep" for p q s1
    using total_set_pc [of w "notify_all s1" f q] total_notify [of f s1] f w that by (simp add: total_def)
  from assms(1) show ?thesis
    by cases (simp_all add: set set_notify w)
qed

lemma moved_worker:
  assumes "move tasks dependents w p s s'" and "w < length (s_workers s)" and "s_workers s ! w = p"
  shows "length (s_workers s') = length (s_workers s)"
  using assms by cases auto

lemma balanced_held:
  assumes "balanced tasks s" and "w < length (s_workers s)"
  shows "held i (s_workers s ! w) > 0 \<Longrightarrow> i < length tasks" and "owed i (s_workers s ! w) > 0 \<Longrightarrow> 0 < counter s i"
  using total_ge [OF assms(2), of "held i"] balancedD(2) [OF assms(1), of i] total_ge [OF assms(2), of "owed i"]
    balancedD(6) [OF assms(1), of i]
  by (auto simp: places_def split: if_splits)

lemma balanced_no_panic:
  assumes "balanced tasks s" and "w < length (s_workers s)" and "s_workers s ! w = p"
  shows "\<not> ((\<exists>t. length tasks \<le> t \<and> (p = Running t \<or> p = Admitting t []))
     \<or> (\<exists>t. (length tasks \<le> t \<or> length (dependents_of tasks) \<le> t) \<and> p = Tallying t)
     \<or> (\<exists>t d ds newly. length (s_pending s) \<le> d \<and> p = Releasing t (d # ds) newly))"
proof -
  note held = balanced_held [OF assms(1,2), unfolded assms(3)]
  show ?thesis
  proof (cases p)
    case (Running t) then show ?thesis using held(1) [of t] by simp
  next
    case (Admitting t ns) then show ?thesis using held(1) [of t] by simp
  next
    case (Tallying t) then show ?thesis using held(1) [of t] by (simp add: dependents_of_ok)
  next
    case (Releasing t ds newly)
    then show ?thesis using held(2) [of "hd ds"] by (cases ds) (auto simp: counter_def split: if_splits)
  qed simp_all
qed

lemma total_start: "f Acquire = 0 \<Longrightarrow> total f (start_state table g jobs) = 0"
  by (simp add: total_def start_state_def sum_list_replicate)

lemma balanced_start: "balanced (g_tasks g) (start_state table g jobs)"
  unfolding balanced_def places_def counter_def paid_def
  by (simp add: total_start) (simp add: start_state_def count_initial_queue needs_def)

lemma balanced_move:
  assumes m: "move tasks (dependents_of tasks) w (s_workers s ! w) s s'" and b: "balanced tasks s" and w: "w < length (s_workers s)"
  shows "balanced tasks s'"
proof -
  note D = balancedD(1-3) [OF b]
  have T: "total (held i) s' + held i (s_workers s ! w) = total (held i) s + held i (s_workers s' ! w)"
    "total (owed i) s' + owed i (s_workers s ! w) = total (owed i) s + owed i (s_workers s' ! w)" for i
    by (rule move_total [OF m w]; simp)+
  have same: ?thesis if "s_pending s' = s_pending s"
    "\<And>i. count_list (s_queue s') i + held i (s_workers s' ! w) + count_list (s_passed s') i + count_list (s_aborted s') i
        = count_list (s_queue s) i + held i (s_workers s ! w) + count_list (s_passed s) i + count_list (s_aborted s) i"
    "\<And>i. paid tasks s' i + owed i (s_workers s ! w) = paid tasks s i + owed i (s_workers s' ! w)"
  proof -
    have "places i s' = places i s" for i using that(2) [of i] T(1) [of i] by (simp add: places_def)
    moreover have "counter s' i + paid tasks s' i = length (needs tasks i) + total (owed i) s'" for i
    proof -
      have "counter s' i = counter s i" by (simp add: counter_def that(1))
      with D(3) [of i] that(3) [of i] T(2) [of i] show ?thesis by linarith
    qed
    ultimately show ?thesis using D that(1) by (simp add: balanced_def)
  qed
  from m balanced_no_panic [OF b w refl] w show ?thesis
  proof cases
    case (Release d t ds newly)
    have pos: "s_pending s ! d \<noteq> 0" using balanced_held(2) [OF b w, of d] Release by (simp add: counter_def)
    then have dec: "usize_dec (s_pending s ! d) = s_pending s ! d - 1" by (simp add: usize_dec_def)
    have "places i s' = (if i < length tasks \<and> s_pending s' ! i = 0 then 1 else 0)" for i
      using D(1) D(2) [of i] T(1) [of i] Release pos w dec
      by (cases "i = d") (auto simp: places_def count_list_append nth_list_update split: if_splits)
    moreover have "counter s' i + paid tasks s' i = length (needs tasks i) + total (owed i) s'" for i
      using D(3) [of i] T(2) [of i] Release pos w dec
      by (cases "i = d") (auto simp: counter_def paid_def nth_list_update)
    ultimately show ?thesis using D(1) Release by (simp add: balanced_def)
  next
    case (Tally t)
    show ?thesis by (rule same) (use Tally w in \<open>auto simp: paid_def dependents_of_ok count_list_append\<close>)
  next
    case (Finish newly t)
    show ?thesis by (rule same) (use Finish w in \<open>auto simp: paid_def count_list_append\<close>)
  next
    case (Leave t)
    show ?thesis by (rule same) (use Leave w in \<open>auto simp: paid_def count_list_append\<close>)
  next
    case Panic
    with balanced_no_panic [OF b w refl] show ?thesis by blast
  qed ((rule same; simp add: paid_def; fail))+
qed

end
