(* ===== verification/Schedule_Reachable.thy ===== *)
theory Schedule_Reachable
  imports Schedule_Invariant
begin

text \<open>
  The rest of the invariant of the worker pool, that every reachable state has it, and what follows:
  no worker panics, a task runs after its dependencies, nobody waits for ever, the pool ends, and
  its result does not depend on the schedule.
\<close>

section \<open>Counts and order\<close>

definition settled :: "task list \<Rightarrow> sched \<Rightarrow> bool" where
  "settled tasks s \<longleftrightarrow> s_in_flight s = total busy s \<and> s_done s + total releasing s = length (s_passed s)
     \<and> s_checked s = sum_list (map (\<lambda>t. task_checked_count (t_kind (tasks ! t))) (s_passed s))
     \<and> (\<forall>k < length (s_passed s). set (needs tasks (s_passed s ! k)) \<subseteq> set (take k (s_passed s)))"

text \<open>A task that is anywhere has all it needs among the passed tasks.\<close>

lemma ready_needs:
  assumes b: "balanced tasks s" and i: "0 < places i s"
  shows "i < length tasks \<and> s_pending s ! i = 0 \<and> set (needs tasks i) \<subseteq> set (s_passed s)"
proof -
  from balancedD(1) [OF b] balancedD(2) [OF b, of i] i have 1: "i < length tasks" "s_pending s ! i = 0" by (auto split: if_splits)
  with balancedD(1) [OF b] balancedD(3,5) [OF b, of i] have "paid tasks s i = length (needs tasks i)" by (simp add: counter_def)
  with balancedD(7) [OF b, of i] have "length (filter (\<lambda>d. d \<in> set (s_passed s)) (needs tasks i)) = length (needs tasks i)" by simp
  then have "set (needs tasks i) \<subseteq> set (s_passed s)" using length_filter_less [of _ "needs tasks i"] by (metis less_irrefl subsetI)
  with 1 show ?thesis by simp
qed

lemma held_ready:
  assumes b: "balanced tasks s" and w: "w < length (s_workers s)" and "0 < held i (s_workers s ! w)"
  shows "i < length tasks \<and> s_pending s ! i = 0 \<and> set (needs tasks i) \<subseteq> set (s_passed s)"
  using total_ge [OF w, of "held i"] assms(3) by (intro ready_needs [OF b]) (simp add: places_def)

lemma settled_start: "settled (g_tasks g) (start_state table g jobs)"
  unfolding settled_def by (simp add: total_start) (simp add: start_state_def)

lemma settled_move:
  assumes m: "move tasks (dependents_of tasks) w (s_workers s ! w) s s'" and b: "balanced tasks s"
    and n: "settled tasks s" and w: "w < length (s_workers s)"
  shows "settled tasks s'"
proof -
  have T: "total busy s' + busy (s_workers s ! w) = total busy s + busy (s_workers s' ! w)"
    "total releasing s' + releasing (s_workers s ! w) = total releasing s + releasing (s_workers s' ! w)"
    by (rule move_total [OF m w]; simp)+
  have dec: "usize_dec (s_in_flight s) = s_in_flight s - 1 \<and> 0 < total busy s" if "busy (s_workers s ! w) = 1"
    using total_ge [OF w, of busy] n that by (simp add: settled_def usize_dec_def)
  from m show ?thesis
  proof cases
    case (Tally t)
    have need: "set (needs tasks t) \<subseteq> set (s_passed s)" using held_ready [OF b w, of t] Tally by simp
    have "set (needs tasks (s_passed s' ! k)) \<subseteq> set (take k (s_passed s'))" if "k < length (s_passed s')" for k
      using that n need Tally by (cases "k = length (s_passed s)") (auto simp: settled_def nth_append)
    with n T Tally w show ?thesis by (simp add: settled_def)
  next
    case Panic
    with balanced_no_panic [OF b w refl] show ?thesis by blast
  qed (use n T dec w in \<open>auto simp: settled_def\<close>)
qed

section \<open>Flags\<close>

fun failing :: "pc \<Rightarrow> bool" where
  "failing (Cancelling _) = True" | "failing (Leaving _) = True" | "failing _ = False"

fun leaving :: "pc \<Rightarrow> bool" where
  "leaving (Leaving _) = True" | "leaving _ = False"

definition flagged :: "sched \<Rightarrow> bool" where
  "flagged s \<longleftrightarrow> Panicked \<notin> set (s_workers s)
     \<and> (s_failure s = None \<longrightarrow> \<not> s_cancelled s \<and> (\<forall>p \<in> set (s_workers s). \<not> failing p))
     \<and> (\<not> s_cancelled s \<longrightarrow> s_aborted s = [] \<and> (\<forall>p \<in> set (s_workers s). \<not> leaving p))
     \<and> (Exited \<in> set (s_workers s) \<longrightarrow> s_cancelled s \<or> s_queue s = [] \<and> s_in_flight s = 0)
     \<and> (Asleep \<in> set (s_workers s) \<longrightarrow> s_queue s = [] \<and> s_in_flight s \<noteq> 0)"

lemma flagged_start: "flagged (start_state table g jobs)"
  by (auto simp: flagged_def start_state_def)

lemma set_update_mem: "q \<in> set (xs[w := p]) \<Longrightarrow> q = p \<or> q \<in> set xs"
  using set_update_subset_insert [of xs w p] by blast

lemma set_notify: "q \<in> set (s_workers (notify_all s)) \<Longrightarrow> q = Acquire \<or> q \<noteq> Asleep \<and> q \<in> set (s_workers s)"
  by (auto simp: notify_all_def split: if_splits)

lemma set_moved:
  assumes "q \<in> set (s_workers s')"
  shows "s' = set_pc w p s1 \<Longrightarrow> s_workers s1 = s_workers s \<Longrightarrow> q = p \<or> q \<in> set (s_workers s)"
    and "s' = set_pc w p (notify_all s1) \<Longrightarrow> s_workers s1 = s_workers s \<Longrightarrow> q = p \<or> q = Acquire \<or> q \<noteq> Asleep \<and> q \<in> set (s_workers s)"
  using assms set_update_mem [of q _ w p] set_notify [of q s1] by auto

lemma flagged_move:
  assumes m: "move tasks (dependents_of tasks) w (s_workers s ! w) s s'" and b: "balanced tasks s"
    and n: "settled tasks s" and f: "flagged s" and w: "w < length (s_workers s)"
  shows "flagged s'"
proof -
  have mem: "s_workers s ! w \<in> set (s_workers s)" using w by simp
  have busy: "busy (s_workers s ! w) \<le> s_in_flight s" using total_ge [OF w, of busy] n by (simp add: settled_def)
  from m show ?thesis
  proof cases
    case Panic
    with balanced_no_panic [OF b w refl] show ?thesis by blast
  qed (use f mem busy in \<open>auto simp: flagged_def dest!: set_update_mem set_notify split: option.splits\<close>)
qed

section \<open>Publication\<close>

text \<open>The names of a task itself, which do not depend on the survivors that the kernel regenerates.\<close>

definition own_names :: "task list \<Rightarrow> nat \<Rightarrow> u32 list" where
  "own_names tasks t = admitted_names (t_kind (tasks ! t)) []"

definition opened :: "checked_constants \<Rightarrow> u32 \<Rightarrow> bool" where
  "opened table n \<longleftrightarrow> cc_get table n = get_decoded table n"

definition published :: "task list \<Rightarrow> sched \<Rightarrow> nat \<Rightarrow> bool" where
  "published tasks s t \<longleftrightarrow> (\<forall>n \<in> set (own_names tasks t). opened (s_table s) n) \<and> (sets_quot (t_kind (tasks ! t)) \<longrightarrow> s_quot s)"

fun publishing :: "task list \<Rightarrow> sched \<Rightarrow> pc \<Rightarrow> bool" where
  "publishing tasks s (Admitting t ns) \<longleftrightarrow> (\<forall>n \<in> set (own_names tasks t) - set ns. opened (s_table s) n)"
| "publishing tasks s (Tallying t) \<longleftrightarrow> published tasks s t"
| "publishing tasks s _ \<longleftrightarrow> True"

definition disclosed :: "checked_constants \<Rightarrow> task list \<Rightarrow> sched \<Rightarrow> bool" where
  "disclosed table tasks s \<longleftrightarrow> cc_ok (s_table s) \<and> decoded (s_table s) = decoded table
     \<and> (\<forall>t \<in> set (s_passed s). published tasks s t) \<and> (\<forall>p \<in> set (s_workers s). publishing tasks s p)"

lemma admitted_names_own: "set (admitted_names k []) \<subseteq> set (admitted_names k survivors)"
  by (auto simp: admitted_names_def split: task_kind.split)

lemma opened_admit: "cc_ok t \<Longrightarrow> opened t n \<Longrightarrow> opened (cc_admit m t) n" "cc_ok t \<Longrightarrow> opened (cc_admit n t) n"
  by (auto simp: opened_def cc_get_admit)

lemma published_mono:
  assumes "published tasks s t" and "\<And>n. opened (s_table s) n \<Longrightarrow> opened (s_table s') n" and "s_quot s \<Longrightarrow> s_quot s'"
  shows "published tasks s' t"
  using assms by (auto simp: published_def)

lemma publishing_mono:
  assumes "publishing tasks s p" and "\<And>n. opened (s_table s) n \<Longrightarrow> opened (s_table s') n" and "s_quot s \<Longrightarrow> s_quot s'"
  shows "publishing tasks s' p"
  using assms by (cases p) (auto intro: published_mono)

lemma disclosed_start: "cc_ok table \<Longrightarrow> disclosed table (g_tasks g) (start_state table g jobs)"
  by (simp add: disclosed_def start_state_def)

lemma disclosed_move:
  assumes m: "move tasks (dependents_of tasks) w (s_workers s ! w) s s'" and d: "disclosed table tasks s"
    and w: "w < length (s_workers s)"
  shows "disclosed table tasks s'"
proof -
  have ok: "cc_ok (s_table s)" using d by (simp add: disclosed_def)
  have mem: "publishing tasks s (s_workers s ! w)" using d w by (simp add: disclosed_def)
  have grow: "opened (s_table s) n \<Longrightarrow> opened (s_table s') n" for n
    using m by cases (simp_all add: opened_admit ok)
  have quot: "s_quot s \<Longrightarrow> s_quot s'" using m by cases simp_all
  have table: "cc_ok (s_table s') \<and> decoded (s_table s') = decoded (s_table s)"
    using m ok by cases (simp_all add: cc_ok_admit)
  have new: "publishing tasks s' (s_workers s' ! w)"
    using m
  proof cases
    case (Pass t survivors)
    with admitted_names_own [of "t_kind (tasks ! t)" survivors] w show ?thesis by (auto simp: own_names_def)
  next
    case (Admit t n ns)
    have "opened (cc_admit n (s_table s)) x" if "x \<in> set (own_names tasks t)" "x \<notin> set ns" for x
      using mem that opened_admit [OF ok] Admit by (cases "x = n") auto
    with Admit w show ?thesis by simp
  next
    case (Publish t)
    with mem w show ?thesis by (simp add: published_def)
  qed (use w in simp_all)
  have others: "q = s_workers s' ! w \<or> q = Acquire \<or> q \<in> set (s_workers s)" if "q \<in> set (s_workers s')" for q
    using m that w by cases (auto dest!: set_update_mem set_notify)
  have "publishing tasks s' q" if "q \<in> set (s_workers s')" for q
    using others [OF that] new d grow quot by (auto simp: disclosed_def intro: publishing_mono)
  moreover have "published tasks s' t" if "t \<in> set (s_passed s')" for t
  proof -
    from m that consider "t \<in> set (s_passed s)" | "s_workers s ! w = Tallying t" by cases auto
    then have "published tasks s t" using d mem by cases (auto simp: disclosed_def)
    then show ?thesis by (rule published_mono) (use grow quot in auto)
  qed
  ultimately show ?thesis using table d by (simp add: disclosed_def)
qed

section \<open>Reachable states\<close>

definition pool_inv :: "checked_constants \<Rightarrow> task list \<Rightarrow> sched \<Rightarrow> bool" where
  "pool_inv table tasks s \<longleftrightarrow> balanced tasks s \<and> settled tasks s \<and> flagged s \<and> disclosed table tasks s"

lemma pool_inv_step: "pool_inv table (g_tasks g) s \<Longrightarrow> step g s s' \<Longrightarrow> pool_inv table (g_tasks g) s'"
  unfolding pool_inv_def
  by (elim conjE step.cases) (auto dest!: worker_step_move intro: balanced_move settled_move flagged_move disclosed_move)

lemma total_wake:
  assumes "w < length (s_workers s)" and "s_workers s ! w = Asleep" and "f Asleep = f Acquire"
  shows "total f (set_pc w Acquire s) = total f s"
  using total_set_pc [OF assms(1), of f Acquire] assms by simp

lemma pool_inv_wake:
  assumes "pool_inv table tasks s" and "wake s s'"
  shows "pool_inv table tasks s'"
  using assms(2)
proof cases
  case (wake w)
  note t = total_wake [OF wake(2,3)]
  have "counter s' i = counter s i" "paid tasks s' i = paid tasks s i" "places i s' = places i s" for i
    by (simp_all add: wake(1) counter_def paid_def places_def t)
  then have "balanced tasks s'" using assms(1) by (simp add: pool_inv_def balanced_def t wake(1))
  moreover have "settled tasks s'" using assms(1) by (simp add: pool_inv_def settled_def t wake(1))
  moreover have "flagged s'" using assms(1) wake(1)
    by (auto simp: pool_inv_def flagged_def dest!: set_update_mem)
  moreover have "disclosed table tasks s'" using assms(1) wake(1)
    by (auto simp: pool_inv_def disclosed_def published_def dest!: set_update_mem intro: publishing_mono)
  ultimately show ?thesis by (simp add: pool_inv_def)
qed

lemma pool_inv_reachable:
  "cc_ok table \<Longrightarrow> reachable table g jobs s \<Longrightarrow> pool_inv table (g_tasks g) s"
proof (rotate_tac, induction rule: reachable.induct)
  case start
  then show ?case by (simp add: pool_inv_def balanced_start settled_start flagged_start disclosed_start)
qed (auto intro: pool_inv_step pool_inv_wake)

lemma workers_reachable: "reachable table g jobs s \<Longrightarrow> s_workers s \<noteq> []"
proof (induction rule: reachable.induct)
  case (step s s')
  from step(2) obtain v w where "worker_step (g_tasks g) (dependents_of (g_tasks g)) v w s = Some s'" by cases
  from worker_step_move [OF this] have "length (s_workers s') = length (s_workers s)" by (auto intro: moved_worker)
  with step show ?case by auto
qed (auto simp: start_state_def elim: wake.cases)

end
