(* ===== verification/Schedule_Ends.thy ===== *)
theory Schedule_Ends
  imports Schedule_Reachable
begin

text \<open>
  The worker pool of \<open>schedule.rs\<close> always comes to an end, and what it then reports does not depend
  on the schedule: the absence of deadlocks, a measure that every step lowers, and the final states.
\<close>

section \<open>Somebody can move\<close>

lemma worker_moves:
  assumes "w < length (s_workers s)" and "s_workers s ! w \<notin> {Asleep, Exited, Panicked}"
  shows "\<exists>s'. worker_step tasks dependents v w s = Some s'"
proof (cases "s_workers s ! w")
  case (Admitting t ns)
  with assms show ?thesis by (cases ns) (auto simp: worker_step_def)
next
  case (Releasing t ds newly)
  with assms show ?thesis by (cases ds) (auto simp: worker_step_def)
qed (use assms in \<open>auto simp: worker_step_def\<close>)

lemma no_deadlock:
  assumes inv: "pool_inv table (g_tasks g) s" and p: "p \<in> set (s_workers s)" "p \<noteq> Exited"
  shows "\<exists>s'. step g s s'"
proof (cases "\<exists>w < length (s_workers s). s_workers s ! w \<notin> {Asleep, Exited, Panicked}")
  case True
  with worker_moves [of _ s "g_tasks g" "dependents_of (g_tasks g)"] show ?thesis by (metis step.work)
next
  case False
  have f: "flagged s" and n: "settled (g_tasks g) s" using inv by (simp_all add: pool_inv_def)
  have quiet: "q = Asleep \<or> q = Exited" if "q \<in> set (s_workers s)" for q
    using that False f by (auto simp: in_set_conv_nth flagged_def)
  with p have "Asleep \<in> set (s_workers s)" by blast
  with f have "s_in_flight s \<noteq> 0" by (simp add: flagged_def)
  moreover have "total busy s = 0" using quiet by (fastforce simp: total_0)
  ultimately show ?thesis using n by (simp add: settled_def)
qed

section \<open>A measure\<close>

fun taken :: "pc \<Rightarrow> nat" where
  "taken (Releasing _ _ _) = 0" | "taken p = busy p"

fun phase :: "pc \<Rightarrow> nat" where
  "phase Acquire = 1"
| "phase Asleep = 1"
| "phase (Running _) = 4"
| "phase (Releasing _ _ _) = 2"
| "phase Exited = 0"
| "phase Panicked = 0"
| "phase _ = 3"

fun rank :: "pc \<Rightarrow> nat" where
  "rank Acquire = 1"
| "rank (Admitting _ ns) = Suc (length ns)"
| "rank (Releasing _ ds _) = length ds"
| "rank (Failing _ _) = 2"
| "rank (Cancelling _) = 1"
| "rank _ = 0"

text \<open>The tasks that no worker has taken yet count for four steps each.\<close>

definition taken_tasks :: "sched \<Rightarrow> nat" where
  "taken_tasks s = total taken s + length (s_passed s) + length (s_aborted s)"

definition work_left :: "task list \<Rightarrow> sched \<Rightarrow> nat" where
  "work_left tasks s = 4 * (length tasks - taken_tasks s) + total phase s"

definition pool_less :: "task list \<Rightarrow> (sched \<times> sched) set" where
  "pool_less tasks = inv_image (less_than <*lex*> less_than) (\<lambda>s. (work_left tasks s, sum_list (map rank (s_workers s))))"

lemma wf_pool_less: "Wellfounded.wf (pool_less tasks)"
  by (auto simp: pool_less_def)

text \<open>All places in one list: a task occurs there at most once, so the tasks taken and those in the queue
  are no more than there are.\<close>

fun items :: "pc \<Rightarrow> nat list" where
  "items (Running t) = [t]"
| "items (Admitting t _) = [t]"
| "items (Tallying t) = [t]"
| "items (Releasing _ _ newly) = newly"
| "items (Failing t _) = [t]"
| "items (Cancelling t) = [t]"
| "items (Leaving t) = [t]"
| "items _ = []"

lemma count_items: "count_list (items p) i = held i p"
  by (cases p) auto

lemma count_concat: "count_list (concat (map f xs)) i = sum_list (map (\<lambda>x. count_list (f x) i) xs)"
  by (induction xs) (simp_all add: count_list_append)

lemma taken_bound:
  assumes b: "balanced tasks s"
  shows "length (s_queue s) + taken_tasks s \<le> length tasks"
proof -
  define xs where "xs = s_queue s @ concat (map items (s_workers s)) @ s_passed s @ s_aborted s"
  have places: "count_list xs i = places i s" for i
    by (simp add: xs_def count_list_append count_concat count_items places_def total_def)
  have "count_list xs i \<le> 1 \<and> (i \<in> set xs \<longrightarrow> i < length tasks)" for i
    using balancedD(2) [OF b, of i] count_list_0_iff [of xs i] by (auto simp: places split: if_splits)
  then have "distinct xs" "set xs \<subseteq> {..<length tasks}" by (auto simp: distinct_count)
  then have "length xs \<le> length tasks" using card_mono [of "{..<length tasks}" "set xs"] by (simp add: distinct_card)
  moreover have "taken p \<le> length (items p)" for p by (cases p) simp_all
  then have "total taken s \<le> length (concat (map items (s_workers s)))"
    unfolding total_def length_concat by (simp add: sum_list_mono comp_def)
  ultimately show ?thesis by (simp add: xs_def taken_tasks_def)
qed

lemma pool_less_move:
  assumes m: "move tasks (dependents_of tasks) w (s_workers s ! w) s s'" and b: "balanced tasks s" and w: "w < length (s_workers s)"
  shows "(s', s) \<in> pool_less tasks"
proof -
  have T: "total taken s' + taken (s_workers s ! w) = total taken s + taken (s_workers s' ! w)"
    "total phase s' + phase (s_workers s ! w) = total phase s + phase (s_workers s' ! w)"
    by (rule move_total [OF m w]; simp)+
  have R: "sum_list (map rank ((s_workers s)[w := p])) + rank (s_workers s ! w) = sum_list (map rank (s_workers s)) + rank p" for p
    by (rule sum_list_update_add [OF w])
  note bound = taken_bound [OF b]
  have less: "(s', s) \<in> pool_less tasks"
    if "work_left tasks s' < work_left tasks s \<or> work_left tasks s' = work_left tasks s
        \<and> sum_list (map rank (s_workers s')) < sum_list (map rank (s_workers s))"
    using that by (auto simp: pool_less_def)
  from m show ?thesis
  proof cases
    case (Pop t q)
    then have "taken_tasks s < length tasks" using bound by simp
    then have "length tasks - taken_tasks s = Suc (length tasks - Suc (taken_tasks s))" by simp
    moreover have "taken_tasks s' = Suc (taken_tasks s)" using T(1) Pop w by (simp add: taken_tasks_def)
    ultimately have "work_left tasks s' < work_left tasks s" using T(2) Pop w by (simp add: work_left_def)
    with less show ?thesis by blast
  next
    case (Leave t)
    have "taken_tasks s' = taken_tasks s" using T(1) Leave w by (simp add: taken_tasks_def)
    moreover have "total phase s' < total phase s" using T(2) Leave w by simp
    ultimately show ?thesis by (intro less) (simp add: work_left_def)
  next
    case Panic
    with balanced_no_panic [OF b w refl] show ?thesis by blast
  qed (rule less, use T R [of "s_workers s' ! w"] w in \<open>simp add: work_left_def taken_tasks_def\<close>)+
qed

lemma pool_less_step: "pool_inv table (g_tasks g) s \<Longrightarrow> step g s s' \<Longrightarrow> (s', s) \<in> pool_less (g_tasks g)"
  by (auto simp: pool_inv_def elim!: step.cases dest!: worker_step_move intro: pool_less_move)

section \<open>The final states\<close>

text \<open>The tasks whose dependencies are in the graph and form no cycle.\<close>

inductive runnable :: "task list \<Rightarrow> nat \<Rightarrow> bool" for tasks where
  runnable: "i < length tasks \<Longrightarrow> (\<And>d. d \<in> set (t_deps (tasks ! i)) \<Longrightarrow> runnable tasks d) \<Longrightarrow> runnable tasks i"

lemma passed_runnable:
  assumes inv: "pool_inv table tasks s"
  shows "t \<in> set (s_passed s) \<Longrightarrow> runnable tasks t"
proof -
  have b: "balanced tasks s" and n: "settled tasks s" using inv by (simp_all add: pool_inv_def)
  have lt: "t < length tasks" if "t \<in> set (s_passed s)" for t
    using ready_needs [OF b, of t] that count_list_0_iff [of "s_passed s" t] by (auto simp: places_def)
  have "k < length (s_passed s) \<Longrightarrow> runnable tasks (s_passed s ! k)" for k
  proof (induction k rule: less_induct)
    case (less k)
    have "runnable tasks d" if d: "d \<in> set (t_deps (tasks ! (s_passed s ! k)))" for d
    proof -
      have "d \<in> set (take k (s_passed s))" using n less.prems d lt [of "s_passed s ! k"] by (auto simp: settled_def needs_def)
      then obtain j where "j < k" "d = s_passed s ! j" using less.prems by (auto simp: in_set_conv_nth)
      with less show ?thesis by simp
    qed
    with lt [of "s_passed s ! k"] less.prems show ?case by (auto intro: runnable)
  qed
  then show "t \<in> set (s_passed s) \<Longrightarrow> runnable tasks t" by (auto simp: in_set_conv_nth)
qed

lemma quiet_end:
  assumes inv: "pool_inv table tasks s" and ended: "\<forall>p \<in> set (s_workers s). p = Exited" and some: "s_workers s \<noteq> []"
    and ok: "s_failure s = None"
  shows "set (s_passed s) = {i. runnable tasks i}" and "distinct (s_passed s)" and "s_done s = length (s_passed s)"
    and "s_checked s = sum_list (map (\<lambda>t. task_checked_count (t_kind (tasks ! t))) (s_passed s))"
    and "\<forall>i < length tasks. s_pending s ! i = 0 \<longleftrightarrow> i \<in> set (s_passed s)"
proof -
  have b: "balanced tasks s" and n: "settled tasks s" and f: "flagged s" using inv by (simp_all add: pool_inv_def)
  have gone: "total h s = 0" if "h Exited = 0" for h using ended that by (auto simp: total_0)
  show "distinct (s_passed s)" by (rule balancedD(4) [OF b])
  show "s_done s = length (s_passed s)" using n gone [of releasing] by (simp add: settled_def)
  show "s_checked s = sum_list (map (\<lambda>t. task_checked_count (t_kind (tasks ! t))) (s_passed s))" using n by (simp add: settled_def)
  have "Exited \<in> set (s_workers s)" using ended some by (metis list.set_intros(1) neq_Nil_conv)
  with f ok have q: "s_queue s = []" "s_aborted s = []" by (auto simp: flagged_def)
  have places: "places i s = count_list (s_passed s) i" for i by (simp add: places_def q gone)
  show pend: "\<forall>i < length tasks. s_pending s ! i = 0 \<longleftrightarrow> i \<in> set (s_passed s)"
  proof (intro allI impI)
    fix i assume "i < length tasks"
    then have "of_bool (i \<in> set (s_passed s)) = (of_bool (s_pending s ! i = 0) :: nat)"
      using balancedD(2) [OF b, of i] by (simp add: places flip: count_distinct [OF balancedD(4) [OF b]])
    then show "s_pending s ! i = 0 \<longleftrightarrow> i \<in> set (s_passed s)" by (simp only: of_bool_eq_iff)
  qed
  have "i \<in> set (s_passed s)" if "runnable tasks i" for i
    using that
  proof induction
    case (runnable i)
    have "paid tasks s i = length (needs tasks i)"
      using runnable by (simp add: balancedD(7) [OF b] needs_def filter_id_conv subset_iff)
    with balancedD(3) [OF b, of i] gone [of "owed i"] have "counter s i = 0" by simp
    with runnable(1) pend balancedD(1) [OF b] show ?case by (simp add: counter_def)
  qed
  with passed_runnable [OF inv] show "set (s_passed s) = {i. runnable tasks i}" by blast
qed

end
