(* ===== verification/Check_Properties.thy ===== *)
theory Check_Properties
  imports Schedule_Ends Subst_Properties
begin

text \<open>
  The properties of the checker driver: the constants a declaration uses, the graph of the tasks and
  the worker pool, with runs at concrete stores and schedules.
\<close>

section \<open>A store with one constant\<close>

definition const_a :: name where
  "const_a = Str Anonymous ''A''"

definition one_axiom :: "u32 \<Rightarrow> u32 \<Rightarrow> constant_info" where
  "one_axiom a ty = CAxiom \<lparr>ax_val = \<lparr>cv_name = a, cv_level_params = [], cv_ty = ty\<rparr>, ax_is_unsafe = False\<rparr>"

lemma one_axiom_simps [simp]:
  "decl_terms (one_axiom a ty) = {ty}" "decl_names (one_axiom a ty) = {}" "info_names (one_axiom a ty) = {}"
  by (simp_all add: one_axiom_def decl_terms_def decl_names_def info_names_def)

text \<open>The axiom \<open>A : A\<close>: no type theory is involved.\<close>

lemma intern_one:
  obtains st ty a where "intern_expr flat_hashers None (EConst const_a []) persistent = Inr (ty, st)"
    and "twf flat_hashers None st" and "expr_at None st ty (EConst const_a [])" and "name_at None st (Some a) const_a"
proof -
  have cost: "used persistent + expr_cost (EConst const_a []) \<le> max_rows"
    by (simp add: used_persistent max_rows_def const_a_def)
  obtain ty st where 1: "intern_expr flat_hashers None (EConst const_a []) persistent = Inr (ty, st)"
    "twf flat_hashers None st" "expr_at None st ty (EConst const_a [])"
    by (rule intern_expr_total [OF twf_persistent cost])
  from 1(3) obtain nd where "node_expr None st (expr_at None st) nd (EConst const_a [])" by (rule expr_atE)
  then obtain x where "name_at None st x const_a" by (cases nd) auto
  moreover from this obtain a where "x = Some a" by (cases x) (auto simp: const_a_def)
  ultimately show ?thesis using that 1 by blast
qed

lemma distinct_singleton: "distinct xs \<Longrightarrow> set xs = {a} \<Longrightarrow> xs = [a]"
  by (cases xs; cases "tl xs") (auto simp: insert_eq_iff)


section \<open>The constants of a declaration\<close>

text \<open>C28: \<open>used_constants\<close> ends without an error and returns, each once, the ids of exactly the
  constants that occur in the type, the value or the rules of the declaration, and the names that
  its kind adds (the constructors of an inductive type, the constructor itself, the types of a
  recursor). Sharing in the rows does not matter. (The comment in \<open>build_graph\<close> that speaks of a list full of
  duplicates describes an earlier walk; \<open>build_graph\<close> does not depend on it.)\<close>

theorem used_constants_exact:
  assumes "banks_ok H base st" and "info_at base st info T"
  shows "\<exists>ns. used_constants st base info = Inr ns \<and> distinct ns
    \<and> set ns = {x. \<exists>t \<in> T. \<exists>n \<in> consts_of t. name_at base st (Some x) n} \<union> decl_names info"
  using used_constants_ok [OF assms] by (cases "used_constants st base info") auto

theorem used_constants_exact_witness:
  "\<exists>st ty a. intern_expr flat_hashers None (EConst const_a []) persistent = Inr (ty, st)
     \<and> name_at None st (Some a) const_a \<and> used_constants st None (one_axiom a ty) = Inr [a]"
proof -
  obtain st ty a where 1: "intern_expr flat_hashers None (EConst const_a []) persistent = Inr (ty, st)"
    "twf flat_hashers None st" "expr_at None st ty (EConst const_a [])" "name_at None st (Some a) const_a" by (rule intern_one)
  note ok = twfD(3) [OF 1(2)]
  have "info_at None st (one_axiom a ty) {EConst const_a []}" using 1(3) by (simp add: info_at_def)
  from used_constants_exact [OF ok this] obtain ns where
    2: "used_constants st None (one_axiom a ty) = Inr ns" "distinct ns" "set ns = {x. name_at None st (Some x) const_a}" by auto
  have "set ns = {a}" using 2(3) 1(4) name_at_inject [OF ok] by blast
  from distinct_singleton [OF 2(2) this] 1 2 show ?thesis by blast
qed

section \<open>The graph of the tasks\<close>

text \<open>C27: \<open>build_graph\<close> either reports a constant that the table lacks, or returns a graph in which
  every constant of the table belongs to a task that admits it, no task depends on itself or twice
  on another, every dependency is a task of the graph, and a constant that a declaration uses is of
  the same task or of a dependency of it; a task of quotient constants depends on that of \<open>Eq\<close>.\<close>

theorem build_graph_sound:
  assumes "banks_ok H None st" and "table_ok_in st table"
  shows "case build_graph st table of
      Inl err \<Rightarrow> \<exists>n. err = MissingConstant n
    | Inr g \<Rightarrow>
        (\<forall>n ci. get_decoded table n = Some ci \<longrightarrow> (\<exists>i deps. g_name_to_task g n = Some i \<and> i < length (g_tasks g)
           \<and> n \<in> set (t_admits (g_tasks g ! i)) \<and> used_constants st None ci = Inr deps
           \<and> (\<forall>d \<in> set deps. \<exists>j. g_name_to_task g d = Some j \<and> (j = i \<or> j \<in> set (t_deps (g_tasks g ! i))))))
      \<and> (\<forall>i < length (g_tasks g). t_id (g_tasks g ! i) = i \<and> distinct (t_deps (g_tasks g ! i))
           \<and> set (t_deps (g_tasks g ! i)) \<subseteq> {..<length (g_tasks g)} - {i})
      \<and> (\<forall>i < length (g_tasks g). \<forall>ns eq. t_kind (g_tasks g ! i) = TQuotients ns eq \<longrightarrow>
           (\<exists>j. g_name_to_task g eq = Some j \<and> (j = i \<or> j \<in> set (t_deps (g_tasks g ! i)))))"
proof (cases "build_graph st table")
  case (Inl err)
  with build_graph_ok [OF assms] show ?thesis by (auto simp: missing_errors_def)
next
  case (Inr g)
  with build_graph_ok [OF assms] have g: "graph_ok st table g" by simp
  have "\<exists>i deps. g_name_to_task g n = Some i \<and> i < length (g_tasks g)
      \<and> n \<in> set (t_admits (g_tasks g ! i)) \<and> used_constants st None ci = Inr deps
      \<and> (\<forall>d \<in> set deps. \<exists>j. g_name_to_task g d = Some j \<and> (j = i \<or> j \<in> set (t_deps (g_tasks g ! i))))"
    if n: "get_decoded table n = Some ci" for n ci
  proof -
    from n have "n \<in> dom (get_decoded table)" by blast
    with g obtain i where "i < length (g_tasks g)" "g_name_to_task g n = Some i" "n \<in> set (t_admits (g_tasks g ! i))"
      unfolding graph_ok_def by blast
    moreover from g n obtain j deps where "g_name_to_task g n = Some j" "used_constants st None ci = Inr deps"
      "\<forall>d \<in> set deps. \<exists>k. g_name_to_task g d = Some k \<and> (k = j \<or> k \<in> set (t_deps (g_tasks g ! j)))"
      unfolding graph_ok_def by blast
    ultimately show ?thesis by auto
  qed
  with g Inr show ?thesis unfolding graph_ok_def by simp
qed

definition one_task :: "u32 \<Rightarrow> dep_graph" where
  "one_task a = \<lparr>g_tasks = [\<lparr>t_id = 0, t_kind = TSimple a, t_admits = [a], t_deps = []\<rparr>], g_name_to_task = [a \<mapsto> 0]\<rparr>"

lemma one_task_simps:
  "g_tasks (one_task a) = [\<lparr>t_id = 0, t_kind = TSimple a, t_admits = [a], t_deps = []\<rparr>]"
  "dependents_of [\<lparr>t_id = 0, t_kind = TSimple a, t_admits = [a], t_deps = []\<rparr>] = [[]]"
  by (simp_all add: one_task_def dependents_of_def)

lemma build_one:
  assumes ok: "banks_ok H None st" and ty: "expr_at None st ty (EConst const_a [])" and a: "name_at None st (Some a) const_a"
  shows "table_ok_in st (cc_new [(a, one_axiom a ty)])" and "build_graph st (cc_new [(a, one_axiom a ty)]) = Inr (one_task a)"
proof -
  let ?t = "cc_new [(a, one_axiom a ty)]"
  have get: "get_decoded ?t n = (if n = a then Some (one_axiom a ty) else None)" for n
    by (simp add: get_decoded_def cc_new_def)
  show "table_ok_in st ?t"
    using ty a unfolding table_ok_in_def get by (auto simp: cc_new_def decodable_def)
  have "info_at None st (one_axiom a ty) {EConst const_a []}" using ty by (simp add: info_at_def)
  from used_constants_ok [OF ok this] obtain deps where deps: "used_constants st None (one_axiom a ty) = Inr deps"
    "set deps = {a}" using name_at_inject [OF ok a] a by (cases "used_constants st None (one_axiom a ty)") auto
  have "add_deps st [a \<mapsto> 0] 0 ds {} ts = Inr ({}, ts)" if "set ds \<subseteq> {a}" for ds ts
    using that by (induction ds) (auto simp: add_edge_def)
  moreover have "sort (map fst (iter_decoded ?t)) = [a]" by (simp add: iter_decoded_def cc_new_def)
  moreover have "new_task st ?t [a] a 0 = Inr (Some (\<lparr>t_id = 0, t_kind = TSimple a, t_admits = [a], t_deps = []\<rparr>, [a]))"
    unfolding new_task_def get by (simp add: one_axiom_def)
  ultimately show "build_graph st ?t = Inr (one_task a)"
    using deps by (simp add: build_graph_def get claim_apply claim_def one_task_def)
qed

theorem build_graph_sound_witness:
  "\<exists>st ty a. intern_expr flat_hashers None (EConst const_a []) persistent = Inr (ty, st)
     \<and> build_graph st (cc_new [(a, one_axiom a ty)]) = Inr (one_task a)
     \<and> (\<forall>i < length (g_tasks (one_task a)). distinct (t_deps (g_tasks (one_task a) ! i)))"
proof -
  obtain st ty a where 1: "intern_expr flat_hashers None (EConst const_a []) persistent = Inr (ty, st)"
    "twf flat_hashers None st" "expr_at None st ty (EConst const_a [])" "name_at None st (Some a) const_a" by (rule intern_one)
  note ok = twfD(3) [OF 1(2)]
  note one = build_one [OF ok 1(3,4)]
  from build_graph_sound [OF ok one(1)] one(2) have
    "\<forall>i < length (g_tasks (one_task a)). distinct (t_deps (g_tasks (one_task a) ! i))" by simp
  with 1 one(2) show ?thesis by blast
qed

section \<open>The worker pool\<close>

text \<open>A schedule: at each turn the worker that moves, and the verdict if that is what it waits for.\<close>

fun drive :: "dep_graph \<Rightarrow> (nat \<times> verdict) list \<Rightarrow> sched \<Rightarrow> sched" where
  "drive g [] s = s"
| "drive g ((w, v) # turns) s =
     (case worker_step (g_tasks g) (dependents_of (g_tasks g)) v w s of Some s' \<Rightarrow> drive g turns s' | None \<Rightarrow> drive g turns s)"

lemma reachable_drive: "reachable table g jobs s \<Longrightarrow> reachable table g jobs (drive g turns s)"
proof (induction g turns s rule: drive.induct)
  case (2 g w v turns s)
  show ?case
  proof (cases "worker_step (g_tasks g) (dependents_of (g_tasks g)) v w s")
    case None
    with 2 show ?thesis by simp
  next
    case (Some s')
    have "reachable table g jobs s'" by (rule reachable.step [OF 2(3) step.work [OF Some]])
    with 2(2) Some show ?thesis by simp
  qed
qed simp

definition two_tasks :: dep_graph where
  "two_tasks = \<lparr>g_tasks =
     [\<lparr>t_id = 0, t_kind = TSimple 7, t_admits = [7], t_deps = []\<rparr>, \<lparr>t_id = 1, t_kind = TSimple 8, t_admits = [8], t_deps = [0]\<rparr>],
     g_name_to_task = [7 \<mapsto> 0, 8 \<mapsto> 1]\<rparr>"

definition two_axioms :: checked_constants where
  "two_axioms = cc_new [(7, one_axiom 7 0), (8, one_axiom 8 0)]"

definition run_two :: "nat \<Rightarrow> sched" where
  "run_two k = drive two_tasks (replicate k (0, Passed [])) (start_state two_axioms two_tasks 1)"

lemma reachable_run_two: "reachable two_axioms two_tasks 1 (run_two k)"
  unfolding run_two_def by (intro reachable_drive reachable.start)

lemma cc_ok_two: "cc_ok two_axioms"
  unfolding two_axioms_def by (rule cc_ok_new) simp

lemmas drive_simps = run_two_def numeral_eq_Suc two_tasks_def start_state_def initial_queue_def worker_step_def acquire_def
  with_index_def dependents_of_def add_dependent_def admitted_names_def set_pc_def notify_all_def usize_dec_def
  task_checked_count_def sets_quot_def

lemma run_two_8: "s_workers (run_two 8) = [Running 1] \<and> s_passed (run_two 8) = [0]"
  by (simp add: drive_simps)

lemma run_two_15: "s_workers (run_two 15) = [Exited] \<and> s_failure (run_two 15) = None"
  by (simp add: drive_simps)

text \<open>C29: in every reachable state of the pool, whatever the schedule and the verdicts, no worker has
  panicked, and a task that is being checked is a task of the graph that no other worker has and
  that was not checked before; its dependencies are in the graph and have passed, and their names are
  visible in the gated table, and so is the flag that quotients are initialized if one of them sets it.\<close>

theorem pool_checks_in_order:
  assumes ok: "cc_ok table" and reach: "reachable table g jobs s" and w: "w < length (s_workers s)" and run: "s_workers s ! w = Running t"
  shows "Panicked \<notin> set (s_workers s) \<and> t < length (g_tasks g) \<and> t \<notin> set (s_passed s) \<and> t \<notin> set (s_aborted s)
    \<and> (\<forall>u < length (s_workers s). s_workers s ! u = Running t \<longrightarrow> u = w)
    \<and> (\<forall>d \<in> set (t_deps (g_tasks g ! t)). d < length (g_tasks g) \<and> d \<in> set (s_passed s)
         \<and> (\<forall>n \<in> set (admitted_names (t_kind (g_tasks g ! d)) []). cc_get (s_table s) n = get_decoded table n)
         \<and> (sets_quot (t_kind (g_tasks g ! d)) \<longrightarrow> s_quot s))"
proof -
  have inv: "pool_inv table (g_tasks g) s" by (rule pool_inv_reachable [OF ok reach])
  then have b: "balanced (g_tasks g) s" and f: "flagged s" and d: "disclosed table (g_tasks g) s" by (simp_all add: pool_inv_def)
  have here: "0 < held t (s_workers s ! w)" by (simp add: run)
  then have 1: "t < length (g_tasks g)" "s_pending s ! t = 0" "set (needs (g_tasks g) t) \<subseteq> set (s_passed s)"
    using held_ready [OF b w] by blast+
  have one: "total (held t) s = 1 \<and> count_list (s_passed s) t = 0 \<and> count_list (s_aborted s) t = 0"
    using balancedD(2) [OF b, of t] 1 total_ge [OF w, of "held t"] here by (simp add: places_def)
  have only: "u = w" if u: "u < length (s_workers s)" "s_workers s ! u = Running t" for u
  proof (rule ccontr)
    assume "u \<noteq> w"
    with total_set_pc [OF w, of "held t" Acquire] total_ge [of u "set_pc w Acquire s" "held t"] u run one show False by simp
  qed
  have "d < length (g_tasks g)" if "d \<in> set (s_passed s)" for d
    using passed_runnable [OF inv that] by (auto elim: runnable.cases)
  moreover have "published (g_tasks g) s d \<and> decoded (s_table s) = decoded table" if "d \<in> set (s_passed s)" for d
    using d that by (simp add: disclosed_def)
  ultimately show ?thesis
    using f 1 one only by (auto simp: flagged_def needs_def published_def own_names_def opened_def get_decoded_def count_list_0_iff)
qed

theorem pool_checks_in_order_witness:
  "s_workers (run_two 8) ! 0 = Running 1 \<and> 0 \<in> set (s_passed (run_two 8)) \<and> cc_get (s_table (run_two 8)) 7 = Some (one_axiom 7 0)"
proof -
  have w: "0 < length (s_workers (run_two 8))" "s_workers (run_two 8) ! 0 = Running 1" by (simp_all add: run_two_8)
  from pool_checks_in_order [OF cc_ok_two reachable_run_two w] have
    "\<forall>n \<in> set (admitted_names (t_kind (g_tasks two_tasks ! 0)) []). cc_get (s_table (run_two 8)) n = get_decoded two_axioms n"
    by (simp add: two_tasks_def)
  then show ?thesis
    using run_two_8 by (simp add: two_tasks_def admitted_names_def two_axioms_def get_decoded_def cc_new_def)
qed

text \<open>C32: as long as a worker has not left, some worker can move, so that the pool never waits for ever:
  neither on the condition variable nor on a dependency that will not come.\<close>

theorem pool_never_stuck:
  assumes "cc_ok table" and "reachable table g jobs s" and "p \<in> set (s_workers s)" and "p \<noteq> Exited"
  shows "\<exists>s'. step g s s'"
  using no_deadlock [OF pool_inv_reachable [OF assms(1,2)] assms(3,4)] .

theorem pool_never_stuck_witness: "\<exists>s'. step two_tasks (run_two 8) s'"
  by (rule pool_never_stuck [OF cc_ok_two reachable_run_two, of "Running 1"]) (simp_all add: run_two_8)

text \<open>C33: the pool makes only finitely many steps, whatever the graph (cyclic and dangling ones
  included), the schedule and the verdicts; only spurious wake-ups are not steps.\<close>

theorem pool_terminates:
  assumes "cc_ok table" and "reachable table g jobs (f 0)"
  shows "\<not> (\<forall>k. step g (f k) (f (Suc k)))"
proof
  assume steps: "\<forall>k. step g (f k) (f (Suc k))"
  have "reachable table g jobs (f k)" for k
    using steps by (induction k) (auto intro: assms(2) reachable.step)
  then have "(f (Suc k), f k) \<in> pool_less (g_tasks g)" for k
    using pool_less_step [OF pool_inv_reachable [OF assms(1)]] steps by blast
  with wf_pool_less [of "g_tasks g"] show False unfolding wf_iff_no_infinite_down_chain by blast
qed

theorem pool_terminates_witness: "\<not> (\<forall>k. step two_tasks (run_two k) (run_two (Suc k)))"
  by (rule pool_terminates [OF cc_ok_two reachable_run_two])



section \<open>The result\<close>

lemma distinct_all: "distinct xs \<Longrightarrow> set xs = {..<n} \<Longrightarrow> length xs = n \<and> sum_list (map f xs) = (\<Sum>i < n. f i :: nat)"
  by (metis card_lessThan distinct_card sum_list_distinct_conv_sum_set)

lemma stuck_decl_mem: "stuck_decl ts ps = Some n \<Longrightarrow> \<exists>t \<in> set ts. n \<in> set (t_admits t)"
  by (induction ts ps rule: stuck_decl.induct) (auto split: if_splits list.splits)

text \<open>C31: what the driver reports once every worker has left is the same for every schedule on which no
  check failed, however many workers there are: if the dependencies of all tasks are in the graph and
  form no cycle, every task was checked and the counts are those of the graph and the table;
  otherwise the result is \<open>DependencyCycle\<close>. A failure of a check is reported instead.\<close>

theorem check_result_deterministic:
  assumes ok: "cc_ok table" and reach: "reachable table g jobs s" and ended: "\<forall>p \<in> set (s_workers s). p = Exited"
    and banks: "banks_ok H None st" and any: "\<forall>n. any_key = Some n \<longrightarrow> (\<exists>nm. name_at None st (Some n) nm)"
    and named: "\<forall>t \<in> set (g_tasks g). \<forall>n \<in> set (t_admits t). \<exists>nm. name_at None st (Some n) nm"
    and keys: "\<forall>n \<in> dom (get_decoded table). \<exists>nm. name_at None st (Some n) nm"
  shows "case s_failure s of
      Some f \<Rightarrow> check_result st table g any_key s = Inr (Inl f)
    | None \<Rightarrow>
        if \<forall>i < length (g_tasks g). runnable (g_tasks g) i
        then set (s_passed s) = {..<length (g_tasks g)} \<and> check_result st table g any_key s = Inr (Inr
          \<lparr>n_checked = (\<Sum>i < length (g_tasks g). task_checked_count (t_kind (g_tasks g ! i))),
           n_skipped_unsafe = length (filter (\<lambda>(_, ci). is_unsafe ci \<or> is_partial ci) (decoded table))\<rparr>)
        else \<exists>d nm. check_result st table g any_key s = Inr (Inl \<lparr>f_decl = d, f_error = DependencyCycle nm\<rparr>)"
proof (cases "s_failure s")
  case None
  have inv: "pool_inv table (g_tasks g) s" by (rule pool_inv_reachable [OF ok reach])
  note E = quiet_end [OF inv ended workers_reachable [OF reach] None]
  have runs: "{i. runnable (g_tasks g) i} \<subseteq> {..<length (g_tasks g)}" by (auto elim: runnable.cases)
  show ?thesis
  proof (cases "\<forall>i < length (g_tasks g). runnable (g_tasks g) i")
    case True
    with runs E(1) have all: "set (s_passed s) = {..<length (g_tasks g)}" by blast
    with None True E distinct_all [OF E(2) all, of "\<lambda>t. task_checked_count (t_kind (g_tasks g ! t))"] show ?thesis
      by (simp add: check_result_def iter_decoded_def)
  next
    case False
    with runs E(1) have "set (s_passed s) \<subset> {..<length (g_tasks g)}" by blast
    then have "length (s_passed s) < length (g_tasks g)"
      using psubset_card_mono [of "{..<length (g_tasks g)}" "set (s_passed s)"] distinct_card [OF E(2)] by simp
    then have short: "s_done s \<noteq> length (g_tasks g)" using E(3) by simp
    let ?d = "option_or (stuck_decl (g_tasks g) (s_pending s))
        (option_or any_key (case iter_decoded table of [] \<Rightarrow> None | (n, _) # _ \<Rightarrow> Some n))"
    have "\<exists>nm. name_at None st (Some n) nm" if "?d = Some n" for n
    proof -
      from that consider "stuck_decl (g_tasks g) (s_pending s) = Some n" | "any_key = Some n"
        | ci xs where "iter_decoded table = (n, ci) # xs"
        by (auto simp: option_or_def split: option.splits list.splits)
      then show ?thesis
      proof cases
        case 3
        then have "n \<in> dom (get_decoded table)" by (auto simp: iter_decoded_def get_decoded_def)
        with keys show ?thesis by blast
      qed (use named any stuck_decl_mem in blast)+
    qed
    moreover have "from_index 0 False \<noteq> None" by (subst from_index_eq) (simp_all add: max_rows_def)
    ultimately have "\<exists>d nm. check_result st table g any_key s = Inr (Inl \<lparr>f_decl = d, f_error = DependencyCycle nm\<rparr>)"
      using short None to_name_ok [OF banks] unfolding check_result_def by (cases ?d) force+
    with None False show ?thesis by (simp only: option.case if_False)
  qed
qed (simp add: check_result_def)

lemma run_one:
  "s_workers (drive (one_task a) (replicate 7 (0, Passed [])) (start_state table (one_task a) (Suc 0))) = [Exited]"
  "s_failure (drive (one_task a) (replicate 7 (0, Passed [])) (start_state table (one_task a) (Suc 0))) = None"
  by (simp_all add: one_task_simps numeral_eq_Suc start_state_def initial_queue_def worker_step_def acquire_def with_index_def
      admitted_names_def set_pc_def notify_all_def usize_dec_def task_checked_count_def sets_quot_def)

theorem check_result_deterministic_witness:
  "\<exists>st ty a. intern_expr flat_hashers None (EConst const_a []) persistent = Inr (ty, st)
     \<and> check_result st (cc_new [(a, one_axiom a ty)]) (one_task a) (Some a)
         (drive (one_task a) (replicate 7 (0, Passed [])) (start_state (cc_new [(a, one_axiom a ty)]) (one_task a) 1))
       = Inr (Inr \<lparr>n_checked = 1, n_skipped_unsafe = 0\<rparr>)"
proof -
  obtain st ty a where 1: "intern_expr flat_hashers None (EConst const_a []) persistent = Inr (ty, st)"
    "twf flat_hashers None st" "name_at None st (Some a) const_a" by (rule intern_one)
  let ?t = "cc_new [(a, one_axiom a ty)]"
  let ?s = "drive (one_task a) (replicate 7 (0, Passed [])) (start_state ?t (one_task a) 1)"
  have ok: "cc_ok ?t" by (rule cc_ok_new) simp
  have reach: "reachable ?t (one_task a) 1 ?s" by (intro reachable_drive reachable.start)
  have runs: "\<forall>i < length (g_tasks (one_task a)). runnable (g_tasks (one_task a)) i"
    by (simp add: one_task_def) (rule runnable; simp)
  have names: "\<forall>n. Some a = Some n \<longrightarrow> (\<exists>nm. name_at None st (Some n) nm)"
    "\<forall>t \<in> set (g_tasks (one_task a)). \<forall>n \<in> set (t_admits t). \<exists>nm. name_at None st (Some n) nm"
    "\<forall>n \<in> dom (get_decoded ?t). \<exists>nm. name_at None st (Some n) nm"
    using 1(3) by (auto simp: one_task_def get_decoded_def cc_new_def split: if_splits)
  have ended: "\<forall>p \<in> set (s_workers ?s). p = Exited" by (simp add: run_one)
  have "check_result st ?t (one_task a) (Some a) ?s = Inr (Inr
      \<lparr>n_checked = (\<Sum>i < length (g_tasks (one_task a)). task_checked_count (t_kind (g_tasks (one_task a) ! i))),
       n_skipped_unsafe = length (filter (\<lambda>(_, ci). is_unsafe ci \<or> is_partial ci) (decoded ?t))\<rparr>)"
    using check_result_deterministic [OF ok reach ended twfD(3) [OF 1(2)] names] runs run_one [of a ?t] by simp
  also have "\<dots> = Inr (Inr \<lparr>n_checked = 1, n_skipped_unsafe = 0\<rparr>)"
    by (simp add: one_task_def task_checked_count_def cc_new_def one_axiom_def is_unsafe_def is_partial_def)
  finally show ?thesis using 1(1) by blast
qed

end
