(* ===== verification/Spec2Isabelle.thy ===== *)
theory Spec2Isabelle
  imports Level_Properties Store_Properties Term_Properties Subst_Properties Context_Properties Kernel_Properties Promotion_Properties Checker_Properties Check_Properties
begin

text \<open>
  A verification library for the kernel of leanr, a checker for Lean 4 proofs written in Rust
  (\<open>crates/leanr_kernel\<close>), and for the driver that checks a library in parallel (\<open>crates/leanr_check\<close>).

  \<^bold>\<open>The program.\<close> The kernel keeps every name, universe level and term as a row of a
  hash-consing bank and passes 32-bit ids around; an id with the top bit set belongs to a scratch
  store whose base is the persistent one. Over the banks stand the bridges from and to trees, the
  substitution walkers, the local contexts with their telescopes, and then the type checker. The driver
  reads declarations over ids from a gated table, groups them into tasks, computes which task uses
  which, and lets a pool of workers check a task as soon as what it uses has passed.

  \<^bold>\<open>Conventions.\<close> A Rust function is a definition of the same name. \<open>Result\<close> is
  \<open>kernel_error + 'a\<close>; a panic (an index out of range, \<open>expect\<close>, \<open>unreachable!\<close>) is the error value
  \<open>Panic\<close>, so that ``returns or fails with ...'' excludes it. A \<open>&mut Store\<close> is returned beside the
  result; a \<open>&mut RecGuard\<close> is the depth it holds, a natural number \<open>d\<close> or \<open>g\<close>, bounded by
  \<open>MAX_REC_DEPTH\<close>. Machine integers are words; a \<open>Nat\<close> (\<open>BigUint\<close>) is a natural number.

  \<^bold>\<open>Theories, in the order of the code.\<close>
  \<^item> \<open>Prelude\<close>: results, the guard (\<open>guard.rs\<close>), indexing, and the rules that carry the proofs.
  \<^item> \<open>Names\<close> (\<open>name.rs\<close>) and \<open>Levels\<close> (\<open>level.rs\<close>); \<open>Level_Semantics\<close>, \<open>Level_Guard\<close>, \<open>Level_Normalize\<close> and
    \<open>Level_Total\<close>: the value of a level under an assignment, that \<open>normalize\<close> and the smart
    constructors keep it, what the guard can change, and when they return. \<open>Level_Properties\<close> states it.
  \<^item> \<open>ExprData\<close>: the 64-bit word and the tag byte (\<open>expr.rs\<close>, \<open>bank/terms.rs\<close>). \<open>Probe\<close>: the id table
    (\<open>bank/probe.rs\<close>) and why its triangular probing ends.
  \<^item> \<open>Banks\<close>, \<open>Store\<close>, \<open>Terms\<close>: the pools and banks, the \<open>Store\<close> with its pools, names and levels
    (\<open>bank/mod.rs\<close>), and the rows and bridges of terms (\<open>bank/terms.rs\<close>).
  \<^item> \<open>Bank_Contracts\<close>, \<open>Store_Contracts\<close>: the interface \<open>id_bank\<close> of a bank that gives each row one id,
    with an interpretation for every bank. \<open>Denotation\<close>, \<open>Term_Denotation\<close>: which tree an id denotes.
    \<open>Store_Intern\<close>, \<open>Term_Intern\<close>: every row constructor meets the contract \<open>interns\<close>. \<open>Post_Order\<close>: the
    interface \<open>post_order\<close> of the explicit-stack walks, interpreted by \<open>Store_Levels\<close> for levels, by
    \<open>Term_Bridge\<close> for terms and by \<open>Promotion_Contracts\<close> for promotion. \<open>Store_Properties\<close> and \<open>Term_Properties\<close> state the results.
  \<^item> \<open>Regions\<close>: a scratch store over a persistent one, and what is read through it while the persistent store
    grows. \<open>Promotion\<close> (\<open>bank/scratch.rs\<close>), \<open>Promotion_Contracts\<close>, \<open>Promotion_Properties\<close>: a term of the scratch
    store is copied into the persistent one.
  \<^item> \<open>Binding\<close>, \<open>Binding_Algebra\<close>: the reference operations on trees (\<open>lift\<close>, \<open>lower\<close>, \<open>inst\<close>, \<open>abstr\<close>,
    \<open>inst_lparams\<close>) and their algebra. \<open>Subst\<close>: the walkers of \<open>subst.rs\<close>. \<open>Walk\<close>: the interface \<open>walk\<close> of a
    walker, interpreted in \<open>Subst_Shift\<close> and \<open>Subst_Abstract\<close> for all five. \<open>Subst_Properties\<close> states that
    each walker refines its reference operation.
  \<^item> \<open>Local_Context\<close> (\<open>local_ctx.rs\<close>, and the telescopes of \<open>subst.rs\<close>), \<open>Context_Contracts\<close>, \<open>Telescope\<close>,
    \<open>Context_Properties\<close>: declarations, their index, and that \<open>mk_binding\<close> builds the telescope.
  \<^item> \<open>Level_Geq\<close> and \<open>Name_Surgery\<close> (\<open>inductive.rs\<close>): the order test on levels and the names made from
    names. \<open>Union_Find\<close>, \<open>Equiv_Manager\<close> (\<open>tc.rs\<close>): the equality cache of the type checker, sound for every
    congruence of trees. \<open>Kernel_Properties\<close> states the results.
  \<^item> The type checker (\<open>tc.rs\<close>, \<open>quot_red.rs\<close>, \<open>num.rs\<close>): \<open>Checker_State\<close> (the record \<open>tc\<close>, computations,
    helpers), \<open>Checker_Whnf\<close> and \<open>Checker_Reduce\<close> (reduction), \<open>Checker_Infer\<close> (types), \<open>Checker_Defeq\<close> and
    \<open>Checker_Run\<close> (definitional equality, a new checker). The methods call each other through the record
    \<open>calls\<close>; \<open>calls_at H V n\<close> ties the knot with calls nested at most \<open>n\<close> deep. \<open>Checker_Ids\<close> and \<open>Level_Errors\<close>
    say what may be relied upon about an id and that the level operations never panic. \<open>Checker_Contracts\<close> has the invariant \<open>tc_ok\<close> and
    \<open>contract\<close>s, \<open>Checker_Rules\<close> one rule for each construct, \<open>Checker_Specs\<close>, \<open>Checker_Locals\<close>, \<open>Checker_Loops\<close>
    the contracts of what the methods are made of. The locale \<open>sound_calls\<close> (\<open>Checker_Safe_Whnf\<close>) is the
    interface of the recursive methods; under it every method meets its contract (\<open>Checker_Safe_Reduce\<close>,
    \<open>Checker_Safe_Infer\<close>, \<open>Checker_Safe_Defeq\<close>, \<open>Checker_Safe_Run\<close>), and it is interpreted for every depth.
    \<open>Checker_Fuel\<close>: a larger depth never changes an answer. \<open>Checker_New\<close>: the constructor.
    \<open>Checker_Properties\<close> states the results.
  \<^item> \<open>Decls\<close> (\<open>decl.rs\<close>, \<open>checked.rs\<close>): declarations over ids and the gated table. \<open>Used_Consts\<close>
    (\<open>used_consts.rs\<close>): the walk that collects the constants of a declaration. \<open>Check_Graph\<close>
    (\<open>leanr_check/src/graph.rs\<close>): the tasks and their dependencies.
  \<^item> \<open>Schedule\<close> (\<open>leanr_check/src/schedule.rs\<close>): the pool as a step relation; a step is one critical section
    or one atomic operation of one worker, and what the kernel answers is an input of the step.
    \<open>Schedule_Invariant\<close> and \<open>Schedule_Reachable\<close>: where every task is, what its counter counts, what has been
    published; \<open>Schedule_Ends\<close>: no deadlock, a measure for termination, the final states.
    \<open>Check_Properties\<close> states the results for the driver.

  \<^bold>\<open>What the lemmas show.\<close> \<open>twf H base st\<close> is the well-formedness of a store: the rows of each bank
  are distinct, its table is exact, every id that is used denotes a tree, and every cached word, hash
  and flag is that of the tree. \<open>grows base st st'\<close> says that ids in use keep their meaning, \<open>interns\<close> and
  \<open>runs\<close> bundle what an operation guarantees (the errors it can have, the rows it can add, that a known
  result changes nothing), and the refinement theorems relate ids through \<open>expr_at\<close>.

  \<^bold>\<open>Bounds and fuel.\<close> \<open>max_rows\<close> is the number of ids of one bank; \<open>used\<close> is the number of rows of all banks of
  a store together, and an operation fails with \<open>BankExhausted\<close> only where \<open>used\<close> plus its cost (\<open>expr_cost\<close>,
  \<open>room\<close>, ...) exceeds \<open>max_rows\<close>. This is sufficient, not necessary: the code fails where a single bank is full. \<open>height\<close> is the guard depth that a walk can need. Below the type checker no fuel is used: the recursions
  of the code that may not end in general are partial functions whose termination is part of the contracts,
  and the recursive walkers end by the guard. The type checker need not end (unfolding may go on for ever
  and the rounds of its loops are not bounded by the guard), so its calls carry a bound, and \<open>Diverges\<close> is the
  answer when it is exceeded. The properties hold for every bound, and an answer other than \<open>Diverges\<close> is
  the same for every larger bound.

  \<^bold>\<open>Parameters.\<close> \<open>hashers\<close> holds the standard library's hash functions (\<open>SipHash\<close> with fixed keys), of which
  nothing is assumed; the runs use one that collides everywhere.

  \<^bold>\<open>Not modelled.\<close> Printing, the iterative \<open>Drop\<close> of trees, the growing of the native stack (no effect on
  values). Of the driver, what one task's kernel check answers: it is arbitrary in the step relation, so
  that the results about the pool hold for every kernel. Spurious wake-ups of the condition variable are
  steps of their own (\<open>wake\<close>). Memory ordering: the steps are interleaved, which the mutex and the
  release/acquire pairs of the code justify. Of the type checker: the native stack, the trace of reductions
  (a feature that only observes), and memory: a left shift of a literal by a large amount aborts the process.
  An error drops the checker's state, since every error ends the check of its declaration. Inductive types,
  the environment, replay and the crates around the kernel are not modelled.
\<close>

end
